(* ===== verification/Prelude.thy ===== *)
theory Prelude
  imports Complex_Main "HOL-Library.AList"
begin

text \<open>
  What every component of the model shares: JSON values as the REST interface of the
  controller delivers them, exceptions as values, JavaScript's conversion of numbers to
  strings, string operations the controllers use, and the development's fact collections.
  An \<open>undefined\<close> value is \<open>None\<close> of an option type; \<open>null\<close> is a JSON value of its own.
  JavaScript numbers are exact here (\<open>nat\<close>, \<open>int\<close>, \<open>rat\<close> or \<open>real\<close>): the program only adds,
  halves and scales pixel counts and counters.
\<close>

named_theorems row_simps "facts about table rows and the response handlers that maintain them"
named_theorems geom_simps "unfolding of the geometry of widgets"

section \<open>Exceptions and JSON\<close>

datatype js_error = TypeError

type_synonym 'a js = "js_error + 'a"

datatype json =
    JNull
  | JBool bool
  | JNum int
  | JStr string
  | JArr "json list"
  | JObj "(string \<times> json) list"

text \<open>A handler that throws keeps the state changes it made before the throw.\<close>

type_synonym 's outcome = "'s \<times> js_error option"

abbreviation completes :: "'s outcome \<Rightarrow> bool" where
  "completes r \<equiv> snd r = None"

section \<open>Numbers and strings\<close>

definition digit_char :: "nat \<Rightarrow> char" where
  "digit_char d = ''0123456789abcdef'' ! d"

fun string_of_nat :: "nat \<Rightarrow> string" where
  "string_of_nat n =
     (if n < 10 then [digit_char n] else string_of_nat (n div 10) @ [digit_char (n mod 10)])"

declare string_of_nat.simps [simp del]

definition is_digit :: "char \<Rightarrow> bool" where
  "is_digit c \<longleftrightarrow> c \<in> set ''0123456789''"

lemma digit_char_digit: "d < 10 \<Longrightarrow> is_digit (digit_char d)"
  by (auto simp: digit_char_def is_digit_def less_Suc_eq numeral_eq_Suc)

lemma string_of_nat_digits: "list_all is_digit (string_of_nat n)"
proof (induction n rule: string_of_nat.induct)
  case (1 n)
  then show ?case
    by (cases "n < 10") (simp_all add: string_of_nat.simps [of n] digit_char_digit)
qed

lemma string_of_nat_not_Nil [simp]: "string_of_nat n \<noteq> []"
  by (simp add: string_of_nat.simps [of n])

lemma Nil_not_string_of_nat [simp]: "[] \<noteq> string_of_nat n"
  using string_of_nat_not_Nil [of n] by metis

lemma digit_char_inj: "a < 10 \<Longrightarrow> b < 10 \<Longrightarrow> digit_char a = digit_char b \<Longrightarrow> a = b"
  by (auto simp: digit_char_def less_Suc_eq numeral_eq_Suc)

lemma string_of_nat_inj: "string_of_nat m = string_of_nat n \<Longrightarrow> m = n"
proof (induction m arbitrary: n rule: string_of_nat.induct)
  case (1 m)
  show ?case
  proof (cases "m < 10 \<or> n < 10")
    case True
    then show ?thesis
      using 1 digit_char_inj
      by (cases "m < 10"; cases "n < 10") (auto simp: string_of_nat.simps [of m] string_of_nat.simps [of n])
  next
    case False
    then have eq: "string_of_nat (m div 10) = string_of_nat (n div 10)" "digit_char (m mod 10) = digit_char (n mod 10)"
      using 1(2) by (simp_all add: string_of_nat.simps [of m] string_of_nat.simps [of n])
    have "m div 10 = n div 10" using 1(1) [OF _ eq(1)] False by simp
    moreover have "m mod 10 = n mod 10" using digit_char_inj [OF _ _ eq(2)] by simp
    ultimately show ?thesis by (metis div_mult_mod_eq)
  qed
qed

definition string_of_int :: "int \<Rightarrow> string" where
  "string_of_int i = (if i < 0 then ''-'' @ string_of_nat (nat (- i)) else string_of_nat (nat i))"

definition join :: "string \<Rightarrow> string list \<Rightarrow> string" where
  "join sep xs = (case xs of [] \<Rightarrow> [] | y # ys \<Rightarrow> y @ concat (map (\<lambda>s. sep @ s) ys))"

text \<open>The conversion \<open>"" + v\<close>; \<open>null\<close> inside an array prints as the empty string.\<close>

fun to_string :: "json \<Rightarrow> string" and elem_string :: "json \<Rightarrow> string" where
  "to_string JNull = ''null''"
| "to_string (JBool b) = (if b then ''true'' else ''false'')"
| "to_string (JNum i) = string_of_int i"
| "to_string (JStr s) = s"
| "to_string (JArr xs) = join '','' (map elem_string xs)"
| "to_string (JObj _) = ''[object Object]''"
| "elem_string JNull = ''''"
| "elem_string (JBool b) = (if b then ''true'' else ''false'')"
| "elem_string (JNum i) = string_of_int i"
| "elem_string (JStr s) = s"
| "elem_string (JArr xs) = join '','' (map elem_string xs)"
| "elem_string (JObj _) = ''[object Object]''"

text \<open>An absent property reads as \<open>undefined\<close>.\<close>

definition opt_string :: "json option \<Rightarrow> string" where
  "opt_string v = (case v of None \<Rightarrow> ''undefined'' | Some j \<Rightarrow> to_string j)"

text \<open>\<open>s.substr(0, s.length - 2)\<close>: a length that is not positive gives the empty string.\<close>

definition chop2 :: "string \<Rightarrow> string" where
  "chop2 s = take (length s - 2) s"

text \<open>\<open>s.replace(c, "")\<close> with a string pattern of one character: the first occurrence only.\<close>

fun remove_first :: "char \<Rightarrow> string \<Rightarrow> string" where
  "remove_first c [] = []"
| "remove_first c (x # xs) = (if x = c then xs else x # remove_first c xs)"

text \<open>\<open>s.indexOf(pat) >= 0\<close>.\<close>

fun starts_with :: "string \<Rightarrow> string \<Rightarrow> bool" where
  "starts_with [] s = True"
| "starts_with (p # ps) [] = False"
| "starts_with (p # ps) (c # cs) = (p = c \<and> starts_with ps cs)"

fun has_substring :: "string \<Rightarrow> string \<Rightarrow> bool" where
  "has_substring pat [] = (pat = [])"
| "has_substring pat (c # cs) = (starts_with pat (c # cs) \<or> has_substring pat cs)"

lemma starts_with_iff: "starts_with p s \<longleftrightarrow> (\<exists>r. s = p @ r)"
  by (induction p s rule: starts_with.induct) auto

lemma starts_with_length: "starts_with p s \<Longrightarrow> length p \<le> length s"
  by (auto simp: starts_with_iff)

lemma has_substring_iff: "has_substring p s \<longleftrightarrow> (\<exists>a b. s = a @ p @ b)"
proof (induction s)
  case Nil
  then show ?case by simp
next
  case (Cons c cs)
  show ?case
  proof
    assume "has_substring p (c # cs)"
    then consider "starts_with p (c # cs)" | "has_substring p cs" by auto
    then show "\<exists>a b. c # cs = a @ p @ b"
    proof cases
      case 1
      then obtain r where "c # cs = [] @ p @ r" by (auto simp: starts_with_iff)
      then show ?thesis by blast
    next
      case 2
      then obtain a b where "cs = a @ p @ b" using Cons.IH by blast
      then have "c # cs = (c # a) @ p @ b" by simp
      then show ?thesis by blast
    qed
  next
    assume "\<exists>a b. c # cs = a @ p @ b"
    then obtain a b where ab: "c # cs = a @ p @ b" by blast
    show "has_substring p (c # cs)"
    proof (cases a)
      case Nil
      with ab have "starts_with p (c # cs)" by (auto simp: starts_with_iff)
      then show ?thesis by simp
    next
      case (Cons x xs)
      with ab have "cs = xs @ p @ b" by simp
      then show ?thesis using Cons.IH by auto
    qed
  qed
qed

definition is_space :: "char \<Rightarrow> bool" where
  "is_space c \<longleftrightarrow> c \<in> {CHR '' '', CHR 0x09, CHR 0x0A, CHR 0x0B, CHR 0x0C, CHR 0x0D, CHR 0xA0}"

definition lower_char :: "char \<Rightarrow> char" where
  "lower_char c = (let n = of_char c :: int in if 65 \<le> n \<and> n \<le> 90 then char_of (n + 32) else c)"

definition trim :: "string \<Rightarrow> string" where
  "trim s = rev (dropWhile is_space (rev (dropWhile is_space s)))"

text \<open>\<open>String.split\<close> at one character; the first argument is what was read since the last one.\<close>

fun split_on :: "char \<Rightarrow> string \<Rightarrow> string \<Rightarrow> string list" where
  "split_on d acc [] = [acc]"
| "split_on d acc (c # cs) = (if c = d then acc # split_on d [] cs else split_on d (acc @ [c]) cs)"

lemma split_on_none:
  "d \<notin> set s \<Longrightarrow> split_on d acc s = [acc @ s]"
  "d \<notin> set s \<Longrightarrow> split_on d acc (s @ d # r) = (acc @ s) # split_on d [] r"
  by (induction s arbitrary: acc) auto

lemma dropWhile_id: "s = [] \<or> \<not> P (hd s) \<Longrightarrow> dropWhile P s = s"
  by (cases s) auto

lemma trim_id: "s = [] \<or> \<not> is_space (hd s) \<and> \<not> is_space (last s) \<Longrightarrow> trim s = s"
  by (auto simp: trim_def dropWhile_id hd_rev)

section \<open>Joining pieces with a trailing separator\<close>

lemma chop2_append [simp]: "length t = 2 \<Longrightarrow> chop2 (s @ t) = s"
  by (simp add: chop2_def)

lemma chop2_Nil [simp]: "chop2 [] = []"
  by (simp add: chop2_def)

lemma join_Nil [simp]: "join sep [] = []" and join_single [simp]: "join sep [x] = x"
  by (simp_all add: join_def)

lemma join_snoc: "xs \<noteq> [] \<Longrightarrow> join sep (xs @ [x]) = join sep xs @ sep @ x"
  by (cases xs) (auto simp: join_def)

lemma concat_trailing:
  "xs \<noteq> [] \<Longrightarrow> concat (map (\<lambda>s. s @ sep) xs) = join sep xs @ sep"
proof (induction xs rule: rev_induct)
  case Nil
  then show ?case by simp
next
  case (snoc x xs)
  then show ?case by (cases "xs = []") (auto simp: join_snoc)
qed

lemma chop2_concat_trailing:
  assumes "length sep = 2"
  shows "chop2 (concat (map (\<lambda>s. s @ sep) xs)) = join sep xs"
  using assms by (cases "xs = []") (auto simp: concat_trailing)

section \<open>Lists\<close>

lemma filter_partition_distinct:
  "distinct xs \<Longrightarrow> set ys \<inter> set xs = {} \<Longrightarrow> distinct ys \<Longrightarrow> distinct (xs @ ys)"
  by auto

lemma foldl_append_concat:
  "foldl (\<lambda>acc x. acc @ g x) a xs = a @ concat (map g xs)"
  by (induction xs arbitrary: a) auto

text \<open>
  An object with string keys in insertion order is an association list: a new key is
  appended, an existing one keeps its place.
\<close>

lemma map_of_update_same [simp]: "map_of (AList.update k v al) k = Some v"
  by (simp add: update_conv')

lemma map_of_update_other [simp]: "k' \<noteq> k \<Longrightarrow> map_of (AList.update k v al) k' = map_of al k'"
  by (simp add: update_conv')

end
