(* ===== verification/Underscore.thy ===== *)
theory Underscore
  imports Prelude "HOL-Library.Multiset"
begin

text \<open>
  The functions of Underscore.js 1.5.1 (\<open>web/lib/underscore-min.js\<close>) that the controllers
  call, on arrays of values that \<open>===\<close> compares by value (strings and numbers). Where
  the library delegates to the native array method, the native method is what is written.
\<close>

section \<open>Membership, difference, union\<close>

fun index_from :: "nat \<Rightarrow> 'a list \<Rightarrow> 'a \<Rightarrow> int" where
  "index_from i [] x = - 1"
| "index_from i (y # ys) x = (if y = x then int i else index_from (Suc i) ys x)"

definition indexOf :: "'a list \<Rightarrow> 'a \<Rightarrow> int" where
  "indexOf xs x = index_from 0 xs x"

definition contains :: "'a list \<Rightarrow> 'a \<Rightarrow> bool" where
  "contains xs x = (indexOf xs x \<noteq> - 1)"

definition difference :: "'a list \<Rightarrow> 'a list \<Rightarrow> 'a list" where
  "difference xs ys = filter (\<lambda>x. \<not> contains ys x) xs"

text \<open>\<open>_.uniq\<close>: the loop keeps the values seen so far and the results.\<close>

fun uniq_loop :: "'a list \<Rightarrow> 'a list \<Rightarrow> 'a list" where
  "uniq_loop seen [] = []"
| "uniq_loop seen (x # xs) =
     (if contains seen x then uniq_loop seen xs else x # uniq_loop (seen @ [x]) xs)"

definition uniq :: "'a list \<Rightarrow> 'a list" where
  "uniq xs = uniq_loop [] xs"

definition union_arr :: "'a list \<Rightarrow> 'a list \<Rightarrow> 'a list" where
  "union_arr xs ys = uniq (xs @ ys)"

text \<open>\<open>_.find\<close>: the first element that passes, or \<open>undefined\<close>.\<close>

fun find_arr :: "('a \<Rightarrow> bool) \<Rightarrow> 'a list \<Rightarrow> 'a option" where
  "find_arr p [] = None"
| "find_arr p (x # xs) = (if p x then Some x else find_arr p xs)"

text \<open>\<open>_.reduce\<close> with an initial value; the array may be \<open>undefined\<close>.\<close>

definition reduce :: "'a list option \<Rightarrow> ('b \<Rightarrow> 'a \<Rightarrow> 'b) \<Rightarrow> 'b \<Rightarrow> 'b" where
  "reduce xs f memo = (case xs of None \<Rightarrow> memo | Some ys \<Rightarrow> foldl f memo ys)"

text \<open>\<open>_.map\<close> and \<open>_.pluck\<close> of an array that may be \<open>undefined\<close>.\<close>

definition map_arr :: "('a \<Rightarrow> 'b) \<Rightarrow> 'a list option \<Rightarrow> 'b list" where
  "map_arr f xs = (case xs of None \<Rightarrow> [] | Some ys \<Rightarrow> map f ys)"

section \<open>Sorting\<close>

text \<open>
  \<open>_.sortBy\<close> pairs every element with its index and its criterion and sorts with a
  comparator that looks at the criterion first and at the index on a tie. A criterion may
  be \<open>undefined\<close>: comparisons with it are false and it sorts last.
\<close>

definition gt_opt :: "'c::linorder option \<Rightarrow> 'c option \<Rightarrow> bool" where
  "gt_opt a b = (case (a, b) of (Some x, Some y) \<Rightarrow> x > y | _ \<Rightarrow> False)"

definition sort_cmp :: "('c::linorder option \<times> nat \<times> 'a) \<Rightarrow> ('c option \<times> nat \<times> 'a) \<Rightarrow> int" where
  "sort_cmp x y =
     (let r = fst x; e = fst y;
          by_index = (if fst (snd x) < fst (snd y) then - 1 else 1)
      in if r \<noteq> e then
           (if gt_opt r e \<or> r = None then 1
            else if gt_opt e r \<or> e = None then - 1 else by_index)
         else by_index)"

text \<open>The native sort, by insertion: any algorithm gives the same result for a strict order.\<close>

fun sort_insert :: "('a \<Rightarrow> 'a \<Rightarrow> int) \<Rightarrow> 'a \<Rightarrow> 'a list \<Rightarrow> 'a list" where
  "sort_insert cmp x [] = [x]"
| "sort_insert cmp x (y # ys) = (if cmp x y < 0 then x # y # ys else y # sort_insert cmp x ys)"

definition array_sort :: "('a \<Rightarrow> 'a \<Rightarrow> int) \<Rightarrow> 'a list \<Rightarrow> 'a list" where
  "array_sort cmp xs = foldr (sort_insert cmp) xs []"

definition decorate :: "('a \<Rightarrow> 'c option) \<Rightarrow> nat \<Rightarrow> 'a list \<Rightarrow> ('c option \<times> nat \<times> 'a) list" where
  "decorate f i xs = map (\<lambda>(k, x). (f x, k, x)) (enumerate i xs)"

definition sortBy :: "('a \<Rightarrow> 'c::linorder option) \<Rightarrow> 'a list \<Rightarrow> 'a list" where
  "sortBy f xs = map (snd \<circ> snd) (array_sort sort_cmp (decorate f 0 xs))"

section \<open>What the operations compute\<close>

lemma index_from_minus1: "index_from i xs x = - 1 \<longleftrightarrow> x \<notin> set xs"
  by (induction i xs x rule: index_from.induct) auto

lemma contains_iff [simp]: "contains xs x \<longleftrightarrow> x \<in> set xs"
  by (simp add: contains_def indexOf_def index_from_minus1)

lemma index_from_bounds:
  "x \<in> set xs \<Longrightarrow> int i \<le> index_from i xs x \<and> index_from i xs x < int (i + length xs)"
  by (induction i xs x rule: index_from.induct) fastforce+

lemma index_from_nth:
  "x \<in> set xs \<Longrightarrow> xs ! (nat (index_from i xs x) - i) = x"
proof (induction i xs x rule: index_from.induct)
  case (2 i y ys x)
  show ?case
  proof (cases "y = x")
    case False
    with "2.prems" have x: "x \<in> set ys" by simp
    from index_from_bounds [OF x, of "Suc i"] have "Suc i \<le> nat (index_from (Suc i) ys x)" by linarith
    then have "nat (index_from (Suc i) ys x) - i = Suc (nat (index_from (Suc i) ys x) - Suc i)" by arith
    with False 2 x show ?thesis by simp
  qed simp
qed simp

lemma indexOf_in_range:
  assumes "x \<in> set xs"
  shows "0 \<le> indexOf xs x" "nat (indexOf xs x) < length xs" "xs ! nat (indexOf xs x) = x"
  using index_from_bounds [OF assms, of 0] index_from_nth [OF assms, of 0]
  by (auto simp: indexOf_def)

lemma indexOf_absent: "indexOf xs x = - 1 \<longleftrightarrow> x \<notin> set xs"
  by (simp add: indexOf_def index_from_minus1)

lemma difference_filter: "difference xs ys = filter (\<lambda>x. x \<notin> set ys) xs"
  by (simp add: difference_def)

lemma set_difference [simp]: "set (difference xs ys) = set xs - set ys"
  by (auto simp: difference_filter)

lemma distinct_difference [simp]: "distinct xs \<Longrightarrow> distinct (difference xs ys)"
  by (simp add: difference_filter)

lemma uniq_loop_props:
  "set (uniq_loop seen xs) = set xs - set seen \<and> distinct (uniq_loop seen xs)"
  by (induction seen xs rule: uniq_loop.induct) auto

lemma set_uniq [simp]: "set (uniq xs) = set xs" and distinct_uniq [simp]: "distinct (uniq xs)"
  using uniq_loop_props [of "[]" xs] by (simp_all add: uniq_def)

lemma uniq_loop_distinct:
  "distinct xs \<Longrightarrow> set xs \<inter> set seen = {} \<Longrightarrow> uniq_loop seen xs = xs"
  by (induction seen xs rule: uniq_loop.induct) auto

lemma uniq_id: "distinct xs \<Longrightarrow> uniq xs = xs"
  by (simp add: uniq_def uniq_loop_distinct)

lemma set_union_arr [simp]: "set (union_arr xs ys) = set xs \<union> set ys"
  and distinct_union_arr [simp]: "distinct (union_arr xs ys)"
  by (simp_all add: union_arr_def)

lemma union_arr_append: "distinct xs \<Longrightarrow> distinct ys \<Longrightarrow> set xs \<inter> set ys = {} \<Longrightarrow> union_arr xs ys = xs @ ys"
  by (simp add: union_arr_def uniq_id)

lemma find_arr_Some: "find_arr p xs = Some x \<Longrightarrow> x \<in> set xs \<and> p x"
  by (induction p xs rule: find_arr.induct) (auto split: if_splits)

lemma find_arr_None: "find_arr p xs = None \<longleftrightarrow> (\<forall>x \<in> set xs. \<not> p x)"
  by (induction p xs rule: find_arr.induct) auto

subsection \<open>\<open>sortBy\<close> is the stable sort\<close>

lemma sort_cmp_Some:
  "sort_cmp (Some a, i, x) (Some b, j, y) < 0 \<longleftrightarrow> a < b \<or> (a = b \<and> i < j)"
  by (auto simp: sort_cmp_def gt_opt_def Let_def)

lemma set_sort_insert: "set (sort_insert cmp x ys) = insert x (set ys)"
  by (induction cmp x ys rule: sort_insert.induct) auto

lemma set_array_sort: "set (array_sort cmp xs) = set xs"
  by (induction xs) (auto simp: array_sort_def set_sort_insert)

lemma sort_insert_insort_key:
  assumes "\<forall>(c, j, y) \<in> set ys. c = Some (f y) \<and> i < j"
  shows "map (snd \<circ> snd) (sort_insert sort_cmp (Some (f x), i, x) ys)
           = insort_key f x (map (snd \<circ> snd) ys)"
  using assms by (induction ys) (auto simp: sort_cmp_Some)

lemma array_sort_decorate:
  "map (snd \<circ> snd) (array_sort sort_cmp (decorate (\<lambda>x. Some (f x)) i xs)) = sort_key f xs"
proof (induction xs arbitrary: i)
  case Nil
  then show ?case by (simp add: array_sort_def decorate_def)
next
  case (Cons x xs)
  let ?ys = "array_sort sort_cmp (decorate (\<lambda>x. Some (f x)) (Suc i) xs)"
  have "\<forall>(c, j, y) \<in> set ?ys. c = Some (f y) \<and> i < j"
    by (auto simp: set_array_sort decorate_def in_set_enumerate_eq)
  from sort_insert_insort_key [OF this, of x]
  show ?case
    using Cons.IH [of "Suc i"] by (simp add: array_sort_def decorate_def sort_key_def comp_def)
qed

lemma sortBy_sort_key: "sortBy (\<lambda>x. Some (f x)) xs = sort_key f xs"
  by (simp add: sortBy_def array_sort_decorate)

section \<open>Properties\<close>

text \<open>
  \<open>_.sortBy\<close> with an iterator that is always defined is the stable sort by the iterator.
\<close>

theorem sortBy_stable_sort:
  fixes f :: "'a \<Rightarrow> 'k::linorder"
  shows "sorted (map f (sortBy (\<lambda>x. Some (f x)) xs)) \<and> mset (sortBy (\<lambda>x. Some (f x)) xs) = mset xs \<and>
    filter (\<lambda>x. f x = k) (sortBy (\<lambda>x. Some (f x)) xs) = filter (\<lambda>x. f x = k) xs"
proof -
  have "sortBy (\<lambda>x. Some (f x)) xs = sort_key f xs"
    using sortBy_sort_key [of f xs] by (simp add: comp_def)
  moreover have "mset (sort_key f xs) = mset xs" by simp
  moreover have "filter (\<lambda>x. f x = k) (sort_key f xs) = filter (\<lambda>x. f x = k) xs"
    by (simp add: sort_key_stable)
  ultimately show ?thesis by simp
qed

end
