(* ===== verification/Json.thy ===== *)
theory Json
  imports Prelude
begin

text \<open>
  How the controllers read a response: property access (which throws on \<open>undefined\<close> and
  \<open>null\<close>), truthiness, enumeration of values and of entries, and the conversion
  \<open>parseInt(v, 16)\<close>. An object keeps its keys in order, each once, as \<open>JSON.parse\<close> delivers
  it. The comparisons that convert their operands are at the end. The methods that strings and arrays inherit are not data a controller reads, and an object
  with a numeric entry \<open>length\<close>, which Underscore would take for an array, is taken as the object it is.
\<close>

section \<open>Property access\<close>

definition indexed :: "'a list \<Rightarrow> (string \<times> 'a) list" where
  "indexed xs = map (\<lambda>(i, x). (string_of_nat i, x)) (enumerate 0 xs)"

fun property :: "json option \<Rightarrow> string \<Rightarrow> json option js" where
  "property None k = Inl TypeError"
| "property (Some JNull) k = Inl TypeError"
| "property (Some (JObj kvs)) k = Inr (map_of kvs k)"
| "property (Some (JArr xs)) k =
     Inr (if k = ''length'' then Some (JNum (int (length xs))) else map_of (indexed xs) k)"
| "property (Some (JStr s)) k =
     Inr (if k = ''length'' then Some (JNum (int (length s)))
          else map_of (indexed (map (\<lambda>c. JStr [c]) s)) k)"
| "property (Some (JNum i)) k = Inr None"
| "property (Some (JBool b)) k = Inr None"

text \<open>A chain of accesses such as \<open>data[sw.id][0]['packetCount']\<close>.\<close>

fun path :: "json option \<Rightarrow> string list \<Rightarrow> json option js" where
  "path v [] = Inr v"
| "path v (k # ks) = (case property v k of Inl e \<Rightarrow> Inl e | Inr w \<Rightarrow> path w ks)"

text \<open>The key an id value denotes in \<open>data[id]\<close>.\<close>

definition key_of :: "json option \<Rightarrow> string" where
  "key_of v = opt_string v"

fun truthy :: "json option \<Rightarrow> bool" where
  "truthy None = False"
| "truthy (Some JNull) = False"
| "truthy (Some (JBool b)) = b"
| "truthy (Some (JNum i)) = (i \<noteq> 0)"
| "truthy (Some (JStr s)) = (s \<noteq> [])"
| "truthy (Some (JArr _)) = True"
| "truthy (Some (JObj _)) = True"

section \<open>Enumeration\<close>

text \<open>The values \<open>_.each\<close> and \<open>_.map\<close> visit, and the entries \<open>for (k in o)\<close> visits.\<close>

fun each_values :: "json option \<Rightarrow> json list" where
  "each_values (Some (JArr xs)) = xs"
| "each_values (Some (JObj kvs)) = map snd kvs"
| "each_values (Some (JStr s)) = map (\<lambda>c. JStr [c]) s"
| "each_values _ = []"

fun entries :: "json option \<Rightarrow> (string \<times> json) list" where
  "entries (Some (JObj kvs)) = kvs"
| "entries (Some (JArr xs)) = indexed xs"
| "entries (Some (JStr s)) = indexed (map (\<lambda>c. JStr [c]) s)"
| "entries _ = []"

text \<open>Map over an array with an iterator that may throw.\<close>

fun map_js :: "('a \<Rightarrow> 'b js) \<Rightarrow> 'a list \<Rightarrow> 'b list js" where
  "map_js f [] = Inr []"
| "map_js f (x # xs) =
     (case f x of Inl e \<Rightarrow> Inl e
      | Inr y \<Rightarrow> (case map_js f xs of Inl e \<Rightarrow> Inl e | Inr ys \<Rightarrow> Inr (y # ys)))"

lemma map_js_Inr: "map_js f xs = Inr ys \<longleftrightarrow> list_all2 (\<lambda>x y. f x = Inr y) xs ys"
proof (induction xs arbitrary: ys)
  case Nil
  then show ?case by auto
next
  case (Cons x xs)
  show ?case
    by (cases "f x"; cases "map_js f xs") (auto simp: list_all2_Cons1 simp flip: Cons.IH)
qed

lemma map_js_total: "(\<And>x. x \<in> set xs \<Longrightarrow> f x = Inr (g x)) \<Longrightarrow> map_js f xs = Inr (map g xs)"
  by (induction xs) auto

text \<open>A loop whose body may throw.\<close>

fun fold_js :: "('a \<Rightarrow> 's \<Rightarrow> 's js) \<Rightarrow> 'a list \<Rightarrow> 's \<Rightarrow> 's js" where
  "fold_js f [] s = Inr s"
| "fold_js f (x # xs) s = (case f x s of Inl e \<Rightarrow> Inl e | Inr s' \<Rightarrow> fold_js f xs s')"

lemma fold_js_total:
  assumes "\<And>x s. x \<in> set xs \<Longrightarrow> I s \<Longrightarrow> f x s = Inr (g x s) \<and> I (g x s)" "I s"
  shows "fold_js f xs s = Inr (fold g xs s) \<and> I (fold g xs s)"
  using assms by (induction xs arbitrary: s) auto

lemma fold_js_throws:
  assumes "fold_js f xs s = Inl e"
  shows "\<exists>x \<in> set xs. \<exists>t. f x t = Inl e"
  using assms by (induction xs arbitrary: s) (auto split: sum.splits)

text \<open>Only \<open>undefined\<close> and \<open>null\<close> refuse a property read.\<close>

definition objectlike :: "json option \<Rightarrow> bool" where
  "objectlike v \<longleftrightarrow> v \<noteq> None \<and> v \<noteq> Some JNull"

lemma property_throws: "property v k = Inl e \<longleftrightarrow> \<not> objectlike v \<and> e = TypeError"
  by (cases "(v, k)" rule: property.cases) (auto simp: objectlike_def)

definition get :: "json option \<Rightarrow> string \<Rightarrow> json option" where
  "get v k = (case property v k of Inl _ \<Rightarrow> None | Inr w \<Rightarrow> w)"

lemma property_get: "objectlike v \<Longrightarrow> property v k = Inr (get v k)"
  by (cases "property v k") (auto simp: get_def property_throws)

section \<open>\<open>parseInt(v, 16)\<close>\<close>

definition hex_val :: "char \<Rightarrow> nat option" where
  "hex_val c =
     map_of (zip ''0123456789abcdefABCDEF''
                 ([0, 1, 2, 3, 4, 5, 6, 7, 8, 9, 10, 11, 12, 13, 14, 15, 10, 11, 12, 13, 14, 15])) c"

fun hex_digits :: "string \<Rightarrow> nat list" where
  "hex_digits [] = []"
| "hex_digits (c # cs) = (case hex_val c of None \<Rightarrow> [] | Some d \<Rightarrow> d # hex_digits cs)"

definition hex_number :: "nat list \<Rightarrow> int option" where
  "hex_number ds = (if ds = [] then None else Some (foldl (\<lambda>n d. 16 * n + int d) 0 ds))"

definition drop_prefix :: "string \<Rightarrow> string" where
  "drop_prefix s = (if take 2 s = ''0x'' \<or> take 2 s = ''0X'' then drop 2 s else s)"

text \<open>\<open>NaN\<close> is \<open>None\<close>.\<close>

definition parseInt16 :: "string \<Rightarrow> int option" where
  "parseInt16 s =
     (let t = dropWhile is_space s
      in if take 1 t = ''-'' then map_option uminus (hex_number (hex_digits (drop_prefix (drop 1 t))))
         else if take 1 t = ''+'' then hex_number (hex_digits (drop_prefix (drop 1 t)))
         else hex_number (hex_digits (drop_prefix t)))"

definition number_string :: "int option \<Rightarrow> string" where
  "number_string n = (case n of None \<Rightarrow> ''NaN'' | Some i \<Rightarrow> string_of_int i)"

fun hex_string :: "nat \<Rightarrow> string" where
  "hex_string n =
     (if n < 16 then [digit_char n] else hex_string (n div 16) @ [digit_char (n mod 16)])"

declare hex_string.simps [simp del]

lemma hex_val_digit: "d < 16 \<Longrightarrow> hex_val (digit_char d) = Some d"
proof -
  have "\<forall>d \<in> set [0..<16]. hex_val (digit_char d) = Some d" by code_simp
  then show "d < 16 \<Longrightarrow> ?thesis" by simp
qed

lemma hex_digits_snoc:
  assumes "length (hex_digits s) = length s" "d < 16"
  shows "hex_digits (s @ [digit_char d]) = hex_digits s @ [d]"
  using assms(1)
proof (induction s)
  case Nil
  then show ?case using assms(2) by (simp add: hex_val_digit)
next
  case (Cons c cs)
  then show ?case by (auto split: option.splits)
qed

lemma hex_digits_hex_string:
  "length (hex_digits (hex_string n)) = length (hex_string n) \<and>
   foldl (\<lambda>n d. 16 * n + int d) 0 (hex_digits (hex_string n)) = int n \<and> hex_string n \<noteq> []"
proof (induction n rule: hex_string.induct)
  case (1 n)
  show ?case
  proof (cases "n < 16")
    case True
    then show ?thesis by (subst (1 2 3 4) hex_string.simps) (simp add: hex_val_digit)
  next
    case False
    have "n mod 16 < 16" by simp
    note s = hex_digits_snoc [OF conjunct1 [OF 1 [OF False]] this]
    have "int n = 16 * int (n div 16) + int (n mod 16)" by (simp add: zdiv_int zmod_int)
    with 1 [OF False] s False show ?thesis by (subst (1 2 3 4) hex_string.simps) simp
  qed
qed

text \<open>The controller writes the protocol number as \<open>0x\<close> and hex digits; parsing reads it back.\<close>

lemma parseInt16_hex: "parseInt16 (''0x'' @ hex_string n) = Some (int n)"
proof -
  have "hex_digits (hex_string n) \<noteq> []"
    using hex_digits_hex_string [of n] by (metis length_0_conv)
  then show ?thesis
    using hex_digits_hex_string [of n]
    by (simp add: parseInt16_def is_space_def drop_prefix_def hex_number_def)
qed

section \<open>Comparisons that convert\<close>

text \<open>The number that a string denotes, if it is one; the empty string is 0, \<open>Infinity\<close> is not one here.\<close>

definition digits_number :: "string \<Rightarrow> nat" where
  "digits_number = foldl (\<lambda>n c. 10 * n + (of_char c - 48)) 0"

definition exponent_factor :: "string \<Rightarrow> rat option" where
  "exponent_factor s =
     (let ds = (if take 1 s \<in> {''+'', ''-''} then drop 1 s else s); k = digits_number ds
      in if ds = [] \<or> \<not> list_all is_digit ds then None
         else Some (if take 1 s = ''-'' then 1 / 10 ^ k else 10 ^ k))"

definition decimal_number :: "string \<Rightarrow> rat option" where
  "decimal_number s =
     (let whole = takeWhile is_digit s; r = dropWhile is_digit s;
          part = (if take 1 r = ''.'' then takeWhile is_digit (drop 1 r) else []);
          r' = (if take 1 r = ''.'' then dropWhile is_digit (drop 1 r) else r);
          m = of_nat (digits_number (whole @ part)) / 10 ^ length part
      in if whole @ part = [] then None
         else if r' = [] then Some m
         else if take 1 r' \<in> {''e'', ''E''} then map_option (\<lambda>f. m * f) (exponent_factor (drop 1 r'))
         else None)"

definition to_number :: "string \<Rightarrow> rat option" where
  "to_number s =
     (let t = trim s; hex = hex_digits (drop 2 t)
      in if t = [] then Some 0
         else if take 2 t \<in> {''0x'', ''0X''}
         then (if length hex = length t - 2 then map_option of_int (hex_number hex) else None)
         else if take 1 t = ''+'' then decimal_number (drop 1 t)
         else if take 1 t = ''-'' then map_option uminus (decimal_number (drop 1 t))
         else decimal_number t)"

text \<open>An array or an object is converted to its text first, \<open>undefined\<close> is not a number and \<open>null\<close> is 0.\<close>

fun number_of :: "json option \<Rightarrow> rat option" where
  "number_of None = None"
| "number_of (Some JNull) = Some 0"
| "number_of (Some (JBool b)) = Some (if b then 1 else 0)"
| "number_of (Some (JNum i)) = Some (of_int i)"
| "number_of (Some v) = to_number (to_string v)"

text \<open>\<open>v > 0\<close>\<close>

definition positive :: "json option \<Rightarrow> bool" where
  "positive v \<longleftrightarrow> (case number_of v of Some x \<Rightarrow> 0 < x
     | None \<Rightarrow> v \<noteq> None \<and> trim (opt_string v) \<in> {''Infinity'', ''+Infinity''})"

lemma positive_number [simp]: "positive (Some (JNum n)) \<longleftrightarrow> 0 < n"
  by (simp add: positive_def)

text \<open>
  \<open>v == w\<close>: \<open>undefined\<close> and \<open>null\<close> are equal to each other only, two strings are compared as strings, two
  objects by their contents (as in \<open>contains\<close>), an object and a string by its text, and all others as numbers.
\<close>

fun is_obj :: "json option \<Rightarrow> bool" where
  "is_obj (Some (JArr xs)) = True"
| "is_obj (Some (JObj kvs)) = True"
| "is_obj v = False"

fun textual :: "json option \<Rightarrow> bool" where
  "textual (Some (JStr s)) = True"
| "textual v = is_obj v"

definition loose_eq :: "json option \<Rightarrow> json option \<Rightarrow> bool" where
  "loose_eq v w \<longleftrightarrow>
     (if \<not> objectlike v \<or> \<not> objectlike w then \<not> objectlike v \<and> \<not> objectlike w
      else if is_obj v \<and> is_obj w then v = w
      else if textual v \<and> textual w then opt_string v = opt_string w
      else number_of v \<noteq> None \<and> number_of v = number_of w)"

lemma loose_eq_refl [simp]: "number_of v \<noteq> None \<or> textual v \<or> \<not> objectlike v \<Longrightarrow> loose_eq v v"
  by (auto simp: loose_eq_def)

lemma loose_eq_samples:
  "loose_eq (Some (JStr ''12'')) (Some (JNum 12))" "loose_eq (Some (JStr '' 0x1F '')) (Some (JNum 31))"
  "loose_eq (Some (JBool True)) (Some (JStr ''1.0e0''))" "\<not> loose_eq (Some JNull) (Some (JNum 0))"
  "loose_eq (Some (JArr [JStr ''a''])) (Some (JStr ''a''))"
  by code_simp+

end
