(* ===== verification/Periscope.thy ===== *)
theory Periscope
  imports Prelude
begin

text \<open>
  \<open>web/js/periscope.js\<close>: the menu that switches the visible block of the page, and the
  \<open>$iris\<close> service through which the controllers share their tables. The service's
  accessors go through \<open>self\<close>, which in that factory is the global window: the arrays
  live in the window, and are \<open>undefined\<close> until the first setter call.
\<close>

section \<open>The menu\<close>

record block =
  classes :: "string list"
  visible :: bool

record page_view =
  body_class :: "string list"
  blocks :: "block list"

text \<open>
  A click on a menu entry of class \<open>cl\<close>: the result has the page and the blocks on which
  \<open>displayed\<close> is triggered.
\<close>

definition nav_click :: "string \<Rightarrow> page_view \<Rightarrow> page_view \<times> block list" where
  "nav_click cl p =
     (let shown = map (\<lambda>b. if cl \<in> set (classes b) then b\<lparr>visible := True\<rparr> else b) (blocks p);
          hidden = map (\<lambda>b. if cl \<notin> set (classes b) then b\<lparr>visible := False\<rparr> else b) shown
      in (p\<lparr>body_class := [cl], blocks := hidden\<rparr>, filter (\<lambda>b. cl \<in> set (classes b)) hidden))"

definition menu :: "string list" where
  "menu = [''home'', ''switches'', ''devices'', ''topology'', ''vNetworks'']"

text \<open>When the document is ready the first menu entry is clicked.\<close>

definition on_ready :: "page_view \<Rightarrow> page_view \<times> block list" where
  "on_ready p = nav_click (menu ! 0) p"

definition content_blocks :: "block list" where
  "content_blocks = map (\<lambda>c. \<lparr>classes = c, visible = True\<rparr>)
     [[''home'', ''controller_statistics''], [''home'', ''switches'', ''switches''],
      [''home'', ''devices'', ''devices''], [''topology'', ''topology''],
      [''home'', ''vNetworks'', ''vNetworks''], [''vNetworks'', ''vNetworks''],
      [''vNetworks'', ''vNetworks'']]"

definition fresh_page :: page_view where
  "fresh_page = \<lparr>body_class = [''home''], blocks = content_blocks\<rparr>"

lemma nav_click_classes [simp]:
  "map classes (blocks (fst (nav_click cl p))) = map classes (blocks p)"
  by (simp add: nav_click_def Let_def comp_def if_distrib cong: if_cong)

lemma nav_click_visible:
  "b \<in> set (blocks (fst (nav_click cl p))) \<Longrightarrow> visible b \<longleftrightarrow> cl \<in> set (classes b)"
  by (auto simp: nav_click_def Let_def split: if_splits)

lemma nav_click_displayed:
  "snd (nav_click cl p) = filter visible (blocks (fst (nav_click cl p)))"
proof -
  have "snd (nav_click cl p) = filter (\<lambda>b. cl \<in> set (classes b)) (blocks (fst (nav_click cl p)))"
    by (simp add: nav_click_def Let_def)
  also have "\<dots> = filter visible (blocks (fst (nav_click cl p)))"
    by (rule filter_cong) (simp_all add: nav_click_visible)
  finally show ?thesis .
qed

section \<open>The \<open>$iris\<close> service\<close>

text \<open>
  \<open>own_\<close> fields are the arrays of the service object itself, which no accessor reads or
  writes; the others are the properties of the window.
\<close>

record ('sw, 'dev, 'vn, 'vs) iris =
  own_switches :: "'sw list"
  own_devices :: "'dev list"
  own_vNetworks :: "'vn list"
  own_vSubnets :: "'vs list"
  win_switches :: "'sw list option"
  win_devices :: "'dev list option"
  win_vNetworks :: "'vn list option"
  win_vSubnets :: "'vs list option"

definition iris_init :: "('sw, 'dev, 'vn, 'vs) iris" where
  "iris_init = \<lparr>own_switches = [], own_devices = [], own_vNetworks = [], own_vSubnets = [],
     win_switches = None, win_devices = None, win_vNetworks = None, win_vSubnets = None\<rparr>"

definition getSwitches :: "('sw, 'dev, 'vn, 'vs) iris \<Rightarrow> 'sw list option" where
  "getSwitches w = win_switches w"

definition setSwitches :: "'sw list \<Rightarrow> ('sw, 'dev, 'vn, 'vs) iris \<Rightarrow> ('sw, 'dev, 'vn, 'vs) iris" where
  "setSwitches arr w = w\<lparr>win_switches := Some arr\<rparr>"

definition getDevices :: "('sw, 'dev, 'vn, 'vs) iris \<Rightarrow> 'dev list option" where
  "getDevices w = win_devices w"

definition setDevices :: "'dev list \<Rightarrow> ('sw, 'dev, 'vn, 'vs) iris \<Rightarrow> ('sw, 'dev, 'vn, 'vs) iris" where
  "setDevices arr w = w\<lparr>win_devices := Some arr\<rparr>"

definition getVNetworks :: "('sw, 'dev, 'vn, 'vs) iris \<Rightarrow> 'vn list option" where
  "getVNetworks w = win_vNetworks w"

definition setVNetworks :: "'vn list \<Rightarrow> ('sw, 'dev, 'vn, 'vs) iris \<Rightarrow> ('sw, 'dev, 'vn, 'vs) iris" where
  "setVNetworks arr w = w\<lparr>win_vNetworks := Some arr\<rparr>"

definition getVSubnets :: "('sw, 'dev, 'vn, 'vs) iris \<Rightarrow> 'vs list option" where
  "getVSubnets w = win_vSubnets w"

definition setVSubnets :: "'vs list \<Rightarrow> ('sw, 'dev, 'vn, 'vs) iris \<Rightarrow> ('sw, 'dev, 'vn, 'vs) iris" where
  "setVSubnets arr w = w\<lparr>win_vSubnets := Some arr\<rparr>"

text \<open>The methods the service object has; calling any other one is a \<open>TypeError\<close>.\<close>

definition iris_methods :: "string list" where
  "iris_methods =
     [''getSwitches'', ''setSwitches'', ''getDevices'', ''setDevices'',
      ''getVNetworks'', ''setVNetworks'', ''getVSubnets'', ''setVSubnets'']"

definition call_method :: "string \<Rightarrow> ('w \<Rightarrow> 'w) \<Rightarrow> 'w \<Rightarrow> 'w js" where
  "call_method m f w = (if m \<in> set iris_methods then Inr (f w) else Inl TypeError)"

section \<open>The contract of a shared slot\<close>

locale iris_slot =
  fixes fetch :: "'w \<Rightarrow> 'a option"
    and store :: "'a \<Rightarrow> 'w \<Rightarrow> 'w"
  assumes read_write: "fetch (store v w) = Some v"
begin

lemma read_last_write:
  "fetch (fold store vs w) = (if vs = [] then fetch w else Some (last vs))"
  by (induction vs rule: rev_induct) (auto simp: read_write)

lemma written_defined: "fetch w \<noteq> None \<Longrightarrow> fetch (fold store vs w) \<noteq> None"
  by (simp add: read_last_write)

end

interpretation switches_slot: iris_slot getSwitches setSwitches
  by unfold_locales (simp add: getSwitches_def setSwitches_def)

interpretation devices_slot: iris_slot getDevices setDevices
  by unfold_locales (simp add: getDevices_def setDevices_def)

interpretation vNetworks_slot: iris_slot getVNetworks setVNetworks
  by unfold_locales (simp add: getVNetworks_def setVNetworks_def)

interpretation vSubnets_slot: iris_slot getVSubnets setVSubnets
  by unfold_locales (simp add: getVSubnets_def setVSubnets_def)

section \<open>Properties\<close>

text \<open>
  A click on a menu entry shows exactly the blocks of the entry's class, marks the page
  with the class, reports exactly the shown blocks as displayed, and does not change a
  block's classes.
\<close>

theorem menu_click_shows_class:
  "let r = nav_click cl p in
     blocks (fst r) = map (\<lambda>b. b\<lparr>visible := (cl \<in> set (classes b))\<rparr>) (blocks p) \<and>
     body_class (fst r) = [cl] \<and> snd r = filter visible (blocks (fst r))"
proof -
  have "blocks (fst (nav_click cl p)) = map (\<lambda>b. b\<lparr>visible := (cl \<in> set (classes b))\<rparr>) (blocks p)"
    by (simp add: nav_click_def Let_def comp_def)
  moreover have "body_class (fst (nav_click cl p)) = [cl]"
    by (simp add: nav_click_def Let_def)
  ultimately show ?thesis by (simp add: Let_def nav_click_displayed)
qed

text \<open>
  The service's getters are \<open>undefined\<close> until the first call of the matching setter,
  although the service object has arrays of its own, and give the last array stored afterwards,
  whatever is stored in the other slots.
\<close>

theorem service_slots:
  "getSwitches (iris_init :: ('sw, 'dev, 'vn, 'vs) iris) = None \<and> getDevices (iris_init :: ('sw, 'dev, 'vn, 'vs) iris) = None \<and>
   own_switches (iris_init :: ('sw, 'dev, 'vn, 'vs) iris) = [] \<and>
   getSwitches (fold setSwitches (arrs @ [arr]) w) = Some arr \<and>
   getSwitches (setDevices ds w) = getSwitches w \<and> getDevices (setSwitches arr w) = getDevices w \<and>
   getVNetworks (setVSubnets vs w) = getVNetworks w \<and> getVSubnets (setVNetworks vn w) = getVSubnets w"
  using switches_slot.read_last_write [of "arrs @ [arr]" w]
  by (simp add: iris_init_def getSwitches_def getDevices_def setDevices_def setSwitches_def
      getVNetworks_def setVSubnets_def getVSubnets_def setVNetworks_def)

end
