(* ===== verification/Polling.thy ===== *)
theory Polling
  imports Prelude
begin

text \<open>
  The asynchronous life of a controller. \<open>getData\<close> starts an HTTP request and returns; the
  response runs the success or the error handler later, in any order with respect to the
  timer. Two patterns occur: an interval controller starts the next timer itself
  (\<open>intervalFunction\<close>) and polls for ever, a popup controller starts one after each request
  unless its \<open>goon\<close> flag was set to \<open>false\<close> when the popup was closed.
\<close>

section \<open>Interval controllers\<close>

record 's polled =
  scope :: 's
  timers :: nat
  inflight :: nat

datatype 'd page_event = TimerFires | Succeeds 'd | Fails

definition getData :: "'s polled \<Rightarrow> 's polled" where
  "getData p = p\<lparr>inflight := Suc (inflight p)\<rparr>"

definition intervalFunction :: "'s polled \<Rightarrow> 's polled" where
  "intervalFunction p = p\<lparr>timers := Suc (timers p)\<rparr>"

text \<open>The controller's last two lines: the first request, then the timer.\<close>

definition start_polling :: "'s \<Rightarrow> 's polled" where
  "start_polling s = intervalFunction (getData \<lparr>scope = s, timers = 0, inflight = 0\<rparr>)"

text \<open>An event that is not enabled (no timer, no open request) is \<open>None\<close>.\<close>

fun interval_step ::
    "('d \<Rightarrow> 's \<Rightarrow> 's outcome) \<Rightarrow> ('s \<Rightarrow> 's) \<Rightarrow> 's polled \<Rightarrow> 'd page_event \<Rightarrow> 's polled option" where
  "interval_step success failure p TimerFires =
     (if timers p = 0 then None
      else Some (intervalFunction (getData (p\<lparr>timers := timers p - 1\<rparr>))))"
| "interval_step success failure p (Succeeds d) =
     (if inflight p = 0 then None
      else Some (p\<lparr>scope := fst (success d (scope p)), inflight := inflight p - 1\<rparr>))"
| "interval_step success failure p Fails =
     (if inflight p = 0 then None
      else Some (p\<lparr>scope := failure (scope p), inflight := inflight p - 1\<rparr>))"

fun run_events :: "('p \<Rightarrow> 'e \<Rightarrow> 'p option) \<Rightarrow> 'p \<Rightarrow> 'e list \<Rightarrow> 'p option" where
  "run_events step p [] = Some p"
| "run_events step p (e # es) = Option.bind (step p e) (\<lambda>q. run_events step q es)"

lemma run_events_invariant:
  assumes "\<And>p e q. I p \<Longrightarrow> step p e = Some q \<Longrightarrow> I q"
  shows "I p \<Longrightarrow> run_events step p es = Some q \<Longrightarrow> I q"
proof (induction es arbitrary: p)
  case Nil
  then show ?case by simp
next
  case (Cons e es)
  then obtain r where "step p e = Some r" "run_events step r es = Some q"
    by (auto simp: bind_eq_Some_conv)
  with Cons assms show ?case by blast
qed

lemma run_events_append:
  "run_events step p (es @ fs) = Option.bind (run_events step p es) (\<lambda>q. run_events step q fs)"
  by (induction es arbitrary: p) (auto split: Option.bind_split)

lemma interval_step_timers:
  "timers p = 1 \<Longrightarrow> interval_step su fa p e = Some q \<Longrightarrow> timers q = 1"
  by (cases e) (auto simp: intervalFunction_def getData_def split: if_splits)

text \<open>
  The contract of a controller's two handlers: an invariant of the scope that both keep.
  The timer adds nothing to it, so it holds after any interleaving of timers and responses,
  and exactly one timer is alive at any time.
\<close>

locale poller =
  fixes success :: "'d \<Rightarrow> 's \<Rightarrow> 's outcome"
    and failure :: "'s \<Rightarrow> 's"
    and invar :: "'s \<Rightarrow> bool"
  assumes success_invar: "invar s \<Longrightarrow> invar (fst (success d s))"
    and failure_invar: "invar s \<Longrightarrow> invar (failure s)"
begin

lemma step_invar:
  "invar (scope p) \<Longrightarrow> interval_step success failure p e = Some q \<Longrightarrow> invar (scope q)"
  by (cases e)
    (auto simp: intervalFunction_def getData_def success_invar failure_invar split: if_splits)

lemma polling_invar:
  assumes "invar s" "run_events (interval_step success failure) (start_polling s) es = Some q"
  shows "invar (scope q) \<and> timers q = 1"
proof -
  have "invar (scope (start_polling s)) \<and> timers (start_polling s) = 1"
    using assms(1) by (simp add: start_polling_def intervalFunction_def getData_def)
  then show ?thesis
    by (rule run_events_invariant
        [where I = "\<lambda>p. invar (scope p) \<and> timers p = 1", OF _ _ assms(2), rotated])
      (use step_invar interval_step_timers in blast)
qed

lemma polling_never_stops:
  assumes "invar s" "run_events (interval_step success failure) (start_polling s) es = Some q"
  shows "\<exists>r. interval_step success failure q TimerFires = Some r \<and> inflight r = Suc (inflight q)"
  using polling_invar [OF assms] by (simp add: intervalFunction_def getData_def)

end

section \<open>Popup controllers\<close>

record 's popup =
  p_scope :: 's
  p_timers :: nat
  p_inflight :: nat
  goon :: bool
  issued :: nat

datatype 'd popup_event = PTimer | PSucceeds 'd | PFails | Close

text \<open>\<open>goon\<close> is undefined, hence not \<open>false\<close>, until the dialog's close callback sets it.\<close>

definition popup_getData :: "('s \<Rightarrow> 's) \<Rightarrow> 's popup \<Rightarrow> 's popup" where
  "popup_getData stopped p =
     (let q = p\<lparr>p_inflight := Suc (p_inflight p), issued := Suc (issued p)\<rparr>
      in if goon q then q\<lparr>p_timers := Suc (p_timers q)\<rparr> else q\<lparr>p_scope := stopped (p_scope q)\<rparr>)"

definition open_popup :: "('s \<Rightarrow> 's) \<Rightarrow> 's \<Rightarrow> 's popup" where
  "open_popup stopped s = popup_getData stopped
     \<lparr>p_scope = s, p_timers = 0, p_inflight = 0, goon = True, issued = 0\<rparr>"

fun popup_step ::
    "('d \<Rightarrow> 's \<Rightarrow> 's outcome) \<Rightarrow> ('s \<Rightarrow> 's) \<Rightarrow> ('s \<Rightarrow> 's) \<Rightarrow> 's popup \<Rightarrow> 'd popup_event \<Rightarrow> 's popup option" where
  "popup_step success failure stopped p PTimer =
     (if p_timers p = 0 then None
      else Some (popup_getData stopped (p\<lparr>p_timers := p_timers p - 1\<rparr>)))"
| "popup_step success failure stopped p (PSucceeds d) =
     (if p_inflight p = 0 then None
      else Some (p\<lparr>p_scope := fst (success d (p_scope p)), p_inflight := p_inflight p - 1\<rparr>))"
| "popup_step success failure stopped p PFails =
     (if p_inflight p = 0 then None
      else Some (p\<lparr>p_scope := failure (p_scope p), p_inflight := p_inflight p - 1\<rparr>))"
| "popup_step success failure stopped p Close = Some (p\<lparr>goon := False\<rparr>)"

text \<open>
  While the popup is open exactly one timer is alive; once it is closed the timer that is
  still alive makes one last request and no further one follows.
\<close>

definition popup_inv :: "'s popup \<Rightarrow> bool" where
  "popup_inv p \<longleftrightarrow> (goon p \<longrightarrow> p_timers p = 1) \<and> p_timers p \<le> 1"

lemma popup_step_inv:
  "popup_inv p \<Longrightarrow> popup_step su fa st p e = Some q \<Longrightarrow> popup_inv q"
  by (cases e) (auto simp: popup_inv_def popup_getData_def Let_def split: if_splits)

lemma popup_step_closed:
  assumes "\<not> goon p" "popup_step su fa st p e = Some q"
  shows "\<not> goon q \<and> issued q + p_timers q = issued p + p_timers p \<and> p_timers q \<le> p_timers p"
  using assms by (cases e) (auto simp: popup_getData_def Let_def split: if_splits)

lemma popup_run_closed:
  assumes "run_events (popup_step su fa st) p es = Some q" "\<not> goon p"
  shows "\<not> goon q \<and> issued q + p_timers q = issued p + p_timers p"
proof -
  have "\<not> goon p \<and> issued p + p_timers p = issued p + p_timers p" using assms(2) by simp
  then show ?thesis
    by (rule run_events_invariant
        [where I = "\<lambda>r. \<not> goon r \<and> issued r + p_timers r = issued p + p_timers p",
          OF _ _ assms(1), rotated])
      (use popup_step_closed in fastforce)
qed

lemma popup_open_run_inv:
  assumes "run_events (popup_step su fa st) (open_popup st s) es = Some q"
  shows "popup_inv q"
proof -
  have "popup_inv (open_popup st s)"
    by (simp add: popup_inv_def open_popup_def popup_getData_def)
  then show ?thesis
    by (rule run_events_invariant [OF _ _ assms, rotated]) (rule popup_step_inv)
qed

end
