(* ===== verification/Sync.thy ===== *)
theory Sync
  imports Underscore Json Polling
begin

text \<open>
  The table discipline that four controllers share (switches, vNetworks, vSubnets, vPorts):
  a list of ids and a list of rows, which a response updates by difference. The locale
  states what a success and an error handler must do to the two lists; its lemmas say what
  follows for any sequence of responses.
\<close>

section \<open>Steps of a success handler\<close>

text \<open>\<open>_.map(data.<field>, function(obj) { return obj[key]; })\<close>, which throws on a null entry.\<close>

definition retrieved_keys :: "string \<Rightarrow> json list \<Rightarrow> json option list js" where
  "retrieved_keys key ds = map_js (\<lambda>d. property (Some d) key) ds"

text \<open>The two assignments that adjust the id array.\<close>

definition adjust_ids :: "'k list \<Rightarrow> 'k list \<Rightarrow> 'k list \<Rightarrow> 'k list" where
  "adjust_ids ids to_remove to_add = union_arr (difference ids to_remove) to_add"

text \<open>\<open>_.each(data.<field>, \<dots>)\<close> with a push for every entry to add.\<close>

fun push_new :: "(json \<Rightarrow> 'k) \<Rightarrow> (json \<Rightarrow> 'r) \<Rightarrow> 'k list \<Rightarrow> json list \<Rightarrow> 'r list \<Rightarrow> 'r list" where
  "push_new key mk to_add [] rows = rows"
| "push_new key mk to_add (d # ds) rows =
     push_new key mk to_add ds (if contains to_add (key d) then rows @ [mk d] else rows)"

lemma push_new_eq:
  "push_new key mk to_add ds rows = rows @ map mk (filter (\<lambda>d. key d \<in> set to_add) ds)"
  by (induction key mk to_add ds rows rule: push_new.induct) auto

lemma retrieved_keys_Inr:
  assumes "retrieved_keys key ds = Inr ks"
  shows "ks = map (\<lambda>d. get (Some d) key) ds"
  using assms unfolding retrieved_keys_def map_js_Inr
  by (induction rule: list_all2_induct) (auto simp: get_def)

lemma push_new_row_ids:
  assumes "\<And>d. rid (mk d) = get (Some d) key" and "retrieved_keys key ds = Inr ks"
  shows "map rid (push_new (\<lambda>d. get (Some d) key) mk to_add ds 
             (filter (\<lambda>r. \<not> contains to_remove (rid r)) rows))
           = filter (\<lambda>k. \<not> contains to_remove k) (map rid rows) @ filter (contains to_add) ks"
  unfolding retrieved_keys_Inr [OF assms(2)]
  by (simp add: push_new_eq filter_map comp_def assms(1))

section \<open>Consistency of ids and rows\<close>

definition table_consistent :: "'k list \<Rightarrow> 'k list \<Rightarrow> bool" where
  "table_consistent ids rows \<longleftrightarrow> distinct ids \<and> set rows = set ids"

definition table_aligned :: "'k list \<Rightarrow> 'k list \<Rightarrow> bool" where
  "table_aligned ids rows \<longleftrightarrow> distinct ids \<and> rows = ids"

locale synced_table =
  fixes success :: "'d \<Rightarrow> 's \<Rightarrow> 's outcome"
    and failure :: "'s \<Rightarrow> 's"
    and ids :: "'s \<Rightarrow> 'k list"
    and row_ids :: "'s \<Rightarrow> 'k list"
    and retrieved :: "'d \<Rightarrow> 'k list js"
    and ok :: "'s \<Rightarrow> bool"
  assumes success_throws: "retrieved d = Inl e \<Longrightarrow>
        ids (fst (success d s)) = ids s \<and> row_ids (fst (success d s)) = row_ids s"
    and success_ids: "retrieved d = Inr ks \<Longrightarrow>
        ids (fst (success d s)) =
          adjust_ids (ids s) (difference (ids s) ks) (difference ks (ids s))"
    and success_rows: "retrieved d = Inr ks \<Longrightarrow> ok s \<Longrightarrow>
        row_ids (fst (success d s)) =
          filter (\<lambda>k. \<not> contains (difference (ids s) ks) k) (row_ids s)
          @ filter (contains (difference ks (ids s))) ks"
    and success_ok: "ok s \<Longrightarrow> ok (fst (success d s))"
    and failure_ids: "ids (failure s) = []"
    and failure_rows: "row_ids (failure s) = []"
    and failure_ok: "ok s \<Longrightarrow> ok (failure s)"
begin

lemma success_set:
  assumes "retrieved d = Inr ks"
  shows "set (ids (fst (success d s))) = set ks"
  by (auto simp: success_ids [OF assms] adjust_ids_def)

lemma success_consistent:
  assumes "ok s" "table_consistent (ids s) (row_ids s)"
  shows "table_consistent (ids (fst (success d s))) (row_ids (fst (success d s)))"
proof (cases "retrieved d")
  case (Inl e)
  with assms show ?thesis by (simp add: success_throws)
next
  case (Inr ks)
  with assms show ?thesis
    by (auto simp: table_consistent_def success_ids success_rows adjust_ids_def)
qed

lemma failure_consistent: "table_consistent (ids (failure s)) (row_ids (failure s))"
  by (simp add: table_consistent_def failure_ids failure_rows)

sublocale poller success failure "\<lambda>s. ok s \<and> table_consistent (ids s) (row_ids s)"
  by unfold_locales (simp_all add: success_consistent failure_consistent success_ok failure_ok)

lemma success_order:
  assumes "retrieved d = Inr ks" "distinct ks" "distinct (ids s)"
  shows "ids (fst (success d s)) =
           filter (\<lambda>k. k \<in> set ks) (ids s) @ filter (\<lambda>k. k \<notin> set (ids s)) ks"
proof -
  have "difference (ids s) (difference (ids s) ks) = filter (\<lambda>k. k \<in> set ks) (ids s)"
    by (auto simp: difference_filter intro: filter_cong)
  moreover have "difference ks (ids s) = filter (\<lambda>k. k \<notin> set (ids s)) ks"
    by (simp add: difference_filter)
  ultimately show ?thesis
    using assms(2,3) by (simp add: success_ids [OF assms(1)] adjust_ids_def, subst union_arr_append) auto
qed

lemma success_aligned:
  assumes "retrieved d = Inr ks" "distinct ks" "ok s" "table_aligned (ids s) (row_ids s)"
  shows "table_aligned (ids (fst (success d s))) (row_ids (fst (success d s)))"
proof -
  have "filter (\<lambda>k. \<not> contains (difference (ids s) ks) k) (ids s) = filter (\<lambda>k. k \<in> set ks) (ids s)"
    and "filter (contains (difference ks (ids s))) ks = filter (\<lambda>k. k \<notin> set (ids s)) ks"
    by (auto intro!: filter_cong)
  then have "row_ids (fst (success d s)) =
          filter (\<lambda>k. k \<in> set ks) (ids s) @ filter (\<lambda>k. k \<notin> set (ids s)) ks"
    using assms(4) by (simp add: success_rows [OF assms(1,3)] table_aligned_def)
  then show ?thesis
    using assms success_order [OF assms(1,2)]
    by (auto simp: table_aligned_def)
qed

lemma success_idempotent:
  assumes "retrieved d = Inr ks" "distinct ks" "ok s" "table_aligned (ids s) (row_ids s)"
  defines "t \<equiv> fst (success d s)"
  shows "ids (fst (success d t)) = ids t \<and> row_ids (fst (success d t)) = row_ids t"
proof -
  have al: "table_aligned (ids t) (row_ids t)"
    unfolding t_def by (rule success_aligned [OF assms(1-4)])
  have "set (ids t) = set ks"
    unfolding t_def by (rule success_set [OF assms(1)])
  then have "ids (fst (success d t)) = ids t"
    using success_order [OF assms(1,2), of t] al by (auto simp: table_aligned_def)
  moreover have "table_aligned (ids (fst (success d t))) (row_ids (fst (success d t)))"
    by (rule success_aligned [OF assms(1,2) _ al]) (simp add: t_def success_ok assms(3))
  ultimately show ?thesis using al by (simp add: table_aligned_def)
qed

end

end
