(* ===== verification/VirtualNets.thy ===== *)
theory VirtualNets
  imports Sync Periscope
begin

text \<open>
  The tables of virtual networks, subnets and ports (\<open>vnetworks.js\<close>, \<open>vsubnets.js\<close>,
  \<open>vports.js\<close>). Each handler works on the controller's scope and the shared \<open>$iris\<close>
  service. Ids are strings; a missing property is \<open>undefined\<close>.
\<close>

section \<open>Virtual networks\<close>

record vnetwork =
  vn_id :: "json option"
  vn_name :: "json option"
  vn_tenant_id :: "json option"
  vn_network_type :: "json option"
  vn_segmentation_id :: "json option"

record vnet_scope =
  vNetworks :: "vnetwork list"
  vNetwork_ids :: "json option list"

definition vnet_init :: vnet_scope where
  "vnet_init = \<lparr>vNetworks = [], vNetwork_ids = []\<rparr>"

definition vnetwork_row :: "json \<Rightarrow> vnetwork" where
  "vnetwork_row d = \<lparr>vn_id = get (Some d) ''id'', vn_name = get (Some d) ''name'',
     vn_tenant_id = get (Some d) ''tenant_id'',
     vn_network_type = get (Some d) ''provider:network_type'',
     vn_segmentation_id = get (Some d) ''provider:segmentation_id''\<rparr>"

definition vNetworks_retrieved :: "json option \<Rightarrow> json option list js" where
  "vNetworks_retrieved data =
     (case property data ''networks'' of Inl e \<Rightarrow> Inl e
      | Inr nets \<Rightarrow> retrieved_keys ''id'' (each_values nets))"

definition vNetworks_success ::
    "json option \<Rightarrow> vnet_scope \<times> ('sw, 'dev, vnetwork, 'vs) iris \<Rightarrow>
      (vnet_scope \<times> ('sw, 'dev, vnetwork, 'vs) iris) outcome" where
  "vNetworks_success data st = (case st of (s, w) \<Rightarrow>
     (case vNetworks_retrieved data of
        Inl e \<Rightarrow> ((s, w), Some e)
      | Inr retrieved_ids \<Rightarrow>
          (let to_remove_ids = difference (vNetwork_ids s) retrieved_ids;
               to_add_ids = difference retrieved_ids (vNetwork_ids s);
               nets = each_values (get data ''networks'');
               kept = filter (\<lambda>d. \<not> contains to_remove_ids (vn_id d)) (vNetworks s);
               rows = push_new (\<lambda>d. get (Some d) ''id'') vnetwork_row to_add_ids nets kept
           in ((\<lparr>vNetworks = rows,
                 vNetwork_ids = adjust_ids (vNetwork_ids s) to_remove_ids to_add_ids\<rparr>,
                setVNetworks rows w), None))))"

definition vNetworks_error :: "vnet_scope \<times> 'w \<Rightarrow> vnet_scope \<times> 'w" where
  "vNetworks_error st = (case st of (s, w) \<Rightarrow> (s\<lparr>vNetworks := [], vNetwork_ids := []\<rparr>, w))"

lemma vNetworks_success_Inl:
  "vNetworks_retrieved data = Inl e \<Longrightarrow> vNetworks_success data st = (st, Some e)"
  by (simp add: vNetworks_success_def split: prod.split)

lemma vNetworks_success_Inr:
  assumes "vNetworks_retrieved data = Inr ks"
  shows "vNetworks_success data (s, w) =
    ((\<lparr>vNetworks = push_new (\<lambda>d. get (Some d) ''id'') vnetwork_row (difference ks (vNetwork_ids s))
           (each_values (get data ''networks''))
           (filter (\<lambda>d. \<not> contains (difference (vNetwork_ids s) ks) (vn_id d)) (vNetworks s)),
       vNetwork_ids = adjust_ids (vNetwork_ids s) (difference (vNetwork_ids s) ks) (difference ks (vNetwork_ids s))\<rparr>,
      setVNetworks (push_new (\<lambda>d. get (Some d) ''id'') vnetwork_row (difference ks (vNetwork_ids s))
           (each_values (get data ''networks''))
           (filter (\<lambda>d. \<not> contains (difference (vNetwork_ids s) ks) (vn_id d)) (vNetworks s))) w), None)"
  using assms by (simp only: vNetworks_success_def Let_def prod.case sum.case)

lemma vNetworks_retrieved_keys:
  "vNetworks_retrieved data = Inr ks \<Longrightarrow>
     retrieved_keys ''id'' (each_values (get data ''networks'')) = Inr ks"
  by (auto simp: vNetworks_retrieved_def get_def split: sum.splits)

lemma vnetwork_row_id: "vn_id (vnetwork_row d) = get (Some d) ''id''"
  by (simp add: vnetwork_row_def)

interpretation vnet: synced_table vNetworks_success vNetworks_error
    "\<lambda>st. vNetwork_ids (fst st)" "\<lambda>st. map vn_id (vNetworks (fst st))" vNetworks_retrieved "\<lambda>_. True"
  by unfold_locales
    (auto simp: vNetworks_success_Inl vNetworks_success_Inr vNetworks_error_def push_new_row_ids
      [where rid = vn_id and mk = vnetwork_row, OF vnetwork_row_id vNetworks_retrieved_keys] simp del: contains_iff)

section \<open>Virtual subnets\<close>

record vsubnet =
  vs_id :: "json option"
  vs_name :: "json option"
  vs_tenant_id :: "json option"
  vs_network_id :: "json option"
  vs_gateway_ip :: "json option"

record vsubnet_scope =
  vSubnets :: "vsubnet list"
  vSubnet_ids :: "json option list"

definition vsubnet_init :: vsubnet_scope where
  "vsubnet_init = \<lparr>vSubnets = [], vSubnet_ids = []\<rparr>"

definition vsubnet_row :: "json \<Rightarrow> vsubnet" where
  "vsubnet_row d = \<lparr>vs_id = get (Some d) ''id'', vs_name = get (Some d) ''name'',
     vs_tenant_id = get (Some d) ''tenant_id'', vs_network_id = get (Some d) ''network_id'',
     vs_gateway_ip = get (Some d) ''gateway_ip''\<rparr>"

definition vSubnets_retrieved :: "json option \<Rightarrow> json option list js" where
  "vSubnets_retrieved data =
     (case property data ''subnets'' of Inl e \<Rightarrow> Inl e
      | Inr subnets \<Rightarrow> retrieved_keys ''id'' (each_values subnets))"

definition vSubnets_success ::
    "json option \<Rightarrow> vsubnet_scope \<times> ('sw, 'dev, 'vn, vsubnet) iris \<Rightarrow>
      (vsubnet_scope \<times> ('sw, 'dev, 'vn, vsubnet) iris) outcome" where
  "vSubnets_success data st = (case st of (s, w) \<Rightarrow>
     (case vSubnets_retrieved data of
        Inl e \<Rightarrow> ((s, w), Some e)
      | Inr retrieved_ids \<Rightarrow>
          (let to_remove_ids = difference (vSubnet_ids s) retrieved_ids;
               to_add_ids = difference retrieved_ids (vSubnet_ids s);
               subnets = each_values (get data ''subnets'');
               kept = filter (\<lambda>d. \<not> contains to_remove_ids (vs_id d)) (vSubnets s);
               rows = push_new (\<lambda>d. get (Some d) ''id'') vsubnet_row to_add_ids subnets kept
           in ((\<lparr>vSubnets = rows,
                 vSubnet_ids = adjust_ids (vSubnet_ids s) to_remove_ids to_add_ids\<rparr>,
                setVSubnets rows w), None))))"

definition vSubnets_error :: "vsubnet_scope \<times> 'w \<Rightarrow> vsubnet_scope \<times> 'w" where
  "vSubnets_error st = (case st of (s, w) \<Rightarrow> (s\<lparr>vSubnets := [], vSubnet_ids := []\<rparr>, w))"

lemma vSubnets_success_Inl:
  "vSubnets_retrieved data = Inl e \<Longrightarrow> vSubnets_success data st = (st, Some e)"
  by (simp add: vSubnets_success_def split: prod.split)

lemma vSubnets_success_Inr:
  assumes "vSubnets_retrieved data = Inr ks"
  shows "vSubnets_success data (s, w) =
    ((\<lparr>vSubnets = push_new (\<lambda>d. get (Some d) ''id'') vsubnet_row (difference ks (vSubnet_ids s))
           (each_values (get data ''subnets''))
           (filter (\<lambda>d. \<not> contains (difference (vSubnet_ids s) ks) (vs_id d)) (vSubnets s)),
       vSubnet_ids = adjust_ids (vSubnet_ids s) (difference (vSubnet_ids s) ks) (difference ks (vSubnet_ids s))\<rparr>,
      setVSubnets (push_new (\<lambda>d. get (Some d) ''id'') vsubnet_row (difference ks (vSubnet_ids s))
           (each_values (get data ''subnets''))
           (filter (\<lambda>d. \<not> contains (difference (vSubnet_ids s) ks) (vs_id d)) (vSubnets s))) w), None)"
  using assms by (simp only: vSubnets_success_def Let_def prod.case sum.case)

lemma vSubnets_retrieved_keys:
  "vSubnets_retrieved data = Inr ks \<Longrightarrow>
     retrieved_keys ''id'' (each_values (get data ''subnets'')) = Inr ks"
  by (auto simp: vSubnets_retrieved_def get_def split: sum.splits)

lemma vsubnet_row_id: "vs_id (vsubnet_row d) = get (Some d) ''id''"
  by (simp add: vsubnet_row_def)

interpretation vsubnet: synced_table vSubnets_success vSubnets_error
    "\<lambda>st. vSubnet_ids (fst st)" "\<lambda>st. map vs_id (vSubnets (fst st))" vSubnets_retrieved "\<lambda>_. True"
  by unfold_locales
    (auto simp: vSubnets_success_Inl vSubnets_success_Inr vSubnets_error_def push_new_row_ids
      [where rid = vs_id and mk = vsubnet_row, OF vsubnet_row_id vSubnets_retrieved_keys] simp del: contains_iff)

section \<open>Virtual ports\<close>

record vport =
  vp_id :: "json option"
  vp_name :: "json option"
  vp_tenant_id :: "json option"
  vp_network_id :: "json option"
  vp_mac_address :: "json option"

record vport_scope =
  vPorts :: "vport list"
  vPort_ids :: "json option list"

definition vport_init :: vport_scope where
  "vport_init = \<lparr>vPorts = [], vPort_ids = []\<rparr>"

definition vport_row :: "json \<Rightarrow> vport" where
  "vport_row d = \<lparr>vp_id = get (Some d) ''id'', vp_name = get (Some d) ''name'',
     vp_tenant_id = get (Some d) ''tenant_id'', vp_network_id = get (Some d) ''network_id'',
     vp_mac_address = get (Some d) ''mac_address''\<rparr>"

definition vPorts_retrieved :: "json option \<Rightarrow> json option list js" where
  "vPorts_retrieved data =
     (case property data ''ports'' of Inl e \<Rightarrow> Inl e
      | Inr ports \<Rightarrow> retrieved_keys ''id'' (each_values ports))"

text \<open>
  The last statement calls \<open>$iris.setVPorts\<close>, which the service does not have: the scope is
  already updated when the call throws.
\<close>

definition vPorts_success ::
    "json option \<Rightarrow> vport_scope \<times> ('sw, 'dev, 'vn, 'vs) iris \<Rightarrow>
      (vport_scope \<times> ('sw, 'dev, 'vn, 'vs) iris) outcome" where
  "vPorts_success data st = (case st of (s, w) \<Rightarrow>
     (case vPorts_retrieved data of
        Inl e \<Rightarrow> ((s, w), Some e)
      | Inr retrieved_ids \<Rightarrow>
          (let to_remove_ids = difference (vPort_ids s) retrieved_ids;
               to_add_ids = difference retrieved_ids (vPort_ids s);
               ports = each_values (get data ''ports'');
               kept = filter (\<lambda>d. \<not> contains to_remove_ids (vp_id d)) (vPorts s);
               rows = push_new (\<lambda>d. get (Some d) ''id'') vport_row to_add_ids ports kept;
               s' = \<lparr>vPorts = rows, vPort_ids = adjust_ids (vPort_ids s) to_remove_ids to_add_ids\<rparr>
           in (case call_method ''setVPorts'' id w of
                 Inl e \<Rightarrow> ((s', w), Some e)
               | Inr w' \<Rightarrow> ((s', w'), None)))))"

definition vPorts_error :: "vport_scope \<times> 'w \<Rightarrow> vport_scope \<times> 'w" where
  "vPorts_error st = (case st of (s, w) \<Rightarrow> (s\<lparr>vPorts := [], vPort_ids := []\<rparr>, w))"

lemma setVPorts_missing [simp]: "call_method ''setVPorts'' f w = Inl TypeError"
  by (simp add: call_method_def iris_methods_def)

lemma vPorts_success_Inl:
  "vPorts_retrieved data = Inl e \<Longrightarrow> vPorts_success data st = (st, Some e)"
  by (simp add: vPorts_success_def split: prod.split)

lemma vPorts_success_Inr:
  assumes "vPorts_retrieved data = Inr ks"
  shows "vPorts_success data (s, w) =
    ((\<lparr>vPorts = push_new (\<lambda>d. get (Some d) ''id'') vport_row (difference ks (vPort_ids s))
           (each_values (get data ''ports''))
           (filter (\<lambda>d. \<not> contains (difference (vPort_ids s) ks) (vp_id d)) (vPorts s)),
       vPort_ids = adjust_ids (vPort_ids s) (difference (vPort_ids s) ks) (difference ks (vPort_ids s))\<rparr>,
      w), Some TypeError)"
  using assms by (simp only: vPorts_success_def Let_def prod.case sum.case setVPorts_missing)

lemma vPorts_retrieved_keys:
  "vPorts_retrieved data = Inr ks \<Longrightarrow>
     retrieved_keys ''id'' (each_values (get data ''ports'')) = Inr ks"
  by (auto simp: vPorts_retrieved_def get_def split: sum.splits)

lemma vport_row_id: "vp_id (vport_row d) = get (Some d) ''id''"
  by (simp add: vport_row_def)

interpretation vport: synced_table vPorts_success vPorts_error
    "\<lambda>st. vPort_ids (fst st)" "\<lambda>st. map vp_id (vPorts (fst st))" vPorts_retrieved "\<lambda>_. True"
  by unfold_locales
    (auto simp: vPorts_success_Inl vPorts_success_Inr vPorts_error_def push_new_row_ids
      [where rid = vp_id and mk = vport_row, OF vport_row_id vPorts_retrieved_keys] simp del: contains_iff)

section \<open>The three controllers\<close>

definition CntlVNetworks where
  "CntlVNetworks w = start_polling (vnet_init, w)"

definition CntlVNetworks_step where
  "CntlVNetworks_step = interval_step vNetworks_success vNetworks_error"

definition CntlVSubnets where
  "CntlVSubnets w = start_polling (vsubnet_init, w)"

definition CntlVSubnets_step where
  "CntlVSubnets_step = interval_step vSubnets_success vSubnets_error"

definition CntlVPorts where
  "CntlVPorts w = start_polling (vport_init, w)"

definition CntlVPorts_step where
  "CntlVPorts_step = interval_step vPorts_success vPorts_error"

text \<open>
  A row never changes after it was pushed: a row after a response is a row from before whose
  id is still reported, or a new row of an entry of the response.
\<close>

lemma vNetworks_rows:
  assumes "vNetworks_retrieved data = Inr ks"
  shows "vNetworks (fst (fst (vNetworks_success data (s, w)))) =
     filter (\<lambda>r. vn_id r \<in> set (vNetwork_ids s) \<longrightarrow> vn_id r \<in> set ks) (vNetworks s)
     @ map vnetwork_row (filter (\<lambda>d. get (Some d) ''id'' \<in> set ks - set (vNetwork_ids s))
         (each_values (get data ''networks'')))"
  using assms by (simp add: vNetworks_success_Inr push_new_eq)

section \<open>Properties\<close>

text \<open>
  C11: An answer gives a table of virtual networks whose rows are the old rows that are still
  reported, unchanged, and then a row for each entry with a new id; the ids follow the answer;
  and the service holds the new rows.
\<close>

theorem vnetwork_table_update:
  fixes w :: "('sw, 'dev, vnetwork, 'vs) iris"
  assumes "vNetworks_retrieved data = Inr ks" "map vn_id (vNetworks s) = vNetwork_ids s"
  shows "let r = vNetworks_success data (s, w); t = fst (fst r) in
    vNetworks t = filter (\<lambda>row. vn_id row \<in> set ks) (vNetworks s)
      @ map vnetwork_row (filter (\<lambda>d. get (Some d) ''id'' \<in> set ks - set (vNetwork_ids s))
          (each_values (get data ''networks''))) \<and>
    set (vNetwork_ids t) = set ks \<and> getVNetworks (snd (fst r)) = Some (vNetworks t) \<and> completes r"
proof -
  have ids: "\<forall>row \<in> set (vNetworks s). vn_id row \<in> set (vNetwork_ids s)"
    using assms(2) by (metis image_eqI list.set_map)
  have "set (vNetwork_ids (fst (fst (vNetworks_success data (s, w))))) = set ks"
    using vnet.success_set [OF assms(1), of "(s, w)"] by simp
  moreover have "filter (\<lambda>r. vn_id r \<in> set (vNetwork_ids s) \<longrightarrow> vn_id r \<in> set ks) (vNetworks s)
      = filter (\<lambda>row. vn_id row \<in> set ks) (vNetworks s)"
    using ids by (auto intro!: filter_cong)
  ultimately show ?thesis
    unfolding Let_def vNetworks_rows [OF assms(1)]
    by (simp add: vNetworks_success_Inr [OF assms(1)] vNetworks_slot.read_write push_new_eq)
qed

theorem vnetwork_table_update_witness:
  "vNetworks (fst (fst (vNetworks_success (Some (JObj [(''networks'', JArr [JObj [(''id'', JStr ''n'')]])]))
     (vnet_init, iris_init :: (nat, nat, vnetwork, nat) iris)))) = [vnetwork_row (JObj [(''id'', JStr ''n'')])]"
proof -
  have "vNetworks_retrieved (Some (JObj [(''networks'', JArr [JObj [(''id'', JStr ''n'')]])])) = Inr [Some (JStr ''n'')]"
    by (simp add: vNetworks_retrieved_def retrieved_keys_def)
  moreover have "map vn_id (vNetworks vnet_init) = vNetwork_ids vnet_init" by (simp add: vnet_init_def)
  ultimately show ?thesis
    using vnetwork_table_update [of _ _ vnet_init "iris_init :: (nat, nat, vnetwork, nat) iris"]
    by (fastforce simp: Let_def get_def vnet_init_def)
qed

text \<open>
  Every answer that the virtual port controller can read updates its table to follow the
  answer, and then throws, because the service has no \<open>setVPorts\<close>; the service is unchanged.
\<close>

theorem vport_answers_throw:
  fixes w :: "('sw, 'dev, 'vn, 'vs) iris"
  assumes "vPorts_retrieved data = Inr ks" "distinct ks"
    "table_aligned (vPort_ids s) (map vp_id (vPorts s))"
  shows "let r = vPorts_success data (s, w); t = fst (fst r) in
    snd r = Some TypeError \<and> snd (fst r) = w \<and> set (vPort_ids t) = set ks \<and>
    table_aligned (vPort_ids t) (map vp_id (vPorts t))"
proof -
  have "snd (vPorts_success data (s, w)) = Some TypeError \<and> snd (fst (vPorts_success data (s, w))) = w"
    by (simp add: vPorts_success_Inr [OF assms(1)])
  then show ?thesis
    using vport.success_set [OF assms(1), of "(s, w)"]
      vport.success_aligned [OF assms(1,2), of "(s, w)"] assms(3)
    by (simp add: Let_def)
qed

theorem vport_answers_throw_witness:
  "snd (vPorts_success (Some (JObj [(''ports'', JArr [])])) (vport_init, iris_init :: (nat, nat, nat, nat) iris))
     = Some TypeError"
proof -
  have "vPorts_retrieved (Some (JObj [(''ports'', JArr [])])) = Inr []"
    by (simp add: vPorts_retrieved_def retrieved_keys_def)
  then show ?thesis
    using vport_answers_throw [of _ "[]" vport_init "iris_init :: (nat, nat, nat, nat) iris"]
    by (simp add: Let_def vport_init_def table_aligned_def)
qed

text \<open>
  Whatever the order of timers and answers, the ids of the virtual subnet controller are
  distinct and are exactly the ids of its rows, and it can always send the next request.
\<close>

theorem vsubnet_polling:
  fixes w :: "('sw, 'dev, 'vn, vsubnet) iris"
  assumes "run_events CntlVSubnets_step (CntlVSubnets w) es = Some q"
  shows "table_consistent (vSubnet_ids (fst (scope q))) (map vs_id (vSubnets (fst (scope q)))) \<and>
    (\<exists>r. CntlVSubnets_step q TimerFires = Some r \<and> inflight r = Suc (inflight q))"
proof -
  have inv: "True \<and> table_consistent (vSubnet_ids (fst (vsubnet_init, w))) (map vs_id (vSubnets (fst (vsubnet_init, w))))"
    by (simp add: table_consistent_def vsubnet_init_def)
  note run = assms [unfolded CntlVSubnets_def CntlVSubnets_step_def]
  show ?thesis
    using vsubnet.polling_invar [OF inv run] vsubnet.polling_never_stops [OF inv run]
    by (simp add: CntlVSubnets_step_def)
qed

theorem vsubnet_polling_witness:
  "\<exists>q. run_events CntlVSubnets_step (CntlVSubnets (iris_init :: (nat, nat, nat, vsubnet) iris)) [Fails, TimerFires] = Some q \<and>
     table_consistent (vSubnet_ids (fst (scope q))) (map vs_id (vSubnets (fst (scope q))))"
proof -
  obtain q where q: "run_events CntlVSubnets_step (CntlVSubnets (iris_init :: (nat, nat, nat, vsubnet) iris))
      [Fails, TimerFires] = Some q"
    by (simp add: CntlVSubnets_step_def CntlVSubnets_def start_polling_def intervalFunction_def getData_def)
  from vsubnet_polling [OF q] q show ?thesis by blast
qed

end
