(* ===== verification/Details.thy ===== *)
theory Details
  imports Sync
begin

text \<open>
  The controllers that show one response: \<open>switch_desc.js\<close>, \<open>vnetwork_detail.js\<close>,
  \<open>vsubnet_detail.js\<close>, \<open>vport_detail.js\<close> (each fires one request) and \<open>status.js\<close>, which
  polls every three seconds.
\<close>

section \<open>One-shot detail views\<close>

text \<open>\<open>_.each\<close> that assigns every value to the same scope variable.\<close>

fun assign_each :: "json list \<Rightarrow> json \<Rightarrow> json" where
  "assign_each [] cur = cur"
| "assign_each (d # ds) cur = assign_each ds d"

record desc_scope =
  sd_id :: string
  desc :: json

definition desc_init :: "string \<Rightarrow> desc_scope" where
  "desc_init i = \<lparr>sd_id = i, desc = JObj []\<rparr>"

definition desc_success :: "json option \<Rightarrow> desc_scope \<Rightarrow> desc_scope outcome" where
  "desc_success data s =
     (let s1 = s\<lparr>desc := JArr []\<rparr>
      in case property data (sd_id s) of
           Inl e \<Rightarrow> (s1, Some e)
         | Inr v \<Rightarrow> (s1\<lparr>desc := assign_each (each_values v) (desc s1)\<rparr>, None))"

definition desc_error :: "desc_scope \<Rightarrow> desc_scope" where
  "desc_error s = s\<lparr>desc := JObj []\<rparr>"

definition desc_url :: "desc_scope \<Rightarrow> string" where
  "desc_url s = ''/wm/core/switch/'' @ sd_id s @ ''/desc/json''"

record detail_scope =
  dt_id :: string
  detail :: json

definition detail_init :: "string \<Rightarrow> detail_scope" where
  "detail_init i = \<lparr>dt_id = i, detail = JObj []\<rparr>"

definition vNetworkDetail_success :: "json option \<Rightarrow> detail_scope \<Rightarrow> detail_scope outcome" where
  "vNetworkDetail_success data s = (s\<lparr>detail := assign_each (each_values data) (JArr [])\<rparr>, None)"

definition vNetworkDetail_error :: "detail_scope \<Rightarrow> detail_scope" where
  "vNetworkDetail_error s = s\<lparr>detail := JObj []\<rparr>"

definition vNetworkDetail_url :: "detail_scope \<Rightarrow> string" where
  "vNetworkDetail_url s = ''/wm/ml2/networks/'' @ dt_id s"

definition vSubnetDetail_success :: "json option \<Rightarrow> detail_scope \<Rightarrow> detail_scope outcome" where
  "vSubnetDetail_success data s = (s\<lparr>detail := assign_each (each_values data) (JArr [])\<rparr>, None)"

definition vSubnetDetail_error :: "detail_scope \<Rightarrow> detail_scope" where
  "vSubnetDetail_error s = s\<lparr>detail := JObj []\<rparr>"

definition vSubnetDetail_url :: "detail_scope \<Rightarrow> string" where
  "vSubnetDetail_url s = ''/wm/ml2/subnets/'' @ dt_id s"

definition vPortDetail_success :: "json option \<Rightarrow> detail_scope \<Rightarrow> detail_scope outcome" where
  "vPortDetail_success data s = (s\<lparr>detail := assign_each (each_values data) (JArr [])\<rparr>, None)"

definition vPortDetail_error :: "detail_scope \<Rightarrow> detail_scope" where
  "vPortDetail_error s = s\<lparr>detail := JObj []\<rparr>"

definition vPortDetail_url :: "detail_scope \<Rightarrow> string" where
  "vPortDetail_url s = ''/wm/ml2/ports/'' @ dt_id s"

lemma assign_each_last: "assign_each ds cur = (if ds = [] then cur else last ds)"
  by (induction ds cur rule: assign_each.induct) auto

section \<open>Controller status\<close>

record status_scope =
  stat :: "json option"

definition status_success :: "json option \<Rightarrow> status_scope \<Rightarrow> status_scope outcome" where
  "status_success data s = (s\<lparr>stat := data\<rparr>, None)"

definition status_unknown :: json where
  "status_unknown = JObj
     [(''host'', JStr ''unknown''), (''ofport'', JStr ''0''), (''healthy'', JStr ''false''),
      (''uptime'', JStr ''0''), (''free'', JStr ''0''), (''total'', JStr ''0''),
      (''moduleText'', JStr ''Not available'')]"

definition status_error :: "status_scope \<Rightarrow> status_scope" where
  "status_error s = s\<lparr>stat := Some status_unknown\<rparr>"

definition CntlControllerStatus :: "status_scope polled" where
  "CntlControllerStatus = start_polling \<lparr>stat = None\<rparr>"

definition CntlControllerStatus_step where
  "CntlControllerStatus_step = interval_step status_success status_error"

text \<open>
  The template reads seven fields of \<open>stat\<close>; the record of an unreachable controller has
  them all.
\<close>

definition status_fields :: "string list" where
  "status_fields = [''host'', ''ofport'', ''healthy'', ''uptime'', ''free'', ''total'', ''moduleText'']"

definition status_shown :: "status_scope \<Rightarrow> json list \<Rightarrow> bool" where
  "status_shown s ds \<longleftrightarrow> stat s = None \<or> stat s = Some status_unknown \<or> (\<exists>d \<in> set ds. stat s = Some d)"

section \<open>Properties\<close>

text \<open>
  Whatever the order of timers and answers, the status view shows nothing yet, the last
  answer of some successful request, or the record of an unreachable controller; and that
  record has every field the template reads.
\<close>

theorem status_shows_answer_or_unknown:
  assumes "run_events CntlControllerStatus_step CntlControllerStatus es = Some q"
  shows "(stat (scope q) = None \<or> stat (scope q) = Some status_unknown \<or> Succeeds (stat (scope q)) \<in> set es) \<and>
    list_all (\<lambda>f. get (Some status_unknown) f \<noteq> None) status_fields"
proof
  let ?ok = "\<lambda>es p. stat (scope p) = None \<or> stat (scope p) = Some status_unknown \<or> Succeeds (stat (scope p)) \<in> set es"
  have step: "?ok (e # es) q" if "?ok es p" "CntlControllerStatus_step p e = Some q" for es e p q
    using that by (cases e) (auto simp: CntlControllerStatus_step_def status_success_def status_error_def
        getData_def intervalFunction_def split: if_splits)
  have gen: "?ok (ds @ es) q"
    if "run_events CntlControllerStatus_step p es = Some q" "?ok ds p" for p ds
    using that
  proof (induction es arbitrary: p ds)
    case (Cons e es)
    then obtain r where r: "CntlControllerStatus_step p e = Some r"
      "run_events CntlControllerStatus_step r es = Some q" by (auto simp: bind_eq_Some_conv)
    have "?ok (ds @ [e]) r" using step [OF Cons.prems(2) r(1)] by auto
    from Cons.IH [OF r(2) this] show ?case by simp
  qed simp
  have "?ok [] CntlControllerStatus"
    by (simp add: CntlControllerStatus_def start_polling_def intervalFunction_def getData_def)
  from gen [OF assms this] show "?ok es q" by simp
  show "list_all (\<lambda>f. get (Some status_unknown) f \<noteq> None) status_fields"
    by (simp add: status_unknown_def status_fields_def get_def)
qed

theorem status_shows_answer_or_unknown_witness:
  "\<exists>q. run_events CntlControllerStatus_step CntlControllerStatus [Fails] = Some q \<and>
     (stat (scope q) = None \<or> stat (scope q) = Some status_unknown)"
proof -
  obtain q where q: "run_events CntlControllerStatus_step CntlControllerStatus [Fails] = Some q"
    by (simp add: CntlControllerStatus_step_def CntlControllerStatus_def start_polling_def
        intervalFunction_def getData_def)
  from status_shows_answer_or_unknown [OF q] q show ?thesis by auto
qed

text \<open>
  A detail view shows the last value of the answer, an empty array when the answer has
  none; a switch description reads the answer under the switch's id.
\<close>

theorem detail_views_show_last_value:
  "detail (fst (vNetworkDetail_success data s)) = last (JArr [] # each_values data) \<and>
   detail (fst (vSubnetDetail_success data s)) = last (JArr [] # each_values data) \<and>
   detail (fst (vPortDetail_success data s)) = last (JArr [] # each_values data) \<and>
   desc (fst (desc_success d t)) = last (JArr [] # each_values (get d (sd_id t)))"
proof -
  have "desc (fst (desc_success d t)) = last (JArr [] # each_values (get d (sd_id t)))"
    by (cases "property d (sd_id t)") (simp_all add: desc_success_def Let_def assign_each_last get_def)
  then show ?thesis
    by (simp add: vNetworkDetail_success_def vSubnetDetail_success_def vPortDetail_success_def assign_each_last)
qed

end
