(* ===== verification/Switches.thy ===== *)
theory Switches
  imports Sync Periscope
begin

text \<open>
  \<open>web/js/controllers/switches.js\<close>: the table of switches. A row is an object that the
  response handlers of later requests update in place, and that the table and the
  \<open>$iris\<close> service share, so rows live in a heap and the arrays hold references. The page is
  a state machine whose steps are the timer and the answers to open requests, in any order.
\<close>

section \<open>Rows and scope\<close>

record switch_row =
  sw_id :: "json option"
  sw_inetAddress :: "json option"
  connectedSince :: string
  vendor :: "json option"
  packets :: "json option"
  bytes :: "json option"
  flows :: "json option"
  manufacturerDescription :: "json option"
  hardwareDescription :: "json option"
  datapathDescription :: "json option"
  serialNumber :: "json option"
  softwareDescription :: "json option"

record switch_scope =
  switch_dpids :: "json option list"
  switches :: "nat list"
  row_heap :: "nat \<rightharpoonup> switch_row"
  next_ref :: nat

type_synonym ('dev, 'vn, 'vs) switch_state = "switch_scope \<times> (nat, 'dev, 'vn, 'vs) iris"

definition switch_init :: switch_scope where
  "switch_init = \<lparr>switch_dpids = [], switches = [], row_heap = Map.empty, next_ref = 0\<rparr>"

definition row_at :: "switch_scope \<Rightarrow> nat \<Rightarrow> switch_row" where
  "row_at s r = the (row_heap s r)"

text \<open>The row pushed for a newly reported switch; \<open>fmt\<close> is \<open>new Date(\<dots>).toLocaleString()\<close>.\<close>

definition new_row :: "(json option \<Rightarrow> string) \<Rightarrow> json \<Rightarrow> switch_row" where
  "new_row fmt d = \<lparr>sw_id = get (Some d) ''dpid'', sw_inetAddress = get (Some d) ''inetAddress'',
     connectedSince = fmt (get (Some d) ''connectedSince''), vendor = Some (JStr ''-''),
     packets = Some (JStr ''0''), bytes = Some (JStr ''0''), flows = Some (JStr ''0''),
     manufacturerDescription = None, hardwareDescription = None, datapathDescription = None,
     serialNumber = None, softwareDescription = None\<rparr>"

definition alloc_row :: "switch_row \<Rightarrow> switch_scope \<Rightarrow> switch_scope" where
  "alloc_row row s = s\<lparr>switches := switches s @ [next_ref s],
     row_heap := (row_heap s)(next_ref s \<mapsto> row), next_ref := Suc (next_ref s)\<rparr>"

fun push_switches ::
    "(json option \<Rightarrow> string) \<Rightarrow> json option list \<Rightarrow> json list \<Rightarrow> switch_scope \<Rightarrow> switch_scope" where
  "push_switches fmt to_add [] s = s"
| "push_switches fmt to_add (d # ds) s =
     push_switches fmt to_add ds
       (if contains to_add (get (Some d) ''dpid'') then alloc_row (new_row fmt d) s else s)"

section \<open>Requests and handlers\<close>

datatype sw_request = GetSwitches | GetDescription nat | GetAggregate nat

fun request_url :: "switch_scope \<Rightarrow> sw_request \<Rightarrow> string" where
  "request_url s GetSwitches = ''/wm/core/controller/switches/json''"
| "request_url s (GetDescription r) =
     ''/wm/core/switch/'' @ key_of (sw_id (row_at s r)) @ ''/desc/json''"
| "request_url s (GetAggregate r) =
     ''/wm/core/switch/'' @ key_of (sw_id (row_at s r)) @ ''/aggregate/json''"

text \<open>\<open>sw.vendor == '-'\<close>: an array compares through its string.\<close>

fun loosely_dash :: "json option \<Rightarrow> bool" where
  "loosely_dash (Some (JStr s)) = (s = ''-'')"
| "loosely_dash (Some (JArr xs)) = (to_string (JArr xs) = ''-'')"
| "loosely_dash _ = False"

definition getDescription :: "switch_scope \<Rightarrow> sw_request list" where
  "getDescription s =
     map GetDescription (filter (\<lambda>r. loosely_dash (vendor (row_at s r))) (switches s))"

definition getAggregateStatistics :: "switch_scope \<Rightarrow> sw_request list" where
  "getAggregateStatistics s = map GetAggregate (switches s)"

definition switches_retrieved :: "json option \<Rightarrow> json option list js" where
  "switches_retrieved data = retrieved_keys ''dpid'' (each_values data)"

definition switches_success ::
    "(json option \<Rightarrow> string) \<Rightarrow> json option \<Rightarrow> ('dev, 'vn, 'vs) switch_state \<Rightarrow>
      ('dev, 'vn, 'vs) switch_state outcome" where
  "switches_success fmt data st = (case st of (s, w) \<Rightarrow>
     (case switches_retrieved data of
        Inl e \<Rightarrow> ((s, w), Some e)
      | Inr retrieved_dpids \<Rightarrow>
          (let to_remove_dpids = difference (switch_dpids s) retrieved_dpids;
               to_add_dpids = difference retrieved_dpids (switch_dpids s);
               s1 = s\<lparr>switch_dpids := adjust_ids (switch_dpids s) to_remove_dpids to_add_dpids,
                      switches := filter (\<lambda>r. \<not> contains to_remove_dpids (sw_id (row_at s r)))
                                    (switches s)\<rparr>;
               s2 = push_switches fmt to_add_dpids (each_values data) s1
           in ((s2, setSwitches (switches s2) w), None))))"

text \<open>The requests the handler starts once the table is updated.\<close>

definition switches_followups :: "('dev, 'vn, 'vs) switch_state outcome \<Rightarrow> sw_request list" where
  "switches_followups r =
     (case r of ((s, w), None) \<Rightarrow> getDescription s @ getAggregateStatistics s | _ \<Rightarrow> [])"

definition switches_error :: "('dev, 'vn, 'vs) switch_state \<Rightarrow> ('dev, 'vn, 'vs) switch_state" where
  "switches_error st = (case st of (s, w) \<Rightarrow> (s\<lparr>switches := [], switch_dpids := []\<rparr>, w))"

definition update_row :: "nat \<Rightarrow> (switch_row \<Rightarrow> switch_row) \<Rightarrow> switch_scope \<Rightarrow> switch_scope" where
  "update_row r f s = s\<lparr>row_heap := (row_heap s)(r \<mapsto> f (row_at s r))\<rparr>"

definition set_description ::
    "json option \<Rightarrow> (string \<Rightarrow> json option) \<Rightarrow> nat \<Rightarrow> switch_scope \<Rightarrow> switch_scope" where
  "set_description v val r s =
     update_row r (\<lambda>row. row\<lparr>vendor := v, manufacturerDescription := v,
       hardwareDescription := val ''hardwareDescription'',
       datapathDescription := val ''datapathDescription'',
       serialNumber := val ''serialNumber'',
       softwareDescription := val ''softwareDescription''\<rparr>) s"

definition description_success ::
    "nat \<Rightarrow> json option \<Rightarrow> switch_scope \<Rightarrow> switch_scope outcome" where
  "description_success r data s =
     (let field = (\<lambda>f. path data [key_of (sw_id (row_at s r)), ''0'', f]);
          val = (\<lambda>f. case field f of Inl _ \<Rightarrow> None | Inr v \<Rightarrow> v)
      in case field ''manufacturerDescription'' of
           Inl e \<Rightarrow> (s, Some e)
         | Inr v \<Rightarrow> (set_description v val r s, None))"

definition set_counters ::
    "json option \<Rightarrow> json option \<Rightarrow> json option \<Rightarrow> nat \<Rightarrow> switch_scope \<Rightarrow> switch_scope" where
  "set_counters p b f r s = update_row r (\<lambda>row. row\<lparr>packets := p, bytes := b, flows := f\<rparr>) s"

definition aggregate_success :: "nat \<Rightarrow> json option \<Rightarrow> switch_scope \<Rightarrow> switch_scope" where
  "aggregate_success r data s =
     (let entry = get data (key_of (sw_id (row_at s r)));
          first = get entry ''0''
      in if truthy data \<and> truthy entry \<and> truthy first then
           set_counters (get first ''packetCount'') (get first ''byteCount'')
             (get first ''flowCount'') r s
         else set_counters (Some (JStr ''-'')) (Some (JStr ''-'')) (Some (JStr ''-'')) r s)"

definition aggregate_error :: "nat \<Rightarrow> switch_scope \<Rightarrow> switch_scope" where
  "aggregate_error r s = set_counters (Some (JStr ''-'')) (Some (JStr ''-'')) (Some (JStr ''-'')) r s"

section \<open>The page as a state machine\<close>

record ('dev, 'vn, 'vs) switch_page =
  page_state :: "('dev, 'vn, 'vs) switch_state"
  open_requests :: "sw_request list"
  sw_timers :: nat

definition CntlSwitches :: "(nat, 'dev, 'vn, 'vs) iris \<Rightarrow> ('dev, 'vn, 'vs) switch_page" where
  "CntlSwitches w = \<lparr>page_state = (switch_init, w), open_requests = [GetSwitches], sw_timers = 1\<rparr>"

text \<open>
  Any open request may be answered next, successfully or not; a description that fails has no
  handler. The timer starts a new request and the next timer.
\<close>

inductive sw_step ::
    "(json option \<Rightarrow> string) \<Rightarrow> ('dev, 'vn, 'vs) switch_page \<Rightarrow> ('dev, 'vn, 'vs) switch_page \<Rightarrow> bool"
  for fmt where
  timer: "0 < sw_timers p \<Longrightarrow>
     sw_step fmt p (p\<lparr>open_requests := open_requests p @ [GetSwitches]\<rparr>)"
| switches_ok: "GetSwitches \<in> set (open_requests p) \<Longrightarrow>
     r = switches_success fmt data (page_state p) \<Longrightarrow>
     sw_step fmt p (p\<lparr>page_state := fst r,
       open_requests := remove1 GetSwitches (open_requests p) @ switches_followups r\<rparr>)"
| switches_fail: "GetSwitches \<in> set (open_requests p) \<Longrightarrow>
     sw_step fmt p (p\<lparr>page_state := switches_error (page_state p),
       open_requests := remove1 GetSwitches (open_requests p)\<rparr>)"
| description_ok: "GetDescription i \<in> set (open_requests p) \<Longrightarrow>
     sw_step fmt p
       (p\<lparr>page_state := apfst (\<lambda>s. fst (description_success i data s)) (page_state p),
          open_requests := remove1 (GetDescription i) (open_requests p)\<rparr>)"
| description_fail: "GetDescription i \<in> set (open_requests p) \<Longrightarrow>
     sw_step fmt p (p\<lparr>open_requests := remove1 (GetDescription i) (open_requests p)\<rparr>)"
| aggregate_ok: "GetAggregate i \<in> set (open_requests p) \<Longrightarrow>
     sw_step fmt p (p\<lparr>page_state := apfst (aggregate_success i data) (page_state p),
       open_requests := remove1 (GetAggregate i) (open_requests p)\<rparr>)"
| aggregate_fail: "GetAggregate i \<in> set (open_requests p) \<Longrightarrow>
     sw_step fmt p (p\<lparr>page_state := apfst (aggregate_error i) (page_state p),
       open_requests := remove1 (GetAggregate i) (open_requests p)\<rparr>)"

inductive sw_reachable ::
    "(json option \<Rightarrow> string) \<Rightarrow> (nat, 'dev, 'vn, 'vs) iris \<Rightarrow> ('dev, 'vn, 'vs) switch_page \<Rightarrow> bool"
  for fmt w where
  start: "sw_reachable fmt w (CntlSwitches w)"
| step: "sw_reachable fmt w p \<Longrightarrow> sw_step fmt p q \<Longrightarrow> sw_reachable fmt w q"

section \<open>The heap stays well formed\<close>

definition heap_ok :: "switch_scope \<Rightarrow> bool" where
  "heap_ok s \<longleftrightarrow> dom (row_heap s) = {..<next_ref s} \<and> set (switches s) \<subseteq> {..<next_ref s} \<and>
     distinct (switches s)"

definition switch_ids :: "switch_scope \<Rightarrow> json option list" where
  "switch_ids s = map (\<lambda>r. sw_id (row_at s r)) (switches s)"

lemma heap_ok_init: "heap_ok switch_init"
  by (simp add: heap_ok_def switch_init_def)

lemma heap_ok_alloc: "heap_ok s \<Longrightarrow> heap_ok (alloc_row row s)"
  by (auto simp: heap_ok_def alloc_row_def)

lemma switch_ids_alloc:
  "heap_ok s \<Longrightarrow> switch_ids (alloc_row row s) = switch_ids s @ [sw_id row]"
  by (auto simp: switch_ids_def alloc_row_def row_at_def heap_ok_def)

lemma switch_dpids_alloc [simp]: "switch_dpids (alloc_row row s) = switch_dpids s"
  by (simp add: alloc_row_def)

lemma push_switches_props:
  assumes "heap_ok s"
  shows "heap_ok (push_switches fmt to_add ds s) \<and>
     switch_dpids (push_switches fmt to_add ds s) = switch_dpids s \<and>
     switch_ids (push_switches fmt to_add ds s) =
       switch_ids s @ filter (contains to_add) (map (\<lambda>d. get (Some d) ''dpid'') ds)"
  using assms
proof (induction fmt to_add ds s rule: push_switches.induct)
  case (1 fmt to_add s)
  then show ?case by simp
next
  case (2 fmt to_add d ds s)
  let ?s = "if contains to_add (get (Some d) ''dpid'') then alloc_row (new_row fmt d) s else s"
  have "heap_ok ?s" using 2 by (simp add: heap_ok_alloc)
  with 2 show ?case by (simp add: switch_ids_alloc new_row_def)
qed

text \<open>The part of the table handler before the pushes.\<close>

definition drop_switches :: "json option list \<Rightarrow> json option list \<Rightarrow> switch_scope \<Rightarrow> switch_scope" where
  "drop_switches ids' gone s = s\<lparr>switch_dpids := ids',
     switches := filter (\<lambda>r. \<not> contains gone (sw_id (row_at s r))) (switches s)\<rparr>"

lemma drop_switches_props:
  "heap_ok s \<Longrightarrow> heap_ok (drop_switches ids' gone s)"
  "switch_ids (drop_switches ids' gone s) = filter (\<lambda>k. \<not> contains gone k) (switch_ids s)"
  "switch_dpids (drop_switches ids' gone s) = ids'"
  by (auto simp: heap_ok_def drop_switches_def switch_ids_def row_at_def filter_map comp_def)

lemma switches_success_Inl:
  "switches_retrieved data = Inl e \<Longrightarrow> switches_success fmt data st = (st, Some e)"
  by (simp add: switches_success_def split: prod.split)

definition synced_switches ::
    "(json option \<Rightarrow> string) \<Rightarrow> json option list \<Rightarrow> json option \<Rightarrow> switch_scope \<Rightarrow> switch_scope" where
  "synced_switches fmt ks data s =
     push_switches fmt (difference ks (switch_dpids s)) (each_values data)
       (drop_switches (adjust_ids (switch_dpids s) (difference (switch_dpids s) ks)
          (difference ks (switch_dpids s))) (difference (switch_dpids s) ks) s)"

lemma switches_success_Inr:
  assumes "switches_retrieved data = Inr ks"
  shows "switches_success fmt data (s, w) =
     ((synced_switches fmt ks data s, setSwitches (switches (synced_switches fmt ks data s)) w), None)"
  using assms unfolding synced_switches_def
  by (simp only: switches_success_def Let_def prod.case sum.case drop_switches_def)

lemma push_switches_dpids [simp]:
  "switch_dpids (push_switches fmt to_add ds s) = switch_dpids s"
  by (induction fmt to_add ds s rule: push_switches.induct) auto

lemma switches_retrieved_keys:
  "switches_retrieved data = Inr ks \<Longrightarrow> map (\<lambda>d. get (Some d) ''dpid'') (each_values data) = ks"
  by (auto simp: switches_retrieved_def dest: retrieved_keys_Inr)

lemma synced_switches_props:
  assumes "heap_ok s" "switches_retrieved data = Inr ks"
  shows "heap_ok (synced_switches fmt ks data s)"
    and "switch_ids (synced_switches fmt ks data s) =
      filter (\<lambda>k. \<not> contains (difference (switch_dpids s) ks) k) (switch_ids s)
      @ filter (contains (difference ks (switch_dpids s))) ks"
  using push_switches_props [OF drop_switches_props(1) [OF assms(1)]]
  by (simp_all add: synced_switches_def drop_switches_props(2) switches_retrieved_keys [OF assms(2)]
      del: contains_iff)

lemma synced_switches_dpids [simp]:
  "switch_dpids (synced_switches fmt ks data s) =
     adjust_ids (switch_dpids s) (difference (switch_dpids s) ks) (difference ks (switch_dpids s))"
  by (simp add: synced_switches_def drop_switches_props(3))

lemma switches_error_props:
  "switch_dpids (fst (switches_error st)) = []" "switch_ids (fst (switches_error st)) = []"
  "heap_ok (fst st) \<Longrightarrow> heap_ok (fst (switches_error st))"
  by (cases st; simp add: switches_error_def switch_ids_def heap_ok_def)+

interpretation switches: synced_table "switches_success fmt" switches_error
    "\<lambda>st. switch_dpids (fst st)" "\<lambda>st. switch_ids (fst st)" switches_retrieved "\<lambda>st. heap_ok (fst st)"
  for fmt :: "json option \<Rightarrow> string"
proof unfold_locales
  fix d and s :: "('a, 'b, 'c) switch_state"
  assume "heap_ok (fst s)"
  then show "heap_ok (fst (fst (switches_success fmt d s)))"
    by (cases s; cases "switches_retrieved d")
      (simp_all add: switches_success_Inl switches_success_Inr synced_switches_props)
qed (auto simp: switches_success_Inl switches_success_Inr synced_switches_props
      switches_error_props simp del: contains_iff)

section \<open>Answers to row requests touch one row\<close>

lemma update_row_frame [simp]:
  "switches (update_row r f s) = switches s" "switch_dpids (update_row r f s) = switch_dpids s"
  "next_ref (update_row r f s) = next_ref s"
  "r' \<noteq> r \<Longrightarrow> row_at (update_row r f s) r' = row_at s r'"
  "row_at (update_row r f s) r = f (row_at s r)"
  by (simp_all add: update_row_def row_at_def)

lemma heap_ok_update: "heap_ok s \<Longrightarrow> r < next_ref s \<Longrightarrow> heap_ok (update_row r f s)"
  by (auto simp: heap_ok_def update_row_def)

lemma switch_ids_update:
  "(\<And>row. sw_id (f row) = sw_id row) \<Longrightarrow> switch_ids (update_row r f s) = switch_ids s"
  by (auto simp: switch_ids_def row_at_def update_row_def)

lemma set_description_is_update:
  "\<exists>f. (\<forall>row. sw_id (f row) = sw_id row) \<and> set_description v val r s = update_row r f s"
  unfolding set_description_def by (rule exI, rule conjI [rotated], rule refl) simp

lemma description_is_update:
  "fst (description_success r data s) = s \<or>
   (\<exists>f. (\<forall>row. sw_id (f row) = sw_id row) \<and> fst (description_success r data s) = update_row r f s)"
  unfolding description_success_def Let_def
  by (simp add: set_description_is_update split: sum.split del: path.simps)

lemma set_counters_is_update:
  "\<exists>f. (\<forall>row. sw_id (f row) = sw_id row) \<and> set_counters a b c r s = update_row r f s"
  unfolding set_counters_def by (rule exI, rule conjI [rotated], rule refl) simp

lemma aggregate_is_update:
  "\<exists>f. (\<forall>row. sw_id (f row) = sw_id row) \<and> aggregate_success r data s = update_row r f s"
  unfolding aggregate_success_def Let_def by (simp add: set_counters_is_update)

lemma aggregate_error_is_update:
  "\<exists>f. (\<forall>row. sw_id (f row) = sw_id row) \<and> aggregate_error r s = update_row r f s"
  unfolding aggregate_error_def by (rule set_counters_is_update)

section \<open>The invariant of the page\<close>

fun request_ref :: "sw_request \<Rightarrow> nat option" where
  "request_ref GetSwitches = None"
| "request_ref (GetDescription r) = Some r"
| "request_ref (GetAggregate r) = Some r"

definition requests_ok :: "switch_scope \<Rightarrow> sw_request list \<Rightarrow> bool" where
  "requests_ok s qs \<longleftrightarrow> (\<forall>q \<in> set qs. \<forall>r. request_ref q = Some r \<longrightarrow> r < next_ref s)"

definition scope_ok :: "switch_scope \<Rightarrow> bool" where
  "scope_ok s \<longleftrightarrow> heap_ok s \<and> table_consistent (switch_dpids s) (switch_ids s)"

definition page_ok :: "('dev, 'vn, 'vs) switch_page \<Rightarrow> bool" where
  "page_ok p \<longleftrightarrow> scope_ok (fst (page_state p)) \<and>
     requests_ok (fst (page_state p)) (open_requests p) \<and> sw_timers p = 1"

lemma push_switches_next_ref: "next_ref s \<le> next_ref (push_switches fmt to_add ds s)"
  by (induction fmt to_add ds s rule: push_switches.induct)
    (auto simp: alloc_row_def split: if_splits)

lemma switches_success_next_ref:
  "next_ref (fst st) \<le> next_ref (fst (fst (switches_success fmt data st)))"
proof (cases st)
  case (Pair s w)
  show ?thesis
  proof (cases "switches_retrieved data")
    case (Inl e)
    then show ?thesis by (simp add: switches_success_Inl)
  next
    case (Inr ks)
    have "next_ref s = next_ref (drop_switches a b s)" for a b by (simp add: drop_switches_def)
    then show ?thesis
      using Inr Pair push_switches_next_ref
      by (simp add: switches_success_Inr synced_switches_def) metis
  qed
qed

lemma switches_error_next_ref [simp]: "next_ref (fst (switches_error st)) = next_ref (fst st)"
  by (simp add: switches_error_def split: prod.split)

lemma scope_ok_success:
  "scope_ok (fst st) \<Longrightarrow> scope_ok (fst (fst (switches_success fmt data st)))"
  unfolding scope_ok_def using switches.success_invar [of st fmt data] by simp

lemma scope_ok_error: "scope_ok (fst st) \<Longrightarrow> scope_ok (fst (switches_error st))"
  unfolding scope_ok_def using switches.failure_invar [of st] by simp

lemma scope_ok_update:
  "scope_ok s \<Longrightarrow> r < next_ref s \<Longrightarrow> (\<forall>row. sw_id (f row) = sw_id row) \<Longrightarrow> scope_ok (update_row r f s)"
  by (simp add: scope_ok_def heap_ok_update switch_ids_update)

lemma requests_ok_remove: "requests_ok s qs \<Longrightarrow> requests_ok s (remove1 q qs)"
  by (auto simp: requests_ok_def dest: notin_set_remove1)

lemma requests_ok_mono: "requests_ok s qs \<Longrightarrow> next_ref s \<le> next_ref t \<Longrightarrow> requests_ok t qs"
  unfolding requests_ok_def by (meson order_less_le_trans)

lemma requests_ok_append [simp]: "requests_ok s (ps @ qs) \<longleftrightarrow> requests_ok s ps \<and> requests_ok s qs"
  by (auto simp: requests_ok_def)

lemma requests_ok_followups:
  "heap_ok (fst (fst r)) \<Longrightarrow> requests_ok (fst (fst r)) (switches_followups r)"
  by (auto simp: requests_ok_def switches_followups_def getDescription_def
      getAggregateStatistics_def heap_ok_def split: prod.splits option.splits)

lemma row_answer_ok:
  assumes "page_ok p" "q \<in> set (open_requests p)" "request_ref q = Some i"
    and "g (fst (page_state p)) = fst (page_state p) \<or>
      (\<exists>f. (\<forall>row. sw_id (f row) = sw_id row) \<and> g (fst (page_state p)) = update_row i f (fst (page_state p)))"
  shows "page_ok (p\<lparr>page_state := apfst g (page_state p), open_requests := remove1 q (open_requests p)\<rparr>)"
proof -
  let ?s = "fst (page_state p)"
  have "i < next_ref ?s" using assms(1-3) by (auto simp: page_ok_def requests_ok_def)
  then have "scope_ok (g ?s) \<and> next_ref (g ?s) = next_ref ?s"
    using assms(1,4) by (auto simp: page_ok_def scope_ok_update)
  then show ?thesis
    using assms(1) requests_ok_mono [OF requests_ok_remove]
    by (auto simp: page_ok_def)
qed

lemma sw_step_ok: "sw_step fmt p q \<Longrightarrow> page_ok p \<Longrightarrow> page_ok q"
proof (induction rule: sw_step.induct)
  case (timer p)
  then show ?case by (simp add: page_ok_def requests_ok_def)
next
  case (switches_ok p r data)
  then have "scope_ok (fst (fst r))" "next_ref (fst (page_state p)) \<le> next_ref (fst (fst r))"
    by (simp_all add: page_ok_def scope_ok_success switches_success_next_ref)
  moreover from this switches_ok have "requests_ok (fst (fst r)) (remove1 GetSwitches (open_requests p))"
    by (auto simp: page_ok_def intro: requests_ok_mono [OF requests_ok_remove])
  ultimately show ?case
    using switches_ok by (simp add: page_ok_def requests_ok_followups scope_ok_def)
next
  case (switches_fail p)
  then have "requests_ok (fst (switches_error (page_state p))) (remove1 GetSwitches (open_requests p))"
    by (intro requests_ok_mono [OF requests_ok_remove, of "fst (page_state p)"]) (auto simp: page_ok_def)
  with switches_fail show ?case
    by (simp add: page_ok_def scope_ok_error)
next
  case (description_ok i p data)
  show ?case
    by (rule row_answer_ok [where i = i, OF description_ok(2) description_ok(1)]) (simp, rule description_is_update)
next
  case (description_fail i p)
  then show ?case by (simp add: page_ok_def requests_ok_remove)
next
  case (aggregate_ok i p data)
  show ?case
    by (rule row_answer_ok [where i = i, OF aggregate_ok(2) aggregate_ok(1)]) (simp, rule disjI2, rule aggregate_is_update)
next
  case (aggregate_fail i p)
  show ?case
    by (rule row_answer_ok [where i = i, OF aggregate_fail(2) aggregate_fail(1)]) (simp, rule disjI2, rule aggregate_error_is_update)
qed

lemma sw_reachable_ok: "sw_reachable fmt w p \<Longrightarrow> page_ok p"
proof (induction rule: sw_reachable.induct)
  case start
  have "switch_ids switch_init = []" "switch_dpids switch_init = []"
    by (simp_all add: switch_init_def switch_ids_def)
  then show ?case
    by (simp add: page_ok_def CntlSwitches_def scope_ok_def heap_ok_init requests_ok_def
        table_consistent_def)
next
  case (step p q)
  then show ?case by (blast intro: sw_step_ok)
qed

section \<open>Properties\<close>

text \<open>
  C3: In every state the page can reach, whatever the order of timers and answers, the ids
  are distinct and are exactly the ids of the rows, every row reference and every open
  request denotes an allocated row, no row occurs twice, and one timer is alive.
\<close>

theorem switch_page_invariant:
  assumes "sw_reachable fmt w p"
  shows "table_consistent (switch_dpids (fst (page_state p))) (switch_ids (fst (page_state p))) \<and>
    heap_ok (fst (page_state p)) \<and> requests_ok (fst (page_state p)) (open_requests p) \<and>
    sw_timers p = 1"
  using sw_reachable_ok [OF assms] by (simp add: page_ok_def scope_ok_def)

theorem switch_page_invariant_witness:
  "sw_reachable (\<lambda>_. '''') (iris_init :: (nat, nat, nat, nat) iris) (CntlSwitches iris_init) \<and>
   table_consistent (switch_dpids switch_init) (switch_ids switch_init)"
  using switch_page_invariant [OF sw_reachable.start [of "\<lambda>_. ''''" "iris_init :: (nat, nat, nat, nat) iris"]]
    sw_reachable.start
  by (simp add: CntlSwitches_def)

text \<open>
  An answer that lists distinct switches gives a table whose rows are, in this order, the
  rows still reported and then the new ones, its ids the ids of the rows; and the same answer
  again leaves the ids and the rows' ids as they are.
\<close>

theorem switches_follow_controller:
  fixes st :: "('dev, 'vn, 'vs) switch_state"
  assumes "switches_retrieved data = Inr ks" "distinct ks" "heap_ok (fst st)"
    "table_aligned (switch_dpids (fst st)) (switch_ids (fst st))"
  shows "let t = fst (switches_success fmt data st); u = fst (switches_success fmt data t) in
    switch_ids (fst t) = filter (\<lambda>k. k \<in> set ks) (switch_ids (fst st))
      @ filter (\<lambda>k. k \<notin> set (switch_ids (fst st))) ks \<and>
    switch_dpids (fst t) = switch_ids (fst t) \<and>
    switch_dpids (fst u) = switch_dpids (fst t) \<and> switch_ids (fst u) = switch_ids (fst t)"
proof -
  have ids: "switch_ids (fst st) = switch_dpids (fst st)" "distinct (switch_dpids (fst st))"
    using assms(4) by (simp_all add: table_aligned_def)
  note order = switches.success_order [OF assms(1,2) ids(2), of fmt]
  note aligned = switches.success_aligned [OF assms, of fmt, unfolded table_aligned_def]
  note idem = switches.success_idempotent [OF assms, of fmt]
  show ?thesis unfolding Let_def using order aligned idem ids(1) by simp
qed

theorem switches_follow_controller_witness:
  "switch_ids (fst (fst (switches_success (\<lambda>_. '''')
      (Some (JArr [JObj [(''dpid'', JStr ''1'')], JObj [(''dpid'', JStr ''2'')]]))
      (switch_init, iris_init :: (nat, nat, nat, nat) iris)))) = [Some (JStr ''1''), Some (JStr ''2'')]"
proof -
  let ?data = "Some (JArr [JObj [(''dpid'', JStr ''1'')], JObj [(''dpid'', JStr ''2'')]])"
  let ?st = "(switch_init, iris_init :: (nat, nat, nat, nat) iris)"
  have 1: "switches_retrieved ?data = Inr [Some (JStr ''1''), Some (JStr ''2'')]"
    by (simp add: switches_retrieved_def retrieved_keys_def)
  have 2: "distinct [Some (JStr ''1''), Some (JStr ''2'')]" by simp
  have 3: "heap_ok (fst ?st)" by (simp add: heap_ok_init)
  have 4: "table_aligned (switch_dpids (fst ?st)) (switch_ids (fst ?st))" "switch_ids (fst ?st) = []"
    by (simp_all add: table_aligned_def switch_init_def switch_ids_def)
  show ?thesis
    using switches_follow_controller [OF 1 2 3 4(1), of "\<lambda>_. ''''"] unfolding Let_def 4(2) by simp
qed

text \<open>
  A late answer to a description or statistics request changes no row but its own, not
  even when the table was rebuilt meanwhile, and never the table or the ids.
\<close>

theorem late_answer_touches_one_row:
  assumes "s' = fst (description_success r data s) \<or> s' = aggregate_success r data s \<or>
    s' = aggregate_error r s"
  shows "switches s' = switches s \<and> switch_dpids s' = switch_dpids s \<and> switch_ids s' = switch_ids s \<and>
    (\<forall>i. i \<noteq> r \<longrightarrow> row_at s' i = row_at s i)"
proof -
  have "s' = s \<or> (\<exists>f. (\<forall>row. sw_id (f row) = sw_id row) \<and> s' = update_row r f s)"
    using assms description_is_update aggregate_is_update aggregate_error_is_update by blast
  then show ?thesis by (auto simp: switch_ids_update)
qed

theorem late_answer_touches_one_row_witness:
  "switch_ids (aggregate_error 0
     (alloc_row (new_row (\<lambda>_. '''') (JObj [(''dpid'', JStr ''1'')])) switch_init)) = [Some (JStr ''1'')]"
proof -
  let ?s = "alloc_row (new_row (\<lambda>_. '''') (JObj [(''dpid'', JStr ''1'')])) switch_init"
  have "switch_ids ?s = [Some (JStr ''1'')]"
    by (simp add: switch_ids_def alloc_row_def row_at_def switch_init_def new_row_def get_def)
  then show ?thesis
    using late_answer_touches_one_row [of "aggregate_error 0 ?s" 0 None ?s] by simp
qed

text \<open>
  A statistics answer writes the counters of its switch; an answer without an entry for
  the switch, or a failed request, writes a dash in each.
\<close>

theorem aggregate_counters:
  "(let entry = get data (key_of (sw_id (row_at s r))); first = get entry ''0'';
        row = row_at (aggregate_success r data s) r
    in (packets row, bytes row, flows row) =
      (if truthy data \<and> truthy entry \<and> truthy first
       then (get first ''packetCount'', get first ''byteCount'', get first ''flowCount'')
       else (Some (JStr ''-''), Some (JStr ''-''), Some (JStr ''-'')))) \<and>
   (let row = row_at (aggregate_error r s) r
    in (packets row, bytes row, flows row) = (Some (JStr ''-''), Some (JStr ''-''), Some (JStr ''-'')))"
  by (simp add: aggregate_success_def aggregate_error_def set_counters_def Let_def)

end
