(* ===== verification/Devices.thy ===== *)
theory Devices
  imports Sync Periscope
begin

text \<open>
  \<open>web/js/controllers/devices.js\<close>: the table of hosts. Unlike the other tables a host is
  shown only when its response entry has an attachment point, and a shown host is refreshed
  by later responses. A refresh writes into the row object, which an array handed to \<open>$iris\<close>
  earlier may still hold; \<open>object\<close> is a row's identity, and an aborted handler leaves those
  writes visible through the older array.
  A host is a JSON object; a host whose \<open>mac\<close> list is empty has the id \<open>undefined\<close>.
\<close>

section \<open>Rows\<close>

record device =
  object :: nat
  dev_id :: "json option"
  port :: string
  lastSeen :: string
  inetAddress :: "json option"
  attachmentPoint :: "json option"
  mac :: "json option"
  ipv4 :: "json option"
  vlan :: "json option"

record device_scope =
  devices :: "device list"
  device_ids :: "json option list"
  next_object :: nat

definition device_init :: device_scope where
  "device_init = \<lparr>devices = [], device_ids = [], next_object = 0\<rparr>"

text \<open>\<open>host.mac[0]\<close>.\<close>

definition host_id :: "json \<Rightarrow> json option js" where
  "host_id h = path (Some h) [''mac'', ''0'']"

text \<open>The text of the attachment points, one line each: an entry that is null throws.\<close>

fun port_text :: "json list \<Rightarrow> string \<Rightarrow> string js" where
  "port_text [] memo = Inr memo"
| "port_text (ap # aps) memo =
     (case property (Some ap) ''switchDPID'' of Inl e \<Rightarrow> Inl e
      | Inr dpid \<Rightarrow> (case property (Some ap) ''port'' of Inl e \<Rightarrow> Inl e
          | Inr p \<Rightarrow> port_text aps (memo @ opt_string dpid @ ''-'' @ opt_string p @ [CHR 0x0A])))"

text \<open>
  The object that is pushed: its fields are evaluated in order, \<open>host.ipv4[0]\<close> may throw.
\<close>

definition new_device :: "(json option \<Rightarrow> string) \<Rightarrow> nat \<Rightarrow> json \<Rightarrow> device js" where
  "new_device fmt n h =
     (case host_id h of Inl e \<Rightarrow> Inl e | Inr i \<Rightarrow>
      (case port_text (each_values (get (Some h) ''attachmentPoint'')) [] of Inl e \<Rightarrow> Inl e
       | Inr t \<Rightarrow>
         (case path (Some h) [''ipv4'', ''0''] of Inl e \<Rightarrow> Inl e
          | Inr addr \<Rightarrow>
            Inr \<lparr>object = n, dev_id = i, port = t, lastSeen = fmt (get (Some h) ''lastSeen''),
                 inetAddress = addr, attachmentPoint = get (Some h) ''attachmentPoint'',
                 mac = get (Some h) ''mac'', ipv4 = get (Some h) ''ipv4'',
                 vlan = get (Some h) ''vlan''\<rparr>)))"

text \<open>
  The refresh of a shown host: the assignments before the one that throws are kept.
\<close>

definition refresh_device :: "(json option \<Rightarrow> string) \<Rightarrow> json \<Rightarrow> device \<Rightarrow> device outcome" where
  "refresh_device fmt h dv =
     (let d1 = dv\<lparr>attachmentPoint := get (Some h) ''attachmentPoint'', mac := get (Some h) ''mac'',
                  ipv4 := get (Some h) ''ipv4'', vlan := get (Some h) ''vlan''\<rparr>
      in case port_text (each_values (get (Some h) ''attachmentPoint'')) [] of
           Inl e \<Rightarrow> (d1, Some e)
         | Inr t \<Rightarrow> (d1\<lparr>port := t, lastSeen := fmt (get (Some h) ''lastSeen'')\<rparr>, None))"

text \<open>An update of the first row with the given id, which is the object \<open>_.find\<close> returns.\<close>

fun update_first :: "(device \<Rightarrow> bool) \<Rightarrow> (device \<Rightarrow> device) \<Rightarrow> device list \<Rightarrow> device list" where
  "update_first p f [] = []"
| "update_first p f (d # ds) = (if p d then f d # ds else d # update_first p f ds)"

text \<open>\<open>host['attachmentPoint'].length > 0\<close>: an absent or null list throws.\<close>

definition attached :: "json \<Rightarrow> bool js" where
  "attached h = (case path (Some h) [''attachmentPoint'', ''length''] of Inl e \<Rightarrow> Inl e
     | Inr v \<Rightarrow> Inr (positive v))"

definition host_step ::
    "(json option \<Rightarrow> string) \<Rightarrow> json option list \<Rightarrow> json \<Rightarrow> device list \<times> nat \<Rightarrow> (device list \<times> nat) outcome" where
  "host_step fmt to_add h st = (case st of (rows, n) \<Rightarrow>
     (case attached h of
        Inl e \<Rightarrow> ((rows, n), Some e)
      | Inr shown \<Rightarrow>
        (if \<not> shown then ((rows, n), None)
         else (case host_id h of
           Inl e \<Rightarrow> ((rows, n), Some e)
         | Inr i \<Rightarrow>
           (if contains to_add i then
              (case new_device fmt n h of
                 Inl e \<Rightarrow> ((rows, n), Some e) | Inr d \<Rightarrow> ((rows @ [d], Suc n), None))
            else
              (case find_arr (\<lambda>d. loose_eq (dev_id d) i) rows of
                 None \<Rightarrow> ((rows, n), None)
               | Some d \<Rightarrow>
                   ((update_first (\<lambda>d. loose_eq (dev_id d) i) (\<lambda>d. fst (refresh_device fmt h d)) rows, n),
                    snd (refresh_device fmt h d))))))))"

fun host_loop ::
    "(json option \<Rightarrow> string) \<Rightarrow> json option list \<Rightarrow> json list \<Rightarrow> device list \<times> nat \<Rightarrow> (device list \<times> nat) outcome" where
  "host_loop fmt to_add [] st = (st, None)"
| "host_loop fmt to_add (h # hs) st =
     (case host_step fmt to_add h st of
        (st', Some e) \<Rightarrow> (st', Some e)
      | (st', None) \<Rightarrow> host_loop fmt to_add hs st')"

text \<open>What an older array shows once the row objects it shares were written.\<close>

definition shared_rows :: "device list \<Rightarrow> device list \<Rightarrow> device list" where
  "shared_rows rows arr =
     map (\<lambda>d. case find_arr (\<lambda>r. object r = object d) rows of None \<Rightarrow> d | Some r \<Rightarrow> r) arr"

section \<open>Handlers\<close>

definition devices_retrieved :: "json option \<Rightarrow> json option list js" where
  "devices_retrieved data = map_js host_id (each_values data)"

definition devices_success ::
    "(json option \<Rightarrow> string) \<Rightarrow> json option \<Rightarrow> device_scope \<times> ('sw, device, 'vn, 'vs) iris \<Rightarrow>
      (device_scope \<times> ('sw, device, 'vn, 'vs) iris) outcome" where
  "devices_success fmt data st = (case st of (s, w) \<Rightarrow>
     (case devices_retrieved data of
        Inl e \<Rightarrow> ((s, w), Some e)
      | Inr retrieved_ids \<Rightarrow>
          (let to_remove_ids = difference (device_ids s) retrieved_ids;
               to_add_ids = difference retrieved_ids (device_ids s);
               kept = filter (\<lambda>d. \<not> contains to_remove_ids (dev_id d)) (devices s);
               r = host_loop fmt to_add_ids (each_values data) (kept, next_object s);
               rows = fst (fst r);
               s' = \<lparr>devices = rows,
                     device_ids = adjust_ids (device_ids s) to_remove_ids to_add_ids,
                     next_object = snd (fst r)\<rparr>
           in (case snd r of
                 Some e \<Rightarrow> ((s', w\<lparr>win_devices := map_option (shared_rows rows) (win_devices w)\<rparr>), Some e)
               | None \<Rightarrow> ((s', setDevices rows w), None)))))"

definition devices_error :: "device_scope \<times> 'w \<Rightarrow> device_scope \<times> 'w" where
  "devices_error st = (case st of (s, w) \<Rightarrow> (s\<lparr>devices := [], device_ids := []\<rparr>, w))"

definition CntlDevices where
  "CntlDevices w = start_polling (device_init, w)"

definition CntlDevices_step where
  "CntlDevices_step fmt = interval_step (devices_success fmt) devices_error"

section \<open>Every row has an attachment point and an id that is tracked\<close>

definition row_ok :: "device \<Rightarrow> bool" where
  "row_ok d \<longleftrightarrow> positive (get (attachmentPoint d) ''length'')"

lemma path2: "path (Some h) [a, b] = (case property (Some h) a of Inl e \<Rightarrow> Inl e | Inr v \<Rightarrow> property v b)"
  by (auto split: sum.splits)

lemma attached_row: "attached h = Inr True \<Longrightarrow> positive (get (get (Some h) ''attachmentPoint'') ''length'')"
  unfolding attached_def path2
  by (auto simp: get_def split: sum.splits)

text \<open>Of an array of attachment points this is that it has elements.\<close>

lemma row_ok_array: "attachmentPoint d = Some (JArr aps) \<Longrightarrow> row_ok d \<longleftrightarrow> aps \<noteq> []"
  by (simp add: row_ok_def positive_def get_def)

lemma new_device_props:
  "new_device fmt n h = Inr d \<Longrightarrow>
     host_id h = Inr (dev_id d) \<and> attachmentPoint d = get (Some h) ''attachmentPoint''"
  by (auto simp: new_device_def simp del: path.simps split: sum.splits)

lemma refresh_device_props [simp]:
  "dev_id (fst (refresh_device fmt h d)) = dev_id d"
  "attachmentPoint (fst (refresh_device fmt h d)) = get (Some h) ''attachmentPoint''"
  by (auto simp: refresh_device_def Let_def split: sum.splits)

lemma update_first_set:
  "d \<in> set (update_first p f ds) \<Longrightarrow> d \<in> set ds \<or> (\<exists>d'. d' \<in> set ds \<and> p d' \<and> d = f d')"
  by (induction p f ds rule: update_first.induct) (auto split: if_splits)

lemma map_update_first: "(\<And>d. g (f d) = g d) \<Longrightarrow> map g (update_first p f ds) = map g ds"
  by (induction p f ds rule: update_first.induct) auto

text \<open>What one iteration can do to the rows.\<close>

lemma host_step_cases:
  obtains (same) "fst (host_step fmt to_add h (rows, n)) = (rows, n)"
  | (pushed) d where "fst (host_step fmt to_add h (rows, n)) = (rows @ [d], Suc n)"
      "attached h = Inr True" "new_device fmt n h = Inr d" "dev_id d \<in> set to_add"
  | (refreshed) p where "attached h = Inr True"
      "fst (host_step fmt to_add h (rows, n)) =
         (update_first p (\<lambda>d. fst (refresh_device fmt h d)) rows, n)"
proof (cases "attached h")
  case (Inl e)
  then show thesis using same by (simp add: host_step_def)
next
  case (Inr b)
  show thesis
  proof (cases "b \<and> (\<exists>i. host_id h = Inr i)")
    case False
    with Inr show thesis using same by (cases "host_id h") (auto simp: host_step_def)
  next
    case True
    then obtain i where i: "host_id h = Inr i" by blast
    show thesis
    proof (cases "i \<in> set to_add")
      case add: True
      show thesis
      proof (cases "new_device fmt n h")
        case (Inl e)
        with Inr \<open>attached h = Inr b\<close> True i add show thesis using same by (simp add: host_step_def)
      next
        case d: (Inr d)
        with i have "dev_id d = i" by (simp add: new_device_props)
        with d \<open>attached h = Inr b\<close> True i add show thesis using pushed by (simp add: host_step_def)
      qed
    next
      case False
      with Inr True i show thesis using same refreshed
        by (cases "find_arr (\<lambda>d. loose_eq (dev_id d) i) rows") (auto simp: host_step_def)
    qed
  qed
qed

lemma host_step_row_ok:
  assumes "\<forall>d \<in> set rows. row_ok d"
  shows "\<forall>d \<in> set (fst (fst (host_step fmt to_add h (rows, n)))). row_ok d"
proof (cases rule: host_step_cases [of fmt to_add h rows n])
  case same
  with assms show ?thesis by simp
next
  case (pushed d)
  with assms show ?thesis using attached_row [of h] by (auto simp: row_ok_def dest: new_device_props)
next
  case (refreshed p)
  with assms show ?thesis
    using attached_row [of h] by (auto simp: row_ok_def dest!: update_first_set)
qed

lemma host_step_ids:
  "set (map dev_id (fst (fst (host_step fmt to_add h (rows, n))))) \<subseteq> set (map dev_id rows) \<union> set to_add"
proof (cases rule: host_step_cases [of fmt to_add h rows n])
  case (refreshed p)
  then have "map dev_id (fst (fst (host_step fmt to_add h (rows, n)))) = map dev_id rows"
    by (simp add: map_update_first)
  then show ?thesis by auto
qed auto

lemma host_loop_inv:
  assumes "\<And>h rows n. I rows \<Longrightarrow> I (fst (fst (host_step fmt to_add h (rows, n))))"
  shows "I (fst st) \<Longrightarrow> I (fst (fst (host_loop fmt to_add hs st)))"
proof (induction hs arbitrary: st)
  case Nil
  then show ?case by simp
next
  case (Cons h hs)
  have "I (fst (fst (host_step fmt to_add h st)))"
    using assms [of "fst st" h "snd st"] Cons.prems by simp
  then show ?case
    using Cons.IH by (auto split: prod.split option.split)
qed

lemma host_loop_row_ok:
  assumes "\<forall>d \<in> set rows. row_ok d"
  shows "\<forall>d \<in> set (fst (fst (host_loop fmt to_add hs (rows, n)))). row_ok d"
  by (rule host_loop_inv [where I = "\<lambda>rows. \<forall>d \<in> set rows. row_ok d", OF host_step_row_ok])
    (use assms in simp_all)

lemma host_loop_ids:
  "set (map dev_id (fst (fst (host_loop fmt to_add hs (rows, n))))) \<subseteq> set (map dev_id rows) \<union> set to_add"
proof (rule host_loop_inv [where I = "\<lambda>r. set (map dev_id r) \<subseteq> set (map dev_id rows) \<union> set to_add"])
  fix h m and r :: "device list"
  assume "set (map dev_id r) \<subseteq> set (map dev_id rows) \<union> set to_add"
  then show "set (map dev_id (fst (fst (host_step fmt to_add h (r, m))))) \<subseteq> set (map dev_id rows) \<union> set to_add"
    using host_step_ids [of fmt to_add h r m] by blast
qed simp

section \<open>Invariant under every interleaving\<close>

definition devices_inv :: "device_scope \<times> ('sw, device, 'vn, 'vs) iris \<Rightarrow> bool" where
  "devices_inv st \<longleftrightarrow>
     (\<forall>d \<in> set (devices (fst st)). row_ok d) \<and>
     set (map dev_id (devices (fst st))) \<subseteq> set (device_ids (fst st)) \<and>
     distinct (device_ids (fst st)) \<and>
     (case win_devices (snd st) of None \<Rightarrow> True | Some arr \<Rightarrow> \<forall>d \<in> set arr. row_ok d)"

lemma shared_rows_ok:
  "\<forall>d \<in> set rows. row_ok d \<Longrightarrow> \<forall>d \<in> set arr. row_ok d \<Longrightarrow> \<forall>d \<in> set (shared_rows rows arr). row_ok d"
  by (auto simp: shared_rows_def dest!: find_arr_Some split: option.splits)

text \<open>The loop's result for a response that was read without a throw.\<close>

definition host_result ::
    "(json option \<Rightarrow> string) \<Rightarrow> json option list \<Rightarrow> json option \<Rightarrow> device_scope \<Rightarrow> (device list \<times> nat) outcome" where
  "host_result fmt ks data s =
     host_loop fmt (difference ks (device_ids s)) (each_values data)
       (filter (\<lambda>d. \<not> contains (difference (device_ids s) ks) (dev_id d)) (devices s), next_object s)"

lemma devices_success_Inl:
  "devices_retrieved data = Inl e \<Longrightarrow> devices_success fmt data st = (st, Some e)"
  by (simp add: devices_success_def split: prod.split)

lemma devices_success_Inr:
  assumes "devices_retrieved data = Inr ks"
  shows "devices_success fmt data (s, w) =
    (let r = host_result fmt ks data s;
         s' = \<lparr>devices = fst (fst r),
               device_ids = adjust_ids (device_ids s) (difference (device_ids s) ks)
                 (difference ks (device_ids s)),
               next_object = snd (fst r)\<rparr>
     in case snd r of
          Some e \<Rightarrow> ((s', w\<lparr>win_devices := map_option (shared_rows (fst (fst r))) (win_devices w)\<rparr>), Some e)
        | None \<Rightarrow> ((s', setDevices (fst (fst r)) w), None))"
  using assms unfolding host_result_def
  by (simp only: devices_success_def Let_def prod.case sum.case)

lemma devices_success_scope:
  assumes "devices_retrieved data = Inr ks"
  shows "devices (fst (fst (devices_success fmt data (s, w)))) = fst (fst (host_result fmt ks data s))"
    and "device_ids (fst (fst (devices_success fmt data (s, w)))) =
      adjust_ids (device_ids s) (difference (device_ids s) ks) (difference ks (device_ids s))"
  by (simp_all add: devices_success_Inr [OF assms] Let_def split: option.split)

lemma host_result_ids:
  assumes "set (map dev_id (devices s)) \<subseteq> set (device_ids s)"
  shows "set (map dev_id (fst (fst (host_result fmt ks data s)))) \<subseteq> set ks"
proof -
  have "set (map dev_id (fst (fst (host_result fmt ks data s)))) \<subseteq>
      set (map dev_id (filter (\<lambda>d. \<not> contains (difference (device_ids s) ks) (dev_id d)) (devices s)))
      \<union> set (difference ks (device_ids s))"
    unfolding host_result_def by (rule host_loop_ids)
  moreover have "set (map dev_id (filter (\<lambda>d. \<not> contains (difference (device_ids s) ks) (dev_id d)) (devices s)))
      \<subseteq> set ks"
    using assms by auto
  moreover have "set (difference ks (device_ids s)) \<subseteq> set ks" by simp
  ultimately show ?thesis by blast
qed

lemma devices_success_inv: "devices_inv st \<Longrightarrow> devices_inv (fst (devices_success fmt data st))"
proof (cases "devices_retrieved data")
  case (Inl e)
  then show "devices_inv st \<Longrightarrow> ?thesis" by (simp add: devices_success_Inl)
next
  case (Inr ks)
  assume inv: "devices_inv st"
  obtain s w where st: "st = (s, w)" by (cases st)
  let ?r = "host_result fmt ks data s"
  have rows: "\<forall>d \<in> set (fst (fst ?r)). row_ok d"
    unfolding host_result_def by (rule host_loop_row_ok) (use inv st in \<open>auto simp: devices_inv_def\<close>)
  have ids: "set (map dev_id (fst (fst ?r))) \<subseteq> set ks"
    by (rule host_result_ids) (use inv st in \<open>auto simp: devices_inv_def\<close>)
  have all: "set (adjust_ids (device_ids s) (difference (device_ids s) ks) (difference ks (device_ids s)))
      = set ks" by (auto simp: adjust_ids_def)
  have shared: "\<forall>d \<in> set (shared_rows (fst (fst ?r)) arr). row_ok d" if "win_devices w = Some arr" for arr
    by (rule shared_rows_ok [OF rows]) (use inv st that in \<open>simp add: devices_inv_def\<close>)
  have win: "case win_devices (snd (fst (devices_success fmt data st))) of
      None \<Rightarrow> True | Some arr \<Rightarrow> \<forall>d \<in> set arr. row_ok d"
    using rows shared
    by (cases "snd ?r"; cases "win_devices w")
      (simp_all add: st devices_success_Inr [OF Inr] Let_def setDevices_def)
  have dist: "distinct (adjust_ids (device_ids s) (difference (device_ids s) ks) (difference ks (device_ids s)))"
    by (simp add: adjust_ids_def)
  show ?thesis
    unfolding devices_inv_def
    using rows ids all win dist by (simp add: st devices_success_scope [OF Inr])
qed

lemma devices_error_inv: "devices_inv st \<Longrightarrow> devices_inv (devices_error st)"
  by (cases st) (auto simp: devices_inv_def devices_error_def)

interpretation devices: poller "devices_success fmt" devices_error devices_inv
  for fmt :: "json option \<Rightarrow> string"
  by unfold_locales (simp_all add: devices_success_inv devices_error_inv)

section \<open>Which hosts are shown\<close>

lemma host_step_ids_mono:
  "set (map dev_id rows) \<subseteq> set (map dev_id (fst (fst (host_step fmt to_add h (rows, n)))))"
proof (cases rule: host_step_cases [of fmt to_add h rows n])
  case (refreshed p)
  then have "map dev_id (fst (fst (host_step fmt to_add h (rows, n)))) = map dev_id rows"
    by (simp add: map_update_first)
  then show ?thesis by simp
qed auto

lemma host_loop_ids_mono:
  "i \<in> set (map dev_id rows) \<Longrightarrow> i \<in> set (map dev_id (fst (fst (host_loop fmt to_add hs (rows, n)))))"
  by (rule host_loop_inv [where I = "\<lambda>r. i \<in> set (map dev_id r)"])
    (use host_step_ids_mono in blast, simp)

lemma host_step_shows:
  assumes "attached h = Inr True" "host_id h = Inr i" "i \<in> set to_add"
    "snd (host_step fmt to_add h (rows, n)) = None"
  shows "i \<in> set (map dev_id (fst (fst (host_step fmt to_add h (rows, n)))))"
proof (cases "new_device fmt n h")
  case (Inl e)
  with assms show ?thesis by (simp add: host_step_def)
next
  case (Inr d)
  moreover from this assms(2) have "dev_id d = i" by (auto dest: new_device_props)
  ultimately show ?thesis using assms by (simp add: host_step_def)
qed

lemma host_loop_shows:
  assumes "snd (host_loop fmt to_add hs (rows, n)) = None" "h \<in> set hs"
    "attached h = Inr True" "host_id h = Inr i" "i \<in> set to_add"
  shows "i \<in> set (map dev_id (fst (fst (host_loop fmt to_add hs (rows, n)))))"
  using assms(1,2)
proof (induction hs arbitrary: rows n)
  case (Cons g hs)
  obtain rows' n' e where g: "host_step fmt to_add g (rows, n) = ((rows', n'), e)"
    by (metis prod.collapse)
  with Cons.prems(1) have e: "e = None" "snd (host_loop fmt to_add hs (rows', n')) = None"
    by (auto split: option.splits)
  show ?case
  proof (cases "h = g")
    case True
    then have "i \<in> set (map dev_id rows')"
      using host_step_shows [OF assms(3-5), of fmt rows n] g e(1) by simp
    then show ?thesis using host_loop_ids_mono g e(1) by simp
  next
    case False
    then show ?thesis using Cons.IH [OF e(2)] Cons.prems(2) g e(1) by simp
  qed
qed simp

section \<open>Properties\<close>

text \<open>
  C8: In every state the controller can reach, whatever the order of timers and answers and
  whichever handlers threw, each row has an attachment point and a tracked id, the tracked ids
  are distinct, the rows that other controllers get through the service have an attachment
  point too, and one timer is alive.
\<close>

theorem devices_page_invariant:
  fixes w :: "('sw, device, 'vn, 'vs) iris"
  assumes "getDevices w = None" "run_events (CntlDevices_step fmt) (CntlDevices w) es = Some q"
  shows "(\<forall>d \<in> set (devices (fst (scope q))). row_ok d \<and> dev_id d \<in> set (device_ids (fst (scope q)))) \<and>
    distinct (device_ids (fst (scope q))) \<and>
    (\<forall>arr. getDevices (snd (scope q)) = Some arr \<longrightarrow> (\<forall>d \<in> set arr. row_ok d)) \<and> timers q = 1"
proof -
  have "devices_inv (device_init, w)"
    using assms(1) by (simp add: devices_inv_def device_init_def getDevices_def)
  with assms(2) have "devices_inv (scope q) \<and> timers q = 1"
    unfolding CntlDevices_def CntlDevices_step_def by (intro devices.polling_invar)
  then show ?thesis by (auto simp: devices_inv_def getDevices_def)
qed

theorem devices_page_invariant_witness:
  "\<exists>q. run_events (CntlDevices_step (\<lambda>_. ''''))
      (CntlDevices (iris_init :: (nat, device, nat, nat) iris)) [TimerFires, Fails] = Some q \<and> timers q = 1"
proof -
  have g: "getDevices (iris_init :: (nat, device, nat, nat) iris) = None"
    by (simp add: getDevices_def iris_init_def)
  obtain q where q: "run_events (CntlDevices_step (\<lambda>_. ''''))
      (CntlDevices (iris_init :: (nat, device, nat, nat) iris)) [TimerFires, Fails] = Some q"
    by (simp add: CntlDevices_step_def CntlDevices_def start_polling_def intervalFunction_def getData_def)
  then show ?thesis using devices_page_invariant [OF g q] by blast
qed

text \<open>
  A host that was not tracked and that an answer reports with an attachment point is shown
  after an answer that is processed without a throw.
\<close>

theorem attached_new_host_shown:
  assumes "devices_retrieved data = Inr ks" "completes (devices_success fmt data (s, w))"
    "h \<in> set (each_values data)" "attached h = Inr True" "host_id h = Inr i"
    "i \<notin> set (device_ids s)"
  shows "i \<in> set (map dev_id (devices (fst (fst (devices_success fmt data (s, w))))))"
proof -
  have "snd (host_result fmt ks data s) = None"
    using assms(2) by (simp add: devices_success_Inr [OF assms(1)] Let_def split: option.splits)
  moreover have "i \<in> set (difference ks (device_ids s))"
  proof -
    have "list_all2 (\<lambda>h i. host_id h = Inr i) (each_values data) ks"
      using assms(1) by (simp add: devices_retrieved_def map_js_Inr)
    then have "i \<in> set ks" using assms(3,5) by (fastforce simp: list_all2_conv_all_nth in_set_conv_nth)
    then show ?thesis using assms(6) by simp
  qed
  ultimately show ?thesis
    unfolding devices_success_scope [OF assms(1)] host_result_def
    by (rule host_loop_shows [OF _ assms(3-5)])
qed

text \<open>
  A host that is tracked but not shown, which is what a first report without attachment
  points leaves, stays hidden as long as it is reported, whatever the reports say.
\<close>

theorem tracked_host_stays_hidden:
  assumes "devices_retrieved data = Inr ks" "i \<in> set ks" "i \<in> set (device_ids s)"
    "i \<notin> set (map dev_id (devices s))"
  shows "i \<in> set (device_ids (fst (fst (devices_success fmt data (s, w))))) \<and>
    i \<notin> set (map dev_id (devices (fst (fst (devices_success fmt data (s, w))))))"
proof
  show "i \<in> set (device_ids (fst (fst (devices_success fmt data (s, w)))))"
    using assms(2,3) by (simp add: devices_success_scope [OF assms(1)] adjust_ids_def)
  have "i \<notin> set (map dev_id (filter (\<lambda>d. \<not> contains (difference (device_ids s) ks) (dev_id d)) (devices s)))"
    using assms(4) by auto
  moreover have "i \<notin> set (difference ks (device_ids s))" using assms(3) by simp
  ultimately show "i \<notin> set (map dev_id (devices (fst (fst (devices_success fmt data (s, w))))))"
    unfolding devices_success_scope [OF assms(1)] host_result_def using host_loop_ids by blast
qed

definition sample_host :: "json list \<Rightarrow> json" where
  "sample_host aps = JObj [(''mac'', JArr [JStr ''m'']), (''ipv4'', JArr []), (''attachmentPoint'', JArr aps)]"

definition sample_point :: json where
  "sample_point = JObj [(''switchDPID'', JStr ''1''), (''port'', JNum 2)]"

lemma sample_host_facts:
  "devices_retrieved (Some (JArr [sample_host aps])) = Inr [Some (JStr ''m'')]"
  "host_id (sample_host aps) = Inr (Some (JStr ''m''))"
  "attached (sample_host [sample_point]) = Inr True"
  by (simp_all add: devices_retrieved_def host_id_def sample_host_def attached_def indexed_def
      enumerate_eq_zip string_of_nat.simps digit_char_def)

theorem attached_new_host_shown_witness:
  "map dev_id (devices (fst (fst (devices_success (\<lambda>_. '''') (Some (JArr [sample_host [sample_point]]))
     (device_init, iris_init :: (nat, device, nat, nat) iris))))) \<noteq> []"
proof -
  let ?d = "Some (JArr [sample_host [sample_point]])"
  let ?r = "devices_success (\<lambda>_. '''') ?d (device_init, iris_init :: (nat, device, nat, nat) iris)"
  have "snd (host_step (\<lambda>_. '''') [Some (JStr ''m'')] (sample_host [sample_point]) ([], 0)) = None"
    by (simp add: host_step_def sample_host_facts new_device_def del: path.simps)
      (simp add: sample_host_def sample_point_def get_def)
  then obtain a where a: "host_step (\<lambda>_. '''') [Some (JStr ''m'')] (sample_host [sample_point]) ([], 0) = (a, None)"
    by (metis prod.collapse)
  have c: "completes ?r"
    by (simp add: a devices_success_Inr [OF sample_host_facts(1)] Let_def host_result_def device_init_def
        difference_def contains_def indexOf_def split: prod.split option.splits)
  have "Some (JStr ''m'') \<in> set (map dev_id (devices (fst (fst ?r))))"
    by (rule attached_new_host_shown [OF sample_host_facts(1) c _ sample_host_facts(3,2)])
      (simp_all add: device_init_def)
  then show ?thesis by force
qed

theorem tracked_host_stays_hidden_witness:
  "devices (fst (fst (devices_success (\<lambda>_. '''') (Some (JArr [sample_host []]))
      (device_init, iris_init :: (nat, device, nat, nat) iris)))) = [] \<and>
   Some (JStr ''m'') \<notin> set (map dev_id (devices (fst (fst
      (devices_success (\<lambda>_. '''') (Some (JArr [sample_host [sample_point]]))
        (fst (devices_success (\<lambda>_. '''') (Some (JArr [sample_host []]))
          (device_init, iris_init :: (nat, device, nat, nat) iris))))))))"
proof -
  let ?t = "fst (devices_success (\<lambda>_. '''') (Some (JArr [sample_host []]))
      (device_init, iris_init :: (nat, device, nat, nat) iris))"
  have "host_step (\<lambda>_. '''') [Some (JStr ''m'')] (sample_host []) ([], 0) = (([], 0), None)"
    by (simp add: host_step_def attached_def sample_host_def)
  then have r: "host_result (\<lambda>_. '''') [Some (JStr ''m'')] (Some (JArr [sample_host []])) device_init = (([], 0), None)"
    by (simp add: host_result_def device_init_def difference_def contains_def indexOf_def)
  have t: "devices (fst ?t) = []"
    unfolding devices_success_scope [OF sample_host_facts(1)] r by simp
  have i: "device_ids (fst ?t) = [Some (JStr ''m'')]"
    unfolding devices_success_scope [OF sample_host_facts(1)]
    by (simp add: device_init_def adjust_ids_def difference_def contains_def indexOf_def union_arr_def uniq_def)
  show ?thesis
    using tracked_host_stays_hidden [OF sample_host_facts(1), of "Some (JStr ''m'')" "fst ?t" "\<lambda>_. ''''" "[sample_point]" "snd ?t"]
    unfolding t i by simp
qed

end
