(* ===== verification/Flows.thy ===== *)
theory Flows
  imports Json Underscore Polling
begin

text \<open>
  \<open>web/js/controllers/flows.js\<close>: the flow records of one switch, rendered as text. Every
  response rebuilds the list; an entry that cannot be rendered throws, which loses it and
  the entries after it. The number that replaces the protocol field is read back in the same
  iteration only, so a row keeps the entry as it was received.
\<close>

section \<open>The match column\<close>

text \<open>\<open>v == 0\<close>: a string compares through its numeric value.\<close>

definition all_zero :: "string \<Rightarrow> bool" where
  "all_zero s \<longleftrightarrow> s \<noteq> [] \<and> list_all (\<lambda>c. c = CHR ''0'') s"

definition drop_sign :: "string \<Rightarrow> string" where
  "drop_sign s = (if take 1 s = ''-'' \<or> take 1 s = ''+'' then drop 1 s else s)"

definition string_is_zero :: "string \<Rightarrow> bool" where
  "string_is_zero s =
     (let t = trim s; u = drop_sign t;
          m = takeWhile (\<lambda>c. c \<noteq> CHR ''e'' \<and> c \<noteq> CHR ''E'') u;
          r = drop (length m) u; x = drop_sign (drop 1 r)
      in t = [] \<or> ((take 2 t = ''0x'' \<or> take 2 t = ''0X'') \<and> all_zero (drop 2 t)) \<or>
         (all_zero (filter (\<lambda>c. c \<noteq> CHR ''.'') m) \<and> length (filter (\<lambda>c. c = CHR ''.'') m) \<le> 1 \<and>
          (r = [] \<or> (x \<noteq> [] \<and> list_all (\<lambda>c. c \<in> set ''0123456789'') x))))"

fun loosely_zero :: "json option \<Rightarrow> bool" where
  "loosely_zero (Some (JNum i)) = (i = 0)"
| "loosely_zero (Some (JBool b)) = (\<not> b)"
| "loosely_zero (Some (JStr s)) = string_is_zero s"
| "loosely_zero (Some (JArr xs)) = string_is_zero (to_string (JArr xs))"
| "loosely_zero _ = False"

definition field_name :: "string \<Rightarrow> string" where
  "field_name k = remove_first (CHR ''_'') k"

definition field_value :: "string \<Rightarrow> json \<Rightarrow> string" where
  "field_value k v =
     (if field_name k = ''ipproto'' then number_string (parseInt16 (to_string v)) else to_string v)"

fun match_loop :: "(string \<times> json) list \<Rightarrow> string \<Rightarrow> string" where
  "match_loop [] html = html"
| "match_loop ((k, v) # kvs) html =
     match_loop kvs (html @ field_name k @ ''='' @ field_value k v @ '', '')"

definition match_html :: "json \<Rightarrow> string" where
  "match_html f =
     (let html = chop2 (match_loop (entries (get (Some f) ''match'')) '''')
      in if loosely_zero (get (Some f) ''priority'') \<and> html = '''' then ''table miss record'' else html)"

section \<open>The action column\<close>

text \<open>\<open>arr.concat(x)\<close> splices an array and appends anything else, \<open>undefined\<close> included.\<close>

fun concat_value :: "json option \<Rightarrow> json option list" where
  "concat_value (Some (JArr xs)) = map Some xs"
| "concat_value v = [v]"

fun instruction_actions :: "json list \<Rightarrow> json option list \<Rightarrow> json option list js" where
  "instruction_actions [] arr = Inr arr"
| "instruction_actions (a # as) arr =
     (case property (Some a) ''actions'' of Inl e \<Rightarrow> Inl e
      | Inr v \<Rightarrow> instruction_actions as (arr @ concat_value v))"

definition flow_actions :: "json \<Rightarrow> json option list js" where
  "flow_actions f =
     (if truthy (get (Some f) ''actions'') then Inr (map Some (each_values (get (Some f) ''actions'')))
      else instruction_actions (each_values (get (Some f) ''instructions'')) [])"

definition reserved_ports :: "(string \<times> string) list" where
  "reserved_ports =
     [(''-8'', ''IN_PORT''), (''-7'', ''TABLE''), (''-6'', ''NORMAL''), (''-5'', ''FLOOD''),
      (''-4'', ''ALL''), (''-3'', ''CONTROLLER''), (''-2'', ''LOCAL'')]"

definition port_token :: "json option \<Rightarrow> string" where
  "port_token p = (case map_of reserved_ports (key_of p) of Some tok \<Rightarrow> tok | None \<Rightarrow> opt_string p)"

text \<open>The text one action adds, for the types with a fixed shape.\<close>

definition simple_text :: "string \<Rightarrow> (string \<Rightarrow> string) \<Rightarrow> json option \<Rightarrow> string option" where
  "simple_text ty arg p =
     (if ty = ''OUTPUT'' then Some (''output '' @ port_token p)
      else if ty \<in> {''ENQUEUE'', ''SET_QUEUE'', ''OPAQUE_ENQUEUE''} then
        Some (''enqueue '' @ arg ''port'' @ '':'' @ arg ''queueId'')
      else if ty = ''STRIP_VLAN'' then Some ''strip VLAN''
      else if ty = ''SET_VLAN_ID'' then Some (''VLAN='' @ arg ''virtualLanIdentifier'')
      else if ty = ''SET_VLAN_PCP'' then Some (''prio='' @ arg ''virtualLanPriorityCodePoint'')
      else if ty = ''SET_DL_SRC'' then Some (''src='' @ arg ''dataLayerAddress'')
      else if ty = ''SET_DL_DST'' then Some (''dest='' @ arg ''dataLayerAddress'')
      else if ty = ''SET_NW_TOS'' then Some (''TOS='' @ arg ''networkTypeOfService'')
      else if ty = ''SET_NW_SRC'' then Some (''src='' @ arg ''networkAddress'')
      else if ty = ''SET_NW_DST'' then Some (''dest='' @ arg ''networkAddress'')
      else if ty = ''SET_TP_SRC'' then Some (''src port='' @ arg ''transportPort'')
      else if ty = ''SET_TP_DST'' then Some (''dest port='' @ arg ''transportPort'')
      else None)"

text \<open>The memo of the reduction is \<open>undefined\<close> after an action of an unknown type.\<close>

definition memo_text :: "string option \<Rightarrow> string" where
  "memo_text m = (case m of None \<Rightarrow> ''undefined'' | Some s \<Rightarrow> s)"

fun field_loop :: "(string \<times> json) list \<Rightarrow> string option \<Rightarrow> string option" where
  "field_loop [] ret = ret"
| "field_loop ((k, v) # kvs) ret =
     field_loop kvs (Some (memo_text ret @ k @ '':'' @ to_string v @ '', ''))"

definition action_step :: "string option \<Rightarrow> json option \<Rightarrow> string option js" where
  "action_step memo a =
     (case property a ''type'' of
        Inl e \<Rightarrow> Inl e
      | Inr (Some (JStr ty)) \<Rightarrow>
          (if ty = ''SET_FIELD'' then
             (case field_loop (entries (get a ''field'')) memo of
                None \<Rightarrow> Inl TypeError
              | Some ret \<Rightarrow> Inr (Some (chop2 ret @ '', '')))
           else
             (case simple_text ty (\<lambda>k. opt_string (get a k)) (get a ''port'') of
                Some t \<Rightarrow> Inr (Some (memo_text memo @ t @ '', ''))
              | None \<Rightarrow> Inr None))
      | Inr _ \<Rightarrow> Inr None)"

fun action_reduce :: "json option list \<Rightarrow> string option \<Rightarrow> string option js" where
  "action_reduce [] memo = Inr memo"
| "action_reduce (a # as) memo =
     (case action_step memo a of Inl e \<Rightarrow> Inl e | Inr m \<Rightarrow> action_reduce as m)"

definition action_text :: "json option list \<Rightarrow> string js" where
  "action_text as = (case action_reduce as (Some '''') of
     Inl e \<Rightarrow> Inl e | Inr None \<Rightarrow> Inl TypeError | Inr (Some s) \<Rightarrow> Inr (chop2 s))"

section \<open>The controller\<close>

record flow_row =
  flow :: json
  matchHTML :: string
  actionText :: string

text \<open>An entry that is not an object has no \<open>matchHTML\<close> to cut, or cannot take one.\<close>

fun is_object :: "json \<Rightarrow> bool" where
  "is_object (JObj _) = True"
| "is_object (JArr _) = True"
| "is_object _ = False"

definition render_flow :: "json \<Rightarrow> flow_row js" where
  "render_flow f =
     (if \<not> is_object f then Inl TypeError
      else (case flow_actions f of Inl e \<Rightarrow> Inl e
        | Inr as \<Rightarrow> (case action_text as of Inl e \<Rightarrow> Inl e
            | Inr t \<Rightarrow> Inr \<lparr>flow = f, matchHTML = match_html f, actionText = t\<rparr>)))"

fun flow_loop :: "json list \<Rightarrow> flow_row list \<Rightarrow> flow_row list outcome" where
  "flow_loop [] rows = (rows, None)"
| "flow_loop (f # fs) rows =
     (case render_flow f of Inl e \<Rightarrow> (rows, Some e) | Inr r \<Rightarrow> flow_loop fs (rows @ [r]))"

record flow_scope =
  fl_id :: string
  flow_rows :: "flow_row list"

definition flows_url :: "flow_scope \<Rightarrow> string" where
  "flows_url s = ''/wm/core/switch/'' @ fl_id s @ ''/flow/json''"

definition flows_success :: "json option \<Rightarrow> flow_scope \<Rightarrow> flow_scope outcome" where
  "flows_success data s =
     (case property data (fl_id s) of
        Inl e \<Rightarrow> (s\<lparr>flow_rows := []\<rparr>, Some e)
      | Inr fs \<Rightarrow> (case flow_loop (each_values fs) [] of (rows, e) \<Rightarrow> (s\<lparr>flow_rows := rows\<rparr>, e)))"

definition flows_error :: "flow_scope \<Rightarrow> flow_scope" where
  "flows_error s = s\<lparr>flow_rows := []\<rparr>"

text \<open>Nothing happens to the scope when the popup no longer polls.\<close>

definition CntlFlows :: "string \<Rightarrow> flow_scope popup" where
  "CntlFlows i = open_popup id \<lparr>fl_id = i, flow_rows = []\<rparr>"

definition CntlFlows_step where
  "CntlFlows_step = popup_step flows_success flows_error id"

section \<open>What the columns say\<close>

definition match_pair :: "string \<times> json \<Rightarrow> string" where
  "match_pair kv = field_name (fst kv) @ ''='' @ field_value (fst kv) (snd kv)"

lemma match_loop_eq: "match_loop kvs html = html @ concat (map (\<lambda>kv. match_pair kv @ '', '') kvs)"
  by (induction kvs html rule: match_loop.induct) (auto simp: match_pair_def)

lemma match_loop_chop: "chop2 (match_loop kvs '''') = join '', '' (map match_pair kvs)"
  using chop2_concat_trailing [of "'', ''" "map match_pair kvs"]
  by (simp add: match_loop_eq comp_def)

text \<open>The label of an action, \<open>None\<close> for an unknown type and a field action without fields.\<close>

definition action_label :: "json \<Rightarrow> string option" where
  "action_label a =
     (case get (Some a) ''type'' of
        Some (JStr ty) \<Rightarrow>
          (if ty = ''SET_FIELD'' then
             (if entries (get (Some a) ''field'') = [] then None
              else Some (join '', '' (map (\<lambda>(k, v). k @ '':'' @ to_string v)
                     (entries (get (Some a) ''field'')))))
           else simple_text ty (\<lambda>k. opt_string (get (Some a) k)) (get (Some a) ''port''))
      | _ \<Rightarrow> None)"

definition known_type :: "json \<Rightarrow> bool" where
  "known_type a \<longleftrightarrow>
     (case get (Some a) ''type'' of
        Some (JStr ty) \<Rightarrow> ty = ''SET_FIELD'' \<or> simple_text ty (\<lambda>_. '''') None \<noteq> None
      | _ \<Rightarrow> False)"

lemma field_loop_eq:
  "field_loop kvs (Some m) = Some (m @ concat (map (\<lambda>(k, v). k @ '':'' @ to_string v @ '', '') kvs))"
  by (induction kvs "Some m" arbitrary: m rule: field_loop.induct) (auto simp: memo_text_def)

lemma fields_concat:
  "concat (map (\<lambda>(k, v). k @ '':'' @ to_string v @ '', '') kvs)
     = concat (map (\<lambda>s. s @ '', '') (map (\<lambda>(k, v). k @ '':'' @ to_string v) kvs))"
  by (induction kvs) auto

lemma action_step_label:
  assumes "action_label a = Some t"
  shows "action_step (Some m) (Some a) = Inr (Some (m @ t @ '', ''))"
proof -
  from assms obtain ty where ty: "get (Some a) ''type'' = Some (JStr ty)"
    by (auto simp: action_label_def split: option.splits json.splits)
  have "property (Some a) ''type'' = Inr (Some (JStr ty))"
    using ty by (auto simp: get_def split: sum.splits)
  note type_eq = this
  show ?thesis
  proof (cases "ty = ''SET_FIELD''")
    case True
    let ?kvs = "entries (get (Some a) ''field'')"
    let ?f = "\<lambda>(k, v). k @ '':'' @ to_string v"
    from assms ty True have ne: "?kvs \<noteq> []" and t: "t = join '', '' (map ?f ?kvs)"
      by (auto simp: action_label_def split: if_splits)
    have "concat (map (\<lambda>(k, v). k @ '':'' @ to_string v @ '', '') ?kvs)
        = concat (map (\<lambda>s. s @ '', '') (map ?f ?kvs))"
      by (rule fields_concat)
    also have "\<dots> = t @ '', ''"
      unfolding t by (rule concat_trailing) (use ne in simp)
    finally show ?thesis
      using type_eq True chop2_append [of "'', ''" "m @ t"]
      by (simp add: action_step_def field_loop_eq)
  next
    case False
    with assms ty type_eq show ?thesis
      by (auto simp: action_step_def action_label_def memo_text_def)
  qed
qed

lemma action_reduce_labels:
  assumes "list_all2 (\<lambda>a t. action_label a = Some t) as ts"
  shows "action_reduce (map Some as) (Some m) = Inr (Some (m @ concat (map (\<lambda>t. t @ '', '') ts)))"
  using assms
  by (induction as ts arbitrary: m rule: list_all2_induct) (auto simp: action_step_label)

lemma action_reduce_append:
  "action_reduce (as @ bs) m =
     (case action_reduce as m of Inl e \<Rightarrow> Inl e | Inr m' \<Rightarrow> action_reduce bs m')"
  by (induction as m rule: action_reduce.induct) (auto split: sum.splits)

lemma action_text_labels:
  assumes "list_all2 (\<lambda>a t. action_label a = Some t) as ts"
  shows "action_text (map Some as) = Inr (join '', '' ts)"
  using action_reduce_labels [OF assms, of "''''"] chop2_concat_trailing [of "'', ''" ts]
  by (simp add: action_text_def)

lemma simple_text_None: "simple_text ty arg p = None \<longleftrightarrow> simple_text ty (\<lambda>_. '''') None = None"
  unfolding simple_text_def by (simp split: if_split)

lemma unknown_type_step:
  assumes "is_object a" "\<not> known_type a"
  shows "action_step m (Some a) = Inr None"
proof -
  have "property (Some a) ''type'' = Inr (get (Some a) ''type'')"
    using assms(1) by (intro property_get) (auto simp: objectlike_def)
  moreover have "simple_text ty arg p = None" "ty \<noteq> ''SET_FIELD''"
    if "get (Some a) ''type'' = Some (JStr ty)" for ty arg p
    using assms(2) that simple_text_None [of ty arg p] by (auto simp: known_type_def)
  ultimately show ?thesis
    by (auto simp: action_step_def split: option.splits json.splits)
qed

lemma unknown_last_action_throws:
  assumes "is_object a" "\<not> known_type a"
  shows "\<exists>e. action_text (as @ [Some a]) = Inl e"
  using unknown_type_step [OF assms]
  by (cases "action_reduce as (Some [])") (auto simp: action_text_def action_reduce_append)

lemma flow_loop_complete:
  assumes "list_all2 (\<lambda>f r. render_flow f = Inr r) fs rs"
  shows "flow_loop fs rows = (rows @ rs, None)"
  using assms by (induction fs rs arbitrary: rows rule: list_all2_induct) auto

lemma flow_loop_stops:
  assumes "list_all2 (\<lambda>f r. render_flow f = Inr r) fs rs" "render_flow f = Inl e"
  shows "flow_loop (fs @ f # gs) rows = (rows @ rs, Some e)"
  using assms by (induction fs rs arbitrary: rows rule: list_all2_induct) auto

section \<open>Properties\<close>

text \<open>
  The action column of a flow whose actions all have a known type is the list of the
  actions' labels, separated by a comma and a space, in the order of the actions.
\<close>

theorem action_text_is_label_list:
  assumes "list_all2 (\<lambda>a t. action_label a = Some t) as ts"
  shows "action_text (map Some as) = Inr (join '', '' ts)"
  by (rule action_text_labels [OF assms])

theorem action_text_is_label_list_witness:
  "action_text (map Some [JObj [(''type'', JStr ''OUTPUT''), (''port'', JNum (- 3))],
     JObj [(''type'', JStr ''STRIP_VLAN'')]]) = Inr ''output CONTROLLER, strip VLAN''"
proof -
  have "list_all2 (\<lambda>a t. action_label a = Some t)
      [JObj [(''type'', JStr ''OUTPUT''), (''port'', JNum (- 3))], JObj [(''type'', JStr ''STRIP_VLAN'')]]
      [''output CONTROLLER'', ''strip VLAN'']"
    by (simp add: action_label_def get_def simple_text_def port_token_def reserved_ports_def
        key_of_def opt_string_def string_of_int_def string_of_nat.simps digit_char_def)
  from action_text_is_label_list [OF this] show ?thesis by (simp add: join_def)
qed

text \<open>
  C19: A flow whose last action has a type the controller does not know throws: the table then
  shows the flows before it in the answer, and none from it on.
\<close>

theorem unknown_action_hides_rest:
  assumes "list_all2 (\<lambda>f r. render_flow f = Inr r) fs rs"
    and "is_object f" "get (Some f) ''actions'' = Some (JArr (as @ [a]))"
    and "is_object a" "\<not> known_type a"
    and "property data (fl_id s) = Inr (Some (JArr (fs @ f # gs)))"
  shows "flow_rows (fst (flows_success data s)) = rs \<and> \<not> completes (flows_success data s)"
proof -
  have "flow_actions f = Inr (map Some as @ [Some a])"
    using assms(3) by (simp add: flow_actions_def)
  then obtain e where "render_flow f = Inl e"
    using unknown_last_action_throws [OF assms(4,5), of "map Some as"] assms(2)
    by (auto simp: render_flow_def)
  from flow_loop_stops [OF assms(1) this] show ?thesis
    using assms(6) by (simp add: flows_success_def)
qed

theorem unknown_action_hides_rest_witness:
  "let f = JObj [(''actions'', JArr [JObj [(''type'', JStr ''GROUP'')]])];
       g = JObj [(''actions'', JArr [JObj [(''type'', JStr ''STRIP_VLAN'')]])]
   in flow_rows (fst (flows_success (Some (JObj [(''1'', JArr [f, g])])) \<lparr>fl_id = ''1'', flow_rows = []\<rparr>)) = []"
proof -
  have "list_all2 (\<lambda>f r. render_flow f = Inr r) [] []" by simp
  from unknown_action_hides_rest [OF this, of "JObj [(''actions'', JArr [JObj [(''type'', JStr ''GROUP'')]])]"
      "[]" "JObj [(''type'', JStr ''GROUP'')]"
      "Some (JObj [(''1'', JArr [JObj [(''actions'', JArr [JObj [(''type'', JStr ''GROUP'')]])],
         JObj [(''actions'', JArr [JObj [(''type'', JStr ''STRIP_VLAN'')]])]])])"
      "\<lparr>fl_id = ''1'', flow_rows = []\<rparr>" "[JObj [(''actions'', JArr [JObj [(''type'', JStr ''STRIP_VLAN'')]])]]"]
  show ?thesis by (simp add: Let_def get_def known_type_def simple_text_def)
qed

text \<open>
  An answer whose flows can all be rendered replaces the table by one row for each flow,
  in the order of the answer.
\<close>

theorem flow_table_complete:
  assumes "property data (fl_id s) = Inr fs" "list_all2 (\<lambda>f r. render_flow f = Inr r) (each_values fs) rs"
  shows "flows_success data s = (s\<lparr>flow_rows := rs\<rparr>, None)"
  using flow_loop_complete [OF assms(2), of "[]"] assms(1) by (simp add: flows_success_def)

theorem flow_table_complete_witness:
  "flows_success (Some (JObj [(''1'', JArr [])])) \<lparr>fl_id = ''1'', flow_rows = []\<rparr>
     = (\<lparr>fl_id = ''1'', flow_rows = []\<rparr>, None)"
  using flow_table_complete [of "Some (JObj [(''1'', JArr [])])" "\<lparr>fl_id = ''1'', flow_rows = []\<rparr>" "Some (JArr [])" "[]"]
  by simp

text \<open>
  A protocol number that the controller reports in hexadecimal is shown in decimal in the
  match column.
\<close>

theorem protocol_shown_decimal:
  "match_loop [(''ip_proto'', JStr (''0x'' @ hex_string n))] html =
     html @ ''ipproto='' @ string_of_int (int n) @ '', ''"
proof -
  have "field_name ''ip_proto'' = ''ipproto''" by (simp add: field_name_def)
  then show ?thesis
    using parseInt16_hex [of n] by (simp add: field_value_def number_string_def)
qed

end
