(* ===== verification/Ports.thy ===== *)
theory Ports
  imports Json Polling
begin

text \<open>
  \<open>web/js/controllers/ports.js\<close>: the ports of one switch. The array \<open>ports\<close> and the map
  \<open>portsMap\<close> share the port objects: a later response updates the counters of the shared
  object, and the answer to the features request writes its status and its name. The objects
  therefore live in a heap and both containers hold references.
\<close>

section \<open>Port objects\<close>

text \<open>\<open>o.k = v\<close>: a value that is not an object takes no property; \<open>undefined\<close> reads as absent.\<close>

fun set_property :: "string \<Rightarrow> json option \<Rightarrow> json \<Rightarrow> json" where
  "set_property k (Some v) (JObj kvs) = JObj (AList.update k v kvs)"
| "set_property k None (JObj kvs) = JObj (AList.delete k kvs)"
| "set_property k v j = j"

lemma get_set_same: "get (Some (set_property k v (JObj kvs))) k = v"
  by (cases v) (auto simp: get_def AList.delete_notin_dom map_of_eq_None_iff)

lemma get_set_other: "k' \<noteq> k \<Longrightarrow> get (Some (set_property k v j)) k' = get (Some j) k'"
proof (cases j)
  case (JObj kvs)
  assume "k' \<noteq> k"
  then have "map_of (AList.delete k kvs) k' = map_of kvs k'"
    by (simp add: delete_conv')
  with JObj \<open>k' \<noteq> k\<close> show ?thesis by (cases v) (auto simp: get_def)
qed (cases v; simp)+

lemma truthy_set [simp]: "truthy (Some (set_property k v j)) = truthy (Some j)"
  by (cases j; cases v) auto

lemma set_property_object: "\<exists>kvs'. set_property k v (JObj kvs) = JObj kvs'"
  by (cases v) auto

definition counters :: "string list" where
  "counters = [''transmitBytes'', ''receiveBytes'', ''transmitPackets'', ''receivePackets'',
     ''receiveDropped'', ''transmitDropped'', ''receiveErrors'', ''transmitErrors'']"

definition copy_counters :: "json \<Rightarrow> json \<Rightarrow> json" where
  "copy_counters port px =
     foldl (\<lambda>o' c. set_property c (get (Some port) c) o') px counters"

section \<open>The scope and the response to the port request\<close>

record port_scope =
  pt_id :: string
  ports :: "nat list"
  portsMap :: "string \<rightharpoonup> nat"
  port_heap :: "nat \<rightharpoonup> json"
  next_port :: nat

definition port_init :: "string \<Rightarrow> port_scope" where
  "port_init i = \<lparr>pt_id = i, ports = [], portsMap = Map.empty, port_heap = Map.empty, next_port = 0\<rparr>"

definition ports_url :: "port_scope \<Rightarrow> string" where
  "ports_url s = ''/wm/core/switch/'' @ pt_id s @ ''/port/json''"

definition features_url :: "port_scope \<Rightarrow> string" where
  "features_url s = ''/wm/core/switch/'' @ pt_id s @ ''/features/json''"

definition port_key :: "json \<Rightarrow> string" where
  "port_key p = key_of (get (Some p) ''portNumber'')"

text \<open>What \<open>portsMap[k]\<close> holds: a reference and the object it denotes.\<close>

definition lookup_port :: "port_scope \<Rightarrow> string \<Rightarrow> (nat \<times> json) option" where
  "lookup_port s k =
     (case portsMap s k of None \<Rightarrow> None
      | Some r \<Rightarrow> (case port_heap s r of None \<Rightarrow> None
          | Some px \<Rightarrow> if truthy (Some px) then Some (r, px) else None))"

definition push_port :: "json \<Rightarrow> port_scope \<Rightarrow> port_scope" where
  "push_port port s = s\<lparr>ports := ports s @ [next_port s],
     portsMap := (portsMap s)(port_key port \<mapsto> next_port s),
     port_heap := (port_heap s)(next_port s \<mapsto> port), next_port := Suc (next_port s)\<rparr>"

definition write_port :: "nat \<Rightarrow> json \<Rightarrow> port_scope \<Rightarrow> port_scope" where
  "write_port r px s = s\<lparr>port_heap := (port_heap s)(r \<mapsto> px)\<rparr>"

definition port_step :: "json \<Rightarrow> port_scope \<Rightarrow> port_scope" where
  "port_step port s =
     (case lookup_port s (port_key port) of
        None \<Rightarrow> push_port port s
      | Some (r, px) \<Rightarrow> write_port r (copy_counters port px) s)"

fun port_loop :: "json list \<Rightarrow> port_scope \<Rightarrow> port_scope outcome" where
  "port_loop [] s = (s, None)"
| "port_loop (p # ps) s =
     (if p = JNull then (s, Some TypeError) else port_loop ps (port_step p s))"

definition ports_success :: "json option \<Rightarrow> port_scope \<Rightarrow> port_scope outcome" where
  "ports_success data s =
     (case property data (pt_id s) of
        Inl e \<Rightarrow> (s, Some e) | Inr ps \<Rightarrow> port_loop (each_values ps) s)"

definition clear_ports :: "port_scope \<Rightarrow> port_scope" where
  "clear_ports s = s\<lparr>ports := [], portsMap := Map.empty\<rparr>"

section \<open>The response to the features request\<close>

text \<open>\<open>replace(/(PF_|\s+)/gi, "")\<close>.\<close>

definition lower :: "char \<Rightarrow> char" where
  "lower c = (if c = CHR ''P'' then CHR ''p'' else if c = CHR ''F'' then CHR ''f'' else c)"

fun strip_pf :: "string \<Rightarrow> string" where
  "strip_pf [] = []"
| "strip_pf (c # cs) =
     (if is_space c then strip_pf cs
      else if map lower (take 3 (c # cs)) = ''pf_'' then strip_pf (drop 2 cs)
      else c # strip_pf cs)"

text \<open>\<open>replace(/_/, " ")\<close> and \<open>replace(/\[\]/, "")\<close>: the first occurrence only.\<close>

fun first_underscore :: "string \<Rightarrow> string" where
  "first_underscore [] = []"
| "first_underscore (c # cs) = (if c = CHR ''_'' then CHR '' '' # cs else c # first_underscore cs)"

fun drop_brackets :: "string \<Rightarrow> string" where
  "drop_brackets [] = []"
| "drop_brackets (c # cs) =
     (if take 2 (c # cs) = ''[]'' then drop 1 cs else c # drop_brackets cs)"

definition feature_text :: "string \<Rightarrow> string" where
  "feature_text s = drop_brackets (first_underscore (strip_pf s))"

text \<open>\<open>v.indexOf("DOWN") >= 0\<close>: strings and arrays have the method.\<close>

fun index_down :: "json option \<Rightarrow> bool js" where
  "index_down (Some (JStr s)) = Inr (has_substring ''DOWN'' s)"
| "index_down (Some (JArr xs)) = Inr (JStr ''DOWN'' \<in> set xs)"
| "index_down _ = Inl TypeError"

definition is_down :: "json \<Rightarrow> bool js" where
  "is_down p =
     (case index_down (get (Some p) ''config'') of
        Inl e \<Rightarrow> Inl e | Inr True \<Rightarrow> Inr True | Inr False \<Rightarrow> index_down (get (Some p) ''state''))"

fun replace_features :: "json option \<Rightarrow> string js" where
  "replace_features (Some (JStr s)) = Inr (feature_text s)"
| "replace_features _ = Inl TypeError"

text \<open>A throw keeps what was written before it: \<open>UP\<close>, or the state and the space.\<close>

definition set_status :: "string \<Rightarrow> json \<Rightarrow> json" where
  "set_status t px = set_property ''status'' (Some (JStr t)) px"

definition feature_write :: "json \<Rightarrow> json \<Rightarrow> json outcome" where
  "feature_write p px =
     (case is_down p of
        Inl e \<Rightarrow> (set_status ''UP'' px, Some e)
      | Inr down \<Rightarrow>
          (let st = (if down then ''DOWN '' else ''UP '')
           in case replace_features (get (Some p) ''currentFeatures'') of
                Inl e \<Rightarrow> (set_status st px, Some e)
              | Inr t \<Rightarrow>
                  (set_property ''name'' (get (Some p) ''name'') (set_status (st @ t) px), None)))"

fun feature_loop :: "json list \<Rightarrow> port_scope \<Rightarrow> port_scope outcome" where
  "feature_loop [] s = (s, None)"
| "feature_loop (p # ps) s =
     (if p = JNull then (s, Some TypeError)
      else (case lookup_port s (port_key p) of
          None \<Rightarrow> feature_loop ps s
        | Some (r, px) \<Rightarrow>
            (case feature_write p px of
               (px', Some e) \<Rightarrow> (write_port r px' s, Some e)
             | (px', None) \<Rightarrow> feature_loop ps (write_port r px' s))))"

definition features_success :: "json option \<Rightarrow> port_scope \<Rightarrow> port_scope outcome" where
  "features_success data s =
     (case path data [pt_id s, ''ports''] of
        Inl e \<Rightarrow> (s, Some e)
      | Inr v \<Rightarrow>
          (let feature_ports = (if truthy v then v else get (get data (pt_id s)) ''entries'')
           in feature_loop (each_values feature_ports) s))"

section \<open>The popup\<close>

text \<open>
  \<open>feature_requests\<close> are the features requests that are still open, \<open>features_issued\<close> counts all that
  were sent, as \<open>issued\<close> counts the port requests.
\<close>

record ports_page =
  poll :: "port_scope popup"
  feature_requests :: nat
  features_issued :: nat

datatype ports_event = Poll "json option popup_event" | FeaturesSucceed "json option" | FeaturesFail

definition CntlPorts :: "string \<Rightarrow> ports_page" where
  "CntlPorts i = \<lparr>poll = open_popup clear_ports (port_init i), feature_requests = 0, features_issued = 0\<rparr>"

text \<open>The features request starts once the port request was answered without a throw.\<close>

definition features_started :: "port_scope \<Rightarrow> json option popup_event \<Rightarrow> nat" where
  "features_started s e =
     (case e of PSucceeds d \<Rightarrow> if completes (ports_success d s) then 1 else 0 | _ \<Rightarrow> 0)"

fun ports_step :: "ports_page \<Rightarrow> ports_event \<Rightarrow> ports_page option" where
  "ports_step p (Poll e) =
     (case popup_step ports_success clear_ports clear_ports (poll p) e of
        None \<Rightarrow> None
      | Some q \<Rightarrow> Some (p\<lparr>poll := q,
          feature_requests := feature_requests p + features_started (p_scope (poll p)) e,
          features_issued := features_issued p + features_started (p_scope (poll p)) e\<rparr>))"
| "ports_step p (FeaturesSucceed d) =
     (if feature_requests p = 0 then None
      else Some (p\<lparr>poll := (poll p)\<lparr>p_scope := fst (features_success d (p_scope (poll p)))\<rparr>,
             feature_requests := feature_requests p - 1\<rparr>))"
| "ports_step p FeaturesFail =
     (if feature_requests p = 0 then None
      else Some (p\<lparr>feature_requests := feature_requests p - 1\<rparr>))"

section \<open>The array and the map stay in step\<close>

text \<open>
  Every row is an allocated object and occurs once; the map points at rows, under their own
  port number; and a row that is an object is the one the map has for its number, so no two
  rows show the same port.
\<close>

definition ports_ok :: "port_scope \<Rightarrow> bool" where
  "ports_ok s \<longleftrightarrow> distinct (ports s) \<and> set (ports s) \<subseteq> {..<next_port s} \<and>
     dom (port_heap s) = {..<next_port s} \<and>
     (\<forall>k r. portsMap s k = Some r \<longrightarrow> r \<in> set (ports s) \<and> port_key (the (port_heap s r)) = k) \<and>
     (\<forall>r \<in> set (ports s). truthy (port_heap s r) \<longrightarrow>
        portsMap s (port_key (the (port_heap s r))) = Some r)"

lemma lookup_port_Some:
  "lookup_port s k = Some (r, px) \<longleftrightarrow>
     portsMap s k = Some r \<and> port_heap s r = Some px \<and> truthy (Some px)"
  by (auto simp: lookup_port_def split: option.splits if_splits)

lemma port_key_set [row_simps]: "c \<noteq> ''portNumber'' \<Longrightarrow> port_key (set_property c v px) = port_key px"
  by (simp add: port_key_def get_set_other)

lemma copy_counters_object:
  "port_key (copy_counters port px) = port_key px" "truthy (Some (copy_counters port px)) = truthy (Some px)"
  by (simp_all add: copy_counters_def counters_def row_simps)

lemma feature_write_object:
  "port_key (fst (feature_write p px)) = port_key px \<and>
   truthy (Some (fst (feature_write p px))) = truthy (Some px)"
  by (simp add: feature_write_def set_status_def Let_def row_simps split: sum.split)

lemma write_port_ok:
  assumes "ports_ok s" "port_heap s r = Some px" "port_key px' = port_key px"
    "truthy (Some px') = truthy (Some px)"
  shows "ports_ok (write_port r px' s)"
proof -
  have "r < next_port s" using assms(1,2) by (auto simp: ports_ok_def)
  then have dom': "dom ((port_heap s)(r \<mapsto> px')) = {..<next_port s}"
    using assms(1) by (auto simp: ports_ok_def insert_absorb)
  have key: "port_key (the (((port_heap s)(r \<mapsto> px')) i)) = port_key (the (port_heap s i))" for i
    using assms by simp
  have obj: "truthy (((port_heap s)(r \<mapsto> px')) i) = truthy (port_heap s i)" for i
    using assms by simp
  show ?thesis
    using assms(1) dom' unfolding ports_ok_def write_port_def
    by (simp del: fun_upd_apply add: key obj)
qed

lemma push_port_ok:
  assumes ok: "ports_ok s" and absent: "lookup_port s (port_key port) = None"
  shows "ports_ok (push_port port s)"
proof -
  let ?n = "next_port s"
  have fresh: "?n \<notin> set (ports s)" using ok by (auto simp: ports_ok_def)
  have old: "portsMap s k = Some r \<Longrightarrow> r \<noteq> ?n" for k r
    using ok fresh by (auto simp: ports_ok_def)
  have falsy: "port_key (the (port_heap s r)) \<noteq> port_key port"
    if r: "r \<in> set (ports s)" "truthy (port_heap s r)" for r
  proof
    assume "port_key (the (port_heap s r)) = port_key port"
    then have "portsMap s (port_key port) = Some r" using ok r by (metis ports_ok_def)
    moreover obtain px where "port_heap s r = Some px" using r(2) by (cases "port_heap s r") auto
    ultimately show False using absent r(2) by (simp add: lookup_port_def)
  qed
  have "distinct (ports s @ [?n])" "set (ports s @ [?n]) \<subseteq> {..<Suc ?n}"
    using ok fresh by (auto simp: ports_ok_def)
  moreover have "dom ((port_heap s)(?n \<mapsto> port)) = {..<Suc ?n}"
    using ok by (auto simp: ports_ok_def lessThan_Suc)
  moreover have "r \<in> set (ports s @ [?n]) \<and> port_key (the (((port_heap s)(?n \<mapsto> port)) r)) = k"
    if "((portsMap s)(port_key port \<mapsto> ?n)) k = Some r" for k r
    using that ok old [of k r] by (auto simp: ports_ok_def split: if_splits)
  moreover have "((portsMap s)(port_key port \<mapsto> ?n)) (port_key (the (((port_heap s)(?n \<mapsto> port)) r))) = Some r"
    if "r \<in> set (ports s @ [?n])" "truthy (((port_heap s)(?n \<mapsto> port)) r)" for r
    using that ok falsy fresh by (auto simp: ports_ok_def split: if_splits)
  ultimately show ?thesis
    unfolding ports_ok_def push_port_def by simp
qed

lemma port_step_ok: "ports_ok s \<Longrightarrow> ports_ok (port_step p s)"
  unfolding port_step_def
  by (auto split: option.split simp: push_port_ok lookup_port_Some copy_counters_object
      intro: write_port_ok)

lemma port_loop_ok: "ports_ok s \<Longrightarrow> ports_ok (fst (port_loop ps s))"
  by (induction ps s rule: port_loop.induct) (auto simp: port_step_ok)

lemma ports_success_ok: "ports_ok s \<Longrightarrow> ports_ok (fst (ports_success d s))"
  by (auto simp: ports_success_def port_loop_ok split: sum.split)

lemma feature_loop_ok: "ports_ok s \<Longrightarrow> ports_ok (fst (feature_loop ps s))"
proof (induction ps s rule: feature_loop.induct)
  case (1 s)
  then show ?case by simp
next
  case (2 p ps s)
  show ?case
  proof (cases "p = JNull \<or> lookup_port s (port_key p) = None")
    case True
    with 2 show ?thesis by auto
  next
    case False
    then obtain r px where l: "lookup_port s (port_key p) = Some (r, px)" by auto
    obtain px' e where w: "feature_write p px = (px', e)" by force
    have "ports_ok (write_port r px' s)"
      using write_port_ok [OF "2.prems"] l feature_write_object [of p px] w
      by (simp add: lookup_port_Some)
    with 2(2) False l w show ?thesis by (cases e) auto
  qed
qed

lemma features_success_ok: "ports_ok s \<Longrightarrow> ports_ok (fst (features_success d s))"
  by (auto simp: features_success_def feature_loop_ok Let_def split: sum.split)

lemma clear_ports_ok: "ports_ok s \<Longrightarrow> ports_ok (clear_ports s)"
  by (simp add: ports_ok_def clear_ports_def)

lemma popup_getData_ok: "ports_ok (p_scope p) \<Longrightarrow> ports_ok (p_scope (popup_getData clear_ports p))"
  by (simp add: popup_getData_def Let_def clear_ports_ok)

lemma ports_step_ok:
  assumes "ports_ok (p_scope (poll p))" "ports_step p e = Some q"
  shows "ports_ok (p_scope (poll q))"
proof (cases e)
  case (Poll pe)
  with assms show ?thesis
    by (cases pe) (auto simp: ports_success_ok clear_ports_ok popup_getData_ok split: if_splits)
qed (use assms in \<open>auto simp: features_success_ok split: if_splits\<close>)

lemma CntlPorts_ok: "ports_ok (p_scope (poll (CntlPorts i)))"
  by (simp add: CntlPorts_def open_popup_def popup_getData_def port_init_def ports_ok_def)

text \<open>No two rows that are objects show the same port.\<close>

lemma ports_ok_unique:
  assumes "ports_ok s" "r \<in> set (ports s)" "r' \<in> set (ports s)"
    "truthy (port_heap s r)" "truthy (port_heap s r')"
    "port_key (the (port_heap s r)) = port_key (the (port_heap s r'))"
  shows "r = r'"
  using assms unfolding ports_ok_def by (metis option.inject)

section \<open>The counters shown are the counters reported\<close>

definition shows_counters :: "port_scope \<Rightarrow> json \<Rightarrow> bool" where
  "shows_counters s port \<longleftrightarrow> (\<exists>r px. lookup_port s (port_key port) = Some (r, px) \<and>
     r \<in> set (ports s) \<and> (\<forall>c \<in> set counters. get (Some px) c = get (Some port) c))"

lemma copy_counters_get:
  assumes "truthy (Some px)" "\<exists>kvs. px = JObj kvs" "c \<in> set counters"
  shows "get (Some (copy_counters port px)) c = get (Some port) c"
proof -
  have gen: "get (Some (foldl (\<lambda>o' c. set_property c (get (Some port) c) o') px cs)) c
      = (if c \<in> set cs then get (Some port) c else get (Some px) c)"
    if "\<exists>kvs. px = JObj kvs" for cs px
    using that
  proof (induction cs arbitrary: px)
    case Nil
    then show ?case by simp
  next
    case (Cons d cs)
    let ?px = "set_property d (get (Some port) d) px"
    have ind: "get (Some (foldl (\<lambda>o' c. set_property c (get (Some port) c) o') ?px cs)) c
        = (if c \<in> set cs then get (Some port) c else get (Some ?px) c)"
      by (rule Cons.IH) (use Cons.prems set_property_object in blast)
    have "get (Some ?px) c = (if c = d then get (Some port) d else get (Some px) c)"
      using Cons.prems by (auto simp: get_set_same get_set_other)
    then show ?case unfolding foldl_Cons ind by auto
  qed
  show ?thesis using gen [OF assms(2), of counters] assms(3) by (simp add: copy_counters_def)
qed

definition objects_only :: "port_scope \<Rightarrow> bool" where
  "objects_only s \<longleftrightarrow> (\<forall>r px. port_heap s r = Some px \<longrightarrow> (\<exists>kvs. px = JObj kvs))"

lemma copy_counters_JObj:
  assumes "\<exists>kvs. px = JObj kvs"
  shows "\<exists>kvs. copy_counters port px = JObj kvs"
proof -
  have "\<exists>kvs. foldl (\<lambda>o' c. set_property c (f c) o') px cs = JObj kvs" for f cs
    using assms
  proof (induction cs arbitrary: px)
    case (Cons c cs)
    then have "\<exists>kvs. set_property c (f c) px = JObj kvs" using set_property_object by blast
    with Cons.IH show ?case by simp
  qed simp
  then show ?thesis by (simp add: copy_counters_def)
qed

lemma port_step_objects: "objects_only s \<Longrightarrow> objects_only (port_step (JObj kvs) s)"
  using copy_counters_JObj [of _ "JObj kvs"]
  by (auto simp: objects_only_def port_step_def push_port_def write_port_def lookup_port_Some
      split: option.split)

lemma shows_countersI:
  assumes "portsMap s (port_key port) = Some r" "port_heap s r = Some px" "truthy (Some px)"
    "r \<in> set (ports s)" "\<And>c. c \<in> set counters \<Longrightarrow> get (Some px) c = get (Some port) c"
  shows "shows_counters s port"
  using assms unfolding shows_counters_def lookup_port_Some by blast

lemma shows_countersE:
  assumes "shows_counters s port"
  obtains r px where "portsMap s (port_key port) = Some r" "port_heap s r = Some px"
    "truthy (Some px)" "r \<in> set (ports s)" "\<And>c. c \<in> set counters \<Longrightarrow> get (Some px) c = get (Some port) c"
  using assms unfolding shows_counters_def lookup_port_Some by blast

lemma port_step_shows:
  assumes "ports_ok s" "objects_only s"
  shows "shows_counters (port_step (JObj kvs) s) (JObj kvs)"
proof (cases "lookup_port s (port_key (JObj kvs))")
  case None
  then have "port_step (JObj kvs) s = push_port (JObj kvs) s" by (simp add: port_step_def)
  then show ?thesis
    by (auto simp: push_port_def intro: shows_countersI [of _ _ "next_port s" "JObj kvs"])
next
  case (Some rp)
  obtain r px where rp: "rp = (r, px)" by (cases rp)
  with Some have l: "portsMap s (port_key (JObj kvs)) = Some r" "port_heap s r = Some px"
    "truthy (Some px)" by (auto simp: lookup_port_Some)
  have "port_step (JObj kvs) s = write_port r (copy_counters (JObj kvs) px) s"
    using Some rp by (simp add: port_step_def)
  moreover have "r \<in> set (ports s)" using assms(1) l(1) by (auto simp: ports_ok_def)
  moreover have "\<exists>kvs. px = JObj kvs" using assms(2) l(2) by (auto simp: objects_only_def)
  ultimately show ?thesis
    using l by (auto simp: write_port_def copy_counters_object copy_counters_get
        intro!: shows_countersI [of _ _ r "copy_counters (JObj kvs) px"])
qed

lemma port_step_keeps:
  assumes "ports_ok s" "shows_counters s p" "port_key q \<noteq> port_key p"
  shows "shows_counters (port_step q s) p"
  using assms(2)
proof (rule shows_countersE)
  fix r px
  assume l: "portsMap s (port_key p) = Some r" "port_heap s r = Some px"
    "truthy (Some px)" "r \<in> set (ports s)" "\<And>c. c \<in> set counters \<Longrightarrow> get (Some px) c = get (Some p) c"
  have r: "r < next_port s" using assms(1) l(4) by (auto simp: ports_ok_def)
  have other: "r' \<noteq> r" if "lookup_port s (port_key q) = Some (r', px')" for r' px'
    using assms(1,3) that l(1) unfolding ports_ok_def lookup_port_Some by metis
  show ?thesis
  proof (rule shows_countersI [of _ _ r px])
    show "portsMap (port_step q s) (port_key p) = Some r" "port_heap (port_step q s) r = Some px"
      "r \<in> set (ports (port_step q s))"
      using l(1,2,4) r other assms(3)
      by (auto simp: port_step_def write_port_def push_port_def split: option.split)
  qed (use l in auto)
qed

lemma port_loop_keeps:
  assumes "ports_ok s" "shows_counters s p" "port_key p \<notin> port_key ` set ps"
  shows "shows_counters (fst (port_loop ps s)) p"
  using assms
proof (induction ps s rule: port_loop.induct)
  case (2 q qs s)
  then show ?case
    using port_step_ok [of s q] port_step_keeps [of s p q] by fastforce
qed simp

lemma port_loop_shows:
  assumes "ports_ok s" "objects_only s" "\<forall>p \<in> set ps. \<exists>kvs. p = JObj kvs"
    "distinct (map port_key ps)" "p \<in> set ps"
  shows "snd (port_loop ps s) = None \<and> shows_counters (fst (port_loop ps s)) p"
  using assms
proof (induction ps s rule: port_loop.induct)
  case (2 q qs s)
  then obtain kvs where q: "q = JObj kvs" by auto
  note ok = port_step_ok [OF "2.prems"(1), of q] port_step_objects [OF "2.prems"(2), of kvs]
  show ?case
  proof (cases "p = q")
    case True
    have "snd (port_loop qs t) = None" if "\<forall>p \<in> set qs. \<exists>kvs. p = JObj kvs" for qs t
      using that by (induction qs t rule: port_loop.induct) auto
    then show ?thesis
      using True q 2 port_loop_keeps [OF ok(1) port_step_shows [OF "2.prems"(1,2), of kvs, folded q]]
      by auto
  next
    case False
    with 2 q ok show ?thesis by auto
  qed
qed simp

section \<open>Properties\<close>

text \<open>
  C4: In every state the popup can reach, whatever the order of timers, port answers and
  features answers and whichever handlers threw, the array and the map of the ports are in
  step, and no two rows show the same port.
\<close>

theorem ports_popup_invariant:
  assumes "run_events ports_step (CntlPorts i) es = Some q"
  shows "let s = p_scope (poll q) in ports_ok s \<and>
    (\<forall>r r'. r \<in> set (ports s) \<and> r' \<in> set (ports s) \<and> truthy (port_heap s r) \<and> truthy (port_heap s r') \<and>
       port_key (the (port_heap s r)) = port_key (the (port_heap s r')) \<longrightarrow> r = r')"
proof -
  have "ports_ok (p_scope (poll q))"
    by (rule run_events_invariant [where I = "\<lambda>p. ports_ok (p_scope (poll p))", OF _ CntlPorts_ok assms])
      (rule ports_step_ok)
  then show ?thesis using ports_ok_unique unfolding Let_def by blast
qed

theorem ports_popup_invariant_witness:
  "\<exists>q. run_events ports_step (CntlPorts ''1'') [Poll PTimer, Poll PFails] = Some q \<and> ports_ok (p_scope (poll q))"
proof -
  obtain q where q: "run_events ports_step (CntlPorts ''1'') [Poll PTimer, Poll PFails] = Some q"
    by (simp add: CntlPorts_def open_popup_def popup_getData_def)
  from ports_popup_invariant [OF q] q show ?thesis by (auto simp: Let_def)
qed

text \<open>
  After an answer that lists port objects with distinct numbers, every listed port has a
  row, and the row shows the eight counters of the answer.
\<close>

theorem port_counters_shown:
  assumes "ports_ok s" "objects_only s" "property data (pt_id s) = Inr (Some (JArr ps))"
    "\<forall>p \<in> set ps. \<exists>kvs. p = JObj kvs" "distinct (map port_key ps)"
  shows "completes (ports_success data s) \<and>
    (\<forall>p \<in> set ps. shows_counters (fst (ports_success data s)) p)"
proof -
  have "ports_success data s = port_loop ps s" using assms(3) by (simp add: ports_success_def)
  moreover have "snd (port_loop ps s) = None"
    using assms(4) by (induction ps s rule: port_loop.induct) auto
  ultimately show ?thesis using port_loop_shows [OF assms(1,2,4,5)] by simp
qed

theorem port_counters_shown_witness:
  "shows_counters (fst (ports_success (Some (JObj [(''1'', JArr [JObj [(''portNumber'', JNum 3)]])])) (port_init ''1'')))
     (JObj [(''portNumber'', JNum 3)])"
  using port_counters_shown [of "port_init ''1''" "Some (JObj [(''1'', JArr [JObj [(''portNumber'', JNum 3)]])])"
      "[JObj [(''portNumber'', JNum 3)]]"]
  by (simp add: ports_ok_def port_init_def objects_only_def)

text \<open>
  A features entry of a shown port writes \<open>DOWN\<close> exactly when its configuration or its
  state says so, otherwise \<open>UP\<close>, followed by the cleaned list of features.
\<close>

theorem feature_status_text:
  assumes "get (Some p) ''config'' = Some (JStr c)" "get (Some p) ''state'' = Some (JStr st)"
    "get (Some p) ''currentFeatures'' = Some (JStr f)" "px = JObj kvs"
  shows "completes (feature_write p px) \<and>
    get (Some (fst (feature_write p px))) ''status'' =
      Some (JStr ((if has_substring ''DOWN'' c \<or> has_substring ''DOWN'' st then ''DOWN '' else ''UP '') @ feature_text f)) \<and>
    get (Some (fst (feature_write p px))) ''name'' = get (Some p) ''name''"
proof -
  let ?d = "has_substring ''DOWN'' c \<or> has_substring ''DOWN'' st"
  have d: "is_down p = Inr ?d"
    using assms(1,2) by (auto simp: is_down_def split: bool.split)
  obtain kvs' where k: "set_status ((if ?d then ''DOWN '' else ''UP '') @ feature_text f) (JObj kvs) = JObj kvs'"
    unfolding set_status_def using set_property_object by blast
  have "get (Some (JObj kvs')) ''status'' = Some (JStr ((if ?d then ''DOWN '' else ''UP '') @ feature_text f))"
    unfolding k [symmetric] set_status_def by (rule get_set_same)
  moreover have "feature_write p px = (set_property ''name'' (get (Some p) ''name'') (JObj kvs'), None)"
    using d assms(3,4) k by (simp add: feature_write_def)
  ultimately show ?thesis by (simp add: get_set_same get_set_other)
qed

theorem feature_status_text_witness:
  "get (Some (fst (feature_write
      (JObj [(''config'', JStr ''''), (''state'', JStr ''LINK_DOWN''), (''currentFeatures'', JStr ''[PF_10_GB]'')])
      (JObj [])))) ''status'' = Some (JStr ''DOWN [10 GB]'')"
proof -
  let ?p = "JObj [(''config'', JStr ''''), (''state'', JStr ''LINK_DOWN''), (''currentFeatures'', JStr ''[PF_10_GB]'')]"
  have g: "get (Some ?p) ''config'' = Some (JStr '''')" "get (Some ?p) ''state'' = Some (JStr ''LINK_DOWN'')"
    "get (Some ?p) ''currentFeatures'' = Some (JStr ''[PF_10_GB]'')"
    by (simp_all add: get_def)
  have "feature_text ''[PF_10_GB]'' = ''[10 GB]''" "has_substring ''DOWN'' ''LINK_DOWN''" by code_simp+
  then show ?thesis
    using feature_status_text [OF g refl, of "[]"] by simp
qed

end
