(* ===== verification/Popups.thy ===== *)
theory Popups
  imports Flows Ports Details
begin

text \<open>
  The popups of the tables (\<open>showPortsPopup\<close>, \<open>showFlowsPopup\<close>, \<open>showSwitchDescPopup\<close> and the
  three detail popups of the virtual network tables): a hidden block is cloned, gets the
  template that starts the popup's controller in a new child scope, and becomes a dialog. Only
  the dialogs with a \<open>close\<close> callback tell the controller to stop.
\<close>

datatype close_callback = StopPolling | NoCallback

record dialog_request =
  hidden_block :: string
  tpl :: string
  scope_id :: string
  dlg_title :: string
  dlg_width :: nat
  dlg_maxHeight :: "nat option"
  dlg_close :: close_callback

definition showPortsPopup :: "string \<Rightarrow> dialog_request" where
  "showPortsPopup i = \<lparr>hidden_block = ''#hiddens>div.ports'', tpl = ''tpl/ports.html'', scope_id = i,
     dlg_title = ''Ports of the switch '' @ i, dlg_width = 800, dlg_maxHeight = None,
     dlg_close = StopPolling\<rparr>"

definition showSwitchDescPopup :: "string \<Rightarrow> dialog_request" where
  "showSwitchDescPopup i = \<lparr>hidden_block = ''#hiddens>div.switch_desc'', tpl = ''tpl/switch_desc.html'',
     scope_id = i, dlg_title = ''Switch Description for '' @ i, dlg_width = 600,
     dlg_maxHeight = None, dlg_close = NoCallback\<rparr>"

definition showFlowsPopup :: "string \<Rightarrow> dialog_request" where
  "showFlowsPopup i = \<lparr>hidden_block = ''#hiddens>div.flows'', tpl = ''tpl/switch_flows.html'',
     scope_id = i, dlg_title = ''Flow Records of switch '' @ i, dlg_width = 1000,
     dlg_maxHeight = Some 600, dlg_close = StopPolling\<rparr>"

definition showVNetworkDetailPopup :: "string \<Rightarrow> dialog_request" where
  "showVNetworkDetailPopup i = \<lparr>hidden_block = ''#hiddens>div.vNetwork_detail'',
     tpl = ''tpl/vnetwork_detail.html'', scope_id = i,
     dlg_title = ''vNetwork Detail Infomation for '' @ i, dlg_width = 800, dlg_maxHeight = None,
     dlg_close = StopPolling\<rparr>"

definition showVSubnetDetailPopup :: "string \<Rightarrow> dialog_request" where
  "showVSubnetDetailPopup i = \<lparr>hidden_block = ''#hiddens>div.vSubnet_detail'',
     tpl = ''tpl/vsubnet_detail.html'', scope_id = i,
     dlg_title = ''vSubnet Detail Infomation for '' @ i, dlg_width = 800, dlg_maxHeight = None,
     dlg_close = StopPolling\<rparr>"

definition showVPortDetailPopup :: "string \<Rightarrow> dialog_request" where
  "showVPortDetailPopup i = \<lparr>hidden_block = ''#hiddens>div.vPort_detail'',
     tpl = ''tpl/vport_detail.html'', scope_id = i,
     dlg_title = ''vPort Detail Infomation for '' @ i, dlg_width = 800, dlg_maxHeight = None,
     dlg_close = StopPolling\<rparr>"

text \<open>Closing the dialog runs its callback, if it has one, on the child scope.\<close>

definition close_dialog :: "dialog_request \<Rightarrow> 's popup \<Rightarrow> 's popup" where
  "close_dialog d p = (case dlg_close d of StopPolling \<Rightarrow> p\<lparr>goon := False\<rparr> | NoCallback \<Rightarrow> p)"

section \<open>A closed popup stops polling\<close>

lemma close_dialog_stops:
  assumes "dlg_close d = StopPolling"
    "run_events (popup_step su fa st) (close_dialog d p) es = Some q" "popup_inv p"
  shows "issued q \<le> Suc (issued p)"
proof -
  have "\<not> goon (close_dialog d p)" "issued (close_dialog d p) = issued p" "p_timers (close_dialog d p) \<le> 1"
    using assms(1,3) by (auto simp: close_dialog_def popup_inv_def)
  with popup_run_closed [OF assms(2)] show ?thesis by simp
qed

lemma popup_inv_scope [simp]: "popup_inv (p\<lparr>p_scope := s\<rparr>) = popup_inv p"
  by (simp add: popup_inv_def)

lemma ports_run_invariant:
  assumes "run_events ports_step p es = Some q" "popup_inv (poll p)" "ports_ok (p_scope (poll p))"
  shows "popup_inv (poll q) \<and> ports_ok (p_scope (poll q))"
proof (rule run_events_invariant [OF _ _ assms(1)])
  show "popup_inv (poll p) \<and> ports_ok (p_scope (poll p))" using assms(2,3) by simp
next
  fix a e b
  assume a: "popup_inv (poll a) \<and> ports_ok (p_scope (poll a))" "ports_step a e = Some b"
  then have "popup_inv (poll b)"
    by (cases e) (auto dest: popup_step_inv split: option.splits if_splits)
  with a ports_step_ok show "popup_inv (poll b) \<and> ports_ok (p_scope (poll b))" by blast
qed

lemma CntlPorts_inv: "popup_inv (poll (CntlPorts i))"
  by (simp add: CntlPorts_def popup_inv_def open_popup_def popup_getData_def)

text \<open>
  Once the popup is closed, an answered port request still sends its features request; every one of
  them uses up a port request that was open, or the one that the last timer sends.
\<close>

definition features_bound :: "ports_page \<Rightarrow> nat" where
  "features_bound p = features_issued p + p_inflight (poll p) + p_timers (poll p)"

lemma features_started_le: "features_started s e \<le> (case e of PSucceeds d \<Rightarrow> 1 | _ \<Rightarrow> 0)"
  by (cases e) (simp_all add: features_started_def)

lemma popup_step_inflight:
  assumes "\<not> goon p" and "popup_step su fa st p e = Some q"
  shows "(case e of PSucceeds d \<Rightarrow> 1 | _ \<Rightarrow> 0) + p_inflight q + p_timers q \<le> p_inflight p + p_timers p"
  using assms by (cases e) (auto simp: popup_getData_def Let_def split: if_splits)

lemma ports_step_closed:
  assumes "\<not> goon (poll p)" "ports_step p e = Some q"
  shows "\<not> goon (poll q)" and "issued (poll q) + p_timers (poll q) = issued (poll p) + p_timers (poll p)"
    and "features_bound q \<le> features_bound p"
proof -
  show "\<not> goon (poll q)" "issued (poll q) + p_timers (poll q) = issued (poll p) + p_timers (poll p)"
    using assms by (cases e; auto dest: popup_step_closed split: option.splits if_splits)+
  show "features_bound q \<le> features_bound p"
  proof (cases e)
    case (Poll pe)
    then obtain r where r: "popup_step ports_success clear_ports clear_ports (poll p) pe = Some r"
      "q = p\<lparr>poll := r, feature_requests := feature_requests p + features_started (p_scope (poll p)) pe,
         features_issued := features_issued p + features_started (p_scope (poll p)) pe\<rparr>"
      using assms(2) by (auto split: option.splits)
    show ?thesis
      using popup_step_inflight [OF assms(1) r(1)] features_started_le [of "p_scope (poll p)" pe]
      by (simp add: features_bound_def r(2))
  qed (use assms(2) in \<open>auto simp: features_bound_def split: if_splits\<close>)
qed

lemma ports_run_closed:
  assumes "run_events ports_step p es = Some q" "\<not> goon (poll p)"
  shows "\<not> goon (poll q) \<and> issued (poll q) + p_timers (poll q) = issued (poll p) + p_timers (poll p) \<and>
    features_bound q \<le> features_bound p"
proof (rule run_events_invariant [OF _ _ assms(1)])
  show "\<not> goon (poll p) \<and> issued (poll p) + p_timers (poll p) = issued (poll p) + p_timers (poll p) \<and>
      features_bound p \<le> features_bound p"
    using assms(2) by simp
next
  fix a e b
  assume a: "\<not> goon (poll a) \<and> issued (poll a) + p_timers (poll a) = issued (poll p) + p_timers (poll p) \<and>
      features_bound a \<le> features_bound p" "ports_step a e = Some b"
  show "\<not> goon (poll b) \<and> issued (poll b) + p_timers (poll b) = issued (poll p) + p_timers (poll p) \<and>
      features_bound b \<le> features_bound p"
    using a(1) ports_step_closed [OF _ a(2)] by simp
qed

section \<open>Properties\<close>

text \<open>
  C12: After the dialog of a switch's flow records is closed at most one more request is sent, whatever
  happens later. After the dialog of its ports is closed at most one more request for the ports is
  sent, and at most one for the features per request for the ports that was still open or is that last one.
\<close>

theorem closed_popups_stop:
  assumes "run_events CntlFlows_step (CntlFlows i) es = Some p"
    "run_events CntlFlows_step (close_dialog (showFlowsPopup i) p) fs = Some q"
    "run_events ports_step (CntlPorts i) es' = Some p'"
    "run_events ports_step (p'\<lparr>poll := close_dialog (showPortsPopup i) (poll p')\<rparr>) fs' = Some q'"
  shows "issued q \<le> Suc (issued p) \<and> issued (poll q') \<le> Suc (issued (poll p')) \<and>
    features_issued q' \<le> Suc (features_issued p' + p_inflight (poll p'))"
proof -
  have "popup_inv p"
    by (rule popup_open_run_inv [OF assms(1) [unfolded CntlFlows_def CntlFlows_step_def]])
  then have "issued q \<le> Suc (issued p)"
    using close_dialog_stops [OF _ assms(2) [unfolded CntlFlows_step_def]] by (simp add: showFlowsPopup_def)
  moreover have "popup_inv (poll p')"
    using ports_run_invariant [OF assms(3) CntlPorts_inv CntlPorts_ok] by blast
  then have "issued (poll q') \<le> Suc (issued (poll p')) \<and>
      features_issued q' \<le> Suc (features_issued p' + p_inflight (poll p'))"
    using ports_run_closed [OF assms(4)]
    by (simp add: close_dialog_def showPortsPopup_def popup_inv_def features_bound_def)
  ultimately show ?thesis by simp
qed

text \<open>The bound for the features is reached: two requests were open or due when the dialog was closed.\<close>

definition closed_ports_run :: "ports_page option" where
  "closed_ports_run = Option.bind (run_events ports_step (CntlPorts ''1'') [])
     (\<lambda>p. run_events ports_step (p\<lparr>poll := close_dialog (showPortsPopup ''1'') (poll p)\<rparr>)
        [Poll PTimer, Poll (PSucceeds (Some (JObj [(''1'', JArr [])]))), Poll (PSucceeds (Some (JObj [(''1'', JArr [])])))])"

theorem closed_popups_stop_witness:
  "\<exists>p q p' q'. run_events CntlFlows_step (CntlFlows ''1'') [PFails] = Some p \<and>
     run_events CntlFlows_step (close_dialog (showFlowsPopup ''1'') p) [PTimer] = Some q \<and>
     run_events ports_step (CntlPorts ''1'') [Poll PTimer] = Some p' \<and>
     run_events ports_step (p'\<lparr>poll := close_dialog (showPortsPopup ''1'') (poll p')\<rparr>) [Poll PTimer] = Some q' \<and>
     issued q \<le> Suc (issued p) \<and> issued (poll q') \<le> Suc (issued (poll p')) \<and> features_issued q' \<le> 3"
proof -
  obtain p where p: "run_events CntlFlows_step (CntlFlows ''1'') [PFails] = Some p" "p_timers p = 1"
    by (simp add: CntlFlows_def CntlFlows_step_def open_popup_def popup_getData_def)
  obtain q where q: "run_events CntlFlows_step (close_dialog (showFlowsPopup ''1'') p) [PTimer] = Some q"
    using p(2) by (simp add: CntlFlows_step_def close_dialog_def showFlowsPopup_def)
  obtain p' where p': "run_events ports_step (CntlPorts ''1'') [Poll PTimer] = Some p'" "p_timers (poll p') = 1"
    "features_issued p' = 0" "p_inflight (poll p') = 2"
    by (simp add: CntlPorts_def open_popup_def popup_getData_def features_started_def)
  obtain q' where q':
    "run_events ports_step (p'\<lparr>poll := close_dialog (showPortsPopup ''1'') (poll p')\<rparr>) [Poll PTimer] = Some q'"
    using p'(2) by (simp add: close_dialog_def showPortsPopup_def)
  have "issued q \<le> Suc (issued p) \<and> issued (poll q') \<le> Suc (issued (poll p')) \<and>
      features_issued q' \<le> Suc (features_issued p' + p_inflight (poll p'))"
    by (rule closed_popups_stop [OF p(1) q p'(1) q'])
  then have "issued q \<le> Suc (issued p)" "issued (poll q') \<le> Suc (issued (poll p'))" "features_issued q' \<le> 3"
    using p'(3,4) by simp_all
  then show ?thesis using p(1) q p'(1) q' by metis
qed

lemma closed_ports_bound_reached: "map_option features_issued closed_ports_run = Some 2"
  by code_simp

end
