(* ===== verification/Distances.thy ===== *)
theory Distances
  imports Json
begin

text \<open>
  \<open>iris.minimumDistances\<close>, \<open>centerEstimate\<close> and \<open>networkWidth\<close> of
  \<open>web/js/controllers/topology.js\<close>: the table of hop counts between the nodes of the
  topology, computed in place by the Floyd-Warshall algorithm over entries that may be
  \<open>undefined\<close>. Nodes are given by their ids and links by the ids of their endpoints, which is
  all the routine reads of them. The array is used as an object with the ids as keys: an
  association list of rows, each an association list of entries.
\<close>

section \<open>The routine\<close>

type_synonym dist_row = "(string \<times> nat option) list"
type_synonym dist_table = "(string \<times> dist_row) list"

text \<open>\<open>arr[a][b] = v\<close> and \<open>arr[a][b]\<close> throw when the row is \<open>undefined\<close>.\<close>

definition write_entry :: "string \<Rightarrow> string \<Rightarrow> nat option \<Rightarrow> dist_table \<Rightarrow> dist_table js" where
  "write_entry a b v arr =
     (case map_of arr a of None \<Rightarrow> Inl TypeError
      | Some row \<Rightarrow> Inr (AList.update a (AList.update b v row) arr))"

definition read_entry :: "string \<Rightarrow> string \<Rightarrow> dist_table \<Rightarrow> nat option js" where
  "read_entry a b arr =
     (case map_of arr a of None \<Rightarrow> Inl TypeError
      | Some row \<Rightarrow> Inr (case map_of row b of None \<Rightarrow> None | Some v \<Rightarrow> v))"

definition init_row :: "string \<Rightarrow> dist_table \<Rightarrow> dist_table" where
  "init_row i arr = AList.update i [(i, Some 0)] arr"

definition set_link :: "string \<times> string \<Rightarrow> dist_table \<Rightarrow> dist_table js" where
  "set_link l arr = (case l of (s, t) \<Rightarrow>
     (case write_entry s t (Some 1) arr of Inl e \<Rightarrow> Inl e | Inr arr' \<Rightarrow> write_entry t s (Some 1) arr'))"

fun sum_dist :: "nat option \<Rightarrow> nat option \<Rightarrow> nat option" where
  "sum_dist (Some a) (Some b) = Some (a + b)"
| "sum_dist _ _ = None"

fun min_dist :: "nat option \<Rightarrow> nat option \<Rightarrow> nat option" where
  "min_dist None b = b"
| "min_dist a None = a"
| "min_dist (Some a) (Some b) = Some (if a \<le> b then a else b)"

definition relax :: "string \<Rightarrow> string \<Rightarrow> string \<Rightarrow> dist_table \<Rightarrow> dist_table js" where
  "relax k i j arr =
     (case read_entry i j arr of Inl e \<Rightarrow> Inl e | Inr dij \<Rightarrow>
      (case read_entry i k arr of Inl e \<Rightarrow> Inl e | Inr dik \<Rightarrow>
       (case read_entry k j arr of Inl e \<Rightarrow> Inl e | Inr dkj \<Rightarrow>
          write_entry i j (min_dist dij (sum_dist dik dkj)) arr)))"

definition floyd_warshall :: "string list \<Rightarrow> dist_table \<Rightarrow> dist_table js" where
  "floyd_warshall ids =
     fold_js (\<lambda>k. fold_js (\<lambda>i. fold_js (\<lambda>j. relax k i j) ids) ids) ids"

definition minimumDistances :: "string list \<Rightarrow> (string \<times> string) list \<Rightarrow> dist_table js" where
  "minimumDistances ids links =
     (case fold_js set_link links (fold init_row ids []) of Inl e \<Rightarrow> Inl e
      | Inr arr \<Rightarrow> floyd_warshall ids arr)"

text \<open>An entry that is \<open>undefined\<close> is not greater than anything.\<close>

definition greater :: "nat option \<Rightarrow> nat \<Rightarrow> bool" where
  "greater v m = (case v of None \<Rightarrow> False | Some d \<Rightarrow> m < d)"

fun row_max :: "dist_row \<Rightarrow> nat \<Rightarrow> nat" where
  "row_max [] m = m"
| "row_max ((_, v) # r) m = row_max r (if greater v m then the v else m)"

definition centerEstimate :: "dist_table \<Rightarrow> string \<Rightarrow> nat" where
  "centerEstimate wTable i = (case map_of wTable i of None \<Rightarrow> 0 | Some arr \<Rightarrow> row_max arr 0)"

definition networkWidth :: "dist_table \<Rightarrow> nat" where
  "networkWidth wTable = fold (\<lambda>r m. row_max (snd r) m) wTable 0"

section \<open>The table as a function\<close>

definition entry :: "dist_table \<Rightarrow> string \<Rightarrow> string \<Rightarrow> nat option" where
  "entry arr a b = (case map_of arr a of None \<Rightarrow> None
     | Some row \<Rightarrow> (case map_of row b of None \<Rightarrow> None | Some v \<Rightarrow> v))"

definition row_keys :: "dist_table \<Rightarrow> string set" where
  "row_keys arr = dom (map_of arr)"

definition set_entry :: "string \<Rightarrow> string \<Rightarrow> nat option \<Rightarrow> dist_table \<Rightarrow> dist_table" where
  "set_entry a b v arr = AList.update a (AList.update b v (the (map_of arr a))) arr"

lemma write_entry_eq: "a \<in> row_keys arr \<Longrightarrow> write_entry a b v arr = Inr (set_entry a b v arr)"
  by (auto simp: write_entry_def set_entry_def row_keys_def)

lemma write_entry_throws: "a \<notin> row_keys arr \<Longrightarrow> write_entry a b v arr = Inl TypeError"
  by (auto simp: write_entry_def row_keys_def domIff)

lemma read_entry_eq: "a \<in> row_keys arr \<Longrightarrow> read_entry a b arr = Inr (entry arr a b)"
  by (auto simp: read_entry_def entry_def row_keys_def)

lemma row_keys_set [simp]: "row_keys (set_entry a b v arr) = insert a (row_keys arr)"
  by (simp add: row_keys_def set_entry_def update_conv')

lemma entry_set:
  "a \<in> row_keys arr \<Longrightarrow>
   entry (set_entry a b v arr) x y = (if x = a \<and> y = b then v else entry arr x y)"
  by (auto simp: entry_def set_entry_def row_keys_def update_conv' split: option.splits)

lemma row_keys_init: "row_keys (fold init_row ids arr) = row_keys arr \<union> set ids"
  by (induction ids arbitrary: arr) (auto simp: init_row_def row_keys_def update_conv' split: if_splits)

lemma entry_init:
  "entry (fold init_row ids arr) a b =
     (if a \<in> set ids then (if a = b then Some 0 else None) else entry arr a b)"
  by (induction ids arbitrary: arr) (auto simp: init_row_def entry_def update_conv' split: if_splits)

definition relaxed :: "string \<Rightarrow> string \<Rightarrow> string \<Rightarrow> dist_table \<Rightarrow> dist_table" where
  "relaxed k i j arr =
     set_entry i j (min_dist (entry arr i j) (sum_dist (entry arr i k) (entry arr k j))) arr"

lemma relax_eq:
  "\<lbrakk>i \<in> row_keys arr; k \<in> row_keys arr\<rbrakk> \<Longrightarrow> relax k i j arr = Inr (relaxed k i j arr)"
  by (simp add: relax_def relaxed_def read_entry_eq write_entry_eq)

definition phase :: "string list \<Rightarrow> string \<Rightarrow> dist_table \<Rightarrow> dist_table" where
  "phase ids k = fold (\<lambda>i. fold (\<lambda>j. relaxed k i j) ids) ids"

lemma floyd_warshall_eq:
  assumes "set ids \<subseteq> row_keys arr"
  shows "floyd_warshall ids arr = Inr (fold (phase ids) ids arr) \<and>
    set ids \<subseteq> row_keys (fold (phase ids) ids arr)"
proof -
  let ?I = "\<lambda>arr. set ids \<subseteq> row_keys arr"
  have inner: "fold_js (\<lambda>j. relax k i j) ids a = Inr (fold (\<lambda>j. relaxed k i j) ids a) \<and>
      ?I (fold (\<lambda>j. relaxed k i j) ids a)"
    if "k \<in> set ids" "i \<in> set ids" "?I a" for k i a
  proof (rule fold_js_total [where I = ?I])
    fix j b assume "?I b"
    then have "i \<in> row_keys b" "k \<in> row_keys b" using that by auto
    with \<open>?I b\<close> show "relax k i j b = Inr (relaxed k i j b) \<and> ?I (relaxed k i j b)"
      by (auto simp: relax_eq relaxed_def)
  qed (rule that(3))
  have middle: "fold_js (\<lambda>i. fold_js (\<lambda>j. relax k i j) ids) ids a = Inr (phase ids k a) \<and> ?I (phase ids k a)"
    if "k \<in> set ids" "?I a" for k a
    unfolding phase_def by (rule fold_js_total [where I = ?I]) (use that inner in blast)+
  show ?thesis
    unfolding floyd_warshall_def by (rule fold_js_total [where I = ?I]) (use assms middle in blast)+
qed

section \<open>Links and walks\<close>

definition adjacent :: "(string \<times> string) list \<Rightarrow> string \<Rightarrow> string \<Rightarrow> bool" where
  "adjacent links a b \<longleftrightarrow> (a, b) \<in> set links \<or> (b, a) \<in> set links"

definition endpoints :: "(string \<times> string) list \<Rightarrow> string set" where
  "endpoints links = fst ` set links \<union> snd ` set links"

lemma set_link_eq:
  assumes "s \<in> row_keys arr" "t \<in> row_keys arr"
  shows "set_link (s, t) arr = Inr (set_entry t s (Some 1) (set_entry s t (Some 1) arr))"
  using assms by (simp add: set_link_def write_entry_eq)

lemma set_link_throws:
  assumes "s \<notin> row_keys arr \<or> t \<notin> row_keys arr"
  shows "set_link (s, t) arr = Inl TypeError"
proof (cases "s \<in> row_keys arr")
  case True
  with assms have "t \<notin> row_keys (set_entry s t (Some 1) arr)" by auto
  with True show ?thesis by (simp add: set_link_def write_entry_eq write_entry_throws)
qed (simp add: set_link_def write_entry_throws)

lemma if_cases_or: "(if p then x else if q \<or> r then x else y) = (if p \<or> q \<or> r then x else y)"
  by simp

lemma set_links:
  assumes "endpoints links \<subseteq> row_keys arr"
  shows "\<exists>arr'. fold_js set_link links arr = Inr arr' \<and> row_keys arr' = row_keys arr \<and>
    (\<forall>a b. entry arr' a b = (if adjacent links a b then Some 1 else entry arr a b))"
  using assms
proof (induction links arbitrary: arr)
  case Nil
  then show ?case by (simp add: adjacent_def)
next
  case (Cons l links)
  obtain s t where l: "l = (s, t)" by force
  let ?arr = "set_entry t s (Some 1) (set_entry s t (Some 1) arr)"
  have keys: "s \<in> row_keys arr" "t \<in> row_keys arr" "endpoints links \<subseteq> row_keys ?arr"
    using Cons.prems l by (auto simp: endpoints_def)
  obtain arr' where arr': "fold_js set_link links ?arr = Inr arr'" "row_keys arr' = row_keys ?arr"
    "\<forall>a b. entry arr' a b = (if adjacent links a b then Some 1 else entry ?arr a b)"
    using Cons.IH [OF keys(3)] by blast
  have r: "row_keys ?arr = row_keys arr" using keys(1,2) by auto
  have t_row: "t \<in> row_keys (set_entry s t (Some 1) arr)" using keys(2) by simp
  have f: "fold_js set_link (l # links) arr = Inr arr'"
    using arr'(1) keys l by (simp only: fold_js.simps set_link_eq sum.case)
  have e: "entry arr' a b = (if adjacent (l # links) a b then Some 1 else entry arr a b)" for a b
  proof -
    have e1: "entry ?arr a b = (if (a, b) = (s, t) \<or> (b, a) = (s, t) then Some 1 else entry arr a b)"
      unfolding entry_set [OF t_row] entry_set [OF keys(1)] prod.inject by argo
    have e2: "adjacent (l # links) a b \<longleftrightarrow> adjacent links a b \<or> (a, b) = (s, t) \<or> (b, a) = (s, t)"
      using l by (auto simp: adjacent_def)
    have e3: "entry arr' a b = (if adjacent links a b then Some 1 else entry ?arr a b)"
      using arr'(3) by blast
    show ?thesis unfolding e3 e2 e1 by (rule if_cases_or)
  qed
  show ?case
    by (intro exI [of _ arr'] conjI allI, rule f, simp only: arr'(2) r, rule e)
qed

lemma set_links_throws:
  assumes "\<not> endpoints links \<subseteq> row_keys arr"
  shows "fold_js set_link links arr = Inl TypeError"
  using assms
proof (induction links arbitrary: arr)
  case Nil
  then show ?case by (simp add: endpoints_def)
next
  case (Cons l links)
  obtain s t where l: "l = (s, t)" by force
  show ?case
  proof (cases "s \<in> row_keys arr \<and> t \<in> row_keys arr")
    case True
    let ?arr = "set_entry t s (Some 1) (set_entry s t (Some 1) arr)"
    have "row_keys ?arr = row_keys arr" using True by auto
    then have "\<not> endpoints links \<subseteq> row_keys ?arr" using Cons.prems True l by (auto simp: endpoints_def)
    from Cons.IH [OF this] show ?thesis using True l by (simp add: set_link_eq)
  next
    case False
    then show ?thesis using set_link_throws l by auto
  qed
qed

text \<open>The number of hops of a walk along the links, in either direction.\<close>

inductive walk :: "(string \<times> string) list \<Rightarrow> string \<Rightarrow> nat \<Rightarrow> string \<Rightarrow> bool" for links where
  here: "walk links a 0 a"
| hop: "adjacent links a b \<Longrightarrow> walk links b n c \<Longrightarrow> walk links a (Suc n) c"

inductive_cases walk_zeroE: "walk links a 0 b"

lemma walk_append: "walk links a m b \<Longrightarrow> walk links b n c \<Longrightarrow> walk links a (m + n) c"
  by (induction rule: walk.induct) (auto intro: walk.intros)

lemma walk_one: "adjacent links a b \<Longrightarrow> walk links a 1 b"
  using walk.hop [OF _ walk.here] by simp

section \<open>Correctness\<close>

text \<open>\<open>at_most v n\<close>: a distance is known and is at most \<open>n\<close>.\<close>

definition at_most :: "nat option \<Rightarrow> nat \<Rightarrow> bool" where
  "at_most v n \<longleftrightarrow> (\<exists>d \<le> n. v = Some d)"

lemma at_most_min: "at_most (min_dist a b) n \<longleftrightarrow> at_most a n \<or> at_most b n"
  by (cases "(a, b)" rule: min_dist.cases) (auto simp: at_most_def)

lemma at_most_sum: "at_most a m \<Longrightarrow> at_most b n \<Longrightarrow> at_most (sum_dist a b) (m + n)"
  by (auto simp: at_most_def add_mono)

lemma sum_Some: "sum_dist a b = Some d \<longleftrightarrow> (\<exists>m n. a = Some m \<and> b = Some n \<and> d = m + n)"
  by (cases "(a, b)" rule: sum_dist.cases) auto

lemma min_Some: "min_dist a b = Some d \<Longrightarrow> a = Some d \<or> b = Some d"
  by (cases "(a, b)" rule: min_dist.cases) (auto split: if_splits)

text \<open>Every entry is the length of a walk.\<close>

definition sound :: "(string \<times> string) list \<Rightarrow> dist_table \<Rightarrow> bool" where
  "sound links arr \<longleftrightarrow> (\<forall>a b d. entry arr a b = Some d \<longrightarrow> walk links a d b)"

lemma relaxed_sound:
  assumes "sound links arr" "i \<in> row_keys arr"
  shows "sound links (relaxed k i j arr)"
  unfolding sound_def relaxed_def entry_set [OF assms(2)]
proof (intro allI impI)
  fix a b d
  assume e: "(if a = i \<and> b = j then min_dist (entry arr i j) (sum_dist (entry arr i k) (entry arr k j))
    else entry arr a b) = Some d"
  show "walk links a d b"
  proof (cases "a = i \<and> b = j")
    case True
    with e min_Some consider "entry arr i j = Some d"
      | m n where "entry arr i k = Some m" "entry arr k j = Some n" "d = m + n"
      using sum_Some min_Some [of "entry arr i j" "sum_dist (entry arr i k) (entry arr k j)" d] by auto
    then show ?thesis
    proof cases
      case 1
      then show ?thesis using assms(1) True by (simp add: sound_def)
    next
      case 2
      then have "walk links i m k" "walk links k n j" using assms(1) by (simp_all add: sound_def)
      then show ?thesis using walk_append 2(3) True by simp
    qed
  next
    case False
    with e assms(1) show ?thesis unfolding sound_def by auto
  qed
qed

text \<open>A relaxation never loses a bound, and gains the one through \<open>k\<close>.\<close>

lemma relaxed_at_most:
  assumes "at_most (entry arr a b) n" "i \<in> row_keys arr"
  shows "at_most (entry (relaxed k i j arr) a b) n"
  using assms by (auto simp: relaxed_def entry_set at_most_min)

lemma relaxed_gain:
  assumes "at_most (entry arr i k) m" "at_most (entry arr k j) n" "i \<in> row_keys arr"
  shows "at_most (entry (relaxed k i j arr) i j) (m + n)"
  using assms by (auto simp: relaxed_def entry_set at_most_min at_most_sum)

lemma row_keys_relaxed: "i \<in> row_keys arr \<Longrightarrow> row_keys (relaxed k i j arr) = row_keys arr"
  by (auto simp: relaxed_def)

lemma fold_preserves:
  assumes "\<And>x s. x \<in> set xs \<Longrightarrow> P s \<Longrightarrow> P (f x s)" "P s"
  shows "P (fold f xs s)"
  using assms by (induction xs arbitrary: s) auto

lemma fold_gains:
  assumes P: "\<And>x s. x \<in> set xs \<Longrightarrow> P s \<Longrightarrow> P (f x s)" "P s"
    and gain: "\<And>s. P s \<Longrightarrow> Q (f y s)" "y \<in> set xs"
    and keep: "\<And>x s. x \<in> set xs \<Longrightarrow> P s \<Longrightarrow> Q s \<Longrightarrow> Q (f x s)"
  shows "Q (fold f xs s)"
proof -
  obtain ys zs where xs: "xs = ys @ y # zs" using gain(2) by (auto simp: in_set_conv_decomp)
  have "P (fold f ys s)" by (rule fold_preserves) (use P xs in auto)
  then have "P (f y (fold f ys s)) \<and> Q (f y (fold f ys s))" using P xs gain by auto
  then have "P (fold f zs (f y (fold f ys s))) \<and> Q (fold f zs (f y (fold f ys s)))"
    by (rule fold_preserves [where P = "\<lambda>s. P s \<and> Q s", rotated]) (use P(1) keep xs in auto)
  then show ?thesis using xs by simp
qed

text \<open>Every key occurs once, as in an object.\<close>

definition keys_distinct :: "dist_table \<Rightarrow> bool" where
  "keys_distinct arr \<longleftrightarrow> distinct (map fst arr) \<and> (\<forall>r \<in> set arr. distinct (map fst (snd r)))"

lemma keys_distinct_update:
  assumes "keys_distinct arr" "distinct (map fst row)"
  shows "keys_distinct (AList.update a row arr)"
proof -
  have "set (AList.update a row arr) \<subseteq> insert (a, row) (set arr)"
    by (induction arr) auto
  with assms show ?thesis unfolding keys_distinct_def by (fastforce intro: distinct_update)
qed

lemma keys_distinct_set:
  assumes "keys_distinct arr" "a \<in> row_keys arr"
  shows "keys_distinct (set_entry a b v arr)"
proof -
  obtain row where row: "map_of arr a = Some row" using assms(2) by (auto simp: row_keys_def)
  then have "distinct (map fst row)"
    using assms(1) map_of_SomeD [OF row] unfolding keys_distinct_def by fastforce
  then show ?thesis
    using assms(1) row by (simp add: set_entry_def keys_distinct_update distinct_update)
qed

definition table_for :: "string list \<Rightarrow> (string \<times> string) list \<Rightarrow> dist_table \<Rightarrow> bool" where
  "table_for ids links arr \<longleftrightarrow> row_keys arr = set ids \<and> keys_distinct arr \<and> sound links arr"

lemma relaxed_table:
  assumes "i \<in> set ids" "table_for ids links arr"
  shows "table_for ids links (relaxed k i j arr)"
proof -
  have "i \<in> row_keys arr" using assms by (auto simp: table_for_def)
  then show ?thesis
    using assms(2) keys_distinct_set [of arr i]
    by (simp add: table_for_def row_keys_relaxed relaxed_sound) (simp add: relaxed_def)
qed

lemma row_table:
  "i \<in> set ids \<Longrightarrow> table_for ids links arr \<Longrightarrow> table_for ids links (fold (\<lambda>j. relaxed k i j) js arr)"
  by (rule fold_preserves) (rule relaxed_table)

lemma relaxed_keeps:
  assumes "i \<in> set ids" "table_for ids links arr \<and> at_most (entry arr a b) n"
  shows "table_for ids links (relaxed k i j arr) \<and> at_most (entry (relaxed k i j arr) a b) n"
proof -
  have "i \<in> row_keys arr" using assms by (auto simp: table_for_def)
  then show ?thesis using assms relaxed_table relaxed_at_most by simp
qed

lemma row_keeps:
  assumes "i \<in> set ids" "table_for ids links arr \<and> at_most (entry arr a b) n"
  shows "table_for ids links (fold (\<lambda>j. relaxed k i j) js arr) \<and>
    at_most (entry (fold (\<lambda>j. relaxed k i j) js arr) a b) n"
  by (rule fold_preserves [where P = "\<lambda>s. table_for ids links s \<and> at_most (entry s a b) n"])
    (rule relaxed_keeps [OF assms(1)], assumption, rule assms(2))

lemma phase_keeps:
  assumes "table_for ids links arr \<and> at_most (entry arr a b) n"
  shows "table_for ids links (phase ids k arr) \<and> at_most (entry (phase ids k arr) a b) n"
  unfolding phase_def
  by (rule fold_preserves [where P = "\<lambda>s. table_for ids links s \<and> at_most (entry s a b) n"])
    (rule row_keeps, assumption, assumption, rule assms)

lemma phase_table: "table_for ids links arr \<Longrightarrow> table_for ids links (phase ids k arr)"
  unfolding phase_def by (rule fold_preserves) (rule row_table)

lemma phase_gains:
  assumes ij: "i \<in> set ids" "j \<in> set ids"
    and start: "table_for ids links arr" "at_most (entry arr i k) m" "at_most (entry arr k j) n"
  shows "at_most (entry (phase ids k arr) i j) (m + n)"
proof -
  let ?P = "\<lambda>s. (table_for ids links s \<and> at_most (entry s i k) m) \<and>
                (table_for ids links s \<and> at_most (entry s k j) n)"
  let ?Q = "\<lambda>s. at_most (entry s i j) (m + n)"
  have P1: "?P (relaxed k i' j' s)" if "i' \<in> set ids" "?P s" for i' j' s
    using relaxed_keeps [OF that(1)] that(2) by blast
  have P2: "?P (fold (\<lambda>j. relaxed k i' j) ids s)" if "i' \<in> set ids" "?P s" for i' s
    by (rule fold_preserves [where P = ?P]) (use P1 that in blast)+
  have Q1: "?Q (relaxed k i' j' s)" if "i' \<in> set ids" "?P s" "?Q s" for i' j' s
    using relaxed_keeps [OF that(1)] that(2,3) by blast
  have Q2: "?Q (fold (\<lambda>j. relaxed k i' j) ids s)" if "i' \<in> set ids" "?P s" "?Q s" for i' s
    using row_keeps [OF that(1)] that(2,3) by blast
  have gain: "?Q (relaxed k i j s)" if "?P s" for s
    using that ij(1) by (intro relaxed_gain) (auto simp: table_for_def)
  have row_gain: "?Q (fold (\<lambda>j. relaxed k i j) ids s)" if "?P s" for s
  proof (rule fold_gains [where P = ?P and y = j and f = "\<lambda>j. relaxed k i j"])
    show "?P s" by (rule that)
    show "j \<in> set ids" by (rule ij)
  qed (rule P1 [OF ij(1)] gain Q1 [OF ij(1)]; assumption)+
  show ?thesis
    unfolding phase_def
  proof (rule fold_gains [where P = ?P and y = i and f = "\<lambda>i. fold (\<lambda>j. relaxed k i j) ids"])
    show "?P arr" using start by blast
    show "i \<in> set ids" by (rule ij)
  qed (rule P2 row_gain Q2; assumption)+
qed

text \<open>Walks of at least one hop whose inner nodes lie in a set.\<close>

inductive via :: "(string \<times> string) list \<Rightarrow> string set \<Rightarrow> string \<Rightarrow> nat \<Rightarrow> string \<Rightarrow> bool"
  for links K where
  link: "adjacent links a b \<Longrightarrow> via links K a 1 b"
| through: "via links K a m k \<Longrightarrow> k \<in> K \<Longrightarrow> via links K k n b \<Longrightarrow> via links K a (m + n) b"

definition via_or :: "(string \<times> string) list \<Rightarrow> string set \<Rightarrow> string \<Rightarrow> string \<Rightarrow> nat \<Rightarrow> string \<Rightarrow> bool" where
  "via_or links K k a n b \<longleftrightarrow> via links K a n b \<or>
     (\<exists>m m'. m + m' \<le> n \<and> via links K a m k \<and> via links K k m' b)"

lemma via_orI:
  "via links K a m k \<Longrightarrow> via links K k m' b \<Longrightarrow> m + m' \<le> n \<Longrightarrow> via_or links K k a n b"
  unfolding via_or_def by blast

lemma via_split: "via links (insert k K) a n b \<Longrightarrow> via_or links K k a n b"
proof (induction rule: via.induct)
  case (link a b)
  then show ?case unfolding via_or_def using via.link by blast
next
  case (through a m x n b)
  show ?case
  proof (cases "via links K a m x")
    case l: True
    show ?thesis
    proof (cases "via links K x n b")
      case r: True
      show ?thesis
      proof (cases "x = k")
        case True
        then show ?thesis using via_orI [OF l [unfolded True] r [unfolded True]] by simp
      next
        case False
        then have "x \<in> K" using through.hyps by blast
        then show ?thesis using via.through [OF l _ r] by (simp add: via_or_def)
      qed
    next
      case False
      then obtain p q where pq: "p + q \<le> n" "via links K x p k" "via links K k q b"
        using through.IH(2) by (auto simp: via_or_def)
      have "via_or links K k a (m + n) b" if "x \<in> K"
        by (rule via_orI [OF via.through [OF l that pq(2)] pq(3)]) (use pq(1) in simp)
      moreover have "via_or links K k a (m + n) b" if "x = k"
        by (rule via_orI [OF l [unfolded that] pq(3)]) (use pq(1) in simp)
      ultimately show ?thesis using through.hyps by blast
    qed
  next
    case False
    then obtain p q where pq: "p + q \<le> m" "via links K a p k" "via links K k q x"
      using through.IH(1) by (auto simp: via_or_def)
    show ?thesis
    proof (cases "via links K x n b")
      case r: True
      have "via_or links K k a (m + n) b" if "x \<in> K"
        by (rule via_orI [OF pq(2) via.through [OF pq(3) that r]]) (use pq(1) in simp)
      moreover have "via_or links K k a (m + n) b" if "x = k"
        by (rule via_orI [OF pq(2) r [unfolded that]]) (use pq(1) in simp)
      ultimately show ?thesis using through.hyps by blast
    next
      case False
      then obtain p' q' where "p' + q' \<le> n" "via links K k q' b"
        using through.IH(2) by (auto simp: via_or_def)
      then show ?thesis using via_orI [OF pq(2)] pq(1) by simp
    qed
  qed
qed

lemma at_most_mono: "at_most v m \<Longrightarrow> m \<le> n \<Longrightarrow> at_most v n"
  unfolding at_most_def using le_trans by blast

definition complete_for ::
    "string list \<Rightarrow> (string \<times> string) list \<Rightarrow> string set \<Rightarrow> dist_table \<Rightarrow> bool" where
  "complete_for ids links K arr \<longleftrightarrow>
     (\<forall>i \<in> set ids. \<forall>j \<in> set ids. \<forall>n. via links K i n j \<longrightarrow> at_most (entry arr i j) n)"

lemma phase_complete:
  assumes "table_for ids links arr" "complete_for ids links K arr" "k \<in> set ids"
  shows "complete_for ids links (insert k K) (phase ids k arr)"
  unfolding complete_for_def
proof (intro ballI allI impI)
  fix i j n
  assume ij: "i \<in> set ids" "j \<in> set ids" and v: "via links (insert k K) i n j"
  from via_split [OF v] consider "via links K i n j"
    | m m' where "m + m' \<le> n" "via links K i m k" "via links K k m' j"
    unfolding via_or_def by blast
  then show "at_most (entry (phase ids k arr) i j) n"
  proof cases
    case 1
    then show ?thesis
      using assms(1,2) ij phase_keeps unfolding complete_for_def by blast
  next
    case 2
    then have "at_most (entry arr i k) m" "at_most (entry arr k j) m'"
      using assms(2,3) ij unfolding complete_for_def by blast+
    from phase_gains [OF ij assms(1) this] show ?thesis
      by (rule at_most_mono) (rule 2(1))
  qed
qed

lemma phases_complete:
  assumes "table_for ids links arr" "complete_for ids links K arr" "set ks \<subseteq> set ids"
  shows "table_for ids links (fold (phase ids) ks arr) \<and>
    complete_for ids links (set ks \<union> K) (fold (phase ids) ks arr)"
  using assms
proof (induction ks arbitrary: arr K)
  case (Cons k ks)
  have "table_for ids links (phase ids k arr)" using phase_table Cons.prems(1) by blast
  moreover have "complete_for ids links (insert k K) (phase ids k arr)"
    using phase_complete Cons.prems by simp
  ultimately show ?case
    using Cons.IH [of "phase ids k arr" "insert k K"] Cons.prems(3) by simp
qed simp

lemma adjacent_endpoints: "adjacent links a b \<Longrightarrow> a \<in> endpoints links \<and> b \<in> endpoints links"
  unfolding adjacent_def endpoints_def by (auto intro: rev_image_eqI)

lemma walk_via:
  assumes "walk links a n b" "0 < n" "endpoints links \<subseteq> K"
  shows "via links K a n b"
  using assms(1,2)
proof (induction rule: walk.induct)
  case (hop a b n c)
  have b: "b \<in> K" using adjacent_endpoints [OF hop.hyps(1)] assms(3) by blast
  have l: "via links K a 1 b" using hop.hyps(1) by (rule via.link)
  show ?case
  proof (cases n)
    case 0
    then have "b = c" using hop.hyps(2) by (auto elim: walk_zeroE)
    then show ?thesis using l 0 by simp
  next
    case (Suc m)
    then have "via links K b n c" using hop.IH by simp
    from via.through [OF l b this] show ?thesis by simp
  qed
qed simp

text \<open>The table before the first phase.\<close>

lemma start_table:
  assumes "endpoints links \<subseteq> set ids"
  shows "\<exists>arr. fold_js set_link links (fold init_row ids []) = Inr arr \<and>
    row_keys arr = set ids \<and>
    (\<forall>a b. entry arr a b = (if adjacent links a b then Some 1
       else if a = b \<and> a \<in> set ids then Some 0 else None))"
proof -
  let ?arr = "fold init_row ids []"
  have keys: "row_keys ?arr = set ids" unfolding row_keys_init by (simp add: row_keys_def)
  have e: "entry ?arr a b = (if a = b \<and> a \<in> set ids then Some 0 else None)" for a b
    unfolding entry_init by (simp add: entry_def)
  from set_links [of links ?arr] assms keys show ?thesis
    unfolding keys e by simp
qed

lemma start_distinct:
  "keys_distinct (fold init_row ids [])"
  by (rule fold_preserves [where P = keys_distinct])
    (auto simp: init_row_def keys_distinct_update keys_distinct_def [of "[]"])

lemma set_link_distinct:
  assumes "keys_distinct arr" "set_link l arr = Inr arr'"
  shows "keys_distinct arr'"
proof -
  obtain s t where l: "l = (s, t)" by force
  have st: "s \<in> row_keys arr" "t \<in> row_keys arr"
    using assms(2) set_link_throws [of s arr t] l by auto
  then have "arr' = set_entry t s (Some 1) (set_entry s t (Some 1) arr)"
    using assms(2) set_link_eq l by simp
  then show ?thesis using st assms(1) by (simp add: keys_distinct_set)
qed

lemma set_links_distinct:
  "fold_js set_link links arr = Inr arr' \<Longrightarrow> keys_distinct arr \<Longrightarrow> keys_distinct arr'"
  by (induction links arbitrary: arr) (auto split: sum.splits intro: set_link_distinct)

lemma via_empty: "via links {} a n b \<Longrightarrow> adjacent links a b \<and> n = 1"
  by (cases rule: via.cases) auto

lemma minimumDistances_ok:
  assumes "endpoints links \<subseteq> set ids"
  shows "\<exists>arr. minimumDistances ids links = Inr arr \<and> table_for ids links arr \<and>
    complete_for ids links (set ids) arr \<and>
    (\<forall>u \<in> set ids. \<not> adjacent links u u \<longrightarrow> entry arr u u = Some 0)"
proof -
  obtain arr where arr: "fold_js set_link links (fold init_row ids []) = Inr arr"
    "row_keys arr = set ids"
    "\<forall>a b. entry arr a b = (if adjacent links a b then Some 1
       else if a = b \<and> a \<in> set ids then Some 0 else None)"
    using start_table [OF assms] by blast
  have "walk links a d b" if "entry arr a b = Some d" for a b d
  proof (cases "adjacent links a b")
    case True
    then show ?thesis using that arr(3) walk_one by simp
  next
    case False
    then have "a = b \<and> d = 0" using that arr(3) by (simp split: if_splits)
    then show ?thesis by (simp add: walk.here)
  qed
  then have "sound links arr" by (simp add: sound_def)
  then have t: "table_for ids links arr"
    using arr(1,2) set_links_distinct start_distinct by (simp add: table_for_def)
  have c: "complete_for ids links {} arr"
    using arr(3) via_empty by (fastforce simp: complete_for_def at_most_def)
  let ?res = "fold (phase ids) ids arr"
  have "minimumDistances ids links = Inr ?res"
    using arr(1,2) floyd_warshall_eq [of ids arr] by (simp add: minimumDistances_def)
  moreover have "table_for ids links ?res \<and> complete_for ids links (set ids) ?res"
    using phases_complete [OF t c, of ids] by simp
  moreover have "entry ?res u u = Some 0" if "u \<in> set ids" "\<not> adjacent links u u" for u
  proof -
    have "at_most (entry arr u u) 0" using arr(3) that by (simp add: at_most_def)
    with t have "table_for ids links ?res \<and> at_most (entry ?res u u) 0"
      by (intro fold_preserves [where P = "\<lambda>s. table_for ids links s \<and> at_most (entry s u u) 0"]
          phase_keeps) auto
    then show ?thesis by (simp add: at_most_def)
  qed
  ultimately show ?thesis by blast
qed

text \<open>The hop count between two nodes, \<open>None\<close> when no walk joins them.\<close>

definition is_hop_count :: "(string \<times> string) list \<Rightarrow> string \<Rightarrow> string \<Rightarrow> nat option \<Rightarrow> bool" where
  "is_hop_count links u v d \<longleftrightarrow>
     (case d of None \<Rightarrow> (\<nexists>n. walk links u n v)
      | Some n \<Rightarrow> walk links u n v \<and> (\<forall>m. walk links u m v \<longrightarrow> n \<le> m))"

lemma is_hop_count_unique: "is_hop_count links u v d \<Longrightarrow> is_hop_count links u v d' \<Longrightarrow> d = d'"
  by (auto simp: is_hop_count_def intro: antisym split: option.splits)

lemma table_hop_count:
  assumes "sound links arr" "complete_for ids links (set ids) arr" "endpoints links \<subseteq> set ids"
    "u \<in> set ids" "v \<in> set ids" "u \<noteq> v"
  shows "is_hop_count links u v (entry arr u v)"
proof -
  have bound: "at_most (entry arr u v) n" if "walk links u n v" for n
  proof -
    have "0 < n" using that assms(6) by (cases n) (auto elim: walk_zeroE)
    then show ?thesis
      using walk_via [OF that _ assms(3)] assms(2,4,5) unfolding complete_for_def by blast
  qed
  show ?thesis
  proof (cases "entry arr u v")
    case None
    then show ?thesis using bound by (auto simp: is_hop_count_def at_most_def)
  next
    case (Some d)
    then show ?thesis using bound assms(1) by (fastforce simp: is_hop_count_def at_most_def sound_def)
  qed
qed

section \<open>Estimates of the centre\<close>

lemma row_max_bounds:
  "m \<le> row_max r m" "(k, Some d) \<in> set r \<Longrightarrow> d \<le> row_max r m"
proof (induction r m rule: row_max.induct)
  case (2 k' v r m)
  {
    case 1
    show ?case using "2.IH"(1) by (auto simp: greater_def split: option.splits)
  next
    case 2
    then show ?case using "2.IH" by (auto simp: greater_def split: if_splits)
  }
qed auto

lemma row_max_attained: "row_max r m = m \<or> (\<exists>k. (k, Some (row_max r m)) \<in> set r)"
proof (induction r m rule: row_max.induct)
  case (2 k v r m)
  show ?case
  proof (cases "greater v m")
    case True
    then obtain d where "v = Some d" by (auto simp: greater_def split: option.splits)
    with True 2 show ?thesis by auto
  next
    case False
    with 2 show ?thesis by auto
  qed
qed simp

lemma row_entry:
  assumes "keys_distinct arr" "map_of arr u = Some row"
  shows "(v, Some d) \<in> set row \<longleftrightarrow> entry arr u v = Some d"
proof -
  have "distinct (map fst row)"
    using assms(1) map_of_SomeD [OF assms(2)] unfolding keys_distinct_def by fastforce
  then have "(v, Some d) \<in> set row \<longleftrightarrow> map_of row v = Some (Some d)" by simp
  then show ?thesis using assms(2) by (auto simp: entry_def split: option.splits)
qed

lemma centerEstimate_bounds:
  assumes "keys_distinct arr" "u \<in> row_keys arr"
  shows "entry arr u v = Some d \<Longrightarrow> d \<le> centerEstimate arr u"
    and "centerEstimate arr u = 0 \<or> (\<exists>v. entry arr u v = Some (centerEstimate arr u))"
proof -
  obtain row where row: "map_of arr u = Some row" using assms(2) by (auto simp: row_keys_def)
  note e = row_entry [OF assms(1) row]
  show "entry arr u v = Some d \<Longrightarrow> d \<le> centerEstimate arr u"
    using row row_max_bounds(2) by (simp add: centerEstimate_def flip: e)
  show "centerEstimate arr u = 0 \<or> (\<exists>v. entry arr u v = Some (centerEstimate arr u))"
    using row row_max_attained [of row 0] by (auto simp: centerEstimate_def simp flip: e)
qed

lemma fold_row_max:
  "m \<le> fold (\<lambda>r m. row_max (snd r) m) rs m"
  "r \<in> set rs \<Longrightarrow> (k, Some d) \<in> set (snd r) \<Longrightarrow> d \<le> fold (\<lambda>r m. row_max (snd r) m) rs m"
  "fold (\<lambda>r m. row_max (snd r) m) rs m = m \<or>
     (\<exists>r \<in> set rs. \<exists>k. (k, Some (fold (\<lambda>r m. row_max (snd r) m) rs m)) \<in> set (snd r))"
proof (induction rs arbitrary: m)
  case (Cons r' rs)
  {
    case 1
    show ?case using Cons.IH(1) [of "row_max (snd r') m"] row_max_bounds(1) [of m "snd r'"] by simp
  next
    case 2
    then show ?case
      using Cons.IH(1,2) [of "row_max (snd r') m"] row_max_bounds(2) [of k d "snd r'" m]
      by (cases "r = r'") auto
  next
    case 3
    show ?case
      using Cons.IH(3) [of "row_max (snd r') m"] row_max_attained [of "snd r'" m] by auto
  }
qed auto

lemma networkWidth_bounds:
  assumes "keys_distinct arr"
  shows "entry arr u v = Some d \<Longrightarrow> d \<le> networkWidth arr"
    and "networkWidth arr = 0 \<or> (\<exists>u v. entry arr u v = Some (networkWidth arr))"
proof -
  have mem: "map_of arr u = Some row \<longleftrightarrow> (u, row) \<in> set arr" for u row
    using assms by (simp add: keys_distinct_def)
  show "d \<le> networkWidth arr" if e: "entry arr u v = Some d"
  proof -
    obtain row where row: "map_of arr u = Some row"
      using e by (cases "map_of arr u") (auto simp: entry_def)
    then have "(v, Some d) \<in> set row" using e row_entry [OF assms row] by blast
    then show ?thesis
      using fold_row_max(2) [of "(u, row)" arr v d 0] row mem by (simp add: networkWidth_def)
  qed
  show "networkWidth arr = 0 \<or> (\<exists>u v. entry arr u v = Some (networkWidth arr))"
    using fold_row_max(3) [where rs = arr and m = 0] row_entry [OF assms] mem
    unfolding networkWidth_def by (metis prod.collapse)
qed

text \<open>The entries are the hop counts, when no link joins a node to itself.\<close>

definition no_self_links :: "(string \<times> string) list \<Rightarrow> bool" where
  "no_self_links links \<longleftrightarrow> list_all (\<lambda>l. fst l \<noteq> snd l) links"

lemma no_self_adjacent: "no_self_links links \<Longrightarrow> \<not> adjacent links u u"
  by (auto simp: no_self_links_def adjacent_def list_all_iff)

lemma entry_hop_count:
  assumes "endpoints links \<subseteq> set ids" "no_self_links links" "minimumDistances ids links = Inr arr"
    "u \<in> set ids" "v \<in> set ids"
  shows "is_hop_count links u v (entry arr u v)"
proof -
  have t: "table_for ids links arr" "complete_for ids links (set ids) arr"
    "\<forall>u \<in> set ids. \<not> adjacent links u u \<longrightarrow> entry arr u u = Some 0"
    using minimumDistances_ok [OF assms(1)] assms(3) by auto
  show ?thesis
  proof (cases "u = v")
    case True
    then have "entry arr u v = Some 0" using t(3) no_self_adjacent [OF assms(2)] assms(4) by simp
    then show ?thesis using True by (simp add: is_hop_count_def walk.here)
  next
    case False
    then show ?thesis
      using table_hop_count [OF _ t(2) assms(1,4,5)] t(1) by (simp add: table_for_def)
  qed
qed

lemma entry_nodes:
  assumes "endpoints links \<subseteq> set ids" "minimumDistances ids links = Inr arr" "entry arr u v = Some d"
  shows "u \<in> set ids \<and> v \<in> set ids"
proof -
  have t: "row_keys arr = set ids" "sound links arr"
    using minimumDistances_ok [OF assms(1)] assms(2) by (auto simp: table_for_def)
  have u: "u \<in> set ids"
    using assms(3) t(1) by (auto simp: entry_def row_keys_def split: option.splits)
  have "walk links u d v" using t(2) assms(3) by (simp add: sound_def)
  then have "v \<in> insert u (endpoints links)"
    by (induction rule: walk.induct) (use adjacent_endpoints in auto)
  then show ?thesis using u assms(1) by blast
qed

section \<open>Properties\<close>

text \<open>
  C1: When every link joins two nodes of the topology and none joins a node to itself, the
  routine returns, and the entry of two nodes is their hop count, \<open>undefined\<close> exactly when no
  walk along the links joins them.
\<close>

theorem minimumDistances_hop_counts:
  assumes "endpoints links \<subseteq> set ids" "no_self_links links"
  shows "\<exists>arr. minimumDistances ids links = Inr arr \<and>
    (\<forall>u v. u \<in> set ids \<and> v \<in> set ids \<longrightarrow> is_hop_count links u v (entry arr u v))"
  using minimumDistances_ok [OF assms(1)] entry_hop_count [OF assms] by blast

theorem minimumDistances_hop_counts_witness:
  "\<exists>arr. minimumDistances [''a'', ''b'', ''c'', ''d''] [(''a'', ''b''), (''c'', ''b'')] = Inr arr \<and>
     is_hop_count [(''a'', ''b''), (''c'', ''b'')] ''a'' ''c'' (entry arr ''a'' ''c'')"
proof -
  have "endpoints [(''a'', ''b''), (''c'', ''b'')] \<subseteq> set [''a'', ''b'', ''c'', ''d'']"
    by (simp add: endpoints_def)
  moreover have "no_self_links [(''a'', ''b''), (''c'', ''b'')]" by (simp add: no_self_links_def)
  ultimately show ?thesis
    using minimumDistances_hop_counts [of "[(''a'', ''b''), (''c'', ''b'')]" "[''a'', ''b'', ''c'', ''d'']"]
    by auto
qed

text \<open>
  The routine throws exactly when a link has an endpoint that is not a node of the
  topology.
\<close>

theorem minimumDistances_throws:
  "minimumDistances ids links = Inl e \<longleftrightarrow> \<not> endpoints links \<subseteq> set ids \<and> e = TypeError"
proof (cases "endpoints links \<subseteq> set ids")
  case True
  then show ?thesis using minimumDistances_ok by fastforce
next
  case False
  moreover have "row_keys (fold init_row ids []) = set ids"
    unfolding row_keys_init by (simp add: row_keys_def)
  ultimately show ?thesis
    using set_links_throws [of links "fold init_row ids []"] by (auto simp: minimumDistances_def)
qed

text \<open>
  The centre estimate of a node is its eccentricity, the greatest hop count to a node
  that it reaches.
\<close>

theorem centerEstimate_eccentricity:
  assumes "endpoints links \<subseteq> set ids" "no_self_links links"
    "minimumDistances ids links = Inr arr" "u \<in> set ids"
  shows "(\<forall>v n. v \<in> set ids \<and> is_hop_count links u v (Some n) \<longrightarrow> n \<le> centerEstimate arr u) \<and>
    (\<exists>v. v \<in> set ids \<and> is_hop_count links u v (Some (centerEstimate arr u)))"
proof -
  have t: "keys_distinct arr" "u \<in> row_keys arr" "entry arr u u = Some 0"
    using minimumDistances_ok [OF assms(1)] assms(3,4) no_self_adjacent [OF assms(2)]
    by (auto simp: table_for_def)
  note hc = entry_hop_count [OF assms(1-3) assms(4)]
  have "entry arr u v = Some n" if "v \<in> set ids" "is_hop_count links u v (Some n)" for v n
    using is_hop_count_unique [OF hc [OF that(1)] that(2)] .
  moreover have "\<exists>v. entry arr u v = Some (centerEstimate arr u)"
    using centerEstimate_bounds(2) [OF t(1,2)] t(3) by metis
  ultimately show ?thesis
    using centerEstimate_bounds(1) [OF t(1,2)] hc entry_nodes [OF assms(1,3)] by metis
qed

theorem centerEstimate_eccentricity_witness:
  "\<exists>arr v. minimumDistances [''a'', ''b''] [(''a'', ''b'')] = Inr arr \<and> v \<in> set [''a'', ''b''] \<and>
     is_hop_count [(''a'', ''b'')] ''a'' v (Some (centerEstimate arr ''a''))"
proof -
  have h: "endpoints [(''a'', ''b'')] \<subseteq> set [''a'', ''b'']" "no_self_links [(''a'', ''b'')]"
    by (simp_all add: endpoints_def no_self_links_def)
  obtain arr where arr: "minimumDistances [''a'', ''b''] [(''a'', ''b'')] = Inr arr"
    using minimumDistances_ok [OF h(1)] by blast
  have "''a'' \<in> set [''a'', ''b'']" by simp
  from centerEstimate_eccentricity [OF h arr this] arr show ?thesis by blast
qed

text \<open>
  The width of the network is its diameter, the greatest hop count between two nodes
  that reach each other.
\<close>

theorem networkWidth_diameter:
  assumes "endpoints links \<subseteq> set ids" "no_self_links links"
    "minimumDistances ids links = Inr arr" "ids \<noteq> []"
  shows "(\<forall>u v n. u \<in> set ids \<and> v \<in> set ids \<and> is_hop_count links u v (Some n) \<longrightarrow> n \<le> networkWidth arr) \<and>
    (\<exists>u v. u \<in> set ids \<and> v \<in> set ids \<and> is_hop_count links u v (Some (networkWidth arr)))"
proof -
  have t: "keys_distinct arr" "entry arr (hd ids) (hd ids) = Some 0"
    using minimumDistances_ok [OF assms(1)] assms(3,4) no_self_adjacent [OF assms(2)]
    by (auto simp: table_for_def)
  note hc = entry_hop_count [OF assms(1-3)]
  have "entry arr u v = Some n"
    if "u \<in> set ids" "v \<in> set ids" "is_hop_count links u v (Some n)" for u v n
    using is_hop_count_unique [OF hc [OF that(1,2)] that(3)] .
  moreover have "\<exists>u v. entry arr u v = Some (networkWidth arr)"
    using networkWidth_bounds(2) [OF t(1)] t(2) by metis
  ultimately show ?thesis
    using networkWidth_bounds(1) [OF t(1)] hc entry_nodes [OF assms(1,3)] by metis
qed

theorem networkWidth_diameter_witness:
  "\<exists>arr u v. minimumDistances [''a'', ''b''] [(''a'', ''b'')] = Inr arr \<and> u \<in> set [''a'', ''b''] \<and>
     v \<in> set [''a'', ''b''] \<and> is_hop_count [(''a'', ''b'')] u v (Some (networkWidth arr))"
proof -
  have h: "endpoints [(''a'', ''b'')] \<subseteq> set [''a'', ''b'']" "no_self_links [(''a'', ''b'')]"
    by (simp_all add: endpoints_def no_self_links_def)
  obtain arr where arr: "minimumDistances [''a'', ''b''] [(''a'', ''b'')] = Inr arr"
    using minimumDistances_ok [OF h(1)] by blast
  have "[''a'', ''b''] \<noteq> []" by simp
  from networkWidth_diameter [OF h arr this] arr show ?thesis by blast
qed

end
