(* ===== verification/Layout.thy ===== *)
theory Layout
  imports Json Underscore
begin

text \<open>
  The initial layout of the topology (\<open>nDistance\<close>, \<open>distance\<close>, \<open>iris.sortNodesByValue\<close>,
  \<open>findParentNode\<close>, \<open>iris.adjustXandY\<close> of \<open>web/js/controllers/topology.js\<close>): nodes are
  placed around the neighbour that is closer to the centre, from the centre outwards. A node
  object is denoted by its index in the array of nodes, a link by the two indices. A number
  that is not finite (\<open>undefined\<close>, \<open>NaN\<close> or an infinity, which no later step turns finite) is
  \<open>None\<close>; degrees are rational, positions real.
\<close>

section \<open>Nodes\<close>

record gnode =
  node_id :: "json option"
  node_name :: "json option"
  node_x :: "real option"
  node_y :: "real option"
  node_px :: "real option"
  node_py :: "real option"
  node_fixed :: bool
  weight :: nat
  group :: nat
  node_value :: nat
  degree :: "rat option"
  selected :: bool
  previouslySelected :: bool

type_synonym glink = "nat \<times> nat"

definition value_at :: "gnode list \<Rightarrow> nat \<Rightarrow> nat" where
  "value_at nodes n = node_value (nodes ! n)"

definition nDistance :: "gnode \<Rightarrow> real option" where
  "nDistance node = (if node_value node = 0 then None else Some (250 / real (node_value node)))"

definition distance :: "gnode list \<Rightarrow> glink \<Rightarrow> real option" where
  "distance nodes l =
     (let x = min (value_at nodes (fst l)) (value_at nodes (snd l))
      in if x = 0 then None else Some (250 / real x))"

definition sortNodesByValue :: "gnode list \<Rightarrow> nat list" where
  "sortNodesByValue nodes = sortBy (\<lambda>n. Some (value_at nodes n)) [0..<length nodes]"

fun findParentNode :: "gnode list \<Rightarrow> nat \<Rightarrow> glink list \<Rightarrow> nat" where
  "findParentNode nodes n [] = n"
| "findParentNode nodes n ((s, t) # ls) =
     (if s = n then
        (if value_at nodes t < value_at nodes n then t else findParentNode nodes n ls)
      else if t = n then
        (if value_at nodes s < value_at nodes n then s else findParentNode nodes n ls)
      else findParentNode nodes n ls)"

section \<open>Placing the nodes\<close>

definition num2 :: "('a \<Rightarrow> 'b \<Rightarrow> 'c) \<Rightarrow> 'a option \<Rightarrow> 'b option \<Rightarrow> 'c option" where
  "num2 f a b = (case (a, b) of (Some x, Some y) \<Rightarrow> Some (f x y) | _ \<Rightarrow> None)"

text \<open>\<open>360 / parent.weight\<close>.\<close>

definition slice :: "gnode \<Rightarrow> rat option" where
  "slice p = (if weight p = 0 then None else Some (360 / of_nat (weight p)))"

text \<open>The entry of the array \<open>degree\<close> for the next child of a parent.\<close>

definition next_degree :: "gnode \<Rightarrow> rat option option \<Rightarrow> rat option" where
  "next_degree p entry =
     (case entry of None \<Rightarrow> num2 (+) (num2 (-) (degree p) (Some 180)) (slice p)
      | Some d \<Rightarrow> num2 (+) d (slice p))"

definition radians :: "rat \<Rightarrow> real" where
  "radians d = of_rat d * pi / 180"

definition place_node :: "gnode \<Rightarrow> rat option \<Rightarrow> gnode \<Rightarrow> gnode" where
  "place_node p d n =
     (let r = nDistance p; rad = map_option radians d
      in n\<lparr>degree := d,
           node_x := num2 (+) (node_x p) (num2 (*) r (map_option cos rad)),
           node_y := num2 (+) (node_y p) (num2 (*) r (map_option sin rad))\<rparr>)"

definition node_key :: "gnode \<Rightarrow> string" where
  "node_key n = key_of (node_id n)"

type_synonym layout_state = "gnode list \<times> (string \<times> rat option) list"

definition layout_step :: "glink list \<Rightarrow> layout_state \<Rightarrow> nat \<Rightarrow> layout_state" where
  "layout_step links st n = (case st of (nodes, degs) \<Rightarrow>
     (let parent = findParentNode nodes n links
      in if parent \<noteq> n then
           (let p = nodes ! parent; d = next_degree p (map_of degs (node_key p))
            in (nodes[n := place_node p d (nodes ! n)], AList.update (node_key p) d degs))
         else (nodes[n := (nodes ! n)\<lparr>degree := Some (- 45)\<rparr>], degs)))"

definition adjustXandY :: "gnode list \<Rightarrow> glink list \<Rightarrow> gnode list" where
  "adjustXandY nodes links = fst (foldl (layout_step links) (nodes, []) (sortNodesByValue nodes))"

section \<open>Parents\<close>

definition linked :: "glink list \<Rightarrow> nat \<Rightarrow> nat \<Rightarrow> bool" where
  "linked links a b \<longleftrightarrow> (a, b) \<in> set links \<or> (b, a) \<in> set links"

lemma findParentNode_cong:
  "(\<And>i. value_at nodes' i = value_at nodes i) \<Longrightarrow>
     findParentNode nodes' n links = findParentNode nodes n links"
  by (induction nodes n links rule: findParentNode.induct) auto

lemma findParentNode_cases:
  "(findParentNode nodes n links = n \<and>
      (\<forall>m. linked links n m \<longrightarrow> value_at nodes n \<le> value_at nodes m)) \<or>
   (value_at nodes (findParentNode nodes n links) < value_at nodes n \<and>
      linked links n (findParentNode nodes n links))"
proof (induction nodes n links rule: findParentNode.induct)
  case (1 nodes n)
  then show ?case by (simp add: linked_def)
next
  case (2 nodes n s t ls)
  have mono: "linked ls a b \<Longrightarrow> linked ((s, t) # ls) a b" for a b by (auto simp: linked_def)
  have new: "linked ((s, t) # ls) n m \<Longrightarrow> linked ls n m \<or> (s = n \<and> m = t) \<or> (t = n \<and> m = s)" for m
    by (auto simp: linked_def)
  consider "s = n" "value_at nodes t < value_at nodes n" | "s \<noteq> n" "t = n" "value_at nodes s < value_at nodes n"
    | (rest) "\<not> (s = n \<and> value_at nodes t < value_at nodes n)"
      "\<not> (s \<noteq> n \<and> t = n \<and> value_at nodes s < value_at nodes n)"
    by blast
  then show ?case
  proof cases
    case rest
    then have f: "findParentNode nodes n ((s, t) # ls) = findParentNode nodes n ls" by auto
    have ih: "(findParentNode nodes n ls = n \<and> (\<forall>m. linked ls n m \<longrightarrow> value_at nodes n \<le> value_at nodes m)) \<or>
        (value_at nodes (findParentNode nodes n ls) < value_at nodes n \<and> linked ls n (findParentNode nodes n ls))"
      using 2 rest by auto
    have "value_at nodes n \<le> value_at nodes m"
      if "linked ((s, t) # ls) n m" "\<forall>m. linked ls n m \<longrightarrow> value_at nodes n \<le> value_at nodes m" for m
      using new [OF that(1)] that(2) rest by (auto simp: not_less)
    then show ?thesis unfolding f using ih mono by blast
  qed (auto simp: linked_def)
qed

lemma parent_closer:
  "findParentNode nodes n links \<noteq> n \<Longrightarrow>
     value_at nodes (findParentNode nodes n links) < value_at nodes n"
  using findParentNode_cases [of nodes n links] by blast

definition links_in :: "nat \<Rightarrow> glink list \<Rightarrow> bool" where
  "links_in k links \<longleftrightarrow> list_all (\<lambda>l. fst l < k \<and> snd l < k) links"

lemma parent_in_range:
  "links_in k links \<Longrightarrow> n < k \<Longrightarrow> findParentNode nodes n links < k"
  by (induction nodes n links rule: findParentNode.induct) (auto simp: links_in_def)

section \<open>The order of the nodes\<close>

lemma sortNodes_eq: "sortNodesByValue nodes = sort_key (value_at nodes) [0..<length nodes]"
  using sortBy_sort_key [of "value_at nodes" "[0..<length nodes]"]
  by (simp add: sortNodesByValue_def comp_def)

lemma sortNodes_set [simp]: "set (sortNodesByValue nodes) = {..<length nodes}"
  and sortNodes_distinct [simp]: "distinct (sortNodesByValue nodes)"
  by (auto simp: sortNodes_eq)

lemma sortNodes_before:
  assumes "sortNodesByValue nodes = as @ n # bs"
  shows "m \<in> set as \<Longrightarrow> value_at nodes m \<le> value_at nodes n"
    and "m < length nodes \<Longrightarrow> value_at nodes m < value_at nodes n \<Longrightarrow> m \<in> set as"
proof -
  have "sorted (map (value_at nodes) (as @ n # bs))"
    unfolding assms [symmetric] by (simp add: sortNodes_eq)
  then have s: "\<forall>x \<in> set as. value_at nodes x \<le> value_at nodes n" "\<forall>x \<in> set bs. value_at nodes n \<le> value_at nodes x"
    by (auto simp: sorted_append)
  have m: "m < length nodes \<Longrightarrow> m \<in> set (as @ n # bs)"
    unfolding assms [symmetric] by simp
  show "m \<in> set as \<Longrightarrow> value_at nodes m \<le> value_at nodes n" using s by blast
  show "m < length nodes \<Longrightarrow> value_at nodes m < value_at nodes n \<Longrightarrow> m \<in> set as"
    using s m by force
qed

section \<open>The state after a prefix of the order\<close>

text \<open>What no step writes.\<close>

definition same_static :: "gnode \<Rightarrow> gnode \<Rightarrow> bool" where
  "same_static m n \<longleftrightarrow> node_id m = node_id n \<and> node_value m = node_value n \<and> weight m = weight n"

definition is_child :: "gnode list \<Rightarrow> glink list \<Rightarrow> nat \<Rightarrow> nat \<Rightarrow> bool" where
  "is_child nodes links p n \<longleftrightarrow> findParentNode nodes n links = p \<and> p \<noteq> n"

definition children :: "gnode list \<Rightarrow> glink list \<Rightarrow> nat \<Rightarrow> nat list \<Rightarrow> nat" where
  "children nodes links p ns = length (filter (is_child nodes links p) ns)"

definition finite_node :: "gnode \<Rightarrow> bool" where
  "finite_node n \<longleftrightarrow> node_x n \<noteq> None \<and> node_y n \<noteq> None"

text \<open>
  Node \<open>m\<close> stands where it belongs with respect to its parent: the direction turns by one
  slice of the parent for each child placed before it.
\<close>

definition child_degree :: "gnode \<Rightarrow> nat \<Rightarrow> rat" where
  "child_degree p k = the (degree p) - 180 + of_nat k * (360 / of_nat (weight p))"

definition located :: "gnode list \<Rightarrow> glink list \<Rightarrow> gnode list \<Rightarrow> nat list \<Rightarrow> nat \<Rightarrow> bool" where
  "located nodes links res ns m \<longleftrightarrow>
     (let p = findParentNode nodes m links;
          k = Suc (children nodes links p (takeWhile (\<lambda>a. a \<noteq> m) ns));
          d = child_degree (res ! p) k; r = 250 / real (value_at nodes p)
      in if p = m then res ! m = (nodes ! m)\<lparr>degree := Some (- 45)\<rparr>
         else degree (res ! m) = Some d \<and>
           node_x (res ! m) = Some (the (node_x (res ! p)) + r * cos (radians d)) \<and>
           node_y (res ! m) = Some (the (node_y (res ! p)) + r * sin (radians d)))"

text \<open>Parents have a weight and a value, ids are distinct, positions are finite to begin with.\<close>

definition layout_ok :: "gnode list \<Rightarrow> glink list \<Rightarrow> bool" where
  "layout_ok nodes links \<longleftrightarrow> links_in (length nodes) links \<and> distinct (map node_key nodes) \<and>
     list_all finite_node nodes \<and>
     list_all (\<lambda>m. let p = findParentNode nodes m links
        in p \<noteq> m \<longrightarrow> 0 < weight (nodes ! p) \<and> 0 < value_at nodes p) [0..<length nodes]"

lemma layout_okD:
  assumes "layout_ok nodes links" "m < length nodes"
  shows "finite_node (nodes ! m)" "findParentNode nodes m links < length nodes"
    "findParentNode nodes m links \<noteq> m \<Longrightarrow>
       0 < weight (nodes ! findParentNode nodes m links) \<and> 0 < value_at nodes (findParentNode nodes m links)"
  using assms parent_in_range by (auto simp: layout_ok_def list_all_iff Let_def)

lemma layout_ok_key:
  "layout_ok nodes links \<Longrightarrow> p < length nodes \<Longrightarrow> q < length nodes \<Longrightarrow>
     node_key (nodes ! p) = node_key (nodes ! q) \<longleftrightarrow> p = q"
  using nth_eq_iff_index_eq [of "map node_key nodes" p q] by (simp add: layout_ok_def)

definition degree_entry :: "gnode list \<Rightarrow> glink list \<Rightarrow> gnode list \<Rightarrow> nat list \<Rightarrow> nat \<Rightarrow> rat option option" where
  "degree_entry nodes links res ns p =
     (if children nodes links p ns = 0 then None
      else Some (Some (child_degree (res ! p) (children nodes links p ns))))"

definition placed :: "gnode list \<Rightarrow> glink list \<Rightarrow> nat list \<Rightarrow> layout_state \<Rightarrow> bool" where
  "placed nodes links ns st \<longleftrightarrow> (case st of (res, degs) \<Rightarrow>
     length res = length nodes \<and>
     (\<forall>m < length nodes. same_static (res ! m) (nodes ! m) \<and> finite_node (res ! m)) \<and>
     (\<forall>m < length nodes. m \<notin> set ns \<longrightarrow> res ! m = nodes ! m) \<and>
     (\<forall>m \<in> set ns. degree (res ! m) \<noteq> None \<and> located nodes links res ns m) \<and>
     (\<forall>p < length nodes. map_of degs (node_key (nodes ! p)) = degree_entry nodes links res ns p))"

lemma placed_start:
  "layout_ok nodes links \<Longrightarrow> placed nodes links [] (nodes, [])"
  by (auto simp: placed_def same_static_def layout_okD degree_entry_def children_def)

lemma placed_parent:
  assumes "placed nodes links ns (res, degs)" "links_in (length nodes) links" "n < length nodes"
  shows "findParentNode res n links = findParentNode nodes n links"
proof -
  have v: "value_at res i = value_at nodes i" if "i < length nodes" for i
    using assms(1) that by (simp add: placed_def same_static_def value_at_def)
  from assms(2) show ?thesis
  proof (induction links)
    case (Cons l ls)
    obtain s t where l: "l = (s, t)" by force
    with Cons.prems v assms(3) have "value_at res s = value_at nodes s" "value_at res t = value_at nodes t"
      "value_at res n = value_at nodes n" "links_in (length nodes) ls"
      by (auto simp: links_in_def)
    with Cons l show ?case by simp
  qed simp
qed

lemma children_snoc:
  "children nodes links q (ns @ [n]) = children nodes links q ns + (if is_child nodes links q n then 1 else 0)"
  by (simp add: children_def)

lemma located_keep:
  assumes "located nodes links res ns m" "m \<in> set ns" "res' ! m = res ! m"
    "findParentNode nodes m links \<noteq> m \<Longrightarrow> res' ! findParentNode nodes m links = res ! findParentNode nodes m links"
  shows "located nodes links res' (ns @ [n]) m"
proof -
  have "takeWhile (\<lambda>a. a \<noteq> m) (ns @ [n]) = takeWhile (\<lambda>a. a \<noteq> m) ns"
    using assms(2) by (rule takeWhile_append1) simp
  then show ?thesis using assms by (auto simp: located_def Let_def)
qed

text \<open>The next node in the order: what the step does to the invariant apart from the node itself.\<close>

lemma placed_extend:
  assumes P: "placed nodes links ns (res, degs)" and ok: "layout_ok nodes links"
    and n: "n < length nodes" "n \<notin> set ns" "set ns \<subseteq> {..<length nodes}"
    and before: "\<And>m. m \<in> set ns \<Longrightarrow> value_at nodes m \<le> value_at nodes n"
      "\<And>m. m < length nodes \<Longrightarrow> value_at nodes m < value_at nodes n \<Longrightarrow> m \<in> set ns"
    and x: "same_static x (nodes ! n)" "finite_node x" "degree x \<noteq> None"
      "located nodes links (res[n := x]) (ns @ [n]) n"
    and degs': "\<And>p. p < length nodes \<Longrightarrow> p \<noteq> n \<Longrightarrow>
      map_of degs' (node_key (nodes ! p)) = degree_entry nodes links res (ns @ [n]) p"
      "map_of degs' (node_key (nodes ! n)) = map_of degs (node_key (nodes ! n))"
  shows "placed nodes links (ns @ [n]) (res[n := x], degs')"
proof -
  have len: "length res = length nodes" using P by (simp add: placed_def)
  have no_children: "children nodes links n (ns @ [n]) = 0" "children nodes links n ns = 0"
  proof -
    have "\<not> is_child nodes links n m" if "m \<in> set (ns @ [n])" for m
    proof
      assume "is_child nodes links n m"
      then have "value_at nodes n < value_at nodes m" "n \<noteq> m"
        using parent_closer [of nodes m links] by (auto simp: is_child_def)
      then show False using that before(1) [of m] by auto
    qed
    then show "children nodes links n (ns @ [n]) = 0" "children nodes links n ns = 0"
      by (auto simp: children_def)
  qed
  have other: "located nodes links (res[n := x]) (ns @ [n]) m" if m: "m \<in> set ns" for m
  proof (rule located_keep)
    show "located nodes links res ns m" using P m by (simp add: placed_def)
    show "res[n := x] ! m = res ! m" using m n by (metis nth_list_update_neq)
    assume "findParentNode nodes m links \<noteq> m"
    then have "value_at nodes (findParentNode nodes m links) < value_at nodes n"
      using parent_closer [of nodes m links] before(1) [OF m] by simp
    then show "res[n := x] ! findParentNode nodes m links = res ! findParentNode nodes m links"
      by (metis less_irrefl nth_list_update_neq)
  qed (rule m)
  have entries: "map_of degs' (node_key (nodes ! p)) = degree_entry nodes links (res[n := x]) (ns @ [n]) p"
    if p: "p < length nodes" for p
  proof (cases "p = n")
    case True
    then have "map_of degs (node_key (nodes ! p)) = None"
      using P p no_children by (simp add: placed_def degree_entry_def)
    then show ?thesis using True degs'(2) no_children by (simp add: degree_entry_def)
  next
    case False
    then have "res[n := x] ! p = res ! p" by simp
    then show ?thesis using degs'(1) [OF p False] by (simp add: degree_entry_def)
  qed
  show ?thesis
    using P other entries x n len
    by (auto simp: placed_def nth_list_update)
qed

lemma step_degree:
  assumes "degree p = Some d" "0 < weight p"
  shows "next_degree p (if k = 0 then None else Some (Some (child_degree p k))) = Some (child_degree p (Suc k))"
proof (cases "k = 0")
  case True
  then show ?thesis
    using assms by (simp add: next_degree_def num2_def slice_def child_degree_def)
next
  case False
  have "child_degree p (Suc k) = child_degree p k + 360 / of_nat (weight p)"
    by (simp add: child_degree_def algebra_simps add_divide_distrib)
  then show ?thesis
    using assms False by (simp add: next_degree_def num2_def slice_def)
qed

lemma place_node_props:
  assumes "finite_node p" "0 < node_value p"
  shows "node_x (place_node p (Some d) n) = Some (the (node_x p) + 250 / real (node_value p) * cos (radians d))"
    and "node_y (place_node p (Some d) n) = Some (the (node_y p) + 250 / real (node_value p) * sin (radians d))"
    and "degree (place_node p (Some d) n) = Some d" "same_static (place_node p (Some d) n) n"
  using assms by (auto simp: place_node_def Let_def num2_def nDistance_def finite_node_def same_static_def)

lemma placed_step:
  assumes P: "placed nodes links ns (res, degs)" and ok: "layout_ok nodes links"
    and n: "n < length nodes" "n \<notin> set ns" "set ns \<subseteq> {..<length nodes}"
    and before: "\<And>m. m \<in> set ns \<Longrightarrow> value_at nodes m \<le> value_at nodes n"
      "\<And>m. m < length nodes \<Longrightarrow> value_at nodes m < value_at nodes n \<Longrightarrow> m \<in> set ns"
  shows "placed nodes links (ns @ [n]) (layout_step links (res, degs) n)"
proof -
  let ?p = "findParentNode nodes n links"
  have len: "length res = length nodes" and rn: "res ! n = nodes ! n"
    and static: "\<And>m. m < length nodes \<Longrightarrow> same_static (res ! m) (nodes ! m) \<and> finite_node (res ! m)"
    and entry: "\<And>p. p < length nodes \<Longrightarrow> map_of degs (node_key (nodes ! p)) = degree_entry nodes links res ns p"
    using P n by (auto simp: placed_def)
  have parent: "findParentNode res n links = ?p"
    using placed_parent [OF P _ n(1)] ok by (simp add: layout_ok_def)
  have key: "node_key (res ! m) = node_key (nodes ! m)" if "m < length nodes" for m
    using static [OF that] by (simp add: same_static_def node_key_def)
  have tw: "takeWhile (\<lambda>a. a \<noteq> n) (ns @ [n]) = ns"
    using n(2) by (simp add: takeWhile_append)
  show ?thesis
  proof (cases "?p = n")
    case True
    have "placed nodes links (ns @ [n]) (res[n := (nodes ! n)\<lparr>degree := Some (- 45)\<rparr>], degs)"
    proof (rule placed_extend [OF P ok n before])
      show "located nodes links (res[n := (nodes ! n)\<lparr>degree := Some (- 45)\<rparr>]) (ns @ [n]) n"
        using True n(1) len by (simp add: located_def)
      fix p assume p: "p < length nodes" "p \<noteq> n"
      have "\<not> is_child nodes links p n" using True p by (simp add: is_child_def)
      then show "map_of degs (node_key (nodes ! p)) = degree_entry nodes links res (ns @ [n]) p"
        using entry [OF p(1)] by (simp add: degree_entry_def children_snoc)
    qed (use layout_okD [OF ok n(1)] in \<open>auto simp: same_static_def finite_node_def\<close>)
    then show ?thesis using True parent rn by (simp add: layout_step_def)
  next
    case False
    note pl = layout_okD(2,3) [OF ok n(1)]
    have w: "0 < weight (nodes ! ?p)" "0 < node_value (nodes ! ?p)" using pl(2) False by (auto simp: value_at_def)
    have "?p \<in> set ns" using before(2) pl(1) parent_closer [OF False] by blast
    then obtain dp where dp: "degree (res ! ?p) = Some dp" using P by (auto simp: placed_def)
    have sp: "weight (res ! ?p) = weight (nodes ! ?p)" "node_value (res ! ?p) = node_value (nodes ! ?p)"
      "finite_node (res ! ?p)" using static [OF pl(1)] by (auto simp: same_static_def)
    let ?k = "children nodes links ?p ns"
    let ?d = "child_degree (res ! ?p) (Suc ?k)"
    let ?x = "place_node (res ! ?p) (Some ?d) (nodes ! n)"
    let ?degs = "AList.update (node_key (nodes ! ?p)) (Some ?d) degs"
    have d: "next_degree (res ! ?p) (map_of degs (node_key (res ! ?p))) = Some ?d"
      unfolding key [OF pl(1)] entry [OF pl(1)] degree_entry_def
      by (rule step_degree [OF dp]) (use w sp in simp)
    note props = place_node_props [OF sp(3), of ?d "nodes ! n"]
    have "placed nodes links (ns @ [n]) (res[n := ?x], ?degs)"
    proof (rule placed_extend [OF P ok n before])
      have "res[n := ?x] ! ?p = res ! ?p" using False by (metis nth_list_update_neq)
      then show "located nodes links (res[n := ?x]) (ns @ [n]) n"
        using False props w sp n(1) len by (simp add: located_def Let_def tw value_at_def)
      fix p assume p: "p < length nodes" "p \<noteq> n"
      have child: "is_child nodes links p n \<longleftrightarrow> p = ?p" using False by (auto simp: is_child_def)
      have yes: "is_child nodes links ?p n" using False by (simp add: is_child_def)
      have "node_key (nodes ! p) = node_key (nodes ! ?p) \<longleftrightarrow> p = ?p"
        by (rule layout_ok_key [OF ok p(1) pl(1)])
      then show "map_of ?degs (node_key (nodes ! p)) = degree_entry nodes links res (ns @ [n]) p"
        using entry [OF p(1)] by (cases "p = ?p") (simp_all add: degree_entry_def children_snoc child yes)
    next
      have "node_key (nodes ! n) \<noteq> node_key (nodes ! ?p)"
        using layout_ok_key [OF ok n(1) pl(1)] False by auto
      then show "map_of ?degs (node_key (nodes ! n)) = map_of degs (node_key (nodes ! n))" by simp
    qed (use props w sp in \<open>auto simp: finite_node_def\<close>)
    then show ?thesis using False parent rn d key [OF pl(1)] by (simp add: layout_step_def Let_def)
  qed
qed

lemma placed_prefix:
  assumes ok: "layout_ok nodes links"
  shows "sortNodesByValue nodes = as @ bs \<Longrightarrow>
    placed nodes links as (foldl (layout_step links) (nodes, []) as)"
proof (induction as arbitrary: bs rule: rev_induct)
  case Nil
  then show ?case using placed_start [OF ok] by simp
next
  case (snoc n as)
  then have order: "sortNodesByValue nodes = as @ n # bs" by simp
  obtain res degs where st: "foldl (layout_step links) (nodes, []) as = (res, degs)" by force
  have P: "placed nodes links as (res, degs)" using snoc.IH [OF order] st by simp
  have "distinct (as @ n # bs)" "set (as @ n # bs) = {..<length nodes}"
    unfolding order [symmetric] by simp_all
  then have n: "n < length nodes" "n \<notin> set as" "set as \<subseteq> {..<length nodes}" by auto
  show ?case using placed_step [OF P ok n sortNodes_before [OF order]] st by simp
qed

lemma adjusted_placed:
  assumes "layout_ok nodes links"
  shows "\<exists>degs. placed nodes links (sortNodesByValue nodes) (adjustXandY nodes links, degs)"
  using placed_prefix [OF assms, of "sortNodesByValue nodes" "[]"]
  by (metis adjustXandY_def append_Nil2 prod.collapse)

section \<open>Frame of the whole layout\<close>

lemma layout_step_frame:
  "length (fst (layout_step links st n)) = length (fst st)"
  "m \<noteq> n \<Longrightarrow> fst (layout_step links st n) ! m = fst st ! m"
  "m < length (fst st) \<Longrightarrow> same_static (fst (layout_step links st n) ! m) (fst st ! m)"
proof -
  obtain nodes degs where st: "st = (nodes, degs)" by force
  show "length (fst (layout_step links st n)) = length (fst st)"
    by (simp add: st layout_step_def Let_def)
  show "m \<noteq> n \<Longrightarrow> fst (layout_step links st n) ! m = fst st ! m"
    by (simp add: st layout_step_def Let_def)
  show "m < length (fst st) \<Longrightarrow> same_static (fst (layout_step links st n) ! m) (fst st ! m)"
    by (cases "m = n") (simp_all add: st layout_step_def Let_def same_static_def place_node_def)
qed

lemma layout_fold_frame:
  "length (fst (foldl (layout_step links) st ns)) = length (fst st) \<and>
   (m \<notin> set ns \<longrightarrow> fst (foldl (layout_step links) st ns) ! m = fst st ! m) \<and>
   (m < length (fst st) \<longrightarrow> same_static (fst (foldl (layout_step links) st ns) ! m) (fst st ! m))"
proof (induction ns arbitrary: st)
  case Nil
  then show ?case by (simp add: same_static_def)
next
  case (Cons n ns)
  show ?case
    using Cons.IH [of "layout_step links st n"] layout_step_frame(1) [of links st n] layout_step_frame(2) [of m n links st]
      layout_step_frame(3) [of m st links n]
    by (auto simp: same_static_def)
qed

lemma findParentNode_static:
  assumes "\<And>m. m < k \<Longrightarrow> value_at nodes' m = value_at nodes m" "links_in k links" "n < k"
  shows "findParentNode nodes' n links = findParentNode nodes n links"
  using assms(2)
proof (induction links)
  case (Cons l ls)
  obtain s t where l: "l = (s, t)" by force
  then have "s < k" "t < k" "links_in k ls" using Cons.prems by (auto simp: links_in_def)
  with Cons l assms(1,3) show ?case by simp
qed simp

lemma takeWhile_until: "a \<notin> set ys \<Longrightarrow> takeWhile (\<lambda>x. x \<noteq> a) (ys @ a # zs) = ys"
  by (subst takeWhile_append2) auto

lemma two_split:
  assumes "m \<in> set ns" "n \<in> set ns" "m \<noteq> n"
  shows "\<exists>ys zs ws. ns = ys @ m # zs @ n # ws \<or> ns = ys @ n # zs @ m # ws"
proof -
  obtain as bs where ns: "ns = as @ m # bs" using assms(1) by (auto simp: in_set_conv_decomp)
  with assms(2,3) consider "n \<in> set as" | "n \<in> set bs" by auto
  then show ?thesis
  proof cases
    case 1
    then obtain ys zs where "as = ys @ n # zs" by (auto simp: in_set_conv_decomp)
    then have "ns = ys @ n # zs @ m # bs" using ns by simp
    then show ?thesis by blast
  next
    case 2
    then obtain zs ws where "bs = zs @ n # ws" by (auto simp: in_set_conv_decomp)
    then have "ns = as @ m # zs @ n # ws" using ns by simp
    then show ?thesis by blast
  qed
qed

lemma located_siblings_ordered:
  assumes "located nodes links res ns m" "located nodes links res ns n" "is_child nodes links p m"
    "is_child nodes links p n" "distinct ns" "ns = ys @ m # zs @ n # ws"
  shows "\<exists>i j. i < j \<and> j \<le> children nodes links p ns \<and> 0 < i \<and>
    degree (res ! m) = Some (child_degree (res ! p) i) \<and> degree (res ! n) = Some (child_degree (res ! p) j)"
proof -
  have "takeWhile (\<lambda>x. x \<noteq> m) ns = ys"
    using assms(5,6) takeWhile_until [of m ys "zs @ n # ws"] by simp
  moreover have "takeWhile (\<lambda>x. x \<noteq> n) ns = ys @ m # zs"
    using assms(5,6) takeWhile_until [of n "ys @ m # zs" ws] by simp
  moreover have "children nodes links p ns = children nodes links p ys + 1 + children nodes links p zs + 1
      + children nodes links p ws" "children nodes links p (ys @ m # zs) = children nodes links p ys + 1 + children nodes links p zs"
    using assms(3,4,6) by (simp_all add: children_def)
  ultimately show ?thesis
    using assms(1-4)
    by (intro exI [of _ "Suc (children nodes links p ys)"]
        exI [of _ "Suc (children nodes links p ys + 1 + children nodes links p zs)"])
      (auto simp: located_def Let_def is_child_def)
qed

lemma located_siblings:
  assumes "located nodes links res ns m" "located nodes links res ns n" "is_child nodes links p m"
    "is_child nodes links p n" "m \<in> set ns" "n \<in> set ns" "m \<noteq> n" "distinct ns"
  shows "\<exists>i j. i \<noteq> j \<and> 0 < i \<and> 0 < j \<and> i \<le> children nodes links p ns \<and> j \<le> children nodes links p ns \<and>
    degree (res ! m) = Some (child_degree (res ! p) i) \<and> degree (res ! n) = Some (child_degree (res ! p) j)"
proof -
  obtain ys zs ws where "ns = ys @ m # zs @ n # ws \<or> ns = ys @ n # zs @ m # ws"
    using two_split [OF assms(5-7)] by blast
  then show ?thesis
  proof
    assume "ns = ys @ m # zs @ n # ws"
    from located_siblings_ordered [OF assms(1-4,8) this] obtain i j where
      "i < j" "j \<le> children nodes links p ns" "0 < i"
      "degree (res ! m) = Some (child_degree (res ! p) i)" "degree (res ! n) = Some (child_degree (res ! p) j)"
      by blast
    then show ?thesis by (intro exI [of _ i] exI [of _ j]) simp
  next
    assume "ns = ys @ n # zs @ m # ws"
    from located_siblings_ordered [OF assms(2,1,4,3,8) this] obtain i j where
      "i < j" "j \<le> children nodes links p ns" "0 < i"
      "degree (res ! n) = Some (child_degree (res ! p) i)" "degree (res ! m) = Some (child_degree (res ! p) j)"
      by blast
    then show ?thesis by (intro exI [of _ j] exI [of _ i]) simp
  qed
qed

text \<open>Two directions that differ by less than a full turn give different points.\<close>

lemma distinct_directions:
  assumes "i < j" "j \<le> weight p" "0 < i"
  shows "\<not> (cos (radians (child_degree p i)) = cos (radians (child_degree p j)) \<and>
    sin (radians (child_degree p i)) = sin (radians (child_degree p j)))"
proof
  let ?d = "\<lambda>k. child_degree p k" and ?w = "weight p"
  assume "cos (radians (?d i)) = cos (radians (?d j)) \<and> sin (radians (?d i)) = sin (radians (?d j))"
  then obtain n :: int where n: "radians (?d j) = radians (?d i) + 2 * pi * of_int n"
    using sin_cos_eq_iff [of "radians (?d j)" "radians (?d i)"] by auto
  have w: "0 < ?w" using assms by simp
  have "?d j - ?d i = of_nat (j - i) * (360 / of_nat ?w)"
    using assms(1) by (simp add: child_degree_def of_nat_diff left_diff_distrib diff_divide_distrib)
  then have "radians (?d j) - radians (?d i) = real (j - i) * (360 / real ?w) * pi / 180"
    by (simp add: radians_def of_rat_mult of_rat_divide flip: of_rat_diff diff_divide_distrib left_diff_distrib)
  with n have "real (j - i) * 360 * pi = 2 * pi * of_int n * (180 * real ?w)"
    using w by (simp add: field_simps)
  then have "real (j - i) = of_int n * real ?w" by simp
  then have "int (j - i) = n * int ?w" by (metis of_int_eq_iff of_int_mult of_int_of_nat_eq)
  moreover have "0 < int (j - i)" "int (j - i) < int ?w" using assms by auto
  ultimately show False
    by (metis dvd_triv_right zdvd_not_zless)
qed

text \<open>A child of a parent without weight gets no finite position.\<close>

lemma weightless_step:
  assumes "findParentNode (fst st) n links \<noteq> n" "weight (fst st ! findParentNode (fst st) n links) = 0"
    "n < length (fst st)"
  shows "node_x (fst (layout_step links st n) ! n) = None \<and> node_y (fst (layout_step links st n) ! n) = None"
proof -
  have d: "next_degree p e = None" if "weight p = 0" for p e
    using that by (auto simp: next_degree_def slice_def num2_def split: option.splits)
  have "node_x (place_node p None m) = None \<and> node_y (place_node p None m) = None" for p m
    by (simp add: place_node_def num2_def Let_def split: option.splits)
  then show ?thesis
    using assms by (cases st) (simp add: layout_step_def Let_def d)
qed

lemma around_parents:
  assumes "layout_ok nodes links" "n < length nodes"
  defines "res \<equiv> adjustXandY nodes links" and "p \<equiv> findParentNode nodes n links"
  shows "(p = n \<longrightarrow> res ! n = (nodes ! n)\<lparr>degree := Some (- 45)\<rparr>) \<and>
    (p \<noteq> n \<longrightarrow> linked links n p \<and> value_at nodes p < value_at nodes n \<and>
      (\<exists>xn yn xp yp. node_x (res ! n) = Some xn \<and> node_y (res ! n) = Some yn \<and>
        node_x (res ! p) = Some xp \<and> node_y (res ! p) = Some yp \<and>
        (xn - xp)\<^sup>2 + (yn - yp)\<^sup>2 = (250 / real (value_at nodes p))\<^sup>2))"
proof -
  obtain degs where P: "placed nodes links (sortNodesByValue nodes) (res, degs)"
    using adjusted_placed [OF assms(1)] unfolding res_def by blast
  have n: "n \<in> set (sortNodesByValue nodes)" using assms(2) by simp
  have p: "p < length nodes" using layout_okD(2) [OF assms(1,2)] by (simp add: p_def)
  have loc: "located nodes links res (sortNodesByValue nodes) n" using P n by (simp add: placed_def)
  obtain xp yp where xp: "node_x (res ! p) = Some xp" "node_y (res ! p) = Some yp"
    using P p by (auto simp: placed_def finite_node_def)
  show ?thesis
  proof (cases "p = n")
    case True
    then show ?thesis using loc by (simp add: located_def Let_def p_def)
  next
    case False
    let ?r = "250 / real (value_at nodes p)"
    obtain d where d: "node_x (res ! n) = Some (xp + ?r * cos d)" "node_y (res ! n) = Some (yp + ?r * sin d)"
      using loc False xp unfolding located_def Let_def p_def by auto
    have "(?r * cos d)\<^sup>2 + (?r * sin d)\<^sup>2 = ?r\<^sup>2 * ((cos d)\<^sup>2 + (sin d)\<^sup>2)"
      by (simp only: power_mult_distrib distrib_left)
    then have "(?r * cos d)\<^sup>2 + (?r * sin d)\<^sup>2 = ?r\<^sup>2" by (simp add: sin_cos_squared_add2)
    moreover have "linked links n p \<and> value_at nodes p < value_at nodes n"
      using findParentNode_cases [of nodes n links] False by (auto simp: p_def)
    ultimately show ?thesis using False d xp by simp
  qed
qed

section \<open>Properties\<close>

text \<open>
  C5: After the layout of a graph whose ids are distinct and whose parents have a weight and a
  value, a node without a neighbour closer to the centre is where it was and has degree -45;
  every other node lies exactly at the distance \<open>250 / value\<close> from the final position of its
  parent, which is linked to it and closer to the centre.
\<close>

theorem nodes_around_parents:
  assumes "layout_ok nodes links" "n < length nodes"
  defines "res \<equiv> adjustXandY nodes links" and "p \<equiv> findParentNode nodes n links"
  shows "(p = n \<longrightarrow> res ! n = (nodes ! n)\<lparr>degree := Some (- 45)\<rparr>) \<and>
    (p \<noteq> n \<longrightarrow> linked links n p \<and> value_at nodes p < value_at nodes n \<and>
      (\<exists>xn yn xp yp. node_x (res ! n) = Some xn \<and> node_y (res ! n) = Some yn \<and>
        node_x (res ! p) = Some xp \<and> node_y (res ! p) = Some yp \<and>
        (xn - xp)\<^sup>2 + (yn - yp)\<^sup>2 = (250 / real (value_at nodes p))\<^sup>2))"
  unfolding res_def p_def by (rule around_parents [OF assms(1,2)])

definition sample_node :: "string \<Rightarrow> nat \<Rightarrow> nat \<Rightarrow> gnode" where
  "sample_node i v w = \<lparr>node_id = Some (JStr i), node_name = Some (JStr i), node_x = Some 0, node_y = Some 0,
     node_px = Some 0, node_py = Some 0, node_fixed = False, weight = w, group = 1, node_value = v,
     degree = None, selected = False, previouslySelected = False\<rparr>"

definition sample_star :: "gnode list" where
  "sample_star = [sample_node ''c'' 1 2, sample_node ''a'' 2 1, sample_node ''b'' 2 1]"

lemma sample_star_ok:
  "layout_ok sample_star [(1, 0), (0, 2)]" "findParentNode sample_star 1 [(1, 0), (0, 2)] = 0"
  "findParentNode sample_star 2 [(1, 0), (0, 2)] = 0"
  by (simp_all add: layout_ok_def links_in_def sample_star_def sample_node_def node_key_def key_of_def opt_string_def
      finite_node_def value_at_def upt_rec)

theorem nodes_around_parents_witness:
  "\<exists>xn yn xp yp. node_x (adjustXandY sample_star [(1, 0), (0, 2)] ! 1) = Some xn \<and>
     node_y (adjustXandY sample_star [(1, 0), (0, 2)] ! 1) = Some yn \<and>
     node_x (adjustXandY sample_star [(1, 0), (0, 2)] ! 0) = Some xp \<and>
     node_y (adjustXandY sample_star [(1, 0), (0, 2)] ! 0) = Some yp \<and>
     (xn - xp)\<^sup>2 + (yn - yp)\<^sup>2 = (250 / 1)\<^sup>2"
proof -
  have "1 < length sample_star" "value_at sample_star 0 = 1"
    by (simp_all add: sample_star_def value_at_def sample_node_def)
  then show ?thesis
    using nodes_around_parents [OF sample_star_ok(1), of 1] unfolding sample_star_ok(2) by simp
qed

text \<open>
  Two children of the same parent never end up at the same place, when the parent has at
  most as many children as its weight.
\<close>

theorem siblings_apart:
  assumes "layout_ok nodes links" "is_child nodes links p m" "is_child nodes links p n" "m \<noteq> n"
    "m < length nodes" "n < length nodes"
    "children nodes links p (sortNodesByValue nodes) \<le> weight (nodes ! p)"
  shows "(node_x (adjustXandY nodes links ! m), node_y (adjustXandY nodes links ! m)) \<noteq>
    (node_x (adjustXandY nodes links ! n), node_y (adjustXandY nodes links ! n))"
proof
  let ?res = "adjustXandY nodes links" and ?ns = "sortNodesByValue nodes"
  assume eq: "(node_x (?res ! m), node_y (?res ! m)) = (node_x (?res ! n), node_y (?res ! n))"
  obtain degs where P: "placed nodes links ?ns (?res, degs)"
    using adjusted_placed [OF assms(1)] by blast
  have mem: "m \<in> set ?ns" "n \<in> set ?ns" using assms(5,6) by simp_all
  have loc: "located nodes links ?res ?ns m" "located nodes links ?res ?ns n"
    using P mem by (simp_all add: placed_def)
  have pp: "findParentNode nodes m links = p" "p \<noteq> m" "findParentNode nodes n links = p" "p \<noteq> n"
    using assms(2,3) by (simp_all add: is_child_def)
  have p: "p < length nodes" "0 < value_at nodes p"
    using layout_okD(2,3) [OF assms(1,5)] pp by auto
  have w: "weight (?res ! p) = weight (nodes ! p)" using P p by (simp add: placed_def same_static_def)
  let ?r = "250 / real (value_at nodes p)"
  obtain i j where ij: "i \<noteq> j" "0 < i" "0 < j" "i \<le> weight (?res ! p)" "j \<le> weight (?res ! p)"
    "degree (?res ! m) = Some (child_degree (?res ! p) i)" "degree (?res ! n) = Some (child_degree (?res ! p) j)"
  proof -
    obtain i j where "i \<noteq> j" "0 < i" "0 < j" "i \<le> children nodes links p ?ns" "j \<le> children nodes links p ?ns"
      "degree (?res ! m) = Some (child_degree (?res ! p) i)" "degree (?res ! n) = Some (child_degree (?res ! p) j)"
      using located_siblings [OF loc assms(2,3) mem assms(4) sortNodes_distinct] by blast
    moreover from this have "i \<le> weight (?res ! p)" "j \<le> weight (?res ! p)"
      using assms(7) w by simp_all
    ultimately show ?thesis using that by blast
  qed
  have pos: "node_x (?res ! k) = Some (the (node_x (?res ! p)) + ?r * cos (radians (the (degree (?res ! k)))))"
    "node_y (?res ! k) = Some (the (node_y (?res ! p)) + ?r * sin (radians (the (degree (?res ! k)))))"
    if "located nodes links ?res ?ns k" "findParentNode nodes k links = p" "p \<noteq> k" for k
    using that by (simp_all add: located_def Let_def)
  have "cos (radians (child_degree (?res ! p) i)) = cos (radians (child_degree (?res ! p) j))"
    "sin (radians (child_degree (?res ! p) i)) = sin (radians (child_degree (?res ! p) j))"
    using eq pos [OF loc(1) pp(1,2)] pos [OF loc(2) pp(3,4)] ij(6,7) p(2) by simp_all
  then show False
    using ij distinct_directions [of i j "?res ! p"] distinct_directions [of j i "?res ! p"]
    by (cases "i < j") auto
qed

theorem siblings_apart_witness:
  "(node_x (adjustXandY sample_star [(1, 0), (0, 2)] ! 1), node_y (adjustXandY sample_star [(1, 0), (0, 2)] ! 1)) \<noteq>
   (node_x (adjustXandY sample_star [(1, 0), (0, 2)] ! 2), node_y (adjustXandY sample_star [(1, 0), (0, 2)] ! 2))"
proof (rule siblings_apart [OF sample_star_ok(1)])
  show "is_child sample_star [(1, 0), (0, 2)] 0 1" "is_child sample_star [(1, 0), (0, 2)] 0 2"
    by (simp_all add: is_child_def sample_star_def value_at_def sample_node_def)
  have "sortNodesByValue sample_star = [0, 1, 2]"
    by (simp add: sortNodes_eq sample_star_def sample_node_def value_at_def upt_rec)
  then show "children sample_star [(1, 0), (0, 2)] 0 (sortNodesByValue sample_star) \<le> weight (sample_star ! 0)"
    by (simp add: children_def is_child_def sample_star_def value_at_def sample_node_def)
qed (simp_all add: sample_star_def)

text \<open>
  A node whose parent has weight 0 loses its position: the division gives an infinite
  degree, and neither coordinate is a number afterwards.
\<close>

theorem weightless_parent_loses_child:
  assumes "links_in (length nodes) links" "n < length nodes" "is_child nodes links p n" "weight (nodes ! p) = 0"
  shows "node_x (adjustXandY nodes links ! n) = None \<and> node_y (adjustXandY nodes links ! n) = None"
proof -
  obtain as bs where order: "sortNodesByValue nodes = as @ n # bs"
    using assms(2) by (metis in_set_conv_decomp lessThan_iff sortNodes_set)
  have nb: "n \<notin> set bs" using sortNodes_distinct [of nodes] unfolding order by simp
  let ?st = "foldl (layout_step links) (nodes, []) as"
  note frame = layout_fold_frame [of links "(nodes, [])" as]
  have v: "value_at (fst ?st) m = value_at nodes m" if "m < length nodes" for m
    using frame [of m] that by (simp add: value_at_def same_static_def)
  have par: "findParentNode (fst ?st) n links = p"
    using findParentNode_static [OF v assms(1,2)] assms(3) by (simp add: is_child_def)
  have p: "p < length nodes" using parent_in_range [OF assms(1,2)] assms(3) by (auto simp: is_child_def)
  have "weight (fst ?st ! p) = 0" using frame [of p] p assms(4) by (simp add: same_static_def)
  then have "node_x (fst (layout_step links ?st n) ! n) = None \<and> node_y (fst (layout_step links ?st n) ! n) = None"
    using weightless_step [of ?st n links] par assms(2,3) frame [of n] by (simp add: is_child_def)
  then show ?thesis
    using layout_fold_frame [of links "layout_step links ?st n" bs n] nb
    by (simp add: adjustXandY_def order)
qed

theorem weightless_parent_loses_child_witness:
  "node_x (adjustXandY [sample_node ''b'' 1 0, sample_node ''a'' 2 1] [(1, 0)] ! 1) = None"
proof -
  have "is_child [sample_node ''b'' 1 0, sample_node ''a'' 2 1] [(1, 0)] 0 1"
    by (simp add: is_child_def value_at_def sample_node_def)
  then show ?thesis
    using weightless_parent_loses_child [of "[sample_node ''b'' 1 0, sample_node ''a'' 2 1]" "[(1, 0)]" 1 0]
    by (simp add: links_in_def sample_node_def)
qed

end
