(* ===== verification/Topology.thy ===== *)
theory Topology
  imports Distances Layout Devices Switches
begin

text \<open>
  \<open>iris.topology\<close> and the controller \<open>CntlTopology\<close> of \<open>web/js/controllers/topology.js\<close>: the
  graph of switches, hosts and links is built from the service's arrays and a response,
  its nodes get a value and a first position, and it is drawn. Nodes are the entries of the
  array \<open>nodes\<close> (switches first, then hosts), denoted by their index. A host's node object is
  the row object of the device table, so its selection marks may be left from an earlier
  drawing: \<open>marks\<close> gives them for the object's identity.
\<close>

section \<open>Nodes\<close>

definition topologyWidth :: real where
  "topologyWidth = 1160"

definition topologyHeight :: real where
  "topologyHeight = 700"

definition base_node :: "json option \<Rightarrow> json option \<Rightarrow> nat \<Rightarrow> bool \<times> bool \<Rightarrow> gnode" where
  "base_node i nm g m = \<lparr>node_id = i, node_name = nm, node_x = Some (topologyWidth / 2),
     node_y = Some (topologyHeight / 2), node_px = Some (topologyWidth / 2),
     node_py = Some (topologyHeight / 2), node_fixed = False, weight = 0, group = g,
     node_value = 0, degree = None, selected = fst m, previouslySelected = snd m\<rparr>"

definition switch_node :: "json option \<Rightarrow> gnode" where
  "switch_node nm = base_node nm nm 1 (False, False)"

definition host_name :: "device \<Rightarrow> json option js" where
  "host_name d =
     (case property (ipv4 d) ''length'' of
        Inl e \<Rightarrow> Inl e
      | Inr v \<Rightarrow>
          (if (case v of Some (JNum n) \<Rightarrow> n > 0 | _ \<Rightarrow> False)
           then Inr (Some (JStr (opt_string (get (ipv4 d) ''0'') @ ''('' @ opt_string (dev_id d) @ '')'')))
           else Inr (dev_id d)))"

definition host_node :: "(nat \<Rightarrow> bool \<times> bool) \<Rightarrow> device \<Rightarrow> gnode js" where
  "host_node marks d = (case host_name d of Inl e \<Rightarrow> Inl e
     | Inr nm \<Rightarrow> Inr (base_node (dev_id d) nm 2 (marks (object d))))"

section \<open>Links\<close>

text \<open>\<open>nodes[i]\<close>: an index that is not in range, such as -1, gives \<open>undefined\<close>.\<close>

definition node_index :: "gnode list \<Rightarrow> int \<Rightarrow> nat option" where
  "node_index nodes i = (if 0 \<le> i \<and> nat i < length nodes then Some (nat i) else None)"

definition bump_weight :: "nat \<Rightarrow> gnode list \<Rightarrow> gnode list" where
  "bump_weight i nodes = nodes[i := (nodes ! i)\<lparr>weight := Suc (weight (nodes ! i))\<rparr>]"

text \<open>The source counts the link, the target does not; an unknown source throws.\<close>

fun resolve_links :: "(int \<times> int) list \<Rightarrow> gnode list \<Rightarrow> (gnode list \<times> (nat \<times> nat option) list) js" where
  "resolve_links [] nodes = Inr (nodes, [])"
| "resolve_links ((s, t) # ls) nodes =
     (case node_index nodes s of
        None \<Rightarrow> Inl TypeError
      | Some i \<Rightarrow>
          (case resolve_links ls (bump_weight i nodes) of
             Inl e \<Rightarrow> Inl e
           | Inr (nodes', rs) \<Rightarrow> Inr (nodes', (i, node_index nodes t) # rs)))"

definition nodes_map :: "gnode list \<Rightarrow> (string \<times> nat) list" where
  "nodes_map nodes = fold (\<lambda>(i, n). AList.update (node_key n) i) (enumerate 0 nodes) []"

text \<open>
  The link of a host to the switch of its first attachment point. The counters are
  incremented before the check for \<open>undefined\<close> ends, so an unknown switch throws.
\<close>

fun host_links ::
    "(string \<times> nat) list \<Rightarrow> device list \<Rightarrow> gnode list \<Rightarrow> (gnode list \<times> glink list) js" where
  "host_links nmap [] nodes = Inr (nodes, [])"
| "host_links nmap (h # hs) nodes =
     (case path (attachmentPoint h) [''0'', ''switchDPID''] of
        Inl e \<Rightarrow> Inl e
      | Inr dpid \<Rightarrow>
          (case (map_of nmap (key_of (dev_id h)), map_of nmap (key_of dpid)) of
             (Some s, Some t) \<Rightarrow>
               (case host_links nmap hs (bump_weight t (bump_weight s nodes)) of
                  Inl e \<Rightarrow> Inl e | Inr (nodes', ls) \<Rightarrow> Inr (nodes', (s, t) # ls))
           | _ \<Rightarrow> Inl TypeError))"

definition resolved :: "nat \<times> nat option \<Rightarrow> glink js" where
  "resolved l = (case snd l of None \<Rightarrow> Inl TypeError | Some t \<Rightarrow> Inr (fst l, t))"

section \<open>The graph\<close>

record topology_graph =
  g_nodes :: "gnode list"
  g_links :: "glink list"
  networkSize :: nat

definition key_links :: "gnode list \<Rightarrow> glink list \<Rightarrow> (string \<times> string) list" where
  "key_links nodes links = map (\<lambda>(s, t). (node_key (nodes ! s), node_key (nodes ! t))) links"

definition valued :: "dist_table \<Rightarrow> gnode list \<Rightarrow> gnode list" where
  "valued wTable nodes = map (\<lambda>d. d\<lparr>node_value := centerEstimate wTable (node_key d)\<rparr>) nodes"

text \<open>The part after the links are known; \<open>links[i].target.id\<close> throws for an unknown target.\<close>

definition layout_graph :: "gnode list \<Rightarrow> (nat \<times> nat option) list \<Rightarrow> glink list \<Rightarrow> topology_graph js" where
  "layout_graph nodes ls hls =
     (case map_js resolved ls of
        Inl e \<Rightarrow> Inl e
      | Inr sls \<Rightarrow>
          (let links = sls @ hls
           in case minimumDistances (map node_key nodes) (key_links nodes links) of
                Inl e \<Rightarrow> Inl e
              | Inr wTable \<Rightarrow>
                  Inr \<lparr>g_nodes = adjustXandY (valued wTable nodes) links, g_links = links,
                       networkSize = networkWidth wTable\<rparr>))"

definition topology ::
    "(nat \<Rightarrow> bool \<times> bool) \<Rightarrow> json option list \<Rightarrow> device list \<Rightarrow> (int \<times> int) list \<Rightarrow> topology_graph js" where
  "topology marks names hosts links =
     (case map_js (host_node marks) hosts of
        Inl e \<Rightarrow> Inl e
      | Inr hs \<Rightarrow>
          (let nodes = map switch_node names @ hs; nmap = nodes_map nodes
           in case resolve_links links nodes of
                Inl e \<Rightarrow> Inl e
              | Inr (nodes1, ls) \<Rightarrow>
                  (case host_links nmap hosts nodes1 of
                     Inl e \<Rightarrow> Inl e
                   | Inr (nodes2, hls) \<Rightarrow> layout_graph nodes2 ls hls)))"

section \<open>The controller\<close>

definition render_ids :: "switch_scope \<Rightarrow> (nat, device, 'vn, 'vs) iris \<Rightarrow> json option list" where
  "render_ids s w = (case getSwitches w of None \<Rightarrow> [] | Some rs \<Rightarrow> map (\<lambda>r. sw_id (row_at s r)) rs)"

definition render_link :: "json option list \<Rightarrow> json \<Rightarrow> (int \<times> int) js" where
  "render_link ids link =
     (case property (Some link) ''src-switch'' of
        Inl e \<Rightarrow> Inl e
      | Inr a \<Rightarrow> Inr (indexOf ids a, indexOf ids (get (Some link) ''dst-switch'')))"

definition render_hosts :: "(nat, device, 'vn, 'vs) iris \<Rightarrow> device list" where
  "render_hosts w = (case getDevices w of None \<Rightarrow> [] | Some ds \<Rightarrow> ds)"

definition render_success ::
    "(nat \<Rightarrow> bool \<times> bool) \<Rightarrow> switch_scope \<Rightarrow> (nat, device, 'vn, 'vs) iris \<Rightarrow> json option \<Rightarrow> topology_graph js" where
  "render_success marks s w data =
     (let ids = render_ids s w
      in case map_js (render_link ids) (each_values data) of
           Inl e \<Rightarrow> Inl e
         | Inr links \<Rightarrow> topology marks ids (render_hosts w) links)"

definition render_error :: "(nat \<Rightarrow> bool \<times> bool) \<Rightarrow> topology_graph js" where
  "render_error marks = topology marks [] [] []"

section \<open>Building the graph\<close>

lemma map_node_key_update:
  "node_key x = node_key (nodes ! i) \<Longrightarrow> map node_key (nodes[i := x]) = map node_key nodes"
  by (cases "i < length nodes") (auto intro!: nth_equalityI simp: nth_list_update)

lemma bump_weight_simps [simp]:
  "length (bump_weight i nodes) = length nodes"
  "map node_key (bump_weight i nodes) = map node_key nodes"
  unfolding bump_weight_def by (simp, rule map_node_key_update, simp add: node_key_def)

lemma bump_all_simps [simp]:
  "length (fold bump_weight is nodes) = length nodes"
  "map node_key (fold bump_weight is nodes) = map node_key nodes"
  by (induction "is" arbitrary: nodes) simp_all

lemma bump_weight_nth:
  "i < length nodes \<Longrightarrow> v < length nodes \<Longrightarrow>
     weight (bump_weight i nodes ! v) = weight (nodes ! v) + (if v = i then 1 else 0)"
  by (simp add: bump_weight_def nth_list_update)

lemma bump_all_weight:
  "set is \<subseteq> {..<length nodes} \<Longrightarrow> v < length nodes \<Longrightarrow>
     weight (fold bump_weight is nodes ! v) = weight (nodes ! v) + count_list is v"
  by (induction "is" arbitrary: nodes) (simp_all add: bump_weight_nth)

lemma resolve_links_eq:
  assumes "list_all (\<lambda>(s, t). 0 \<le> s \<and> nat s < length nodes \<and> 0 \<le> t \<and> nat t < length nodes) links"
  shows "resolve_links links nodes =
    Inr (fold bump_weight (map (nat \<circ> fst) links) nodes, map (\<lambda>(s, t). (nat s, Some (nat t))) links)"
  using assms
  by (induction links nodes rule: resolve_links.induct) (auto simp: node_index_def)

lemma resolve_links_throws:
  assumes "(s, t) \<in> set links" "s < 0 \<or> t < 0"
  shows "resolve_links links nodes = Inl TypeError \<or>
    (\<exists>nodes' rs. resolve_links links nodes = Inr (nodes', rs) \<and> (\<exists>i. (i, None) \<in> set rs))"
  using assms
proof (induction links nodes rule: resolve_links.induct)
  case (2 s' t' ls nodes)
  show ?case
  proof (cases "node_index nodes s'")
    case None
    then show ?thesis by simp
  next
    case (Some i)
    show ?thesis
    proof (cases "(s, t) = (s', t')")
      case True
      then have "t' < 0" using Some "2.prems"(2) by (auto simp: node_index_def split: if_splits)
      then have n: "node_index nodes t' = None" by (simp add: node_index_def)
      show ?thesis
        using Some n by (cases "resolve_links ls (bump_weight i nodes)") (auto intro: js_error.exhaust)
    next
      case False
      then have "(s, t) \<in> set ls" using "2.prems"(1) by auto
      from "2.IH" [OF Some this "2.prems"(2)] show ?thesis using Some by auto
    qed
  qed
qed simp

lemma nodes_map_lookup:
  assumes "distinct (map node_key nodes)"
  shows "i < length nodes \<Longrightarrow> map_of (nodes_map nodes) (node_key (nodes ! i)) = Some i"
    and "k \<notin> set (map node_key nodes) \<Longrightarrow> map_of (nodes_map nodes) k = None"
proof -
  have gen: "distinct (map node_key ns) \<Longrightarrow>
      map_of (fold (\<lambda>(i, n). AList.update (node_key n) i) (enumerate b ns) al) k =
        (case find_arr (\<lambda>j. node_key (ns ! j) = k) [0..<length ns] of None \<Rightarrow> map_of al k | Some j \<Rightarrow> Some (b + j))"
    for ns b al k
  proof (induction ns arbitrary: b al)
    case (Cons n ns)
    have shift: "find_arr (\<lambda>j. node_key ((n # ns) ! j) = k) (map Suc xs) =
        map_option Suc (find_arr (\<lambda>j. node_key (ns ! j) = k) xs)" for xs
      by (induction xs) auto
    have upt: "[0..<length (n # ns)] = 0 # map Suc [0..<length ns]"
      by (simp add: upt_conv_Cons map_Suc_upt del: upt_Suc)
    have absent: "find_arr (\<lambda>j. node_key (ns ! j) = k) [0..<length ns] = None" if "node_key n = k"
    proof -
      have "node_key (ns ! j) \<noteq> k" if "j < length ns" for j
        using Cons.prems \<open>node_key n = k\<close> imageI [OF nth_mem [OF that], of node_key] by auto
      then show ?thesis by (simp add: find_arr_None)
    qed
    show ?case
      using Cons.IH [of "Suc b" "AList.update (node_key n) b al"] Cons.prems absent
      unfolding upt by (auto simp: shift update_conv' split: option.splits)
  qed simp
  show "map_of (nodes_map nodes) (node_key (nodes ! i)) = Some i" if i: "i < length nodes"
  proof (cases "find_arr (\<lambda>j. node_key (nodes ! j) = node_key (nodes ! i)) [0..<length nodes]")
    case None
    then show ?thesis using i by (auto simp: find_arr_None)
  next
    case (Some j)
    then have "j < length nodes" "node_key (nodes ! j) = node_key (nodes ! i)"
      using find_arr_Some [OF Some] by auto
    then have "j = i" using assms i nth_eq_iff_index_eq [of "map node_key nodes" j i] by simp
    then show ?thesis using gen [OF assms, of 0 "[]" "node_key (nodes ! i)"] Some by (simp add: nodes_map_def)
  qed
  assume k: "k \<notin> set (map node_key nodes)"
  have "find_arr (\<lambda>j. node_key (nodes ! j) = k) [0..<length nodes] = None"
    using k by (auto simp: find_arr_None)
  then show "map_of (nodes_map nodes) k = None"
    using gen [OF assms, of 0 "[]" k] by (simp add: nodes_map_def)
qed

section \<open>Well-formed inputs\<close>

text \<open>The index of the switch that a host is attached to.\<close>

definition attached_key :: "device \<Rightarrow> string" where
  "attached_key h = (case path (attachmentPoint h) [''0'', ''switchDPID''] of Inl _ \<Rightarrow> [] | Inr d \<Rightarrow> key_of d)"

definition host_ok :: "string list \<Rightarrow> device \<Rightarrow> bool" where
  "host_ok keys h \<longleftrightarrow> objectlike (ipv4 h) \<and>
     (case path (attachmentPoint h) [''0'', ''switchDPID''] of Inl _ \<Rightarrow> False | Inr d \<Rightarrow> key_of d \<in> set keys)"

definition switch_index :: "string list \<Rightarrow> string \<Rightarrow> nat" where
  "switch_index keys k = nat (indexOf keys k)"

definition topology_wf :: "json option list \<Rightarrow> device list \<Rightarrow> (int \<times> int) list \<Rightarrow> bool" where
  "topology_wf names hosts links \<longleftrightarrow>
     distinct (map key_of names @ map (key_of \<circ> dev_id) hosts) \<and>
     list_all (host_ok (map key_of names)) hosts \<and>
     list_all (\<lambda>(s, t). 0 \<le> s \<and> nat s < length names \<and> 0 \<le> t \<and> nat t < length names \<and> s \<noteq> t) links"

definition host_link_list :: "json option list \<Rightarrow> device list \<Rightarrow> glink list" where
  "host_link_list names hosts =
     map (\<lambda>(j, h). (length names + j, switch_index (map key_of names) (attached_key h))) (enumerate 0 hosts)"

definition switch_link_list :: "(int \<times> int) list \<Rightarrow> glink list" where
  "switch_link_list links = map (\<lambda>(s, t). (nat s, nat t)) links"

definition start_nodes :: "(nat \<Rightarrow> bool \<times> bool) \<Rightarrow> json option list \<Rightarrow> device list \<Rightarrow> gnode list" where
  "start_nodes marks names hosts = map switch_node names @
     map (\<lambda>h. case host_node marks h of Inl _ \<Rightarrow> switch_node None | Inr n \<Rightarrow> n) hosts"

definition counted_ends :: "(int \<times> int) list \<Rightarrow> glink list \<Rightarrow> nat list" where
  "counted_ends links hls = map (nat \<circ> fst) links @ concat (map (\<lambda>(s, t). [s, t]) hls)"

lemma node_key_simps:
  "node_key (switch_node nm) = key_of nm" "host_node marks h = Inr n \<Longrightarrow> node_key n = key_of (dev_id h)"
  by (auto simp: node_key_def switch_node_def base_node_def host_node_def split: sum.splits)

lemma host_node_ok: "objectlike (ipv4 h) \<Longrightarrow> \<exists>n. host_node marks h = Inr n"
  by (cases "property (ipv4 h) ''length''")
    (auto simp: host_node_def host_name_def property_throws split: option.split json.split)

lemma start_nodes_props:
  assumes "topology_wf names hosts links"
  shows "map_js (host_node marks) hosts =
      Inr (map (\<lambda>h. case host_node marks h of Inl _ \<Rightarrow> switch_node None | Inr n \<Rightarrow> n) hosts)"
    and "map node_key (start_nodes marks names hosts) = map key_of names @ map (key_of \<circ> dev_id) hosts"
proof -
  have h: "\<exists>n. host_node marks h = Inr n" if "h \<in> set hosts" for h
    using assms that by (auto simp: topology_wf_def host_ok_def list_all_iff intro: host_node_ok)
  show "map_js (host_node marks) hosts =
      Inr (map (\<lambda>h. case host_node marks h of Inl _ \<Rightarrow> switch_node None | Inr n \<Rightarrow> n) hosts)"
    by (rule map_js_total) (use h in fastforce)
  show "map node_key (start_nodes marks names hosts) = map key_of names @ map (key_of \<circ> dev_id) hosts"
    using h by (auto simp: start_nodes_def node_key_simps(1) dest!: h intro: node_key_simps(2))
qed

lemma switch_index_props:
  assumes "k \<in> set keys"
  shows "switch_index keys k < length keys" "keys ! switch_index keys k = k"
  using indexOf_in_range [OF assms] by (simp_all add: switch_index_def)

lemma host_links_eq:
  assumes "list_all (\<lambda>h. \<exists>d. path (attachmentPoint h) [''0'', ''switchDPID''] = Inr d \<and>
      map_of nmap (key_of d) = Some (tgt h)) hosts"
    "\<And>j. j < length hosts \<Longrightarrow> map_of nmap (key_of (dev_id (hosts ! j))) = Some (b + j)"
  shows "host_links nmap hosts nodes =
    (let ls = map (\<lambda>(j, h). (b + j, tgt h)) (enumerate 0 hosts)
     in Inr (fold bump_weight (concat (map (\<lambda>(s, t). [s, t]) ls)) nodes, ls))"
  using assms
proof (induction hosts arbitrary: b nodes)
  case (Cons h hosts)
  have en: "enumerate (Suc 0) hosts = map (\<lambda>(j, h). (Suc j, h)) (enumerate 0 hosts)"
    by (simp add: enumerate_eq_zip map_Suc_upt [symmetric] zip_map1 del: upt_Suc)
  have "map_of nmap (key_of (dev_id h)) = Some b" using Cons.prems(2) [of 0] by simp
  moreover have "map_of nmap (key_of (dev_id (hosts ! j))) = Some (Suc b + j)" if "j < length hosts" for j
    using Cons.prems(2) [of "Suc j"] that by simp
  moreover obtain d where "path (attachmentPoint h) [''0'', ''switchDPID''] = Inr d" "map_of nmap (key_of d) = Some (tgt h)"
    using Cons.prems(1) by auto
  ultimately show ?case
    using Cons.IH [of "Suc b"] Cons.prems(1)
    by (simp add: Let_def en comp_def case_prod_beta del: path.simps)
qed simp

definition all_links :: "json option list \<Rightarrow> device list \<Rightarrow> (int \<times> int) list \<Rightarrow> glink list" where
  "all_links names hosts links = switch_link_list links @ host_link_list names hosts"

definition counted_nodes ::
    "(nat \<Rightarrow> bool \<times> bool) \<Rightarrow> json option list \<Rightarrow> device list \<Rightarrow> (int \<times> int) list \<Rightarrow> gnode list" where
  "counted_nodes marks names hosts links =
     fold bump_weight (counted_ends links (host_link_list names hosts)) (start_nodes marks names hosts)"

lemma start_nodes_length [simp]: "length (start_nodes marks names hosts) = length names + length hosts"
  by (simp add: start_nodes_def)

lemma counted_nodes_props:
  assumes "topology_wf names hosts links"
  shows "length (counted_nodes marks names hosts links) = length names + length hosts"
    and "map node_key (counted_nodes marks names hosts links) = map key_of names @ map (key_of \<circ> dev_id) hosts"
    and "distinct (map node_key (counted_nodes marks names hosts links))"
proof -
  show "length (counted_nodes marks names hosts links) = length names + length hosts"
    by (simp add: counted_nodes_def)
  show m: "map node_key (counted_nodes marks names hosts links) = map key_of names @ map (key_of \<circ> dev_id) hosts"
    using start_nodes_props(2) [OF assms] by (simp add: counted_nodes_def)
  show "distinct (map node_key (counted_nodes marks names hosts links))"
    unfolding m using assms by (simp add: topology_wf_def)
qed

lemma host_switch_key:
  assumes "topology_wf names hosts links" "h \<in> set hosts"
  shows "\<exists>d. path (attachmentPoint h) [''0'', ''switchDPID''] = Inr d \<and> key_of d = attached_key h"
    and "attached_key h \<in> set (map key_of names)"
  using assms unfolding topology_wf_def list_all_iff host_ok_def
  by (auto simp: attached_key_def split: sum.splits simp del: path.simps)

lemma topology_eq:
  assumes wf: "topology_wf names hosts links"
  shows "topology marks names hosts links =
    layout_graph (counted_nodes marks names hosts links)
      (map (\<lambda>(s, t). (nat s, Some (nat t))) links) (host_link_list names hosts)"
proof -
  let ?nodes = "start_nodes marks names hosts"
  let ?tgt = "\<lambda>h. switch_index (map key_of names) (attached_key h)"
  let ?nodes1 = "fold bump_weight (map (nat \<circ> fst) links) ?nodes"
  note keys = start_nodes_props(2) [OF wf, of marks]
  have dist: "distinct (map node_key ?nodes)" using wf keys by (simp add: topology_wf_def)
  have key_nth: "node_key (?nodes ! i) = (map key_of names @ map (key_of \<circ> dev_id) hosts) ! i"
    if "i < length names + length hosts" for i
    using that by (simp flip: keys)
  have r: "resolve_links links ?nodes = Inr (?nodes1, map (\<lambda>(s, t). (nat s, Some (nat t))) links)"
    by (rule resolve_links_eq) (use wf in \<open>auto simp: topology_wf_def list_all_iff\<close>)
  have hosts_found: "map_of (nodes_map ?nodes) (key_of (dev_id (hosts ! j))) = Some (length names + j)"
    if "j < length hosts" for j
    using nodes_map_lookup(1) [OF dist, of "length names + j"] key_nth [of "length names + j"] that
    by (simp add: nth_append)
  have tgt_found: "map_of (nodes_map ?nodes) (attached_key h) = Some (?tgt h)" if "h \<in> set hosts" for h
  proof -
    note k = switch_index_props [OF host_switch_key(2) [OF wf that]]
    then have "node_key (?nodes ! ?tgt h) = attached_key h"
      using key_nth [of "?tgt h"] by (simp add: nth_append)
    then show ?thesis using nodes_map_lookup(1) [OF dist, of "?tgt h"] k(1) by simp
  qed
  have h: "host_links (nodes_map ?nodes) hosts ?nodes1 =
      Inr (fold bump_weight (concat (map (\<lambda>(s, t). [s, t]) (host_link_list names hosts))) ?nodes1,
           host_link_list names hosts)"
  proof -
    have "list_all (\<lambda>h. \<exists>d. path (attachmentPoint h) [''0'', ''switchDPID''] = Inr d \<and>
        map_of (nodes_map ?nodes) (key_of d) = Some (?tgt h)) hosts"
      unfolding list_all_iff using host_switch_key(1) [OF wf] tgt_found by fastforce
    from host_links_eq [OF this hosts_found, of ?nodes1] show ?thesis
      by (simp add: host_link_list_def Let_def)
  qed
  have "map switch_node names @ map (\<lambda>h. case host_node marks h of Inl _ \<Rightarrow> switch_node None | Inr n \<Rightarrow> n) hosts = ?nodes"
    by (simp add: start_nodes_def)
  then show ?thesis
    by (simp add: topology_def start_nodes_props(1) [OF wf] Let_def r h counted_nodes_def counted_ends_def)
qed

lemma links_in_all:
  assumes wf: "topology_wf names hosts links"
  shows "links_in (length names + length hosts) (all_links names hosts links)"
    and "(a, b) \<in> set (all_links names hosts links) \<Longrightarrow> a \<noteq> b"
proof -
  have hl: "s < length names + length hosts \<and> t < length names \<and> length names \<le> s"
    if st: "(s, t) \<in> set (host_link_list names hosts)" for s t
  proof -
    obtain j where j: "j < length hosts" "s = length names + j"
      "t = switch_index (map key_of names) (attached_key (hosts ! j))"
      using st by (auto simp: host_link_list_def in_set_enumerate_eq)
    have "t < length names"
      using switch_index_props(1) [OF host_switch_key(2) [OF wf, of "hosts ! j"]] j by simp
    then show ?thesis using j by simp
  qed
  have sl: "s < length names \<and> t < length names \<and> s \<noteq> t" if "(s, t) \<in> set (switch_link_list links)" for s t
    using wf that by (fastforce simp: switch_link_list_def topology_wf_def list_all_iff)
  show "links_in (length names + length hosts) (all_links names hosts links)"
    using hl sl by (fastforce simp: links_in_def all_links_def list_all_iff)
  assume "(a, b) \<in> set (all_links names hosts links)"
  then show "a \<noteq> b" using hl [of a b] sl [of a b] by (auto simp: all_links_def)
qed

lemma key_links_ok:
  assumes "distinct (map node_key nodes)" "links_in (length nodes) links" "\<And>a b. (a, b) \<in> set links \<Longrightarrow> a \<noteq> b"
  shows "endpoints (key_links nodes links) \<subseteq> set (map node_key nodes)" "no_self_links (key_links nodes links)"
proof -
  have r: "a < length nodes \<and> b < length nodes" if "(a, b) \<in> set links" for a b
    using assms(2) that by (auto simp: links_in_def list_all_iff)
  then show "endpoints (key_links nodes links) \<subseteq> set (map node_key nodes)"
    by (auto simp: endpoints_def key_links_def)
  have "node_key (nodes ! a) \<noteq> node_key (nodes ! b)" if "(a, b) \<in> set links" for a b
    using nth_eq_iff_index_eq [OF assms(1), of a b] r [OF that] assms(3) [OF that] by simp
  then show "no_self_links (key_links nodes links)"
    by (auto simp: no_self_links_def key_links_def list_all_iff)
qed

lemma layout_graph_eq:
  assumes "distinct (map node_key nodes)" "links_in (length nodes) (sls @ hls)"
    "\<And>a b. (a, b) \<in> set (sls @ hls) \<Longrightarrow> a \<noteq> b"
  shows "\<exists>wTable. minimumDistances (map node_key nodes) (key_links nodes (sls @ hls)) = Inr wTable \<and>
    layout_graph nodes (map (\<lambda>(s, t). (s, Some t)) sls) hls =
      Inr \<lparr>g_nodes = adjustXandY (valued wTable nodes) (sls @ hls), g_links = sls @ hls,
           networkSize = networkWidth wTable\<rparr>"
proof -
  have r: "map_js resolved (map (\<lambda>(s, t). (s, Some t)) sls) = Inr sls"
    by (induction sls) (auto simp: resolved_def)
  obtain wTable where "minimumDistances (map node_key nodes) (key_links nodes (sls @ hls)) = Inr wTable"
    using minimumDistances_ok [OF key_links_ok(1) [OF assms]] by blast
  then show ?thesis by (simp add: layout_graph_def r Let_def)
qed

section \<open>The graph that is drawn\<close>

text \<open>Hop counts between nodes, given by their indices.\<close>

definition node_hops :: "gnode list \<Rightarrow> glink list \<Rightarrow> nat \<Rightarrow> nat \<Rightarrow> nat \<Rightarrow> bool" where
  "node_hops nodes links u v n \<longleftrightarrow>
     is_hop_count (key_links nodes links) (node_key (nodes ! u)) (node_key (nodes ! v)) (Some n)"

lemma adjust_static:
  assumes "m < length nodes"
  shows "same_static (adjustXandY nodes links ! m) (nodes ! m)"
  using layout_fold_frame [of links "(nodes, [])" "sortNodesByValue nodes" m] assms
  by (simp add: adjustXandY_def)

lemma adjust_length [simp]: "length (adjustXandY nodes links) = length nodes"
  using layout_fold_frame [of links "(nodes, [])" "sortNodesByValue nodes"] by (simp add: adjustXandY_def)

lemma valued_simps [simp]:
  "length (valued wTable nodes) = length nodes" "map node_key (valued wTable nodes) = map node_key nodes"
  by (simp_all add: valued_def node_key_def)

lemma valued_nth:
  "m < length nodes \<Longrightarrow> value_at (valued wTable nodes) m = centerEstimate wTable (node_key (nodes ! m))"
  by (simp add: valued_def value_at_def)

lemma eccentricity_value:
  assumes nodes: "distinct (map node_key nodes)" "links_in (length nodes) links"
    "\<And>a b. (a, b) \<in> set links \<Longrightarrow> a \<noteq> b"
    and w: "minimumDistances (map node_key nodes) (key_links nodes links) = Inr wTable"
    and u: "u < length nodes"
  defines "val \<equiv> value_at (valued wTable nodes) u"
  shows "(\<forall>v n. v < length nodes \<and> node_hops nodes links u v n \<longrightarrow> n \<le> val) \<and>
    (\<exists>v < length nodes. node_hops nodes links u v val)"
proof -
  note kl = key_links_ok [OF nodes]
  have uk: "node_key (nodes ! u) \<in> set (map node_key nodes)" using u by simp
  have t: "keys_distinct wTable" "node_key (nodes ! u) \<in> row_keys wTable"
    "entry wTable (node_key (nodes ! u)) (node_key (nodes ! u)) = Some 0"
    using minimumDistances_ok [OF kl(1)] w uk no_self_adjacent [OF kl(2)] by (auto simp: table_for_def)
  have hc: "is_hop_count (key_links nodes links) (node_key (nodes ! u)) (node_key (nodes ! v))
      (entry wTable (node_key (nodes ! u)) (node_key (nodes ! v)))" if "v < length nodes" for v
    using entry_hop_count [OF kl w uk] that by simp
  have val: "val = centerEstimate wTable (node_key (nodes ! u))" using u by (simp add: val_def valued_nth)
  have "n \<le> val" if "v < length nodes" "node_hops nodes links u v n" for v n
  proof -
    have "entry wTable (node_key (nodes ! u)) (node_key (nodes ! v)) = Some n"
      by (rule is_hop_count_unique [OF hc [OF that(1)] that(2) [unfolded node_hops_def]])
    from centerEstimate_bounds(1) [OF t(1,2) this] show ?thesis unfolding val .
  qed
  moreover obtain k where k: "entry wTable (node_key (nodes ! u)) k = Some val"
    using centerEstimate_bounds(2) [OF t(1,2)] t(3) val by metis
  moreover from this have "k \<in> set (map node_key nodes)" using entry_nodes [OF kl(1) w] by blast
  then obtain v where "v < length nodes" "k = node_key (nodes ! v)" by (auto simp: in_set_conv_nth)
  ultimately show ?thesis using hc [of v] unfolding node_hops_def by (metis)
qed

lemma parent_value_pos:
  assumes nodes: "distinct (map node_key nodes)" "links_in (length nodes) links"
    "\<And>a b. (a, b) \<in> set links \<Longrightarrow> a \<noteq> b"
    and w: "minimumDistances (map node_key nodes) (key_links nodes links) = Inr wTable"
    and m: "m < length nodes" "linked links m p"
  shows "0 < value_at (valued wTable nodes) p"
proof -
  have p: "p < length nodes" "p \<noteq> m"
    using nodes(2,3) m(2) by (auto simp: links_in_def linked_def list_all_iff)
  have adj: "adjacent (key_links nodes links) (node_key (nodes ! p)) (node_key (nodes ! m))"
    using m(2) by (force simp: adjacent_def key_links_def linked_def)
  have one: "walk (key_links nodes links) (node_key (nodes ! p)) 1 (node_key (nodes ! m))"
    by (rule walk_one [OF adj])
  have "node_key (nodes ! p) \<noteq> node_key (nodes ! m)"
    using nth_eq_iff_index_eq [OF nodes(1), of p m] p m(1) by simp
  then have "\<not> walk (key_links nodes links) (node_key (nodes ! p)) 0 (node_key (nodes ! m))"
    by (auto elim: walk_zeroE)
  then have "1 \<le> n" if "walk (key_links nodes links) (node_key (nodes ! p)) n (node_key (nodes ! m))" for n
    using that by (cases n) auto
  then have "node_hops nodes links p m 1"
    using one by (simp add: node_hops_def is_hop_count_def)
  then show ?thesis
    using eccentricity_value [OF nodes w p(1)] m(1) by fastforce
qed

lemma topology_returns:
  fixes marks :: "nat \<Rightarrow> bool \<times> bool"
  assumes wf: "topology_wf names hosts links"
  defines "nodes \<equiv> counted_nodes marks names hosts links" and "ls \<equiv> all_links names hosts links"
  shows "\<exists>wTable. minimumDistances (map node_key nodes) (key_links nodes ls) = Inr wTable \<and>
    topology marks names hosts links =
      Inr \<lparr>g_nodes = adjustXandY (valued wTable nodes) ls, g_links = ls, networkSize = networkWidth wTable\<rparr>"
proof -
  have l: "links_in (length nodes) (switch_link_list links @ host_link_list names hosts)"
    "\<And>a b. (a, b) \<in> set (switch_link_list links @ host_link_list names hosts) \<Longrightarrow> a \<noteq> b"
    using links_in_all [OF wf] counted_nodes_props(1) [OF wf] by (simp_all add: nodes_def all_links_def)
  have m: "map (\<lambda>(s, t). (nat s, Some (nat t))) links = map (\<lambda>(s, t). (s, Some t)) (switch_link_list links)"
    by (simp add: switch_link_list_def case_prod_beta comp_def)
  show ?thesis
    unfolding topology_eq [OF wf] m ls_def all_links_def nodes_def
    by (rule layout_graph_eq [OF counted_nodes_props(3) [OF wf] l [unfolded nodes_def]])
qed

lemma node_hops_cong:
  assumes "map node_key nodes' = map node_key nodes" "links_in (length nodes) links" "u < length nodes" "v < length nodes"
  shows "node_hops nodes' links u v n = node_hops nodes links u v n"
proof -
  have k: "node_key (nodes' ! i) = node_key (nodes ! i)" if "i < length nodes" for i
    using assms(1) that by (metis length_map nth_map)
  have "key_links nodes' links = key_links nodes links"
    unfolding key_links_def by (rule map_cong) (use assms(2) k in \<open>auto simp: links_in_def list_all_iff\<close>)
  then show ?thesis using k assms(3,4) by (simp add: node_hops_def)
qed

lemma map_node_key_cong:
  assumes "length nodes' = length nodes" "\<And>m. m < length nodes \<Longrightarrow> same_static (nodes' ! m) (nodes ! m)"
  shows "map node_key nodes' = map node_key nodes"
  by (rule nth_equalityI) (use assms in \<open>auto simp: same_static_def node_key_def\<close>)

lemma start_node_fresh:
  "v < length names + length hosts \<Longrightarrow> weight (start_nodes marks names hosts ! v) = 0 \<and>
     finite_node (start_nodes marks names hosts ! v)"
proof -
  have f: "weight (base_node i nm g m) = 0 \<and> finite_node (base_node i nm g m)" for i nm g m
    by (simp add: base_node_def finite_node_def)
  have "weight n = 0 \<and> finite_node n" if "n \<in> set (start_nodes marks names hosts)" for n
    using that by (auto simp: start_nodes_def switch_node_def host_node_def f split: sum.splits)
  then show "v < length names + length hosts \<Longrightarrow> ?thesis" by simp
qed

lemma links_in_mem: "links_in k ls \<Longrightarrow> (a, b) \<in> set ls \<Longrightarrow> a < k \<and> b < k"
  by (auto simp: links_in_def list_all_iff)

lemma counted_ends_in:
  assumes wf: "topology_wf names hosts links"
  shows "set (counted_ends links (host_link_list names hosts)) \<subseteq> {..<length names + length hosts}"
proof
  fix i
  assume "i \<in> set (counted_ends links (host_link_list names hosts))"
  then consider s t where "(s, t) \<in> set links" "i = nat s"
    | s t where "(s, t) \<in> set (host_link_list names hosts)" "i = s \<or> i = t"
    by (fastforce simp: counted_ends_def)
  then show "i \<in> {..<length names + length hosts}"
  proof cases
    case 1
    then show ?thesis using wf by (fastforce simp: topology_wf_def list_all_iff)
  next
    case 2
    then show ?thesis
      using links_in_mem [OF links_in_all(1) [OF wf], of s t] by (auto simp: all_links_def)
  qed
qed

lemma bump_all_finite:
  "(\<forall>v < length nodes. finite_node (nodes ! v)) \<Longrightarrow> set is \<subseteq> {..<length nodes} \<Longrightarrow>
     (\<forall>v < length nodes. finite_node (fold bump_weight is nodes ! v))"
proof (induction "is" arbitrary: nodes)
  case (Cons i "is")
  have "\<forall>v < length (bump_weight i nodes). finite_node (bump_weight i nodes ! v)"
    using Cons.prems by (simp add: bump_weight_def nth_list_update finite_node_def)
  from Cons.IH [OF this] Cons.prems(2) show ?case by simp
qed simp

lemma counted_node_props:
  assumes wf: "topology_wf names hosts links" and v: "v < length names + length hosts"
  shows "weight (counted_nodes marks names hosts links ! v) = count_list (counted_ends links (host_link_list names hosts)) v"
    and "finite_node (counted_nodes marks names hosts links ! v)"
  using bump_all_weight [OF _ , of _ "start_nodes marks names hosts" v] counted_ends_in [OF wf]
    bump_all_finite [of "start_nodes marks names hosts" "counted_ends links (host_link_list names hosts)"]
    start_node_fresh [of _ names hosts marks] v
  by (simp_all add: counted_nodes_def)

lemma only_TypeError [simp]: "e = TypeError"
  by (cases e) simp

lemma map_js_throws: "x \<in> set xs \<Longrightarrow> f x = Inl e \<Longrightarrow> map_js f xs = Inl TypeError"
  by (induction xs) (auto split: sum.splits)

lemma nodes_map_absent:
  assumes "k \<notin> set (map node_key nodes)"
  shows "map_of (nodes_map nodes) k = None"
proof -
  have "k \<notin> set (map node_key ns) \<Longrightarrow>
      map_of (fold (\<lambda>(i, n). AList.update (node_key n) i) (enumerate b ns) al) k = map_of al k" for ns b al
    by (induction ns arbitrary: b al) (auto simp: update_conv')
  from this [OF assms, of 0 "[]"] show ?thesis by (simp add: nodes_map_def)
qed

lemma host_links_throws:
  assumes "h \<in> set hosts" "path (attachmentPoint h) [''0'', ''switchDPID''] = Inr d" "map_of nmap (key_of d) = None"
  shows "host_links nmap hosts nodes = Inl TypeError"
  using assms(1)
proof (induction hosts arbitrary: nodes)
  case (Cons h' hs)
  show ?case
  proof (cases "h = h'")
    case True
    then show ?thesis
      using assms(2,3) by (simp del: path.simps split: option.split)
  next
    case False
    then have "host_links nmap hs ns = Inl TypeError" for ns using Cons by simp
    then show ?thesis by (simp del: path.simps split: sum.split option.split)
  qed
qed simp

lemma map_js_elem: "map_js f xs = Inr ys \<Longrightarrow> x \<in> set xs \<Longrightarrow> \<exists>y \<in> set ys. f x = Inr y"
  by (induction xs arbitrary: ys) (auto split: sum.splits)

lemma bad_link_throws:
  assumes "(s, t) \<in> set links" "s < 0 \<or> t < 0"
  shows "topology marks names hosts links = Inl TypeError"
proof -
  have "layout_graph nodes rs hls = Inl TypeError" if "(i, None) \<in> set rs" for nodes rs hls i
    using map_js_throws [OF that, of resolved] by (simp add: layout_graph_def resolved_def)
  then show ?thesis
    using resolve_links_throws [OF assms]
    by (auto simp: topology_def Let_def split: sum.split prod.split) (metis sum.distinct(1) prod.inject sum.inject(2))
qed

lemma bad_host_throws:
  assumes "h \<in> set hosts" "path (attachmentPoint h) [''0'', ''switchDPID''] = Inr d"
    "key_of d \<notin> set (map key_of names @ map (key_of \<circ> dev_id) hosts)"
  shows "topology marks names hosts links = Inl TypeError"
proof (cases "map_js (host_node marks) hosts")
  case (Inl e)
  then show ?thesis by (simp add: topology_def)
next
  case (Inr hs)
  then have "list_all2 (\<lambda>h n. host_node marks h = Inr n) hosts hs" by (simp add: map_js_Inr)
  then have "map node_key hs = map (key_of \<circ> dev_id) hosts"
    by (induction rule: list_all2_induct) (simp_all add: node_key_simps(2))
  then have "map node_key (map switch_node names @ hs) = map key_of names @ map (key_of \<circ> dev_id) hosts"
    by (simp add: node_key_simps(1))
  then have "map_of (nodes_map (map switch_node names @ hs)) (key_of d) = None"
    using assms(3) by (intro nodes_map_absent) (simp only: not_False_eq_True)
  from host_links_throws [OF assms(1,2) this] Inr show ?thesis
    by (simp add: topology_def Let_def split: sum.split)
qed

section \<open>Properties\<close>

text \<open>
  C2: When the ids are distinct, every link joins two different known switches and every host
  has a known switch, the graph is drawn: its links are the links of the response and one link
  from each host to the switch of its first attachment point, the value of a node is its
  eccentricity in this graph, and the weight of a node counts the links it is the source of
  and both ends of the host links.
\<close>

theorem topology_graph_correct:
  fixes marks :: "nat \<Rightarrow> bool \<times> bool"
  assumes "topology_wf names hosts links"
  shows "\<exists>g. topology marks names hosts links = Inr g \<and> g_links g = all_links names hosts links \<and>
    map node_key (g_nodes g) = map key_of names @ map (key_of \<circ> dev_id) hosts \<and>
    (\<forall>u < length (g_nodes g).
       (\<forall>v n. v < length (g_nodes g) \<and> node_hops (g_nodes g) (g_links g) u v n \<longrightarrow> n \<le> value_at (g_nodes g) u) \<and>
       (\<exists>v < length (g_nodes g). node_hops (g_nodes g) (g_links g) u v (value_at (g_nodes g) u)) \<and>
       weight (g_nodes g ! u) = count_list (counted_ends links (host_link_list names hosts)) u)"
proof -
  let ?nodes = "counted_nodes marks names hosts links" and ?ls = "all_links names hosts links"
  note cp = counted_nodes_props [OF assms, of marks]
  note li = links_in_all [OF assms]
  obtain wTable where w: "minimumDistances (map node_key ?nodes) (key_links ?nodes ?ls) = Inr wTable"
    "topology marks names hosts links =
      Inr \<lparr>g_nodes = adjustXandY (valued wTable ?nodes) ?ls, g_links = ?ls, networkSize = networkWidth wTable\<rparr>"
    using topology_returns [OF assms] by blast
  let ?res = "adjustXandY (valued wTable ?nodes) ?ls"
  have li': "links_in (length ?nodes) ?ls" using li(1) cp(1) by simp
  have st: "same_static (?res ! m) (valued wTable ?nodes ! m)" if "m < length ?nodes" for m
    using adjust_static [of m "valued wTable ?nodes"] that by simp
  have keys: "map node_key ?res = map node_key ?nodes"
    using map_node_key_cong [of ?res "valued wTable ?nodes"] st by simp
  have val: "value_at ?res m = value_at (valued wTable ?nodes) m" if "m < length ?nodes" for m
    using st [OF that] by (simp add: value_at_def same_static_def)
  have hops: "node_hops ?res ?ls u v n = node_hops ?nodes ?ls u v n" if "u < length ?nodes" "v < length ?nodes" for u v n
    by (rule node_hops_cong [OF keys li' that])
  have weights: "weight (?res ! u) = count_list (counted_ends links (host_link_list names hosts)) u" if "u < length ?nodes" for u
    using st [OF that] counted_node_props(1) [OF assms, of u marks] that cp(1)
    by (simp add: same_static_def valued_def)
  have "(\<forall>v n. v < length ?res \<and> node_hops ?res ?ls u v n \<longrightarrow> n \<le> value_at ?res u) \<and>
      (\<exists>v < length ?res. node_hops ?res ?ls u v (value_at ?res u))" if u: "u < length ?nodes" for u
    using eccentricity_value [OF cp(3) li' li(2) w(1) u] hops u val by auto
  then show ?thesis
    using w(2) keys cp(2) weights by (intro exI conjI) auto
qed

definition sample_device :: device where
  "sample_device = \<lparr>object = 0, dev_id = Some (JStr ''m''), port = '''', lastSeen = '''',
     inetAddress = None, attachmentPoint = Some (JArr [sample_point]), mac = None,
     ipv4 = Some (JArr []), vlan = None\<rparr>"

lemma sample_topology_wf:
  "topology_wf [Some (JStr ''1''), Some (JStr ''2'')] [sample_device] [(0, 1), (1, 0)]"
  by (simp add: topology_wf_def host_ok_def sample_device_def sample_point_def objectlike_def key_of_def
      opt_string_def indexed_def enumerate_eq_zip string_of_nat.simps digit_char_def)

theorem topology_graph_correct_witness:
  "\<exists>g. topology (\<lambda>_. (False, False)) [Some (JStr ''1''), Some (JStr ''2'')] [sample_device] [(0, 1), (1, 0)] = Inr g \<and>
     map node_key (g_nodes g) = [''1'', ''2'', ''m'']"
  using topology_graph_correct [OF sample_topology_wf, of "\<lambda>_. (False, False)"]
  by (auto simp: key_of_def opt_string_def sample_device_def)

text \<open>
  In the graph that is drawn, if every node that has children has a weight, each node that
  has a neighbour closer to the centre is placed at the distance \<open>250 / value\<close> from one such
  neighbour, its parent.
\<close>

theorem drawn_around_parents:
  fixes marks :: "nat \<Rightarrow> bool \<times> bool"
  assumes "topology_wf names hosts links" "topology marks names hosts links = Inr g"
    "list_all (\<lambda>m. let p = findParentNode (g_nodes g) m (g_links g) in p \<noteq> m \<longrightarrow> 0 < weight (g_nodes g ! p))
       [0..<length (g_nodes g)]"
    "n < length (g_nodes g)" "linked (g_links g) n q" "value_at (g_nodes g) q < value_at (g_nodes g) n"
  shows "\<exists>p xn yn xp yp. linked (g_links g) n p \<and> value_at (g_nodes g) p < value_at (g_nodes g) n \<and>
    node_x (g_nodes g ! n) = Some xn \<and> node_y (g_nodes g ! n) = Some yn \<and>
    node_x (g_nodes g ! p) = Some xp \<and> node_y (g_nodes g ! p) = Some yp \<and>
    (xn - xp)\<^sup>2 + (yn - yp)\<^sup>2 = (250 / real (value_at (g_nodes g) p))\<^sup>2"
proof -
  let ?nodes = "counted_nodes marks names hosts links" and ?ls = "all_links names hosts links"
  note cp = counted_nodes_props [OF assms(1), of marks]
  note li = links_in_all [OF assms(1)]
  obtain wTable where w: "minimumDistances (map node_key ?nodes) (key_links ?nodes ?ls) = Inr wTable"
    "g = \<lparr>g_nodes = adjustXandY (valued wTable ?nodes) ?ls, g_links = ?ls, networkSize = networkWidth wTable\<rparr>"
    using topology_returns [OF assms(1), of marks] assms(2) by auto
  let ?v = "valued wTable ?nodes"
  have li': "links_in (length ?nodes) ?ls" using li(1) cp(1) by simp
  have len: "length (g_nodes g) = length ?nodes" by (simp add: w(2))
  have gl: "g_links g = ?ls" by (simp add: w(2))
  have st: "same_static (g_nodes g ! m) (?v ! m)" if "m < length ?nodes" for m
    using adjust_static [of m ?v] that by (simp add: w(2))
  have val: "value_at (g_nodes g) m = value_at ?v m" if "m < length ?nodes" for m
    using st [OF that] by (simp add: value_at_def same_static_def)
  have par: "findParentNode (g_nodes g) m ?ls = findParentNode ?v m ?ls" if "m < length ?nodes" for m
    using findParentNode_static [OF val li' that] .
  have lo: "layout_ok ?v ?ls"
    unfolding layout_ok_def
  proof (intro conjI)
    show "links_in (length ?v) ?ls" using li' by simp
    show "distinct (map node_key ?v)" using cp(3) by simp
    show "list_all finite_node ?v"
      using counted_node_props(2) [OF assms(1)] cp(1)
      by (auto simp: list_all_length valued_def finite_node_def)
    show "list_all (\<lambda>m. let p = findParentNode ?v m ?ls in p \<noteq> m \<longrightarrow> 0 < weight (?v ! p) \<and> 0 < value_at ?v p) [0..<length ?v]"
      unfolding list_all_iff Let_def
    proof (intro ballI impI conjI)
      fix m
      assume m: "m \<in> set [0..<length ?v]" "findParentNode ?v m ?ls \<noteq> m"
      then have m': "m < length ?nodes" by simp
      have p: "findParentNode ?v m ?ls < length ?nodes" using parent_in_range [OF li' m'] .
      have "findParentNode (g_nodes g) m ?ls \<noteq> m \<longrightarrow> 0 < weight (g_nodes g ! findParentNode (g_nodes g) m ?ls)"
        using assms(3) m' by (simp add: list_all_iff Let_def len gl)
      then have "0 < weight (g_nodes g ! findParentNode ?v m ?ls)"
        unfolding par [OF m'] using m(2) by blast
      then show "0 < weight (?v ! findParentNode ?v m ?ls)"
        using st [OF p] by (simp add: same_static_def)
      have "linked ?ls m (findParentNode ?v m ?ls)"
        using findParentNode_cases [of ?v m ?ls] m(2) by blast
      then show "0 < value_at ?v (findParentNode ?v m ?ls)"
        using parent_value_pos [OF cp(3) li' _ w(1) m'] li(2) by blast
    qed
  qed
  have n: "n < length ?v" using assms(4) len by simp
  have q: "q < length ?nodes"
    using assms(5) li' by (auto simp: w(2) linked_def links_in_def list_all_iff)
  let ?p = "findParentNode ?v n ?ls"
  have "?p \<noteq> n"
    using findParentNode_cases [of ?v n ?ls] assms(5,6) val n q w(2) by fastforce
  then show ?thesis
    using around_parents [OF lo n] val n parent_in_range [OF li', of n ?v] w(2) by auto
qed

lemma sample_topology_values:
  "all_links [Some (JStr ''1''), Some (JStr ''2'')] [sample_device] [(0, 1), (1, 0)] = [(0, 1), (1, 0), (2, 0)]"
  "count_list (counted_ends [(0, 1), (1, 0)] (host_link_list [Some (JStr ''1''), Some (JStr ''2'')] [sample_device])) v
     = count_list [0, 1, 2, 0] v"
  "case minimumDistances [''1'', ''2'', ''m''] [(''1'', ''2''), (''2'', ''1''), (''m'', ''1'')] of
     Inl _ \<Rightarrow> False | Inr t \<Rightarrow> centerEstimate t ''1'' = 1 \<and> centerEstimate t ''m'' = 2"
proof -
  have h: "host_link_list [Some (JStr ''1''), Some (JStr ''2'')] [sample_device] = [(2, 0)]"
    by (simp add: host_link_list_def sample_device_def sample_point_def attached_key_def
        key_of_def opt_string_def indexed_def enumerate_eq_zip string_of_nat.simps digit_char_def switch_index_def
        indexOf_def)
  then show "all_links [Some (JStr ''1''), Some (JStr ''2'')] [sample_device] [(0, 1), (1, 0)] = [(0, 1), (1, 0), (2, 0)]"
    by (simp add: all_links_def switch_link_list_def)
  show "count_list (counted_ends [(0, 1), (1, 0)] (host_link_list [Some (JStr ''1''), Some (JStr ''2'')] [sample_device])) v
     = count_list [0, 1, 2, 0] v"
    by (simp add: counted_ends_def h)
  show "case minimumDistances [''1'', ''2'', ''m''] [(''1'', ''2''), (''2'', ''1''), (''m'', ''1'')] of
     Inl _ \<Rightarrow> False | Inr t \<Rightarrow> centerEstimate t ''1'' = 1 \<and> centerEstimate t ''m'' = 2"
    by code_simp
qed

theorem drawn_around_parents_witness:
  "\<exists>g xn yn. topology (\<lambda>_. (False, False)) [Some (JStr ''1''), Some (JStr ''2'')] [sample_device] [(0, 1), (1, 0)] = Inr g \<and>
     node_x (g_nodes g ! 2) = Some xn \<and> node_y (g_nodes g ! 2) = Some yn"
proof -
  let ?m = "\<lambda>_. (False, False)" and ?n = "[Some (JStr ''1''), Some (JStr ''2'')]" and ?h = "[sample_device]"
    and ?l = "[(0 :: int, 1), (1, 0)]"
  let ?nodes = "counted_nodes ?m ?n ?h ?l"
  note cp = counted_nodes_props [OF sample_topology_wf, of ?m]
  have keys: "map node_key ?nodes = [''1'', ''2'', ''m'']"
    unfolding cp(2) by (simp add: key_of_def opt_string_def sample_device_def)
  have len: "length ?nodes = 3" using cp(1) by simp
  have k: "node_key (?nodes ! 0) = ''1''" "node_key (?nodes ! 1) = ''2''" "node_key (?nodes ! 2) = ''m''"
    using arg_cong [OF keys, of "\<lambda>xs. xs ! 0"] arg_cong [OF keys, of "\<lambda>xs. xs ! 1"]
      arg_cong [OF keys, of "\<lambda>xs. xs ! 2"] len by simp_all
  obtain t g where t: "minimumDistances [''1'', ''2'', ''m''] [(''1'', ''2''), (''2'', ''1''), (''m'', ''1'')] = Inr t"
    and g: "topology ?m ?n ?h ?l = Inr g" "g_links g = [(0, 1), (1, 0), (2, 0)]"
      "g_nodes g = adjustXandY (valued t ?nodes) [(0, 1), (1, 0), (2, 0)]"
    using topology_returns [OF sample_topology_wf, of ?m]
    unfolding keys sample_topology_values(1) by (auto simp: key_links_def k [unfolded One_nat_def])
  have st: "same_static (g_nodes g ! i) (valued t ?nodes ! i)" if "i < 3" for i
    unfolding g(3) by (rule adjust_static) (use that len in simp)
  have w: "0 < weight (g_nodes g ! i)" if "i < 3" for i
  proof -
    have "weight (?nodes ! i) = count_list [0, 1, 2, 0] i"
      unfolding sample_topology_values(2) [symmetric]
      by (rule counted_node_props(1) [OF sample_topology_wf]) (use that in simp)
    moreover have "i = 0 \<or> i = 1 \<or> i = 2" using that by arith
    ultimately show ?thesis using st [OF that] that len by (auto simp: same_static_def valued_def)
  qed
  have v: "value_at (g_nodes g) 0 = 1" "value_at (g_nodes g) 2 = 2"
    using st [of 0] st [of 2] sample_topology_values(3) t len k
    by (simp_all add: same_static_def value_at_def valued_def)
  have "length (g_nodes g) = 3" by (simp add: g(3) len)
  moreover have "list_all (\<lambda>m. let p = findParentNode (g_nodes g) m (g_links g) in p \<noteq> m \<longrightarrow> 0 < weight (g_nodes g ! p)) [0..<3]"
  proof -
    have "links_in 3 (g_links g)" by (simp add: g(2) links_in_def)
    then show ?thesis using w parent_in_range by (auto simp: list_all_iff Let_def)
  qed
  moreover have "linked (g_links g) 2 0" by (simp add: linked_def g(2))
  ultimately show ?thesis
    using drawn_around_parents [OF sample_topology_wf g(1), of 2 0] v g(1) by auto
qed

text \<open>
  A link with an end that is no switch of the service, or a host whose switch is not a node,
  makes the drawing throw: the check for undefined ends comes after they were used.
\<close>

theorem unknown_switch_throws:
  assumes "(link \<in> set (each_values data) \<and>
      (get (Some link) ''src-switch'' \<notin> set (render_ids s w) \<or> get (Some link) ''dst-switch'' \<notin> set (render_ids s w))) \<or>
    (h \<in> set (render_hosts w) \<and> path (attachmentPoint h) [''0'', ''switchDPID''] = Inr d \<and>
      key_of d \<notin> set (map key_of (render_ids s w) @ map (key_of \<circ> dev_id) (render_hosts w)))"
  shows "render_success marks s w data = Inl TypeError"
proof (cases "map_js (render_link (render_ids s w)) (each_values data)")
  case (Inl e)
  then show ?thesis by (simp add: render_success_def)
next
  case (Inr links)
  from assms show ?thesis
  proof (rule disjE)
    assume link: "link \<in> set (each_values data) \<and> (get (Some link) ''src-switch'' \<notin> set (render_ids s w) \<or> get (Some link) ''dst-switch'' \<notin> set (render_ids s w))"
    then have l: "link \<in> set (each_values data)" and bad: "get (Some link) ''src-switch'' \<notin> set (render_ids s w) \<or>
        get (Some link) ''dst-switch'' \<notin> set (render_ids s w)" by simp_all
    obtain r where r: "r \<in> set links" "render_link (render_ids s w) link = Inr r"
      using map_js_elem [OF Inr l] by blast
    have neg: "indexOf xs x < 0" if "x \<notin> set xs" for xs :: "json option list" and x
      using indexOf_absent [of xs x] that by simp
    have "fst r < 0 \<or> snd r < 0"
      using bad r(2) neg by (auto simp: render_link_def get_def split: sum.splits)
    with r(1) show ?thesis
      using bad_link_throws [of "fst r" "snd r" links] Inr by (simp add: render_success_def Let_def)
  next
    assume "h \<in> set (render_hosts w) \<and> path (attachmentPoint h) [''0'', ''switchDPID''] = Inr d \<and>
      key_of d \<notin> set (map key_of (render_ids s w) @ map (key_of \<circ> dev_id) (render_hosts w))"
    then have h: "h \<in> set (render_hosts w)" "path (attachmentPoint h) [''0'', ''switchDPID''] = Inr d"
      "key_of d \<notin> set (map key_of (render_ids s w) @ map (key_of \<circ> dev_id) (render_hosts w))"
      by blast+
    from bad_host_throws [OF h] show ?thesis using Inr by (simp add: render_success_def Let_def)
  qed
qed

theorem unknown_switch_throws_witness:
  "render_success (\<lambda>_. (False, False)) switch_init (iris_init :: (nat, device, nat, nat) iris)
     (Some (JArr [JObj [(''src-switch'', JStr ''1''), (''dst-switch'', JStr ''2'')]])) = Inl TypeError"
  using unknown_switch_throws [of "JObj [(''src-switch'', JStr ''1''), (''dst-switch'', JStr ''2'')]"
      "Some (JArr [JObj [(''src-switch'', JStr ''1''), (''dst-switch'', JStr ''2'')]])" switch_init
      "iris_init :: (nat, device, nat, nat) iris"]
  by (simp add: render_ids_def getSwitches_def iris_init_def)

end
