(* ===== verification/Drawing.thy ===== *)
theory Drawing
  imports Topology
begin

text \<open>
  The drawing of the topology and its mouse and keyboard handlers (\<open>iris.topologyPrepare\<close>
  and the last part of \<open>iris.topology\<close>): the data of the nodes, the positions of the shapes that
  show them, the selection and the shift key. The handlers move data and shapes separately. A
  coordinate that is no number is \<open>None\<close>; the scale of the symbols (\<open>d3.scale.linear\<close>) is the
  parameter \<open>scale\<close>; the force layout, which moves nodes between ticks, is the argument of a
  tick.
\<close>

section \<open>Shapes\<close>

type_synonym point = "real option \<times> real option"

definition position :: "gnode \<Rightarrow> point" where
  "position d = (node_x d, node_y d)"

definition moved :: "real \<Rightarrow> real \<Rightarrow> point \<Rightarrow> point" where
  "moved dx dy p = (map_option (\<lambda>x. x + dx) (fst p), map_option (\<lambda>y. y + dy) (snd p))"

record node_shape =
  ellipse :: point
  label :: point
  icon :: point

record line_shape =
  line_from :: point
  line_to :: point

definition symbol_size :: "(real \<Rightarrow> real) \<Rightarrow> nat \<Rightarrow> gnode \<Rightarrow> real" where
  "symbol_size scale net d = scale (real net - real (node_value d))"

definition ellipse_rx :: "(real \<Rightarrow> real) \<Rightarrow> nat \<Rightarrow> gnode \<Rightarrow> real" where
  "ellipse_rx scale net d = symbol_size scale net d * 0.7"

definition ellipse_ry :: "(real \<Rightarrow> real) \<Rightarrow> nat \<Rightarrow> gnode \<Rightarrow> real" where
  "ellipse_ry scale net d = symbol_size scale net d * 0.55"

definition icon_width :: "(real \<Rightarrow> real) \<Rightarrow> nat \<Rightarrow> gnode \<Rightarrow> real" where
  "icon_width scale net d = symbol_size scale net d * 2 - 2"

definition icon_href :: "gnode \<Rightarrow> string" where
  "icon_href d = (if group d = 1 then ''/img/switch.png'' else ''/img/desktop.png'')"

definition node_shape_of :: "(real \<Rightarrow> real) \<Rightarrow> nat \<Rightarrow> gnode \<Rightarrow> node_shape" where
  "node_shape_of scale net d =
     \<lparr>ellipse = position d, label = moved 10 (- 3) (position d),
      icon = moved (- symbol_size scale net d + 1) (- symbol_size scale net d - 3) (position d)\<rparr>"

definition line_shape_of :: "gnode list \<Rightarrow> glink \<Rightarrow> line_shape" where
  "line_shape_of nodes l = \<lparr>line_from = position (nodes ! fst l), line_to = position (nodes ! snd l)\<rparr>"

record drawing =
  dr_nodes :: "gnode list"
  dr_links :: "glink list"
  dr_size :: nat
  shapes :: "node_shape list"
  lines :: "line_shape list"
  shiftKey :: bool

definition draw :: "(real \<Rightarrow> real) \<Rightarrow> topology_graph \<Rightarrow> drawing" where
  "draw scale g = \<lparr>dr_nodes = g_nodes g, dr_links = g_links g, dr_size = networkSize g,
     shapes = map (node_shape_of scale (networkSize g)) (g_nodes g),
     lines = map (line_shape_of (g_nodes g)) (g_links g), shiftKey = False\<rparr>"

section \<open>Handlers\<close>

text \<open>A tick of the force layout has moved the nodes; every shape follows.\<close>

definition tick :: "(real \<Rightarrow> real) \<Rightarrow> point list \<Rightarrow> drawing \<Rightarrow> drawing" where
  "tick scale ps d =
     (let ns = map (\<lambda>(n, p). n\<lparr>node_x := fst p, node_y := snd p\<rparr>) (zip (dr_nodes d) ps)
                 @ drop (length ps) (dr_nodes d)
      in d\<lparr>dr_nodes := ns, shapes := map (node_shape_of scale (dr_size d)) ns,
           lines := map (line_shape_of ns) (dr_links d)\<rparr>)"

text \<open>Only the selected nodes move, and only their shapes and line ends are written.\<close>

definition nudge_node :: "real \<Rightarrow> real \<Rightarrow> gnode \<Rightarrow> gnode" where
  "nudge_node dx dy n = (if selected n
     then n\<lparr>node_x := map_option (\<lambda>x. x + dx) (node_x n), node_y := map_option (\<lambda>y. y + dy) (node_y n)\<rparr>
     else n)"

definition nudge_line :: "gnode list \<Rightarrow> glink \<times> line_shape \<Rightarrow> line_shape" where
  "nudge_line ns ll = (case ll of ((s, t), l) \<Rightarrow>
     (let l1 = (if selected (ns ! s) then l\<lparr>line_from := position (ns ! s)\<rparr> else l)
      in if selected (ns ! t) then l1\<lparr>line_to := position (ns ! t)\<rparr> else l1))"

definition nudge :: "(real \<Rightarrow> real) \<Rightarrow> real \<Rightarrow> real \<Rightarrow> drawing \<Rightarrow> drawing" where
  "nudge scale dx dy d =
     (let ns = map (nudge_node dx dy) (dr_nodes d)
      in d\<lparr>dr_nodes := ns,
           shapes := map (\<lambda>(n, sh). if selected n then node_shape_of scale (dr_size d) n else sh)
                       (zip ns (shapes d)),
           lines := map (nudge_line ns) (zip (dr_links d) (lines d))\<rparr>)"

definition select_only :: "nat \<Rightarrow> gnode list \<Rightarrow> gnode list" where
  "select_only i ns = map (\<lambda>(j, n). n\<lparr>selected := (j = i)\<rparr>) (enumerate 0 ns)"

definition mousedown :: "nat \<Rightarrow> drawing \<Rightarrow> drawing" where
  "mousedown i d =
     (if selected (dr_nodes d ! i) then d
      else if \<not> shiftKey d then d\<lparr>dr_nodes := select_only i (dr_nodes d)\<rparr>
      else d\<lparr>dr_nodes := (dr_nodes d)[i := (dr_nodes d ! i)\<lparr>selected := True\<rparr>]\<rparr>)"

definition brushstart :: "drawing \<Rightarrow> drawing" where
  "brushstart d = d\<lparr>dr_nodes :=
     map (\<lambda>n. n\<lparr>previouslySelected := shiftKey d \<and> selected n\<rparr>) (dr_nodes d)\<rparr>"

type_synonym extent = "(real \<times> real) \<times> (real \<times> real)"

text \<open>A comparison with a coordinate that is no number is false.\<close>

definition in_extent :: "extent \<Rightarrow> gnode \<Rightarrow> bool" where
  "in_extent e n = (case (node_x n, node_y n) of
     (Some x, Some y) \<Rightarrow> fst (fst e) \<le> x \<and> x < fst (snd e) \<and> snd (fst e) \<le> y \<and> y < snd (snd e)
   | _ \<Rightarrow> False)"

definition brush :: "extent \<Rightarrow> drawing \<Rightarrow> drawing" where
  "brush e d = d\<lparr>dr_nodes :=
     map (\<lambda>n. n\<lparr>selected := (previouslySelected n \<noteq> in_extent e n)\<rparr>) (dr_nodes d)\<rparr>"

definition arrow :: "nat \<Rightarrow> (real \<times> real) option" where
  "arrow code = (if code = 38 then Some (0, -1) else if code = 40 then Some (0, 1)
     else if code = 37 then Some (-1, 0) else if code = 39 then Some (1, 0) else None)"

definition keydown :: "(real \<Rightarrow> real) \<Rightarrow> bool \<Rightarrow> bool \<Rightarrow> nat \<Rightarrow> drawing \<Rightarrow> drawing" where
  "keydown scale meta shift code d =
     (let d1 = (if meta then d
                else (case arrow code of None \<Rightarrow> d | Some (dx, dy) \<Rightarrow> nudge scale dx dy d))
      in d1\<lparr>shiftKey := shift \<or> meta\<rparr>)"

definition keyup :: "bool \<Rightarrow> bool \<Rightarrow> drawing \<Rightarrow> drawing" where
  "keyup meta shift d = d\<lparr>shiftKey := shift \<or> meta\<rparr>"

datatype user_event =
    Tick "point list"
  | MouseDown nat
  | Drag real real
  | BrushStart
  | Brush extent
  | KeyDown bool bool nat
  | KeyUp bool bool

fun user_step :: "(real \<Rightarrow> real) \<Rightarrow> drawing \<Rightarrow> user_event \<Rightarrow> drawing" where
  "user_step scale d (Tick ps) = tick scale ps d"
| "user_step scale d (MouseDown i) = (if i < length (dr_nodes d) then mousedown i d else d)"
| "user_step scale d (Drag dx dy) = nudge scale dx dy d"
| "user_step scale d BrushStart = brushstart d"
| "user_step scale d (Brush e) = brush e d"
| "user_step scale d (KeyDown meta shift code) = keydown scale meta shift code d"
| "user_step scale d (KeyUp meta shift) = keyup meta shift d"

section \<open>The touchpad\<close>

record zoom_state =
  oldScale :: real
  transform :: "(real \<times> real) \<times> real"
  animated :: bool

definition zoom :: "real \<times> real \<Rightarrow> real \<Rightarrow> zoom_state \<Rightarrow> zoom_state" where
  "zoom translate sc z = \<lparr>oldScale = sc, transform = ((fst translate * 10, snd translate * 10), sc),
     animated = (sc \<noteq> oldScale z)\<rparr>"

section \<open>The shapes follow the data\<close>

definition drawn :: "(real \<Rightarrow> real) \<Rightarrow> drawing \<Rightarrow> bool" where
  "drawn scale d \<longleftrightarrow> shapes d = map (node_shape_of scale (dr_size d)) (dr_nodes d) \<and>
     lines d = map (line_shape_of (dr_nodes d)) (dr_links d) \<and>
     list_all (\<lambda>l. fst l < length (dr_nodes d) \<and> snd l < length (dr_nodes d)) (dr_links d)"

text \<open>Changes of the selection marks leave the shapes valid.\<close>

definition same_place :: "gnode \<Rightarrow> gnode \<Rightarrow> bool" where
  "same_place m n \<longleftrightarrow> position m = position n \<and> node_value m = node_value n"

lemma same_place_shape: "same_place m n \<Longrightarrow> node_shape_of scale net m = node_shape_of scale net n"
  by (simp add: node_shape_of_def same_place_def symbol_size_def)

lemma drawn_marks:
  assumes "drawn scale d" "list_all2 same_place ns (dr_nodes d)"
  shows "drawn scale (d\<lparr>dr_nodes := ns\<rparr>)"
proof -
  have len: "length ns = length (dr_nodes d)" using assms(2) by (rule list_all2_lengthD)
  have sp: "same_place (ns ! i) (dr_nodes d ! i)" if "i < length (dr_nodes d)" for i
    using assms(2) that by (simp add: list_all2_conv_all_nth)
  have "map (node_shape_of scale (dr_size d)) ns = map (node_shape_of scale (dr_size d)) (dr_nodes d)"
    by (rule nth_equalityI) (use len sp same_place_shape in auto)
  moreover have "map (line_shape_of ns) (dr_links d) = map (line_shape_of (dr_nodes d)) (dr_links d)"
    by (rule map_cong)
      (use assms(1) sp in \<open>auto simp: drawn_def line_shape_of_def same_place_def list_all_iff\<close>)
  ultimately show ?thesis using assms(1) len by (simp add: drawn_def)
qed

lemma same_place_refl: "same_place n n"
  by (simp add: same_place_def)

lemma list_all2_map_self: "(\<And>x. P (f x) x) \<Longrightarrow> list_all2 P (map f xs) xs"
  by (simp add: list_all2_conv_all_nth)

lemma drawn_nudge:
  assumes "drawn scale d"
  shows "drawn scale (nudge scale dx dy d)"
proof -
  let ?ns = "map (nudge_node dx dy) (dr_nodes d)"
  have still: "nudge_node dx dy n = n" if "\<not> selected (nudge_node dx dy n)" for n
    using that by (auto simp: nudge_node_def split: if_splits)
  have "map (\<lambda>(n, sh). if selected n then node_shape_of scale (dr_size d) n else sh) (zip ?ns (shapes d))
      = map (node_shape_of scale (dr_size d)) ?ns"
    by (rule nth_equalityI) (use assms in \<open>auto simp: drawn_def still\<close>)
  moreover have "map (nudge_line ?ns) (zip (dr_links d) (lines d)) = map (line_shape_of ?ns) (dr_links d)"
  proof (rule nth_equalityI)
    fix i
    assume "i < length (map (nudge_line ?ns) (zip (dr_links d) (lines d)))"
    then have i: "i < length (dr_links d)" by simp
    obtain s t where l: "dr_links d ! i = (s, t)" by force
    have st: "s < length (dr_nodes d)" "t < length (dr_nodes d)"
      using assms i l by (auto simp: drawn_def list_all_length)
    have "lines d ! i = line_shape_of (dr_nodes d) (s, t)" "i < length (lines d)"
      using assms i l by (auto simp: drawn_def)
    then show "map (nudge_line ?ns) (zip (dr_links d) (lines d)) ! i = map (line_shape_of ?ns) (dr_links d) ! i"
      using i l st by (simp add: nudge_line_def line_shape_of_def Let_def still)
  qed (use assms in \<open>simp add: drawn_def\<close>)
  ultimately show ?thesis
    using assms by (simp add: drawn_def nudge_def Let_def)
qed

lemma drawn_tick: "drawn scale d \<Longrightarrow> drawn scale (tick scale ps d)"
  by (auto simp: drawn_def tick_def Let_def list_all_iff)

lemma drawn_step:
  assumes "drawn scale d"
  shows "drawn scale (user_step scale d e)"
proof (cases e)
  case (MouseDown i)
  have "list_all2 same_place (select_only i (dr_nodes d)) (dr_nodes d)"
    by (auto simp: select_only_def list_all2_conv_all_nth same_place_def position_def nth_enumerate_eq)
  moreover have "list_all2 same_place ((dr_nodes d)[i := (dr_nodes d ! i)\<lparr>selected := True\<rparr>]) (dr_nodes d)"
    by (cases "i < length (dr_nodes d)")
      (auto simp: list_all2_conv_all_nth same_place_def position_def nth_list_update)
  ultimately show ?thesis
    using assms MouseDown drawn_marks by (simp add: mousedown_def)
next
  case BrushStart
  have "list_all2 same_place (map (\<lambda>n. n\<lparr>previouslySelected := shiftKey d \<and> selected n\<rparr>) (dr_nodes d)) (dr_nodes d)"
    by (rule list_all2_map_self) (simp add: same_place_def position_def)
  then show ?thesis using assms BrushStart drawn_marks by (simp add: brushstart_def)
next
  case (Brush x)
  have "list_all2 same_place (map (\<lambda>n. n\<lparr>selected := (previouslySelected n \<noteq> in_extent x n)\<rparr>) (dr_nodes d)) (dr_nodes d)"
    by (rule list_all2_map_self) (simp add: same_place_def position_def)
  then show ?thesis using assms Brush drawn_marks by (simp add: brush_def)
next
  case (KeyDown meta shift code)
  have k: "drawn scale (x\<lparr>shiftKey := b\<rparr>) = drawn scale x" for x b by (simp add: drawn_def)
  show ?thesis
    using assms KeyDown drawn_nudge by (auto simp: keydown_def Let_def k split: option.split)
next
  case (KeyUp meta shift)
  then show ?thesis using assms by (simp add: keyup_def drawn_def)
qed (use assms drawn_tick drawn_nudge in simp_all)

lemma drawn_draw:
  "links_in (length (g_nodes g)) (g_links g) \<Longrightarrow> drawn scale (draw scale g)"
  by (simp add: drawn_def draw_def links_in_def)

section \<open>Selection\<close>

lemma brush_fold:
  "es \<noteq> [] \<Longrightarrow> dr_nodes (fold brush es d) =
     map (\<lambda>n. n\<lparr>selected := (previouslySelected n \<noteq> in_extent (last es) n)\<rparr>) (dr_nodes d)"
proof (induction es rule: rev_induct)
  case (snoc e es)
  show ?case
  proof (cases "es = []")
    case False
    have "in_extent e (n\<lparr>selected := b\<rparr>) = in_extent e n" for n b by (simp add: in_extent_def)
    then show ?thesis using snoc.IH [OF False] by (simp add: brush_def comp_def)
  qed (simp add: brush_def)
qed simp

section \<open>Properties\<close>

text \<open>
  C9: After any sequence of ticks, mouse and keyboard events every shape is where its data
  says: the ellipse on the node, the label and the icon at their offsets, both ends of a line
  on the nodes it joins, although moves write only the selected shapes.
\<close>

theorem shapes_follow_data:
  assumes "links_in (length (g_nodes g)) (g_links g)"
  shows "let d = foldl (user_step scale) (draw scale g) es in
    shapes d = map (node_shape_of scale (dr_size d)) (dr_nodes d) \<and>
    lines d = map (line_shape_of (dr_nodes d)) (dr_links d)"
proof -
  have "drawn scale (foldl (user_step scale) d es)" if "drawn scale d" for d
    using that by (induction es arbitrary: d) (auto intro: drawn_step)
  from this [OF drawn_draw [OF assms]] show ?thesis by (simp add: drawn_def Let_def)
qed

definition sample_graph :: topology_graph where
  "sample_graph = \<lparr>g_nodes = sample_star, g_links = [(1, 0), (0, 2)], networkSize = 2\<rparr>"

theorem shapes_follow_data_witness:
  "let d = foldl (user_step id) (draw id sample_graph) [MouseDown 1, Drag 5 7, KeyDown False False 38] in
     lines d = map (line_shape_of (dr_nodes d)) (dr_links d)"
  using shapes_follow_data [of sample_graph id "[MouseDown 1, Drag 5 7, KeyDown False False 38]"]
  by (simp add: sample_graph_def sample_star_def links_in_def Let_def del: foldl.simps)

text \<open>
  A sweep of the brush selects, whatever extents it went through, the nodes in its last
  extent; with the shift key it exchanges the selection of exactly these nodes.
\<close>

theorem brush_selection:
  assumes "es \<noteq> []"
  shows "map selected (dr_nodes (fold brush es (brushstart d))) =
    map (\<lambda>n. (shiftKey d \<and> selected n) \<noteq> in_extent (last es) n) (dr_nodes d)"
proof -
  have "in_extent e (n\<lparr>previouslySelected := b\<rparr>) = in_extent e n" for e n b by (simp add: in_extent_def)
  then show ?thesis using brush_fold [OF assms, of "brushstart d"] by (simp add: brushstart_def comp_def)
qed

theorem brush_selection_witness:
  "map selected (dr_nodes (fold brush [((0, 0), (9, 9))] (brushstart (draw id sample_graph)))) = [True, True, True]"
  using brush_selection [of "[((0, 0), (9, 9))]" "draw id sample_graph"]
  by (simp add: draw_def sample_graph_def sample_star_def sample_node_def in_extent_def)

text \<open>
  Moving the selection adds the offset to the position of each selected node and leaves the
  others and all marks, and the arrow keys move it by one unit in the direction of the key
  unless the meta key is down.
\<close>

theorem move_selected:
  "dr_nodes (nudge scale dx dy d) = map (\<lambda>n. if selected n then n\<lparr>node_x := map_option (\<lambda>x. x + dx) (node_x n),
      node_y := map_option (\<lambda>y. y + dy) (node_y n)\<rparr> else n) (dr_nodes d) \<and>
   dr_nodes (keydown scale False shift 37 d) = dr_nodes (nudge scale (-1) 0 d) \<and>
   dr_nodes (keydown scale False shift 38 d) = dr_nodes (nudge scale 0 (-1) d) \<and>
   dr_nodes (keydown scale False shift 39 d) = dr_nodes (nudge scale 1 0 d) \<and>
   dr_nodes (keydown scale False shift 40 d) = dr_nodes (nudge scale 0 1 d) \<and>
   dr_nodes (keydown scale True shift code d) = dr_nodes d"
  by (auto simp: nudge_def nudge_node_def keydown_def arrow_def Let_def)

end
