(* ===== verification/UiGeometry.thy ===== *)
theory UiGeometry
  imports Prelude
begin

text \<open>
  Positions and sizes on the page, shared by the placement of dialogs and by dragging and
  resizing. A position has a left and a top coordinate and is a vector, so it is made an
  instance of the library's group class. Rounding is that of \<open>Math.round\<close>.
\<close>

section \<open>Vectors\<close>

datatype pos = Pos (left: rat) (top: rat)

instantiation pos :: ab_group_add
begin

definition zero_pos :: pos where
  "zero_pos = Pos 0 0"

definition plus_pos :: "pos \<Rightarrow> pos \<Rightarrow> pos" where
  "plus_pos p q = Pos (left p + left q) (top p + top q)"

definition minus_pos :: "pos \<Rightarrow> pos \<Rightarrow> pos" where
  "minus_pos p q = Pos (left p - left q) (top p - top q)"

definition uminus_pos :: "pos \<Rightarrow> pos" where
  "uminus_pos p = Pos (- left p) (- top p)"

instance
  by standard (simp_all add: zero_pos_def plus_pos_def minus_pos_def uminus_pos_def)

end

lemma pos_simps [geom_simps]:
  "left 0 = 0" "top 0 = 0" "left (p + q) = left p + left q" "top (p + q) = top p + top q"
  "left (p - q) = left p - left q" "top (p - q) = top p - top q" "left (- p) = - left p" "top (- p) = - top p"
  by (simp_all add: zero_pos_def plus_pos_def minus_pos_def uminus_pos_def)

lemma pos_eq_iff: "p = q \<longleftrightarrow> left p = left q \<and> top p = top q"
  by (cases p; cases q) simp

section \<open>Rounding\<close>

definition round_js :: "rat \<Rightarrow> rat" where
  "round_js x = of_int \<lfloor>x + 1 / 2\<rfloor>"

lemma round_js_bounds: "x - 1 / 2 < round_js x" "round_js x \<le> x + 1 / 2"
  using floor_correct [of "x + 1 / 2"] by (auto simp: round_js_def)

lemma round_js_of_int [simp]: "round_js (of_int i) = of_int i"
  by (simp add: round_js_def floor_unique)

text \<open>\<open>parseFloat(x.toFixed(p))\<close>: halves are rounded away from zero.\<close>

definition to_fixed :: "nat \<Rightarrow> rat \<Rightarrow> rat" where
  "to_fixed p x = (let r = (\<lambda>y. of_int \<lfloor>y * 10 ^ p + 1 / 2\<rfloor> / 10 ^ p) in if x < 0 then - r (- x) else r x)"

text \<open>At most \<open>p\<close> decimals.\<close>

definition decimals :: "nat \<Rightarrow> rat \<Rightarrow> bool" where
  "decimals p x \<longleftrightarrow> of_int \<lfloor>x * 10 ^ p\<rfloor> = x * 10 ^ p"

lemma decimalsI: "x * 10 ^ p = of_int i \<Longrightarrow> decimals p x"
  by (simp add: decimals_def)

lemma decimalsE: "decimals p x \<Longrightarrow> (\<And>i. x * 10 ^ p = of_int i \<Longrightarrow> thesis) \<Longrightarrow> thesis"
  unfolding decimals_def by metis

lemma to_fixed_id: "decimals p x \<Longrightarrow> to_fixed p x = x"
proof (erule decimalsE)
  fix i assume i: "x * 10 ^ p = of_int i"
  have r: "of_int \<lfloor>of_int j + 1 / 2 :: rat\<rfloor> = (of_int j :: rat)" for j by (simp add: floor_unique)
  have "of_int \<lfloor>x * 10 ^ p + 1 / 2\<rfloor> = x * 10 ^ p" "of_int \<lfloor>- x * 10 ^ p + 1 / 2\<rfloor> = - x * 10 ^ p"
    using r [of i] r [of "- i"] i by simp_all
  then show ?thesis by (simp add: to_fixed_def Let_def)
qed

lemma decimals_grid:
  assumes "decimals p a" and "decimals p b"
  shows "decimals p (a + b * of_int k)"
proof -
  obtain i j where "a * 10 ^ p = of_int i" "b * 10 ^ p = of_int j" using assms decimalsE by metis
  then have "(a + b * of_int k) * 10 ^ p = of_int (i + j * k)" by (simp add: algebra_simps)
  then show ?thesis by (rule decimalsI)
qed

lemma decimals_mono: "decimals p x \<Longrightarrow> p \<le> q \<Longrightarrow> decimals q x"
proof (erule decimalsE)
  fix i assume "p \<le> q" "x * 10 ^ p = of_int i"
  then have "x * 10 ^ q = of_int (i * 10 ^ (q - p))"
    using power_add [of "10 :: rat" p "q - p"] by (simp add: mult.assoc [symmetric])
  then show ?thesis by (rule decimalsI)
qed

text \<open>The multiple of a grid step that is nearest to a distance.\<close>

definition to_grid :: "rat \<Rightarrow> rat \<Rightarrow> rat" where
  "to_grid g x = round_js (x / g) * g"

lemma to_grid_bounds:
  assumes "0 < g"
  shows "x - g / 2 < to_grid g x" and "to_grid g x \<le> x + g / 2"
proof -
  have "(x / g - 1 / 2) * g < to_grid g x" "to_grid g x \<le> (x / g + 1 / 2) * g"
    using round_js_bounds [of "x / g"] assms by (simp_all add: to_grid_def)
  then show "x - g / 2 < to_grid g x" "to_grid g x \<le> x + g / 2"
    using assms by (simp_all add: algebra_simps)
qed

end
