(* ===== verification/UiPosition.thy ===== *)
theory UiPosition
  imports UiGeometry
begin

text \<open>
  \<open>jquery.ui.position.js\<close>, which places the dialogs of the application: the parsing of the
  \<open>my\<close> and \<open>at\<close> options, the base position, and the collision handlers \<open>fit\<close>, \<open>flip\<close> and
  \<open>flipfit\<close>. Measurements of the page are arguments. The horizontal and the vertical handlers of \<open>fit\<close> are
  the same computation on different fields, those of \<open>flip\<close> are not.
\<close>

section \<open>Parsing of \<open>my\<close> and \<open>at\<close>\<close>

definition is_word :: "char \<Rightarrow> bool" where
  "is_word c \<longleftrightarrow> is_digit c \<or> c \<in> set ''abcdefghijklmnopqrstuvwxyzABCDEFGHIJKLMNOPQRSTUVWXYZ_''"

definition rhorizontal :: "string \<Rightarrow> bool" where
  "rhorizontal s \<longleftrightarrow> has_substring ''left'' s \<or> has_substring ''center'' s \<or> has_substring ''right'' s"

definition rvertical :: "string \<Rightarrow> bool" where
  "rvertical s \<longleftrightarrow> has_substring ''top'' s \<or> has_substring ''center'' s \<or> has_substring ''bottom'' s"

text \<open>A match of \<open>[\+\-]\d+(\.[\d]+)?%?\<close>: sign, digits, fraction digits, percent sign.\<close>

record offset_text =
  negative :: bool
  whole :: string
  fraction :: string
  percent :: bool

fun match_offset :: "string \<Rightarrow> offset_text option" where
  "match_offset [] = None"
| "match_offset (c # cs) =
     (let d = takeWhile is_digit cs; r = drop (length d) cs;
          f = (if take 1 r = ''.'' then takeWhile is_digit (drop 1 r) else []);
          r' = (if f = [] then r else drop (Suc (length f)) r)
      in if c \<in> set ''+-'' \<and> d \<noteq> [] then
           Some \<lparr>negative = (c = CHR ''-''), whole = d, fraction = f, percent = (take 1 r' = ''%'')\<rparr>
         else None)"

fun roffset :: "string \<Rightarrow> offset_text option" where
  "roffset [] = None"
| "roffset (c # cs) = (case match_offset (c # cs) of Some m \<Rightarrow> Some m | None \<Rightarrow> roffset cs)"

text \<open>\<open>rposition.exec(s)[0]\<close> throws when the text does not start with a word character.\<close>

definition rposition :: "string \<Rightarrow> string js" where
  "rposition s = (let w = takeWhile is_word s in if w = [] then Inl TypeError else Inr w)"

record placement =
  horizontal :: string
  vertical :: string
  h_offset :: "offset_text option"
  v_offset :: "offset_text option"

definition parse_placement :: "string option \<Rightarrow> placement js" where
  "parse_placement opt =
     (let ws = split_on (CHR '' '') [] (case opt of None \<Rightarrow> [] | Some s \<Rightarrow> s);
          p = hd ws;
          pq = (if length ws = 1 then
                  (if rhorizontal p then (p, ''center'') else if rvertical p then (''center'', p)
                   else (''center'', ''center''))
                else (p, ws ! 1));
          h = (if rhorizontal (fst pq) then fst pq else ''center'');
          v = (if rvertical (snd pq) then snd pq else ''center'')
      in case rposition h of Inl e \<Rightarrow> Inl e
         | Inr h' \<Rightarrow> (case rposition v of Inl e \<Rightarrow> Inl e
             | Inr v' \<Rightarrow> Inr \<lparr>horizontal = h', vertical = v', h_offset = roffset h, v_offset = roffset v\<rparr>))"

definition digit_value :: "char \<Rightarrow> rat" where
  "digit_value c = of_nat (of_char c - 48)"

definition offset_number :: "offset_text \<Rightarrow> rat" where
  "offset_number t =
     (let n = foldl (\<lambda>v c. 10 * v + digit_value c) 0 (whole t @ fraction t) / 10 ^ length (fraction t)
      in if negative t then - n else n)"

definition offset_amount :: "offset_text option \<Rightarrow> rat \<Rightarrow> rat" where
  "offset_amount t extent = (case t of None \<Rightarrow> 0
     | Some m \<Rightarrow> offset_number m * (if percent m then extent / 100 else 1))"

definition getOffsets :: "placement \<Rightarrow> rat \<Rightarrow> rat \<Rightarrow> pos" where
  "getOffsets p width height = Pos (offset_amount (h_offset p) width) (offset_amount (v_offset p) height)"

section \<open>Measurements\<close>

datatype target =
    Document rat rat
  | Window rat rat rat rat
  | Event rat rat
  | Element rat rat pos

text \<open>Width, height and offset of the target.\<close>

fun getDimensions :: "target \<Rightarrow> rat \<times> rat \<times> pos" where
  "getDimensions (Document w h) = (w, h, Pos 0 0)"
| "getDimensions (Window w h scrollTop scrollLeft) = (w, h, Pos scrollLeft scrollTop)"
| "getDimensions (Event pageX pageY) = (0, 0, Pos pageX pageY)"
| "getDimensions (Element w h offset) = (w, h, offset)"

record within_info =
  isWindow :: bool
  w_offset :: pos
  w_scroll :: pos
  w_width :: rat
  w_height :: rat
  overflow_x :: string
  overflow_y :: string
  scrollWidth :: rat
  scrollHeight :: rat

text \<open>
  The inner width of a box before and after it gets a scroll bar, and its client width, for
  browsers that do not subtract the bar from the inner width.
\<close>

definition scrollbarWidth :: "rat option \<Rightarrow> rat \<Rightarrow> rat \<Rightarrow> rat \<Rightarrow> rat" where
  "scrollbarWidth cached w1 w2 client =
     (case cached of Some w \<Rightarrow> w | None \<Rightarrow> w1 - (if w1 = w2 then client else w2))"

definition getScrollInfo :: "rat \<Rightarrow> within_info \<Rightarrow> rat \<times> rat" where
  "getScrollInfo bar w =
     (let ox = (if isWindow w then [] else overflow_x w); oy = (if isWindow w then [] else overflow_y w);
          hasX = (ox = ''scroll'' \<or> (ox = ''auto'' \<and> w_width w < scrollWidth w));
          hasY = (oy = ''scroll'' \<or> (oy = ''auto'' \<and> w_height w < scrollHeight w))
      in (if hasY then bar else 0, if hasX then bar else 0))"

record element_info =
  elemWidth :: rat
  elemHeight :: rat
  marginLeft :: rat
  marginTop :: rat
  marginRight :: rat
  marginBottom :: rat

text \<open>What the collision handlers read.\<close>

record collision_data =
  targetWidth :: rat
  targetHeight :: rat
  elem :: element_info
  collisionWidth :: rat
  collisionHeight :: rat
  c_offset :: pos
  my :: placement
  at_place :: placement
  within_el :: within_info

section \<open>Collision handlers\<close>

text \<open>One axis of \<open>fit\<close>, on the fields of that axis.\<close>

definition fit_axis :: "rat \<Rightarrow> rat \<Rightarrow> rat \<Rightarrow> rat \<Rightarrow> rat \<Rightarrow> rat" where
  "fit_axis withinOffset outer margin collision p =
     (let collisionPos = p - margin;
          overStart = withinOffset - collisionPos;
          overEnd = collisionPos + collision - outer - withinOffset
      in if collision > outer then
           (if overStart > 0 \<and> overEnd \<le> 0 then
              (let newOverEnd = p + overStart + collision - outer - withinOffset
               in p + (overStart - newOverEnd))
            else if overEnd > 0 \<and> overStart \<le> 0 then withinOffset
            else if overStart > overEnd then withinOffset + outer - collision
            else withinOffset)
         else if overStart > 0 then p + overStart
         else if overEnd > 0 then p - overEnd
         else max (p - collisionPos) p)"

definition fit_left :: "collision_data \<Rightarrow> pos \<Rightarrow> pos" where
  "fit_left d p = Pos
     (fit_axis (if isWindow (within_el d) then left (w_scroll (within_el d)) else left (w_offset (within_el d)))
        (w_width (within_el d)) (marginLeft (elem d)) (collisionWidth d) (left p))
     (top p)"

definition fit_top :: "collision_data \<Rightarrow> pos \<Rightarrow> pos" where
  "fit_top d p = Pos (left p)
     (fit_axis (if isWindow (within_el d) then top (w_scroll (within_el d)) else top (w_offset (within_el d)))
        (w_height (within_el d)) (marginTop (elem d)) (collisionHeight d) (top p))"

definition mirror_shift :: "string \<Rightarrow> string \<Rightarrow> rat \<Rightarrow> string \<Rightarrow> rat" where
  "mirror_shift near far extent a = (if a = near then extent else if a = far then - extent else 0)"

definition flip_shift_left :: "collision_data \<Rightarrow> rat" where
  "flip_shift_left d =
     mirror_shift ''left'' ''right'' (- elemWidth (elem d)) (horizontal (my d))
     + mirror_shift ''left'' ''right'' (targetWidth d) (horizontal (at_place d))
     + - 2 * left (c_offset d)"

definition flip_shift_top :: "collision_data \<Rightarrow> rat" where
  "flip_shift_top d =
     mirror_shift ''top'' ''bottom'' (- elemHeight (elem d)) (vertical (my d))
     + mirror_shift ''top'' ''bottom'' (targetHeight d) (vertical (at_place d))
     + - 2 * top (c_offset d)"

definition flip_left :: "collision_data \<Rightarrow> pos \<Rightarrow> pos" where
  "flip_left d p =
     (let w = within_el d;
          withinOffset = left (w_offset w) + left (w_scroll w);
          offsetLeft = (if isWindow w then left (w_scroll w) else left (w_offset w));
          collisionPosLeft = left p - marginLeft (elem d);
          overLeft = collisionPosLeft - offsetLeft;
          overRight = collisionPosLeft + collisionWidth d - w_width w - offsetLeft;
          shift = flip_shift_left d;
          newOverRight = left p + shift + collisionWidth d - w_width w - withinOffset;
          newOverLeft = left p - marginLeft (elem d) + shift - offsetLeft
      in if overLeft < 0 then
           (if newOverRight < 0 \<or> newOverRight < \<bar>overLeft\<bar> then Pos (left p + shift) (top p) else p)
         else if overRight > 0 then
           (if newOverLeft > 0 \<or> \<bar>newOverLeft\<bar> < overRight then Pos (left p + shift) (top p) else p)
         else p)"

definition flip_top :: "collision_data \<Rightarrow> pos \<Rightarrow> pos" where
  "flip_top d p =
     (let w = within_el d;
          withinOffset = top (w_offset w) + top (w_scroll w);
          offsetTop = (if isWindow w then top (w_scroll w) else top (w_offset w));
          collisionPosTop = top p - marginTop (elem d);
          overTop = collisionPosTop - offsetTop;
          overBottom = collisionPosTop + collisionHeight d - w_height w - offsetTop;
          shift = flip_shift_top d;
          newOverBottom = top p + shift + collisionHeight d - w_height w - withinOffset;
          newOverTop = top p - marginTop (elem d) + shift - offsetTop
      in if overTop < 0 then
           (if top p + shift > overTop \<and> (newOverBottom < 0 \<or> newOverBottom < \<bar>overTop\<bar>)
            then Pos (left p) (top p + shift) else p)
         else if overBottom > 0 then
           (if top p + shift > overBottom \<and> (newOverTop > 0 \<or> \<bar>newOverTop\<bar> < overBottom)
            then Pos (left p) (top p + shift) else p)
         else p)"

text \<open>A handler that is not one of the three, such as \<open>none\<close>, is skipped.\<close>

definition collide_left :: "string \<Rightarrow> collision_data \<Rightarrow> pos \<Rightarrow> pos" where
  "collide_left c d p =
     (if c = ''fit'' then fit_left d p else if c = ''flip'' then flip_left d p
      else if c = ''flipfit'' then fit_left d (flip_left d p) else p)"

definition collide_top :: "string \<Rightarrow> collision_data \<Rightarrow> pos \<Rightarrow> pos" where
  "collide_top c d p =
     (if c = ''fit'' then fit_top d p else if c = ''flip'' then flip_top d p
      else if c = ''flipfit'' then fit_top d (flip_top d p) else p)"

section \<open>\<open>$.fn.position\<close>\<close>

record position_options =
  my_option :: "string option"
  at_option :: "string option"
  of_target :: target
  collision_option :: "string option"
  within_option :: within_info

definition alignment :: "string \<Rightarrow> rat \<Rightarrow> string \<Rightarrow> rat" where
  "alignment far extent a = (if a = far then extent else if a = ''center'' then extent / 2 else 0)"

definition base_position :: "placement \<Rightarrow> target \<Rightarrow> pos" where
  "base_position pl t = (case getDimensions t of (w, h, offset) \<Rightarrow>
     offset + Pos (alignment ''right'' w (horizontal pl)) (alignment ''bottom'' h (vertical pl))
       + getOffsets pl w h)"

definition own_position :: "placement \<Rightarrow> element_info \<Rightarrow> pos" where
  "own_position pl e =
     getOffsets pl (elemWidth e) (elemHeight e)
     - Pos (alignment ''right'' (elemWidth e) (horizontal pl)) (alignment ''bottom'' (elemHeight e) (vertical pl))"

fun is_event :: "target \<Rightarrow> bool" where
  "is_event (Event _ _) = True"
| "is_event _ = False"

definition collision_names :: "string option \<Rightarrow> string \<times> string" where
  "collision_names c =
     (let cs = split_on (CHR '' '') [] (case c of None \<Rightarrow> ''flip'' | Some s \<Rightarrow> if s = [] then ''flip'' else s)
      in (hd cs, if length cs = 1 then hd cs else cs ! 1))"

definition collision_info ::
    "rat \<Rightarrow> within_info \<Rightarrow> target \<Rightarrow> placement \<Rightarrow> placement \<Rightarrow> element_info \<Rightarrow> collision_data" where
  "collision_info bar wi t m a e =
     (let tw = fst (getDimensions t); th = fst (snd (getDimensions t)); scroll = getScrollInfo bar wi
      in \<lparr>targetWidth = tw, targetHeight = th, elem = e,
          collisionWidth = elemWidth e + marginLeft e + marginRight e + fst scroll,
          collisionHeight = elemHeight e + marginTop e + marginBottom e + snd scroll,
          c_offset = getOffsets a tw th + getOffsets m (elemWidth e) (elemHeight e),
          my = m, at_place = a, within_el = wi\<rparr>)"

definition position_fn ::
    "bool \<Rightarrow> rat \<Rightarrow> position_options \<Rightarrow> element_info \<Rightarrow> pos js" where
  "position_fn fractions bar opts e =
     (let at' = (if is_event (of_target opts) then Some ''left top'' else at_option opts);
          col = collision_names (collision_option opts)
      in case parse_placement (my_option opts) of Inl x \<Rightarrow> Inl x
         | Inr m \<Rightarrow> (case parse_placement at' of Inl x \<Rightarrow> Inl x
         | Inr a \<Rightarrow>
             (let raw = base_position a (of_target opts) + own_position m e;
                  p = (if fractions then raw else Pos (round_js (left raw)) (round_js (top raw)));
                  d = collision_info bar (within_option opts) (of_target opts) m a e
              in Inr (collide_top (snd col) d (collide_left (fst col) d p)))))"

text \<open>The second argument of a \<open>using\<close> callback.\<close>

record feedback =
  f_horizontal :: string
  f_vertical :: string
  f_important :: string

definition using_feedback :: "rat \<Rightarrow> rat \<Rightarrow> pos \<Rightarrow> element_info \<Rightarrow> pos \<Rightarrow> feedback" where
  "using_feedback tw th targetOffset e p =
     (let l = left targetOffset - left p; r = l + tw - elemWidth e;
          t = top targetOffset - top p; b = t + th - elemHeight e
      in \<lparr>f_horizontal = (if tw < elemWidth e \<and> \<bar>l + r\<bar> < tw then ''center''
                          else if r < 0 then ''left'' else if l > 0 then ''right'' else ''center''),
          f_vertical = (if th < elemHeight e \<and> \<bar>t + b\<bar> < th then ''middle''
                        else if b < 0 then ''top'' else if t > 0 then ''bottom'' else ''middle''),
          f_important = (if max \<bar>l\<bar> \<bar>r\<bar> > max \<bar>t\<bar> \<bar>b\<bar> then ''horizontal'' else ''vertical'')\<rparr>)"

section \<open>Fit\<close>

text \<open>The extent \<open>[p - margin, p - margin + collision]\<close> lies in the area on this axis.\<close>

definition inside_axis :: "rat \<Rightarrow> rat \<Rightarrow> rat \<Rightarrow> rat \<Rightarrow> rat \<Rightarrow> bool" where
  "inside_axis start outer margin collision p \<longleftrightarrow>
     start \<le> p - margin \<and> p - margin + collision \<le> start + outer"

lemma fit_axis_inside:
  assumes "collision \<le> outer" and "0 \<le> start"
  shows "inside_axis start outer margin collision (fit_axis start outer margin collision p)"
  using assms by (auto simp: fit_axis_def inside_axis_def Let_def max_def)

lemma fit_axis_fixed:
  assumes "inside_axis start outer margin collision p" and "0 \<le> start"
  shows "fit_axis start outer margin collision p = p"
proof -
  from assms have "collision \<le> outer" "start - (p - margin) \<le> 0"
    "p - margin + collision - outer - start \<le> 0" "margin \<le> p"
    by (simp_all add: inside_axis_def)
  then show ?thesis by (simp add: fit_axis_def Let_def max_def)
qed

lemma fit_axis_wide:
  assumes "outer < collision"
  shows "fit_axis start outer margin collision p \<in> {start, start + outer - collision}"
  using assms by (auto simp: fit_axis_def Let_def)

lemma fit_axis_idem:
  assumes "collision \<le> outer" and "0 \<le> start"
  shows "fit_axis start outer margin collision (fit_axis start outer margin collision p)
    = fit_axis start outer margin collision p"
  using assms by (intro fit_axis_fixed fit_axis_inside)

definition area_start :: "within_info \<Rightarrow> pos" where
  "area_start w = (if isWindow w then w_scroll w else w_offset w)"

lemma fit_left_axis: "fit_left d p = Pos (fit_axis (left (area_start (within_el d))) (w_width (within_el d))
    (marginLeft (elem d)) (collisionWidth d) (left p)) (top p)"
  by (simp add: fit_left_def area_start_def)

lemma fit_top_axis: "fit_top d p = Pos (left p) (fit_axis (top (area_start (within_el d))) (w_height (within_el d))
    (marginTop (elem d)) (collisionHeight d) (top p))"
  by (simp add: fit_top_def area_start_def)

section \<open>Flip\<close>

fun mirror_word :: "string \<Rightarrow> string \<Rightarrow> string \<Rightarrow> string" where
  "mirror_word near far a = (if a = near then far else if a = far then near else a)"

definition mirror_offset :: "offset_text option \<Rightarrow> offset_text option" where
  "mirror_offset t = map_option (\<lambda>m. m\<lparr>negative := \<not> negative m\<rparr>) t"

definition mirror_left :: "placement \<Rightarrow> placement" where
  "mirror_left p = p\<lparr>horizontal := mirror_word ''left'' ''right'' (horizontal p),
                     h_offset := mirror_offset (h_offset p)\<rparr>"

definition mirror_top :: "placement \<Rightarrow> placement" where
  "mirror_top p = p\<lparr>vertical := mirror_word ''top'' ''bottom'' (vertical p),
                    v_offset := mirror_offset (v_offset p)\<rparr>"

lemma offset_amount_mirror: "offset_amount (mirror_offset t) x = - offset_amount t x"
  by (auto simp: offset_amount_def mirror_offset_def offset_number_def Let_def split: option.splits)

text \<open>The options of a call and the target determine the data of the handlers.\<close>

definition placed :: "placement \<Rightarrow> placement \<Rightarrow> target \<Rightarrow> element_info \<Rightarrow> pos" where
  "placed m a t e = base_position a t + own_position m e"

definition describes :: "collision_data \<Rightarrow> target \<Rightarrow> bool" where
  "describes d t \<longleftrightarrow> (\<exists>offset. getDimensions t = (targetWidth d, targetHeight d, offset)) \<and>
     c_offset d = getOffsets (at_place d) (targetWidth d) (targetHeight d)
       + getOffsets (my d) (elemWidth (elem d)) (elemHeight (elem d))"

lemma flip_shift_left_mirrors:
  assumes "describes d t"
  shows "left (placed (mirror_left (my d)) (mirror_left (at_place d)) t (elem d))
    = left (placed (my d) (at_place d) t (elem d)) + flip_shift_left d"
  using assms
  by (auto simp: describes_def placed_def base_position_def own_position_def flip_shift_left_def geom_simps
      alignment_def mirror_shift_def mirror_left_def getOffsets_def offset_amount_mirror split: prod.splits)

lemma flip_shift_top_mirrors:
  assumes "describes d t"
  shows "top (placed (mirror_top (my d)) (mirror_top (at_place d)) t (elem d))
    = top (placed (my d) (at_place d) t (elem d)) + flip_shift_top d"
  using assms
  by (auto simp: describes_def placed_def base_position_def own_position_def flip_shift_top_def geom_simps
      alignment_def mirror_shift_def mirror_top_def getOffsets_def offset_amount_mirror split: prod.splits)

lemma flip_left_cases: "flip_left d p \<in> {p, Pos (left p + flip_shift_left d) (top p)}"
  by (simp add: flip_left_def Let_def)

lemma flip_top_cases: "flip_top d p \<in> {p, Pos (left p) (top p + flip_shift_top d)}"
  by (simp add: flip_top_def Let_def)

lemma flip_left_fits:
  assumes "inside_axis (left (area_start (within_el d))) (w_width (within_el d)) (marginLeft (elem d))
    (collisionWidth d) (left p)"
  shows "flip_left d p = p"
  using assms by (auto simp: flip_left_def Let_def inside_axis_def area_start_def)

lemma flip_top_fits:
  assumes "inside_axis (top (area_start (within_el d))) (w_height (within_el d)) (marginTop (elem d))
    (collisionHeight d) (top p)"
  shows "flip_top d p = p"
  using assms by (auto simp: flip_top_def Let_def inside_axis_def area_start_def)

lemma flip_left_keeps_top [simp]: "top (flip_left d p) = top p"
  and fit_left_keeps_top [simp]: "top (fit_left d p) = top p"
  by (simp_all add: flip_left_def fit_left_def Let_def)

lemma flip_top_keeps_left [simp]: "left (flip_top d p) = left p"
  and fit_top_keeps_left [simp]: "left (fit_top d p) = left p"
  by (simp_all add: flip_top_def fit_top_def Let_def)

lemma collide_top_keeps_left [simp]: "left (collide_top c d p) = left p"
  and collide_left_keeps_top [simp]: "top (collide_left c d p) = top p"
  by (simp_all add: collide_top_def collide_left_def)

section \<open>Properties of a call\<close>

lemma collision_info_sel [simp]:
  "within_el (collision_info bar wi t m a e) = wi" "elem (collision_info bar wi t m a e) = e"
  "my (collision_info bar wi t m a e) = m" "at_place (collision_info bar wi t m a e) = a"
  by (simp_all add: collision_info_def Let_def)

lemma collision_info_describes: "describes (collision_info bar wi t m a e) t"
  by (cases t) (simp_all add: describes_def collision_info_def Let_def)

lemma position_Inr:
  assumes "position_fn fractions bar opts e = Inr q"
  obtains m a p where
    "q = (let d = collision_info bar (within_option opts) (of_target opts) m a e;
              col = collision_names (collision_option opts)
          in collide_top (snd col) d (collide_left (fst col) d p))"
  using assms by (auto simp: position_fn_def Let_def split: sum.splits)

definition outerExtent :: "rat \<Rightarrow> within_info \<Rightarrow> element_info \<Rightarrow> rat \<times> rat" where
  "outerExtent bar w e =
     (elemWidth e + marginLeft e + marginRight e + fst (getScrollInfo bar w),
      elemHeight e + marginTop e + marginBottom e + snd (getScrollInfo bar w))"

lemma collision_info_extent [simp]:
  "collisionWidth (collision_info bar wi t m a e) = fst (outerExtent bar wi e)"
  "collisionHeight (collision_info bar wi t m a e) = snd (outerExtent bar wi e)"
  by (simp_all add: collision_info_def outerExtent_def Let_def)

definition inside_area :: "rat \<Rightarrow> within_info \<Rightarrow> element_info \<Rightarrow> pos \<Rightarrow> bool" where
  "inside_area bar w e q \<longleftrightarrow>
     inside_axis (left (area_start w)) (w_width w) (marginLeft e) (fst (outerExtent bar w e)) (left q) \<and>
     inside_axis (top (area_start w)) (w_height w) (marginTop e) (snd (outerExtent bar w e)) (top q)"

lemma collide_left_fit:
  assumes "c \<in> {''fit'', ''flipfit''}" and "0 \<le> left (area_start (within_el d))"
    and "collisionWidth d \<le> w_width (within_el d)"
  shows "inside_axis (left (area_start (within_el d))) (w_width (within_el d)) (marginLeft (elem d))
    (collisionWidth d) (left (collide_left c d p))"
  using assms by (auto simp: collide_left_def fit_left_axis intro: fit_axis_inside)

lemma collide_top_fit:
  assumes "c \<in> {''fit'', ''flipfit''}" and "0 \<le> top (area_start (within_el d))"
    and "collisionHeight d \<le> w_height (within_el d)"
  shows "inside_axis (top (area_start (within_el d))) (w_height (within_el d)) (marginTop (elem d))
    (collisionHeight d) (top (collide_top c d p))"
  using assms by (auto simp: collide_top_def fit_top_axis intro: fit_axis_inside)

text \<open>
  C20: With the collision handler \<open>fit\<close> or \<open>flipfit\<close> on both axes, an element that is not larger
  than the area it is kept in ends inside that area, margins and scroll bars included, wherever
  its target is and whatever \<open>my\<close> and \<open>at\<close> ask for; the area must not start at negative page
  coordinates.
\<close>

theorem position_fit_inside:
  assumes "position_fn fractions bar opts e = Inr q"
    and "collision_option opts = Some c" and "c \<in> {''fit'', ''flipfit''}"
    and "0 \<le> left (area_start (within_option opts))" and "0 \<le> top (area_start (within_option opts))"
    and "fst (outerExtent bar (within_option opts) e) \<le> w_width (within_option opts)"
    and "snd (outerExtent bar (within_option opts) e) \<le> w_height (within_option opts)"
  shows "inside_area bar (within_option opts) e q"
proof -
  from assms(1) obtain m a p where q:
    "q = (let d = collision_info bar (within_option opts) (of_target opts) m a e;
              col = collision_names (collision_option opts)
          in collide_top (snd col) d (collide_left (fst col) d p))"
    by (rule position_Inr)
  have col: "collision_names (collision_option opts) = (c, c)"
    using assms(2,3) by (auto simp: collision_names_def)
  let ?d = "collision_info bar (within_option opts) (of_target opts) m a e"
  show ?thesis
    using assms(4-7) collide_left_fit [OF assms(3), of ?d] collide_top_fit [OF assms(3), of ?d]
    unfolding q col inside_area_def Let_def by simp
qed

lemma placed_top_mirror_left [simp]: "top (placed (mirror_left m) (mirror_left a) t e) = top (placed m a t e)"
  and placed_left_mirror_top [simp]: "left (placed (mirror_top m) (mirror_top a) t e) = left (placed m a t e)"
  by (auto simp: placed_def base_position_def own_position_def geom_simps mirror_left_def mirror_top_def
      getOffsets_def split: prod.splits)

lemma placed_left_mirror_both [simp]:
  "top (placed (mirror_top (mirror_left m)) (mirror_top (mirror_left a)) t e)
     = top (placed (mirror_top m) (mirror_top a) t e)"
  by (auto simp: placed_def base_position_def own_position_def geom_simps mirror_left_def mirror_top_def
      getOffsets_def split: prod.splits)

lemma flip_left_placed:
  assumes "describes d t" and "left p = left (placed (my d) (at_place d) t (elem d))"
  shows "\<exists>h \<in> {id, mirror_left}. left (flip_left d p) = left (placed (h (my d)) (h (at_place d)) t (elem d))"
  using flip_left_cases [of d p] flip_shift_left_mirrors [OF assms(1)] assms(2) by auto

lemma flip_top_placed:
  assumes "describes d t" and "top p = top (placed (my d) (at_place d) t (elem d))"
  shows "\<exists>v \<in> {id, mirror_top}. top (flip_top d p) = top (placed (v (my d)) (v (at_place d)) t (elem d))"
  using flip_top_cases [of d p] flip_shift_top_mirrors [OF assms(1)] assms(2) by auto

text \<open>
  With the default handler \<open>flip\<close> the element always lands on one of four places: the one
  \<open>my\<close> and \<open>at\<close> ask for, or the one they ask for after exchanging left and right, top and
  bottom, or both, with the sign of the offsets changed; the target is no event.
\<close>

theorem position_flip_mirrors:
  assumes "parse_placement (my_option opts) = Inr m" and "parse_placement (at_option opts) = Inr a"
    and "\<not> is_event (of_target opts)" and "collision_option opts = None"
  shows "\<exists>h \<in> {id, mirror_left}. \<exists>v \<in> {id, mirror_top}.
    position_fn True bar opts e = Inr (placed (v (h m)) (v (h a)) (of_target opts) e)"
proof -
  let ?t = "of_target opts"
  let ?d = "collision_info bar (within_option opts) ?t m a e"
  let ?p = "placed m a ?t e"
  have q: "position_fn True bar opts e = Inr (flip_top ?d (flip_left ?d ?p))"
    using assms by (simp add: position_fn_def collision_names_def collide_left_def collide_top_def Let_def
        placed_def)
  have desc: "describes ?d ?t"
    by (rule collision_info_describes)
  obtain h where h: "h \<in> {id, mirror_left}" "left (flip_left ?d ?p) = left (placed (h m) (h a) ?t e)"
    using flip_left_placed [OF desc, of ?p] by fastforce
  obtain v where v: "v \<in> {id, mirror_top}"
    "top (flip_top ?d (flip_left ?d ?p)) = top (placed (v m) (v a) ?t e)"
    using flip_top_placed [OF desc, of "flip_left ?d ?p"] by fastforce
  have "flip_top ?d (flip_left ?d ?p) = placed (v (h m)) (v (h a)) ?t e"
    using h v by (auto simp: pos_eq_iff)
  then show ?thesis using q h(1) v(1) by auto
qed

section \<open>Parsing reads back what is written\<close>

definition show_offset :: "offset_text option \<Rightarrow> string" where
  "show_offset t = (case t of None \<Rightarrow> ''''
     | Some m \<Rightarrow> (if negative m then ''-'' else ''+'') @ whole m
         @ (if fraction m = [] then '''' else CHR ''.'' # fraction m) @ (if percent m then ''%'' else ''''))"

definition show_placement :: "placement \<Rightarrow> string" where
  "show_placement p =
     horizontal p @ show_offset (h_offset p) @ '' '' @ vertical p @ show_offset (v_offset p)"

definition wf_offset :: "offset_text option \<Rightarrow> bool" where
  "wf_offset t = (case t of None \<Rightarrow> True
     | Some m \<Rightarrow> whole m \<noteq> [] \<and> list_all is_digit (whole m) \<and> list_all is_digit (fraction m))"

definition wf_placement :: "placement \<Rightarrow> bool" where
  "wf_placement p \<longleftrightarrow> horizontal p \<in> {''left'', ''center'', ''right''} \<and>
     vertical p \<in> {''top'', ''center'', ''bottom''} \<and> wf_offset (h_offset p) \<and> wf_offset (v_offset p)"

lemma takeWhile_digits:
  assumes "list_all is_digit ds" and "r = [] \<or> \<not> is_digit (hd r)"
  shows "takeWhile is_digit (ds @ r) = ds"
  using assms by (cases r) (auto simp: list_all_iff takeWhile_append2 takeWhile_tail)

lemma match_offset_show:
  assumes "wf_offset (Some m)"
  shows "match_offset (show_offset (Some m)) = Some m"
proof -
  let ?pc = "if percent m then ''%'' else ''''"
  let ?fr = "(if fraction m = [] then '''' else CHR ''.'' # fraction m) @ ?pc"
  have dig: "whole m \<noteq> []" "list_all is_digit (whole m)" "list_all is_digit (fraction m)"
    using assms by (simp_all add: wf_offset_def)
  have w: "takeWhile is_digit (whole m @ ?fr) = whole m"
    using dig(2) by (intro takeWhile_digits) (simp_all add: is_digit_def)
  have f: "takeWhile is_digit (fraction m @ ?pc) = fraction m"
    using dig(3) by (intro takeWhile_digits) (simp_all add: is_digit_def)
  have f': "drop (length (takeWhile is_digit (fraction m))) (fraction m) = []"
    using takeWhile_digits [OF dig(3), of "[]"] by (metis append_Nil2 drop_all order_refl)
  have sgn: "show_offset (Some m) = (if negative m then CHR ''-'' else CHR ''+'') # whole m @ ?fr"
    by (simp add: show_offset_def)
  show ?thesis
    unfolding sgn using w f f' dig(1) by (cases m) (auto simp: Let_def)
qed

lemma roffset_show:
  assumes "wf_offset t" and "list_all (\<lambda>c. c \<notin> set ''+-'') w"
  shows "roffset (w @ show_offset t) = t"
  using assms(2)
proof (induction w)
  case Nil
  then show ?case
  proof (cases t)
    case None
    then show ?thesis by (simp add: show_offset_def)
  next
    case (Some m)
    have "show_offset (Some m) \<noteq> []" by (simp add: show_offset_def)
    then obtain c cs where c: "show_offset (Some m) = c # cs" by (cases "show_offset (Some m)") auto
    then show ?thesis using match_offset_show [of m] assms(1) Some by simp
  qed
next
  case (Cons c w)
  then have "match_offset ((c # w) @ show_offset t) = None"
    by (simp add: Let_def)
  then show ?case using Cons by simp
qed

lemma rposition_show:
  assumes "w \<noteq> []" and "list_all is_word w"
  shows "rposition (w @ show_offset t) = Inr w"
proof -
  have "takeWhile is_word (show_offset t) = []"
    by (auto simp: show_offset_def is_word_def is_digit_def split: option.split)
  then have "takeWhile is_word (w @ show_offset t) = w"
    using assms(2) by (simp add: list_all_iff)
  then show ?thesis using assms(1) by (simp add: rposition_def)
qed

lemma show_offset_no_space:
  assumes "wf_offset t"
  shows "CHR '' '' \<notin> set (show_offset t)"
proof -
  have "\<not> is_digit CHR '' ''" by (simp add: is_digit_def)
  then show ?thesis
    using assms by (auto simp: show_offset_def wf_offset_def list_all_iff split: option.split_asm)
qed

lemma has_substring_prefix: "has_substring p (p @ r)"
  using has_substring_iff [of p "p @ r"] by (metis append_Nil)

lemma parse_shown:
  assumes "wf_placement p"
  shows "parse_placement (Some (show_placement p)) = Inr p"
proof -
  let ?h = "horizontal p @ show_offset (h_offset p)" and ?v = "vertical p @ show_offset (v_offset p)"
  have wf: "wf_offset (h_offset p)" "wf_offset (v_offset p)"
    and hv: "horizontal p \<in> {''left'', ''center'', ''right''}" "vertical p \<in> {''top'', ''center'', ''bottom''}"
    using assms by (simp_all add: wf_placement_def)
  have sp: "CHR '' '' \<notin> set ?h" "CHR '' '' \<notin> set ?v"
    using hv show_offset_no_space [OF wf(1)] show_offset_no_space [OF wf(2)] by auto
  have ws: "split_on (CHR '' '') [] (show_placement p) = [?h, ?v]"
    using split_on_none(2) [OF sp(1), of "[]" ?v] split_on_none(1) [OF sp(2), of "[]"]
    by (simp add: show_placement_def)
  have "rhorizontal ?h" and "rvertical ?v"
    using hv has_substring_prefix [of _ "show_offset (h_offset p)"]
      has_substring_prefix [of _ "show_offset (v_offset p)"]
    by (auto simp: rhorizontal_def rvertical_def simp del: has_substring.simps append_Cons)
  moreover have "rposition ?h = Inr (horizontal p)" "rposition ?v = Inr (vertical p)"
    using hv by (intro rposition_show; auto simp: is_word_def)+
  moreover have "roffset ?h = h_offset p" "roffset ?v = v_offset p"
    using hv wf by (intro roffset_show; auto)+
  ultimately show ?thesis
    by (simp add: parse_placement_def ws)
qed

text \<open>
  Parsing reads back what is written: a placement printed as \<open>left+10% top-3.5\<close> (any of the
  horizontal and vertical words, each with or without a signed decimal offset, with or without
  a percent sign) parses to exactly that placement, without an exception.
\<close>

theorem parse_show_placement:
  assumes "wf_placement p"
  shows "parse_placement (Some (show_placement p)) = Inr p"
  using assms by (rule parse_shown)

theorem parse_show_placement_witness:
  "parse_placement (Some ''left+10% top-3.5'') =
     Inr \<lparr>horizontal = ''left'', vertical = ''top'',
          h_offset = Some \<lparr>negative = False, whole = ''10'', fraction = [], percent = True\<rparr>,
          v_offset = Some \<lparr>negative = True, whole = ''3'', fraction = ''5'', percent = False\<rparr>\<rparr>"
  using parse_show_placement [of "\<lparr>horizontal = ''left'', vertical = ''top'',
          h_offset = Some \<lparr>negative = False, whole = ''10'', fraction = [], percent = True\<rparr>,
          v_offset = Some \<lparr>negative = True, whole = ''3'', fraction = ''5'', percent = False\<rparr>\<rparr>"]
  by (simp add: wf_placement_def wf_offset_def show_placement_def show_offset_def is_digit_def)

section \<open>The application's dialogs\<close>

definition browser_window :: "rat \<Rightarrow> rat \<Rightarrow> pos \<Rightarrow> within_info" where
  "browser_window w h scroll =
     \<lparr>isWindow = True, w_offset = Pos 0 0, w_scroll = scroll, w_width = w, w_height = h,
      overflow_x = [], overflow_y = [], scrollWidth = w, scrollHeight = h\<rparr>"

definition centered :: "rat \<Rightarrow> rat \<Rightarrow> pos \<Rightarrow> position_options" where
  "centered w h scroll =
     \<lparr>my_option = Some ''center'', at_option = Some ''center'',
      of_target = Window w h (top scroll) (left scroll), collision_option = Some ''fit'',
      within_option = browser_window w h scroll\<rparr>"

definition box :: "rat \<Rightarrow> rat \<Rightarrow> element_info" where
  "box w h = \<lparr>elemWidth = w, elemHeight = h, marginLeft = 0, marginTop = 0, marginRight = 0, marginBottom = 0\<rparr>"

lemma parse_center:
  "parse_placement (Some ''center'') = Inr \<lparr>horizontal = ''center'', vertical = ''center'', h_offset = None, v_offset = None\<rparr>"
  by (simp add: parse_placement_def rhorizontal_def rvertical_def rposition_def is_word_def is_digit_def Let_def)

lemma fit_axis_center:
  assumes "0 \<le> start"
  shows "fit_axis start outer 0 collision (start + outer / 2 - collision / 2) = start + max 0 ((outer - collision) / 2)"
  using assms by (simp add: fit_axis_def Let_def max_def field_simps)

text \<open>
  With the options a dialog has by default (centre on centre of the window, collision
  \<open>fit\<close>), an element without margins is centred in the visible part of the page when it fits,
  and starts at its left or top edge on each axis on which it does not, so its title bar is
  reachable.
\<close>

theorem centered_in_window:
  assumes "0 \<le> left scroll" and "0 \<le> top scroll"
  shows "position_fn True bar (centered w h scroll) (box ew eh) =
    Inr (scroll + Pos (max 0 ((w - ew) / 2)) (max 0 ((h - eh) / 2)))"
proof -
  have "fit_axis (left scroll) w 0 ew (left scroll + w / 2 - ew / 2) = left scroll + max 0 ((w - ew) / 2)"
    and "fit_axis (top scroll) h 0 eh (top scroll + h / 2 - eh / 2) = top scroll + max 0 ((h - eh) / 2)"
    using assms by (simp_all only: fit_axis_center)
  moreover have "base_position a (Window w h (top scroll) (left scroll)) + own_position a (box ew eh)
      = Pos (left scroll + w / 2 - ew / 2) (top scroll + h / 2 - eh / 2)"
    if "a = \<lparr>horizontal = ''center'', vertical = ''center'', h_offset = None, v_offset = None\<rparr>" for a
    using that by (simp add: base_position_def own_position_def pos_eq_iff geom_simps alignment_def
        getOffsets_def offset_amount_def box_def)
  ultimately show ?thesis
    by (simp add: position_fn_def centered_def parse_center collision_names_def Let_def collide_left_def
        collide_top_def fit_left_axis fit_top_axis area_start_def browser_window_def outerExtent_def
        getScrollInfo_def pos_eq_iff geom_simps)
       (simp add: box_def)
qed

theorem centered_in_window_witness:
  "position_fn True 0 (centered 100 80 (Pos 0 30)) (box 60 90) = Inr (Pos 20 30)"
  using centered_in_window [of "Pos 0 30" 0 100 80 60 90] by (simp add: pos_eq_iff geom_simps)

definition sample_popup :: position_options where
  "sample_popup =
     \<lparr>my_option = Some ''left+5 top'', at_option = Some ''right bottom'',
      of_target = Element 10 10 (Pos 90 70), collision_option = Some ''fit'',
      within_option = browser_window 100 80 (Pos 0 0)\<rparr>"

lemma sample_popup_parse:
  "parse_placement (Some ''left+5 top'') = Inr \<lparr>horizontal = ''left'', vertical = ''top'',
     h_offset = Some \<lparr>negative = False, whole = ''5'', fraction = [], percent = False\<rparr>, v_offset = None\<rparr>"
  "parse_placement (Some ''right bottom'') = Inr \<lparr>horizontal = ''right'', vertical = ''bottom'',
     h_offset = None, v_offset = None\<rparr>"
  by (simp_all add: parse_placement_def rhorizontal_def rvertical_def rposition_def is_word_def
      is_digit_def Let_def)

lemmas position_eval = position_fn_def collision_names_def base_position_def own_position_def alignment_def
  getOffsets_def offset_amount_def offset_number_def digit_value_def collision_info_def getScrollInfo_def
  browser_window_def box_def collide_left_def collide_top_def plus_pos_def minus_pos_def Let_def

lemma sample_popup_place: "position_fn True 0 sample_popup (box 20 20) = Inr (Pos 80 60)"
  by (simp add: sample_popup_def sample_popup_parse position_eval fit_left_def fit_top_def fit_axis_def)

theorem position_fit_inside_witness: "inside_area 0 (browser_window 100 80 (Pos 0 0)) (box 20 20) (Pos 80 60)"
  using position_fit_inside [OF sample_popup_place, of "''fit''"]
  by (simp add: sample_popup_def area_start_def browser_window_def outerExtent_def box_def getScrollInfo_def)

theorem position_flip_mirrors_witness:
  "\<exists>h \<in> {id, mirror_left}. \<exists>v \<in> {id, mirror_top}.
    position_fn True 0 (sample_popup\<lparr>collision_option := None\<rparr>) (box 20 20) =
      Inr (placed
        (v (h \<lparr>horizontal = ''left'', vertical = ''top'',
           h_offset = Some \<lparr>negative = False, whole = ''5'', fraction = [], percent = False\<rparr>, v_offset = None\<rparr>))
        (v (h \<lparr>horizontal = ''right'', vertical = ''bottom'', h_offset = None, v_offset = None\<rparr>))
        (Element 10 10 (Pos 90 70)) (box 20 20))"
  using position_flip_mirrors [of "sample_popup\<lparr>collision_option := None\<rparr>" _ _ 0 "box 20 20"]
  by (simp add: sample_popup_def sample_popup_parse)

end
