(* ===== verification/UiWidget.thy ===== *)
theory UiWidget
  imports Prelude
begin

text \<open>
  The widget factory \<open>jquery.ui.widget.js\<close>, on which the dialogs, buttons and mouse interactions
  of the application rest: the deep merge of options, reading and writing options by dotted
  keys, the inheritance and redefinition of widgets, the life cycle of an instance and its
  events. An object with its own enumerable properties is an association list in insertion
  order. Arrays, functions, DOM nodes and instances are references (\<open>JRef\<close>): the code copies
  them as such, and \<open>heap\<close> gives their enumerable properties where it iterates over them.
  Properties inherited from the built-in prototypes are not modelled.
\<close>

section \<open>Values\<close>

datatype jsv =
    JUndef
  | JNil
  | JBoolean bool
  | JNumber rat
  | JString string
  | JRef nat
  | JPlain "(string \<times> jsv) list"

type_synonym jobj = "(string \<times> jsv) list"
type_synonym heap = "nat \<Rightarrow> jobj"

fun truthy_value :: "jsv \<Rightarrow> bool" where
  "truthy_value JUndef = False"
| "truthy_value JNil = False"
| "truthy_value (JBoolean b) = b"
| "truthy_value (JNumber n) = (n \<noteq> 0)"
| "truthy_value (JString s) = (s \<noteq> [])"
| "truthy_value (JRef _) = True"
| "truthy_value (JPlain _) = True"

text \<open>Reading an absent property gives \<open>undefined\<close>.\<close>

definition prop_of :: "jobj \<Rightarrow> string \<Rightarrow> jsv" where
  "prop_of ob k = (case map_of ob k of None \<Rightarrow> JUndef | Some v \<Rightarrow> v)"

definition chars_of :: "string \<Rightarrow> jobj" where
  "chars_of s = map (\<lambda>i. (string_of_nat i, JString [s ! i])) [0..<length s]"

text \<open>What \<open>for (key in v)\<close> visits.\<close>

fun enumerable :: "heap \<Rightarrow> jsv \<Rightarrow> jobj" where
  "enumerable hp (JPlain ob) = ob"
| "enumerable hp (JString s) = chars_of s"
| "enumerable hp (JRef r) = hp r"
| "enumerable hp _ = []"

section \<open>\<open>$.widget.extend\<close>\<close>

text \<open>
  \<open>$.widget.extend({}, v)\<close> clones the plain objects inside \<open>v\<close>. With a non-empty target the
  code clones the target's inner object into a fresh one and merges into that.
\<close>

fun clone_value :: "jsv \<Rightarrow> jsv" and clone :: "jobj \<Rightarrow> jobj" and clone_entry :: "string \<times> jsv \<Rightarrow> jobj" where
  "clone_value (JPlain ob) = JPlain (clone ob)"
| "clone_value v = v"
| "clone [] = []"
| "clone (e # r) = clone_entry e @ clone r"
| "clone_entry (k, v) = (if v = JUndef then [] else [(k, clone_value v)])"

function (sequential) extend_into :: "jobj \<Rightarrow> jobj \<Rightarrow> jobj" where
  "extend_into target [] = target"
| "extend_into target ((k, JUndef) # r) = extend_into target r"
| "extend_into target ((k, JPlain ob) # r) =
     extend_into
       (AList.update k
          (JPlain (case prop_of target k of JPlain t \<Rightarrow> extend_into (clone t) ob | _ \<Rightarrow> extend_into [] ob))
          target) r"
| "extend_into target ((k, v) # r) = extend_into (AList.update k v target) r"
  by pat_completeness auto

termination
  by (relation "measure (\<lambda>(t, ob). size (JPlain ob))") auto

definition widget_extend :: "jobj \<Rightarrow> jobj list \<Rightarrow> jobj" where
  "widget_extend target inputs = foldl extend_into target inputs"

section \<open>Options\<close>

record widget_state =
  options :: jobj
  disabledClass :: bool
  ariaDisabled :: "jsv option"
  hovered :: bool
  focused :: bool

definition setOption_base :: "string \<Rightarrow> jsv \<Rightarrow> widget_state \<Rightarrow> widget_state" where
  "setOption_base k v w =
     (let w1 = w\<lparr>options := AList.update k v (options w)\<rparr>
      in if k = ''disabled'' then
           w1\<lparr>disabledClass := truthy_value v,
              ariaDisabled := (if v = JUndef then ariaDisabled w else if v = JNil then None else Some v),
              hovered := False, focused := False\<rparr>
         else w1)"

text \<open>
  A widget may override \<open>_setOption\<close>, so \<open>_setOptions\<close> and \<open>option\<close> take it as an argument.
\<close>

definition setOptions_with :: "(string \<Rightarrow> jsv \<Rightarrow> 's \<Rightarrow> 's) \<Rightarrow> jobj \<Rightarrow> 's \<Rightarrow> 's" where
  "setOptions_with setOption obs w = fold (\<lambda>(k, v). setOption k v) obs w"

definition enable_base :: "widget_state \<Rightarrow> widget_state" where
  "enable_base w = setOption_base ''disabled'' (JBoolean False) w"

definition disable_base :: "widget_state \<Rightarrow> widget_state" where
  "disable_base w = setOption_base ''disabled'' (JBoolean True) w"

text \<open>
  The walk along \<open>parts\<close> through the copied object. The result of a read is \<open>curOption[key]\<close>; a
  write to a property of a string, number or boolean is ignored, and one through a reference
  changes the object behind it, not the options.
\<close>

definition sub_object :: "jsv \<Rightarrow> jsv" where
  "sub_object v = (if truthy_value v then v else JPlain [])"

fun deep_get :: "heap \<Rightarrow> jsv \<Rightarrow> string list \<Rightarrow> string \<Rightarrow> jsv" where
  "deep_get hp v [] key = prop_of (enumerable hp v) key"
| "deep_get hp v (p # ps) key = deep_get hp (sub_object (prop_of (enumerable hp v) p)) ps key"

fun deep_set :: "jsv \<Rightarrow> string list \<Rightarrow> string \<Rightarrow> jsv \<Rightarrow> jsv" where
  "deep_set (JPlain ob) [] key x = JPlain (AList.update key x ob)"
| "deep_set (JPlain ob) (p # ps) key x =
     JPlain (AList.update p (deep_set (sub_object (prop_of ob p)) ps key x) ob)"
| "deep_set v _ key x = v"

text \<open>\<open>undefined\<close> is reported as \<open>null\<close>.\<close>

definition reported :: "jsv \<Rightarrow> jsv" where
  "reported v = (if v = JUndef then JNil else v)"

definition option_object :: "heap \<Rightarrow> jobj \<Rightarrow> string \<Rightarrow> jsv" where
  "option_object hp opts key = JPlain (extend_into [] (enumerable hp (prop_of opts key)))"

definition option_get :: "heap \<Rightarrow> jobj \<Rightarrow> string \<Rightarrow> jsv" where
  "option_get hp opts k =
     (let parts = split_on (CHR ''.'') [] k; key = hd parts; rest = tl parts
      in if rest = [] then reported (prop_of opts key)
         else reported (deep_get hp (option_object hp opts key) (butlast rest) (last rest)))"

text \<open>The hash that \<open>option(key, value)\<close> passes to \<open>_setOptions\<close>.\<close>

definition option_hash :: "heap \<Rightarrow> jobj \<Rightarrow> string \<Rightarrow> jsv \<Rightarrow> jobj" where
  "option_hash hp opts k x =
     (let parts = split_on (CHR ''.'') [] k; key = hd parts; rest = tl parts
      in if rest = [] then [(key, x)]
         else [(key, deep_set (option_object hp opts key) (butlast rest) (last rest) x)])"

text \<open>
  The whole method for a string key: the new state, and the value read or \<open>None\<close> for \<open>this\<close>.
  Without arguments it returns a copy of the options, with an object it sets each entry.
\<close>

definition option_base ::
    "(string \<Rightarrow> jsv \<Rightarrow> 's \<Rightarrow> 's) \<Rightarrow> ('s \<Rightarrow> jobj) \<Rightarrow> heap \<Rightarrow> string \<Rightarrow> jsv \<Rightarrow> 's \<Rightarrow> 's \<times> jsv option" where
  "option_base setOption opts hp k x w =
     (if x = JUndef then (w, Some (option_get hp (opts w) k))
      else (setOptions_with setOption (option_hash hp (opts w) k x) w, None))"

definition option_copy :: "('s \<Rightarrow> jobj) \<Rightarrow> 's \<Rightarrow> jobj" where
  "option_copy opts w = widget_extend [] [opts w]"

section \<open>Merging\<close>

lemma prop_of_update [simp]:
  "prop_of (AList.update k v ob) k' = (if k' = k then v else prop_of ob k')"
  by (simp add: prop_of_def update_conv')

lemma prop_of_Nil [simp]: "prop_of [] k = JUndef"
  by (simp add: prop_of_def)

lemma prop_of_absent: "k \<notin> fst ` set ob \<Longrightarrow> prop_of ob k = JUndef"
  by (force simp: prop_of_def split: option.split dest: map_of_SomeD)

lemma prop_of_Cons [simp]: "prop_of ((k, v) # ob) k' = (if k' = k then v else prop_of ob k')"
  by (simp add: prop_of_def)

text \<open>Every object of a value has distinct keys.\<close>

fun wf_value :: "jsv \<Rightarrow> bool" and wf_entries :: "jobj \<Rightarrow> bool" and wf_entry :: "string \<times> jsv \<Rightarrow> bool" where
  "wf_value (JPlain ob) = (wf_entries ob \<and> distinct (map fst ob))"
| "wf_value v = True"
| "wf_entries [] = True"
| "wf_entries (e # r) = (wf_entry e \<and> wf_entries r)"
| "wf_entry (k, v) = wf_value v"

fun merged :: "jsv \<Rightarrow> jsv \<Rightarrow> jsv" where
  "merged a JUndef = a"
| "merged (JPlain t) (JPlain ob) = JPlain (extend_into (clone t) ob)"
| "merged a (JPlain ob) = JPlain (extend_into [] ob)"
| "merged a v = v"

lemma merged_plain:
  "merged a (JPlain ob) = JPlain (case a of JPlain t \<Rightarrow> extend_into (clone t) ob | _ \<Rightarrow> extend_into [] ob)"
  by (cases a) simp_all

lemma extend_into_other: "k \<notin> fst ` set ob \<Longrightarrow> prop_of (extend_into t ob) k = prop_of t k"
  by (induction t ob rule: extend_into.induct) auto

text \<open>The law of a merge, key by key.\<close>

lemma prop_of_extend:
  assumes "distinct (map fst ob)"
  shows "prop_of (extend_into t ob) k = merged (prop_of t k) (prop_of ob k)"
  using assms
proof (induction ob arbitrary: t)
  case Nil
  then show ?case by simp
next
  case (Cons e r)
  obtain k1 v where e: "e = (k1, v)" by (cases e)
  then have fresh: "k1 \<notin> fst ` set r" using Cons.prems by auto
  have IH: "prop_of (extend_into t' r) k = merged (prop_of t' k) (prop_of r k)" for t'
    using Cons by simp
  have gone: "prop_of r k1 = JUndef" using fresh by (rule prop_of_absent)
  show ?case
    by (cases v) (auto simp: e IH gone merged_plain simp del: merged.simps(2,3))
qed

lemma map_fst_clone: "map fst (clone ob) = map fst (filter (\<lambda>(k, v). v \<noteq> JUndef) ob)"
  by (induction ob) auto

lemma clone_keys_distinct: "distinct (map fst ob) \<Longrightarrow> distinct (map fst (clone ob))"
  unfolding map_fst_clone by (simp add: distinct_map_filter)

lemma prop_of_clone: "distinct (map fst ob) \<Longrightarrow> prop_of (clone ob) k = clone_value (prop_of ob k)"
proof (induction ob)
  case Nil
  then show ?case by simp
next
  case (Cons e r)
  obtain k1 v where e: "e = (k1, v)" by (cases e)
  have "prop_of r k1 = JUndef" using Cons.prems e by (intro prop_of_absent) auto
  then show ?case using Cons by (auto simp: e)
qed

lemma update_fresh: "k \<notin> fst ` set al \<Longrightarrow> AList.update k v al = al @ [(k, v)]"
  by (induction al) auto

lemma extend_step:
  assumes "\<And>ob. v = JPlain ob \<Longrightarrow> extend_into [] ob = clone ob" and "k \<notin> fst ` set t"
  shows "extend_into t ((k, v) # r) = extend_into (t @ clone_entry (k, v)) r"
proof -
  have "prop_of t k = JUndef" using assms(2) by (rule prop_of_absent)
  then show ?thesis
    using assms by (cases v) (simp_all add: update_fresh)
qed

text \<open>Merging into an object without common keys appends the clone; into a fresh one it clones.\<close>

lemma extend_fresh:
  assumes "wf_entries ob" and "distinct (map fst ob)" and "fst ` set t \<inter> fst ` set ob = {}"
  shows "extend_into t ob = t @ clone ob"
  using assms
proof (induction "size (JPlain ob)" arbitrary: t ob rule: less_induct)
  case less
  show ?case
  proof (cases ob)
    case Nil
    then show ?thesis by simp
  next
    case (Cons e r)
    obtain k v where e: "e = (k, v)" by (cases e)
    have inner: "extend_into [] b = clone b" if "v = JPlain b" for b
      using less.hyps [of b "[]"] less.prems that by (simp add: Cons e)
    have "fst ` set (t @ clone_entry (k, v)) \<inter> fst ` set r = {}"
      using less.prems by (auto simp: Cons e split: if_splits)
    then have "extend_into (t @ clone_entry (k, v)) r = (t @ clone_entry (k, v)) @ clone r"
      using less.hyps [of r] less.prems by (simp add: Cons e)
    moreover have "extend_into t ob = extend_into (t @ clone_entry (k, v)) r"
      unfolding Cons e using less.prems inner by (intro extend_step) (auto simp: Cons e)
    ultimately show ?thesis by (simp add: Cons e)
  qed
qed

lemma extend_clone: "wf_value (JPlain ob) \<Longrightarrow> extend_into [] ob = clone ob"
  using extend_fresh [of ob "[]"] by simp

section \<open>Values along paths\<close>

fun path_value :: "jsv \<Rightarrow> string list \<Rightarrow> jsv" where
  "path_value v [] = v"
| "path_value (JPlain ob) (k # ks) = path_value (prop_of ob k) ks"
| "path_value v (k # ks) = JUndef"

definition is_leaf :: "jsv \<Rightarrow> bool" where
  "is_leaf v \<longleftrightarrow> v \<noteq> JUndef \<and> (\<forall>ob. v \<noteq> JPlain ob)"

text \<open>The input stops being defined somewhere along the path, before a value that is no object.\<close>

fun silent_on :: "jsv \<Rightarrow> string list \<Rightarrow> bool" where
  "silent_on v [] = (v = JUndef)"
| "silent_on (JPlain ob) (k # ks) = silent_on (prop_of ob k) ks"
| "silent_on v (k # ks) = (v = JUndef)"

lemma wf_prop_of: "wf_entries ob \<Longrightarrow> wf_value (prop_of ob k)"
proof (induction ob)
  case Nil
  then show ?case by simp
next
  case (Cons e r)
  then show ?case by (cases e) auto
qed

lemma path_value_undef [simp]: "path_value JUndef ks = JUndef"
  by (cases ks) simp_all

lemma path_value_clone:
  "wf_value v \<Longrightarrow> path_value (clone_value v) ks = clone_value (path_value v ks)"
proof (induction v ks rule: path_value.induct)
  case (2 ob k ks)
  then show ?case by (simp add: prop_of_clone wf_prop_of)
qed simp_all

lemma wf_clone_all:
  shows "wf_value v \<Longrightarrow> wf_value (clone_value v)"
    and "wf_entries ob \<Longrightarrow> wf_entries (clone ob)"
    and "wf_entry e \<Longrightarrow> wf_entries (clone_entry e)"
proof (induction v and ob and e rule: clone_value_clone_clone_entry.induct)
  case (1 ob)
  then show ?case by (simp add: clone_keys_distinct)
next
  case (4 e r)
  moreover have "wf_entries (xs @ ys) = (wf_entries xs \<and> wf_entries ys)" for xs ys
    by (induction xs) auto
  ultimately show ?case by simp
qed simp_all

lemma clone_append: "clone (xs @ ys) = clone xs @ clone ys"
  by (induction xs) auto

lemma clone_idem:
  shows "clone_value (clone_value v) = clone_value v"
    and "clone (clone ob) = clone ob"
    and "clone (clone_entry e) = clone_entry e"
proof (induction v and ob and e rule: clone_value_clone_clone_entry.induct)
  case (5 k v)
  then show ?case by (cases v) simp_all
qed (simp_all add: clone_append)

text \<open>
  The merge along a path: a leaf of the input wins, and where the input is silent the value of
  the target stays (as a clone when the merge went through the object around it).
\<close>

lemma merged_path_leaf:
  assumes "wf_value b" and "is_leaf (path_value b ks)"
  shows "path_value (merged a b) ks = path_value b ks"
  using assms
proof (induction b ks arbitrary: a rule: path_value.induct)
  case (1 v)
  then show ?case by (cases v) (auto simp: is_leaf_def)
next
  case (2 ob k ks)
  have wf: "wf_value (prop_of ob k)" "distinct (map fst ob)"
    using 2(2) by (auto intro: wf_prop_of)
  have "path_value (JPlain (extend_into t ob)) (k # ks) = path_value (prop_of ob k) ks" for t
    using 2 wf by (simp add: prop_of_extend)
  then show ?case by (cases a) simp_all
qed (auto simp: is_leaf_def)

lemma merged_path_silent:
  assumes "wf_value a" and "wf_value b" and "silent_on b ks"
  shows "clone_value (path_value (merged a b) ks) = clone_value (path_value a ks)"
  using assms
proof (induction b ks arbitrary: a rule: silent_on.induct)
  case (1 v)
  then show ?case by simp
next
  case (2 ob k ks)
  have wf: "wf_value (prop_of ob k)" "distinct (map fst ob)" "silent_on (prop_of ob k) ks"
    using 2(3,4) by (auto intro: wf_prop_of)
  have ext: "clone_value (path_value (JPlain (extend_into t ob)) (k # ks)) = clone_value (path_value (prop_of t k) ks)"
    if "wf_entries t" for t
    using 2(1) [of "prop_of t k"] wf that by (simp add: prop_of_extend wf_prop_of)
  show ?case
  proof (cases a)
    case (JPlain t)
    then have t: "wf_entries t" "distinct (map fst t)" using 2(2) by simp_all
    have "clone_value (path_value (merged a (JPlain ob)) (k # ks))
        = clone_value (path_value (prop_of (clone t) k) ks)"
      using ext [of "clone t"] t by (simp add: JPlain wf_clone_all)
    also have "\<dots> = clone_value (clone_value (path_value (prop_of t k) ks))"
      using t by (simp add: prop_of_clone path_value_clone wf_prop_of)
    finally show ?thesis
      by (simp add: JPlain clone_idem)
  qed (use ext [of "[]"] in simp_all)
qed auto

lemma wf_update:
  assumes "wf_value (JPlain ob)" and "wf_value v"
  shows "wf_value (JPlain (AList.update k v ob))"
proof -
  have "wf_entries (AList.update k v ob)" if "wf_entries ob" "wf_value v" for ob
    using that by (induction ob) auto
  then show ?thesis using assms by (simp add: distinct_update)
qed

lemma wf_tail: "wf_value (JPlain (e # r)) \<Longrightarrow> wf_value (JPlain r)"
  by simp

lemma wf_extend:
  "wf_value (JPlain t) \<Longrightarrow> wf_value (JPlain ob) \<Longrightarrow> wf_value (JPlain (extend_into t ob))"
proof (induction t ob rule: extend_into.induct)
  case (3 target k ob r)
  let ?inner = "case prop_of target k of JPlain t \<Rightarrow> extend_into (clone t) ob | _ \<Rightarrow> extend_into [] ob"
  have ob: "wf_value (JPlain ob)" "wf_value (JPlain r)" using "3.prems" by simp_all
  have "wf_value (prop_of target k)" using "3.prems"(1) by (simp add: wf_prop_of)
  then have "wf_value (JPlain ?inner)"
    using "3.IH"(1-7) ob by (cases "prop_of target k") (simp_all add: wf_clone_all clone_keys_distinct)
  then have "wf_value (JPlain (AList.update k (JPlain ?inner) target))"
    using "3.prems"(1) by (intro wf_update)
  then show ?case using "3.IH"(8) ob(2) by simp
qed (auto simp: wf_update simp del: wf_value.simps(1) dest: wf_tail)

lemma extend_path_leaf:
  assumes "wf_value (JPlain ob)" and "is_leaf (path_value (JPlain ob) ks)"
  shows "path_value (JPlain (extend_into t ob)) ks = path_value (JPlain ob) ks"
proof (cases ks)
  case Nil
  then show ?thesis using assms(2) by (simp add: is_leaf_def)
next
  case (Cons k r)
  then show ?thesis
    using assms by (simp add: prop_of_extend wf_prop_of merged_path_leaf)
qed

lemma extend_path_silent:
  assumes "wf_value (JPlain t)" and "wf_value (JPlain ob)" and "silent_on (JPlain ob) ks"
  shows "clone_value (path_value (JPlain (extend_into t ob)) ks) = clone_value (path_value (JPlain t) ks)"
proof (cases ks)
  case Nil
  then show ?thesis using assms(3) by simp
next
  case (Cons k r)
  then show ?thesis
    using assms by (simp add: prop_of_extend wf_prop_of merged_path_silent)
qed

lemma clone_value_leaf: "is_leaf v \<Longrightarrow> clone_value w = clone_value v \<longleftrightarrow> w = v"
  by (cases v; cases w) (auto simp: is_leaf_def)

definition created_options :: "jobj \<Rightarrow> jobj \<Rightarrow> jobj \<Rightarrow> jobj" where
  "created_options defaults createOptions opts = widget_extend [] [defaults, createOptions, opts]"

lemma created_options_cases:
  assumes "wf_value (JPlain d)" and "wf_value (JPlain c)" and "wf_value (JPlain u)"
  shows "is_leaf (path_value (JPlain u) ks) \<Longrightarrow>
      path_value (JPlain (created_options d c u)) ks = path_value (JPlain u) ks"
    and "silent_on (JPlain u) ks \<Longrightarrow> is_leaf (path_value (JPlain c) ks) \<Longrightarrow>
      path_value (JPlain (created_options d c u)) ks = path_value (JPlain c) ks"
    and "silent_on (JPlain u) ks \<Longrightarrow> silent_on (JPlain c) ks \<Longrightarrow>
      clone_value (path_value (JPlain (created_options d c u)) ks) = clone_value (path_value (JPlain d) ks)"
proof -
  let ?d = "extend_into [] d" and ?c = "extend_into (extend_into [] d) c"
  have d: "wf_value (JPlain ?d)" using assms(1) by (intro wf_extend) simp
  have c: "wf_value (JPlain ?c)" using d assms(2) by (rule wf_extend)
  have r: "created_options d c u = extend_into ?c u"
    by (simp add: created_options_def widget_extend_def)
  show "path_value (JPlain (created_options d c u)) ks = path_value (JPlain u) ks"
    if "is_leaf (path_value (JPlain u) ks)"
    unfolding r using assms(3) that by (rule extend_path_leaf)
  show "path_value (JPlain (created_options d c u)) ks = path_value (JPlain c) ks"
    if u: "silent_on (JPlain u) ks" and leaf: "is_leaf (path_value (JPlain c) ks)"
  proof -
    have "clone_value (path_value (JPlain (created_options d c u)) ks) = clone_value (path_value (JPlain ?c) ks)"
      unfolding r using c assms(3) u by (rule extend_path_silent)
    then show ?thesis
      using extend_path_leaf [OF assms(2) leaf, of ?d] leaf by (simp add: clone_value_leaf)
  qed
  show "clone_value (path_value (JPlain (created_options d c u)) ks) = clone_value (path_value (JPlain d) ks)"
    if u: "silent_on (JPlain u) ks" and cs: "silent_on (JPlain c) ks"
  proof -
    have "clone_value (path_value (JPlain ?d) ks) = clone_value (path_value (JPlain d) ks)"
      using path_value_clone [OF assms(1), of ks] extend_clone [OF assms(1)] by (simp add: clone_idem)
    then show ?thesis
      unfolding r using extend_path_silent [OF c assms(3) u] extend_path_silent [OF d assms(2) cs] by simp
  qed
qed

text \<open>
  C13: The options of a new instance, at every path of keys: a value the caller gives wins,
  where the caller gives nothing that of \<open>_getCreateOptions\<close> wins, and where both are silent the
  default of the widget stays. Nested objects are merged, not replaced.
\<close>

theorem created_options_precedence:
  assumes "wf_value (JPlain d)" and "wf_value (JPlain c)" and "wf_value (JPlain u)"
  shows "(is_leaf (path_value (JPlain u) ks) \<longrightarrow>
      path_value (JPlain (created_options d c u)) ks = path_value (JPlain u) ks) \<and>
    (silent_on (JPlain u) ks \<and> is_leaf (path_value (JPlain c) ks) \<longrightarrow>
      path_value (JPlain (created_options d c u)) ks = path_value (JPlain c) ks) \<and>
    (silent_on (JPlain u) ks \<and> silent_on (JPlain c) ks \<longrightarrow>
      clone_value (path_value (JPlain (created_options d c u)) ks) = clone_value (path_value (JPlain d) ks))"
  using created_options_cases [OF assms] by blast

theorem created_options_precedence_witness:
  "path_value (JPlain (created_options
      [(''position'', JPlain [(''my'', JString ''center''), (''at'', JString ''center'')])]
      [(''position'', JPlain [(''at'', JString ''top'')])]
      [(''position'', JPlain [(''my'', JString ''left'')])])) [''position'', ''at''] = JString ''top''"
  using created_options_precedence
    [of "[(''position'', JPlain [(''my'', JString ''center''), (''at'', JString ''center'')])]"
      "[(''position'', JPlain [(''at'', JString ''top'')])]"
      "[(''position'', JPlain [(''my'', JString ''left'')])]" "[''position'', ''at'']"]
  by (simp add: is_leaf_def)

section \<open>Reading back an option\<close>

text \<open>Every value the walk passes is an object or is replaced by a new one.\<close>

fun open_path :: "jsv \<Rightarrow> string list \<Rightarrow> bool" where
  "open_path (JPlain ob) [] = True"
| "open_path (JPlain ob) (p # ps) = open_path (sub_object (prop_of ob p)) ps"
| "open_path v ps = False"

lemma deep_set_plain: "open_path v ps \<Longrightarrow> \<exists>ob. deep_set v ps key x = JPlain ob"
  by (cases "(v, ps)" rule: open_path.cases) auto

lemma path_value_deep_set:
  "open_path v ps \<Longrightarrow> path_value (deep_set v ps key x) (ps @ [key]) = x"
  by (induction v ps rule: open_path.induct) auto

lemma wf_sub_object: "wf_value v \<Longrightarrow> wf_value (sub_object v)"
  by (simp add: sub_object_def)

lemma wf_deep_set: "wf_value v \<Longrightarrow> wf_value x \<Longrightarrow> wf_value (deep_set v ps key x)"
proof (induction v ps key x rule: deep_set.induct)
  case (1 ob key x)
  then show ?case unfolding deep_set.simps by (rule wf_update)
next
  case (2 ob p ps key x)
  have "wf_value (deep_set (sub_object (prop_of ob p)) ps key x)"
    using 2 by (simp add: wf_sub_object wf_prop_of)
  then show ?case unfolding deep_set.simps using 2(2) by (intro wf_update)
qed simp_all

lemma deep_get_path:
  "is_leaf (path_value v (ps @ [key])) \<Longrightarrow> deep_get hp v ps key = path_value v (ps @ [key])"
proof (induction ps arbitrary: v)
  case Nil
  then show ?case by (cases v) (simp_all add: is_leaf_def)
next
  case (Cons p ps)
  then obtain ob where v: "v = JPlain ob" by (cases v) (simp_all add: is_leaf_def)
  obtain ob' where "prop_of ob p = JPlain ob'"
    using Cons.prems v by (cases "prop_of ob p"; cases ps) (simp_all add: is_leaf_def)
  then show ?case using Cons v by (simp add: sub_object_def)
qed

lemma path_value_fresh_copy:
  assumes "wf_value (JPlain ob)" and "is_leaf (path_value (JPlain ob) ks)"
  shows "path_value (JPlain (extend_into [] ob)) ks = path_value (JPlain ob) ks"
  using assms by (rule extend_path_leaf)

lemma reported_leaf [simp]: "is_leaf x \<Longrightarrow> reported x = x"
  by (auto simp: reported_def is_leaf_def)

lemma option_get_hd:
  assumes "prop_of opts' (hd (split_on (CHR ''.'') [] k)) = prop_of opts (hd (split_on (CHR ''.'') [] k))"
  shows "option_get hp opts' k = option_get hp opts k"
  using assms by (simp add: option_get_def option_object_def Let_def)

lemma options_setOption_base [simp]: "options (setOption_base k v w) = AList.update k v (options w)"
  by (simp add: setOption_base_def Let_def)

definition settable :: "heap \<Rightarrow> jobj \<Rightarrow> string \<Rightarrow> bool" where
  "settable hp opts k \<longleftrightarrow>
     (let parts = split_on (CHR ''.'') [] k; ob = enumerable hp (prop_of opts (hd parts))
      in tl parts = [] \<or> wf_value (JPlain ob) \<and> open_path (JPlain (extend_into [] ob)) (butlast (tl parts)))"

lemma option_set_get_parts:
  assumes "is_leaf x" and "settable hp (options w) k"
    and "w' = fst (option_base setOption_base options hp k x w)"
  shows "snd (option_base setOption_base options hp k JUndef w') = Some x"
    and "hd (split_on (CHR ''.'') [] k') \<noteq> hd (split_on (CHR ''.'') [] k) \<Longrightarrow>
      option_get hp (options w') k' = option_get hp (options w) k'"
proof -
  let ?parts = "split_on (CHR ''.'') [] k"
  let ?key = "hd ?parts" and ?rest = "tl ?parts"
  let ?ob = "enumerable hp (prop_of (options w) ?key)"
  have x: "x \<noteq> JUndef" using assms(1) by (auto simp: is_leaf_def)
  obtain v where hash: "option_hash hp (options w) k x = [(?key, v)]"
    by (cases "?rest = []") (simp_all add: option_hash_def Let_def)
  then have w': "options w' = AList.update ?key v (options w)"
    using assms(3) x by (simp add: option_base_def setOptions_with_def)
  show "option_get hp (options w') k' = option_get hp (options w) k'"
    if "hd (split_on (CHR ''.'') [] k') \<noteq> hd (split_on (CHR ''.'') [] k)"
    using that by (intro option_get_hd) (simp add: w')
  show "snd (option_base setOption_base options hp k JUndef w') = Some x"
  proof (cases "?rest = []")
    case True
    then have "v = x" using hash by (simp add: option_hash_def Let_def)
    then show ?thesis
      using True assms(1) by (simp add: option_base_def option_get_def Let_def w')
  next
    case False
    let ?path = "butlast ?rest @ [last ?rest]"
    have wf: "wf_value (JPlain ?ob)" and op: "open_path (JPlain (extend_into [] ?ob)) (butlast ?rest)"
      using assms(2) False by (simp_all add: settable_def Let_def)
    have v: "v = deep_set (JPlain (extend_into [] ?ob)) (butlast ?rest) (last ?rest) x"
      using hash False by (simp add: option_hash_def option_object_def Let_def)
    obtain ob where ob: "v = JPlain ob"
      using deep_set_plain [OF op] v by blast
    have "wf_value (JPlain (extend_into [] ?ob))" using wf by (intro wf_extend) simp
    then have wfv: "wf_value (JPlain ob)"
      unfolding ob [symmetric] v using assms(1) by (intro wf_deep_set) (cases x; simp add: is_leaf_def)+
    have "path_value (JPlain ob) ?path = x"
      using path_value_deep_set [OF op] v ob by simp
    then have "path_value (JPlain (extend_into [] ob)) ?path = x"
      using path_value_fresh_copy [OF wfv, of ?path] assms(1) by simp
    then have "deep_get hp (JPlain (extend_into [] ob)) (butlast ?rest) (last ?rest) = x"
      using deep_get_path [of "JPlain (extend_into [] ob)" "butlast ?rest" "last ?rest" hp] assms(1) by simp
    then show ?thesis
      using False assms(1) by (simp add: option_base_def option_get_def option_object_def Let_def w' ob)
  qed
qed

text \<open>
  C21: Writing an option and reading it back gives the value written, also for a dotted key such
  as \<open>position.my\<close>, and every option with another first key keeps its value. The value that is
  written is not an object (\<open>is_leaf\<close>; that one would be merged with what is there) and not undefined, and
  the path of a dotted key leads through objects or what does not exist yet, not
  through a string or a number, on which the code sets a property that is lost (\<open>settable\<close>).
\<close>

theorem option_set_get:
  assumes "is_leaf x" and "settable hp (options w) k"
    and "w' = fst (option_base setOption_base options hp k x w)"
  shows "snd (option_base setOption_base options hp k JUndef w') = Some x \<and>
    (hd (split_on (CHR ''.'') [] k') \<noteq> hd (split_on (CHR ''.'') [] k) \<longrightarrow>
      option_get hp (options w') k' = option_get hp (options w) k')"
  using option_set_get_parts [OF assms] by blast

definition sample_widget :: widget_state where
  "sample_widget = \<lparr>options = [(''position'', JPlain [(''my'', JString ''center'')]), (''width'', JNumber 300)],
     disabledClass = False, ariaDisabled = None, hovered = False, focused = False\<rparr>"

theorem option_set_get_witness:
  "option_get (\<lambda>r. []) (options (fst (option_base setOption_base options (\<lambda>r. []) ''position.at''
      (JString ''top'') sample_widget))) ''position.at'' = JString ''top''"
  using option_set_get [of "JString ''top''" "\<lambda>r. []" sample_widget "''position.at''", OF _ _ refl]
  by (simp add: is_leaf_def settable_def sample_widget_def option_base_def Let_def)

end
