(* ===== verification/UiFactory.thy ===== *)
theory UiFactory
  imports UiWidget
begin

text \<open>
  The second half of \<open>jquery.ui.widget.js\<close>: how \<open>$.widget\<close> defines and redefines a widget, how a
  method is found along the chain of prototypes, how the plugin of a widget creates instances
  and calls their methods, and how an instance binds, triggers and delays handlers. Methods
  are opaque ids, because they are given by the widgets; hooks such as \<open>_create\<close> are arguments.
\<close>

section \<open>Widget classes\<close>

record prototype =
  p_options :: "jobj option"
  p_prefix :: "string option"
  p_methods :: "(string \<times> nat) list"

record wclass =
  c_namespace :: string
  c_name :: string
  c_prefix :: string
  c_options :: jobj
  c_methods :: "(string \<times> nat) list"
  c_base :: nat
  c_proto :: prototype
  c_children :: "nat list option"

text \<open>The constructors in the order of their creation, and the globals \<open>$[namespace][name]\<close>.\<close>

record widgets =
  classes :: "wclass list"
  registered :: "((string \<times> string) \<times> nat) list"

definition c_fullName :: "wclass \<Rightarrow> string" where
  "c_fullName c = c_namespace c @ ''-'' @ c_name c"

definition base_widget :: wclass where
  "base_widget =
     \<lparr>c_namespace = [], c_name = ''widget'', c_prefix = [],
      c_options = [(''disabled'', JBoolean False), (''create'', JNil)],
      c_methods = [], c_base = 0,
      c_proto = \<lparr>p_options = None, p_prefix = None, p_methods = []\<rparr>, c_children = Some []\<rparr>"

definition initial_widgets :: widgets where
  "initial_widgets = \<lparr>classes = [base_widget], registered = []\<rparr>"

definition new_class :: "widgets \<Rightarrow> string \<times> string \<Rightarrow> nat \<Rightarrow> prototype \<Rightarrow> wclass" where
  "new_class s nm base p =
     (let b = classes s ! base; own = extend_into [] (c_options b)
      in \<lparr>c_namespace = fst nm, c_name = snd nm,
          c_prefix = (case p_prefix p of Some x \<Rightarrow> x
             | None \<Rightarrow> if map_of (registered s) nm = None then snd nm else c_prefix b),
          c_options = (case p_options p of None \<Rightarrow> own | Some ob \<Rightarrow> extend_into (clone own) ob),
          c_methods = p_methods p, c_base = base, c_proto = p, c_children = Some []\<rparr>)"

definition set_children :: "nat \<Rightarrow> nat list option \<Rightarrow> widgets \<Rightarrow> widgets" where
  "set_children c v s = s\<lparr>classes := (classes s)[c := (classes s ! c)\<lparr>c_children := v\<rparr>]\<rparr>"

definition add_class :: "string \<times> string \<Rightarrow> wclass \<Rightarrow> widgets \<Rightarrow> widgets" where
  "add_class nm c s =
     s\<lparr>classes := classes s @ [c], registered := AList.update nm (length (classes s)) (registered s)\<rparr>"

definition name_of :: "widgets \<Rightarrow> nat \<Rightarrow> string \<times> string" where
  "name_of s c = (c_namespace (classes s ! c), c_name (classes s ! c))"

text \<open>
  \<open>$.widget(name, base, prototype)\<close>. Redefining a widget redefines the children it has recorded,
  which may have children of their own: the first argument bounds that depth, \<open>None\<close> is a bound
  that was too small. A list of children that was deleted makes the call throw.
\<close>

primrec define_widget ::
    "nat \<Rightarrow> widgets \<Rightarrow> string \<times> string \<Rightarrow> nat \<Rightarrow> prototype \<Rightarrow> widgets js option" where
  "define_widget 0 = (\<lambda>s nm base p. None)"
| "define_widget (Suc n) = (\<lambda>s nm base p.
     (let me = length (classes s);
          s1 = add_class nm (new_class s nm base p) s
      in case map_of (registered s) nm of
           None \<Rightarrow> (case c_children (classes s ! base) of
               None \<Rightarrow> Some (Inl TypeError)
             | Some cs \<Rightarrow> Some (Inr (set_children base (Some (cs @ [me])) s1)))
         | Some old \<Rightarrow> (case c_children (classes s ! old) of
               None \<Rightarrow> Some (Inl TypeError)
             | Some cs \<Rightarrow>
                 (case foldl (\<lambda>acc child. case acc of
                        Some (Inr t) \<Rightarrow> define_widget n t (name_of t child) me (c_proto (classes t ! child))
                      | _ \<Rightarrow> acc) (Some (Inr s1)) cs of
                    Some (Inr t) \<Rightarrow> Some (Inr (set_children old None t))
                  | r \<Rightarrow> r))))"

text \<open>Looking up a method along the prototypes; \<open>_super\<close> starts one level above the class.\<close>

function find_method :: "wclass list \<Rightarrow> nat \<Rightarrow> string \<Rightarrow> (nat \<times> nat) option" where
  "find_method cs c k =
     (if c < length cs then
        (case map_of (c_methods (cs ! c)) k of
           Some m \<Rightarrow> Some (c, m)
         | None \<Rightarrow> if c_base (cs ! c) < c then find_method cs (c_base (cs ! c)) k else None)
      else None)"
  by pat_completeness auto

termination
  by (relation "measure (\<lambda>(cs, c, k). c)") auto

declare find_method.simps [simp del]

definition super_method :: "wclass list \<Rightarrow> nat \<Rightarrow> string \<Rightarrow> (nat \<times> nat) option" where
  "super_method cs c k = find_method cs (c_base (cs ! c)) k"

text \<open>
  The wrapper around a method: \<open>_super\<close> is set during the call and put back afterwards, unless
  the method throws.
\<close>

definition proxied ::
    "('s \<Rightarrow> 'x) \<Rightarrow> ('x \<Rightarrow> 's \<Rightarrow> 's) \<Rightarrow> 'x \<Rightarrow> ('s \<Rightarrow> 's \<times> 'r js) \<Rightarrow> 's \<Rightarrow> 's \<times> 'r js" where
  "proxied get put super_fn body s =
     (let old = get s; r = body (put super_fn s)
      in case snd r of Inl e \<Rightarrow> r | Inr v \<Rightarrow> (put old (fst r), Inr v))"

section \<open>Instances\<close>

record 'h wpage =
  next_uuid :: nat
  instances :: "(nat \<times> string) \<Rightarrow> 'h option"
  bound :: "(nat \<times> string \<times> string) list"
  el_classes :: "nat \<Rightarrow> string set"
  aria_disabled :: "nat \<Rightarrow> bool"

record winstance =
  element :: nat
  uuid :: nat
  eventNamespace :: string
  i_options :: jobj
  bindings :: "nat list"
  hoverable :: "nat list"
  focusable :: "nat list"

text \<open>
  \<open>_createWidget\<close> up to the hooks: the instance is stored with its element and listens for the
  removal of that element.
\<close>

definition create_instance ::
    "wclass \<Rightarrow> jobj \<Rightarrow> jobj \<Rightarrow> nat \<Rightarrow> winstance wpage \<Rightarrow> winstance wpage \<times> winstance" where
  "create_instance c createOptions opts el p =
     (let ns = ''.'' @ c_name c @ string_of_nat (next_uuid p);
          i = \<lparr>element = el, uuid = next_uuid p, eventNamespace = ns,
               i_options = created_options (c_options c) createOptions opts,
               bindings = [el], hoverable = [], focusable = []\<rparr>
      in (p\<lparr>next_uuid := Suc (next_uuid p),
            instances := (instances p)((el, c_fullName c) \<mapsto> i),
            bound := bound p @ [(el, ''remove'' @ ns, [])]\<rparr>, i))"

text \<open>The hooks run in this order: \<open>_create\<close>, the event \<open>create\<close>, \<open>_init\<close>.\<close>

definition createWidget ::
    "(winstance \<Rightarrow> 's \<Rightarrow> 's) \<Rightarrow> (winstance \<Rightarrow> 's \<Rightarrow> 's) \<Rightarrow> (winstance \<Rightarrow> 's \<Rightarrow> 's) \<Rightarrow> winstance \<Rightarrow> 's \<Rightarrow> 's" where
  "createWidget create trigger_create init i s = init i (trigger_create i (create i s))"

fun ends_with :: "string \<Rightarrow> string \<Rightarrow> bool" where
  "ends_with suf s = starts_with (rev suf) (rev s)"

definition unbind_namespace :: "nat list \<Rightarrow> string \<Rightarrow> 'h wpage \<Rightarrow> 'h wpage" where
  "unbind_namespace els ns p =
     p\<lparr>bound := filter (\<lambda>(el, e, sel). \<not> (el \<in> set els \<and> ends_with ns e)) (bound p)\<rparr>"

definition remove_classes :: "nat list \<Rightarrow> string set \<Rightarrow> 'h wpage \<Rightarrow> 'h wpage" where
  "remove_classes els cs p =
     p\<lparr>el_classes := (\<lambda>el. if el \<in> set els then el_classes p el - cs else el_classes p el)\<rparr>"

text \<open>\<open>destroy\<close>, for a widget whose \<open>widget()\<close> is its element; \<open>_destroy\<close> runs first.\<close>

definition destroy_instance ::
    "(winstance \<Rightarrow> winstance wpage \<Rightarrow> winstance wpage) \<Rightarrow> wclass \<Rightarrow> winstance \<Rightarrow> winstance wpage \<Rightarrow> winstance wpage" where
  "destroy_instance hook c i p =
     (let p1 = unbind_namespace [element i] (eventNamespace i) (hook i p);
          p2 = p1\<lparr>instances := (instances p1)((element i, c_name c) := None, (element i, c_fullName c) := None)\<rparr>;
          p3 = remove_classes [element i] {c_fullName c @ ''-disabled'', ''ui-state-disabled''}
                 (p2\<lparr>aria_disabled := (aria_disabled p2)(element i := False)\<rparr>);
          p4 = unbind_namespace (bindings i) (eventNamespace i) p3
      in remove_classes (focusable i) {''ui-state-focus''} (remove_classes (hoverable i) {''ui-state-hover''} p4))"

section \<open>Events\<close>

text \<open>
  \<open>/^(\w+)\s*(.*)$/\<close> splits an event name into the event and a selector; a text that does not
  start with a word character makes \<open>match[1]\<close> throw.
\<close>

definition is_word_char :: "char \<Rightarrow> bool" where
  "is_word_char c \<longleftrightarrow>
     c \<in> set ''abcdefghijklmnopqrstuvwxyzABCDEFGHIJKLMNOPQRSTUVWXYZ0123456789_''"

definition is_blank :: "char \<Rightarrow> bool" where
  "is_blank c \<longleftrightarrow> c \<in> {CHR '' '', CHR 0x09, CHR 0x0A, CHR 0x0B, CHR 0x0C, CHR 0x0D}"

definition event_binding :: "string \<Rightarrow> string \<Rightarrow> (string \<times> string) js" where
  "event_binding ns ev =
     (let w = takeWhile is_word_char ev; sel = dropWhile is_blank (drop (length w) ev)
      in if w = [] \<or> CHR 0x0A \<in> set sel then Inl TypeError else Inr (w @ ns, sel))"

definition handler_runs :: "bool \<Rightarrow> jobj \<Rightarrow> bool \<Rightarrow> bool" where
  "handler_runs suppressDisabledCheck opts hasDisabledClass \<longleftrightarrow>
     suppressDisabledCheck \<or> \<not> (prop_of opts ''disabled'' = JBoolean True \<or> hasDisabledClass)"

text \<open>\<open>_on\<close> binds each handler under the namespace of the instance.\<close>

fun bind_all :: "nat \<Rightarrow> string \<Rightarrow> string list \<Rightarrow> 'h wpage \<Rightarrow> 'h wpage outcome" where
  "bind_all el ns [] p = (p, None)"
| "bind_all el ns (ev # evs) p = (case event_binding ns ev of
     Inl e \<Rightarrow> (p, Some e)
   | Inr (name, sel) \<Rightarrow> bind_all el ns evs (p\<lparr>bound := bound p @ [(el, name, sel)]\<rparr>))"

definition on_element :: "winstance \<Rightarrow> nat \<Rightarrow> string list \<Rightarrow> 'h wpage \<Rightarrow> winstance \<times> 'h wpage outcome" where
  "on_element i el evs p =
     (i\<lparr>bindings := (if el \<in> set (bindings i) then bindings i else bindings i @ [el])\<rparr>,
      bind_all el (eventNamespace i) evs p)"

text \<open>The text that \<open>_off\<close> passes to \<open>unbind\<close>.\<close>

definition off_names :: "string \<Rightarrow> string \<Rightarrow> string" where
  "off_names ns eventName = join (ns @ '' '') (split_on (CHR '' '') [] eventName) @ ns"

text \<open>\<open>_delay\<close> waits \<open>delay || 0\<close> milliseconds.\<close>

definition delay_time :: "nat option \<Rightarrow> nat" where
  "delay_time d = (case d of None \<Rightarrow> 0 | Some n \<Rightarrow> n)"

definition add_to :: "nat \<Rightarrow> nat list \<Rightarrow> nat list" where
  "add_to el els = (if el \<in> set els then els else els @ [el])"

definition make_hoverable :: "winstance \<Rightarrow> nat \<Rightarrow> 'h wpage \<Rightarrow> winstance \<times> 'h wpage outcome" where
  "make_hoverable i el p =
     on_element (i\<lparr>hoverable := add_to el (hoverable i)\<rparr>) el [''mouseenter'', ''mouseleave''] p"

definition make_focusable :: "winstance \<Rightarrow> nat \<Rightarrow> 'h wpage \<Rightarrow> winstance \<times> 'h wpage outcome" where
  "make_focusable i el p =
     on_element (i\<lparr>focusable := add_to el (focusable i)\<rparr>) el [''focusin'', ''focusout''] p"

definition hover_event :: "bool \<Rightarrow> nat \<Rightarrow> 'h wpage \<Rightarrow> 'h wpage" where
  "hover_event enter el p =
     (if enter then p\<lparr>el_classes := (el_classes p)(el := insert ''ui-state-hover'' (el_classes p el))\<rparr>
      else remove_classes [el] {''ui-state-hover''} p)"

definition focus_event :: "bool \<Rightarrow> nat \<Rightarrow> 'h wpage \<Rightarrow> 'h wpage" where
  "focus_event get el p =
     (if get then p\<lparr>el_classes := (el_classes p)(el := insert ''ui-state-focus'' (el_classes p el))\<rparr>
      else remove_classes [el] {''ui-state-focus''} p)"

definition event_type :: "string \<Rightarrow> string \<Rightarrow> string" where
  "event_type prefix type = map lower_char (if type = prefix then type else prefix @ type)"

text \<open>
  \<open>_trigger\<close>: first the handlers bound to the element, which may prevent the default action, then
  the callback option, which may do so too or return \<open>false\<close>. The result is \<open>False\<close> when the
  action was refused. Handlers and callback are arguments: they change the state, and report
  whether the default is prevented and what they return.
\<close>

definition trigger_event ::
    "(string \<Rightarrow> 's \<Rightarrow> 's \<times> bool) \<Rightarrow> ('s \<Rightarrow> 's \<times> bool \<times> jsv) option \<Rightarrow> string \<Rightarrow> string \<Rightarrow> 's \<Rightarrow> 's \<times> bool" where
  "trigger_event fire callback prefix type s =
     (case fire (event_type prefix type) s of (s1, prevented) \<Rightarrow>
        (case callback of
           None \<Rightarrow> (s1, \<not> prevented)
         | Some cb \<Rightarrow> (case cb s1 of (s2, p, r) \<Rightarrow>
             (s2, \<not> (r = JBoolean False \<or> prevented \<or> p)))))"

text \<open>
  What \<open>_show\<close> and \<open>_hide\<close> do with an element, for the method \<open>show\<close> or \<open>hide\<close> and its default
  effect \<open>fadeIn\<close> or \<open>fadeOut\<close>: an optional delay, and then an effect of the library, an animation
  method of the element or the plain method. Effects are named by strings.
\<close>

datatype show_action =
    Effect string
  | Animation string jsv jsv
  | Plain_method

definition show_object :: "heap \<Rightarrow> jsv \<Rightarrow> jsv" where
  "show_object hp v = (case v of JString e \<Rightarrow> JPlain [(''effect'', JString e)] | JRef r \<Rightarrow> JPlain (hp r) | _ \<Rightarrow> v)"

definition effect_name :: "string \<Rightarrow> string \<Rightarrow> jsv \<Rightarrow> string" where
  "effect_name meth defaultEffect v =
     (if \<not> truthy_value v then meth
      else case v of
        JPlain ob \<Rightarrow> (case prop_of ob ''effect'' of
             JString e \<Rightarrow> if e = [] then defaultEffect else e
           | _ \<Rightarrow> defaultEffect)
      | _ \<Rightarrow> defaultEffect)"

definition show_options :: "jsv \<Rightarrow> jobj" where
  "show_options v = (case v of
     JNumber n \<Rightarrow> if n = 0 then [] else [(''duration'', JNumber n)]
   | JPlain ob \<Rightarrow> ob
   | _ \<Rightarrow> [])"

definition show_plan ::
    "heap \<Rightarrow> (string \<Rightarrow> bool) \<Rightarrow> (string \<Rightarrow> bool) \<Rightarrow> string \<Rightarrow> string \<Rightarrow> jsv \<Rightarrow> jsv option \<times> show_action" where
  "show_plan hp is_effect is_method meth defaultEffect v =
     (let v' = show_object hp v; e = effect_name meth defaultEffect v'; opts = show_options v';
          d = prop_of opts ''delay''
      in (if truthy_value d then Some d else None,
          if opts \<noteq> [] \<and> is_effect e then Effect e
          else if e \<noteq> meth \<and> is_method e then Animation e (prop_of opts ''duration'') (prop_of opts ''easing'')
          else Plain_method))"

section \<open>The plugin of a widget\<close>

datatype call_error = NotInitialized | NoSuchMethod

datatype method_value = ReturnsThis | ReturnsUndefined | ReturnsElements "nat list" | ReturnsValue jsv

datatype chain = Chain "nat list" | Result jsv

text \<open>
  Calling a method by name on a set of elements: the first returned value other than the
  instance or \<open>undefined\<close> ends the iteration and is the result.
\<close>

fun bridge_method ::
    "('s \<Rightarrow> nat \<Rightarrow> bool) \<Rightarrow> (string \<Rightarrow> bool) \<Rightarrow> (nat \<Rightarrow> 's \<Rightarrow> 's \<times> method_value) \<Rightarrow> string
      \<Rightarrow> nat list \<Rightarrow> nat list \<Rightarrow> 's \<Rightarrow> 's \<times> (call_error + chain)" where
  "bridge_method has is_method run name this [] s = (s, Inr (Chain this))"
| "bridge_method has is_method run name this (el # els) s =
     (if \<not> has s el then (s, Inl NotInitialized)
      else if \<not> is_method name \<or> take 1 name = ''_'' then (s, Inl NoSuchMethod)
      else case run el s of (s', v) \<Rightarrow>
        (case v of
           ReturnsThis \<Rightarrow> bridge_method has is_method run name this els s'
         | ReturnsUndefined \<Rightarrow> bridge_method has is_method run name this els s'
         | ReturnsElements es \<Rightarrow> (s', Inr (Chain es))
         | ReturnsValue x \<Rightarrow> (s', Inr (Result x))))"

text \<open>Several option hashes are merged into the first one.\<close>

definition bridge_options :: "jobj \<Rightarrow> jobj list \<Rightarrow> jobj" where
  "bridge_options opts args = (if args = [] then opts else widget_extend opts args)"

fun bridge_init ::
    "('s \<Rightarrow> nat \<Rightarrow> bool) \<Rightarrow> (nat \<Rightarrow> 's \<Rightarrow> 's) \<Rightarrow> (nat \<Rightarrow> 's \<Rightarrow> 's) \<Rightarrow> nat list \<Rightarrow> 's \<Rightarrow> 's" where
  "bridge_init has reconfigure create [] s = s"
| "bridge_init has reconfigure create (el # els) s =
     bridge_init has reconfigure create els
       (if has s el then reconfigure el s else create el s)"

section \<open>Definition and redefinition\<close>

abbreviation current :: "widgets \<Rightarrow> string \<times> string \<Rightarrow> nat option" where
  "current s nm \<equiv> map_of (registered s) nm"

lemma classes_add_class [simp]:
  "classes (add_class nm c s) = classes s @ [c]"
  "registered (add_class nm c s) = AList.update nm (length (classes s)) (registered s)"
  by (simp_all add: add_class_def)

lemma classes_set_children [simp]:
  "classes (set_children c v s) = (classes s)[c := (classes s ! c)\<lparr>c_children := v\<rparr>]"
  "registered (set_children c v s) = registered s"
  by (simp_all add: set_children_def)

lemma new_class_sel [simp]:
  "c_base (new_class s nm b p) = b" "c_methods (new_class s nm b p) = p_methods p"
  "c_children (new_class s nm b p) = Some []" "c_namespace (new_class s nm b p) = fst nm"
  "c_name (new_class s nm b p) = snd nm" "c_proto (new_class s nm b p) = p"
  by (simp_all add: new_class_def Let_def)

lemma find_method_own:
  "c < length cs \<Longrightarrow> map_of (c_methods (cs ! c)) k = Some m \<Longrightarrow> find_method cs c k = Some (c, m)"
  by (simp add: find_method.simps)

lemma find_method_inherited:
  "c < length cs \<Longrightarrow> map_of (c_methods (cs ! c)) k = None \<Longrightarrow> c_base (cs ! c) < c \<Longrightarrow>
    find_method cs c k = find_method cs (c_base (cs ! c)) k"
  by (subst find_method.simps) simp

text \<open>A class finds its methods in the classes created before it.\<close>

lemma find_method_cong:
  assumes "\<And>i. i \<le> c \<Longrightarrow> i < length cs \<and> i < length ds \<and>
      c_methods (ds ! i) = c_methods (cs ! i) \<and> c_base (ds ! i) = c_base (cs ! i)"
  shows "find_method ds c k = find_method cs c k"
  using assms
proof (induction c rule: less_induct)
  case (less c)
  have here: "c < length cs" "c < length ds" "c_methods (ds ! c) = c_methods (cs ! c)"
    "c_base (ds ! c) = c_base (cs ! c)"
    using less.prems [of c] by auto
  have "find_method ds (c_base (cs ! c)) k = find_method cs (c_base (cs ! c)) k" if "c_base (cs ! c) < c"
    using less.IH [OF that] less.prems that by simp
  then show ?case
    by (subst (1 2) find_method.simps) (simp add: here split: option.split)
qed

text \<open>
  Defining a widget under a new name registers it under that name, records it with its base,
  and a method is looked up in its own prototype first and in the base otherwise; the methods of
  the existing widgets stay as they are.
\<close>

theorem define_new_widget:
  assumes "current s nm = None" and "base < length (classes s)"
    and "c_children (classes s ! base) = Some cs" and "0 < fuel"
  shows "\<exists>t. define_widget fuel s nm base p = Some (Inr t) \<and>
    current t nm = Some (length (classes s)) \<and>
    c_children (classes t ! base) = Some (cs @ [length (classes s)]) \<and>
    find_method (classes t) (length (classes s)) k =
      (case map_of (p_methods p) k of Some m \<Rightarrow> Some (length (classes s), m)
       | None \<Rightarrow> find_method (classes s) base k) \<and>
    (\<forall>c < length (classes s). find_method (classes t) c k = find_method (classes s) c k)"
proof -
  let ?me = "length (classes s)"
  let ?t = "set_children base (Some (cs @ [?me])) (add_class nm (new_class s nm base p) s)"
  obtain n where fuel: "fuel = Suc n" using assms(4) gr0_implies_Suc by blast
  have t: "define_widget fuel s nm base p = Some (Inr ?t)"
    using assms by (simp add: fuel Let_def)
  have old: "i < length (classes s) \<Longrightarrow> c_methods (classes ?t ! i) = c_methods (classes s ! i) \<and>
      c_base (classes ?t ! i) = c_base (classes s ! i)" for i
    using assms(2) by (cases "i = base") (simp_all add: nth_append)
  have keep: "find_method (classes ?t) c k = find_method (classes s) c k" if "c < length (classes s)" for c
    using that old by (intro find_method_cong) auto
  have me: "c_methods (classes ?t ! ?me) = p_methods p" "c_base (classes ?t ! ?me) = base" "?me < length (classes ?t)"
    using assms(2) by (simp_all add: nth_append)
  have "find_method (classes ?t) ?me k =
      (case map_of (p_methods p) k of Some m \<Rightarrow> Some (?me, m) | None \<Rightarrow> find_method (classes s) base k)"
    using me assms(2) keep [OF assms(2)]
    by (cases "map_of (p_methods p) k") (simp_all add: find_method_own find_method_inherited)
  moreover have "current ?t nm = Some ?me" by simp
  moreover have "c_children (classes ?t ! base) = Some (cs @ [?me])" using assms(2) by (simp add: nth_append)
  ultimately show ?thesis using t keep by blast
qed

text \<open>A recorded child that is current and has no children of its own.\<close>

definition leaf_child :: "widgets \<Rightarrow> nat \<Rightarrow> bool" where
  "leaf_child s c \<longleftrightarrow> c < length (classes s) \<and> current s (name_of s c) = Some c \<and>
     c_children (classes s ! c) = Some []"

lemma define_leaf:
  assumes "current s nm = Some c" and "c_children (classes s ! c) = Some []"
  shows "define_widget (Suc n) s nm base p = Some (Inr (set_children c None (add_class nm (new_class s nm base p) s)))"
  using assms by (simp add: Let_def)

definition redefine_children :: "nat \<Rightarrow> nat \<Rightarrow> nat list \<Rightarrow> widgets \<Rightarrow> widgets js option" where
  "redefine_children n me cs s = foldl (\<lambda>acc child. case acc of
       Some (Inr t) \<Rightarrow> define_widget n t (name_of t child) me (c_proto (classes t ! child))
     | _ \<Rightarrow> acc) (Some (Inr s)) cs"

lemma define_existing:
  assumes "current s nm = Some old" and "c_children (classes s ! old) = Some cs"
    and "redefine_children n (length (classes s)) cs (add_class nm (new_class s nm base p) s) = Some (Inr t)"
  shows "define_widget (Suc n) s nm base p = Some (Inr (set_children old None t))"
  using assms by (simp add: Let_def redefine_children_def)

definition inherits :: "widgets \<Rightarrow> string \<times> string \<Rightarrow> nat \<Rightarrow> (string \<times> nat) list \<Rightarrow> bool" where
  "inherits t nm me ms \<longleftrightarrow> (\<exists>c. current t nm = Some c \<and> c < length (classes t) \<and>
     c_base (classes t ! c) = me \<and> c_methods (classes t ! c) = ms)"

text \<open>What one call changes and what it leaves alone.\<close>

definition extends_widgets :: "(string \<times> string) set \<Rightarrow> nat set \<Rightarrow> widgets \<Rightarrow> widgets \<Rightarrow> bool" where
  "extends_widgets nms olds s t \<longleftrightarrow> length (classes s) \<le> length (classes t) \<and>
     (\<forall>nm. nm \<notin> nms \<longrightarrow> current t nm = current s nm) \<and>
     (\<forall>i < length (classes s). c_methods (classes t ! i) = c_methods (classes s ! i) \<and>
        c_base (classes t ! i) = c_base (classes s ! i) \<and> name_of t i = name_of s i \<and>
        c_proto (classes t ! i) = c_proto (classes s ! i) \<and>
        (i \<notin> olds \<longrightarrow> c_children (classes t ! i) = c_children (classes s ! i)))"

lemma extends_refl [simp]: "extends_widgets nms olds s s"
  by (simp add: extends_widgets_def)

lemma extends_trans:
  assumes "extends_widgets n1 o1 s t" and "extends_widgets n2 o2 t u"
  shows "extends_widgets (n1 \<union> n2) (o1 \<union> o2) s u"
  using assms by (simp add: extends_widgets_def)

lemma extends_child:
  assumes "c < length (classes s)"
  shows "extends_widgets {nm} {c} s (set_children c None (add_class nm (new_class s nm base p) s))"
  using assms by (auto simp: extends_widgets_def name_of_def nth_append nth_list_update)

lemma extends_leaf_child:
  assumes "extends_widgets nms olds s t" and "leaf_child s c" and "name_of s c \<notin> nms" and "c \<notin> olds"
  shows "leaf_child t c" and "name_of t c = name_of s c" and "c_proto (classes t ! c) = c_proto (classes s ! c)"
  using assms by (auto simp: extends_widgets_def leaf_child_def simp del: split_paired_All)

lemma extends_inherits:
  assumes "extends_widgets nms olds s t" and "inherits s nm me ms" and "nm \<notin> nms"
  shows "inherits t nm me ms"
  using assms unfolding inherits_def extends_widgets_def by (metis order_less_le_trans)

lemma redefine_children_leaves:
  assumes "\<And>c. c \<in> set cs \<Longrightarrow> leaf_child s c" and "distinct (map (name_of s) cs)"
  shows "\<exists>t. redefine_children (Suc n) me cs s = Some (Inr t) \<and>
    extends_widgets (name_of s ` set cs) (set cs) s t \<and>
    (\<forall>c \<in> set cs. inherits t (name_of s c) me (p_methods (c_proto (classes s ! c))))"
  using assms
proof (induction cs arbitrary: s)
  case Nil
  then show ?case by (simp add: redefine_children_def)
next
  case (Cons c cs)
  let ?nm = "name_of s c" and ?p = "c_proto (classes s ! c)"
  let ?u = "set_children c None (add_class ?nm (new_class s ?nm me ?p) s)"
  have c: "leaf_child s c" using Cons.prems(1) by simp
  have step: "define_widget (Suc n) s ?nm me ?p = Some (Inr ?u)"
    using c by (intro define_leaf) (simp_all add: leaf_child_def)
  have ext: "extends_widgets {?nm} {c} s ?u"
    using c by (intro extends_child) (simp add: leaf_child_def)
  have new: "inherits ?u ?nm me (p_methods ?p)"
    using c by (auto simp: inherits_def leaf_child_def nth_append)
  have rest: "leaf_child ?u d \<and> name_of ?u d = name_of s d \<and> c_proto (classes ?u ! d) = c_proto (classes s ! d)"
    if "d \<in> set cs" for d
  proof -
    have "?nm \<notin> name_of s ` set cs" using Cons.prems(2) by simp
    then have "name_of s d \<noteq> ?nm" using that by (metis imageI)
    then have "leaf_child s d" "name_of s d \<noteq> ?nm" "d \<noteq> c" using Cons.prems(1) that by auto
    then show ?thesis using extends_leaf_child [OF ext, of d] by blast
  qed
  then have names: "map (name_of ?u) cs = map (name_of s) cs" by (intro map_cong) auto
  have img: "name_of ?u ` set cs = name_of s ` set cs"
    using rest by (intro image_cong) auto
  have dist: "distinct (map (name_of ?u) cs)" unfolding names using Cons.prems(2) by simp
  have leaves: "leaf_child ?u d" if "d \<in> set cs" for d using rest [OF that] by (rule conjunct1)
  from Cons.IH [OF leaves dist] obtain t where
    t: "redefine_children (Suc n) me cs ?u = Some (Inr t)"
      "extends_widgets (name_of ?u ` set cs) (set cs) ?u t"
      "\<forall>d \<in> set cs. inherits t (name_of ?u d) me (p_methods (c_proto (classes ?u ! d)))"
    by blast
  have "redefine_children (Suc n) me (c # cs) s = redefine_children (Suc n) me cs ?u"
    unfolding redefine_children_def by (simp only: foldl_Cons option.case sum.case step)
  moreover have "extends_widgets (name_of s ` set (c # cs)) (set (c # cs)) s t"
    using extends_trans [OF ext t(2)] img by simp
  moreover have "inherits t ?nm me (p_methods ?p)"
    using extends_inherits [OF t(2) new] img Cons.prems(2) by simp
  moreover have "inherits t (name_of s d) me (p_methods (c_proto (classes s ! d)))" if "d \<in> set cs" for d
    using t(3) rest [OF that] that by metis
  ultimately show ?case using t(1) by auto
qed

definition redefinable :: "widgets \<Rightarrow> string \<times> string \<Rightarrow> nat \<Rightarrow> nat list \<Rightarrow> bool" where
  "redefinable s nm old cs \<longleftrightarrow> current s nm = Some old \<and> old < length (classes s) \<and>
     c_children (classes s ! old) = Some cs \<and> list_all (leaf_child s) cs \<and>
     distinct (map (name_of s) cs) \<and> nm \<notin> name_of s ` set cs"

lemma redefine_once:
  assumes "redefinable s nm old cs"
  obtains t where "define_widget (Suc (Suc n)) s nm base p = Some (Inr t)"
    and "current t nm = Some (length (classes s))"
    and "length (classes s) < length (classes t)"
    and "c_children (classes t ! length (classes s)) = Some []"
    and "\<And>c. c \<in> set cs \<Longrightarrow>
      inherits t (name_of s c) (length (classes s)) (p_methods (c_proto (classes s ! c)))"
proof -
  let ?me = "length (classes s)"
  let ?s1 = "add_class nm (new_class s nm base p) s"
  have cur: "current s nm = Some old" "c_children (classes s ! old) = Some cs" "old < ?me"
    and leaf: "\<And>c. c \<in> set cs \<Longrightarrow> leaf_child s c"
    and dist: "distinct (map (name_of s) cs)" and nm: "nm \<notin> name_of s ` set cs"
    using assms by (simp_all add: redefinable_def list_all_iff)
  have same: "name_of ?s1 c = name_of s c \<and> c_proto (classes ?s1 ! c) = c_proto (classes s ! c)"
    if "c \<in> set cs" for c
    using leaf [OF that] by (simp add: leaf_child_def name_of_def nth_append)
  have leaf1: "leaf_child ?s1 c" if "c \<in> set cs" for c
  proof -
    have "name_of s c \<noteq> nm" using nm that by (metis imageI)
    then show ?thesis
      using leaf [OF that] same [OF that] by (simp add: leaf_child_def nth_append)
  qed
  have names: "map (name_of ?s1) cs = map (name_of s) cs" using same by (intro map_cong) auto
  have img: "name_of ?s1 ` set cs = name_of s ` set cs" using same by (intro image_cong) auto
  have dist1: "distinct (map (name_of ?s1) cs)" unfolding names by (rule dist)
  obtain t where t: "redefine_children (Suc n) ?me cs ?s1 = Some (Inr t)"
    "extends_widgets (name_of ?s1 ` set cs) (set cs) ?s1 t"
    "\<And>c. c \<in> set cs \<Longrightarrow> inherits t (name_of ?s1 c) ?me (p_methods (c_proto (classes ?s1 ! c)))"
    using redefine_children_leaves [OF leaf1 dist1, of n ?me] by blast
  let ?t = "set_children old None t"
  have def: "define_widget (Suc (Suc n)) s nm base p = Some (Inr ?t)"
    using cur(1,2) t(1) by (rule define_existing)
  have len: "?me < length (classes t)" using t(2) by (simp add: extends_widgets_def)
  have me: "?me \<notin> set cs" using leaf by (auto simp: leaf_child_def)
  have ch: "c_children (classes ?t ! ?me) = Some []"
    using t(2) me cur(3) by (simp add: extends_widgets_def nth_append)
  have reg: "current ?t nm = Some ?me"
    using t(2) nm unfolding img by (simp add: extends_widgets_def del: split_paired_All)
  have inh: "inherits ?t (name_of s c) ?me (p_methods (c_proto (classes s ! c)))" if c: "c \<in> set cs" for c
  proof -
    obtain d where d: "current t (name_of s c) = Some d" "d < length (classes t)"
      "c_base (classes t ! d) = ?me" "c_methods (classes t ! d) = p_methods (c_proto (classes s ! c))"
      using t(3) [OF c] same [OF c] unfolding inherits_def by auto
    then show ?thesis
      unfolding inherits_def using cur(3) by (cases "d = old") auto
  qed
  show thesis
  proof (rule that [OF def reg _ ch])
    show "?me < length (classes ?t)" using len by simp
  qed (rule inh)
qed

text \<open>
  Redefining a widget renews the widgets recorded as inheriting from it: afterwards each of
  them is registered with a constructor that has its own methods and inherits from the new
  version; a bound of two on the depth is enough when they have no children themselves.
\<close>

theorem redefinition_reaches_children:
  assumes "redefinable s nm old cs"
  shows "\<exists>t. define_widget (Suc (Suc n)) s nm base p = Some (Inr t) \<and>
    current t nm = Some (length (classes s)) \<and>
    (\<forall>c \<in> set cs. inherits t (name_of s c) (length (classes s)) (p_methods (c_proto (classes s ! c))))"
  by (rule redefine_once [OF assms, of n base p]) blast

text \<open>
  A second redefinition does not reach them any more. The first one re-created the children
  without recording them with the new version (\<open>_childConstructors.push\<close> is reached for new names
  only), so after the second one they still inherit from the first new version.
\<close>

theorem second_redefinition_misses_children:
  assumes "redefinable s nm old cs"
  shows "\<exists>t u. define_widget (Suc (Suc n)) s nm base p = Some (Inr t) \<and>
    define_widget (Suc m) t nm base' p' = Some (Inr u) \<and>
    current u nm = Some (length (classes t)) \<and> length (classes s) < length (classes t) \<and>
    (\<forall>c \<in> set cs. inherits u (name_of s c) (length (classes s)) (p_methods (c_proto (classes s ! c))))"
proof -
  let ?me = "length (classes s)"
  obtain t where t: "define_widget (Suc (Suc n)) s nm base p = Some (Inr t)"
    "current t nm = Some ?me" "?me < length (classes t)" "c_children (classes t ! ?me) = Some []"
    "\<And>c. c \<in> set cs \<Longrightarrow> inherits t (name_of s c) ?me (p_methods (c_proto (classes s ! c)))"
    by (rule redefine_once [OF assms, of n base p]) blast
  let ?u = "set_children ?me None (add_class nm (new_class t nm base' p') t)"
  have u: "define_widget (Suc m) t nm base' p' = Some (Inr ?u)"
    using t(2,4) by (rule define_leaf)
  have ext: "extends_widgets {nm} {?me} t ?u"
    using t(3) by (rule extends_child)
  have "inherits ?u (name_of s c) ?me (p_methods (c_proto (classes s ! c)))" if c: "c \<in> set cs" for c
  proof -
    have "name_of s c \<noteq> nm" using assms c by (auto simp: redefinable_def)
    then show ?thesis using extends_inherits [OF ext t(5) [OF c]] by simp
  qed
  then show ?thesis using t u by auto
qed

section \<open>A base and one child\<close>

definition base_proto :: prototype where
  "base_proto = \<lparr>p_options = Some [(''width'', JNumber 300)], p_prefix = None, p_methods = [(''open'', 1)]\<rparr>"

definition child_proto :: prototype where
  "child_proto = \<lparr>p_options = None, p_prefix = None, p_methods = [(''close'', 2)]\<rparr>"

definition two_widgets :: widgets where
  "two_widgets =
     (case define_widget 1 initial_widgets (''ui'', ''base'') 0 base_proto of
        Some (Inr s) \<Rightarrow> (case define_widget 1 s (''ui'', ''child'') 1 child_proto of Some (Inr t) \<Rightarrow> t | _ \<Rightarrow> s)
      | _ \<Rightarrow> initial_widgets)"

lemma two_widgets_redefinable: "redefinable two_widgets (''ui'', ''base'') 1 [2]"
  by (simp add: two_widgets_def initial_widgets_def base_widget_def base_proto_def child_proto_def Let_def
      redefinable_def leaf_child_def name_of_def add_class_def set_children_def new_class_def)

theorem redefinition_reaches_children_witness:
  "\<exists>t. define_widget 2 two_widgets (''ui'', ''base'') 1 base_proto = Some (Inr t) \<and>
    current t (''ui'', ''base'') = Some (length (classes two_widgets)) \<and>
    inherits t (name_of two_widgets 2) (length (classes two_widgets)) (p_methods (c_proto (classes two_widgets ! 2)))"
  using redefinition_reaches_children [OF two_widgets_redefinable, of 0 1 base_proto]
  by (simp only: set_simps ball_simps numeral_2_eq_2 One_nat_def) auto

theorem second_redefinition_misses_children_witness:
  "\<exists>t u. define_widget 2 two_widgets (''ui'', ''base'') 1 base_proto = Some (Inr t) \<and>
    define_widget 1 t (''ui'', ''base'') 1 base_proto = Some (Inr u) \<and>
    current u (''ui'', ''base'') = Some (length (classes t)) \<and> length (classes two_widgets) < length (classes t) \<and>
    inherits u (name_of two_widgets 2) (length (classes two_widgets)) (p_methods (c_proto (classes two_widgets ! 2)))"
  using second_redefinition_misses_children [OF two_widgets_redefinable, of 0 1 base_proto 0 1 base_proto]
  by (simp only: set_simps ball_simps numeral_2_eq_2 One_nat_def) auto

theorem define_new_widget_witness:
  "\<exists>t. define_widget 1 two_widgets (''ui'', ''dialog'') 2 child_proto = Some (Inr t) \<and>
    current t (''ui'', ''dialog'') = Some 3"
  using define_new_widget [of two_widgets "(''ui'', ''dialog'')" 2 "[]" 1 child_proto "''open''"]
  by (simp add: two_widgets_def initial_widgets_def base_widget_def base_proto_def child_proto_def Let_def
      add_class_def set_children_def new_class_def)

section \<open>Life of an instance\<close>

definition quiet_page :: "wclass \<Rightarrow> nat \<Rightarrow> winstance wpage \<Rightarrow> bool" where
  "quiet_page c el p \<longleftrightarrow> instances p (el, c_name c) = None \<and> instances p (el, c_fullName c) = None \<and>
     list_all (\<lambda>(e, name, sel). \<not> ends_with (''.'' @ c_name c @ string_of_nat (next_uuid p)) name) (bound p) \<and>
     el_classes p el \<inter> {c_fullName c @ ''-disabled'', ''ui-state-disabled''} = {} \<and> \<not> aria_disabled p el"

lemma ends_with_append [simp]: "ends_with suf (xs @ suf)"
  by (simp add: starts_with_iff)

text \<open>
  Destroying an instance undoes its creation: the page has the data, bound handlers, classes
  and attributes it had before, and only the counter of instances moved on.
\<close>

theorem destroy_undoes_create:
  assumes "quiet_page c el p" and "create_instance c createOptions opts el p = (p', i)"
  shows "destroy_instance (\<lambda>i q. q) c i p' = p\<lparr>next_uuid := Suc (next_uuid p)\<rparr>"
proof -
  let ?ns = "''.'' @ c_name c @ string_of_nat (next_uuid p)"
  have i: "element i = el" "eventNamespace i = ?ns" "bindings i = [el]" "hoverable i = []" "focusable i = []"
    and p': "next_uuid p' = Suc (next_uuid p)" "instances p' = (instances p)((el, c_fullName c) \<mapsto> i)"
      "bound p' = bound p @ [(el, ''remove'' @ ?ns, [])]" "el_classes p' = el_classes p"
      "aria_disabled p' = aria_disabled p"
    using assms(2) by (auto simp: create_instance_def Let_def)
  have b: "filter (\<lambda>(e, name, sel). \<not> (e = el \<and> ends_with ?ns name)) (bound p) = bound p"
    using assms(1) by (auto simp: quiet_page_def list_all_iff filter_id_conv simp del: ends_with.simps)
  have b': "filter (\<lambda>(e, name, sel). \<not> (e = el \<and> ends_with ?ns name)) (bound p') = bound p"
    using b ends_with_append [of ?ns "''remove''"] by (simp add: p' del: ends_with.simps)
  show ?thesis
  proof (rule wpage.equality)
    show "bound (destroy_instance (\<lambda>i q. q) c i p') = bound (p\<lparr>next_uuid := Suc (next_uuid p)\<rparr>)"
      using b b' by (simp add: destroy_instance_def unbind_namespace_def remove_classes_def i Let_def
          del: ends_with.simps filter_filter)
  qed (use assms(1) in \<open>auto simp: destroy_instance_def unbind_namespace_def remove_classes_def i p'
      Let_def quiet_page_def fun_eq_iff\<close>)
qed

section \<open>What a plugin relies on\<close>

text \<open>Elements either have an instance or not; creating one touches only its element.\<close>

locale plugin =
  fixes has :: "'s \<Rightarrow> nat \<Rightarrow> bool"
    and reconfigure :: "nat \<Rightarrow> 's \<Rightarrow> 's"
    and create :: "nat \<Rightarrow> 's \<Rightarrow> 's"
  assumes has_create: "\<not> has s el \<Longrightarrow> has (create el s) e \<longleftrightarrow> e = el \<or> has s e"
    and has_reconfigure: "has (reconfigure el s) e \<longleftrightarrow> has s e"
begin

lemma has_init: "has (bridge_init has reconfigure create els s) e \<longleftrightarrow> e \<in> set els \<or> has s e"
  by (induction els arbitrary: s) (auto simp: has_create has_reconfigure)

text \<open>A second call on the same elements only changes options.\<close>

lemma init_again:
  "bridge_init has reconfigure create els (bridge_init has reconfigure create els s) =
   fold reconfigure els (bridge_init has reconfigure create els s)"
proof -
  have "bridge_init has reconfigure create xs t = fold reconfigure xs t" if "\<forall>e \<in> set xs. has t e" for xs t
    using that by (induction xs arbitrary: t) (simp_all add: has_reconfigure)
  then show ?thesis by (simp add: has_init)
qed

lemma method_finds_instances:
  assumes "\<And>el t e. has (fst (run el t)) e \<longleftrightarrow> has t e" and "\<forall>e \<in> set els. has s e"
  shows "snd (bridge_method has is_method run name this els s) \<noteq> Inl NotInitialized"
  using assms(2)
proof (induction els arbitrary: s)
  case Nil
  then show ?case by simp
next
  case (Cons el els)
  obtain s' v where r: "run el s = (s', v)" by (cases "run el s")
  then have "\<forall>e \<in> set els. has s' e" using assms(1) [of el s] Cons.prems by simp
  then show ?case using Cons.IH [of s'] Cons.prems r by (cases v) auto
qed

end

definition has_instance :: "wclass \<Rightarrow> winstance wpage \<Rightarrow> nat \<Rightarrow> bool" where
  "has_instance c p el \<longleftrightarrow> instances p (el, c_fullName c) \<noteq> None"

definition create_on :: "wclass \<Rightarrow> jobj \<Rightarrow> jobj \<Rightarrow> nat \<Rightarrow> winstance wpage \<Rightarrow> winstance wpage" where
  "create_on c createOptions opts el p = fst (create_instance c createOptions opts el p)"

definition reconfigure_on :: "wclass \<Rightarrow> jobj \<Rightarrow> nat \<Rightarrow> winstance wpage \<Rightarrow> winstance wpage" where
  "reconfigure_on c opts el p =
     (case instances p (el, c_fullName c) of
        None \<Rightarrow> p
      | Some i \<Rightarrow> p\<lparr>instances := (instances p)((el, c_fullName c) \<mapsto>
            i\<lparr>i_options := setOptions_with (\<lambda>k v ob. AList.update k v ob) opts (i_options i)\<rparr>)\<rparr>)"

definition plugin_call :: "wclass \<Rightarrow> jobj \<Rightarrow> jobj \<Rightarrow> nat list \<Rightarrow> winstance wpage \<Rightarrow> winstance wpage" where
  "plugin_call c createOptions opts els p =
     bridge_init (has_instance c) (reconfigure_on c opts) (create_on c createOptions opts) els p"

interpretation widget_plugin: plugin "has_instance c" "reconfigure_on c opts" "create_on c createOptions opts"
  by unfold_locales
    (auto simp: has_instance_def create_on_def reconfigure_on_def create_instance_def Let_def split: option.splits)

text \<open>Instances have numbers below the counter, and different ones have different numbers.\<close>

definition uuid_at :: "winstance wpage \<Rightarrow> nat \<times> string \<Rightarrow> nat option" where
  "uuid_at p k = map_option uuid (instances p k)"

definition uuids_ok :: "winstance wpage \<Rightarrow> bool" where
  "uuids_ok p \<longleftrightarrow> (\<forall>k u. uuid_at p k = Some u \<longrightarrow> u < next_uuid p) \<and>
     (\<forall>k l u. uuid_at p k = Some u \<and> uuid_at p l = Some u \<longrightarrow> k = l)"

definition same_instance :: "wclass \<Rightarrow> nat \<Rightarrow> winstance wpage \<Rightarrow> winstance wpage \<Rightarrow> bool" where
  "same_instance c el p q \<longleftrightarrow> (\<forall>i. instances p (el, c_fullName c) = Some i \<longrightarrow>
     (\<exists>j. instances q (el, c_fullName c) = Some j \<and> uuid j = uuid i))"

lemma uuid_at_create_on:
  "uuid_at (create_on c co opts el p) = (uuid_at p)((el, c_fullName c) \<mapsto> next_uuid p)"
  by (simp add: uuid_at_def create_on_def create_instance_def Let_def fun_eq_iff)

lemma create_on_uuids: "uuids_ok p \<Longrightarrow> uuids_ok (create_on c co opts el p)"
proof -
  assume ok: "uuids_ok p"
  have n: "next_uuid (create_on c co opts el p) = Suc (next_uuid p)"
    by (simp add: create_on_def create_instance_def Let_def)
  show ?thesis
    using ok unfolding uuids_ok_def uuid_at_create_on n fun_upd_apply
    by (metis less_Suc_eq option.inject order_less_irrefl)
qed

lemma reconfigure_on_uuids: "uuids_ok p \<Longrightarrow> uuids_ok (reconfigure_on c opts el p)"
proof -
  have "uuid_at (reconfigure_on c opts el p) = uuid_at p" "next_uuid (reconfigure_on c opts el p) = next_uuid p"
    by (auto simp: uuid_at_def reconfigure_on_def fun_eq_iff split: option.splits)
  then show "uuids_ok p \<Longrightarrow> ?thesis" by (simp add: uuids_ok_def)
qed

lemma create_on_same: "\<not> has_instance c p el \<Longrightarrow> same_instance c e p (create_on c co opts el p)"
  by (auto simp: same_instance_def has_instance_def create_on_def create_instance_def Let_def)

lemma reconfigure_on_same: "same_instance c e p (reconfigure_on c opts el p)"
  by (auto simp: same_instance_def reconfigure_on_def split: option.splits)

lemma same_trans: "same_instance c e p q \<Longrightarrow> same_instance c e q r \<Longrightarrow> same_instance c e p r"
  unfolding same_instance_def by metis

lemma same_refl: "same_instance c e p p"
  by (simp add: same_instance_def)

lemma plugin_one_instance_parts:
  assumes "uuids_ok p" and "q = plugin_call c createOptions opts els p"
  shows "uuids_ok q" and "has_instance c q el \<longleftrightarrow> el \<in> set els \<or> has_instance c p el"
    and "same_instance c el p q"
proof -
  show "has_instance c q el \<longleftrightarrow> el \<in> set els \<or> has_instance c p el"
    unfolding assms(2) plugin_call_def by (rule widget_plugin.has_init)
  have "uuids_ok (plugin_call c createOptions opts xs p) \<and>
      same_instance c el p (plugin_call c createOptions opts xs p)" if "uuids_ok p" for xs p
    using that
  proof (induction xs arbitrary: p)
    case Nil
    then show ?case by (simp add: plugin_call_def same_refl)
  next
    case (Cons x xs)
    let ?p = "if has_instance c p x then reconfigure_on c opts x p else create_on c createOptions opts x p"
    have "uuids_ok ?p" "same_instance c el p ?p"
      using Cons.prems by (simp_all add: create_on_uuids reconfigure_on_uuids create_on_same reconfigure_on_same)
    then show ?case
      using Cons.IH [of ?p] by (auto simp: plugin_call_def intro: same_trans)
  qed
  then show "uuids_ok q" and "same_instance c el p q"
    using assms by blast+
qed

text \<open>
  Calling the plugin of a widget on some elements leaves every one of them with exactly one
  instance: those that had one keep it (only its options change), the others get a new one with
  a number no other instance has.
\<close>

theorem plugin_one_instance:
  assumes "uuids_ok p" and "q = plugin_call c createOptions opts els p"
  shows "uuids_ok q \<and> (has_instance c q el \<longleftrightarrow> el \<in> set els \<or> has_instance c p el) \<and> same_instance c el p q"
  using plugin_one_instance_parts [OF assms] by blast

definition empty_page :: "winstance wpage" where
  "empty_page = \<lparr>next_uuid = 0, instances = (\<lambda>k. None), bound = [], el_classes = (\<lambda>el. {}), aria_disabled = (\<lambda>el. False)\<rparr>"

lemma empty_page_create:
  "create_instance base_widget [] [] 5 empty_page =
     (create_on base_widget [] [] 5 empty_page, snd (create_instance base_widget [] [] 5 empty_page))"
  by (simp add: create_on_def)

theorem destroy_undoes_create_witness:
  "destroy_instance (\<lambda>i q. q) base_widget (snd (create_instance base_widget [] [] 5 empty_page))
     (create_on base_widget [] [] 5 empty_page) = empty_page\<lparr>next_uuid := 1\<rparr>"
  using destroy_undoes_create [OF _ empty_page_create] by (simp add: quiet_page_def empty_page_def)

theorem plugin_one_instance_witness:
  "uuids_ok (plugin_call base_widget [] [] [5, 6, 5] empty_page) \<and>
   has_instance base_widget (plugin_call base_widget [] [] [5, 6, 5] empty_page) 6"
proof -
  have "uuids_ok empty_page" by (simp add: uuids_ok_def uuid_at_def empty_page_def)
  from plugin_one_instance [OF this refl] show ?thesis by simp
qed

section \<open>Redefinitions end\<close>

text \<open>
  The names of the recorded children of a widget have a smaller rank than its own name, so that no
  widget is recorded below itself.
\<close>

definition ranked :: "(string \<times> string \<Rightarrow> nat) \<Rightarrow> widgets \<Rightarrow> bool" where
  "ranked rk s \<longleftrightarrow> (\<forall>nm c cs d. current s nm = Some c \<longrightarrow> c_children (classes s ! c) = Some cs \<longrightarrow> d \<in> set cs \<longrightarrow>
       d < length (classes s) \<and> current s (name_of s d) \<noteq> None \<and> rk (name_of s d) < rk nm) \<and>
     (\<forall>nm c. current s nm = Some c \<longrightarrow> c < length (classes s))"

definition grows :: "widgets \<Rightarrow> widgets \<Rightarrow> bool" where
  "grows s t \<longleftrightarrow> length (classes s) \<le> length (classes t) \<and>
     (\<forall>i < length (classes s). name_of t i = name_of s i) \<and> (\<forall>nm. current s nm \<noteq> None \<longrightarrow> current t nm \<noteq> None)"

lemma grows_trans: "grows s t \<Longrightarrow> grows t u \<Longrightarrow> grows s u"
  by (simp add: grows_def)

lemma grows_add: "grows s (add_class nm (new_class s nm' b p) s)"
  by (auto simp: grows_def name_of_def nth_append update_conv')

lemma name_of_forget [simp]: "name_of (set_children c v s) d = name_of s d"
  by (cases "c < length (classes s)"; cases "d = c") (simp_all add: name_of_def list_update_beyond)

lemma grows_forget: "grows s (set_children c None s)"
  by (simp add: grows_def)

lemma rankedD:
  assumes "ranked rk s" and "current s nm = Some c"
  shows "c < length (classes s)"
    and "c_children (classes s ! c) = Some cs \<Longrightarrow> d \<in> set cs \<Longrightarrow>
      d < length (classes s) \<and> current s (name_of s d) \<noteq> None \<and> rk (name_of s d) < rk nm"
  using assms unfolding ranked_def by blast+

lemma ranked_add:
  assumes "ranked rk s"
  shows "ranked rk (add_class nm (new_class s nm b p) s)"
proof -
  let ?t = "add_class nm (new_class s nm b p) s"
  have old: "c_children (classes ?t ! c) = c_children (classes s ! c)" "name_of ?t c = name_of s c"
    if "c < length (classes s)" for c
    using that by (simp_all add: nth_append name_of_def)
  show ?thesis
    unfolding ranked_def
  proof (intro conjI allI impI)
    fix m c cs d
    assume a: "current ?t m = Some c" "c_children (classes ?t ! c) = Some cs" "d \<in> set cs"
    have c: "m \<noteq> nm" "current s m = Some c"
      using a by (auto simp: update_conv' split: if_splits)
    have "c < length (classes s)" using rankedD(1) [OF assms c(2)] .
    then have "d < length (classes s)" "current s (name_of s d) \<noteq> None" "rk (name_of s d) < rk m"
      using rankedD(2) [OF assms c(2)] a(2,3) old(1) by auto
    then show "d < length (classes ?t)" "current ?t (name_of ?t d) \<noteq> None" "rk (name_of ?t d) < rk m"
      using old(2) by (auto simp: update_conv')
  next
    fix m c
    assume "current ?t m = Some c"
    then show "c < length (classes ?t)"
      using rankedD(1) [OF assms] by (auto simp: update_conv' less_SucI split: if_splits)
  qed
qed

lemma ranked_forget:
  assumes "ranked rk s"
  shows "ranked rk (set_children c None s)"
proof -
  have "c_children (classes (set_children c None s) ! e) = Some cs \<Longrightarrow> c_children (classes s ! e) = Some cs" for e cs
    by (cases "e = c"; cases "c < length (classes s)") (simp_all add: list_update_beyond)
  moreover have "length (classes (set_children c None s)) = length (classes s)" by simp
  ultimately show ?thesis
    using assms unfolding ranked_def name_of_forget classes_set_children(2) by metis
qed

text \<open>The outcome of a call that came to an end.\<close>

definition ends_ranked :: "(string \<times> string \<Rightarrow> nat) \<Rightarrow> widgets \<Rightarrow> widgets js option \<Rightarrow> bool" where
  "ends_ranked rk s r \<longleftrightarrow> (\<exists>e. r = Some (Inl e)) \<or> (\<exists>t. r = Some (Inr t) \<and> ranked rk t \<and> grows s t)"

lemma redefine_children_ends:
  assumes "\<And>s nm b p. ranked rk s \<Longrightarrow> current s nm \<noteq> None \<Longrightarrow> rk nm < n \<Longrightarrow> ends_ranked rk s (define_widget n s nm b p)"
    and "ranked rk s" and "\<forall>d \<in> set cs. d < length (classes s) \<and> current s (name_of s d) \<noteq> None \<and> rk (name_of s d) < n"
  shows "ends_ranked rk s (redefine_children n me cs s)"
  using assms(2,3)
proof (induction cs arbitrary: s)
  case Nil
  then show ?case by (simp add: redefine_children_def ends_ranked_def grows_def)
next
  case (Cons d cs)
  let ?r = "define_widget n s (name_of s d) me (c_proto (classes s ! d))"
  have "ends_ranked rk s ?r" using Cons.prems by (intro assms(1)) simp_all
  then consider e where "?r = Some (Inl e)" | t where "?r = Some (Inr t)" "ranked rk t" "grows s t"
    by (auto simp: ends_ranked_def)
  then show ?case
  proof cases
    case (1 e)
    have "foldl (\<lambda>acc child. case acc of Some (Inr t) \<Rightarrow> define_widget n t (name_of t child) me (c_proto (classes t ! child))
        | _ \<Rightarrow> acc) (Some (Inl e)) cs = Some (Inl e)"
      by (induction cs) simp_all
    then show ?thesis by (simp add: redefine_children_def 1 ends_ranked_def)
  next
    case (2 t)
    have "\<forall>d \<in> set cs. d < length (classes t) \<and> current t (name_of t d) \<noteq> None \<and> rk (name_of t d) < n"
      using Cons.prems(2) 2(3) unfolding grows_def by (metis list.set_intros(2) order_less_le_trans)
    then have "ends_ranked rk t (redefine_children n me cs t)" using 2(2) by (intro Cons.IH)
    moreover have "redefine_children n me (d # cs) s = redefine_children n me cs t"
      by (simp add: redefine_children_def 2(1))
    ultimately show ?thesis using grows_trans [OF 2(3)] by (auto simp: ends_ranked_def)
  qed
qed

lemma define_existing_ends:
  "ranked rk s \<Longrightarrow> current s nm \<noteq> None \<Longrightarrow> rk nm < n \<Longrightarrow> ends_ranked rk s (define_widget n s nm b p)"
proof (induction n arbitrary: s nm b p)
  case (Suc n)
  obtain old where old: "current s nm = Some old" using Suc.prems(2) by blast
  let ?s1 = "add_class nm (new_class s nm b p) s"
  show ?case
  proof (cases "c_children (classes s ! old)")
    case None
    then show ?thesis by (simp add: old ends_ranked_def Let_def)
  next
    case (Some cs)
    have "\<forall>d \<in> set cs. d < length (classes s) \<and> current s (name_of s d) \<noteq> None \<and> rk (name_of s d) < rk nm"
      using rankedD(2) [OF Suc.prems(1) old Some] by blast
    then have "\<forall>d \<in> set cs. d < length (classes ?s1) \<and> current ?s1 (name_of ?s1 d) \<noteq> None \<and> rk (name_of ?s1 d) < n"
      using grows_add [of s nm nm b p] Suc.prems(3) unfolding grows_def by (metis less_Suc_eq_le order_less_le_trans)
    then have "ends_ranked rk ?s1 (redefine_children n (length (classes s)) cs ?s1)"
      using Suc.IH ranked_add [OF Suc.prems(1)] by (intro redefine_children_ends) blast+
    then consider e where "redefine_children n (length (classes s)) cs ?s1 = Some (Inl e)"
      | t where "redefine_children n (length (classes s)) cs ?s1 = Some (Inr t)" "ranked rk t" "grows ?s1 t"
      by (auto simp: ends_ranked_def)
    then show ?thesis
    proof cases
      case (1 e)
      then show ?thesis using old Some by (simp add: Let_def redefine_children_def ends_ranked_def)
    next
      case (2 t)
      have "define_widget (Suc n) s nm b p = Some (Inr (set_children old None t))"
        using old Some 2(1) by (rule define_existing)
      then show ?thesis
        using ranked_forget [OF 2(2)] grows_trans [OF grows_add grows_trans [OF 2(3) grows_forget]]
        by (auto simp: ends_ranked_def)
    qed
  qed
qed simp

text \<open>
  A call of \<open>$.widget\<close> comes to an end: when no widget is recorded below itself, the rank of its
  name bounds the depth of the redefinitions of children, and a bound above it is enough.
\<close>

theorem redefinition_ends:
  assumes "ranked rk s" and "rk nm < fuel"
  shows "\<exists>r. define_widget fuel s nm base p = Some r"
proof (cases "current s nm")
  case None
  obtain n where "fuel = Suc n" using assms(2) by (cases fuel) simp_all
  then show ?thesis using None by (cases "c_children (classes s ! base)") (simp_all add: Let_def)
next
  case (Some c)
  then show ?thesis using define_existing_ends [OF assms(1) _ assms(2), of base p] by (auto simp: ends_ranked_def)
qed

theorem redefinition_ends_witness: "\<exists>r. define_widget 2 two_widgets (''ui'', ''base'') 0 base_proto = Some r"
proof -
  have "ranked (\<lambda>nm. if nm = (''ui'', ''base'') then 1 else 0) two_widgets"
    by (auto simp: ranked_def two_widgets_def initial_widgets_def base_widget_def base_proto_def child_proto_def Let_def
        name_of_def add_class_def set_children_def new_class_def split: if_splits)
  from redefinition_ends [OF this] show ?thesis by simp
qed

end
