(* ===== verification/UiMouse.thy ===== *)
theory UiMouse
  imports Prelude
begin

text \<open>
  \<open>jquery.ui.mouse.js\<close>: the protocol between mouse events and the interactions built on them
  (dragging and resizing dialogs). All widgets of a page share the flag \<open>mouseHandled\<close> and the
  document's handlers. The methods \<open>_mouseCapture\<close>, \<open>_mouseStart\<close>, \<open>_mouseDrag\<close>, \<open>_mouseStop\<close> and an
  overridden \<open>_mouseUp\<close> are given by the interaction, as a record of functions on its state.
\<close>

section \<open>Events and widgets\<close>

record mouse_event =
  ev_target :: "nat option"
  pageX :: rat
  pageY :: rat
  which :: nat
  button :: nat

text \<open>The empty object \<open>{}\<close> that \<open>draggable\<close> passes when it ends a drag itself.\<close>

definition no_event :: mouse_event where
  "no_event = \<lparr>ev_target = None, pageX = 0, pageY = 0, which = 0, button = 0\<rparr>"

text \<open>
  \<open>m_drag\<close> also says whether the interaction ends the drag by a call of \<open>_mouseUp({})\<close>; \<open>m_start\<close>
  and \<open>m_capture\<close> say whether they did not return \<open>false\<close>.
\<close>

record 's mouse_methods =
  m_capture :: "mouse_event \<Rightarrow> 's \<Rightarrow> 's \<times> bool"
  m_start :: "mouse_event \<Rightarrow> 's \<Rightarrow> 's \<times> bool"
  m_drag :: "mouse_event \<Rightarrow> 's \<Rightarrow> 's \<times> bool"
  m_stop :: "mouse_event \<Rightarrow> 's \<Rightarrow> 's"
  m_up :: "mouse_event \<Rightarrow> 's \<Rightarrow> 's"

definition base_methods :: "'s mouse_methods" where
  "base_methods = \<lparr>m_capture = (\<lambda>e s. (s, True)), m_start = (\<lambda>e s. (s, True)),
     m_drag = (\<lambda>e s. (s, False)), m_stop = (\<lambda>e s. s), m_up = (\<lambda>e s. s)\<rparr>"

record mouse_options =
  widgetName :: string
  cancels :: "nat \<Rightarrow> bool"
  distance :: rat
  delay :: nat

record 's mouse =
  alive :: bool
  mouseStarted :: bool
  mouseDownEvent :: "mouse_event option"
  mouseDelayMet :: bool
  delayTimers :: nat
  listeners :: nat
  inner :: 's

record 's mouse_page =
  mouseHandled :: bool
  preventClick :: "(string \<times> nat) set"
  widget :: "nat \<Rightarrow> 's mouse"

definition mouseInit :: "'s \<Rightarrow> 's mouse" where
  "mouseInit s = \<lparr>alive = True, mouseStarted = False, mouseDownEvent = None, mouseDelayMet = False,
     delayTimers = 0, listeners = 0, inner = s\<rparr>"

definition put_widget :: "nat \<Rightarrow> 's mouse \<Rightarrow> 's mouse_page \<Rightarrow> 's mouse_page" where
  "put_widget w m p = p\<lparr>widget := (widget p)(w := m)\<rparr>"

definition mouseDestroy :: "nat \<Rightarrow> 's mouse_page \<Rightarrow> 's mouse_page" where
  "mouseDestroy w p =
     (let m = widget p w in put_widget w (m\<lparr>alive := False, listeners := listeners m - 1\<rparr>) p)"

definition mouseDistanceMet :: "mouse_options \<Rightarrow> mouse_event \<Rightarrow> mouse_event \<Rightarrow> bool" where
  "mouseDistanceMet opts down ev \<longleftrightarrow>
     max \<bar>pageX down - pageX ev\<bar> \<bar>pageY down - pageY ev\<bar> \<ge> distance opts"

text \<open>Distance and delay; before a press there is no event to compare with.\<close>

definition ready_to_start :: "mouse_options \<Rightarrow> mouse_event \<Rightarrow> 's mouse \<Rightarrow> bool" where
  "ready_to_start opts ev m \<longleftrightarrow>
     (case mouseDownEvent m of None \<Rightarrow> False | Some d \<Rightarrow> mouseDistanceMet opts d ev) \<and> mouseDelayMet m"

section \<open>Handlers\<close>

definition mouseUp ::
    "'s mouse_methods \<Rightarrow> mouse_options \<Rightarrow> nat \<Rightarrow> mouse_event \<Rightarrow> 's mouse_page \<Rightarrow> 's mouse_page" where
  "mouseUp meth opts w ev p =
     (let m0 = widget p w;
          m1 = m0\<lparr>inner := m_up meth ev (inner m0), listeners := listeners m0 - 1\<rparr>
      in if mouseStarted m1 then
           (let same = (case mouseDownEvent m1 of None \<Rightarrow> False | Some d \<Rightarrow> ev_target ev = ev_target d);
                p1 = (case ev_target ev of
                        Some t \<Rightarrow> if same then p\<lparr>preventClick := insert (widgetName opts, t) (preventClick p)\<rparr> else p
                      | None \<Rightarrow> p)
            in put_widget w (m1\<lparr>mouseStarted := False, inner := m_stop meth ev (inner m1)\<rparr>) p1)
         else put_widget w m1 p)"

definition run_drag ::
    "'s mouse_methods \<Rightarrow> mouse_options \<Rightarrow> nat \<Rightarrow> mouse_event \<Rightarrow> 's mouse_page \<Rightarrow> 's mouse_page" where
  "run_drag meth opts w ev p =
     (let m = widget p w; r = m_drag meth ev (inner m); p1 = put_widget w (m\<lparr>inner := fst r\<rparr>) p
      in if snd r then mouseUp meth opts w no_event p1 else p1)"

definition mouseMove ::
    "bool \<Rightarrow> 's mouse_methods \<Rightarrow> mouse_options \<Rightarrow> nat \<Rightarrow> mouse_event \<Rightarrow> 's mouse_page \<Rightarrow> 's mouse_page" where
  "mouseMove old_ie meth opts w ev p =
     (let m = widget p w
      in if old_ie \<and> button ev = 0 then mouseUp meth opts w ev p
         else if mouseStarted m then run_drag meth opts w ev p
         else if ready_to_start opts ev m then
           (let r = m_start meth (the (mouseDownEvent m)) (inner m);
                p1 = put_widget w (m\<lparr>inner := fst r, mouseStarted := snd r\<rparr>) p
            in if snd r then run_drag meth opts w ev p1 else mouseUp meth opts w ev p1)
         else p)"

text \<open>The handler once the press is accepted: the delay, a start at once, the document's handlers.\<close>

definition press ::
    "'s mouse_methods \<Rightarrow> mouse_options \<Rightarrow> nat \<Rightarrow> mouse_event \<Rightarrow> 's mouse_page \<Rightarrow> 's mouse_page" where
  "press meth opts w ev p =
     (let m = widget p w;
          m1 = m\<lparr>mouseDelayMet := (delay opts = 0),
                 delayTimers := (if delay opts = 0 then delayTimers m else Suc (delayTimers m))\<rparr>;
          starts = ready_to_start opts ev m1;
          r = (if starts then m_start meth ev (inner m1) else (inner m1, False));
          m2 = m1\<lparr>inner := fst r, mouseStarted := (if starts then snd r else mouseStarted m1)\<rparr>
      in if starts \<and> \<not> snd r then put_widget w m2 p
         else (let p1 = (case ev_target ev of
                   Some t \<Rightarrow> p\<lparr>preventClick := preventClick p - {(widgetName opts, t)}\<rparr> | None \<Rightarrow> p)
               in put_widget w (m2\<lparr>listeners := Suc (listeners m2)\<rparr>) (p1\<lparr>mouseHandled := True\<rparr>)))"

definition mouseDown ::
    "'s mouse_methods \<Rightarrow> mouse_options \<Rightarrow> nat \<Rightarrow> mouse_event \<Rightarrow> 's mouse_page \<Rightarrow> 's mouse_page" where
  "mouseDown meth opts w ev p =
     (if mouseHandled p then p
      else let p0 = (if mouseStarted (widget p w) then mouseUp meth opts w ev p else p);
               m = (widget p0 w)\<lparr>mouseDownEvent := Some ev\<rparr>;
               elIsCancel = (case ev_target ev of None \<Rightarrow> False | Some t \<Rightarrow> cancels opts t)
           in if which ev \<noteq> 1 \<or> elIsCancel then put_widget w m p0
              else let c = m_capture meth ev (inner m); p1 = put_widget w (m\<lparr>inner := fst c\<rparr>) p0
                   in if snd c then press meth opts w ev p1 else p1)"

text \<open>The handler of clicks: whether the click is stopped.\<close>

definition mouseClick :: "mouse_options \<Rightarrow> mouse_event \<Rightarrow> 's mouse_page \<Rightarrow> 's mouse_page \<times> bool" where
  "mouseClick opts ev p =
     (case ev_target ev of
        Some t \<Rightarrow> if (widgetName opts, t) \<in> preventClick p
                  then (p\<lparr>preventClick := preventClick p - {(widgetName opts, t)}\<rparr>, True) else (p, False)
      | None \<Rightarrow> (p, False))"

section \<open>A page with several widgets\<close>

text \<open>
  A press reaches the widgets around its target from the inside out; a move or a release of the
  button reaches those with handlers on the document. The timer of \<open>delay\<close> is never cleared.
\<close>

datatype page_input =
    Down mouse_event "nat list"
  | Move mouse_event
  | Up mouse_event
  | DelayOver nat
  | Click mouse_event nat
  | Destroy nat

record 's mouse_setup =
  meths :: "nat \<Rightarrow> 's mouse_methods"
  optns :: "nat \<Rightarrow> mouse_options"
  ids :: "nat list"
  old_ie :: bool

definition listening :: "'s mouse_page \<Rightarrow> nat list \<Rightarrow> nat list" where
  "listening p ws = filter (\<lambda>w. listeners (widget p w) > 0) ws"

fun page_step :: "'s mouse_setup \<Rightarrow> 's mouse_page \<Rightarrow> page_input \<Rightarrow> 's mouse_page" where
  "page_step c p (Down ev ws) =
     fold (\<lambda>w q. if alive (widget q w) then mouseDown (meths c w) (optns c w) w ev q else q) ws p"
| "page_step c p (Move ev) =
     fold (\<lambda>w. mouseMove (old_ie c) (meths c w) (optns c w) w ev) (listening p (ids c)) p"
| "page_step c p (Up ev) =
     fold (\<lambda>w. mouseUp (meths c w) (optns c w) w ev) (listening p (ids c)) (p\<lparr>mouseHandled := False\<rparr>)"
| "page_step c p (DelayOver w) =
     (let m = widget p w
      in if delayTimers m = 0 then p
         else put_widget w (m\<lparr>delayTimers := delayTimers m - 1, mouseDelayMet := True\<rparr>) p)"
| "page_step c p (Click ev w) = fst (mouseClick (optns c w) ev p)"
| "page_step c p (Destroy w) = mouseDestroy w p"

definition run_page :: "'s mouse_setup \<Rightarrow> 's mouse_page \<Rightarrow> page_input list \<Rightarrow> 's mouse_page" where
  "run_page c p es = foldl (page_step c) p es"

definition fresh_mouse :: "(nat \<Rightarrow> 's) \<Rightarrow> 's mouse_page" where
  "fresh_mouse s = \<lparr>mouseHandled = False, preventClick = {}, widget = (\<lambda>w. mouseInit (s w))\<rparr>"

section \<open>The gesture of the user\<close>

text \<open>
  The abstract protocol: at most one widget holds the mouse between a press and the release.
  \<open>Spent\<close> is the time until the release in which no widget reacts any more.
\<close>

datatype phase = Idle | Pressed nat | Dragging nat | Spent

fun holder :: "phase \<Rightarrow> nat option" where
  "holder (Pressed w) = Some w"
| "holder (Dragging w) = Some w"
| "holder Idle = None"
| "holder Spent = None"

inductive gesture :: "phase \<Rightarrow> page_input \<Rightarrow> phase \<Rightarrow> bool" where
  ignored: "gesture Idle (Down ev ws) Idle"
| pressed: "w \<in> set ws \<Longrightarrow> which ev = 1 \<Longrightarrow> gesture Idle (Down ev ws) (Pressed w)"
| started: "w \<in> set ws \<Longrightarrow> which ev = 1 \<Longrightarrow> gesture Idle (Down ev ws) (Dragging w)"
| busy: "ph \<noteq> Idle \<Longrightarrow> gesture ph (Down ev ws) ph"
| waits: "gesture (Pressed w) (Move ev) (Pressed w)"
| starts: "gesture (Pressed w) (Move ev) (Dragging w)"
| refused: "gesture (Pressed w) (Move ev) Spent"
| drags: "gesture (Dragging w) (Move ev) (Dragging w)"
| ended: "gesture (Dragging w) (Move ev) Spent"
| unheld: "holder ph = None \<Longrightarrow> gesture ph (Move ev) ph"
| released: "gesture ph (Up ev) Idle"
| destroyed: "holder ph = Some w \<Longrightarrow> gesture ph (Destroy w) Spent"
| other_destroyed: "holder ph \<noteq> Some w \<Longrightarrow> gesture ph (Destroy w) ph"
| timer: "gesture ph (DelayOver w) ph"
| clicked: "gesture ph (Click ev w) ph"

definition control :: "'s mouse \<Rightarrow> bool \<times> bool \<times> mouse_event option \<times> nat" where
  "control m = (alive m, mouseStarted m, mouseDownEvent m, listeners m)"

definition widget_in :: "phase \<Rightarrow> nat \<Rightarrow> 's mouse \<Rightarrow> bool" where
  "widget_in ph w m \<longleftrightarrow>
     listeners m = (if holder ph = Some w then 1 else 0) \<and>
     (alive m \<longrightarrow> mouseStarted m = (ph = Dragging w)) \<and>
     (holder ph = Some w \<longrightarrow> alive m \<and> mouseDownEvent m \<noteq> None)"

definition in_phase :: "nat list \<Rightarrow> phase \<Rightarrow> 's mouse_page \<Rightarrow> bool" where
  "in_phase ws ph p \<longleftrightarrow> (\<forall>w. widget_in ph w (widget p w)) \<and> mouseHandled p = (ph \<noteq> Idle) \<and>
     (\<forall>w. holder ph = Some w \<longrightarrow> w \<in> set ws)"

lemma put_widget_sel [simp]:
  "widget (put_widget w m p) = (widget p)(w := m)" "mouseHandled (put_widget w m p) = mouseHandled p"
  "preventClick (put_widget w m p) = preventClick p"
  by (simp_all add: put_widget_def)

lemma widget_in_control: "control m = control m' \<Longrightarrow> widget_in ph w m = widget_in ph w m'"
  by (simp add: control_def widget_in_def)

text \<open>What each handler does to the flags of its widget; the other widgets keep everything.\<close>

lemma mouseUp_effect:
  "mouseHandled (mouseUp meth opts w ev p) = mouseHandled p"
  "v \<noteq> w \<Longrightarrow> widget (mouseUp meth opts w ev p) v = widget p v"
  "control (widget (mouseUp meth opts w ev p) w) =
     (alive (widget p w), False, mouseDownEvent (widget p w), listeners (widget p w) - 1)"
  by (auto simp: mouseUp_def Let_def control_def split: option.splits)

lemma run_drag_effect:
  "mouseHandled (run_drag meth opts w ev p) = mouseHandled p"
  "v \<noteq> w \<Longrightarrow> widget (run_drag meth opts w ev p) v = widget p v"
  "control (widget (run_drag meth opts w ev p) w) \<in>
     {control (widget p w),
      (alive (widget p w), False, mouseDownEvent (widget p w), listeners (widget p w) - 1)}"
  by (simp_all add: run_drag_def Let_def mouseUp_effect) (simp add: control_def)

lemma mouseMove_effect:
  "mouseHandled (mouseMove ie meth opts w ev p) = mouseHandled p"
  "v \<noteq> w \<Longrightarrow> widget (mouseMove ie meth opts w ev p) v = widget p v"
  "control (widget (mouseMove ie meth opts w ev p) w) \<in>
     {control (widget p w),
      (alive (widget p w), True, mouseDownEvent (widget p w), listeners (widget p w)),
      (alive (widget p w), False, mouseDownEvent (widget p w), listeners (widget p w) - 1)}"
proof -
  show "mouseHandled (mouseMove ie meth opts w ev p) = mouseHandled p"
    by (simp add: mouseMove_def Let_def mouseUp_effect run_drag_effect)
  show "widget (mouseMove ie meth opts w ev p) v = widget p v" if "v \<noteq> w"
    using that by (simp add: mouseMove_def Let_def mouseUp_effect run_drag_effect)
  show "control (widget (mouseMove ie meth opts w ev p) w) \<in>
     {control (widget p w),
      (alive (widget p w), True, mouseDownEvent (widget p w), listeners (widget p w)),
      (alive (widget p w), False, mouseDownEvent (widget p w), listeners (widget p w) - 1)}"
  proof -
    let ?m = "widget p w"
    let ?r = "m_start meth (the (mouseDownEvent ?m)) (inner ?m)"
    let ?q = "put_widget w (?m\<lparr>inner := fst ?r, mouseStarted := snd ?r\<rparr>) p"
    have q: "control (widget ?q w) = (alive ?m, snd ?r, mouseDownEvent ?m, listeners ?m)"
      "alive (widget ?q w) = alive ?m" "mouseDownEvent (widget ?q w) = mouseDownEvent ?m"
      "listeners (widget ?q w) = listeners ?m"
      by (simp_all add: control_def)
    consider "mouseMove ie meth opts w ev p = mouseUp meth opts w ev p"
      | "mouseMove ie meth opts w ev p = run_drag meth opts w ev p"
      | "snd ?r" "mouseMove ie meth opts w ev p = run_drag meth opts w ev ?q"
      | "mouseMove ie meth opts w ev p = mouseUp meth opts w ev ?q"
      | "mouseMove ie meth opts w ev p = p"
      unfolding mouseMove_def Let_def by presburger
    then show ?thesis
    proof cases
      case 1
      then show ?thesis by (simp only: mouseUp_effect) simp
    next
      case 2
      then show ?thesis using run_drag_effect(3) [of meth opts w ev p] by auto
    next
      case 3
      then show ?thesis using run_drag_effect(3) [of meth opts w ev ?q] q by auto
    next
      case 4
      then show ?thesis using q by (simp only: mouseUp_effect) simp
    qed simp
  qed
qed

lemma press_effect:
  "v \<noteq> w \<Longrightarrow> widget (press meth opts w ev p) v = widget p v"
  "mouseStarted (widget p w) = False \<Longrightarrow> \<exists>st taken.
     control (widget (press meth opts w ev p) w) =
       (alive (widget p w), st, mouseDownEvent (widget p w), listeners (widget p w) + (if taken then 1 else 0)) \<and>
     mouseHandled (press meth opts w ev p) = (taken \<or> mouseHandled p) \<and> (st \<longrightarrow> taken)"
  by (auto simp: press_def Let_def control_def split: option.splits)

lemma mouseDown_effect:
  assumes "\<not> mouseHandled p" and "\<not> mouseStarted (widget p w)"
  shows "\<exists>d st taken.
     control (widget (mouseDown meth opts w ev p) w) =
       (alive (widget p w), st, d, listeners (widget p w) + (if taken then 1 else 0)) \<and>
     mouseHandled (mouseDown meth opts w ev p) = taken \<and> (st \<longrightarrow> taken) \<and>
     (taken \<longrightarrow> d \<noteq> None \<and> which ev = 1)"
    and "v \<noteq> w \<Longrightarrow> widget (mouseDown meth opts w ev p) v = widget p v"
proof -
  let ?m = "widget p w\<lparr>mouseDownEvent := Some ev\<rparr>"
  let ?p1 = "put_widget w (?m\<lparr>inner := fst (m_capture meth ev (inner ?m))\<rparr>) p"
  have "mouseDown meth opts w ev p \<in> {put_widget w ?m p, ?p1} \<or>
      (mouseDown meth opts w ev p = press meth opts w ev ?p1 \<and> which ev = 1)"
    using assms by (simp add: mouseDown_def Let_def)
  moreover have "\<not> mouseStarted (widget ?p1 w)" using assms by simp
  ultimately show "\<exists>d st taken.
     control (widget (mouseDown meth opts w ev p) w) =
       (alive (widget p w), st, d, listeners (widget p w) + (if taken then 1 else 0)) \<and>
     mouseHandled (mouseDown meth opts w ev p) = taken \<and> (st \<longrightarrow> taken) \<and>
     (taken \<longrightarrow> d \<noteq> None \<and> which ev = 1)"
    using press_effect(2) [of ?p1 w meth opts ev] assms by (auto simp: control_def)
  show "widget (mouseDown meth opts w ev p) v = widget p v" if "v \<noteq> w"
    using assms that by (simp add: mouseDown_def Let_def press_effect)
qed

section \<open>The handlers implement the gesture\<close>

lemma in_phase_update:
  assumes "in_phase ws ph p" and "\<And>v. v \<noteq> w \<Longrightarrow> widget q v = widget p v"
    and "widget_in ph' w (widget q w)" and "mouseHandled q = (ph' \<noteq> Idle)"
    and "holder ph' \<in> {None, Some w}" and "holder ph \<in> {None, Some w}" and "w \<in> set ws"
  shows "in_phase ws ph' q"
proof -
  have "widget_in ph' v (widget q v)" for v
  proof (cases "v = w")
    case True
    then show ?thesis using assms(3) by simp
  next
    case False
    then have "widget_in ph v (widget p v)" using assms(1) by (simp add: in_phase_def)
    moreover have "holder ph' \<noteq> Some v" "holder ph \<noteq> Some v" using False assms(5,6) by auto
    moreover have "ph' \<noteq> Dragging v" "ph \<noteq> Dragging v" using calculation(2,3) by auto
    ultimately show ?thesis using assms(2) [OF False] by (simp add: widget_in_def)
  qed
  then show ?thesis using assms(4,5,7) by (auto simp: in_phase_def)
qed

lemma listening_holder:
  assumes "in_phase ws ph p" and "distinct ws"
  shows "listening p ws = (case holder ph of None \<Rightarrow> [] | Some w \<Rightarrow> [w])"
proof -
  have "(listeners (widget p w) > 0) = (holder ph = Some w)" for w
    using assms(1) by (simp add: in_phase_def widget_in_def)
  then have "listening p ws = filter (\<lambda>w. holder ph = Some w) ws"
    by (simp add: listening_def)
  moreover have "filter ((=) v) ws = [v]" if "v \<in> set ws" for v
    using that assms(2) by (induction ws) (auto simp: filter_empty_conv)
  ultimately show ?thesis
    using assms(1) by (cases "holder ph") (simp_all add: in_phase_def)
qed

lemma down_one:
  assumes "in_phase uis ph p" and "w \<in> set uis"
  shows "\<exists>ph'. (ph' = ph \<or> ph = Idle \<and> which ev = 1 \<and> ph' \<in> {Pressed w, Dragging w}) \<and>
    in_phase uis ph' (if alive (widget p w) then mouseDown meth opts w ev p else p)"
proof (cases "ph = Idle \<and> alive (widget p w)")
  case False
  then have "mouseHandled p \<or> \<not> alive (widget p w)" using assms(1) by (auto simp: in_phase_def)
  then have "(if alive (widget p w) then mouseDown meth opts w ev p else p) = p"
    by (auto simp: mouseDown_def)
  then show ?thesis using assms(1) by auto
next
  case True
  then have idle: "\<not> mouseHandled p" "\<not> mouseStarted (widget p w)" "listeners (widget p w) = 0"
    using assms(1) by (auto simp: in_phase_def widget_in_def)
  let ?q = "mouseDown meth opts w ev p"
  obtain d st taken where q: "control (widget ?q w) = (alive (widget p w), st, d, (if taken then 1 else 0))"
    "mouseHandled ?q = taken" "st \<longrightarrow> taken" "taken \<longrightarrow> d \<noteq> None \<and> which ev = 1"
    using mouseDown_effect(1) [OF idle(1,2), of meth opts ev] idle(3) by auto
  let ?ph = "if \<not> taken then Idle else if st then Dragging w else Pressed w"
  have "in_phase uis ?ph ?q"
  proof (rule in_phase_update [OF assms(1)])
    show "widget ?q v = widget p v" if "v \<noteq> w" for v
      using mouseDown_effect(2) [OF idle(1,2) that] .
    show "widget_in ?ph w (widget ?q w)"
      using q True by (auto simp: control_def widget_in_def)
    show "mouseHandled ?q = (?ph \<noteq> Idle)" using q(2) by simp
  qed (use True assms(2) in auto)
  then show ?thesis using True q(4) by (intro exI [of _ ?ph]) auto
qed

lemma down_all:
  assumes "in_phase uis ph p" and "set ws \<subseteq> set uis"
  shows "\<exists>ph'. (ph' = ph \<or> ph = Idle \<and> which ev = 1 \<and> (\<exists>w \<in> set ws. ph' \<in> {Pressed w, Dragging w})) \<and>
    in_phase uis ph' (fold (\<lambda>w q. if alive (widget q w) then mouseDown (M w) (P w) w ev q else q) ws p)"
  using assms
proof (induction ws arbitrary: ph p)
  case Nil
  then show ?case by auto
next
  case (Cons w ws)
  let ?q = "if alive (widget p w) then mouseDown (M w) (P w) w ev p else p"
  obtain ph1 where ph1: "ph1 = ph \<or> ph = Idle \<and> which ev = 1 \<and> ph1 \<in> {Pressed w, Dragging w}" "in_phase uis ph1 ?q"
    using down_one [OF Cons.prems(1), of w ev "M w" "P w"] Cons.prems(2) by auto
  obtain ph2 where ph2: "ph2 = ph1 \<or> ph1 = Idle \<and> which ev = 1 \<and> (\<exists>w \<in> set ws. ph2 \<in> {Pressed w, Dragging w})"
    "in_phase uis ph2 (fold (\<lambda>w q. if alive (widget q w) then mouseDown (M w) (P w) w ev q else q) ws ?q)"
    using Cons.IH [OF ph1(2)] Cons.prems(2) by auto
  have "ph2 = ph \<or> ph = Idle \<and> which ev = 1 \<and> (\<exists>v \<in> set (w # ws). ph2 \<in> {Pressed v, Dragging v})"
    using ph1(1) ph2(1) by auto
  then show ?case using ph2(2) by (intro exI [of _ ph2]) simp
qed

lemma move_one:
  assumes "in_phase uis ph p" and "holder ph = Some w"
  shows "\<exists>ph'. ph' \<in> {ph, Dragging w, Spent} \<and> in_phase uis ph' (mouseMove ie meth opts w ev p)"
proof -
  let ?m = "widget p w" and ?q = "mouseMove ie meth opts w ev p"
  have m: "listeners ?m = 1" "alive ?m" "mouseDownEvent ?m \<noteq> None" "mouseStarted ?m = (ph = Dragging w)"
    "w \<in> set uis" "mouseHandled p" "ph \<noteq> Idle"
    using assms by (auto simp: in_phase_def widget_in_def)
  have upd: "in_phase uis ph' ?q" if "widget_in ph' w (widget ?q w)" "holder ph' \<in> {None, Some w}" "ph' \<noteq> Idle" for ph'
    using in_phase_update [OF assms(1), of w ?q ph'] that assms(2) m mouseMove_effect(1) [of ie meth opts w ev p]
      mouseMove_effect(2) [of _ w ie meth opts ev p] by simp
  consider "control (widget ?q w) = control ?m"
    | "control (widget ?q w) = (alive ?m, True, mouseDownEvent ?m, listeners ?m)"
    | "control (widget ?q w) = (alive ?m, False, mouseDownEvent ?m, listeners ?m - 1)"
    using mouseMove_effect(3) [of ie meth opts w ev p] by blast
  then show ?thesis
  proof cases
    case 1
    then have "widget_in ph w (widget ?q w)"
      using widget_in_control [OF 1, of ph w] assms(1) by (simp add: in_phase_def)
    then show ?thesis using upd [of ph] assms(2) m(7) by blast
  next
    case 2
    then have "widget_in (Dragging w) w (widget ?q w)" using m by (simp add: control_def widget_in_def)
    then show ?thesis using upd [of "Dragging w"] by auto
  next
    case 3
    then have "widget_in Spent w (widget ?q w)" using m by (simp add: control_def widget_in_def)
    then show ?thesis using upd [of Spent] by auto
  qed
qed

fun input_ok :: "nat list \<Rightarrow> page_input \<Rightarrow> bool" where
  "input_ok ws (Down ev vs) = (set vs \<subseteq> set ws)"
| "input_ok ws (DelayOver w) = (w \<in> set ws)"
| "input_ok ws (Destroy w) = (w \<in> set ws)"
| "input_ok ws _ = True"

lemma in_phase_timer:
  assumes "in_phase ws ph p"
  shows "in_phase ws ph (put_widget w ((widget p w)\<lparr>delayTimers := n, mouseDelayMet := b\<rparr>) p)"
  using assms by (auto simp: in_phase_def widget_in_def)

lemma step_gesture:
  assumes "in_phase (ids c) ph p" and "distinct (ids c)" and "input_ok (ids c) e"
  shows "\<exists>ph'. gesture ph e ph' \<and> in_phase (ids c) ph' (page_step c p e)"
proof (cases e)
  case (Down ev ws)
  obtain ph' where "ph' = ph \<or> ph = Idle \<and> which ev = 1 \<and> (\<exists>w \<in> set ws. ph' \<in> {Pressed w, Dragging w})"
    "in_phase (ids c) ph' (page_step c p e)"
    using down_all [OF assms(1), of ws ev "meths c" "optns c"] assms(3) Down by auto
  moreover have "gesture ph e ph'"
  proof (cases "ph' = ph")
    case True
    then show ?thesis using Down by (cases "ph = Idle") (auto intro: ignored busy)
  next
    case False
    then obtain w where "w \<in> set ws" "which ev = 1" "ph = Idle" "ph' = Pressed w \<or> ph' = Dragging w"
      using calculation(1) by blast
    then show ?thesis unfolding Down using pressed started by blast
  qed
  ultimately show ?thesis by blast
next
  case (Move ev)
  show ?thesis
  proof (cases "holder ph")
    case None
    then show ?thesis using listening_holder [OF assms(1,2)] Move assms(1) by (auto intro: gesture.intros)
  next
    case (Some w)
    then obtain ph' where "ph' \<in> {ph, Dragging w, Spent}" "in_phase (ids c) ph' (page_step c p e)"
      using move_one [OF assms(1) Some, of "old_ie c" "meths c w" "optns c w" ev]
        listening_holder [OF assms(1,2)] Move by auto
    moreover have "ph \<in> {Pressed w, Dragging w}" using Some by (cases ph) auto
    ultimately show ?thesis using Move by (auto intro: gesture.intros)
  qed
next
  case (Up ev)
  have "in_phase (ids c) Idle (page_step c p e)"
  proof (cases "holder ph")
    case None
    then have "ph = Idle \<or> ph = Spent" by (cases ph) auto
    then show ?thesis
      using listening_holder [OF assms(1,2)] None Up assms(1) by (auto simp: in_phase_def widget_in_def)
  next
    case (Some w)
    let ?p = "p\<lparr>mouseHandled := False\<rparr>"
    have q: "page_step c p e = mouseUp (meths c w) (optns c w) w ev ?p"
      using listening_holder [OF assms(1,2)] Some Up by simp
    have w: "widget_in ph w (widget p w)" "w \<in> set (ids c)" using assms(1) Some by (auto simp: in_phase_def)
    show ?thesis
    proof (rule in_phase_update [OF assms(1)])
      show "widget (page_step c p e) v = widget p v" if "v \<noteq> w" for v
        using that by (simp add: q mouseUp_effect)
      show "widget_in Idle w (widget (page_step c p e) w)"
        using w Some mouseUp_effect(3) [of "meths c w" "optns c w" w ev ?p]
        by (simp add: q widget_in_def control_def)
    qed (use w Some in \<open>simp_all add: q mouseUp_effect\<close>)
  qed
  then show ?thesis using Up by (auto intro: gesture.intros)
next
  case (DelayOver w)
  then show ?thesis
    using in_phase_timer [OF assms(1)] assms(1) by (auto simp: Let_def intro: gesture.intros)
next
  case (Click ev w)
  then show ?thesis
    using assms(1) by (auto simp: mouseClick_def in_phase_def split: option.split intro: gesture.intros)
next
  case (Destroy w)
  let ?ph = "if holder ph = Some w then Spent else ph"
  have w: "widget_in ph w (widget p w)" "w \<in> set (ids c)" "mouseHandled p = (ph \<noteq> Idle)"
    using assms(1,3) Destroy by (simp_all add: in_phase_def)
  have "in_phase (ids c) ?ph (page_step c p e)"
  proof (cases "holder ph = Some w")
    case True
    show ?thesis
    proof (rule in_phase_update [OF assms(1), of w])
      show "mouseHandled (page_step c p e) = (?ph \<noteq> Idle)"
        using Destroy w(3) True by (cases ph) (simp_all add: mouseDestroy_def Let_def)
    qed (use Destroy w True in \<open>simp_all add: mouseDestroy_def Let_def widget_in_def\<close>)
  next
    case False
    then show ?thesis
      using assms(1) Destroy by (auto simp: mouseDestroy_def Let_def in_phase_def widget_in_def)
  qed
  moreover have "gesture ph e ?ph" using Destroy by (simp add: destroyed other_destroyed)
  ultimately show ?thesis by blast
qed

inductive gestures :: "phase \<Rightarrow> page_input list \<Rightarrow> phase \<Rightarrow> bool" where
  none: "gestures ph [] ph"
| more: "gesture ph e ph' \<Longrightarrow> gestures ph' es ph'' \<Longrightarrow> gestures ph (e # es) ph''"

lemma in_phase_fresh: "in_phase ws Idle (fresh_mouse s)"
  by (simp add: in_phase_def widget_in_def fresh_mouse_def mouseInit_def)

lemma run_gestures:
  assumes "in_phase (ids c) ph p" and "distinct (ids c)" and "\<forall>e \<in> set es. input_ok (ids c) e"
  shows "\<exists>ph'. gestures ph es ph' \<and> in_phase (ids c) ph' (run_page c p es)"
  using assms(1,3)
proof (induction es arbitrary: ph p)
  case Nil
  then show ?case by (auto simp: run_page_def intro: none)
next
  case (Cons e es)
  then obtain ph1 where 1: "gesture ph e ph1" "in_phase (ids c) ph1 (page_step c p e)"
    using step_gesture [OF Cons.prems(1) assms(2), of e] Cons.prems(2) by auto
  obtain ph2 where "gestures ph1 es ph2" "in_phase (ids c) ph2 (run_page c (page_step c p e) es)"
    using Cons.IH [OF 1(2)] Cons.prems(2) by auto
  then show ?case using 1(1) by (auto simp: run_page_def intro: more)
qed

text \<open>
  C7: The handlers of all widgets together implement the gesture: along every sequence of inputs
  to a fresh page, whatever the interactions do, the page is in the phase to which the abstract
  protocol has moved.
\<close>

theorem page_refines_gesture:
  assumes "distinct (ids c)" and "\<forall>e \<in> set es. input_ok (ids c) e"
  shows "\<exists>ph. gestures Idle es ph \<and> in_phase (ids c) ph (run_page c (fresh_mouse s) es)"
  using run_gestures [OF in_phase_fresh assms] .

lemma one_drag_parts:
  assumes "distinct (ids c)" and "\<forall>e \<in> set es. input_ok (ids c) e"
    and "alive (widget (run_page c (fresh_mouse s) es) w)" and "mouseStarted (widget (run_page c (fresh_mouse s) es) w)"
  shows "mouseHandled (run_page c (fresh_mouse s) es)"
    and "page_step c (run_page c (fresh_mouse s) es) (Down ev ws) = run_page c (fresh_mouse s) es"
    and "alive (widget (run_page c (fresh_mouse s) es) v) \<Longrightarrow>
      mouseStarted (widget (run_page c (fresh_mouse s) es) v) \<Longrightarrow> v = w"
proof -
  let ?p = "run_page c (fresh_mouse s) es"
  obtain ph where ph: "in_phase (ids c) ph ?p"
    using run_gestures [OF in_phase_fresh assms(1,2)] by blast
  then have drag: "ph = Dragging w" using assms(3,4) by (simp add: in_phase_def widget_in_def)
  then show h: "mouseHandled ?p" using ph by (simp add: in_phase_def)
  have "fold (\<lambda>w q. if alive (widget q w) then mouseDown (meths c w) (optns c w) w ev q else q) ws ?p = ?p"
    using h by (induction ws) (simp_all add: mouseDown_def)
  then show "page_step c ?p (Down ev ws) = ?p" by simp
  show "v = w" if "alive (widget ?p v)" "mouseStarted (widget ?p v)"
    using ph drag that by (simp add: in_phase_def widget_in_def)
qed

text \<open>
  At most one widget is being dragged at a time, and none while \<open>mouseHandled\<close> is false, so
  the call of \<open>_mouseUp\<close> at the start of \<open>_mouseDown\<close>, meant for a release outside the window,
  is never made: the flag is still set then and the press is ignored.
\<close>

theorem one_drag_at_a_time:
  assumes "distinct (ids c)" and "\<forall>e \<in> set es. input_ok (ids c) e" and "p = run_page c (fresh_mouse s) es"
    and "alive (widget p w)" and "mouseStarted (widget p w)"
  shows "mouseHandled p \<and> page_step c p (Down ev ws) = p \<and>
    (\<forall>v. alive (widget p v) \<and> mouseStarted (widget p v) \<longrightarrow> v = w)"
  using one_drag_parts [OF assms(1,2), of s w] assms(3-5) by blast

section \<open>What an interaction may rely on\<close>

text \<open>
  The contract of the methods: an invariant of the interaction's state that may depend on whether
  a drag is going on. \<open>_mouseStart\<close> is only called without a drag, \<open>_mouseDrag\<close> and \<open>_mouseStop\<close> only
  during one, so each method has to keep its part only.
\<close>

locale interaction =
  fixes c :: "'s mouse_setup" and inv :: "nat \<Rightarrow> bool \<Rightarrow> 's \<Rightarrow> bool"
  assumes capture_inv: "inv w False s \<Longrightarrow> inv w False (fst (m_capture (meths c w) e s))"
    and start_inv: "inv w False s \<Longrightarrow> inv w (snd (m_start (meths c w) e s)) (fst (m_start (meths c w) e s))"
    and drag_inv: "inv w True s \<Longrightarrow> inv w True (fst (m_drag (meths c w) e s))"
    and stop_inv: "inv w True s \<Longrightarrow> inv w False (m_stop (meths c w) e s)"
    and up_inv: "inv w b s \<Longrightarrow> inv w b (m_up (meths c w) e s)"
begin

definition page_inv :: "'s mouse_page \<Rightarrow> bool" where
  "page_inv p \<longleftrightarrow> (\<forall>w. inv w (mouseStarted (widget p w)) (inner (widget p w)))"

lemma page_invD: "page_inv p \<Longrightarrow> inv w (mouseStarted (widget p w)) (inner (widget p w))"
  by (simp add: page_inv_def)

lemma page_inv_put:
  "page_inv p \<Longrightarrow> inv w (mouseStarted m) (inner m) \<Longrightarrow> page_inv (put_widget w m p)"
  by (simp add: page_inv_def)

lemma page_inv_flags [simp]:
  "page_inv (p\<lparr>mouseHandled := b\<rparr>) = page_inv p" "page_inv (p\<lparr>preventClick := s\<rparr>) = page_inv p"
  by (simp_all add: page_inv_def)

lemma mouseUp_inv: "page_inv p \<Longrightarrow> page_inv (mouseUp (meths c w) opts w e p)"
  using page_invD [of p w] up_inv [of w _ "inner (widget p w)" e] stop_inv [of w _ e]
  by (auto simp: mouseUp_def Let_def intro!: page_inv_put split: option.split)

lemma mouseUp_not_started: "\<not> mouseStarted (widget (mouseUp meth opts w e p) w)"
  using mouseUp_effect(3) [of meth opts w e p] by (simp add: control_def)

lemma run_drag_inv:
  assumes "page_inv p" and "mouseStarted (widget p w)"
  shows "page_inv (run_drag (meths c w) opts w e p)"
proof -
  have "page_inv (put_widget w ((widget p w)\<lparr>inner := fst (m_drag (meths c w) e (inner (widget p w)))\<rparr>) p)"
    using drag_inv [of w "inner (widget p w)" e] page_invD [OF assms(1), of w] assms
    by (intro page_inv_put) simp_all
  then show ?thesis by (simp add: run_drag_def Let_def mouseUp_inv)
qed

lemma mouseMove_inv:
  assumes "page_inv p"
  shows "page_inv (mouseMove ie (meths c w) opts w e p)"
proof (cases "mouseStarted (widget p w)")
  case True
  then show ?thesis using assms by (simp add: mouseMove_def Let_def mouseUp_inv run_drag_inv)
next
  case False
  let ?r = "m_start (meths c w) (the (mouseDownEvent (widget p w))) (inner (widget p w))"
  let ?q = "put_widget w ((widget p w)\<lparr>inner := fst ?r, mouseStarted := snd ?r\<rparr>) p"
  have "page_inv ?q"
    using False page_invD [OF assms, of w] by (intro page_inv_put assms) (simp add: start_inv)
  then have "page_inv (mouseUp (meths c w) opts w e ?q)" by (rule mouseUp_inv)
  moreover have "page_inv (run_drag (meths c w) opts w e ?q)" if "snd ?r"
    using \<open>page_inv ?q\<close> by (rule run_drag_inv) (simp add: that)
  ultimately show ?thesis
    using assms False mouseUp_inv [OF assms, of w opts e] unfolding mouseMove_def Let_def by presburger
qed

lemma press_inv:
  assumes "page_inv p" and "\<not> mouseStarted (widget p w)"
  shows "page_inv (press (meths c w) opts w e p)"
proof -
  have i: "inv w False (inner (widget p w))" using page_invD [OF assms(1), of w] assms(2) by simp
  then have "inv w (snd r) (fst r)" if "r = m_start (meths c w) e (inner (widget p w))" for r
    using that by (simp add: start_inv)
  then show ?thesis
    using assms i unfolding press_def Let_def
    by (auto intro!: page_inv_put split: option.split)
qed

lemma mouseDown_inv:
  assumes "page_inv p"
  shows "page_inv (mouseDown (meths c w) opts w e p)"
proof -
  let ?p = "if mouseStarted (widget p w) then mouseUp (meths c w) opts w e p else p"
  have p: "page_inv ?p" "\<not> mouseStarted (widget ?p w)"
    using assms by (simp_all add: mouseUp_inv mouseUp_not_started)
  let ?m = "(widget ?p w)\<lparr>mouseDownEvent := Some e\<rparr>"
  have m: "inv w False (inner ?m)" "\<not> mouseStarted ?m" using page_invD [OF p(1), of w] p(2) by auto
  let ?q = "put_widget w (?m\<lparr>inner := fst (m_capture (meths c w) e (inner ?m))\<rparr>) ?p"
  have "page_inv (put_widget w ?m ?p)" and "page_inv ?q"
    using m capture_inv [OF m(1), of e] by (intro page_inv_put p(1); simp)+
  moreover have "page_inv (press (meths c w) opts w e ?q)"
    using m(2) by (intro press_inv calculation(2)) simp
  ultimately show ?thesis
    using assms unfolding mouseDown_def Let_def by presburger
qed

lemma fold_inv: "(\<And>w p. page_inv p \<Longrightarrow> page_inv (f w p)) \<Longrightarrow> page_inv p \<Longrightarrow> page_inv (fold f ws p)"
  by (induction ws arbitrary: p) simp_all

lemma page_step_inv:
  assumes "page_inv p"
  shows "page_inv (page_step c p e)"
proof (cases e)
  case (Down ev ws)
  show ?thesis unfolding Down page_step.simps by (intro fold_inv assms) (simp add: mouseDown_inv)
next
  case (Move ev)
  show ?thesis unfolding Move page_step.simps by (intro fold_inv assms mouseMove_inv)
next
  case (Up ev)
  show ?thesis unfolding Up page_step.simps by (intro fold_inv mouseUp_inv) (simp_all add: assms)
qed (use assms in \<open>auto simp: Let_def mouseClick_def mouseDestroy_def page_invD intro!: page_inv_put split: option.split\<close>)

lemma run_page_inv: "page_inv p \<Longrightarrow> page_inv (run_page c p es)"
  unfolding run_page_def by (induction es arbitrary: p) (simp_all add: page_step_inv)

lemma reached_inv:
  assumes "\<And>w. inv w False (s w)"
  shows "inv w (mouseStarted (widget (run_page c (fresh_mouse s) es) w))
    (inner (widget (run_page c (fresh_mouse s) es) w))"
proof -
  have "page_inv (fresh_mouse s)" using assms by (simp add: page_inv_def fresh_mouse_def mouseInit_def)
  then show ?thesis by (intro page_invD run_page_inv)
qed

end

section \<open>The order of the calls\<close>

datatype call = Captured | Started bool | Dragged | Stopped

text \<open>Any methods with a log of the calls.\<close>

definition logged :: "'s mouse_methods \<Rightarrow> ('s \<times> call list) mouse_methods" where
  "logged m =
     \<lparr>m_capture = (\<lambda>e (s, l). case m_capture m e s of (s', b) \<Rightarrow> ((s', l @ [Captured]), b)),
      m_start = (\<lambda>e (s, l). case m_start m e s of (s', b) \<Rightarrow> ((s', l @ [Started b]), b)),
      m_drag = (\<lambda>e (s, l). case m_drag m e s of (s', b) \<Rightarrow> ((s', l @ [Dragged]), b)),
      m_stop = (\<lambda>e (s, l). (m_stop m e s, l @ [Stopped])),
      m_up = (\<lambda>e (s, l). (m_up m e s, l))\<rparr>"

definition logged_setup :: "'s mouse_setup \<Rightarrow> ('s \<times> call list) mouse_setup" where
  "logged_setup c = \<lparr>meths = (\<lambda>w. logged (meths c w)), optns = optns c, ids = ids c, old_ie = old_ie c\<rparr>"

text \<open>Whether a drag is going on after these calls; \<open>None\<close> when a call came out of order.\<close>

fun next_call :: "bool option \<Rightarrow> call \<Rightarrow> bool option" where
  "next_call (Some False) Captured = Some False"
| "next_call (Some False) (Started b) = Some b"
| "next_call (Some True) Dragged = Some True"
| "next_call (Some True) Stopped = Some False"
| "next_call _ _ = None"

definition call_order :: "call list \<Rightarrow> bool option" where
  "call_order l = foldl next_call (Some False) l"

interpretation call_log: interaction "logged_setup c" "\<lambda>w b s. call_order (snd s) = Some b"
  by unfold_locales
    (auto simp: logged_setup_def logged_def call_order_def split: prod.splits)

text \<open>
  The methods of every interaction are called in order, whatever the inputs: \<open>_mouseCapture\<close>
  and \<open>_mouseStart\<close> only outside a drag, \<open>_mouseDrag\<close> and \<open>_mouseStop\<close> only inside one, and each
  accepted start is followed by exactly one stop before the next press is captured.
\<close>

theorem methods_called_in_order:
  "call_order (snd (inner (widget (run_page (logged_setup c) (fresh_mouse (\<lambda>w. (s w, []))) es) w))) =
     Some (mouseStarted (widget (run_page (logged_setup c) (fresh_mouse (\<lambda>w. (s w, []))) es) w))"
  by (rule call_log.reached_inv) (simp add: call_order_def)

section \<open>The delay\<close>

definition single :: "mouse_options \<Rightarrow> 's mouse_setup" where
  "single opts = \<lparr>meths = (\<lambda>w. base_methods), optns = (\<lambda>w. opts), ids = [0], old_ie = False\<rparr>"

definition accepted :: "mouse_options \<Rightarrow> mouse_event \<Rightarrow> bool" where
  "accepted opts ev \<longleftrightarrow> which ev = 1 \<and> (case ev_target ev of None \<Rightarrow> True | Some t \<Rightarrow> \<not> cancels opts t)"

lemma fresh_sel [simp]:
  "widget (fresh_mouse s) w = mouseInit (s w)" "mouseHandled (fresh_mouse s) = False"
  by (simp_all add: fresh_mouse_def)

lemma press_waits:
  assumes "0 < delay opts" and "accepted opts ev" and "\<not> mouseHandled p" and "alive (widget p 0)"
    and "\<not> mouseStarted (widget p 0)"
  shows "\<exists>q. page_step (single opts) p (Down ev [0]) = q \<and> mouseHandled q \<and>
    widget q 0 = (widget p 0)\<lparr>mouseDownEvent := Some ev, mouseDelayMet := False,
      delayTimers := Suc (delayTimers (widget p 0)), listeners := Suc (listeners (widget p 0))\<rparr>"
  using assms
  by (auto simp: single_def base_methods_def mouseDown_def accepted_def press_def ready_to_start_def Let_def
      split: option.splits)

lemma stale_delay_parts:
  assumes "0 < delay opts" and "accepted opts e1" and "accepted opts e3" and "mouseDistanceMet opts e3 e4"
  shows "mouseStarted (widget (run_page (single opts) (fresh_mouse s)
      [Down e1 [0], Up e2, Down e3 [0], DelayOver 0, Move e4]) 0)"
    and "delayTimers (widget (run_page (single opts) (fresh_mouse s)
      [Down e1 [0], Up e2, Down e3 [0], DelayOver 0, Move e4]) 0) = 1"
proof -
  let ?c = "single opts" and ?p0 = "fresh_mouse s"
  let ?p1 = "page_step ?c ?p0 (Down e1 [0])"
  let ?p2 = "page_step ?c ?p1 (Up e2)"
  let ?p3 = "page_step ?c ?p2 (Down e3 [0])"
  let ?p4 = "page_step ?c ?p3 (DelayOver 0)"
  have p1: "widget ?p1 0 = (widget ?p0 0)\<lparr>mouseDownEvent := Some e1, mouseDelayMet := False,
      delayTimers := 1, listeners := 1\<rparr>"
    using press_waits [OF assms(1,2), of ?p0] by (auto simp: fresh_sel mouseInit_def)
  have up: "page_step ?c ?p1 (Up e2) = mouseUp base_methods opts 0 e2 (?p1\<lparr>mouseHandled := False\<rparr>)"
    using p1 by (simp add: listening_def single_def del: page_step.simps(1))
  have p2: "widget ?p2 0 = (widget ?p1 0)\<lparr>listeners := 0\<rparr>" "\<not> mouseHandled ?p2"
    unfolding up mouseUp_def Let_def
    by (simp_all add: p1 base_methods_def fresh_sel mouseInit_def del: page_step.simps(1))
  have p3: "widget ?p3 0 = (widget ?p2 0)\<lparr>mouseDownEvent := Some e3, mouseDelayMet := False,
      delayTimers := 2, listeners := 1\<rparr>"
    using press_waits [OF assms(1,3), of ?p2] p1 p2
    by (auto simp: fresh_sel mouseInit_def simp del: page_step.simps)
  have p4: "widget ?p4 0 = (widget ?p3 0)\<lparr>delayTimers := 1, mouseDelayMet := True\<rparr>"
    using p3 by (simp add: Let_def del: page_step.simps(1,2,3))
  have move: "page_step ?c ?p4 (Move e4) = mouseMove False base_methods opts 0 e4 ?p4"
    using p4 p3 by (simp add: listening_def single_def del: page_step.simps(1,3,4))
  have fin: "widget (mouseMove False base_methods opts 0 e4 ?p4) 0 = (widget ?p4 0)\<lparr>mouseStarted := True\<rparr>"
    using assms(4) unfolding mouseMove_def run_drag_def Let_def
    by (simp add: p4 p3 p2 p1 ready_to_start_def base_methods_def fresh_sel mouseInit_def
        del: page_step.simps)
  have run: "run_page ?c ?p0 [Down e1 [0], Up e2, Down e3 [0], DelayOver 0, Move e4] = page_step ?c ?p4 (Move e4)"
    by (simp only: run_page_def foldl.simps)
  show "mouseStarted (widget (run_page ?c ?p0 [Down e1 [0], Up e2, Down e3 [0], DelayOver 0, Move e4]) 0)"
    and "delayTimers (widget (run_page ?c ?p0 [Down e1 [0], Up e2, Down e3 [0], DelayOver 0, Move e4]) 0) = 1"
    unfolding run move fin by (simp_all add: p4 p3 del: page_step.simps)
qed

text \<open>
  The timer of \<open>delay\<close> is not cleared when the button is released. After a press and a release,
  a second press can start its drag as soon as the timer of the first one is over, while its own
  timer still runs.
\<close>

theorem stale_delay_timer:
  assumes "0 < delay opts" and "accepted opts e1" and "accepted opts e3" and "mouseDistanceMet opts e3 e4"
    and "p = run_page (single opts) (fresh_mouse s) [Down e1 [0], Up e2, Down e3 [0], DelayOver 0, Move e4]"
  shows "mouseStarted (widget p 0) \<and> delayTimers (widget p 0) = 1"
  using stale_delay_parts [OF assms(1-4)] assms(5) by blast

definition at_point :: "rat \<Rightarrow> mouse_event" where
  "at_point x = \<lparr>ev_target = Some 7, pageX = x, pageY = 0, which = 1, button = 0\<rparr>"

definition plain_options :: mouse_options where
  "plain_options = \<lparr>widgetName = ''draggable'', cancels = (\<lambda>t. False), distance = 1, delay = 300\<rparr>"

theorem stale_delay_timer_witness:
  "mouseStarted (widget (run_page (single plain_options) (fresh_mouse (\<lambda>w. ()))
     [Down (at_point 0) [0], Up (at_point 0), Down (at_point 0) [0], DelayOver 0, Move (at_point 5)]) 0)"
  by (rule stale_delay_timer [THEN conjunct1, OF _ _ _ _ refl])
    (simp_all add: plain_options_def accepted_def at_point_def mouseDistanceMet_def)

theorem page_refines_gesture_witness:
  "\<exists>ph. gestures Idle [Down (at_point 0) [0], Move (at_point 5), Up (at_point 5)] ph \<and>
    in_phase [0] ph (run_page (single plain_options) (fresh_mouse (\<lambda>w. ()))
      [Down (at_point 0) [0], Move (at_point 5), Up (at_point 5)])"
  using page_refines_gesture [of "single plain_options"
      "[Down (at_point 0) [0], Move (at_point 5), Up (at_point 5)]" "\<lambda>w. ()"]
  by (simp add: single_def)

definition prompt_options :: mouse_options where
  "prompt_options = \<lparr>widgetName = ''draggable'', cancels = (\<lambda>t. False), distance = 0, delay = 0\<rparr>"

lemma prompt_start:
  "mouseStarted (widget (run_page (single prompt_options) (fresh_mouse (\<lambda>w. ())) [Down (at_point 0) [0]]) 0)"
  "alive (widget (run_page (single prompt_options) (fresh_mouse (\<lambda>w. ())) [Down (at_point 0) [0]]) 0)"
  by (simp_all add: run_page_def single_def prompt_options_def base_methods_def mouseDown_def at_point_def
      press_def ready_to_start_def mouseDistanceMet_def fresh_mouse_def mouseInit_def Let_def)

theorem one_drag_at_a_time_witness:
  "mouseHandled (run_page (single prompt_options) (fresh_mouse (\<lambda>w. ())) [Down (at_point 0) [0]])"
  using one_drag_at_a_time [OF _ _ refl prompt_start(2,1)] by (simp add: single_def)

end
