(* ===== verification/UiDraggable.thy ===== *)
theory UiDraggable
  imports UiGeometry UiMouse
begin

text \<open>
  \<open>jquery.ui.draggable.js\<close>, with which the dialogs of the application are moved: the geometry of
  a drag (where the helper is put for a position of the mouse, within the containment and on
  the grid), the methods that the mouse protocol calls, and the plugins \<open>scroll\<close>, \<open>snap\<close>,
  \<open>stack\<close>, \<open>cursor\<close>, \<open>opacity\<close> and \<open>zIndex\<close>. Measurements of the page and the answers of the
  application's callbacks are arguments.
\<close>

section \<open>Frames of reference\<close>

text \<open>
  What the conversion between positions in the offset parent and on the page reads of the
  helper, its scroll parent (\<open>sp\<close>) and its offset parent (\<open>op\<close>).
\<close>

record frame =
  cssPosition :: string
  sp_document :: bool
  sp_contains_op :: bool
  sp_tag :: string
  op_tag :: string
  sp_scroll :: pos
  op_scroll :: pos

definition uses_offsetParent :: "frame \<Rightarrow> bool" where
  "uses_offsetParent f \<longleftrightarrow> cssPosition f = ''absolute'' \<and> \<not> (\<not> sp_document f \<and> sp_contains_op f)"

definition small_letter :: "char \<Rightarrow> char" where
  "small_letter c = (let n = of_char c :: nat in if 65 \<le> n \<and> n \<le> 90 then char_of (n + 32) else c)"

text \<open>\<open>/(html|body)/i\<close>; the tag name of the document prints as \<open>undefined\<close>.\<close>

definition root_tag :: "string \<Rightarrow> bool" where
  "root_tag t \<longleftrightarrow> has_substring ''html'' (map small_letter t) \<or> has_substring ''body'' (map small_letter t)"

definition scroll_amount :: "frame \<Rightarrow> pos" where
  "scroll_amount f =
     (if cssPosition f = ''fixed'' then - sp_scroll f
      else if root_tag (if uses_offsetParent f then op_tag f else sp_tag f) then 0
      else if uses_offsetParent f then op_scroll f else sp_scroll f)"

record drag_offset =
  corner :: pos
  click :: pos
  parent :: pos
  relative :: pos

datatype direction = Absolute | Relative

definition scale_pos :: "rat \<Rightarrow> pos \<Rightarrow> pos" where
  "scale_pos k p = Pos (k * left p) (k * top p)"

definition convertPositionTo :: "frame \<Rightarrow> drag_offset \<Rightarrow> direction \<Rightarrow> pos \<Rightarrow> pos" where
  "convertPositionTo f off d p =
     (let m = (case d of Absolute \<Rightarrow> 1 | Relative \<Rightarrow> - 1)
      in p + scale_pos m (relative off) + scale_pos m (parent off) - scale_pos m (scroll_amount f))"

section \<open>Containment and grid\<close>

record area =
  x1 :: rat
  y1 :: rat
  x2 :: rat
  y2 :: rat

text \<open>One axis: the page coordinate that keeps the corner \<open>page - clickAt\<close> between two bounds.\<close>

definition constrain :: "rat \<Rightarrow> rat \<Rightarrow> rat \<Rightarrow> rat \<Rightarrow> rat" where
  "constrain lo hi clickAt page =
     (let p = (if page - clickAt < lo then lo + clickAt else page)
      in if page - clickAt > hi then hi + clickAt else p)"

text \<open>
  One axis of the grid, a step of 0 keeps the coordinate of the start. The first test of the
  code accepts every value that is not below the lower bound.
\<close>

definition snap_to_grid :: "rat \<Rightarrow> rat \<Rightarrow> (rat \<times> rat) option \<Rightarrow> rat \<Rightarrow> rat \<Rightarrow> rat" where
  "snap_to_grid g origin bounds clickAt page =
     (let t = (if g \<noteq> 0 then origin + to_grid g (page - origin) else origin)
      in case bounds of
           None \<Rightarrow> t
         | Some (lo, hi) \<Rightarrow>
             if t - clickAt \<ge> lo \<or> t - clickAt > hi then t
             else if t - clickAt \<ge> lo then t - g else t + g)"

record drag_options =
  axis :: "string option"
  grid :: "(rat \<times> rat) option"
  disabled :: bool
  helper_original :: bool

text \<open>
  \<open>bounds\<close> is \<open>this.containment\<close>, shifted by the offset of the relative container when there is
  one; before the first drag there is no original position and nothing is constrained.
\<close>

definition shifted :: "area \<Rightarrow> pos \<Rightarrow> area" where
  "shifted a co = \<lparr>x1 = x1 a + left co, y1 = y1 a + top co, x2 = x2 a + left co, y2 = y2 a + top co\<rparr>"

definition constrained_page ::
    "drag_options \<Rightarrow> area option \<Rightarrow> drag_offset \<Rightarrow> pos \<Rightarrow> pos \<Rightarrow> pos" where
  "constrained_page opt bounds off origin page =
     (let c = click off;
          p = (case bounds of
                 None \<Rightarrow> page
               | Some a \<Rightarrow> Pos (constrain (x1 a) (x2 a) (left c) (left page)) (constrain (y1 a) (y2 a) (top c) (top page)))
      in case grid opt of
           None \<Rightarrow> p
         | Some (gx, gy) \<Rightarrow>
             Pos (snap_to_grid gx (left origin) (map_option (\<lambda>a. (x1 a, x2 a)) bounds) (left c) (left p))
                 (snap_to_grid gy (top origin) (map_option (\<lambda>a. (y1 a, y2 a)) bounds) (top c) (top p)))"

definition generatePosition ::
    "frame \<Rightarrow> drag_options \<Rightarrow> pos option \<Rightarrow> area option \<Rightarrow> drag_offset \<Rightarrow> pos \<Rightarrow> pos \<Rightarrow> pos" where
  "generatePosition f opt original bounds off origin page =
     (let p = (if original = None then page else constrained_page opt bounds off origin page)
      in p - click off - relative off - parent off + scroll_amount f)"

section \<open>Measuring at the start of a drag\<close>

record margins =
  m_left :: rat
  m_top :: rat
  m_right :: rat
  m_bottom :: rat

text \<open>
  The container of the option \<open>containment\<close>, with its measurements: the width and height of the
  document or the window, of which a height of 0 is replaced by the scroll height of the page.
\<close>

record box_measures =
  border_left :: rat
  border_top :: rat
  border_right :: rat
  border_bottom :: rat
  padding_left :: rat
  padding_top :: rat
  padding_right :: rat
  padding_bottom :: rat
  overflow_hidden :: bool
  scroll_width :: rat
  scroll_height :: rat
  offset_width :: rat
  offset_height :: rat

datatype containment =
    Free
  | In_document rat rat rat
  | In_window pos rat rat rat
  | In_element box_measures
  | Missing_element
  | In_array area

definition or_else :: "rat \<Rightarrow> rat \<Rightarrow> rat" where
  "or_else a b = (if a = 0 then b else a)"

text \<open>
  \<open>_setContainment\<close>: the area for the corner of the helper, and whether it is relative to the
  container. What is not assigned keeps its value.
\<close>

definition setContainment ::
    "containment \<Rightarrow> drag_offset \<Rightarrow> pos \<Rightarrow> margins \<Rightarrow> area option \<times> bool \<Rightarrow> area option \<times> bool" where
  "setContainment c off helperSize m old =
     (let hw = left helperSize; hh = top helperSize
      in case c of
           Free \<Rightarrow> old
         | In_document w h sh \<Rightarrow>
             (Some \<lparr>x1 = 0, y1 = 0, x2 = w - hw - m_left m, y2 = or_else h sh - hh - m_top m\<rparr>, snd old)
         | In_window scroll w h sh \<Rightarrow>
             (Some \<lparr>x1 = left scroll - left (relative off) - left (parent off),
                    y1 = top scroll - top (relative off) - top (parent off),
                    x2 = left scroll + w - hw - m_left m, y2 = top scroll + or_else h sh - hh - m_top m\<rparr>, snd old)
         | In_element b \<Rightarrow>
             (Some \<lparr>x1 = border_left b + padding_left b, y1 = border_top b + padding_top b,
                    x2 = (if overflow_hidden b then offset_width b else max (scroll_width b) (offset_width b))
                         - border_right b - padding_right b - hw - m_left m - m_right m,
                    y2 = (if overflow_hidden b then offset_height b else max (scroll_height b) (offset_height b))
                         - border_bottom b - padding_bottom b - hh - m_top m - m_bottom m\<rparr>, True)
         | Missing_element \<Rightarrow> old
         | In_array a \<Rightarrow> (Some a, snd old))"

text \<open>\<open>cursorAt\<close> as an object; a list of numbers stands for its \<open>left\<close> and \<open>top\<close>.\<close>

record cursor_at =
  at_left :: "rat option"
  at_right :: "rat option"
  at_top :: "rat option"
  at_bottom :: "rat option"

fun cursor_of_list :: "rat list \<Rightarrow> cursor_at option" where
  "cursor_of_list [] = None"
| "cursor_of_list [x] = Some \<lparr>at_left = Some x, at_right = None, at_top = Some 0, at_bottom = None\<rparr>"
| "cursor_of_list (x # y # _) = Some \<lparr>at_left = Some x, at_right = None, at_top = Some y, at_bottom = None\<rparr>"

definition adjustOffsetFromHelper :: "cursor_at \<Rightarrow> pos \<Rightarrow> margins \<Rightarrow> pos \<Rightarrow> pos" where
  "adjustOffsetFromHelper at_obj helperSize m c =
     (let l1 = (case at_left at_obj of Some x \<Rightarrow> x + m_left m | None \<Rightarrow> left c);
          l2 = (case at_right at_obj of Some x \<Rightarrow> left helperSize - x + m_left m | None \<Rightarrow> l1);
          t1 = (case at_top at_obj of Some y \<Rightarrow> y + m_top m | None \<Rightarrow> top c);
          t2 = (case at_bottom at_obj of Some y \<Rightarrow> top helperSize - y + m_top m | None \<Rightarrow> t1)
      in Pos l2 t2)"

text \<open>The offset of the offset parent, with its border; the body counts as the origin.\<close>

definition getParentOffset :: "frame \<Rightarrow> bool \<Rightarrow> pos \<Rightarrow> pos \<Rightarrow> pos" where
  "getParentOffset f is_body po border =
     (let po1 = (if cssPosition f = ''absolute'' \<and> \<not> sp_document f \<and> sp_contains_op f then po + sp_scroll f else po)
      in (if is_body then 0 else po1) + border)"

definition getRelativeOffset :: "frame \<Rightarrow> pos \<Rightarrow> pos \<Rightarrow> pos" where
  "getRelativeOffset f elementPosition helperCss =
     (if cssPosition f = ''relative'' then elementPosition - helperCss + sp_scroll f else 0)"

section \<open>Lemmas on positions\<close>

lemma scale_pos_sel [geom_simps]:
  "left (scale_pos k p) = k * left p" "top (scale_pos k p) = k * top p"
  by (simp_all add: scale_pos_def)

lemma convert_absolute: "convertPositionTo f off Absolute p = p + relative off + parent off - scroll_amount f"
  by (simp add: convertPositionTo_def Let_def pos_eq_iff geom_simps)

lemma convert_relative: "convertPositionTo f off Relative p = p - relative off - parent off + scroll_amount f"
  by (simp add: convertPositionTo_def Let_def pos_eq_iff geom_simps)

text \<open>On the page, the helper's corner is the mouse position minus the click offset.\<close>

lemma absolute_of_generated:
  "convertPositionTo f off Absolute (generatePosition f opt original bounds off origin page)
   = (if original = None then page else constrained_page opt bounds off origin page) - click off"
  by (simp add: convert_absolute generatePosition_def Let_def)

lemma constrain_bounds:
  assumes "lo \<le> hi"
  shows "lo \<le> constrain lo hi c p - c" and "constrain lo hi c p - c \<le> hi"
  using assms by (auto simp: constrain_def Let_def)

lemma constrain_inside: "lo \<le> p - c \<Longrightarrow> p - c \<le> hi \<Longrightarrow> constrain lo hi c p = p"
  by (simp add: constrain_def Let_def)

lemma snap_to_grid_free: "0 < g \<Longrightarrow> \<exists>i. snap_to_grid g origin None c p = origin + of_int i * g"
  by (auto simp: snap_to_grid_def to_grid_def round_js_def)

lemma snap_to_grid_bounds:
  assumes "0 < g" and "lo \<le> p - c" and "p - c \<le> hi"
  shows "lo \<le> snap_to_grid g origin (Some (lo, hi)) c p - c"
    and "snap_to_grid g origin (Some (lo, hi)) c p - c \<le> max (hi + g / 2) (lo + g)"
proof -
  let ?t = "origin + to_grid g (p - origin)"
  have t: "p - g / 2 < ?t" "?t \<le> p + g / 2"
    using to_grid_bounds [OF assms(1), of "p - origin"] by simp_all
  have s: "snap_to_grid g origin (Some (lo, hi)) c p =
      (if ?t - c \<ge> lo \<or> ?t - c > hi then ?t else ?t + g)"
    using assms(1) by (simp add: snap_to_grid_def Let_def)
  show "lo \<le> snap_to_grid g origin (Some (lo, hi)) c p - c"
    using t assms unfolding s by (auto split: if_split)
  show "snap_to_grid g origin (Some (lo, hi)) c p - c \<le> max (hi + g / 2) (lo + g)"
    using t assms unfolding s by (auto split: if_split)
qed

definition in_area :: "area \<Rightarrow> pos \<Rightarrow> bool" where
  "in_area a p \<longleftrightarrow> x1 a \<le> left p \<and> left p \<le> x2 a \<and> y1 a \<le> top p \<and> top p \<le> y2 a"

definition proper_area :: "area \<Rightarrow> bool" where
  "proper_area a \<longleftrightarrow> x1 a \<le> x2 a \<and> y1 a \<le> y2 a"

lemma constrained_in_area:
  assumes "proper_area a" and "grid opt = None"
  shows "in_area a (constrained_page opt (Some a) off origin page - click off)"
  using assms constrain_bounds
  by (simp add: constrained_page_def in_area_def proper_area_def Let_def geom_simps)

section \<open>The methods of a drag\<close>

datatype revert_option = Never | Always | When_invalid | When_valid | By_function "bool \<Rightarrow> bool"

fun reverts :: "revert_option \<Rightarrow> bool \<Rightarrow> bool" where
  "reverts Never dropped = False"
| "reverts Always dropped = True"
| "reverts When_invalid dropped = (\<not> dropped)"
| "reverts When_valid dropped = dropped"
| "reverts (By_function f) dropped = f dropped"

record drag =
  drag_element :: nat
  helper :: "nat option"
  draggingClass :: bool
  removed :: "nat list"
  position :: pos
  originalPosition :: "pos option"
  originalPage :: pos
  positionAbs :: pos
  drag_off :: drag_offset
  drag_frame :: frame
  margins_of :: margins
  helperProportions :: pos
  containment_area :: "area option"
  relative_container :: bool
  style_left :: "rat option"
  style_top :: "rat option"
  was_dropped :: bool
  cancelHelperRemoval :: bool
  reverting :: bool
  iframeFixes :: nat

text \<open>
  What the handlers read of the page, and what plugins and callbacks answer: \<open>plugins\<close> and
  \<open>drag_callback\<close> change \<open>ui.position\<close>, callbacks refuse by \<open>False\<close>.
\<close>

record drag_env =
  d_options :: drag_options
  revert_opt :: revert_option
  on_resize_handle :: "nat \<Rightarrow> bool"
  on_handle :: "nat \<Rightarrow> bool"
  iframes :: nat
  make_helper :: "mouse_event \<Rightarrow> nat"
  raw_frame :: frame
  element_offset :: pos
  element_position :: pos
  helper_css :: pos
  helper_size :: pos
  parent_is_body :: bool
  parent_offset :: pos
  parent_border :: pos
  measured_margins :: margins
  container :: containment
  container_offset :: pos
  cursor_at_option :: "cursor_at option"
  start_allowed :: "drag \<Rightarrow> bool"
  drag_plugins :: "drag \<Rightarrow> pos"
  drag_callback :: "drag \<Rightarrow> pos \<times> bool"
  stop_allowed :: "drag \<Rightarrow> bool"
  drop_result :: "drag \<Rightarrow> bool"
  element_in_dom :: bool

definition mouse_pos :: "mouse_event \<Rightarrow> pos" where
  "mouse_pos ev = Pos (pageX ev) (pageY ev)"

text \<open>\<open>_create\<close>: a helper that is the element itself needs a position other than \<open>static\<close>.\<close>

definition created_position :: "bool \<Rightarrow> string \<Rightarrow> string" where
  "created_position original css =
     (if original \<and> take 1 css \<notin> {''r'', ''a'', ''f''} then ''relative'' else css)"

text \<open>\<open>_createHelper\<close>: another element is positioned absolutely.\<close>

definition helper_position :: "bool \<Rightarrow> string \<Rightarrow> string" where
  "helper_position is_element css =
     (if \<not> is_element \<and> \<not> (has_substring ''fixed'' css \<or> has_substring ''absolute'' css) then ''absolute'' else css)"

definition getHandle :: "drag_env \<Rightarrow> mouse_event \<Rightarrow> bool" where
  "getHandle env ev = (case ev_target ev of None \<Rightarrow> False | Some t \<Rightarrow> on_handle env t)"

definition drag_capture :: "drag_env \<Rightarrow> mouse_event \<Rightarrow> drag \<Rightarrow> drag \<times> bool" where
  "drag_capture env ev s =
     (if helper s \<noteq> None \<or> disabled (d_options env)
         \<or> (case ev_target ev of None \<Rightarrow> False | Some t \<Rightarrow> on_resize_handle env t) then (s, False)
      else if \<not> getHandle env ev then (s, False)
      else (s\<lparr>iframeFixes := iframeFixes s + iframes env\<rparr>, True))"

definition clear_drag :: "drag \<Rightarrow> drag" where
  "clear_drag s =
     s\<lparr>draggingClass := False,
       removed := (case helper s of
           Some h \<Rightarrow> if h \<noteq> drag_element s \<and> \<not> cancelHelperRemoval s then removed s @ [h] else removed s
         | None \<Rightarrow> removed s),
       helper := None, cancelHelperRemoval := False\<rparr>"

definition current_bounds :: "drag_env \<Rightarrow> drag \<Rightarrow> area option" where
  "current_bounds env s =
     map_option (\<lambda>a. if relative_container s then shifted a (container_offset env) else a) (containment_area s)"

definition position_for :: "drag_env \<Rightarrow> mouse_event \<Rightarrow> drag \<Rightarrow> pos" where
  "position_for env ev s =
     generatePosition (drag_frame s) (d_options env) (originalPosition s) (current_bounds env s)
       (drag_off s) (originalPage s) (mouse_pos ev)"

definition put_style :: "drag_env \<Rightarrow> drag \<Rightarrow> drag" where
  "put_style env s =
     s\<lparr>style_left := (if axis (d_options env) \<noteq> Some ''y'' then Some (left (position s)) else style_left s),
       style_top := (if axis (d_options env) \<noteq> Some ''x'' then Some (top (position s)) else style_top s)\<rparr>"

text \<open>\<open>_mouseDrag(event, true)\<close>.\<close>

definition move_helper :: "drag_env \<Rightarrow> mouse_event \<Rightarrow> drag \<Rightarrow> drag" where
  "move_helper env ev s =
     (let p = position_for env ev s
      in s\<lparr>position := p, positionAbs := convertPositionTo (drag_frame s) (drag_off s) Absolute p\<rparr>)"

text \<open>
  \<open>_mouseDrag(event)\<close>: the plugins, the absolute position again, the callback; \<open>True\<close> in the result
  means that the drag is to end by \<open>_mouseUp({})\<close>.
\<close>

definition drag_move :: "drag_env \<Rightarrow> mouse_event \<Rightarrow> drag \<Rightarrow> drag \<times> bool" where
  "drag_move env ev s =
     (let s1 = move_helper env ev s;
          p = drag_plugins env s1;
          s2 = s1\<lparr>position := p, positionAbs := convertPositionTo (drag_frame s) (drag_off s) Absolute p\<rparr>;
          r = drag_callback env s2;
          s3 = s2\<lparr>position := fst r\<rparr>
      in if snd r then (put_style env s3, False) else (s3, True))"

definition drag_start :: "drag_env \<Rightarrow> mouse_event \<Rightarrow> drag \<Rightarrow> drag \<times> bool" where
  "drag_start env ev s =
     (let h = make_helper env ev;
          f = (raw_frame env)\<lparr>cssPosition := helper_position (h = drag_element s) (cssPosition (raw_frame env))\<rparr>;
          m = measured_margins env;
          c = element_offset env - Pos (m_left m) (m_top m);
          off = \<lparr>corner = c, click = mouse_pos ev - c,
                 parent = getParentOffset f (parent_is_body env) (parent_offset env) (parent_border env),
                 relative = getRelativeOffset f (element_position env) (helper_css env)\<rparr>;
          s1 = s\<lparr>helper := Some h, draggingClass := True, helperProportions := helper_size env,
                 margins_of := m, drag_frame := f, positionAbs := element_offset env, drag_off := off\<rparr>;
          p = position_for env ev s1;
          s2 = s1\<lparr>position := p, originalPosition := Some p, originalPage := mouse_pos ev,
                  drag_off := (case cursor_at_option env of
                      None \<Rightarrow> off
                    | Some a \<Rightarrow> off\<lparr>click := adjustOffsetFromHelper a (helper_size env) m (click off)\<rparr>)\<rparr>;
          con = setContainment (container env) (drag_off s2) (helper_size env) m
                  (containment_area s2, relative_container s2);
          s3 = s2\<lparr>containment_area := fst con, relative_container := snd con\<rparr>
      in if \<not> start_allowed env s3 then (clear_drag s3, False)
         else (put_style env (move_helper env ev s3), True))"

definition drag_stop :: "drag_env \<Rightarrow> mouse_event \<Rightarrow> drag \<Rightarrow> drag" where
  "drag_stop env ev s =
     (let dropped = (was_dropped s \<or> drop_result env s); s1 = s\<lparr>was_dropped := False\<rparr>
      in if \<not> element_in_dom env \<and> helper_original (d_options env) then s1
         else if reverts (revert_opt env) dropped then s1\<lparr>reverting := True\<rparr>
         else if stop_allowed env s1 then clear_drag s1 else s1)"

text \<open>The end of the animation back to the original position.\<close>

definition revert_done :: "drag_env \<Rightarrow> drag \<Rightarrow> drag" where
  "revert_done env s =
     (let s1 = s\<lparr>reverting := False, style_left := map_option left (originalPosition s),
                 style_top := map_option top (originalPosition s)\<rparr>
      in if stop_allowed env s1 then clear_drag s1 else s1)"

definition drag_up :: "mouse_event \<Rightarrow> drag \<Rightarrow> drag" where
  "drag_up ev s = s\<lparr>iframeFixes := 0\<rparr>"

definition draggable_methods :: "drag_env \<Rightarrow> drag mouse_methods" where
  "draggable_methods env = \<lparr>m_capture = drag_capture env, m_start = drag_start env,
     m_drag = drag_move env, m_stop = drag_stop env, m_up = drag_up\<rparr>"

definition cancel_drag :: "drag_env \<Rightarrow> mouse_options \<Rightarrow> nat \<Rightarrow> drag mouse_page \<Rightarrow> drag mouse_page js" where
  "cancel_drag env opts w p =
     (let s = inner (widget p w)
      in case helper s of
           None \<Rightarrow> Inl TypeError
         | Some _ \<Rightarrow>
             if draggingClass s then Inr (mouseUp (draggable_methods env) opts w no_event p)
             else Inr (put_widget w ((widget p w)\<lparr>inner := clear_drag s\<rparr>) p))"

definition drag_setup :: "(nat \<Rightarrow> drag_env) \<Rightarrow> (nat \<Rightarrow> mouse_options) \<Rightarrow> nat list \<Rightarrow> bool \<Rightarrow> drag mouse_setup" where
  "drag_setup envs opts ws ie =
     \<lparr>meths = (\<lambda>w. draggable_methods (envs w)), optns = opts, ids = ws, old_ie = ie\<rparr>"

section \<open>Invariants of a drag\<close>

lemmas drag_defs = draggable_methods_def drag_setup_def drag_capture_def drag_up_def

lemma drag_capture_inner: "fst (drag_capture env ev s) = s \<or>
    fst (drag_capture env ev s) = s\<lparr>iframeFixes := iframeFixes s + iframes env\<rparr>"
  by (simp add: drag_capture_def)

lemma put_style_sel [simp]:
  "helper (put_style env s) = helper s" "originalPosition (put_style env s) = originalPosition s"
  "position (put_style env s) = position s" "positionAbs (put_style env s) = positionAbs s"
  "containment_area (put_style env s) = containment_area s"
  "relative_container (put_style env s) = relative_container s"
  "drag_off (put_style env s) = drag_off s" "drag_frame (put_style env s) = drag_frame s"
  "originalPage (put_style env s) = originalPage s"
  by (simp_all add: put_style_def)

lemma move_helper_sel [simp]:
  "helper (move_helper env ev s) = helper s" "originalPosition (move_helper env ev s) = originalPosition s"
  "position (move_helper env ev s) = position_for env ev s"
  "positionAbs (move_helper env ev s) =
     convertPositionTo (drag_frame s) (drag_off s) Absolute (position_for env ev s)"
  "containment_area (move_helper env ev s) = containment_area s"
  "relative_container (move_helper env ev s) = relative_container s"
  "drag_off (move_helper env ev s) = drag_off s" "drag_frame (move_helper env ev s) = drag_frame s"
  by (simp_all add: move_helper_def Let_def)

lemma current_bounds_kept [simp]:
  "current_bounds env (move_helper env ev s) = current_bounds env s"
  "current_bounds env (put_style env s) = current_bounds env s"
  "current_bounds env (s\<lparr>position := p\<rparr>) = current_bounds env s"
  "current_bounds env (s\<lparr>positionAbs := p\<rparr>) = current_bounds env s"
  by (simp_all add: current_bounds_def)

definition has_helper :: "drag \<Rightarrow> bool" where
  "has_helper s \<longleftrightarrow> helper s \<noteq> None \<and> originalPosition s \<noteq> None"

lemma drag_move_helper: "has_helper s \<Longrightarrow> has_helper (fst (drag_move env ev s))"
  by (simp add: has_helper_def drag_move_def Let_def)

lemma drag_start_helper: "snd (drag_start env ev s) \<Longrightarrow> has_helper (fst (drag_start env ev s))"
  by (auto simp: has_helper_def drag_start_def Let_def split: if_split_asm)

interpretation dragging: interaction "drag_setup envs opts ws ie" "\<lambda>w b s. b \<longrightarrow> has_helper s"
  by unfold_locales
    (use drag_start_helper in \<open>auto simp: drag_defs drag_move_helper, auto simp: has_helper_def\<close>)

text \<open>The containment is set and no plugin or callback interferes with the position.\<close>

definition contained_env :: "drag_env \<Rightarrow> bool" where
  "contained_env env \<longleftrightarrow> container env \<notin> {Free, Missing_element} \<and> grid (d_options env) = None"

definition undisturbed :: "drag_env \<Rightarrow> bool" where
  "undisturbed env \<longleftrightarrow> (\<forall>s. drag_plugins env s = position s \<and> fst (drag_callback env s) = position s)"

definition stays_inside :: "drag_env \<Rightarrow> drag \<Rightarrow> bool" where
  "stays_inside env s \<longleftrightarrow> originalPosition s \<noteq> None \<and>
     (\<exists>a. current_bounds env s = Some a \<and> (proper_area a \<longrightarrow> in_area a (positionAbs s)))"

lemma position_for_inside:
  assumes "grid (d_options env) = None" and "current_bounds env s = Some a" and "proper_area a"
    and "originalPosition s \<noteq> None"
  shows "in_area a (convertPositionTo (drag_frame s) (drag_off s) Absolute (position_for env ev s))"
  using assms(4) constrained_in_area [OF assms(3,1)]
  by (auto simp: position_for_def absolute_of_generated assms(2))

lemma move_helper_inside:
  assumes "grid (d_options env) = None" and "current_bounds env s = Some a" and "originalPosition s \<noteq> None"
  shows "stays_inside env (move_helper env ev s)"
  using assms position_for_inside [OF assms(1,2) _ assms(3)]
  by (auto simp: stays_inside_def current_bounds_kept)

lemma setContainment_some:
  "c \<notin> {Free, Missing_element} \<Longrightarrow> fst (setContainment c off z m old) \<noteq> None"
  by (cases c) (simp_all add: setContainment_def Let_def)

lemma drag_start_inside:
  assumes "contained_env env" and "snd (drag_start env ev s)"
  shows "stays_inside env (fst (drag_start env ev s))"
proof -
  obtain s3 where s3: "drag_start env ev s = (put_style env (move_helper env ev s3), True)"
    "originalPosition s3 \<noteq> None" "containment_area s3 \<noteq> None"
    using assms setContainment_some
    by (force simp: drag_start_def Let_def contained_env_def split: if_split_asm)
  then obtain a where "current_bounds env s3 = Some a" by (auto simp: current_bounds_def)
  then have "stays_inside env (move_helper env ev s3)"
    using assms(1) s3(2) by (intro move_helper_inside) (auto simp: contained_env_def)
  then show ?thesis by (simp add: s3(1) stays_inside_def)
qed

lemma drag_move_inside:
  assumes "contained_env env" and "undisturbed env" and "stays_inside env s"
  shows "stays_inside env (fst (drag_move env ev s))"
proof -
  obtain a where "current_bounds env s = Some a" "originalPosition s \<noteq> None"
    using assms(3) by (auto simp: stays_inside_def)
  then have "stays_inside env (move_helper env ev s)"
    using assms(1) by (intro move_helper_inside) (auto simp: contained_env_def)
  then show ?thesis
    using assms(2) by (simp add: drag_move_def Let_def undisturbed_def stays_inside_def)
qed

interpretation contained: interaction "drag_setup envs opts ws ie"
    "\<lambda>w b s. b \<and> contained_env (envs w) \<and> undisturbed (envs w) \<longrightarrow> stays_inside (envs w) s"
proof unfold_locales
  fix w b e s
  assume "b \<and> contained_env (envs w) \<and> undisturbed (envs w) \<longrightarrow> stays_inside (envs w) s"
  then show "b \<and> contained_env (envs w) \<and> undisturbed (envs w) \<longrightarrow>
      stays_inside (envs w) (m_up (meths (drag_setup envs opts ws ie) w) e s)"
    by (simp add: drag_defs stays_inside_def current_bounds_def)
qed (auto simp: drag_defs drag_start_inside drag_move_inside)

text \<open>
  C14: While a dialog is being dragged, whatever the mouse does and however often it was dragged
  before, its corner on the page stays inside the containment, provided that the containment is
  not empty, there is no grid and neither plugins nor callbacks change the position.
\<close>

theorem drag_stays_contained:
  assumes "p = run_page (drag_setup envs opts ws ie) (fresh_mouse s) es"
    and "mouseStarted (widget p w)" and "contained_env (envs w)" and "undisturbed (envs w)"
  shows "\<exists>a. current_bounds (envs w) (inner (widget p w)) = Some a \<and>
    (proper_area a \<longrightarrow> in_area a (positionAbs (inner (widget p w))))"
  using contained.reached_inv [where envs = envs and s = s and w = w and opts = opts and ws = ws and ie = ie and es = es] assms by (simp add: stays_inside_def)

text \<open>
  With a grid the containment does not hold: when the mouse is beyond the right edge and the
  nearest grid line lies behind that edge, the helper is put on that line, outside the area,
  because the test for the upper bound accepts every value above the lower one.
\<close>

theorem grid_leaves_containment:
  assumes "original \<noteq> None" and "grid opt = Some (gx, gy)" and "0 < gx"
    and "x1 a \<le> x2 a" and "x2 a < left page - left (click off)"
    and "x2 a + left (click off) < left origin + to_grid gx (x2 a + left (click off) - left origin)"
  shows "x2 a < left (convertPositionTo f off Absolute (generatePosition f opt original (Some a) off origin page))"
proof -
  let ?c = "left (click off)"
  have "constrain (x1 a) (x2 a) ?c (left page) = x2 a + ?c"
    using assms(5) by (simp add: constrain_def Let_def)
  then show ?thesis
    using assms by (auto simp: absolute_of_generated constrained_page_def Let_def geom_simps snap_to_grid_def)
qed

definition plain_frame :: frame where
  "plain_frame = \<lparr>cssPosition = ''absolute'', sp_document = True, sp_contains_op = False,
     sp_tag = ''undefined'', op_tag = ''BODY'', sp_scroll = 0, op_scroll = 0\<rparr>"

definition corner_offset :: drag_offset where
  "corner_offset = \<lparr>corner = 0, click = 0, parent = 0, relative = 0\<rparr>"

definition grid_options :: drag_options where
  "grid_options = \<lparr>axis = None, grid = Some (10, 10), disabled = False, helper_original = True\<rparr>"

theorem grid_leaves_containment_witness:
  "left (convertPositionTo plain_frame corner_offset Absolute
     (generatePosition plain_frame grid_options (Some 0) (Some \<lparr>x1 = 0, y1 = 0, x2 = 96, y2 = 96\<rparr>)
       corner_offset 0 (Pos 200 50))) > 96"
proof -
  have "round_js (96 / 10) = 10"
    using round_js_bounds [of "96 / 10"] by (simp add: round_js_def floor_eq_iff)
  then show ?thesis
    using grid_leaves_containment [of "Some 0" grid_options 10 10 "\<lparr>x1 = 0, y1 = 0, x2 = 96, y2 = 96\<rparr>"
        "Pos 200 50" corner_offset 0 plain_frame]
    by (simp add: grid_options_def corner_offset_def to_grid_def geom_simps)
qed

text \<open>
  Converting a position to page coordinates and back gives the position, for every kind of
  positioning and scrolling, and while dragging the corner on the page is the constrained mouse
  position minus the click offset.
\<close>

theorem convert_round_trip:
  "convertPositionTo f off Relative (convertPositionTo f off Absolute p) = p \<and>
   convertPositionTo f off Absolute (convertPositionTo f off Relative p) = p \<and>
   convertPositionTo f off Absolute (generatePosition f opt (Some q) bounds off origin page)
     = constrained_page opt bounds off origin page - click off"
  by (simp add: absolute_of_generated) (simp add: convert_absolute convert_relative)

definition sample_env :: drag_env where
  "sample_env =
     \<lparr>d_options = \<lparr>axis = None, grid = None, disabled = False, helper_original = True\<rparr>,
      revert_opt = Never, on_resize_handle = (\<lambda>t. False), on_handle = (\<lambda>t. True), iframes = 0,
      make_helper = (\<lambda>e. 7), raw_frame = plain_frame, element_offset = 0, element_position = 0,
      helper_css = 0, helper_size = Pos 30 20, parent_is_body = True, parent_offset = 0, parent_border = 0,
      measured_margins = \<lparr>m_left = 0, m_top = 0, m_right = 0, m_bottom = 0\<rparr>,
      container = In_array \<lparr>x1 = 0, y1 = 0, x2 = 96, y2 = 96\<rparr>, container_offset = 0,
      cursor_at_option = None, start_allowed = (\<lambda>s. True), drag_plugins = position,
      drag_callback = (\<lambda>s. (position s, True)), stop_allowed = (\<lambda>s. True), drop_result = (\<lambda>s. False),
      element_in_dom = True\<rparr>"

definition resting :: drag where
  "resting =
     \<lparr>drag_element = 7, helper = None, draggingClass = False, removed = [], position = 0,
      originalPosition = None, originalPage = 0, positionAbs = 0, drag_off = corner_offset,
      drag_frame = plain_frame, margins_of = \<lparr>m_left = 0, m_top = 0, m_right = 0, m_bottom = 0\<rparr>,
      helperProportions = 0, containment_area = None, relative_container = False, style_left = None,
      style_top = None, was_dropped = False, cancelHelperRemoval = False, reverting = False, iframeFixes = 0\<rparr>"

abbreviation sample_run :: "drag mouse_page" where
  "sample_run \<equiv> run_page (drag_setup (\<lambda>w. sample_env) (\<lambda>w. prompt_options) [0] False)
     (fresh_mouse (\<lambda>w. resting)) [Down (at_point 0) [0]]"

lemma sample_run_started: "mouseStarted (widget sample_run 0)"
  by (simp add: run_page_def drag_defs mouseDown_def at_point_def prompt_options_def press_def
      ready_to_start_def mouseDistanceMet_def fresh_mouse_def mouseInit_def Let_def sample_env_def
      resting_def getHandle_def drag_start_def)

theorem drag_stays_contained_witness:
  "\<exists>a. current_bounds sample_env (inner (widget sample_run 0)) = Some a"
proof -
  have "contained_env sample_env" "undisturbed sample_env"
    by (simp_all add: contained_env_def undisturbed_def sample_env_def)
  then show ?thesis
    using drag_stays_contained [OF refl sample_run_started] by auto
qed

section \<open>Plugins\<close>

text \<open>
  \<open>cursor\<close>, \<open>opacity\<close> and \<open>zIndex\<close>: one style property is replaced during the drag; a property that
  is the empty string before is not remembered.
\<close>

record css_plugin =
  css_value :: string
  remembered :: "string option"

definition css_start :: "string \<Rightarrow> css_plugin \<Rightarrow> css_plugin" where
  "css_start new p =
     \<lparr>css_value = new, remembered = (if css_value p \<noteq> [] then Some (css_value p) else remembered p)\<rparr>"

definition css_stop :: "css_plugin \<Rightarrow> css_plugin" where
  "css_stop p = (case remembered p of
     Some v \<Rightarrow> if v = [] then p else p\<lparr>css_value := v\<rparr> | None \<Rightarrow> p)"

lemma css_restored: "css_value p \<noteq> [] \<Longrightarrow> css_value (css_stop (css_start new p)) = css_value p"
  by (simp add: css_start_def css_stop_def)

text \<open>\<open>scroll\<close>: one axis, inside a scrolled element and in the document. \<open>limit\<close> is what the browser allows.\<close>

definition clamp :: "rat \<Rightarrow> rat \<Rightarrow> rat" where
  "clamp limit x = max 0 (min limit x)"

definition scroll_element :: "rat \<Rightarrow> rat \<Rightarrow> rat \<Rightarrow> rat \<Rightarrow> rat \<Rightarrow> rat \<Rightarrow> rat \<Rightarrow> rat" where
  "scroll_element sensitivity speed limit edge extent page scroll =
     (if edge + extent - page < sensitivity then clamp limit (scroll + speed)
      else if page - edge < sensitivity then clamp limit (scroll - speed)
      else scroll)"

definition scroll_document :: "rat \<Rightarrow> rat \<Rightarrow> rat \<Rightarrow> rat \<Rightarrow> rat \<Rightarrow> rat \<Rightarrow> rat" where
  "scroll_document sensitivity speed limit extent page scroll =
     (if page - scroll < sensitivity then clamp limit (scroll - speed)
      else if extent - (page - scroll) < sensitivity then clamp limit (scroll + speed)
      else scroll)"

record scroll_options =
  sensitivity :: rat
  speed :: rat
  scroll_axis :: "string option"

definition scroll_drag ::
    "scroll_options \<Rightarrow> bool \<Rightarrow> pos \<Rightarrow> pos \<Rightarrow> pos \<Rightarrow> pos \<Rightarrow> pos \<Rightarrow> pos" where
  "scroll_drag opt in_element edge extent limit page scroll =
     (let one = (\<lambda>l e x p s. if in_element then scroll_element (sensitivity opt) (speed opt) l e x p s
                             else scroll_document (sensitivity opt) (speed opt) l x p s)
      in Pos (if scroll_axis opt \<noteq> Some ''y''
              then one (left limit) (left edge) (left extent) (left page) (left scroll) else left scroll)
             (if scroll_axis opt \<noteq> Some ''x''
              then one (top limit) (top edge) (top extent) (top page) (top scroll) else top scroll))"

text \<open>\<open>stack\<close>: the group is renumbered in its order, the dragged element comes on top.\<close>

fun insert_by_z :: "('e \<Rightarrow> int) \<Rightarrow> 'e \<Rightarrow> 'e list \<Rightarrow> 'e list" where
  "insert_by_z z e [] = [e]"
| "insert_by_z z e (x # xs) = (if z e \<le> z x then e # x # xs else x # insert_by_z z e xs)"

definition sort_by_z :: "('e \<Rightarrow> int) \<Rightarrow> 'e list \<Rightarrow> 'e list" where
  "sort_by_z z es = foldr (insert_by_z z) es []"

fun number_from :: "int \<Rightarrow> 'e list \<Rightarrow> ('e \<Rightarrow> int) \<Rightarrow> 'e \<Rightarrow> int" where
  "number_from n [] z = z"
| "number_from n (e # es) z = number_from (n + 1) es (z(e := n))"

definition stack_start :: "'e \<Rightarrow> 'e list \<Rightarrow> ('e \<Rightarrow> int) \<Rightarrow> 'e \<Rightarrow> int" where
  "stack_start me grp z =
     (case sort_by_z z grp of
        [] \<Rightarrow> z
      | g # gs \<Rightarrow> (number_from (z g) (g # gs) z)(me := z g + int (length (g # gs))))"

text \<open>
  \<open>snap\<close>: the items are visited from the last to the first. The four flags live outside the loop,
  so the value that \<open>first\<close> takes in the mode \<open>inner\<close> is that of the item visited before.
\<close>

record snap_item =
  s_left :: rat
  s_top :: rat
  s_width :: rat
  s_height :: rat
  snapping :: bool

record sides =
  side_t :: bool
  side_b :: bool
  side_l :: bool
  side_r :: bool

definition some_side :: "sides \<Rightarrow> bool" where
  "some_side s \<longleftrightarrow> side_t s \<or> side_b s \<or> side_l s \<or> side_r s"

datatype snap_event = Snapped nat | Released nat

record snap_state =
  ui_position :: pos
  flags :: sides
  snap_events :: "snap_event list"

record snap_opts =
  snapMode :: string
  snapTolerance :: rat

definition snap_start :: "'e \<Rightarrow> ('e \<times> snap_item) list \<Rightarrow> snap_item list" where
  "snap_start me es = map snd (filter (\<lambda>(e, i). e \<noteq> me) es)"

definition near :: "rat \<Rightarrow> rat \<Rightarrow> rat \<Rightarrow> rat \<Rightarrow> rat \<Rightarrow> rat \<Rightarrow> rat \<Rightarrow> bool" where
  "near d l r t b x y \<longleftrightarrow> l - d < x \<and> x < r + d \<and> t - d < y \<and> y < b + d"

text \<open>The four sides of the helper against those of the item, in the order top, bottom, left, right.\<close>

definition outer_sides :: "rat \<Rightarrow> snap_item \<Rightarrow> pos \<Rightarrow> pos \<Rightarrow> sides" where
  "outer_sides d i p1 p2 =
     \<lparr>side_t = \<bar>s_top i - top p2\<bar> \<le> d, side_b = \<bar>s_top i + s_height i - top p1\<bar> \<le> d,
      side_l = \<bar>s_left i - left p2\<bar> \<le> d, side_r = \<bar>s_left i + s_width i - left p1\<bar> \<le> d\<rparr>"

definition inner_sides :: "rat \<Rightarrow> snap_item \<Rightarrow> pos \<Rightarrow> pos \<Rightarrow> sides" where
  "inner_sides d i p1 p2 =
     \<lparr>side_t = \<bar>s_top i - top p1\<bar> \<le> d, side_b = \<bar>s_top i + s_height i - top p2\<bar> \<le> d,
      side_l = \<bar>s_left i - left p1\<bar> \<le> d, side_r = \<bar>s_left i + s_width i - left p2\<bar> \<le> d\<rparr>"

text \<open>
  The assignments to \<open>ui.position\<close>: \<open>rel\<close> converts a page coordinate to one of the helper; of two
  sides that hold the later one wins.
\<close>

definition apply_sides :: "(pos \<Rightarrow> pos) \<Rightarrow> sides \<Rightarrow> pos \<Rightarrow> pos \<Rightarrow> pos \<Rightarrow> pos" where
  "apply_sides rel s near_corner far_corner u =
     Pos (if side_r s then left (rel far_corner) else if side_l s then left (rel near_corner) else left u)
         (if side_b s then top (rel far_corner) else if side_t s then top (rel near_corner) else top u)"

definition snap_item_step ::
    "snap_opts \<Rightarrow> (pos \<Rightarrow> pos) \<Rightarrow> pos \<Rightarrow> pos \<Rightarrow> nat \<times> snap_item \<Rightarrow> snap_state \<Rightarrow> snap_state \<times> snap_item" where
  "snap_item_step opt rel p1 extent ni s =
     (let i = snd ni; d = snapTolerance opt; p2 = p1 + extent;
          l = s_left i; r = l + s_width i; t = s_top i; b = t + s_height i;
          n = near d l r t b
      in if \<not> (n (left p1) (top p1) \<or> n (left p1) (top p2) \<or> n (left p2) (top p1) \<or> n (left p2) (top p2)) then
           (s\<lparr>snap_events := snap_events s @ (if snapping i then [Released (fst ni)] else [])\<rparr>,
            i\<lparr>snapping := False\<rparr>)
         else
           (let so = (if snapMode opt \<noteq> ''inner'' then outer_sides d i p1 p2 else flags s);
                u1 = (if snapMode opt \<noteq> ''inner''
                      then apply_sides rel so (Pos l t - extent) (Pos r b) (ui_position s) else ui_position s);
                first = some_side so;
                si = (if snapMode opt \<noteq> ''outer'' then inner_sides d i p1 p2 else so);
                u2 = (if snapMode opt \<noteq> ''outer''
                      then apply_sides rel si (Pos l t) (Pos r b - extent) u1 else u1);
                on = (some_side si \<or> first)
            in (\<lparr>ui_position = u2, flags = si,
                 snap_events = snap_events s @ (if \<not> snapping i \<and> on then [Snapped (fst ni)] else [])\<rparr>,
                i\<lparr>snapping := on\<rparr>)))"

fun snap_all ::
    "snap_opts \<Rightarrow> (pos \<Rightarrow> pos) \<Rightarrow> pos \<Rightarrow> pos \<Rightarrow> (nat \<times> snap_item) list \<Rightarrow> snap_state \<Rightarrow> snap_state \<times> snap_item list" where
  "snap_all opt rel p1 extent [] s = (s, [])"
| "snap_all opt rel p1 extent (i # is) s =
     (case snap_item_step opt rel p1 extent i s of (s', i') \<Rightarrow>
       (case snap_all opt rel p1 extent is s' of (s'', is') \<Rightarrow> (s'', i' # is')))"

definition relative_position :: "frame \<Rightarrow> drag_offset \<Rightarrow> margins \<Rightarrow> pos \<Rightarrow> pos" where
  "relative_position f off m p = convertPositionTo f off Relative p - Pos (m_left m) (m_top m)"

definition no_sides :: sides where
  "no_sides = \<lparr>side_t = False, side_b = False, side_l = False, side_r = False\<rparr>"

definition snap_drag ::
    "snap_opts \<Rightarrow> frame \<Rightarrow> drag_offset \<Rightarrow> margins \<Rightarrow> pos \<Rightarrow> pos \<Rightarrow> pos \<Rightarrow> snap_item list \<Rightarrow> snap_state \<times> snap_item list" where
  "snap_drag opt f off m p1 extent u is =
     (case snap_all opt (relative_position f off m) p1 extent (rev (enumerate 0 is))
        \<lparr>ui_position = u, flags = no_sides, snap_events = []\<rparr> of (s, is') \<Rightarrow> (s, rev is'))"

section \<open>Properties of the plugins\<close>

lemma insert_by_z_length [simp]: "length (insert_by_z z e xs) = Suc (length xs)"
  by (induction xs) auto

lemma set_insert_by_z [simp]: "set (insert_by_z z e xs) = insert e (set xs)"
  by (induction xs) auto

lemma distinct_insert_by_z [simp]: "distinct (insert_by_z z e xs) \<longleftrightarrow> e \<notin> set xs \<and> distinct xs"
  by (induction xs) auto

lemma sorted_insert_by_z: "sorted (map z xs) \<Longrightarrow> sorted (map z (insert_by_z z e xs))"
  by (induction xs) (auto simp: order_trans)

lemma sort_by_z_props:
  "set (sort_by_z z es) = set es" "length (sort_by_z z es) = length es"
  "distinct (sort_by_z z es) = distinct es" "sorted (map z (sort_by_z z es))"
  unfolding sort_by_z_def by (induction es) (auto intro: sorted_insert_by_z)

lemma number_from_other: "e \<notin> set es \<Longrightarrow> number_from n es z e = z e"
  by (induction es arbitrary: n z) auto

lemma number_from_nth:
  "distinct es \<Longrightarrow> i < length es \<Longrightarrow> number_from n es z (es ! i) = n + int i"
proof (induction es arbitrary: n z i)
  case (Cons e es)
  then show ?case by (cases i) (auto simp: number_from_other)
qed simp

lemma stack_parts:
  assumes "distinct grp" and "e \<in> set grp" and "e \<noteq> me"
  shows "stack_start me grp z e < stack_start me grp z me"
    and "e' \<in> set grp \<Longrightarrow> e' \<noteq> me \<Longrightarrow> z e < z e' \<Longrightarrow> stack_start me grp z e < stack_start me grp z e'"
proof -
  let ?es = "sort_by_z z grp"
  have es: "set ?es = set grp" "distinct ?es" "sorted (map z ?es)"
    using assms(1) by (simp_all add: sort_by_z_props)
  then obtain g gs where g: "?es = g # gs" using assms(2) by (cases ?es) auto
  have st: "stack_start me grp z x = (if x = me then z g + int (length ?es) else number_from (z g) ?es z x)" for x
    by (simp add: stack_start_def g)
  have num: "\<exists>i < length ?es. ?es ! i = x \<and> number_from (z g) ?es z x = z g + int i" if "x \<in> set grp" for x
    using that es(1,2) number_from_nth by (metis in_set_conv_nth)
  obtain i where i: "i < length ?es" "?es ! i = e" "number_from (z g) ?es z e = z g + int i"
    using num [OF assms(2)] by blast
  show "stack_start me grp z e < stack_start me grp z me" using i assms(3) by (simp add: st)
  show "stack_start me grp z e < stack_start me grp z e'" if e': "e' \<in> set grp" "e' \<noteq> me" "z e < z e'"
  proof -
    obtain j where j: "j < length ?es" "?es ! j = e'" "number_from (z g) ?es z e' = z g + int j"
      using num [OF e'(1)] by blast
    have "i < j"
    proof (rule ccontr)
      assume "\<not> i < j"
      then have "z (?es ! j) \<le> z (?es ! i)"
        using es(3) i(1) j(1) sorted_nth_mono [of "map z ?es" j i] by simp
      then show False using i(2) j(2) e'(3) by simp
    qed
    then show ?thesis using i(3) j(3) assms(3) e'(2) by (simp add: st)
  qed
qed

text \<open>
  Stacking puts the dragged element above every other element of its group and keeps the
  order of the others: an element that was strictly below another one stays below it.
\<close>

theorem stack_on_top:
  assumes "distinct grp" and "e \<in> set grp" and "e \<noteq> me"
  shows "stack_start me grp z e < stack_start me grp z me \<and>
    (\<forall>e' \<in> set grp. e' \<noteq> me \<and> z e < z e' \<longrightarrow> stack_start me grp z e < stack_start me grp z e')"
  using stack_parts [OF assms] by blast

theorem stack_on_top_witness:
  "stack_start 2 [2, 1, 3 :: nat] (\<lambda>e. if e = 1 then 5 else if e = 2 then 0 else 9) 3
     < stack_start 2 [2, 1, 3 :: nat] (\<lambda>e. if e = 1 then 5 else if e = 2 then 0 else 9) 2"
  using stack_on_top [of "[2, 1, 3 :: nat]" 3 2 "\<lambda>e. if e = 1 then 5 else if e = 2 then 0 else 9"] by simp

text \<open>An item that is alone, in reach and close to one side of the helper pulls that side to its own.\<close>

lemma apply_sides_left:
  "side_l s \<Longrightarrow> \<not> side_r s \<Longrightarrow> left (apply_sides rel s n f u) = left (rel n)"
  by (simp add: apply_sides_def)

lemma relative_position_absolute:
  "convertPositionTo f off Absolute (relative_position f off m p) = p - Pos (m_left m) (m_top m)"
  by (simp add: relative_position_def convert_absolute convert_relative pos_eq_iff geom_simps)

text \<open>
  Snapping in the mode \<open>outer\<close>: when one item is in reach, the right side of the helper is
  close to its left side and its right side is not close to the helper's left side, the helper
  is put with its right side exactly on the item's left side (the margin is outside of it).
\<close>

theorem snap_meets_side:
  assumes "snapMode opt = ''outer''" and "0 < snapTolerance opt"
    and "near (snapTolerance opt) (s_left i) (s_left i + s_width i) (s_top i) (s_top i + s_height i)
      (left p1 + left ext) (top p1)"
    and "\<bar>s_left i - (left p1 + left ext)\<bar> \<le> snapTolerance opt"
    and "\<not> \<bar>s_left i + s_width i - left p1\<bar> \<le> snapTolerance opt"
  shows "left (convertPositionTo f off Absolute (ui_position (fst (snap_drag opt f off m p1 ext u [i]))))
      + left ext + m_left m = s_left i"
proof -
  let ?so = "outer_sides (snapTolerance opt) i p1 (p1 + ext)"
  let ?rel = "relative_position f off m"
  have so: "side_l ?so" "\<not> side_r ?so" using assms(4,5) by (simp_all add: outer_sides_def geom_simps)
  have "ui_position (fst (snap_drag opt f off m p1 ext u [i])) =
      apply_sides ?rel ?so (Pos (s_left i) (s_top i) - ext) (Pos (s_left i + s_width i) (s_top i + s_height i)) u"
    using assms(1,3) by (simp add: snap_drag_def snap_item_step_def Let_def geom_simps enumerate_eq_zip split: prod.split)
  then have "left (ui_position (fst (snap_drag opt f off m p1 ext u [i])))
      = left (?rel (Pos (s_left i) (s_top i) - ext))"
    using so by (simp add: apply_sides_left)
  moreover have "left (convertPositionTo f off Absolute q) = left (convertPositionTo f off Absolute r)"
    if "left q = left r" for q r
    using that by (simp add: convert_absolute geom_simps)
  ultimately have "left (convertPositionTo f off Absolute (ui_position (fst (snap_drag opt f off m p1 ext u [i]))))
      = left (convertPositionTo f off Absolute (?rel (Pos (s_left i) (s_top i) - ext)))"
    by blast
  then show ?thesis by (simp add: relative_position_absolute geom_simps)
qed

definition snap_target :: snap_item where
  "snap_target = \<lparr>s_left = 100, s_top = 0, s_width = 50, s_height = 50, snapping = False\<rparr>"

theorem snap_meets_side_witness:
  "left (convertPositionTo plain_frame corner_offset Absolute (ui_position (fst (snap_drag
      \<lparr>snapMode = ''outer'', snapTolerance = 20\<rparr> plain_frame corner_offset
      \<lparr>m_left = 0, m_top = 0, m_right = 0, m_bottom = 0\<rparr> (Pos 60 10) (Pos 30 20) (Pos 60 10) [snap_target])))) = 70"
  using snap_meets_side [of "\<lparr>snapMode = ''outer'', snapTolerance = 20\<rparr>" snap_target "Pos 60 10" "Pos 30 20"
      plain_frame corner_offset "\<lparr>m_left = 0, m_top = 0, m_right = 0, m_bottom = 0\<rparr>" "Pos 60 10"]
  by (simp add: snap_target_def near_def)

lemma inner_snap_parts:
  assumes "snapMode opt = ''inner''" and "some_side (flags s)"
    and "near (snapTolerance opt) (s_left i) (s_left i + s_width i) (s_top i) (s_top i + s_height i) (left p1) (top p1)"
    and "\<not> some_side (inner_sides (snapTolerance opt) i p1 (p1 + ext))"
  shows "snapping (snd (snap_item_step opt rel p1 ext (n, i) s))"
    and "ui_position (fst (snap_item_step opt rel p1 ext (n, i) s)) = ui_position s"
  using assms by (auto simp: snap_item_step_def Let_def apply_sides_def some_side_def pos_eq_iff)

text \<open>
  In the mode \<open>inner\<close> the flag \<open>snapping\<close> of an item can be wrong: an item that has none of its
  inner sides close to the helper but is in reach counts as snapped when the item visited just
  before it was, because \<open>first\<close> still holds the sides of that one.
\<close>

theorem inner_snap_stale:
  assumes "snapMode opt = ''inner''" and "some_side (flags s)"
    and "near (snapTolerance opt) (s_left i) (s_left i + s_width i) (s_top i) (s_top i + s_height i) (left p1) (top p1)"
    and "\<not> some_side (inner_sides (snapTolerance opt) i p1 (p1 + ext))"
  shows "snapping (snd (snap_item_step opt rel p1 ext (n, i) s)) \<and>
    ui_position (fst (snap_item_step opt rel p1 ext (n, i) s)) = ui_position s"
  using inner_snap_parts [OF assms] by blast

theorem inner_snap_stale_witness:
  "snapping (snd (snap_item_step \<lparr>snapMode = ''inner'', snapTolerance = 2\<rparr> (\<lambda>p. p) (Pos 120 20) (Pos 10 10)
      (0, snap_target) \<lparr>ui_position = Pos 120 20, flags = no_sides\<lparr>side_t := True\<rparr>, snap_events = []\<rparr>))"
  using inner_snap_stale [of "\<lparr>snapMode = ''inner'', snapTolerance = 2\<rparr>"
      "\<lparr>ui_position = Pos 120 20, flags = no_sides\<lparr>side_t := True\<rparr>, snap_events = []\<rparr>" snap_target
      "Pos 120 20" "Pos 10 10" "\<lambda>p. p" 0]
  by (simp add: snap_target_def near_def some_side_def inner_sides_def no_sides_def geom_simps)

end
