(* ===== verification/UiResizable.thy ===== *)
theory UiResizable
  imports UiGeometry UiMouse
begin

text \<open>
  \<open>jquery.ui.resizable.js\<close>, with which the dialogs of the application are resized: the change that
  each handle makes for a movement of the mouse, aspect ratio and size limits, the methods that
  the mouse protocol calls, and the plugins \<open>containment\<close>, \<open>grid\<close>, \<open>alsoResize\<close>, \<open>ghost\<close> and
  \<open>animate\<close>. An absent limit is \<open>None\<close>, so is a value of the change that is \<open>undefined\<close> or \<open>null\<close>.
  The aspect ratio is a positive number; the infinite ratio of an element without height is not
  modelled.
\<close>

section \<open>Changes\<close>

datatype dims = Dims (wide: rat) (high: rat)

record change =
  ch_left :: "rat option"
  ch_top :: "rat option"
  ch_width :: "rat option"
  ch_height :: "rat option"

definition no_change :: change where
  "no_change = \<lparr>ch_left = None, ch_top = None, ch_width = None, ch_height = None\<rparr>"

definition falsy :: "rat option \<Rightarrow> bool" where
  "falsy v \<longleftrightarrow> v = None \<or> v = Some 0"

text \<open>The handles, as the axis names of the code; \<open>None\<close> is a name without an entry in \<open>_change\<close>.\<close>

definition change_e :: "dims \<Rightarrow> rat \<Rightarrow> change \<Rightarrow> change" where
  "change_e os dx c = c\<lparr>ch_width := Some (wide os + dx)\<rparr>"

definition change_w :: "dims \<Rightarrow> pos \<Rightarrow> rat \<Rightarrow> change \<Rightarrow> change" where
  "change_w os op dx c = c\<lparr>ch_left := Some (left op + dx), ch_width := Some (wide os - dx)\<rparr>"

definition change_n :: "dims \<Rightarrow> pos \<Rightarrow> rat \<Rightarrow> change \<Rightarrow> change" where
  "change_n os op dy c = c\<lparr>ch_top := Some (top op + dy), ch_height := Some (high os - dy)\<rparr>"

definition change_s :: "dims \<Rightarrow> rat \<Rightarrow> change \<Rightarrow> change" where
  "change_s os dy c = c\<lparr>ch_height := Some (high os + dy)\<rparr>"

definition change_of :: "string \<Rightarrow> dims \<Rightarrow> pos \<Rightarrow> rat \<Rightarrow> rat \<Rightarrow> change option" where
  "change_of a os op dx dy =
     (if a = ''e'' then Some (change_e os dx no_change)
      else if a = ''w'' then Some (change_w os op dx no_change)
      else if a = ''n'' then Some (change_n os op dy no_change)
      else if a = ''s'' then Some (change_s os dy no_change)
      else if a = ''se'' then Some (change_e os dx (change_s os dy no_change))
      else if a = ''sw'' then Some (change_w os op dx (change_s os dy no_change))
      else if a = ''ne'' then Some (change_e os dx (change_n os op dy no_change))
      else if a = ''nw'' then Some (change_w os op dx (change_n os op dy no_change))
      else None)"

definition west :: "string \<Rightarrow> bool" where
  "west a \<longleftrightarrow> has_substring ''sw'' a \<or> has_substring ''nw'' a \<or> has_substring ''w'' a"

definition north :: "string \<Rightarrow> bool" where
  "north a \<longleftrightarrow> has_substring ''nw'' a \<or> has_substring ''ne'' a \<or> has_substring ''n'' a"

section \<open>Limits and ratio\<close>

record limits =
  minWidth :: rat
  maxWidth :: "rat option"
  minHeight :: rat
  maxHeight :: "rat option"

record limit_options =
  o_minWidth :: "rat option"
  o_maxWidth :: "rat option"
  o_minHeight :: "rat option"
  o_maxHeight :: "rat option"

definition less_opt :: "rat option \<Rightarrow> rat option \<Rightarrow> bool" where
  "less_opt a b = (case a of None \<Rightarrow> False | Some x \<Rightarrow> (case b of None \<Rightarrow> True | Some y \<Rightarrow> x < y))"

definition updateVirtualBoundaries :: "limit_options \<Rightarrow> bool \<Rightarrow> rat \<Rightarrow> limits" where
  "updateVirtualBoundaries lo keep ratio =
     (let b = \<lparr>minWidth = (case o_minWidth lo of None \<Rightarrow> 0 | Some x \<Rightarrow> x), maxWidth = o_maxWidth lo,
               minHeight = (case o_minHeight lo of None \<Rightarrow> 0 | Some x \<Rightarrow> x), maxHeight = o_maxHeight lo\<rparr>
      in if keep then
           (let pMinWidth = minHeight b * ratio; pMinHeight = minWidth b / ratio;
                pMaxWidth = map_option (\<lambda>h. h * ratio) (maxHeight b);
                pMaxHeight = map_option (\<lambda>w. w / ratio) (maxWidth b)
            in \<lparr>minWidth = (if pMinWidth > minWidth b then pMinWidth else minWidth b),
                maxWidth = (if less_opt pMaxWidth (maxWidth b) then pMaxWidth else maxWidth b),
                minHeight = (if pMinHeight > minHeight b then pMinHeight else minHeight b),
                maxHeight = (if less_opt pMaxHeight (maxHeight b) then pMaxHeight else maxHeight b)\<rparr>)
         else b)"

definition updateRatio :: "string \<Rightarrow> pos \<Rightarrow> dims \<Rightarrow> rat \<Rightarrow> change \<Rightarrow> change" where
  "updateRatio a cpos csize ratio c =
     (let d = (case ch_height c of
                 Some h \<Rightarrow> c\<lparr>ch_width := Some (h * ratio)\<rparr>
               | None \<Rightarrow> (case ch_width c of Some w \<Rightarrow> c\<lparr>ch_height := Some (w / ratio)\<rparr> | None \<Rightarrow> c));
          newLeft = map_option (\<lambda>w. left cpos + (wide csize - w)) (ch_width d);
          newTop = map_option (\<lambda>h. top cpos + (high csize - h)) (ch_height d);
          d1 = (if a = ''sw'' then d\<lparr>ch_left := newLeft, ch_top := None\<rparr> else d)
      in if a = ''nw'' then d1\<lparr>ch_top := newTop, ch_left := newLeft\<rparr> else d1)"

definition exceeds :: "rat option \<Rightarrow> rat option \<Rightarrow> bool" where
  "exceeds v m \<longleftrightarrow> (case (v, m) of (Some x, Some y) \<Rightarrow> y \<noteq> 0 \<and> y < x | _ \<Rightarrow> False)"

definition below :: "rat option \<Rightarrow> rat \<Rightarrow> bool" where
  "below v m \<longleftrightarrow> (case v of Some x \<Rightarrow> m \<noteq> 0 \<and> m > x | None \<Rightarrow> False)"

text \<open>The minimum is assigned first and the maximum last; the two last lines are the fix of a jump.\<close>

definition respectSize :: "limits \<Rightarrow> string \<Rightarrow> rat \<Rightarrow> rat \<Rightarrow> change \<Rightarrow> change" where
  "respectSize b a dw dh c =
     (let isminw = below (ch_width c) (minWidth b); ismaxw = exceeds (ch_width c) (maxWidth b);
          isminh = below (ch_height c) (minHeight b); ismaxh = exceeds (ch_height c) (maxHeight b);
          w = (if ismaxw then maxWidth b else if isminw then Some (minWidth b) else ch_width c);
          h = (if ismaxh then maxHeight b else if isminh then Some (minHeight b) else ch_height c);
          l = (if ismaxw \<and> west a then map_option (\<lambda>m. dw - m) (maxWidth b)
               else if isminw \<and> west a then Some (dw - minWidth b) else ch_left c);
          t = (if ismaxh \<and> north a then map_option (\<lambda>m. dh - m) (maxHeight b)
               else if isminh \<and> north a then Some (dh - minHeight b) else ch_top c)
      in if falsy w \<and> falsy h \<and> falsy l \<and> \<not> falsy t then \<lparr>ch_left = l, ch_top = None, ch_width = w, ch_height = h\<rparr>
         else if falsy w \<and> falsy h \<and> falsy t \<and> \<not> falsy l then \<lparr>ch_left = None, ch_top = t, ch_width = w, ch_height = h\<rparr>
         else \<lparr>ch_left = l, ch_top = t, ch_width = w, ch_height = h\<rparr>)"

section \<open>The state of a resize\<close>

record resize =
  rz_axis :: string
  resizing :: bool
  rz_position :: pos
  rz_size :: dims
  originalPos :: pos
  originalSize :: dims
  originalMouse :: pos
  sizeDiff :: dims
  aspectRatio :: rat
  rz_offset :: pos
  vBoundaries :: limits
  bodyCursor :: string

definition updateCache :: "pos \<Rightarrow> change \<Rightarrow> resize \<Rightarrow> resize" where
  "updateCache helperOffset c s =
     s\<lparr>rz_offset := helperOffset,
       rz_position := Pos (case ch_left c of Some x \<Rightarrow> x | None \<Rightarrow> left (rz_position s))
                          (case ch_top c of Some y \<Rightarrow> y | None \<Rightarrow> top (rz_position s)),
       rz_size := Dims (case ch_width c of Some w \<Rightarrow> w | None \<Rightarrow> wide (rz_size s))
                       (case ch_height c of Some h \<Rightarrow> h | None \<Rightarrow> high (rz_size s))\<rparr>"

text \<open>
  What the methods read of the page. \<open>plugins\<close> stands for the plugins that are switched on, in the
  order in which the file adds them.
\<close>

record resize_env =
  r_limits :: limit_options
  keepRatio :: bool
  ratio_option :: "rat option"
  r_disabled :: bool
  on_a_handle :: "nat \<Rightarrow> bool"
  with_helper :: bool
  css_position :: pos
  container_scroll :: pos
  inner_dims :: dims
  outer_dims :: dims
  helper_offset :: pos
  cursor_css :: string
  shiftKey :: "mouse_event \<Rightarrow> bool"
  resize_plugins :: "mouse_event \<Rightarrow> resize \<Rightarrow> resize"

definition resize_capture :: "resize_env \<Rightarrow> mouse_event \<Rightarrow> resize \<Rightarrow> resize \<times> bool" where
  "resize_capture env ev s =
     (s, \<not> r_disabled env \<and> (case ev_target ev of None \<Rightarrow> False | Some t \<Rightarrow> on_a_handle env t))"

definition resize_start :: "resize_env \<Rightarrow> mouse_event \<Rightarrow> resize \<Rightarrow> resize \<times> bool" where
  "resize_start env ev s =
     (let p = css_position env + container_scroll env;
          d = (if with_helper env then outer_dims env else inner_dims env);
          q = wide d / high d
      in (s\<lparr>resizing := True, rz_offset := helper_offset env, rz_position := p, rz_size := d,
            originalSize := d, originalPos := p,
            sizeDiff := Dims (wide (outer_dims env) - wide (inner_dims env))
                             (high (outer_dims env) - high (inner_dims env)),
            originalMouse := Pos (pageX ev) (pageY ev),
            aspectRatio := (case ratio_option env of Some r \<Rightarrow> r | None \<Rightarrow> if high d = 0 \<or> q = 0 then 1 else q),
            bodyCursor := (if cursor_css env = ''auto'' then rz_axis s @ ''-resize'' else cursor_css env)\<rparr>, True))"

text \<open>The change that a movement makes, with the limits that were computed for it.\<close>

definition resize_change :: "resize_env \<Rightarrow> mouse_event \<Rightarrow> resize \<Rightarrow> (limits \<times> change) option" where
  "resize_change env ev s =
     (let dx = pageX ev - left (originalMouse s); dy = pageY ev - top (originalMouse s);
          keep = (keepRatio env \<or> shiftKey env ev)
      in case change_of (rz_axis s) (originalSize s) (originalPos s) dx dy of
           None \<Rightarrow> None
         | Some c \<Rightarrow>
             (let b = updateVirtualBoundaries (r_limits env) keep (aspectRatio s);
                  c1 = (if keep then updateRatio (rz_axis s) (rz_position s) (rz_size s) (aspectRatio s) c else c)
              in Some (b, respectSize b (rz_axis s) (left (originalPos s) + wide (originalSize s))
                            (top (rz_position s) + high (rz_size s)) c1)))"

definition resize_drag :: "resize_env \<Rightarrow> mouse_event \<Rightarrow> resize \<Rightarrow> resize \<times> bool" where
  "resize_drag env ev s =
     (case resize_change env ev s of
        None \<Rightarrow> (s, False)
      | Some (b, c) \<Rightarrow> (resize_plugins env ev (updateCache (helper_offset env) c (s\<lparr>vBoundaries := b\<rparr>)), False))"

text \<open>The style properties that a step writes, and whether the event \<open>resize\<close> is triggered.\<close>

definition style_changes :: "resize \<Rightarrow> resize \<Rightarrow> change" where
  "style_changes s s' =
     \<lparr>ch_left = (if left (rz_position s') \<noteq> left (rz_position s) then Some (left (rz_position s')) else None),
      ch_top = (if top (rz_position s') \<noteq> top (rz_position s) then Some (top (rz_position s')) else None),
      ch_width = (if wide (rz_size s') \<noteq> wide (rz_size s) then Some (wide (rz_size s')) else None),
      ch_height = (if high (rz_size s') \<noteq> high (rz_size s) then Some (high (rz_size s')) else None)\<rparr>"

definition triggers_resize :: "resize \<Rightarrow> resize \<Rightarrow> bool" where
  "triggers_resize s s' \<longleftrightarrow> style_changes s s' \<noteq> no_change"

definition resize_stop :: "resize_env \<Rightarrow> mouse_event \<Rightarrow> resize \<Rightarrow> resize" where
  "resize_stop env ev s = s\<lparr>resizing := False, bodyCursor := ''auto''\<rparr>"

definition resizable_methods :: "resize_env \<Rightarrow> resize mouse_methods" where
  "resizable_methods env = \<lparr>m_capture = resize_capture env, m_start = resize_start env,
     m_drag = resize_drag env, m_stop = resize_stop env, m_up = (\<lambda>ev s. s)\<rparr>"

definition resize_setup :: "(nat \<Rightarrow> resize_env) \<Rightarrow> (nat \<Rightarrow> mouse_options) \<Rightarrow> nat list \<Rightarrow> bool \<Rightarrow> resize mouse_setup" where
  "resize_setup envs opts ws ie =
     \<lparr>meths = (\<lambda>w. resizable_methods (envs w)), optns = opts, ids = ws, old_ie = ie\<rparr>"

text \<open>With a helper the element gets its new place and size at the end, unless that is animated.\<close>

definition null_if_zero :: "rat option \<Rightarrow> rat option" where
  "null_if_zero v = (if falsy v then None else v)"

definition final_style :: "bool \<Rightarrow> bool \<Rightarrow> dims \<Rightarrow> rat option \<Rightarrow> rat option \<Rightarrow> resize \<Rightarrow> change" where
  "final_style is_textarea has_scroll helperDims cssLeft cssTop s =
     \<lparr>ch_left = null_if_zero (map_option (\<lambda>x. x + (left (rz_position s) - left (originalPos s))) cssLeft),
      ch_top = null_if_zero (map_option (\<lambda>y. y + (top (rz_position s) - top (originalPos s))) cssTop),
      ch_width = Some (wide helperDims - (if is_textarea then 0 else wide (sizeDiff s))),
      ch_height = Some (high helperDims - (if is_textarea \<and> has_scroll then 0 else high (sizeDiff s)))\<rparr>"

section \<open>Limits and ratio of a change\<close>

lemma change_of_axis:
  assumes "change_of a os op dx dy = Some c"
  shows "a \<in> {''e'', ''w'', ''n'', ''s'', ''se'', ''sw'', ''ne'', ''nw''}"
  using assms unfolding change_of_def by (metis insert_iff option.distinct(1))

lemmas change_defs = change_of_def change_e_def change_w_def change_n_def change_s_def no_change_def

lemma change_of_size:
  assumes "change_of a os op dx dy = Some c"
  shows "ch_width c \<noteq> None \<or> ch_height c \<noteq> None"
  using assms by (auto simp: change_defs split: if_split_asm)

text \<open>One dimension of \<open>_respectSize\<close>.\<close>

definition limited :: "rat option \<Rightarrow> rat \<Rightarrow> rat option \<Rightarrow> rat option" where
  "limited v lo hi = (if exceeds v hi then hi else if below v lo then Some lo else v)"

lemma respectSize_size:
  "ch_width (respectSize b a dw dh c) = limited (ch_width c) (minWidth b) (maxWidth b)"
  "ch_height (respectSize b a dw dh c) = limited (ch_height c) (minHeight b) (maxHeight b)"
  by (simp_all only: respectSize_def limited_def Let_def if_distrib [of ch_width] if_distrib [of ch_height]
      change.select_convs if_cancel)

lemma limited_None [simp]: "limited None lo hi = None"
  by (simp add: limited_def exceeds_def below_def)

lemma exceeds_Some: "exceeds v hi \<Longrightarrow> \<exists>x m. v = Some x \<and> hi = Some m \<and> m \<noteq> 0"
  by (cases v; cases hi) (simp_all add: exceeds_def)

lemma limited_nonzero: "0 < lo \<Longrightarrow> v \<noteq> None \<Longrightarrow> \<not> falsy (limited v lo hi)"
  using exceeds_Some [of v hi] by (cases v) (auto simp: limited_def falsy_def below_def)

text \<open>The edge that is moved along keeps the opposite one at \<open>r\<close>.\<close>

lemma limited_edge:
  "(if exceeds (Some x) hi then map_option (\<lambda>m. r - m) hi
    else if below (Some x) lo then Some (r - lo) else Some (r - x)) = map_option (\<lambda>w. r - w) (limited (Some x) lo hi)"
  by (simp add: limited_def)

lemma limited_Some: "\<exists>w. limited (Some x) lo hi = Some w"
  using exceeds_Some [of "Some x" hi] by (auto simp: limited_def)

text \<open>Limits that enclose a box of the ratio.\<close>

definition proportional :: "rat \<Rightarrow> limits \<Rightarrow> bool" where
  "proportional r b \<longleftrightarrow> minWidth b = minHeight b * r \<and> maxWidth b = map_option (\<lambda>h. h * r) (maxHeight b)"

lemma virtual_boundaries_proportional:
  assumes "0 < r"
  shows "proportional r (updateVirtualBoundaries lo True r)"
proof -
  have m: "(if b * r > a then b * r else a) = (if a / r > b then a / r else b) * r" for a b :: rat
    using assms by (simp add: field_simps)
  have x: "(if less_opt (map_option (\<lambda>h. h * r) y) x then map_option (\<lambda>h. h * r) y else x) =
      map_option (\<lambda>h. h * r) (if less_opt (map_option (\<lambda>w. w / r) x) y then map_option (\<lambda>w. w / r) x else y)"
    for x y :: "rat option"
    using assms by (cases x; cases y) (auto simp: less_opt_def field_simps)
  show ?thesis
    unfolding proportional_def updateVirtualBoundaries_def Let_def
    by (simp only: limits.select_convs if_True m x simp_thms)
qed

lemma respectSize_ratio:
  assumes "0 < r" and "proportional r b" and "ch_width c = Some (h * r)" and "ch_height c = Some h"
  shows "\<exists>h'. ch_height (respectSize b a dw dh c) = Some h' \<and> ch_width (respectSize b a dw dh c) = Some (h' * r)"
proof -
  have below_iff: "below (ch_width c) (minWidth b) = below (ch_height c) (minHeight b)"
    using assms by (simp add: below_def proportional_def)
  have exceeds_iff: "exceeds (ch_width c) (maxWidth b) = exceeds (ch_height c) (maxHeight b)"
    using assms by (cases "maxHeight b") (simp_all add: exceeds_def proportional_def)
  show ?thesis
  proof (cases "exceeds (ch_height c) (maxHeight b)")
    case True
    then obtain m where "maxHeight b = Some m"
      by (cases "maxHeight b") (auto simp: exceeds_def split: option.splits)
    then show ?thesis
      using True exceeds_iff assms(2) by (simp add: respectSize_size limited_def proportional_def)
  next
    case False
    then show ?thesis
      using exceeds_iff below_iff assms by (simp add: respectSize_size limited_def proportional_def)
  qed
qed

lemma updateRatio_ratio:
  assumes "0 < r" and "ch_width c \<noteq> None \<or> ch_height c \<noteq> None"
  shows "\<exists>h. ch_height (updateRatio a p s r c) = Some h \<and> ch_width (updateRatio a p s r c) = Some (h * r)"
  using assms by (cases "ch_height c"; cases "ch_width c") (auto simp: updateRatio_def Let_def)

text \<open>
  C17: A resize that keeps the aspect ratio keeps it exactly, for every handle and all limits: the
  enclosing limits are computed so that shrinking or growing to a limit changes width and height
  together.
\<close>

theorem ratio_kept:
  assumes "resize_change env ev s = Some (b, c)" and "keepRatio env \<or> shiftKey env ev" and "0 < aspectRatio s"
  shows "\<exists>w h. ch_width c = Some w \<and> ch_height c = Some h \<and> w = h * aspectRatio s"
proof -
  let ?r = "aspectRatio s"
  obtain c0 where c0: "change_of (rz_axis s) (originalSize s) (originalPos s)
      (pageX ev - left (originalMouse s)) (pageY ev - top (originalMouse s)) = Some c0"
    "b = updateVirtualBoundaries (r_limits env) True ?r"
    "c = respectSize b (rz_axis s) (left (originalPos s) + wide (originalSize s))
       (top (rz_position s) + high (rz_size s)) (updateRatio (rz_axis s) (rz_position s) (rz_size s) ?r c0)"
    using assms(1,2) by (auto simp: resize_change_def Let_def split: option.splits)
  obtain h where "ch_height (updateRatio (rz_axis s) (rz_position s) (rz_size s) ?r c0) = Some h"
    "ch_width (updateRatio (rz_axis s) (rz_position s) (rz_size s) ?r c0) = Some (h * ?r)"
    using updateRatio_ratio [OF assms(3) change_of_size [OF c0(1)]] by blast
  then show ?thesis
    using respectSize_ratio [OF assms(3) virtual_boundaries_proportional [OF assms(3)], of _ h] c0(2,3) by blast
qed

text \<open>
  What a resize assigns stays within the limits: a new width is not below the minimum and not
  above the maximum, provided the limits leave room and are not 0, which the code takes for no
  limit: without a minimum the width can become negative.
\<close>

theorem limits_respected:
  assumes "resize_change env ev s = Some (b, c)" and "ch_width c = Some w"
    and "maxWidth b = Some m" and "0 < minWidth b" and "minWidth b \<le> m"
  shows "minWidth b \<le> w \<and> w \<le> m"
proof -
  obtain c1 dh where c: "c = respectSize b (rz_axis s) (left (originalPos s) + wide (originalSize s)) dh c1"
    using assms(1) by (auto simp: resize_change_def Let_def split: option.splits if_split_asm)
  show ?thesis
    using assms(2-5) unfolding c respectSize_size limited_def
    by (cases "ch_width c1") (auto simp: exceeds_def below_def split: if_split_asm)
qed

section \<open>The opposite edges\<close>

text \<open>
  During a resize without ratio, the edges that the handle does not touch stay where they were:
  the right edge for the western handles and the left one for the others, the bottom edge for
  the northern handles and the top one for the others.
\<close>

definition edges_fixed :: "resize \<Rightarrow> bool" where
  "edges_fixed s \<longleftrightarrow>
     (if west (rz_axis s) then left (rz_position s) + wide (rz_size s) = left (originalPos s) + wide (originalSize s)
      else left (rz_position s) = left (originalPos s)) \<and>
     (if north (rz_axis s) then top (rz_position s) + high (rz_size s) = top (originalPos s) + high (originalSize s)
      else top (rz_position s) = top (originalPos s))"

definition plain_resize :: "resize_env \<Rightarrow> bool" where
  "plain_resize env \<longleftrightarrow> \<not> keepRatio env \<and> (\<forall>ev. \<not> shiftKey env ev) \<and>
     (\<forall>ev s. resize_plugins env ev s = s) \<and>
     (\<exists>w h. o_minWidth (r_limits env) = Some w \<and> o_minHeight (r_limits env) = Some h \<and> 0 < w \<and> 0 < h)"

lemma west_axes:
  "west ''e'' = False" "west ''w'' = True" "west ''n'' = False" "west ''s'' = False"
  "west ''se'' = False" "west ''sw'' = True" "west ''ne'' = False" "west ''nw'' = True"
  by (simp_all add: west_def)

lemma north_axes:
  "north ''e'' = False" "north ''w'' = False" "north ''n'' = True" "north ''s'' = False"
  "north ''se'' = False" "north ''sw'' = False" "north ''ne'' = True" "north ''nw'' = True"
  by (simp_all add: north_def)

text \<open>What a change says about the edges: \<open>right\<close> and \<open>bottom\<close> are the fixed ones.\<close>

definition edge_change :: "string \<Rightarrow> rat \<Rightarrow> rat \<Rightarrow> change \<Rightarrow> bool" where
  "edge_change a right bottom c \<longleftrightarrow>
     (if west a then \<exists>w. ch_width c = Some w \<and> ch_left c = Some (right - w) else ch_left c = None) \<and>
     (if north a then \<exists>h. ch_height c = Some h \<and> ch_top c = Some (bottom - h) else ch_top c = None)"

lemma change_of_edges:
  assumes "change_of a os op dx dy = Some c"
  shows "edge_change a (left op + wide os) (top op + high os) c"
proof -
  have "a \<in> {''e'', ''w'', ''n'', ''s'', ''se'', ''sw'', ''ne'', ''nw''}"
    using assms by (rule change_of_axis)
  then show ?thesis
    using assms by (elim insertE emptyE) (simp_all add: edge_change_def west_axes north_axes, auto simp: change_defs)
qed

text \<open>With positive minima no size becomes 0, so the fix of a jump does not apply.\<close>

lemma no_jump:
  "\<not> (w \<and> h) \<Longrightarrow> (if w \<and> h \<and> x then a else if w \<and> h \<and> y then b else c) = c"
  by auto

lemma respectSize_edge_values:
  assumes "0 < minWidth b" and "0 < minHeight b" and "ch_width c \<noteq> None \<or> ch_height c \<noteq> None"
  shows "ch_left (respectSize b a dw dh c) =
     (if exceeds (ch_width c) (maxWidth b) \<and> west a then map_option (\<lambda>m. dw - m) (maxWidth b)
      else if below (ch_width c) (minWidth b) \<and> west a then Some (dw - minWidth b) else ch_left c)"
    and "ch_top (respectSize b a dw dh c) =
     (if exceeds (ch_height c) (maxHeight b) \<and> north a then map_option (\<lambda>m. dh - m) (maxHeight b)
      else if below (ch_height c) (minHeight b) \<and> north a then Some (dh - minHeight b) else ch_top c)"
proof -
  have nz: "\<not> (falsy (limited (ch_width c) (minWidth b) (maxWidth b)) \<and>
      falsy (limited (ch_height c) (minHeight b) (maxHeight b)))"
    using assms limited_nonzero by blast
  note jump = no_jump [OF nz [unfolded limited_def]]
  show "ch_left (respectSize b a dw dh c) =
     (if exceeds (ch_width c) (maxWidth b) \<and> west a then map_option (\<lambda>m. dw - m) (maxWidth b)
      else if below (ch_width c) (minWidth b) \<and> west a then Some (dw - minWidth b) else ch_left c)"
    by (simp only: respectSize_def Let_def jump change.select_convs)
  show "ch_top (respectSize b a dw dh c) =
     (if exceeds (ch_height c) (maxHeight b) \<and> north a then map_option (\<lambda>m. dh - m) (maxHeight b)
      else if below (ch_height c) (minHeight b) \<and> north a then Some (dh - minHeight b) else ch_top c)"
    by (simp only: respectSize_def Let_def jump change.select_convs)
qed

lemma respectSize_edges:
  assumes "0 < minWidth b" and "0 < minHeight b" and "ch_width c \<noteq> None \<or> ch_height c \<noteq> None"
    and "edge_change a right bottom c"
  shows "edge_change a right bottom (respectSize b a right bottom c)"
proof -
  note vals = respectSize_edge_values [OF assms(1-3), of a right bottom] respectSize_size
  have w: "if west a then \<exists>w. limited (ch_width c) (minWidth b) (maxWidth b) = Some w \<and>
        ch_left (respectSize b a right bottom c) = Some (right - w)
      else ch_left (respectSize b a right bottom c) = None"
  proof (cases "west a")
    case True
    then obtain x where "ch_width c = Some x" "ch_left c = Some (right - x)"
      using assms(4) by (auto simp: edge_change_def)
    then show ?thesis
      using True limited_Some [of x "minWidth b" "maxWidth b"] limited_edge [of x "maxWidth b" right "minWidth b"]
      by (auto simp: vals)
  qed (use assms(4) in \<open>simp add: edge_change_def vals\<close>)
  have h: "if north a then \<exists>h. limited (ch_height c) (minHeight b) (maxHeight b) = Some h \<and>
        ch_top (respectSize b a right bottom c) = Some (bottom - h)
      else ch_top (respectSize b a right bottom c) = None"
  proof (cases "north a")
    case True
    then obtain x where "ch_height c = Some x" "ch_top c = Some (bottom - x)"
      using assms(4) by (auto simp: edge_change_def)
    then show ?thesis
      using True limited_Some [of x "minHeight b" "maxHeight b"] limited_edge [of x "maxHeight b" bottom "minHeight b"]
      by (auto simp: vals)
  qed (use assms(4) in \<open>simp add: edge_change_def vals\<close>)
  show ?thesis using w h by (simp add: edge_change_def respectSize_size)
qed

lemma change_edges:
  assumes "edge_change a right bottom c" and "edges_fixed s" and "rz_axis s = a"
    and "right = left (originalPos s) + wide (originalSize s)" and "bottom = top (originalPos s) + high (originalSize s)"
  shows "edges_fixed (updateCache off c (s\<lparr>vBoundaries := b\<rparr>))"
  using assms by (auto simp: edge_change_def edges_fixed_def updateCache_def split: option.splits if_splits)

lemma resize_drag_edges:
  assumes "plain_resize env" and "edges_fixed s"
  shows "edges_fixed (fst (resize_drag env ev s))"
proof (cases "change_of (rz_axis s) (originalSize s) (originalPos s)
    (pageX ev - left (originalMouse s)) (pageY ev - top (originalMouse s))")
  case None
  then show ?thesis using assms(2) by (simp add: resize_drag_def resize_change_def Let_def)
next
  case (Some c)
  let ?right = "left (originalPos s) + wide (originalSize s)"
  let ?bottom = "top (originalPos s) + high (originalSize s)"
  let ?b = "updateVirtualBoundaries (r_limits env) False (aspectRatio s)"
  let ?dh = "top (rz_position s) + high (rz_size s)"
  let ?c = "\<lambda>dh. respectSize ?b (rz_axis s) ?right dh c"
  have pos: "0 < minWidth ?b" "0 < minHeight ?b"
    using assms(1) by (auto simp: plain_resize_def updateVirtualBoundaries_def)
  have edges: "edge_change (rz_axis s) ?right ?bottom (?c ?bottom)"
    using pos Some by (intro respectSize_edges change_of_size [OF Some] change_of_edges [OF Some])
  have "edge_change (rz_axis s) ?right ?bottom (?c ?dh)"
  proof (cases "north (rz_axis s)")
    case True
    then have "?dh = ?bottom" using assms(2) by (simp add: edges_fixed_def)
    then show ?thesis using edges by simp
  next
    case False
    have "ch_left (?c ?dh) = ch_left (?c ?bottom)"
      by (simp only: respectSize_edge_values(1) [OF pos change_of_size [OF Some]])
    moreover have "ch_top (?c ?dh) = ch_top (?c ?bottom)"
      by (simp only: respectSize_edge_values(2) [OF pos change_of_size [OF Some]] False simp_thms if_False)
    ultimately show ?thesis using edges by (simp only: edge_change_def respectSize_size)
  qed
  then have "edges_fixed (updateCache (helper_offset env) (?c ?dh) (s\<lparr>vBoundaries := ?b\<rparr>))"
    using assms(2) by (rule change_edges) simp_all
  then show ?thesis
    using assms(1) Some by (simp add: resize_drag_def resize_change_def Let_def plain_resize_def)
qed

lemma resize_start_edges: "edges_fixed (fst (resize_start env ev s))"
  by (simp add: resize_start_def Let_def edges_fixed_def)

lemmas resize_defs = resize_setup_def resizable_methods_def resize_capture_def resize_stop_def

interpretation resizing: interaction "resize_setup envs opts ws ie"
    "\<lambda>w b s. b \<and> plain_resize (envs w) \<longrightarrow> edges_fixed s"
  by unfold_locales (simp_all add: resize_defs resize_start_edges resize_drag_edges)

text \<open>
  C38: While a box is being resized, whatever the mouse does and however often it was resized
  before, the edges that the handle does not move stay where they were at the start: also when a
  limit is hit, where the code corrects the position for the handles on the left and on the top.
  The ratio is not kept, neither by option nor by the shift key, plugins change nothing, and the minimal
  width and height are positive.
\<close>

theorem opposite_edges_fixed:
  assumes "p = run_page (resize_setup envs opts ws ie) (fresh_mouse s) es"
    and "mouseStarted (widget p w)" and "plain_resize (envs w)"
  shows "edges_fixed (inner (widget p w))"
  using resizing.reached_inv [where envs = envs and s = s and w = w and opts = opts and ws = ws and ie = ie and es = es]
    assms by simp

definition box_env :: resize_env where
  "box_env = \<lparr>r_limits = \<lparr>o_minWidth = Some 10, o_maxWidth = Some 400, o_minHeight = Some 10, o_maxHeight = None\<rparr>,
     keepRatio = False, ratio_option = None, r_disabled = False, on_a_handle = (\<lambda>t. True), with_helper = False,
     css_position = Pos 50 40, container_scroll = 0, inner_dims = Dims 300 200, outer_dims = Dims 302 202,
     helper_offset = Pos 50 40, cursor_css = ''auto'', shiftKey = (\<lambda>ev. False),
     resize_plugins = (\<lambda>ev s. s)\<rparr>"

definition ratio_env :: resize_env where
  "ratio_env = box_env\<lparr>keepRatio := True\<rparr>"

definition box :: "string \<Rightarrow> resize" where
  "box a = \<lparr>rz_axis = a, resizing = True, rz_position = Pos 50 40, rz_size = Dims 300 200,
     originalPos = Pos 50 40, originalSize = Dims 300 200, originalMouse = Pos 0 0, sizeDiff = Dims 2 2,
     aspectRatio = 3 / 2, rz_offset = Pos 50 40,
     vBoundaries = \<lparr>minWidth = 10, maxWidth = None, minHeight = 10, maxHeight = None\<rparr>, bodyCursor = ''auto''\<rparr>"

theorem ratio_kept_witness:
  "\<exists>b c. resize_change ratio_env (at_point 5) (box ''e'') = Some (b, c) \<and>
     (\<exists>w h. ch_width c = Some w \<and> ch_height c = Some h \<and> w = h * (3 / 2))"
proof -
  obtain b c where "resize_change ratio_env (at_point 5) (box ''e'') = Some (b, c)"
    by (simp add: resize_change_def Let_def box_def change_of_def)
  then show ?thesis
    using ratio_kept [of ratio_env "at_point 5" "box ''e''" b c] by (simp add: ratio_env_def box_def)
qed

theorem limits_respected_witness:
  "\<exists>b c w. resize_change box_env (at_point 500) (box ''e'') = Some (b, c) \<and> ch_width c = Some w \<and> w \<le> 400"
proof -
  let ?r = "resize_change box_env (at_point 500) (box ''e'')"
  obtain b c w where r: "?r = Some (b, c)" "ch_width c = Some w" "minWidth b = 10" "maxWidth b = Some 400"
    by (simp add: resize_change_def Let_def box_def change_of_def box_env_def updateVirtualBoundaries_def
        change_e_def no_change_def respectSize_size limited_def exceeds_def at_point_def)
  then show ?thesis using limits_respected [OF r(1,2,4)] by auto
qed

theorem opposite_edges_fixed_witness:
  "edges_fixed (inner (widget (run_page (resize_setup (\<lambda>w. box_env) (\<lambda>w. prompt_options) [0] False)
     (fresh_mouse (\<lambda>w. box ''nw'')) [Down (at_point 0) [0], Move (at_point 350)]) 0))"
proof (rule opposite_edges_fixed [OF refl])
  show "mouseStarted (widget (run_page (resize_setup (\<lambda>w. box_env) (\<lambda>w. prompt_options) [0] False)
     (fresh_mouse (\<lambda>w. box ''nw'')) [Down (at_point 0) [0], Move (at_point 350)]) 0)"
    by (simp add: run_page_def resize_defs mouseDown_def at_point_def prompt_options_def press_def
        ready_to_start_def mouseDistanceMet_def fresh_mouse_def mouseInit_def Let_def box_env_def
        resize_start_def listening_def mouseMove_def run_drag_def resize_drag_def split: option.split)
  show "plain_resize box_env" by (simp add: plain_resize_def box_env_def)
qed

section \<open>Handles\<close>

text \<open>
  \<open>this.handles\<close> is an object, so a name that occurs twice has one entry but two elements on the
  page. An option that is falsy gives the default handles, unless the element has handles already.
\<close>

datatype handles_option = No_handles | Handle_list string | Handle_map "(string \<times> string) list"

definition all_axes :: "string list" where
  "all_axes = [''n'', ''e'', ''s'', ''w'', ''se'', ''sw'', ''ne'', ''nw'']"

definition handle_names :: "string \<Rightarrow> string list" where
  "handle_names s = map trim (split_on (CHR '','') [] (if s = ''all'' then ''n,e,s,w,se,sw,ne,nw'' else s))"

definition handle_class :: "string \<Rightarrow> string" where
  "handle_class h = ''ui-resizable-handle ui-resizable-'' @ h @
     (if h = ''se'' then '' ui-icon ui-icon-gripsmall-diagonal-se'' else [])"

text \<open>The entries of \<open>this.handles\<close> and the classes of the elements that are appended.\<close>

definition create_handles :: "handles_option \<Rightarrow> bool \<Rightarrow> (string \<times> string) list \<times> string list" where
  "create_handles opt has_handles =
     (let from_list = (\<lambda>s. (map (\<lambda>h. (h, ''.ui-resizable-'' @ h)) (rev (remdups (rev (handle_names s)))),
                            map handle_class (handle_names s)))
      in case opt of
           Handle_map m \<Rightarrow> (m, [])
         | Handle_list s \<Rightarrow> if s \<noteq> [] then from_list s
             else if has_handles then (map (\<lambda>a. (a, ''.ui-resizable-'' @ a)) all_axes, []) else from_list ''e,s,se''
         | No_handles \<Rightarrow>
             if has_handles then (map (\<lambda>a. (a, ''.ui-resizable-'' @ a)) all_axes, []) else from_list ''e,s,se'')"

text \<open>The mouse over a handle sets the axis, from the first axis name behind \<open>ui-resizable-\<close> in the class.\<close>

definition axis_at :: "string \<Rightarrow> string option" where
  "axis_at s = (case find (\<lambda>a. starts_with a (map lower_char s)) [''se'', ''sw'', ''ne'', ''nw'', ''n'', ''e'', ''s'', ''w''] of
     None \<Rightarrow> None | Some a \<Rightarrow> Some (take (length a) s))"

fun match_axis :: "string \<Rightarrow> string option" where
  "match_axis [] = None"
| "match_axis (c # cs) =
     (case (if starts_with ''ui-resizable-'' (map lower_char (c # cs)) then axis_at (drop 13 (c # cs)) else None) of
        Some a \<Rightarrow> Some a | None \<Rightarrow> match_axis cs)"

definition hover_handle :: "string \<Rightarrow> string option \<times> resize \<Rightarrow> string option \<times> resize" where
  "hover_handle className = (\<lambda>(matched, s).
     if resizing s then (matched, s)
     else (let m = (if className = [] then matched else match_axis className)
           in (m, s\<lparr>rz_axis := (case m of Some a \<Rightarrow> a | None \<Rightarrow> ''se'')\<rparr>)))"

text \<open>
  Every handle that a list of the eight names makes is reached with the mouse: hovering over it
  selects the axis of the same name, which has a change of its own, and while a resize runs the
  handles that the mouse crosses do not change the axis.
\<close>

theorem handles_select_their_axis:
  assumes "h \<in> set all_axes"
  shows "rz_axis (snd (hover_handle (handle_class h) (m, s))) = (if resizing s then rz_axis s else h) \<and>
    (\<exists>c. change_of h (rz_size s) (rz_position s) dx dy = Some c)"
proof -
  have "list_all (\<lambda>a. match_axis (handle_class a) = Some a) all_axes" by code_simp
  then have "match_axis (handle_class h) = Some h" using assms by (simp add: list_all_iff)
  moreover have "handle_class h \<noteq> []" by (simp add: handle_class_def)
  moreover have "\<exists>c. change_of h (rz_size s) (rz_position s) dx dy = Some c"
    using assms by (simp add: all_axes_def) (elim disjE; simp add: change_of_def)
  ultimately show ?thesis by (simp add: hover_handle_def Let_def)
qed

theorem handles_select_their_axis_witness:
  "rz_axis (snd (hover_handle (handle_class ''ne'') (None, box ''e''\<lparr>resizing := False\<rparr>))) = ''ne''"
  using handles_select_their_axis [of "''ne''" None "box ''e''\<lparr>resizing := False\<rparr>" 0 0] by (simp add: all_axes_def)

text \<open>The names of a list are read back whatever blanks stand around them.\<close>

lemma split_join_names:
  "hs \<noteq> [] \<Longrightarrow> \<forall>h \<in> set hs. CHR '','' \<notin> set h \<Longrightarrow> split_on (CHR '','') [] (join '','' hs) = hs"
proof (induction hs)
  case (Cons h hs)
  then show ?case by (cases hs) (simp_all add: split_on_none join_def)
qed simp

lemma handle_names_join:
  assumes "hs \<noteq> []" and "\<forall>h \<in> set hs. CHR '','' \<notin> set h" and "join '','' hs \<noteq> ''all''"
  shows "handle_names (join '','' hs) = map trim hs"
  using split_join_names [OF assms(1,2)] assms(3) by (simp add: handle_names_def)

text \<open>With \<open>autoHide\<close> the handles show while the mouse is over the element, and until a resize ends.\<close>

definition auto_enter :: "bool \<Rightarrow> bool \<Rightarrow> bool" where
  "auto_enter off shown = (if off then shown else True)"

definition auto_leave :: "bool \<Rightarrow> resize \<Rightarrow> bool \<Rightarrow> bool" where
  "auto_leave off s shown = (if off \<or> resizing s then shown else False)"

section \<open>Elements that cannot hold handles\<close>

text \<open>
  A text field or an image is put into a wrapper, which takes its place, outer size and margins. The
  style properties are those that \<open>_create\<close> and \<open>_destroy\<close> write; \<open>extra\<close> is border and padding
  together, which the box has around the width and height of its style.
\<close>

record element_style =
  st_position :: string
  st_place :: pos
  st_dims :: dims
  st_margins :: "rat list"
  extra :: dims

definition needs_wrapper :: "string \<Rightarrow> bool" where
  "needs_wrapper nodeName \<longleftrightarrow> list_ex (\<lambda>t. has_substring t (map lower_char nodeName))
     [''canvas'', ''textarea'', ''input'', ''select'', ''button'', ''img'']"

definition outer :: "element_style \<Rightarrow> dims" where
  "outer e = Dims (wide (st_dims e) + wide (extra e)) (high (st_dims e) + high (extra e))"

definition wrapper_of :: "element_style \<Rightarrow> element_style" where
  "wrapper_of e = \<lparr>st_position = st_position e, st_place = st_place e, st_dims = outer e,
     st_margins = st_margins e, extra = Dims 0 0\<rparr>"

definition wrapped :: "element_style \<Rightarrow> element_style" where
  "wrapped e = e\<lparr>st_margins := [0, 0, 0, 0], st_position := ''static''\<rparr>"

definition unwrap :: "element_style \<Rightarrow> element_style \<Rightarrow> element_style" where
  "unwrap wrapper e =
     e\<lparr>st_position := st_position wrapper, st_dims := outer wrapper, st_place := st_place wrapper\<rparr>"

text \<open>\<open>_proportionallyResize\<close>: the borders and paddings are measured once; order top, right, bottom, left.\<close>

definition border_dif :: "rat list \<Rightarrow> rat list \<Rightarrow> rat list" where
  "border_dif borders paddings = map2 (+) borders paddings"

definition proportionallyResize :: "rat list \<Rightarrow> dims \<Rightarrow> element_style \<Rightarrow> element_style" where
  "proportionallyResize d around e =
     e\<lparr>st_dims := Dims (wide around - d ! 1 - d ! 3) (high around - d ! 0 - d ! 2)\<rparr>"

text \<open>The padding that makes room for a handle, on the side that the name of the handle gives.\<close>

definition pad_side :: "string \<Rightarrow> string" where
  "pad_side a = ''padding'' @ (if has_substring ''n'' a then ''Top''
     else if has_substring ''s'' a then ''Bottom'' else if a = ''e'' then ''Right'' else ''Left'')"

definition pad_extent :: "string \<Rightarrow> dims \<Rightarrow> rat" where
  "pad_extent a handle = (if has_substring ''n'' a \<or> has_substring ''s'' a then high handle else wide handle)"

text \<open>
  Making an input resizable and destroying that again does not give the input back: its margins
  are lost with the wrapper, and its width and height become the outer ones, so it grows by its
  border and padding. Only without margins, border and padding it is as before.
\<close>

theorem unwrapping_loses_margins:
  "st_margins (unwrap (wrapper_of e) (wrapped e)) = [0, 0, 0, 0] \<and>
    outer (unwrap (wrapper_of e) (wrapped e))
      = Dims (wide (outer e) + wide (extra e)) (high (outer e) + high (extra e)) \<and>
    (unwrap (wrapper_of e) (wrapped e) = e \<longleftrightarrow> st_margins e = [0, 0, 0, 0] \<and> extra e = Dims 0 0)"
  by (cases e; cases "extra e"; cases "st_dims e") (auto simp: unwrap_def wrapper_of_def wrapped_def outer_def)

text \<open>The helper that is resized instead of the element; its z-index is one more for every resize.\<close>

definition renderProxy :: "bool \<Rightarrow> dims \<Rightarrow> pos \<Rightarrow> int \<Rightarrow> (dims \<times> pos \<times> int) option \<times> int" where
  "renderProxy helper outer_size offset z =
     (if helper then (Some (Dims (wide outer_size - 1) (high outer_size - 1), offset, z + 1), z + 1) else (None, z))"

end
