(* ===== verification/UiCore.thy ===== *)
theory UiCore
  imports Prelude
begin

text \<open>
  \<open>jquery.ui.core.js\<close>, what the widgets share: the plugins of an interaction, generated ids, the
  z-index of an element, the scrollable ancestor, and which elements can take the focus. An element
  is given by what these functions read of it; its ancestors are a list, the nearest one first. The
  corrections for older versions of jQuery are not modelled.
\<close>

section \<open>Plugins\<close>

text \<open>
  \<open>proto.plugins\<close>: for every event of the interaction the functions in the order they were added,
  each with the option that switches it on. The functions act on the state of the widget, and so may
  its options change between two of them.
\<close>

type_synonym 's plugins = "string \<Rightarrow> (string \<times> ('s \<Rightarrow> 's)) list"

definition plugin_add :: "string \<Rightarrow> (string \<times> ('s \<Rightarrow> 's)) list \<Rightarrow> 's plugins \<Rightarrow> 's plugins" where
  "plugin_add opt fs plugins = fold (\<lambda>(event, f) ps. ps(event := ps event @ [(opt, f)])) fs plugins"

definition call_plugins :: "bool \<Rightarrow> ('s \<Rightarrow> string \<Rightarrow> bool) \<Rightarrow> 's plugins \<Rightarrow> string \<Rightarrow> 's \<Rightarrow> 's" where
  "call_plugins attached switched_on plugins event s =
     (if attached then fold (\<lambda>(opt, f) s. if switched_on s opt then f s else s) (plugins event) s else s)"

lemma plugin_add_event:
  "distinct (map fst fs) \<Longrightarrow>
     plugin_add opt fs ps event = ps event @ (case map_of fs event of None \<Rightarrow> [] | Some f \<Rightarrow> [(opt, f)])"
proof (induction fs arbitrary: ps)
  case Nil
  then show ?case by (simp add: plugin_add_def)
next
  case (Cons p fs)
  obtain e f where p: "p = (e, f)" by (cases p)
  have "plugin_add opt (p # fs) ps event = plugin_add opt fs (ps(e := ps e @ [(opt, f)])) event"
    by (simp add: plugin_add_def p)
  also have "\<dots> = (ps(e := ps e @ [(opt, f)])) event @ (case map_of fs event of None \<Rightarrow> [] | Some g \<Rightarrow> [(opt, g)])"
    using Cons by simp
  also have "\<dots> = ps event @ (case map_of (p # fs) event of None \<Rightarrow> [] | Some g \<Rightarrow> [(opt, g)])"
    using Cons.prems map_of_eq_None_iff [of fs event] by (auto simp: p image_iff split: option.splits)
  finally show ?case .
qed

text \<open>
  A plugin that is added last runs after all the others, on what they left, and only when its
  option is on then; the other events are untouched by functions it does not have.
\<close>

theorem plugins_run_in_order:
  assumes "distinct (map fst fs)"
  shows "call_plugins True on (plugin_add opt fs ps) event s =
    (let t = call_plugins True on ps event s
     in case map_of fs event of None \<Rightarrow> t | Some f \<Rightarrow> if on t opt then f t else t)"
  using assms by (simp add: call_plugins_def plugin_add_event Let_def split: option.split)

theorem plugins_run_in_order_witness:
  "call_plugins True (\<lambda>s opt. True) (plugin_add ''b'' [(''drag'', \<lambda>x. 2 * x)] (plugin_add ''a'' [(''drag'', \<lambda>x. x + 1)] (\<lambda>e. [])))
     ''drag'' (3 :: int) = 8"
proof -
  have "call_plugins True (\<lambda>s opt. True) (plugin_add ''a'' [(''drag'', \<lambda>x. x + 1)] (\<lambda>e. [])) ''drag'' (3 :: int) = 4"
    by (simp add: call_plugins_def plugin_add_def)
  then show ?thesis
    using plugins_run_in_order [of "[(''drag'', \<lambda>x. 2 * x :: int)]" "\<lambda>s opt. True" "''b''"
        "plugin_add ''a'' [(''drag'', \<lambda>x. x + 1)] (\<lambda>e. [])" "''drag''" 3] by simp
qed

section \<open>Scrolling\<close>

text \<open>\<open>limit\<close> is how far the browser lets the element scroll; a scroll position of 1 is tried out.\<close>

definition hasScroll :: "string \<Rightarrow> rat \<Rightarrow> rat \<Rightarrow> bool" where
  "hasScroll overflow scroll limit \<longleftrightarrow> overflow \<noteq> ''hidden'' \<and> (scroll > 0 \<or> max 0 (min limit 1) > 0)"

lemma hasScroll_iff: "0 \<le> scroll \<Longrightarrow> scroll \<le> limit \<Longrightarrow> hasScroll ov scroll limit \<longleftrightarrow> ov \<noteq> ''hidden'' \<and> 0 < limit"
  by (auto simp: hasScroll_def)

record css_node =
  n_id :: nat
  css_pos :: string
  css_overflow :: string
  css_zIndex :: "int option"

definition scrolls :: "css_node \<Rightarrow> bool" where
  "scrolls n \<longleftrightarrow> has_substring ''auto'' (css_overflow n) \<or> has_substring ''scroll'' (css_overflow n)"

definition positioned_node :: "css_node \<Rightarrow> bool" where
  "positioned_node n \<longleftrightarrow> has_substring ''relative'' (css_pos n) \<or> has_substring ''absolute'' (css_pos n) \<or>
     has_substring ''fixed'' (css_pos n)"

text \<open>\<open>None\<close> is the document.\<close>

definition scrollParent :: "bool \<Rightarrow> css_node \<Rightarrow> css_node list \<Rightarrow> nat option" where
  "scrollParent ie e parents =
     (let sp = (if ie \<and> (has_substring ''static'' (css_pos e) \<or> has_substring ''relative'' (css_pos e)) \<or>
                   has_substring ''absolute'' (css_pos e)
                then find (\<lambda>n. positioned_node n \<and> scrolls n) parents else find scrolls parents)
      in if has_substring ''fixed'' (css_pos e) then None else map_option n_id sp)"

text \<open>The z-index of the nearest positioned element that has one other than 0.\<close>

fun zIndex :: "css_node list \<Rightarrow> int" where
  "zIndex [] = 0"
| "zIndex (n # parents) =
     (if css_pos n \<in> {''absolute'', ''relative'', ''fixed''}
      then (case css_zIndex n of Some v \<Rightarrow> if v \<noteq> 0 then v else zIndex parents | None \<Rightarrow> zIndex parents)
      else zIndex parents)"

section \<open>Generated ids\<close>

text \<open>\<open>[]\<close> is an element without an id. The counter is shared by the page.\<close>

definition ui_id :: "nat \<Rightarrow> string" where
  "ui_id n = ''ui-id-'' @ string_of_nat n"

fun uniqueId :: "string list \<Rightarrow> nat \<Rightarrow> string list \<times> nat" where
  "uniqueId [] uuid = ([], uuid)"
| "uniqueId (i # ids) uuid =
     (if i = [] then (let r = uniqueId ids (Suc uuid) in (ui_id (Suc uuid) # fst r, snd r))
      else (let r = uniqueId ids uuid in (i # fst r, snd r)))"

definition is_ui_id :: "string \<Rightarrow> bool" where
  "is_ui_id s \<longleftrightarrow> starts_with ''ui-id-'' s \<and> drop 6 s \<noteq> [] \<and> list_all is_digit (drop 6 s)"

definition removeUniqueId :: "string list \<Rightarrow> string list" where
  "removeUniqueId ids = map (\<lambda>i. if is_ui_id i then [] else i) ids"

lemma ui_id_inj: "ui_id m = ui_id n \<Longrightarrow> m = n"
  by (auto simp: ui_id_def intro: string_of_nat_inj)

lemma ui_id_is_ui_id: "is_ui_id (ui_id n)"
  by (simp add: is_ui_id_def ui_id_def string_of_nat_digits)

lemma uniqueId_new:
  "i \<in> set (fst (uniqueId ids uuid)) \<Longrightarrow> i \<in> set ids \<and> i \<noteq> [] \<or> (\<exists>n > uuid. i = ui_id n)"
proof (induction ids uuid rule: uniqueId.induct)
  case (2 i0 ids uuid)
  then show ?case by (cases "i0 = []") (auto simp: Let_def dest: Suc_lessD)
qed simp

text \<open>
  When no element has an id of the generated form of its own, \<open>uniqueId\<close> gives every element an
  id that no other one has, and \<open>removeUniqueId\<close> takes back just these. An own id of that form, as
  \<open>ui-id-7\<close>, would be taken away too.
\<close>

theorem unique_ids:
  assumes "\<forall>i \<in> set ids. \<not> is_ui_id i" and "distinct (filter (\<lambda>i. i \<noteq> []) ids)"
  shows "distinct (fst (uniqueId ids uuid)) \<and> [] \<notin> set (fst (uniqueId ids uuid)) \<and>
    removeUniqueId (fst (uniqueId ids uuid)) = ids"
  using assms
proof (induction ids uuid rule: uniqueId.induct)
  case (2 i ids uuid)
  show ?case
  proof (cases "i = []")
    case True
    then have "ui_id (Suc uuid) \<notin> set (fst (uniqueId ids (Suc uuid)))"
      using uniqueId_new [of "ui_id (Suc uuid)" ids "Suc uuid"] ui_id_is_ui_id 2(3) ui_id_inj by fastforce
    moreover have "ui_id (Suc uuid) \<noteq> []" by (simp add: ui_id_def)
    ultimately show ?thesis
      using 2 True ui_id_is_ui_id by (auto simp: Let_def removeUniqueId_def)
  next
    case False
    then have "i \<notin> set (fst (uniqueId ids uuid))"
      using uniqueId_new [of i ids uuid] ui_id_is_ui_id 2(3,4) by auto
    then show ?thesis
      using 2 False by (auto simp: Let_def removeUniqueId_def)
  qed
qed (simp add: removeUniqueId_def)

theorem unique_ids_witness:
  "removeUniqueId (fst (uniqueId [''menu'', [], []] 4)) = [''menu'', [], []]"
  using unique_ids [of "[''menu'', [], []]" 4] by (simp add: is_ui_id_def)

section \<open>Focus\<close>

text \<open>
  \<open>shown\<close> is jQuery's \<open>:visible\<close>, \<open>visibilities\<close> the computed property of the element and of its
  ancestors; \<open>tab_index\<close> is \<open>None\<close> where the attribute is no number. For an area, its parent's tag
  and name and whether the image of that name is there and visible.
\<close>

record focus_node =
  f_tag :: string
  shown :: bool
  visibilities :: "string list"
  is_off :: bool
  href :: string
  tab_index :: "int option"
  map_tag :: string
  map_name :: string
  map_image :: "(bool \<times> string list) option"

definition visible :: "bool \<times> string list \<Rightarrow> bool" where
  "visible = (\<lambda>(display, vs). display \<and> ''hidden'' \<notin> set vs)"

definition focusable :: "focus_node \<Rightarrow> bool \<Rightarrow> bool" where
  "focusable e has_tabindex =
     (let tag = map lower_char (f_tag e)
      in if tag = ''area'' then
           (if href e = [] \<or> map_name e = [] \<or> map lower_char (map_tag e) \<noteq> ''map'' then False
            else (case map_image e of None \<Rightarrow> False | Some i \<Rightarrow> visible i))
         else (if list_ex (\<lambda>t. has_substring t tag) [''input'', ''select'', ''textarea'', ''button'', ''object'']
               then \<not> is_off e
               else if tag = ''a'' then href e \<noteq> [] \<or> has_tabindex else has_tabindex) \<and>
              visible (shown e, visibilities e))"

definition is_focusable :: "focus_node \<Rightarrow> bool" where
  "is_focusable e = focusable e (tab_index e \<noteq> None)"

definition tabbable :: "focus_node \<Rightarrow> bool" where
  "tabbable e \<longleftrightarrow> (case tab_index e of None \<Rightarrow> True | Some i \<Rightarrow> i \<ge> 0) \<and> focusable e (tab_index e \<noteq> None)"

lemma tabbable_focusable: "tabbable e \<Longrightarrow> is_focusable e"
  by (simp add: tabbable_def is_focusable_def)

end
