(* ===== verification/UiResizePlugins.thy ===== *)
theory UiResizePlugins
  imports UiResizable UiCore
begin

text \<open>
  The plugins of \<open>jquery.ui.resizable.js\<close>, in the order in which the file adds them: \<open>animate\<close>,
  \<open>containment\<close>, \<open>alsoResize\<close>, \<open>ghost\<close> and \<open>grid\<close>. Each works on the size and the position that the
  step of the resize has computed, before they are written to the page.
\<close>

section \<open>\<open>animate\<close>\<close>

text \<open>The place is only animated when both coordinates are truthy; the steps update the cache.\<close>

definition animate_target :: "change \<Rightarrow> change" where
  "animate_target st =
     (if falsy (ch_left st) \<or> falsy (ch_top st) then st\<lparr>ch_left := None, ch_top := None\<rparr> else st)"

definition animate_stop :: "bool \<Rightarrow> bool \<Rightarrow> rat option \<Rightarrow> rat option \<Rightarrow> resize \<Rightarrow> change" where
  "animate_stop is_textarea has_scroll cssLeft cssTop s =
     animate_target (final_style is_textarea has_scroll (rz_size s) cssLeft cssTop s)"

definition animate_step :: "pos \<Rightarrow> pos \<Rightarrow> dims \<Rightarrow> resize \<Rightarrow> resize" where
  "animate_step off p d s = updateCache off
     \<lparr>ch_left = Some (left p), ch_top = Some (top p), ch_width = Some (wide d), ch_height = Some (high d)\<rparr> s"

lemma animate_step_cache: "rz_position (animate_step off p d s) = p" "rz_size (animate_step off p d s) = d"
  by (simp_all add: animate_step_def updateCache_def)

section \<open>\<open>containment\<close>\<close>

text \<open>
  What \<open>start\<close> finds out about the container: the document, or an element with its offset, its
  paddings (top, right, left, bottom, of which the second and the fourth are used) and, when it
  scrolls, the extent of its contents. \<open>static\<close> and \<open>relative\<close> are about the style of the container
  when the resize goes on, \<open>is_parent\<close> says whether it is the parent of the element.
\<close>

record measured =
  of_document :: bool
  document_dims :: dims
  body_height :: rat
  ce_offset :: pos
  ce_position :: pos
  paddings :: "rat list"
  ce_inner :: dims
  scroll_width :: "rat option"
  scroll_height :: "rat option"

record resize_container =
  containerOffset :: pos
  containerPosition :: pos
  parentData :: "pos \<times> dims"
  is_document :: bool
  static :: bool
  relative_style :: bool
  is_parent :: bool

definition containment_start :: "measured \<Rightarrow> resize_container \<Rightarrow> resize_container" where
  "containment_start m c =
     (if of_document m
      then c\<lparr>containerOffset := 0, containerPosition := 0,
             parentData := (0, Dims (wide (document_dims m))
               (if high (document_dims m) = 0 then body_height m else high (document_dims m)))\<rparr>
      else (let cw = wide (ce_inner m) - paddings m ! 1; ch = high (ce_inner m) - paddings m ! 3
            in c\<lparr>containerOffset := ce_offset m, containerPosition := ce_position m,
                 parentData := (ce_offset m, Dims (case scroll_width m of Some w \<Rightarrow> w | None \<Rightarrow> cw)
                   (case scroll_height m of Some h \<Rightarrow> h | None \<Rightarrow> ch))\<rparr>))"

text \<open>
  \<open>proxy\<close> is \<open>_helper\<close>, which the options \<open>ghost\<close> and \<open>animate\<close> set too, \<open>o_helper\<close> the option itself;
  \<open>pRatio\<close> says whether the ratio is kept. \<open>cop\<close> is the offset of a static container that is not
  the document.
\<close>

definition cop :: "resize_container \<Rightarrow> pos" where
  "cop c = (if \<not> is_document c \<and> static c then containerOffset c else 0)"

definition set_width :: "bool \<Rightarrow> rat \<Rightarrow> resize \<Rightarrow> resize" where
  "set_width pRatio w s =
     s\<lparr>rz_size := Dims w (if pRatio then w / aspectRatio s else high (rz_size s))\<rparr>"

definition set_height :: "bool \<Rightarrow> rat \<Rightarrow> resize \<Rightarrow> resize" where
  "set_height pRatio h s =
     s\<lparr>rz_size := Dims (if pRatio then h * aspectRatio s else wide (rz_size s)) h\<rparr>"

definition contain_left :: "bool \<Rightarrow> bool \<Rightarrow> bool \<Rightarrow> resize_container \<Rightarrow> resize \<Rightarrow> resize" where
  "contain_left proxy o_helper pRatio c s =
     (let co = containerOffset c; l = left (rz_position s)
      in if l < (if proxy then left co else 0)
         then (set_width pRatio (wide (rz_size s) + (if proxy then l - left co else l - left (cop c))) s)
                \<lparr>rz_position := Pos (if o_helper then left co else 0) (top (rz_position s))\<rparr>
         else s)"

definition contain_top :: "bool \<Rightarrow> bool \<Rightarrow> resize_container \<Rightarrow> resize \<Rightarrow> resize" where
  "contain_top proxy pRatio c s =
     (let co = containerOffset c; t = top (rz_position s)
      in if t < (if proxy then top co else 0)
         then (set_height pRatio (high (rz_size s) + (if proxy then t - top co else t)) s)
                \<lparr>rz_position := Pos (left (rz_position s)) (if proxy then top co else 0)\<rparr>
         else s)"

text \<open>The distance of the element from the left and the top of the container.\<close>

definition woset :: "resize_container \<Rightarrow> resize \<Rightarrow> rat" where
  "woset c s = \<bar>left (rz_offset s) - left (cop c) + wide (sizeDiff s)\<bar> -
     (if is_parent c \<and> relative_style c then left (fst (parentData c)) else 0)"

definition hoset :: "bool \<Rightarrow> resize_container \<Rightarrow> resize \<Rightarrow> rat" where
  "hoset proxy c s =
     \<bar>(if proxy then top (rz_offset s) - top (cop c) else top (rz_offset s) - top (containerOffset c)) +
      high (sizeDiff s)\<bar>"

definition contain_right :: "bool \<Rightarrow> resize_container \<Rightarrow> resize \<Rightarrow> resize" where
  "contain_right pRatio c s =
     (if woset c s + wide (rz_size s) \<ge> wide (snd (parentData c))
      then set_width pRatio (wide (snd (parentData c)) - woset c s) s else s)"

definition contain_bottom :: "bool \<Rightarrow> bool \<Rightarrow> resize_container \<Rightarrow> resize \<Rightarrow> resize" where
  "contain_bottom proxy pRatio c s =
     (if hoset proxy c s + high (rz_size s) \<ge> high (snd (parentData c))
      then set_height pRatio (high (snd (parentData c)) - hoset proxy c s) s else s)"

definition containment_resize :: "bool \<Rightarrow> bool \<Rightarrow> bool \<Rightarrow> resize_container \<Rightarrow> resize \<Rightarrow> resize" where
  "containment_resize proxy o_helper pRatio c s0 =
     (let s1 = contain_top proxy pRatio c (contain_left proxy o_helper pRatio c s0);
          s2 = s1\<lparr>rz_offset := fst (parentData c) + rz_position s1\<rparr>
      in contain_bottom proxy pRatio c (contain_right pRatio c s2))"

text \<open>At the end the element gets the place and size of the helper.\<close>

definition containment_stop :: "bool \<Rightarrow> bool \<Rightarrow> resize_container \<Rightarrow> pos \<Rightarrow> dims \<Rightarrow> resize \<Rightarrow> change" where
  "containment_stop proxy animate c ho helper_outer s =
     (if proxy \<and> \<not> animate \<and> (relative_style c \<or> static c)
      then \<lparr>ch_left = Some (left ho - left (containerPosition c) - left (containerOffset c)), ch_top = None,
            ch_width = Some (wide helper_outer - wide (sizeDiff s)),
            ch_height = Some (high helper_outer - high (sizeDiff s))\<rparr>
      else no_change)"

lemma set_sel [simp]:
  "rz_position (set_width pr w s) = rz_position s" "rz_position (set_height pr h s) = rz_position s"
  "rz_offset (set_width pr w s) = rz_offset s" "rz_offset (set_height pr h s) = rz_offset s"
  "sizeDiff (set_width pr w s) = sizeDiff s" "sizeDiff (set_height pr h s) = sizeDiff s"
  "aspectRatio (set_width pr w s) = aspectRatio s" "aspectRatio (set_height pr h s) = aspectRatio s"
  "wide (rz_size (set_width pr w s)) = w" "high (rz_size (set_height pr h s)) = h"
  by (simp_all add: set_width_def set_height_def)

lemma oset_size [simp]:
  "woset c (set_width pr w s) = woset c s" "woset c (set_height pr h s) = woset c s"
  "hoset px c (set_width pr w s) = hoset px c s" "hoset px c (set_height pr h s) = hoset px c s"
  by (simp_all add: woset_def hoset_def)

definition has_ratio :: "bool \<Rightarrow> resize \<Rightarrow> bool" where
  "has_ratio pRatio s \<longleftrightarrow> (pRatio \<longrightarrow> 0 < aspectRatio s \<and> wide (rz_size s) = high (rz_size s) * aspectRatio s)"

lemma has_ratio_set:
  "has_ratio pr s \<Longrightarrow> has_ratio pr (set_width pr w s)" "has_ratio pr s \<Longrightarrow> has_ratio pr (set_height pr h s)"
  by (auto simp: has_ratio_def set_width_def set_height_def)

lemma has_ratio_place [simp]:
  "has_ratio pr (s\<lparr>rz_position := p\<rparr>) = has_ratio pr s" "has_ratio pr (s\<lparr>rz_offset := p\<rparr>) = has_ratio pr s"
  by (simp_all add: has_ratio_def)

lemma has_ratio_contain:
  "has_ratio pr s \<Longrightarrow> has_ratio pr (contain_left px oh pr c s)"
  "has_ratio pr s \<Longrightarrow> has_ratio pr (contain_top px pr c s)"
  "has_ratio pr s \<Longrightarrow> has_ratio pr (contain_right pr c s)"
  "has_ratio pr s \<Longrightarrow> has_ratio pr (contain_bottom px pr c s)"
  by (simp_all add: contain_left_def contain_top_def contain_right_def contain_bottom_def Let_def has_ratio_set)

lemma contain_right_fits: "woset c s + wide (rz_size (contain_right pr c s)) \<le> wide (snd (parentData c))"
  by (simp add: contain_right_def)

lemma woset_nonneg: "\<not> is_parent c \<Longrightarrow> 0 \<le> woset c s"
  by (simp add: woset_def)

lemma contain_bottom_fits: "hoset px c s + high (rz_size (contain_bottom px pr c s)) \<le> high (snd (parentData c))"
  by (simp add: contain_bottom_def)

text \<open>Shortening the height with the ratio shortens the width.\<close>

lemma contain_bottom_wide:
  assumes "has_ratio pr s"
  shows "wide (rz_size (contain_bottom px pr c s)) \<le> wide (rz_size s)"
proof (cases "pr \<and> hoset px c s + high (rz_size s) \<ge> high (snd (parentData c))")
  case True
  then have "(high (snd (parentData c)) - hoset px c s) * aspectRatio s \<le> high (rz_size s) * aspectRatio s"
    using assms by (intro mult_right_mono) (simp_all add: has_ratio_def)
  then show ?thesis using True assms by (simp add: contain_bottom_def set_height_def has_ratio_def)
qed (auto simp: contain_bottom_def set_height_def)

lemma contain_place:
  "rz_position (contain_right pr c s) = rz_position s" "rz_position (contain_bottom px pr c s) = rz_position s"
  "woset c (contain_right pr c s) = woset c s" "woset c (contain_bottom px pr c s) = woset c s"
  "hoset px c (contain_right pr c s) = hoset px c s" "hoset px c (contain_bottom px' pr c s) = hoset px c s"
  by (simp_all add: contain_right_def contain_bottom_def)

lemma contain_corner:
  "0 \<le> left (rz_position (contain_top False pr c (contain_left False False pr c s)))"
  "0 \<le> top (rz_position (contain_top False pr c s))"
  by (simp_all add: contain_top_def contain_left_def Let_def)

lemma containment_place:
  "rz_offset (containment_resize px oh pr c s) = fst (parentData c) + rz_position (containment_resize px oh pr c s)"
  "sizeDiff (containment_resize px oh pr c s) = sizeDiff s"
  by (simp_all add: containment_resize_def Let_def contain_bottom_def contain_right_def contain_top_def contain_left_def)

text \<open>What the code itself compares: the measured distance and the size against the size of the container.\<close>

lemma contained_fits:
  assumes "has_ratio pRatio s" and "s' = containment_resize proxy o_helper pRatio c s"
  shows "woset c s' + wide (rz_size s') \<le> wide (snd (parentData c))"
    and "hoset proxy c s' + high (rz_size s') \<le> high (snd (parentData c))" and "has_ratio pRatio s'"
    and "rz_position s' = rz_position (contain_top proxy pRatio c (contain_left proxy o_helper pRatio c s))"
proof -
  let ?s1 = "contain_top proxy pRatio c (contain_left proxy o_helper pRatio c s)"
  let ?s2 = "?s1\<lparr>rz_offset := fst (parentData c) + rz_position ?s1\<rparr>"
  let ?s3 = "contain_right pRatio c ?s2"
  have s': "s' = contain_bottom proxy pRatio c ?s3"
    by (simp add: assms(2) containment_resize_def Let_def)
  have ratio: "has_ratio pRatio ?s3" "has_ratio pRatio s'"
    unfolding s' using assms(1) by (simp_all add: has_ratio_contain)
  have "woset c s' + wide (rz_size s') \<le> woset c ?s2 + wide (rz_size ?s3)"
    using contain_bottom_wide [OF ratio(1)] by (simp add: s' contain_place)
  then show "woset c s' + wide (rz_size s') \<le> wide (snd (parentData c))"
    using contain_right_fits [of c ?s2 pRatio] by linarith
  show "hoset proxy c s' + high (rz_size s') \<le> high (snd (parentData c))"
    using contain_bottom_fits [of proxy c ?s3 pRatio] by (simp add: s' contain_place)
  show "has_ratio pRatio s'" by (rule ratio)
  show "rz_position s' = rz_position ?s1" by (simp add: s' contain_place)
qed

text \<open>
  When these comparisons mean what they should. The position is relative to the container when the
  element is resized itself and the container is its positioned parent, and absolute for a proxy.
  \<open>container_corner\<close> is the corner of the container in the coordinates of the position.
\<close>

definition container_corner :: "bool \<Rightarrow> resize_container \<Rightarrow> pos" where
  "container_corner proxy c = (if proxy then containerOffset c else 0)"

definition proper_container :: "bool \<Rightarrow> bool \<Rightarrow> measured \<Rightarrow> resize_container \<Rightarrow> bool" where
  "proper_container proxy o_helper m c \<longleftrightarrow>
     0 \<le> left (containerOffset c) \<and> 0 \<le> top (containerOffset c) \<and> \<not> (static c \<and> relative_style c) \<and>
     (if proxy then o_helper \<or> of_document m
      else \<not> o_helper \<and> (of_document m \<or> relative_style c \<and> is_parent c))"

lemma containment_start_sel:
  "fst (parentData (containment_start m c)) = containerOffset (containment_start m c)"
  "of_document m \<Longrightarrow> containerOffset (containment_start m c) = 0"
  by (simp_all add: containment_start_def Let_def)

lemma contain_corner_proxy:
  "left (containerOffset c) \<le> left (rz_position (contain_top True pr c (contain_left True True pr c s)))"
  "top (containerOffset c) \<le> top (rz_position (contain_top True pr c s))"
  "containerOffset c = 0 \<Longrightarrow> 0 \<le> left (rz_position (contain_top px pr c (contain_left px oh pr c s)))"
  "containerOffset c = 0 \<Longrightarrow> 0 \<le> top (rz_position (contain_top px pr c s))"
  by (simp_all add: contain_top_def contain_left_def Let_def geom_simps)

lemma contained_corner:
  assumes "proper_container proxy o_helper m c" and "c = containment_start m c0"
  shows "left (container_corner proxy c) \<le> left (rz_position (contain_top proxy pr c (contain_left proxy o_helper pr c s)))"
    and "top (container_corner proxy c) \<le> top (rz_position (contain_top proxy pr c t))"
proof -
  have doc: "of_document m \<Longrightarrow> containerOffset c = 0" using containment_start_sel(2) assms(2) by simp
  show "left (container_corner proxy c) \<le> left (rz_position (contain_top proxy pr c (contain_left proxy o_helper pr c s)))"
  proof (cases "of_document m")
    case True
    then have "left (container_corner proxy c) = 0" using doc by (simp add: container_corner_def geom_simps)
    then show ?thesis using contain_corner_proxy(3) [OF doc [OF True]] by simp
  next
    case False
    then show ?thesis using assms(1) contain_corner_proxy(1) contain_corner(1) [of pr c s]
      by (cases proxy; cases o_helper) (auto simp: proper_container_def container_corner_def geom_simps)
  qed
  show "top (container_corner proxy c) \<le> top (rz_position (contain_top proxy pr c t))"
    using contain_corner_proxy(2) contain_corner(2) by (cases proxy) (simp_all add: container_corner_def geom_simps)
qed


definition page_container :: resize_container where
  "page_container = \<lparr>containerOffset = 0, containerPosition = 0, parentData = (0, Dims 320 300),
     is_document = False, static = False, relative_style = False, is_parent = False\<rparr>"

text \<open>A positioned parent at (100, 30) with room for 320 by 300 pixels.\<close>

definition parent_container :: measured where
  "parent_container = \<lparr>of_document = False, document_dims = Dims 1000 800, body_height = 800, ce_offset = Pos 100 30,
     ce_position = Pos 100 30, paddings = [0, 0, 0, 0], ce_inner = Dims 320 300, scroll_width = None, scroll_height = None\<rparr>"


text \<open>
  With \<open>ghost\<close> or \<open>animate\<close> but without the option \<open>helper\<close>, the proxy that is pulled over the
  left edge of the container is put to the left edge of the page instead, outside the container;
  the test and the code for the top edge use the proxy.
\<close>

theorem ghost_leaves_container:
  assumes "left (rz_position s) < left (containerOffset c)" and "0 < left (containerOffset c)"
  shows "left (rz_position (containment_resize True False pRatio c s)) = 0 \<and>
    left (rz_position (containment_resize True True pRatio c s)) = left (containerOffset c) \<and>
    top (containerOffset c) \<le> top (rz_position (containment_resize True False pRatio c s))"
  using assms by (simp add: containment_resize_def contain_place contain_left_def contain_top_def Let_def)

theorem ghost_leaves_container_witness:
  "left (rz_position (containment_resize True False False (page_container\<lparr>containerOffset := Pos 100 30\<rparr>) (box ''w''))) = 0"
  using ghost_leaves_container [of "box ''w''" "page_container\<lparr>containerOffset := Pos 100 30\<rparr>" False]
  by (simp add: box_def)

section \<open>\<open>alsoResize\<close>\<close>

text \<open>
  The option names elements by a selector, is a jQuery object or one element, or maps selectors to
  the properties to change. What \<open>start\<close> stores is kept in jQuery's data of each element under the
  key \<open>ui-resizable-alsoresize\<close>; \<open>elems\<close> resolves a selector.
\<close>

datatype also_option = Also_selector string | Also_object "nat list" | Also_element nat
  | Also_map "(string \<times> string list) list"

record also_start =
  start_width :: "rat option"
  start_height :: "rat option"
  start_left :: "rat option"
  start_top :: "rat option"

definition also_key :: string where
  "also_key = ''ui-resizable-alsoresize''"

type_synonym element_data = "nat \<Rightarrow> string \<Rightarrow> also_start option"

definition store_starts :: "(nat \<Rightarrow> also_start) \<Rightarrow> nat list \<Rightarrow> element_data \<Rightarrow> element_data" where
  "store_starts meas els d = fold (\<lambda>e d. d(e := (d e)(also_key \<mapsto> meas e))) els d"

definition also_resize_start ::
    "(string \<Rightarrow> nat list) \<Rightarrow> (nat \<Rightarrow> also_start) \<Rightarrow> also_option \<Rightarrow> element_data \<Rightarrow> also_option \<times> element_data" where
  "also_resize_start elems meas opt d =
     (case opt of
        Also_selector sel \<Rightarrow> (opt, store_starts meas (elems sel) d)
      | Also_element e \<Rightarrow> (opt, store_starts meas [e] d)
      | Also_object els \<Rightarrow> (case els of [] \<Rightarrow> (opt, d) | e # _ \<Rightarrow> (Also_element e, store_starts meas [e] d))
      | Also_map m \<Rightarrow> (opt, fold (\<lambda>(sel, _). store_starts meas (elems sel)) m d))"

definition also_prop :: "rat option \<Rightarrow> rat \<Rightarrow> rat option" where
  "also_prop start delta =
     (let sum = (case start of Some x \<Rightarrow> x | None \<Rightarrow> 0) + delta in if sum \<noteq> 0 \<and> sum \<ge> 0 then Some sum else None)"

definition also_style :: "string list \<Rightarrow> change \<Rightarrow> also_start \<Rightarrow> change" where
  "also_style css delta st =
     (let d = (\<lambda>v. case v of Some x \<Rightarrow> x | None \<Rightarrow> 0);
          p = (\<lambda>name v dv. if name \<in> set css then also_prop v (d dv) else None)
      in \<lparr>ch_left = p ''left'' (start_left st) (ch_left delta), ch_top = p ''top'' (start_top st) (ch_top delta),
          ch_width = p ''width'' (start_width st) (ch_width delta),
          ch_height = p ''height'' (start_height st) (ch_height delta)\<rparr>)"

definition also_delta :: "resize \<Rightarrow> change" where
  "also_delta s =
     \<lparr>ch_left = Some (left (rz_position s) - left (originalPos s)), ch_top = Some (top (rz_position s) - top (originalPos s)),
      ch_width = Some (wide (rz_size s) - wide (originalSize s)),
      ch_height = Some (high (rz_size s) - high (originalSize s))\<rparr>"

text \<open>An element inside the resized one is not moved, since it moves with it.\<close>

definition also_css :: "string list \<Rightarrow> bool \<Rightarrow> string list" where
  "also_css c inside =
     (if c \<noteq> [] then c else if inside then [''width'', ''height''] else [''width'', ''height'', ''top'', ''left''])"

text \<open>The styles that are written; an element without stored values makes the handler throw.\<close>

definition also_targets :: "(string \<Rightarrow> nat list) \<Rightarrow> also_option \<Rightarrow> (nat \<times> string list) list" where
  "also_targets elems opt =
     (case opt of
        Also_selector sel \<Rightarrow> map (\<lambda>e. (e, [])) (elems sel)
      | Also_element e \<Rightarrow> [(e, [])]
      | Also_object els \<Rightarrow> []
      | Also_map m \<Rightarrow> concat (map (\<lambda>(sel, c). map (\<lambda>e. (e, c)) (elems sel)) m))"

fun also_apply :: "(nat \<Rightarrow> bool) \<Rightarrow> element_data \<Rightarrow> change \<Rightarrow> (nat \<times> string list) list \<Rightarrow> (nat \<times> change) list js" where
  "also_apply inside d delta [] = Inr []"
| "also_apply inside d delta ((e, c) # rest) =
     (case d e also_key of
        None \<Rightarrow> Inl TypeError
      | Some st \<Rightarrow> (case also_apply inside d delta rest of
          Inl x \<Rightarrow> Inl x | Inr out \<Rightarrow> Inr ((e, also_style (also_css c (inside e)) delta st) # out)))"

definition also_resize ::
    "(string \<Rightarrow> nat list) \<Rightarrow> (nat \<Rightarrow> bool) \<Rightarrow> also_option \<Rightarrow> element_data \<Rightarrow> resize \<Rightarrow> (nat \<times> change) list js" where
  "also_resize elems inside opt d s = also_apply inside d (also_delta s) (also_targets elems opt)"

definition also_resize_stop :: "nat \<Rightarrow> element_data \<Rightarrow> element_data" where
  "also_resize_stop self d = d(self := (d self)(''resizable-alsoresize'' := None))"

lemma store_starts_get:
  "store_starts meas els d e also_key = (if e \<in> set els then Some (meas e) else d e also_key)"
  by (induction els arbitrary: d) (simp_all add: store_starts_def)

lemma store_starts_keeps: "d e also_key \<noteq> None \<Longrightarrow> store_starts meas els d e also_key \<noteq> None"
  by (simp add: store_starts_get)

lemma map_target_names:
  "map fst (concat (map (\<lambda>(sel, c). map (\<lambda>e. (e, c)) (elems sel)) m)) = concat (map (\<lambda>x. elems (fst x)) m)"
  by (induction m) (auto simp: comp_def)

lemma map_stores:
  "e \<in> set (concat (map (\<lambda>x. elems (fst x)) m)) \<or> d e also_key \<noteq> None \<Longrightarrow>
     fold (\<lambda>(sel, _). store_starts meas (elems sel)) m d e also_key \<noteq> None"
proof (induction m arbitrary: d)
  case (Cons p m)
  obtain sel c where p: "p = (sel, c)" by (cases p)
  have "fold (\<lambda>(sel, _). store_starts meas (elems sel)) m (store_starts meas (elems sel) d) e also_key \<noteq> None"
    by (rule Cons.IH) (use Cons.prems in \<open>auto simp: p store_starts_get\<close>)
  then show ?case by (simp add: p)
qed simp

lemma started_names:
  "map fst (also_targets elems (fst (also_resize_start elems meas opt d))) =
    (case opt of Also_selector sel \<Rightarrow> elems sel | Also_element e \<Rightarrow> [e] | Also_object els \<Rightarrow> take 1 els
     | Also_map m \<Rightarrow> concat (map (\<lambda>x. elems (fst x)) m))"
proof (cases opt)
  case (Also_map m)
  then show ?thesis by (simp only: also_resize_start_def also_targets_def map_target_names also_option.case fst_conv)
qed (simp_all add: also_resize_start_def also_targets_def comp_def split: list.split)

lemma started_stored:
  "\<forall>e \<in> set (map fst (also_targets elems (fst (also_resize_start elems meas opt d)))).
     snd (also_resize_start elems meas opt d) e also_key \<noteq> None"
proof (cases opt)
  case (Also_map m)
  then show ?thesis
    using map_stores [of _ elems m d meas] unfolding started_names by (simp add: also_resize_start_def)
qed (unfold started_names, auto simp: also_resize_start_def store_starts_get split: list.split)

lemma also_apply_ok:
  "\<forall>e \<in> set (map fst ts). d e also_key \<noteq> None \<Longrightarrow>
     \<exists>out. also_apply inside d delta ts = Inr out \<and> map fst out = map fst ts"
  by (induction ts) (auto split: option.split)

text \<open>
  During a resize the handler never throws for the elements that were measured at its start,
  whatever form the option has, and gives every one of them a style. A jQuery object of several
  elements counts as its first element.
\<close>

theorem also_resize_total:
  assumes "also_resize_start elems meas opt d = (opt', d')"
  shows "\<exists>out. also_resize elems inside opt' d' s = Inr out \<and>
    map fst out = (case opt of Also_selector sel \<Rightarrow> elems sel | Also_element e \<Rightarrow> [e] | Also_object els \<Rightarrow> take 1 els
      | Also_map m \<Rightarrow> concat (map (\<lambda>x. elems (fst x)) m))"
  using also_apply_ok [of "also_targets elems opt'" d' inside "also_delta s"] started_stored [of elems meas opt d]
  by (simp only: assms fst_conv snd_conv also_resize_def started_names [of elems meas opt d, unfolded assms fst_conv])

theorem also_resize_total_witness:
  "\<exists>out. also_resize (\<lambda>sel. []) (\<lambda>e. True) (Also_element 5)
     (snd (also_resize_start (\<lambda>sel. []) (\<lambda>e. \<lparr>start_width = Some 280, start_height = Some 150, start_left = None,
        start_top = None\<rparr>) (Also_object [5, 6]) (\<lambda>e k. None))) (box ''e'') = Inr out \<and> map fst out = [5]"
proof -
  let ?st = "also_resize_start (\<lambda>sel. []) (\<lambda>e. \<lparr>start_width = Some 280, start_height = Some 150, start_left = None,
        start_top = None\<rparr>) (Also_object [5, 6]) (\<lambda>e k. None)"
  have "?st = (Also_element 5, snd ?st)" by (simp add: also_resize_start_def)
  from also_resize_total [OF this, of "\<lambda>e. True" "box ''e''"] show ?thesis by simp
qed

text \<open>What is stored for a resize is never removed, because \<open>stop\<close> uses another key.\<close>

lemma also_data_left: "also_resize_stop self d e also_key = d e also_key"
  by (simp add: also_resize_stop_def also_key_def)

section \<open>\<open>ghost\<close>\<close>

text \<open>The ghost is a copy of the element inside the helper: its size, and whether it is on the page.\<close>

definition ghost_start :: "resize \<Rightarrow> dims \<times> bool" where
  "ghost_start s = (rz_size s, True)"

definition ghost_resize :: "resize \<Rightarrow> dims \<times> bool \<Rightarrow> dims \<times> bool" where
  "ghost_resize s g = (rz_size s, snd g)"

definition ghost_stop :: "bool \<Rightarrow> dims \<times> bool \<Rightarrow> dims \<times> bool" where
  "ghost_stop has_helper g = (fst g, if has_helper then False else snd g)"

section \<open>\<open>grid\<close>\<close>

text \<open>A grid of 0 counts as 1. The test for a limit takes a limit of 0, or none, for no limit.\<close>

definition grid_step :: "rat \<Rightarrow> rat" where
  "grid_step g = (if g = 0 then 1 else g)"

definition over :: "rat option \<Rightarrow> rat \<Rightarrow> bool" where
  "over m v = (case m of None \<Rightarrow> False | Some x \<Rightarrow> x \<noteq> 0 \<and> x < v)"

definition under :: "rat option \<Rightarrow> rat \<Rightarrow> bool" where
  "under m v = (case m of None \<Rightarrow> False | Some x \<Rightarrow> x \<noteq> 0 \<and> x > v)"

definition grid_dim :: "rat option \<Rightarrow> rat option \<Rightarrow> rat \<Rightarrow> rat \<Rightarrow> rat" where
  "grid_dim lo hi g new = new + (if under lo new then g else 0) - (if over hi new then g else 0)"

definition grid_resize :: "rat \<times> rat \<Rightarrow> limit_options \<Rightarrow> resize \<Rightarrow> resize" where
  "grid_resize g lo s =
     (let gx = grid_step (fst g); gy = grid_step (snd g); cs = rz_size s; os = originalSize s; op = originalPos s;
          ox = to_grid gx (wide cs - wide os); oy = to_grid gy (high cs - high os); a = rz_axis s;
          d = Dims (grid_dim (o_minWidth lo) (o_maxWidth lo) gx (wide os + ox))
                   (grid_dim (o_minHeight lo) (o_maxHeight lo) gy (high os + oy))
      in if a \<in> {''se'', ''s'', ''e''} then s\<lparr>rz_size := d\<rparr>
         else if a = ''ne'' then s\<lparr>rz_size := d, rz_position := Pos (left (rz_position s)) (top op - oy)\<rparr>
         else if a = ''sw'' then s\<lparr>rz_size := d, rz_position := Pos (left op - ox) (top (rz_position s))\<rparr>
         else s\<lparr>rz_size := d, rz_position := Pos (left op - ox) (top op - oy)\<rparr>)"

text \<open>
  The sizes of a grid are the original ones plus a whole number of grid steps. When a limit is
  hit one step is given back or taken away, but the position does not follow: with a handle on the
  left the right edge then moves by a grid step, with one on the top the bottom edge.
\<close>

theorem grid_moves_opposite_edge:
  assumes "rz_axis s \<in> {''w'', ''nw'', ''sw''}" and "s' = grid_resize (gx, gy) lo s" and "gx \<noteq> 0"
    and "new = wide (originalSize s) + to_grid gx (wide (rz_size s) - wide (originalSize s))"
  shows "left (rz_position s') + wide (rz_size s') = left (originalPos s) + wide (originalSize s) +
      (if under (o_minWidth lo) new then gx else 0) - (if over (o_maxWidth lo) new then gx else 0) \<and>
    (\<exists>n. wide (rz_size s') = wide (originalSize s) + of_int n * gx)"
proof -
  let ?n = "\<lfloor>(wide (rz_size s) - wide (originalSize s)) / gx + 1 / 2\<rfloor>"
  have w: "wide (rz_size s') = grid_dim (o_minWidth lo) (o_maxWidth lo) gx new"
    "left (rz_position s') = left (originalPos s) - (new - wide (originalSize s))"
    using assms(1,3) unfolding assms(2,4)
    by (auto simp: grid_resize_def Let_def grid_step_def)
  have n: "new = wide (originalSize s) + of_int ?n * gx"
    by (simp add: assms(4) to_grid_def round_js_def)
  have "\<exists>k. wide (rz_size s') = wide (originalSize s) + of_int k * gx"
    unfolding w(1) grid_dim_def
    by (rule exI [of _ "?n + (if under (o_minWidth lo) new then 1 else 0) - (if over (o_maxWidth lo) new then 1 else 0)"])
      (subst n, simp add: algebra_simps)
  then show ?thesis unfolding w(2) by (simp add: w(1) grid_dim_def)
qed

theorem grid_moves_opposite_edge_witness:
  "let s = (box ''w'')\<lparr>rz_size := Dims 20 200, rz_position := Pos 330 40\<rparr>;
       s' = grid_resize (100, 100) \<lparr>o_minWidth = Some 10, o_maxWidth = None, o_minHeight = None, o_maxHeight = None\<rparr> s
   in left (rz_position s') + wide (rz_size s') = 450"
proof -
  let ?s = "(box ''w'')\<lparr>rz_size := Dims 20 200, rz_position := Pos 330 40\<rparr>"
  have "\<lfloor>- (14 / 5) + 1 / 2 :: rat\<rfloor> = -3" by (rule floor_unique) simp_all
  then have "round_js (- (14 / 5)) = -3" by (simp add: round_js_def)
  then have g: "to_grid 100 (- 280) = - 300" by (simp add: to_grid_def)
  have "rz_axis ?s \<in> {''w'', ''nw'', ''sw''}" by (simp add: box_def)
  from grid_moves_opposite_edge [OF this refl _ refl, of 100 100
      "\<lparr>o_minWidth = Some 10, o_maxWidth = None, o_minHeight = None, o_maxHeight = None\<rparr>"]
  show ?thesis by (simp add: box_def g under_def over_def Let_def)
qed

section \<open>All plugins of a step\<close>

text \<open>
  The plugins that change the state of the resize, added in the order of the file. \<open>o_grid\<close> and
  \<open>o_contain\<close> say that the options are set.
\<close>

definition step_plugins :: "resize_container \<Rightarrow> bool \<Rightarrow> bool \<Rightarrow> bool \<Rightarrow> rat \<times> rat \<Rightarrow> limit_options \<Rightarrow> resize plugins" where
  "step_plugins c proxy o_helper pRatio g lo =
     plugin_add ''grid'' [(''resize'', grid_resize g lo)]
       (plugin_add ''containment'' [(''resize'', containment_resize proxy o_helper pRatio c)] (\<lambda>event. []))"

definition run_step_plugins ::
    "bool \<Rightarrow> bool \<Rightarrow> resize_container \<Rightarrow> bool \<Rightarrow> bool \<Rightarrow> bool \<Rightarrow> rat \<times> rat \<Rightarrow> limit_options \<Rightarrow> resize \<Rightarrow> resize" where
  "run_step_plugins o_contain o_grid c proxy o_helper pRatio g lo =
     call_plugins True (\<lambda>s opt. if opt = ''grid'' then o_grid else o_contain)
       (step_plugins c proxy o_helper pRatio g lo) ''resize''"

lemma run_step_plugins_eq:
  "run_step_plugins o_contain o_grid c px oh pr g lo s =
     (let t = (if o_contain then containment_resize px oh pr c s else s) in if o_grid then grid_resize g lo t else t)"
  by (simp add: run_step_plugins_def step_plugins_def call_plugins_def plugin_add_def)

end
