(* ===== verification/UiDialog.thy ===== *)
theory UiDialog
  imports UiCore
begin

text \<open>
  \<open>jquery.ui.dialog.js\<close>, the dialogs in which the application shows its detail views: opening,
  closing and raising them, the overlays of modal dialogs with the counter that all dialogs share,
  and the focus. The dialogs are appended to the same parent, and the options \<open>show\<close> and \<open>hide\<close> are
  \<open>null\<close>, so showing and hiding happen at once; the application uses nothing else.
\<close>

section \<open>The order on the page\<close>

text \<open>The children of the parent: dialogs, overlays (numbered as they are made) and other elements.\<close>

datatype item = Dlg nat | Overlay nat | Elem nat

text \<open>\<open>nextAll(":visible").insertBefore(this.uiDialog)\<close>, and whether anything was moved.\<close>

definition moved_up :: "(item \<Rightarrow> bool) \<Rightarrow> item \<Rightarrow> item list \<Rightarrow> item list" where
  "moved_up vis x xs = filter vis (tl (dropWhile (\<lambda>y. y \<noteq> x) xs))"

definition move_to_top :: "(item \<Rightarrow> bool) \<Rightarrow> item \<Rightarrow> item list \<Rightarrow> item list" where
  "move_to_top vis x xs =
     (if x \<in> set xs
      then takeWhile (\<lambda>y. y \<noteq> x) xs @ moved_up vis x xs @ [x] @
           filter (\<lambda>y. \<not> vis y) (tl (dropWhile (\<lambda>y. y \<noteq> x) xs))
      else xs)"

section \<open>Dialogs\<close>

datatype focus = Body | On nat | Inside nat | In_datepicker nat

text \<open>\<open>overlay\<close> is the number of the dialog's overlay; \<open>shown_dlg\<close> says whether it is displayed.\<close>

record dialog =
  created :: bool
  isOpen :: bool
  modal :: bool
  overlay :: "nat option"
  shown_dlg :: bool
  opener :: focus

text \<open>
  \<open>traps\<close> counts the handlers of \<open>focusin.dialog\<close> at the document, \<open>timers\<close> the delays after which
  one is bound; \<open>threw\<close> counts exceptions that left a handler.
\<close>

record dialog_page =
  dlg :: "nat \<Rightarrow> dialog"
  overlayInstances :: int
  next_overlay :: nat
  timers :: nat
  traps :: nat
  stack :: "item list"
  elem_visible :: "nat \<Rightarrow> bool"
  focused :: focus
  triggered :: "(nat \<times> string) list"
  threw :: nat

definition put_dlg :: "nat \<Rightarrow> (dialog \<Rightarrow> dialog) \<Rightarrow> dialog_page \<Rightarrow> dialog_page" where
  "put_dlg d f p = p\<lparr>dlg := (dlg p)(d := f (dlg p d))\<rparr>"

definition trigger_dlg :: "nat \<Rightarrow> string \<Rightarrow> dialog_page \<Rightarrow> dialog_page" where
  "trigger_dlg d event p = p\<lparr>triggered := triggered p @ [(d, event)]\<rparr>"

fun vis :: "dialog_page \<Rightarrow> item \<Rightarrow> bool" where
  "vis p (Dlg d) = shown_dlg (dlg p d)"
| "vis p (Overlay k) = True"
| "vis p (Elem e) = elem_visible p e"

definition dialog_create :: "nat \<Rightarrow> bool \<Rightarrow> dialog_page \<Rightarrow> dialog_page" where
  "dialog_create d m p =
     (put_dlg d (\<lambda>_. \<lparr>created = True, isOpen = False, modal = m, overlay = None, shown_dlg = False, opener = Body\<rparr>) p)
       \<lparr>stack := stack p @ [Dlg d]\<rparr>"

definition createOverlay :: "nat \<Rightarrow> dialog_page \<Rightarrow> dialog_page" where
  "createOverlay d p =
     (if \<not> modal (dlg p d) then p
      else let p1 = (if overlayInstances p = 0 then p\<lparr>timers := Suc (timers p)\<rparr> else p); k = next_overlay p
           in (put_dlg d (\<lambda>x. x\<lparr>overlay := Some k\<rparr>) p1)
                \<lparr>stack := stack p @ [Overlay k], next_overlay := Suc k, overlayInstances := overlayInstances p + 1\<rparr>)"

definition destroyOverlay :: "nat \<Rightarrow> dialog_page \<Rightarrow> dialog_page" where
  "destroyOverlay d p =
     (if \<not> modal (dlg p d) then p
      else case overlay (dlg p d) of
        None \<Rightarrow> p
      | Some k \<Rightarrow>
          (let n = overlayInstances p - 1
           in (put_dlg d (\<lambda>x. x\<lparr>overlay := None\<rparr>) p)
                \<lparr>overlayInstances := n, traps := (if n = 0 then 0 else traps p),
                 stack := filter (\<lambda>x. x \<noteq> Overlay k) (stack p)\<rparr>))"

text \<open>Every way of \<open>_focusTabbable\<close> ends in an element of the dialog, at last the dialog itself.\<close>

definition focus_dialog :: "nat \<Rightarrow> dialog_page \<Rightarrow> dialog_page" where
  "focus_dialog d p = p\<lparr>focused := Inside d\<rparr>"

definition moveToTop :: "nat \<Rightarrow> bool \<Rightarrow> dialog_page \<Rightarrow> dialog_page \<times> bool" where
  "moveToTop d silent p =
     (let moved = Dlg d \<in> set (stack p) \<and> moved_up (vis p) (Dlg d) (stack p) \<noteq> [];
          p1 = p\<lparr>stack := move_to_top (vis p) (Dlg d) (stack p)\<rparr>
      in (if moved \<and> \<not> silent then trigger_dlg d ''focus'' p1 else p1, moved))"

definition raise_dialog :: "nat \<Rightarrow> dialog_page \<Rightarrow> dialog_page" where
  "raise_dialog d p = (let r = moveToTop d False p in if snd r then focus_dialog d (fst r) else fst r)"

definition dialog_open :: "nat \<Rightarrow> dialog_page \<Rightarrow> dialog_page" where
  "dialog_open d p =
     (if isOpen (dlg p d) then raise_dialog d p
      else let p1 = put_dlg d (\<lambda>x. x\<lparr>isOpen := True, opener := focused p\<rparr>) p;
               p2 = fst (moveToTop d True (createOverlay d p1));
               p3 = trigger_dlg d ''focus'' (focus_dialog d (put_dlg d (\<lambda>x. x\<lparr>shown_dlg := True\<rparr>) p2))
           in trigger_dlg d ''open'' p3)"

definition allowInteraction :: "focus \<Rightarrow> bool" where
  "allowInteraction f \<longleftrightarrow> (case f of Inside _ \<Rightarrow> True | In_datepicker _ \<Rightarrow> True | _ \<Rightarrow> False)"

definition shown_dialogs :: "dialog_page \<Rightarrow> nat list" where
  "shown_dialogs p = concat (map (\<lambda>x. case x of Dlg d \<Rightarrow> if shown_dlg (dlg p d) then [d] else [] | _ \<Rightarrow> []) (stack p))"

text \<open>The focus goes to \<open>f\<close>; a bound handler sends it back into the last dialog that is shown.\<close>

definition focus_in :: "focus \<Rightarrow> dialog_page \<Rightarrow> dialog_page" where
  "focus_in f p =
     (let p1 = p\<lparr>focused := f\<rparr>
      in if traps p = 0 \<or> f = Body \<or> allowInteraction f then p1
         else if shown_dialogs p = [] then p1\<lparr>threw := threw p + 1\<rparr>
         else focus_dialog (last (shown_dialogs p)) p1)"

text \<open>
  Closing gives the focus back to the opener if it can still take it: an element of the page, by
  \<open>can_focus\<close>, or a place inside a dialog that is shown. Like every other focusing this one goes through
  the handler, if that is still bound for another modal dialog. Otherwise nothing has the focus.
\<close>

fun can_take :: "(nat \<Rightarrow> bool) \<Rightarrow> dialog_page \<Rightarrow> focus \<Rightarrow> bool" where
  "can_take can_focus p (On e) = can_focus e"
| "can_take can_focus p (Inside d) = shown_dlg (dlg p d)"
| "can_take can_focus p (In_datepicker e) = can_focus e"
| "can_take can_focus p Body = False"

definition refocus :: "(nat \<Rightarrow> bool) \<Rightarrow> focus \<Rightarrow> dialog_page \<Rightarrow> dialog_page" where
  "refocus can_focus f p = (if can_take can_focus p f then focus_in f p else p\<lparr>focused := Body\<rparr>)"

text \<open>
  \<open>allowed\<close> is what the callback \<open>beforeClose\<close> makes of the event. The dialog is hidden after the
  focus was given back; hiding an element that has the focus does not take it away.
\<close>

definition dialog_close :: "(nat \<Rightarrow> bool) \<Rightarrow> nat \<Rightarrow> bool \<Rightarrow> dialog_page \<Rightarrow> dialog_page" where
  "dialog_close can_focus d allowed p =
     (if \<not> isOpen (dlg p d) then p
      else let p0 = trigger_dlg d ''beforeClose'' p
           in if \<not> allowed then p0
              else let p1 = destroyOverlay d (put_dlg d (\<lambda>x. x\<lparr>isOpen := False\<rparr>) p0);
                       p2 = refocus can_focus (opener (dlg p1 d)) p1
                   in trigger_dlg d ''close'' (put_dlg d (\<lambda>x. x\<lparr>shown_dlg := False\<rparr>) p2))"

definition dialog_destroy :: "nat \<Rightarrow> dialog_page \<Rightarrow> dialog_page" where
  "dialog_destroy d p =
     (let p1 = destroyOverlay d p
      in (put_dlg d (\<lambda>x. x\<lparr>created := False, shown_dlg := False\<rparr>) p1)
           \<lparr>stack := filter (\<lambda>x. x \<noteq> Dlg d) (stack p1), focused := (if focused p1 = Inside d then Body else focused p1)\<rparr>)"

definition delay_over :: "dialog_page \<Rightarrow> dialog_page" where
  "delay_over p =
     (if timers p = 0 then p
      else p\<lparr>timers := timers p - 1, traps := (if overlayInstances p \<noteq> 0 then Suc (traps p) else traps p)\<rparr>)"

section \<open>What can happen\<close>

datatype dialog_input =
    Create nat bool
  | Open nat
  | Close nat bool
  | Mouse_down nat
  | To_top nat
  | Set_modal nat bool
  | Remove nat
  | Delay_over
  | Focus_in focus

text \<open>
  Methods are called on existing dialogs; the mouse and the focus reach dialogs that are shown.
\<close>

fun can_happen :: "dialog_page \<Rightarrow> dialog_input \<Rightarrow> bool" where
  "can_happen p (Create d m) = (\<not> created (dlg p d))"
| "can_happen p (Open d) = created (dlg p d)"
| "can_happen p (Close d ok) = created (dlg p d)"
| "can_happen p (Mouse_down d) = (created (dlg p d) \<and> shown_dlg (dlg p d))"
| "can_happen p (To_top d) = created (dlg p d)"
| "can_happen p (Set_modal d m) = created (dlg p d)"
| "can_happen p (Remove d) = created (dlg p d)"
| "can_happen p Delay_over = True"
| "can_happen p (Focus_in f) = (case f of Inside d \<Rightarrow> shown_dlg (dlg p d) | _ \<Rightarrow> True)"

fun dialog_step :: "(nat \<Rightarrow> bool) \<Rightarrow> dialog_page \<Rightarrow> dialog_input \<Rightarrow> dialog_page" where
  "dialog_step cf p (Create d m) = dialog_create d m p"
| "dialog_step cf p (Open d) = dialog_open d p"
| "dialog_step cf p (Close d ok) = dialog_close cf d ok p"
| "dialog_step cf p (Mouse_down d) = raise_dialog d p"
| "dialog_step cf p (To_top d) = fst (moveToTop d False p)"
| "dialog_step cf p (Set_modal d m) = put_dlg d (\<lambda>x. x\<lparr>modal := m\<rparr>) p"
| "dialog_step cf p (Remove d) = dialog_destroy d p"
| "dialog_step cf p Delay_over = delay_over p"
| "dialog_step cf p (Focus_in f) = focus_in f p"

text \<open>
  \<open>reached\<close> is everything that can happen. In \<open>reachable\<close> the option \<open>modal\<close> is not changed while the dialog
  is open, which the code allows but is not prepared for.
\<close>

fun keeps_modal :: "dialog_page \<Rightarrow> dialog_input \<Rightarrow> bool" where
  "keeps_modal p (Set_modal d m) = (\<not> isOpen (dlg p d))"
| "keeps_modal p i = True"

definition fresh_dialogs :: "(nat \<Rightarrow> bool) \<Rightarrow> nat list \<Rightarrow> dialog_page" where
  "fresh_dialogs ev es =
     \<lparr>dlg = (\<lambda>d. \<lparr>created = False, isOpen = False, modal = False, overlay = None, shown_dlg = False, opener = Body\<rparr>),
      overlayInstances = 0, next_overlay = 0, timers = 0, traps = 0, stack = map Elem es, elem_visible = ev,
      focused = Body, triggered = [], threw = 0\<rparr>"

inductive reached :: "(nat \<Rightarrow> bool) \<Rightarrow> dialog_page \<Rightarrow> bool" for cf :: "nat \<Rightarrow> bool" where
  reached_start: "distinct es \<Longrightarrow> reached cf (fresh_dialogs ev es)"
| reached_step: "reached cf p \<Longrightarrow> can_happen p i \<Longrightarrow> reached cf (dialog_step cf p i)"

inductive reachable :: "(nat \<Rightarrow> bool) \<Rightarrow> dialog_page \<Rightarrow> bool" for cf :: "nat \<Rightarrow> bool" where
  start: "distinct es \<Longrightarrow> reachable cf (fresh_dialogs ev es)"
| step: "reachable cf p \<Longrightarrow> can_happen p i \<Longrightarrow> keeps_modal p i \<Longrightarrow> reachable cf (dialog_step cf p i)"

section \<open>The order after raising a dialog\<close>

lemma move_split:
  assumes "x \<notin> set a"
  shows "moved_up v x (a @ x # b) = filter v b"
    and "move_to_top v x (a @ x # b) = a @ filter v b @ [x] @ filter (\<lambda>y. \<not> v y) b"
proof -
  have "takeWhile (\<lambda>y. y \<noteq> x) (a @ x # b) = a" "dropWhile (\<lambda>y. y \<noteq> x) (a @ x # b) = x # b"
    using assms by (induction a) auto
  then show "moved_up v x (a @ x # b) = filter v b"
    and "move_to_top v x (a @ x # b) = a @ filter v b @ [x] @ filter (\<lambda>y. \<not> v y) b"
    by (simp_all add: moved_up_def move_to_top_def)
qed

lemma move_to_top_set [simp]: "set (move_to_top v x xs) = set xs"
proof (cases "x \<in> set xs")
  case True
  then obtain a b where "xs = a @ x # b" "x \<notin> set a" using split_list_first by fast
  then show ?thesis by (auto simp: move_split)
qed (simp add: move_to_top_def)

lemma move_to_top_distinct: "distinct xs \<Longrightarrow> distinct (move_to_top v x xs)"
proof (cases "x \<in> set xs")
  case True
  assume "distinct xs"
  moreover obtain a b where "xs = a @ x # b" "x \<notin> set a" using True split_list_first by fast
  ultimately show ?thesis by (auto simp: move_split)
qed (simp add: move_to_top_def)

text \<open>Among the visible items, and the one that is raised, the raised one is last; the others keep their order.\<close>

lemma move_to_top_order:
  assumes "distinct xs" and "x \<in> set xs"
  shows "filter (\<lambda>y. v y \<or> y = x) (move_to_top v x xs) = filter (\<lambda>y. v y \<and> y \<noteq> x) xs @ [x]"
proof -
  obtain a b where xs: "xs = a @ x # b" "x \<notin> set a" using assms(2) split_list_first by fast
  then have b: "x \<notin> set b" using assms(1) by simp
  have "filter (\<lambda>y. v y \<or> y = x) c = filter v c" "filter (\<lambda>y. v y \<and> y \<noteq> x) c = filter v c" if "x \<notin> set c" for c
    using that by (induction c) auto
  moreover have "filter (\<lambda>y. v y \<or> y = x) (filter (\<lambda>y. \<not> v y) b) = []" using b by (auto simp: filter_empty_conv)
  moreover have "filter (\<lambda>y. v y \<or> y = x) (filter v b) = filter v b" by (induction b) auto
  ultimately show ?thesis using xs b by (simp add: move_split(2) [OF xs(2)] del: filter_filter)
qed

lemma move_to_top_twice:
  assumes "distinct xs"
  shows "move_to_top v x (move_to_top v x xs) = move_to_top v x xs"
    and "x \<in> set xs \<Longrightarrow> moved_up v x (move_to_top v x xs) = []"
proof -
  show "x \<in> set xs \<Longrightarrow> moved_up v x (move_to_top v x xs) = []"
  proof -
    assume "x \<in> set xs"
    then obtain a b where xs: "xs = a @ x # b" "x \<notin> set a" using split_list_first by fast
    then have "x \<notin> set (a @ filter v b)" using assms by simp
    from move_split(1) [OF this] show ?thesis by (simp add: xs(1) move_split(2) [OF xs(2)])
  qed
  show "move_to_top v x (move_to_top v x xs) = move_to_top v x xs"
  proof (cases "x \<in> set xs")
    case True
    then obtain a b where xs: "xs = a @ x # b" "x \<notin> set a" using split_list_first by fast
    then have "x \<notin> set (a @ filter v b)" using assms by simp
    from move_split(2) [OF this] show ?thesis by (simp add: xs(1) move_split(2) [OF xs(2)])
  qed (simp add: move_to_top_def)
qed

section \<open>The overlays of the open modal dialogs\<close>

definition page_ok :: "dialog_page \<Rightarrow> bool" where
  "page_ok p \<longleftrightarrow> distinct (stack p) \<and> (\<forall>d. created (dlg p d) = (Dlg d \<in> set (stack p))) \<and>
     (\<forall>d. \<not> created (dlg p d) \<longrightarrow> overlay (dlg p d) = None \<and> \<not> shown_dlg (dlg p d)) \<and>
     (\<forall>d k. overlay (dlg p d) = Some k \<longrightarrow> k < next_overlay p) \<and>
     (\<forall>k. (Overlay k \<in> set (stack p)) = (\<exists>d. overlay (dlg p d) = Some k)) \<and>
     (\<forall>d e k. overlay (dlg p d) = Some k \<longrightarrow> overlay (dlg p e) = Some k \<longrightarrow> d = e)"

definition counters_ok :: "dialog_page \<Rightarrow> bool" where
  "counters_ok p \<longleftrightarrow> overlayInstances p = int (card {k. Overlay k \<in> set (stack p)}) \<and>
     (overlayInstances p = 0 \<longrightarrow> traps p = 0) \<and> (overlayInstances p \<noteq> 0 \<longrightarrow> 0 < timers p + traps p)"

definition dialog_ok :: "dialog \<Rightarrow> bool" where
  "dialog_ok x \<longleftrightarrow> (created x \<longrightarrow> (overlay x \<noteq> None) = (isOpen x \<and> modal x) \<and> shown_dlg x = isOpen x)"

lemma put_dlg_sel [simp]:
  "dlg (put_dlg d f p) = (dlg p)(d := f (dlg p d))" "stack (put_dlg d f p) = stack p"
  "overlayInstances (put_dlg d f p) = overlayInstances p" "timers (put_dlg d f p) = timers p"
  "traps (put_dlg d f p) = traps p" "next_overlay (put_dlg d f p) = next_overlay p"
  "threw (put_dlg d f p) = threw p" "focused (put_dlg d f p) = focused p"
  "elem_visible (put_dlg d f p) = elem_visible p" "triggered (put_dlg d f p) = triggered p"
  by (simp_all add: put_dlg_def)

lemma trigger_dlg_sel [simp]:
  "dlg (trigger_dlg d e p) = dlg p" "stack (trigger_dlg d e p) = stack p"
  "overlayInstances (trigger_dlg d e p) = overlayInstances p" "timers (trigger_dlg d e p) = timers p"
  "traps (trigger_dlg d e p) = traps p" "next_overlay (trigger_dlg d e p) = next_overlay p"
  "threw (trigger_dlg d e p) = threw p" "focused (trigger_dlg d e p) = focused p"
  "elem_visible (trigger_dlg d e p) = elem_visible p"
  by (simp_all add: trigger_dlg_def)

lemma focus_dialog_sel [simp]:
  "dlg (focus_dialog d p) = dlg p" "stack (focus_dialog d p) = stack p"
  "overlayInstances (focus_dialog d p) = overlayInstances p" "timers (focus_dialog d p) = timers p"
  "traps (focus_dialog d p) = traps p" "next_overlay (focus_dialog d p) = next_overlay p"
  "threw (focus_dialog d p) = threw p" "focused (focus_dialog d p) = Inside d"
  "elem_visible (focus_dialog d p) = elem_visible p"
  by (simp_all add: focus_dialog_def)

lemma moveToTop_sel [simp]:
  "dlg (fst (moveToTop d s p)) = dlg p"
  "stack (fst (moveToTop d s p)) = move_to_top (vis p) (Dlg d) (stack p)"
  "overlayInstances (fst (moveToTop d s p)) = overlayInstances p" "timers (fst (moveToTop d s p)) = timers p"
  "traps (fst (moveToTop d s p)) = traps p" "next_overlay (fst (moveToTop d s p)) = next_overlay p"
  "threw (fst (moveToTop d s p)) = threw p" "focused (fst (moveToTop d s p)) = focused p"
  "elem_visible (fst (moveToTop d s p)) = elem_visible p"
  by (simp_all add: moveToTop_def Let_def trigger_dlg_def)

text \<open>What \<open>page_ok\<close> and \<open>counters_ok\<close> depend on.\<close>

lemma page_ok_cong:
  assumes "page_ok p" and "distinct (stack q)" and "set (stack q) = set (stack p)" and "next_overlay q = next_overlay p"
    and "\<And>e. created (dlg q e) = created (dlg p e) \<and> overlay (dlg q e) = overlay (dlg p e)"
    and "\<And>e. \<not> created (dlg q e) \<Longrightarrow> \<not> shown_dlg (dlg q e)"
  shows "page_ok q"
  using assms unfolding page_ok_def by simp

lemma counters_ok_cong:
  assumes "counters_ok p" and "set (stack q) = set (stack p)" and "overlayInstances q = overlayInstances p"
    and "timers q = timers p" and "traps q = traps p"
  shows "counters_ok q"
  using assms by (simp add: counters_ok_def)

lemma page_okI:
  assumes "distinct (stack p)" and "\<And>d. created (dlg p d) = (Dlg d \<in> set (stack p))"
    and "\<And>d. \<not> created (dlg p d) \<Longrightarrow> overlay (dlg p d) = None \<and> \<not> shown_dlg (dlg p d)"
    and "\<And>d k. overlay (dlg p d) = Some k \<Longrightarrow> k < next_overlay p"
    and "\<And>k. (Overlay k \<in> set (stack p)) = (\<exists>d. overlay (dlg p d) = Some k)"
    and "\<And>d e k. overlay (dlg p d) = Some k \<Longrightarrow> overlay (dlg p e) = Some k \<Longrightarrow> d = e"
  shows "page_ok p"
  using assms unfolding page_ok_def by blast

lemma page_okD:
  assumes "page_ok p"
  shows "distinct (stack p)" and "created (dlg p d) = (Dlg d \<in> set (stack p))"
    and "\<not> created (dlg p d) \<Longrightarrow> overlay (dlg p d) = None" and "\<not> created (dlg p d) \<Longrightarrow> \<not> shown_dlg (dlg p d)"
    and "overlay (dlg p d) = Some k \<Longrightarrow> k < next_overlay p"
    and "(Overlay k \<in> set (stack p)) = (\<exists>d. overlay (dlg p d) = Some k)"
    and "overlay (dlg p d) = Some k \<Longrightarrow> overlay (dlg p e) = Some k \<Longrightarrow> d = e"
  using assms unfolding page_ok_def by blast+

lemma finite_overlays [simp]: "finite {k. Overlay k \<in> set xs}"
  by (rule finite_subset [of _ "(\<lambda>x. case x of Overlay k \<Rightarrow> k | _ \<Rightarrow> 0) ` set xs"]) (force simp: image_iff)+

lemma put_dlg_ok:
  assumes "page_ok p" and "created (f (dlg p d)) = created (dlg p d)" and "overlay (f (dlg p d)) = overlay (dlg p d)"
    and "created (dlg p d) \<or> \<not> shown_dlg (f (dlg p d))"
  shows "page_ok (put_dlg d f p)"
  by (rule page_ok_cong [OF assms(1)]) (use assms page_okD [OF assms(1)] in \<open>auto split: if_splits\<close>)

lemma trigger_ok [simp]:
  "page_ok (trigger_dlg d e p) = page_ok p" "counters_ok (trigger_dlg d e p) = counters_ok p"
  "page_ok (focus_dialog d p) = page_ok p" "counters_ok (focus_dialog d p) = counters_ok p"
  "page_ok (p\<lparr>focused := f\<rparr>) = page_ok p" "counters_ok (p\<lparr>focused := f\<rparr>) = counters_ok p"
  "counters_ok (put_dlg d g p) = counters_ok p"
  by (simp_all add: page_ok_def counters_ok_def)

lemma moveToTop_ok:
  "page_ok p \<Longrightarrow> page_ok (fst (moveToTop d s p))" "counters_ok p \<Longrightarrow> counters_ok (fst (moveToTop d s p))"
proof -
  assume ok: "page_ok p"
  show "page_ok (fst (moveToTop d s p))"
    by (rule page_ok_cong [OF ok]) (simp_all add: page_okD [OF ok] move_to_top_distinct)
next
  assume "counters_ok p"
  then show "counters_ok (fst (moveToTop d s p))" by (rule counters_ok_cong) simp_all
qed

lemma createOverlay_sel:
  "dlg (createOverlay d p) =
     (if modal (dlg p d) then (dlg p)(d := (dlg p d)\<lparr>overlay := Some (next_overlay p)\<rparr>) else dlg p)"
  "stack (createOverlay d p) = (if modal (dlg p d) then stack p @ [Overlay (next_overlay p)] else stack p)"
  "threw (createOverlay d p) = threw p" "focused (createOverlay d p) = focused p"
  "elem_visible (createOverlay d p) = elem_visible p"
  by (simp_all add: createOverlay_def Let_def)

lemma overlay_fresh: "page_ok p \<Longrightarrow> Overlay (next_overlay p) \<notin> set (stack p)"
  by (auto simp: page_okD(6) dest: page_okD(5))

lemma owner_added:
  assumes "overlay (f d) = None"
  shows "(\<exists>e. overlay ((f(d := (f d)\<lparr>overlay := Some k\<rparr>)) e) = Some j) = (j = k \<or> (\<exists>e. overlay (f e) = Some j))"
proof
  assume "j = k \<or> (\<exists>e. overlay (f e) = Some j)"
  then show "\<exists>e. overlay ((f(d := (f d)\<lparr>overlay := Some k\<rparr>)) e) = Some j"
  proof
    assume "\<exists>e. overlay (f e) = Some j"
    then obtain e where e: "overlay (f e) = Some j" by blast
    then have "e \<noteq> d" using assms by auto
    then show ?thesis using e by (intro exI [of _ e]) simp
  qed (intro exI [of _ d], simp)
qed (auto split: if_splits)

lemma createOverlay_ok:
  assumes ok: "page_ok p" and "counters_ok p" and "created (dlg p d)" and "overlay (dlg p d) = None"
  shows "page_ok (createOverlay d p)" and "counters_ok (createOverlay d p)"
proof -
  let ?k = "next_overlay p"
  note fresh = overlay_fresh [OF ok]
  show "page_ok (createOverlay d p)"
  proof (cases "modal (dlg p d)")
    case True
    have below: "overlay (dlg p e) = Some j \<Longrightarrow> j < ?k" for e j using page_okD(5) [OF ok] .
    have "\<not> created (dlg p e) \<Longrightarrow> e \<noteq> d" for e using assms(3) by auto
    moreover have "(Overlay j \<in> set (stack p @ [Overlay ?k])) =
        (\<exists>e. overlay (((dlg p)(d := (dlg p d)\<lparr>overlay := Some ?k\<rparr>)) e) = Some j)" for j
      using owner_added [of "dlg p" d ?k j, OF assms(4)] page_okD(6) [OF ok, of j] by auto
    moreover have "j = ?k \<Longrightarrow> overlay (dlg p e) \<noteq> Some j" for e j using below by blast
    ultimately show ?thesis
      using True fresh page_okD(1-5) [OF ok] page_okD(7) [OF ok] below
      unfolding page_ok_def createOverlay_sel by (auto simp: createOverlay_def Let_def less_SucI split: if_splits)
  qed (simp add: createOverlay_def ok)
  have "{j. j = ?k \<or> Overlay j \<in> set (stack p)} = insert ?k {j. Overlay j \<in> set (stack p)}" by auto
  then have "card {j. j = ?k \<or> Overlay j \<in> set (stack p)} = Suc (card {j. Overlay j \<in> set (stack p)})"
    using fresh by simp
  then show "counters_ok (createOverlay d p)"
    using assms(2) by (auto simp: counters_ok_def createOverlay_def Let_def disj_commute)
qed

lemma destroyOverlay_sel:
  "dlg (destroyOverlay d p) = (if modal (dlg p d) then (dlg p)(d := (dlg p d)\<lparr>overlay := None\<rparr>) else dlg p)"
  "stack (destroyOverlay d p) =
     (case overlay (dlg p d) of Some k \<Rightarrow> if modal (dlg p d) then filter (\<lambda>x. x \<noteq> Overlay k) (stack p) else stack p
      | None \<Rightarrow> stack p)"
  "threw (destroyOverlay d p) = threw p" "focused (destroyOverlay d p) = focused p"
  "elem_visible (destroyOverlay d p) = elem_visible p" "next_overlay (destroyOverlay d p) = next_overlay p"
  by (auto simp: destroyOverlay_def Let_def fun_eq_iff split: option.split)

lemma destroyOverlay_ok:
  assumes ok: "page_ok p" and "counters_ok p"
  shows "page_ok (destroyOverlay d p)" and "counters_ok (destroyOverlay d p)"
proof -
  consider "destroyOverlay d p = p" | k where "modal (dlg p d)" "overlay (dlg p d) = Some k"
    by (cases "modal (dlg p d)"; cases "overlay (dlg p d)") (auto simp: destroyOverlay_def)
  then have "page_ok (destroyOverlay d p) \<and> counters_ok (destroyOverlay d p)"
  proof cases
    case 1
    then show ?thesis using assms by simp
  next
    case (2 k)
    have owner: "overlay (dlg p e) = Some k \<Longrightarrow> e = d" for e using page_okD(7) [OF ok 2(2), of e] by simp
    have mem: "Overlay k \<in> set (stack p)" using page_okD(6) [OF ok, of k] 2(2) by blast
    let ?f = "(dlg p)(d := (dlg p d)\<lparr>overlay := None\<rparr>)"
    have "(\<exists>e. overlay (?f e) = Some j) = (j \<noteq> k \<and> (\<exists>e. overlay (dlg p e) = Some j))" for j
    proof
      assume "\<exists>e. overlay (?f e) = Some j"
      then obtain e where "e \<noteq> d" "overlay (dlg p e) = Some j" by (auto split: if_splits)
      then show "j \<noteq> k \<and> (\<exists>e. overlay (dlg p e) = Some j)" using owner by blast
    next
      assume "j \<noteq> k \<and> (\<exists>e. overlay (dlg p e) = Some j)"
      then obtain e where e: "overlay (dlg p e) = Some j" "j \<noteq> k" by blast
      then have "e \<noteq> d" using 2(2) by auto
      then show "\<exists>e. overlay (?f e) = Some j" using e by (intro exI [of _ e]) simp
    qed
    then have owners: "(Overlay j \<in> set (filter (\<lambda>x. x \<noteq> Overlay k) (stack p))) = (\<exists>e. overlay (?f e) = Some j)" for j
      using page_okD(6) [OF ok, of j] by (simp only: set_filter mem_Collect_eq item.inject) blast
    have f: "created (?f e) = created (dlg p e)" "shown_dlg (?f e) = shown_dlg (dlg p e)"
      "overlay (?f e) = Some j \<Longrightarrow> overlay (dlg p e) = Some j" "overlay (dlg p e) = None \<Longrightarrow> overlay (?f e) = None"
      for e j by (auto split: if_splits)
    have sel: "dlg (destroyOverlay d p) = ?f" "stack (destroyOverlay d p) = filter (\<lambda>x. x \<noteq> Overlay k) (stack p)"
      using 2 by (simp_all add: destroyOverlay_sel)
    have "page_ok (destroyOverlay d p)"
    proof (rule page_okI, unfold sel destroyOverlay_sel(6) f)
      show "(Overlay j \<in> set (filter (\<lambda>x. x \<noteq> Overlay k) (stack p))) = (\<exists>e. overlay (?f e) = Some j)" for j
        by (rule owners)
      show "i = j" if "overlay (?f i) = Some m" "overlay (?f j) = Some m" for i j m
        using page_okD(7) [OF ok f(3) f(3)] that by blast
      show "j < next_overlay p" if "overlay (?f e) = Some j" for e j
        using page_okD(5) [OF ok f(3)] that by blast
      show "overlay (?f e) = None \<and> \<not> shown_dlg (dlg p e)" if "\<not> created (dlg p e)" for e
        using page_okD(3,4) [OF ok that] f(4) by blast
    qed (use page_okD(1,2) [OF ok] in simp_all)
    moreover have "{j. Overlay j \<in> set (stack p) \<and> j \<noteq> k} = {j. Overlay j \<in> set (stack p)} - {k}" by auto
    then have "card {j. Overlay j \<in> set (stack p) \<and> j \<noteq> k} = card {j. Overlay j \<in> set (stack p)} - 1" using mem by simp
    moreover have "card {j. Overlay j \<in> set (stack p)} > 0" using mem by (auto simp: card_gt_0_iff)
    ultimately show ?thesis
      using assms(2) 2 by (auto simp: counters_ok_def destroyOverlay_def Let_def)
  qed
  then show "page_ok (destroyOverlay d p)" and "counters_ok (destroyOverlay d p)" by simp_all
qed

definition dialogs_inv :: "dialog_page \<Rightarrow> bool" where
  "dialogs_inv p \<longleftrightarrow> page_ok p \<and> counters_ok p \<and> (\<forall>d. dialog_ok (dlg p d)) \<and> threw p = 0"

lemma dialogs_invI:
  assumes "page_ok p" and "counters_ok p" and "\<And>d. dialog_ok (dlg p d)" and "threw p = 0"
  shows "dialogs_inv p"
  using assms by (simp add: dialogs_inv_def)

lemma dialogs_invD:
  assumes "dialogs_inv p"
  shows "page_ok p" and "counters_ok p" and "dialog_ok (dlg p d)" and "threw p = 0"
  using assms by (simp_all add: dialogs_inv_def)

lemma inv_fresh: "distinct es \<Longrightarrow> dialogs_inv (fresh_dialogs ev es)"
  by (simp add: dialogs_inv_def page_ok_def counters_ok_def dialog_ok_def fresh_dialogs_def image_iff distinct_map inj_on_def)

lemma inv_create:
  assumes "dialogs_inv p" and "\<not> created (dlg p d)"
  shows "dialogs_inv (dialog_create d m p)"
proof (rule dialogs_invI)
  note ok = dialogs_invD(1) [OF assms(1)]
  let ?x = "\<lparr>created = True, isOpen = False, modal = m, overlay = None, shown_dlg = False, opener = Body\<rparr>"
  let ?f = "(dlg p)(d := ?x)"
  have sel: "dlg (dialog_create d m p) = ?f" "stack (dialog_create d m p) = stack p @ [Dlg d]"
    "next_overlay (dialog_create d m p) = next_overlay p"
    by (simp_all add: dialog_create_def)
  have same: "overlay (?f e) = overlay (dlg p e)" for e using page_okD(3) [OF ok assms(2)] by simp
  show "page_ok (dialog_create d m p)"
  proof (rule page_okI, unfold sel same)
    show "distinct (stack p @ [Dlg d])" using page_okD(1,2) [OF ok] assms(2) by simp
    show "created (?f e) = (Dlg e \<in> set (stack p @ [Dlg d]))" for e using page_okD(2) [OF ok] by simp
    show "overlay (dlg p e) = None \<and> \<not> shown_dlg (?f e)" if "\<not> created (?f e)" for e
      using that page_okD(3,4) [OF ok, of e] by (simp split: if_splits)
    show "(Overlay k \<in> set (stack p @ [Dlg d])) = (\<exists>e. overlay (dlg p e) = Some k)" for k
      using page_okD(6) [OF ok] by simp
  qed (use page_okD(5,7) [OF ok] in blast)+
  show "counters_ok (dialog_create d m p)"
    using dialogs_invD(2) [OF assms(1)] by (simp add: counters_ok_def dialog_create_def)
  show "dialog_ok (dlg (dialog_create d m p) e)" for e
    using dialogs_invD(3) [OF assms(1)] by (simp add: sel dialog_ok_def)
  show "threw (dialog_create d m p) = 0" using dialogs_invD(4) [OF assms(1)] by (simp add: dialog_create_def)
qed

lemma raise_sel [simp]:
  "dlg (raise_dialog d p) = dlg p" "threw (raise_dialog d p) = threw p"
  "stack (raise_dialog d p) = move_to_top (vis p) (Dlg d) (stack p)"
  by (simp_all add: raise_dialog_def Let_def)

lemma inv_top: "dialogs_inv p \<Longrightarrow> dialogs_inv (fst (moveToTop d s p))"
  by (rule dialogs_invI) (simp_all add: dialogs_invD moveToTop_ok)

lemma inv_raise: "dialogs_inv p \<Longrightarrow> dialogs_inv (raise_dialog d p)"
  using inv_top [of p d False] by (auto simp: raise_dialog_def Let_def dialogs_inv_def)

text \<open>Opening in one equation: what it does to the dialogs, and the raised stack.\<close>

definition opened :: "nat \<Rightarrow> dialog_page \<Rightarrow> dialog_page" where
  "opened d p = createOverlay d (put_dlg d (\<lambda>x. x\<lparr>isOpen := True, opener := focused p\<rparr>) p)"

lemma dialog_open_eq:
  "\<not> isOpen (dlg p d) \<Longrightarrow> dialog_open d p = trigger_dlg d ''open'' (trigger_dlg d ''focus'' (focus_dialog d
     (put_dlg d (\<lambda>x. x\<lparr>shown_dlg := True\<rparr>) (fst (moveToTop d True (opened d p))))))"
  by (simp add: dialog_open_def opened_def Let_def)

lemma inv_open:
  assumes "dialogs_inv p" and "created (dlg p d)"
  shows "dialogs_inv (dialog_open d p)"
proof (cases "isOpen (dlg p d)")
  case True
  then show ?thesis using inv_raise [OF assms(1)] by (simp add: dialog_open_def)
next
  case False
  let ?p1 = "put_dlg d (\<lambda>x. x\<lparr>isOpen := True, opener := focused p\<rparr>) p"
  have none: "overlay (dlg p d) = None" using dialogs_invD(3) [OF assms(1), of d] False assms(2)
    by (cases "overlay (dlg p d)") (simp_all add: dialog_ok_def)
  have p1: "page_ok ?p1" "counters_ok ?p1"
    using dialogs_invD(1,2) [OF assms(1)] assms(2) by (auto intro: put_dlg_ok)
  have "page_ok (opened d p)" "counters_ok (opened d p)"
    unfolding opened_def using createOverlay_ok [OF p1] assms(2) none by simp_all
  then have ok: "page_ok (fst (moveToTop d True (opened d p)))" "counters_ok (fst (moveToTop d True (opened d p)))"
    by (simp_all add: moveToTop_ok)
  show ?thesis unfolding dialog_open_eq [OF False]
  proof (rule dialogs_invI)
    show "page_ok (trigger_dlg d ''open'' (trigger_dlg d ''focus'' (focus_dialog d
        (put_dlg d (\<lambda>x. x\<lparr>shown_dlg := True\<rparr>) (fst (moveToTop d True (opened d p)))))))"
      using put_dlg_ok [OF ok(1)] assms(2) by (simp add: opened_def createOverlay_sel)
    show "dialog_ok (dlg (trigger_dlg d ''open'' (trigger_dlg d ''focus'' (focus_dialog d
        (put_dlg d (\<lambda>x. x\<lparr>shown_dlg := True\<rparr>) (fst (moveToTop d True (opened d p))))))) e)" for e
      using dialogs_invD(3) [OF assms(1), of e] none
      by (cases "e = d") (auto simp: opened_def createOverlay_sel dialog_ok_def)
  qed (use ok dialogs_invD(4) [OF assms(1)] in \<open>simp_all add: opened_def createOverlay_sel\<close>)
qed

text \<open>Focusing changes nothing but the focus, unless the handler finds no dialog that is shown.\<close>

lemma focus_in_sel [simp]:
  "dlg (focus_in f p) = dlg p" "stack (focus_in f p) = stack p"
  "overlayInstances (focus_in f p) = overlayInstances p" "timers (focus_in f p) = timers p"
  "traps (focus_in f p) = traps p" "next_overlay (focus_in f p) = next_overlay p"
  "elem_visible (focus_in f p) = elem_visible p"
  by (simp_all add: focus_in_def Let_def)

lemma refocus_sel [simp]:
  "dlg (refocus cf f p) = dlg p" "stack (refocus cf f p) = stack p"
  "overlayInstances (refocus cf f p) = overlayInstances p" "timers (refocus cf f p) = timers p"
  "traps (refocus cf f p) = traps p" "next_overlay (refocus cf f p) = next_overlay p"
  "elem_visible (refocus cf f p) = elem_visible p"
  by (simp_all add: refocus_def)

lemma refocus_ok [simp]:
  "page_ok (refocus cf f p) = page_ok p" "counters_ok (refocus cf f p) = counters_ok p"
  by (simp_all add: page_ok_def counters_ok_def)

lemma shown_dialogs_member: "d \<in> set (shown_dialogs p) \<longleftrightarrow> Dlg d \<in> set (stack p) \<and> shown_dlg (dlg p d)"
  by (auto simp: shown_dialogs_def split: item.splits if_splits intro!: bexI [of _ "Dlg d"])

lemma refocus_threw:
  assumes "Dlg d \<in> set (stack p)" and "shown_dlg (dlg p d)"
  shows "threw (refocus cf f p) = threw p"
proof -
  have "shown_dialogs p \<noteq> []" using assms shown_dialogs_member [of d p] by auto
  then show ?thesis by (simp add: refocus_def focus_in_def Let_def)
qed

lemma dialog_close_eq:
  assumes "isOpen (dlg p d)"
  shows "dialog_close cf d True p = trigger_dlg d ''close'' (put_dlg d (\<lambda>x. x\<lparr>shown_dlg := False\<rparr>)
    (refocus cf (opener (dlg p d)) (destroyOverlay d (put_dlg d (\<lambda>x. x\<lparr>isOpen := False\<rparr>) (trigger_dlg d ''beforeClose'' p)))))"
  using assms by (simp add: dialog_close_def Let_def destroyOverlay_sel)

lemma inv_close:
  assumes "dialogs_inv p" and "created (dlg p d)"
  shows "dialogs_inv (dialog_close cf d ok p)"
proof (cases "isOpen (dlg p d) \<and> ok")
  case False
  then show ?thesis using assms(1) by (auto simp: dialog_close_def dialogs_inv_def)
next
  case True
  let ?p1 = "put_dlg d (\<lambda>x. x\<lparr>isOpen := False\<rparr>) (trigger_dlg d ''beforeClose'' p)"
  let ?p2 = "destroyOverlay d ?p1"
  let ?q = "trigger_dlg d ''close'' (put_dlg d (\<lambda>x. x\<lparr>shown_dlg := False\<rparr>) (refocus cf (opener (dlg p d)) ?p2))"
  have "page_ok ?p1" "counters_ok ?p1"
    using dialogs_invD(1,2) [OF assms(1)] assms(2) by (auto intro: put_dlg_ok)
  note ok = destroyOverlay_ok [OF this, of d]
  have d: "Dlg d \<in> set (stack ?p2)" "shown_dlg (dlg ?p2 d)"
    using page_okD(2) [OF dialogs_invD(1) [OF assms(1)], of d] dialogs_invD(3) [OF assms(1), of d] assms(2) True
    by (auto simp: destroyOverlay_sel dialog_ok_def split: option.split)
  have "dialog_close cf d ok p = ?q" using True dialog_close_eq [of p d cf] by simp
  moreover have "dialogs_inv ?q"
  proof (rule dialogs_invI)
    show "dialog_ok (dlg ?q e)" for e
      using dialogs_invD(3) [OF assms(1), of e] by (cases "e = d") (auto simp: destroyOverlay_sel dialog_ok_def)
    show "threw ?q = 0"
      using refocus_threw [OF d] dialogs_invD(4) [OF assms(1)] by (simp add: destroyOverlay_sel)
    show "page_ok ?q" using ok(1) by (auto intro!: put_dlg_ok)
    show "counters_ok ?q" using ok(2) by simp
  qed
  ultimately show ?thesis by simp
qed

lemma inv_modal:
  assumes "dialogs_inv p" and "\<not> isOpen (dlg p d)"
  shows "dialogs_inv (put_dlg d (\<lambda>x. x\<lparr>modal := m\<rparr>) p)"
proof (rule dialogs_invI)
  show "page_ok (put_dlg d (\<lambda>x. x\<lparr>modal := m\<rparr>) p)"
    using dialogs_invD(1) [OF assms(1)] page_okD(4) [OF dialogs_invD(1) [OF assms(1)], of d]
    by (intro put_dlg_ok) auto
  show "dialog_ok (dlg (put_dlg d (\<lambda>x. x\<lparr>modal := m\<rparr>) p) e)" for e
    using dialogs_invD(3) [OF assms(1), of e] assms(2) by (auto simp: dialog_ok_def)
qed (use assms(1) in \<open>simp_all add: dialogs_invD\<close>)

lemma inv_destroy:
  assumes "dialogs_inv p" and "created (dlg p d)"
  shows "dialogs_inv (dialog_destroy d p)"
proof -
  let ?q = "destroyOverlay d p"
  let ?r = "dialog_destroy d p"
  note ok = destroyOverlay_ok [OF dialogs_invD(1,2) [OF assms(1)], of d]
  have d: "overlay (dlg ?q d) = None"
    using dialogs_invD(3) [OF assms(1), of d] assms(2) by (auto simp: destroyOverlay_sel dialog_ok_def)
  let ?f = "(dlg ?q)(d := (dlg ?q d)\<lparr>created := False, shown_dlg := False\<rparr>)"
  have sel: "dlg ?r = ?f" "stack ?r = filter (\<lambda>x. x \<noteq> Dlg d) (stack ?q)" "next_overlay ?r = next_overlay ?q"
    "overlayInstances ?r = overlayInstances ?q" "timers ?r = timers ?q" "traps ?r = traps ?q" "threw ?r = threw p"
    by (simp_all add: dialog_destroy_def Let_def destroyOverlay_sel)
  have same: "overlay (?f e) = overlay (dlg ?q e)" for e by simp
  show ?thesis
  proof (rule dialogs_invI)
    show "page_ok ?r"
    proof (rule page_okI, unfold sel same)
      show "created (?f e) = (Dlg e \<in> set (filter (\<lambda>x. x \<noteq> Dlg d) (stack ?q)))" for e
        using page_okD(2) [OF ok(1)] by simp
      show "overlay (dlg ?q e) = None \<and> \<not> shown_dlg (?f e)" if "\<not> created (?f e)" for e
        using that d page_okD(3,4) [OF ok(1), of e] by (simp split: if_splits)
      show "(Overlay k \<in> set (filter (\<lambda>x. x \<noteq> Dlg d) (stack ?q))) = (\<exists>e. overlay (dlg ?q e) = Some k)" for k
        using page_okD(6) [OF ok(1)] by simp
    qed (use page_okD(1,5,7) [OF ok(1)] in \<open>simp, blast, blast\<close>)
    show "counters_ok ?r" using ok(2) by (simp add: counters_ok_def sel)
    show "dialog_ok (dlg ?r e)" for e
      using dialogs_invD(3) [OF assms(1), of e] by (auto simp: sel dialog_ok_def destroyOverlay_sel)
  qed (simp add: sel dialogs_invD(4) [OF assms(1)])
qed

lemma inv_delay: "dialogs_inv p \<Longrightarrow> dialogs_inv (delay_over p)"
  by (auto simp: dialogs_inv_def page_ok_def counters_ok_def delay_over_def)

lemma overlay_shown:
  assumes "dialogs_inv p" and "overlayInstances p \<noteq> 0"
  shows "shown_dialogs p \<noteq> []"
proof -
  have "card {k. Overlay k \<in> set (stack p)} \<noteq> 0"
    using assms dialogs_invD(2) [OF assms(1)] by (simp add: counters_ok_def)
  then obtain k where "Overlay k \<in> set (stack p)" by (auto simp: card_eq_0_iff)
  then obtain d where "overlay (dlg p d) = Some k" using page_okD(6) [OF dialogs_invD(1) [OF assms(1)]] by blast
  moreover from this have "created (dlg p d)" using page_okD(3) [OF dialogs_invD(1) [OF assms(1)], of d] by auto
  ultimately have "shown_dlg (dlg p d)" "Dlg d \<in> set (stack p)"
    using dialogs_invD(3) [OF assms(1), of d] page_okD(2) [OF dialogs_invD(1) [OF assms(1)], of d]
    by (auto simp: dialog_ok_def)
  then show ?thesis by (auto simp: shown_dialogs_def intro!: bexI [of _ "Dlg d"])
qed

lemma inv_focus: "dialogs_inv p \<Longrightarrow> dialogs_inv (focus_in f p)"
proof -
  assume inv: "dialogs_inv p"
  have "traps p \<noteq> 0 \<Longrightarrow> shown_dialogs p \<noteq> []"
    using overlay_shown [OF inv] dialogs_invD(2) [OF inv] by (auto simp: counters_ok_def)
  then have "focus_in f p = p\<lparr>focused := f\<rparr> \<or> (\<exists>d. focus_in f p = focus_dialog d (p\<lparr>focused := f\<rparr>))"
    by (auto simp: focus_in_def Let_def)
  then show ?thesis using inv by (auto simp: dialogs_inv_def)
qed

lemma reachable_inv: "reachable cf p \<Longrightarrow> dialogs_inv p"
proof (induction rule: reachable.induct)
  case (step p i)
  then show ?case
    by (cases i) (simp_all add: inv_create inv_open inv_close inv_raise inv_top inv_modal inv_destroy inv_delay inv_focus)
qed (rule inv_fresh)

lemma reachable_reached: "reachable cf p \<Longrightarrow> reached cf p"
  by (induction rule: reachable.induct) (auto intro: reached.intros)

text \<open>The counter of a page without leaked overlays is the number of the open modal dialogs.\<close>

lemma open_modal_card:
  assumes "dialogs_inv p"
  shows "card {k. Overlay k \<in> set (stack p)} = card {d. created (dlg p d) \<and> isOpen (dlg p d) \<and> modal (dlg p d)}"
proof -
  note ok = dialogs_invD(1) [OF assms]
  have owners: "{d. created (dlg p d) \<and> isOpen (dlg p d) \<and> modal (dlg p d)} = {d. overlay (dlg p d) \<noteq> None}"
  proof (rule Collect_cong)
    show "(created (dlg p d) \<and> isOpen (dlg p d) \<and> modal (dlg p d)) = (overlay (dlg p d) \<noteq> None)" for d
      using dialogs_invD(3) [OF assms, of d] page_okD(3) [OF ok, of d] by (cases "created (dlg p d)") (auto simp: dialog_ok_def)
  qed
  have "bij_betw (\<lambda>d. the (overlay (dlg p d))) {d. overlay (dlg p d) \<noteq> None} {k. Overlay k \<in> set (stack p)}"
  proof (rule bij_betw_imageI)
    show "inj_on (\<lambda>d. the (overlay (dlg p d))) {d. overlay (dlg p d) \<noteq> None}"
      by (rule inj_onI) (use page_okD(7) [OF ok] in auto)
    show "(\<lambda>d. the (overlay (dlg p d))) ` {d. overlay (dlg p d) \<noteq> None} = {k. Overlay k \<in> set (stack p)}"
      by (force simp: page_okD(6) [OF ok])
  qed
  then show ?thesis unfolding owners by (rule bij_betw_same_card [symmetric])
qed

subsection \<open>Whatever happens to the option \<open>modal\<close>\<close>

text \<open>
  An overlay may then be left without a dialog that knows it, but the counter still counts the overlays.
\<close>

definition overlays_counted :: "dialog_page \<Rightarrow> bool" where
  "overlays_counted p \<longleftrightarrow> distinct (stack p) \<and> (\<forall>d. Dlg d \<in> set (stack p) \<longrightarrow> created (dlg p d)) \<and>
     (\<forall>k. Overlay k \<in> set (stack p) \<longrightarrow> k < next_overlay p) \<and>
     (\<forall>d k. overlay (dlg p d) = Some k \<longrightarrow> Overlay k \<in> set (stack p)) \<and>
     (\<forall>d e k. overlay (dlg p d) = Some k \<longrightarrow> overlay (dlg p e) = Some k \<longrightarrow> d = e) \<and> counters_ok p"

lemma overlays_countedD:
  assumes "overlays_counted p"
  shows "distinct (stack p)" and "Dlg d \<in> set (stack p) \<Longrightarrow> created (dlg p d)"
    and "Overlay k \<in> set (stack p) \<Longrightarrow> k < next_overlay p"
    and "overlay (dlg p d) = Some k \<Longrightarrow> Overlay k \<in> set (stack p)"
    and "overlay (dlg p d) = Some k \<Longrightarrow> overlay (dlg p e) = Some k \<Longrightarrow> d = e" and "counters_ok p"
  using assms unfolding overlays_counted_def by blast+

lemma overlays_countedI:
  assumes "distinct (stack p)" and "\<And>d. Dlg d \<in> set (stack p) \<Longrightarrow> created (dlg p d)"
    and "\<And>k. Overlay k \<in> set (stack p) \<Longrightarrow> k < next_overlay p"
    and "\<And>d k. overlay (dlg p d) = Some k \<Longrightarrow> Overlay k \<in> set (stack p)"
    and "\<And>d e k. overlay (dlg p d) = Some k \<Longrightarrow> overlay (dlg p e) = Some k \<Longrightarrow> d = e" and "counters_ok p"
  shows "overlays_counted p"
  using assms unfolding overlays_counted_def by blast

lemma overlays_counted_cong:
  assumes "overlays_counted p" and "distinct (stack q)" and "set (stack q) = set (stack p)" and "next_overlay q = next_overlay p"
    and "\<And>e. created (dlg q e) = created (dlg p e) \<and> overlay (dlg q e) = overlay (dlg p e)" and "counters_ok q"
  shows "overlays_counted q"
  using assms unfolding overlays_counted_def by simp

lemma overlays_counted_put:
  assumes "overlays_counted p" and "created (f (dlg p d)) = created (dlg p d)" and "overlay (f (dlg p d)) = overlay (dlg p d)"
  shows "overlays_counted (put_dlg d f p)"
  by (rule overlays_counted_cong [OF assms(1)]) (use assms(2,3) overlays_countedD(1,6) [OF assms(1)] in simp_all)

lemma overlays_counted_simps [simp]:
  "overlays_counted (trigger_dlg d e p) = overlays_counted p" "overlays_counted (focus_dialog d p) = overlays_counted p"
  "overlays_counted (p\<lparr>focused := f\<rparr>) = overlays_counted p" "overlays_counted (refocus cf f p) = overlays_counted p" "overlays_counted (focus_in f p) = overlays_counted p"
  by (simp_all add: overlays_counted_def counters_ok_def)

lemma overlays_counted_top:
  assumes "overlays_counted p"
  shows "overlays_counted (fst (moveToTop d s p))"
  by (rule overlays_counted_cong [OF assms])
    (use overlays_countedD(1,6) [OF assms] in \<open>simp_all add: move_to_top_distinct moveToTop_ok\<close>)

lemma overlays_counted_raise: "overlays_counted p \<Longrightarrow> overlays_counted (raise_dialog d p)"
  using overlays_counted_top [of p d False] by (simp add: raise_dialog_def Let_def)

lemma overlays_counted_createOverlay:
  assumes "overlays_counted p"
  shows "overlays_counted (createOverlay d p)"
proof (cases "modal (dlg p d)")
  case True
  let ?k = "next_overlay p"
  have fresh: "Overlay ?k \<notin> set (stack p)" using overlays_countedD(3) [OF assms, of ?k] by auto
  have other: "overlay (dlg p e) \<noteq> Some ?k" for e using overlays_countedD(4) [OF assms, of e ?k] fresh by auto
  have sel: "dlg (createOverlay d p) = (dlg p)(d := (dlg p d)\<lparr>overlay := Some ?k\<rparr>)"
    "stack (createOverlay d p) = stack p @ [Overlay ?k]" "next_overlay (createOverlay d p) = Suc ?k"
    "overlayInstances (createOverlay d p) = overlayInstances p + 1" "traps (createOverlay d p) = traps p"
    "timers (createOverlay d p) = (if overlayInstances p = 0 then Suc (timers p) else timers p)"
    using True by (simp_all add: createOverlay_def Let_def)
  show ?thesis
  proof (rule overlays_countedI)
    have "{j. Overlay j \<in> set (stack (createOverlay d p))} = insert ?k {j. Overlay j \<in> set (stack p)}"
      by (auto simp: sel(2))
    then have "card {j. Overlay j \<in> set (stack (createOverlay d p))} = Suc (card {j. Overlay j \<in> set (stack p)})"
      using fresh by simp
    then show "counters_ok (createOverlay d p)"
      using overlays_countedD(6) [OF assms] unfolding counters_ok_def by (auto simp: sel(4-6))
  next
    show "created (dlg (createOverlay d p) e)" if "Dlg e \<in> set (stack (createOverlay d p))" for e
      using that overlays_countedD(2) [OF assms, of e] overlays_countedD(2) [OF assms, of d] by (auto simp: sel)
    show "j < next_overlay (createOverlay d p)" if "Overlay j \<in> set (stack (createOverlay d p))" for j
      using that overlays_countedD(3) [OF assms, of j] by (auto simp: sel less_Suc_eq)
    show "Overlay j \<in> set (stack (createOverlay d p))" if "overlay (dlg (createOverlay d p) e) = Some j" for e j
      using that overlays_countedD(4) [OF assms, of e j] by (auto simp: sel split: if_splits)
    show "i = j" if "overlay (dlg (createOverlay d p) i) = Some m" "overlay (dlg (createOverlay d p) j) = Some m" for i j m
      using that overlays_countedD(5) [OF assms, of i m j] other by (auto simp: sel split: if_splits)
  qed (use overlays_countedD(1) [OF assms] fresh in \<open>simp add: sel\<close>)
qed (use assms in \<open>simp add: createOverlay_def\<close>)

lemma overlays_counted_destroyOverlay:
  assumes "overlays_counted p"
  shows "overlays_counted (destroyOverlay d p)"
proof (cases "overlay (dlg p d)")
  case (Some k)
  show ?thesis
  proof (cases "modal (dlg p d)")
    case True
    let ?f = "(dlg p)(d := (dlg p d)\<lparr>overlay := None\<rparr>)"
    have sel: "dlg (destroyOverlay d p) = ?f" "stack (destroyOverlay d p) = filter (\<lambda>x. x \<noteq> Overlay k) (stack p)"
      "next_overlay (destroyOverlay d p) = next_overlay p" "overlayInstances (destroyOverlay d p) = overlayInstances p - 1"
      "timers (destroyOverlay d p) = timers p"
      "traps (destroyOverlay d p) = (if overlayInstances p = 1 then 0 else traps p)"
      using True Some by (simp_all add: destroyOverlay_def Let_def)
    have mem: "Overlay k \<in> set (stack p)" using overlays_countedD(4) [OF assms Some] .
    show ?thesis
    proof (rule overlays_countedI)
      have "{j. Overlay j \<in> set (stack (destroyOverlay d p))} = {j. Overlay j \<in> set (stack p)} - {k}"
        by (auto simp: sel(2))
      then have "card {j. Overlay j \<in> set (stack (destroyOverlay d p))} = card {j. Overlay j \<in> set (stack p)} - 1"
        using mem by simp
      moreover have "card {j. Overlay j \<in> set (stack p)} > 0" using mem by (auto simp: card_gt_0_iff)
      ultimately show "counters_ok (destroyOverlay d p)"
        using overlays_countedD(6) [OF assms] unfolding counters_ok_def by (auto simp: sel(4-6))
    next
      show "created (dlg (destroyOverlay d p) e)" if "Dlg e \<in> set (stack (destroyOverlay d p))" for e
        using that overlays_countedD(2) [OF assms, of e] by (auto simp: sel)
      show "Overlay j \<in> set (stack (destroyOverlay d p))" if "overlay (dlg (destroyOverlay d p) e) = Some j" for e j
        using that overlays_countedD(4) [OF assms, of e j] overlays_countedD(5) [OF assms Some, of e] by (auto simp: sel split: if_splits)
      show "i = j" if "overlay (dlg (destroyOverlay d p) i) = Some m" "overlay (dlg (destroyOverlay d p) j) = Some m" for i j m
        using that overlays_countedD(5) [OF assms, of i m j] by (auto simp: sel split: if_splits)
    qed (use overlays_countedD(1,3) [OF assms] in \<open>auto simp: sel\<close>)
  qed (use assms in \<open>simp add: destroyOverlay_def\<close>)
qed (use assms in \<open>simp add: destroyOverlay_def\<close>)

lemma overlays_counted_open: "overlays_counted p \<Longrightarrow> overlays_counted (dialog_open d p)"
  by (auto simp: dialog_open_def Let_def intro!: overlays_counted_raise overlays_counted_put overlays_counted_top overlays_counted_createOverlay)

lemma overlays_counted_close: "overlays_counted p \<Longrightarrow> overlays_counted (dialog_close cf d ok p)"
  by (auto simp: dialog_close_def Let_def intro!: overlays_counted_put overlays_counted_destroyOverlay)

lemma overlays_counted_destroy:
  assumes "overlays_counted p"
  shows "overlays_counted (dialog_destroy d p)"
proof -
  let ?q = "destroyOverlay d p"
  note q = overlays_countedD [OF overlays_counted_destroyOverlay [OF assms, of d]]
  have sel: "dlg (dialog_destroy d p) = (dlg ?q)(d := (dlg ?q d)\<lparr>created := False, shown_dlg := False\<rparr>)"
    "stack (dialog_destroy d p) = filter (\<lambda>x. x \<noteq> Dlg d) (stack ?q)"
    "next_overlay (dialog_destroy d p) = next_overlay ?q"
    by (simp_all add: dialog_destroy_def Let_def)
  have "counters_ok (dialog_destroy d p)"
    using q(6) by (simp add: counters_ok_def dialog_destroy_def Let_def)
  then show ?thesis
    by (intro overlays_countedI) (use q(1-5) in \<open>auto simp: sel split: if_splits\<close>)
qed

lemma overlays_counted_create:
  assumes "overlays_counted p" and "\<not> created (dlg p d)"
  shows "overlays_counted (dialog_create d m p)"
proof -
  have "Dlg d \<notin> set (stack p)" using overlays_countedD(2) [OF assms(1), of d] assms(2) by blast
  moreover have "counters_ok (dialog_create d m p)"
    using overlays_countedD(6) [OF assms(1)] by (simp add: counters_ok_def dialog_create_def)
  ultimately show ?thesis
    by (intro overlays_countedI) (use overlays_countedD(1-5) [OF assms(1)] in \<open>auto simp: dialog_create_def split: if_splits\<close>)
qed

lemma reached_overlays_counted: "reached cf p \<Longrightarrow> overlays_counted p"
proof (induction rule: reached.induct)
  case (reached_start es ev)
  then show ?case
    by (intro overlays_countedI)
      (auto simp: fresh_dialogs_def counters_ok_def distinct_map inj_on_def image_iff)
next
  case (reached_step p i)
  then have p: "overlays_counted p" "can_happen p i" by simp_all
  show ?case
  proof (cases i)
    case Delay_over
    have "counters_ok (delay_over p)" using overlays_countedD(6) [OF p(1)] by (auto simp: counters_ok_def delay_over_def)
    then show ?thesis unfolding Delay_over using overlays_counted_cong [OF p(1), of "delay_over p"] overlays_countedD(1) [OF p(1)]
      by (simp add: delay_over_def)
  qed (use p in \<open>simp_all add: overlays_counted_create overlays_counted_open overlays_counted_close overlays_counted_raise overlays_counted_top overlays_counted_put overlays_counted_destroy\<close>)
qed

text \<open>
  C6: Whatever is opened, closed, raised, created, destroyed and set, and wherever the focus goes, the
  counter shared by all dialogs is the number of overlays on the page, and the handler that holds the focus
  is bound or about to be when there is one and not bound when there is none. As long as \<open>modal\<close>
  is not changed while a dialog is open, exactly the open modal dialogs have an overlay,
  the counter is their number, and the handler never throws.
\<close>

theorem overlays_match_modal_dialogs:
  assumes "reached cf p"
  shows "overlayInstances p = int (card {k. Overlay k \<in> set (stack p)}) \<and>
    (overlayInstances p = 0 \<longrightarrow> traps p = 0) \<and> (overlayInstances p \<noteq> 0 \<longrightarrow> 0 < timers p + traps p) \<and>
    (reachable cf p \<longrightarrow>
      (\<forall>d. created (dlg p d) \<longrightarrow> (overlay (dlg p d) \<noteq> None) = (isOpen (dlg p d) \<and> modal (dlg p d)) \<and>
        shown_dlg (dlg p d) = isOpen (dlg p d)) \<and>
      overlayInstances p = int (card {d. created (dlg p d) \<and> isOpen (dlg p d) \<and> modal (dlg p d)}) \<and> threw p = 0)"
proof -
  note counters = overlays_countedD(6) [OF reached_overlays_counted [OF assms], unfolded counters_ok_def]
  moreover have "(\<forall>d. created (dlg p d) \<longrightarrow> (overlay (dlg p d) \<noteq> None) = (isOpen (dlg p d) \<and> modal (dlg p d)) \<and>
      shown_dlg (dlg p d) = isOpen (dlg p d)) \<and>
    overlayInstances p = int (card {d. created (dlg p d) \<and> isOpen (dlg p d) \<and> modal (dlg p d)}) \<and> threw p = 0"
    if "reachable cf p"
    using reachable_inv [OF that] counters open_modal_card [OF reachable_inv [OF that]]
    by (simp add: dialogs_inv_def dialog_ok_def)
  ultimately show ?thesis by (intro conjI impI) simp_all
qed

section \<open>Modal dialogs are on top\<close>

lemma vis_opened: "vis (opened d p) = vis p"
proof
  fix x
  show "vis (opened d p) x = vis p x"
    by (cases x) (auto simp: opened_def createOverlay_sel)
qed

lemma stack_opened:
  "stack (opened d p) = (if modal (dlg p d) then stack p @ [Overlay (next_overlay p)] else stack p)"
  by (simp add: opened_def createOverlay_sel)

lemma opened_distinct:
  assumes "dialogs_inv p"
  shows "distinct (stack (opened d p))"
  using page_okD(1) [OF dialogs_invD(1) [OF assms]] overlay_fresh [OF dialogs_invD(1) [OF assms]]
  by (simp add: stack_opened)

lemma dialog_open_stack:
  "\<not> isOpen (dlg p d) \<Longrightarrow> stack (dialog_open d p) = move_to_top (vis p) (Dlg d) (stack (opened d p))"
  by (simp add: dialog_open_eq vis_opened)

lemma dialog_open_vis:
  assumes "\<not> isOpen (dlg p d)"
  shows "vis (dialog_open d p) = (\<lambda>x. vis p x \<or> x = Dlg d)"
proof
  fix x
  show "vis (dialog_open d p) x = (vis p x \<or> x = Dlg d)"
    using assms by (cases x) (auto simp: dialog_open_eq opened_def createOverlay_sel)
qed

lemma opened_member:
  "dialogs_inv p \<Longrightarrow> created (dlg p d) \<Longrightarrow> Dlg d \<in> set (stack (opened d p))"
  using page_okD(2) [OF dialogs_invD(1), of p d] by (simp add: stack_opened)

text \<open>
  C15: A modal dialog that is opened is the topmost thing that is visible, its overlay is directly
  below it, and everything that was visible before is below the overlay in the same order.
\<close>

theorem modal_dialog_on_top:
  assumes "reachable cf p" and "created (dlg p d)" and "\<not> isOpen (dlg p d)" and "modal (dlg p d)"
  shows "filter (vis (dialog_open d p)) (stack (dialog_open d p)) =
    filter (\<lambda>x. vis p x \<and> x \<noteq> Dlg d) (stack p) @ [Overlay (next_overlay p), Dlg d]"
proof -
  have "filter (vis (dialog_open d p)) (stack (dialog_open d p)) =
      filter (\<lambda>x. vis p x \<and> x \<noteq> Dlg d) (stack (opened d p)) @ [Dlg d]"
    unfolding dialog_open_vis [OF assms(3)] dialog_open_stack [OF assms(3)]
    by (rule move_to_top_order)
      (use reachable_inv [OF assms(1)] assms(2) opened_distinct opened_member in blast)+
  then show ?thesis using assms(4) by (simp add: stack_opened)
qed

section \<open>Closing undoes opening\<close>

lemma filter_restrict:
  assumes "filter (\<lambda>y. v y \<or> y = x) xs = filter (\<lambda>y. v y \<and> y \<noteq> x) ys @ [x]" and "\<not> v x"
  shows "filter v xs = filter v ys"
proof -
  have "filter v xs = filter v (filter (\<lambda>y. v y \<or> y = x) xs)" by (simp add: conj_commute) (metis)
  also have "\<dots> = filter v (filter (\<lambda>y. v y \<and> y \<noteq> x) ys)" using assms by simp
  also have "\<dots> = filter v ys" using assms(2) by (simp, intro filter_cong) auto
  finally show ?thesis .
qed

lemma destroyOverlay_dlg:
  "shown_dlg (dlg (destroyOverlay d p) e) = shown_dlg (dlg p e)" "opener (dlg (destroyOverlay d p) e) = opener (dlg p e)"
  by (simp_all add: destroyOverlay_sel)

lemma last_shown:
  assumes "stack p = a @ Dlg d # b" and "shown_dlg (dlg p d)" and "\<And>e. Dlg e \<in> set b \<Longrightarrow> \<not> shown_dlg (dlg p e)"
  shows "last (shown_dialogs p) = d" and "shown_dialogs p \<noteq> []"
proof -
  have "concat (map (\<lambda>x. case x of Dlg d \<Rightarrow> if shown_dlg (dlg p d) then [d] else [] | _ \<Rightarrow> []) b) = []"
    using assms(3) by (auto split: item.split)
  then have "shown_dialogs p = concat (map (\<lambda>x. case x of Dlg d \<Rightarrow> if shown_dlg (dlg p d) then [d] else [] | _ \<Rightarrow> []) a) @ [d]"
    using assms(1,2) by (simp add: shown_dialogs_def del: concat_eq_Nil_conv)
  then show "last (shown_dialogs p) = d" "shown_dialogs p \<noteq> []" by simp_all
qed

text \<open>A dialog that was raised is the last one that is shown, whatever overlay is taken away.\<close>

lemma raised_is_last:
  assumes "distinct xs" and "Dlg d \<in> set xs"
    and "stack p = filter (\<lambda>x. x \<noteq> Overlay k) (move_to_top v (Dlg d) xs)"
    and "shown_dlg (dlg p d)" and "\<And>e. e \<noteq> d \<Longrightarrow> shown_dlg (dlg p e) = v (Dlg e)"
  shows "last (shown_dialogs p) = d" and "shown_dialogs p \<noteq> []"
proof -
  obtain a b where xs: "xs = a @ Dlg d # b" "Dlg d \<notin> set a" using assms(2) split_list_first by fast
  have "stack p = filter (\<lambda>x. x \<noteq> Overlay k) (a @ filter v b) @ Dlg d #
      filter (\<lambda>x. x \<noteq> Overlay k) (filter (\<lambda>y. \<not> v y) b)"
    by (simp add: assms(3) xs(1) move_split(2) [OF xs(2)])
  moreover have "\<not> shown_dlg (dlg p e)" if "Dlg e \<in> set (filter (\<lambda>x. x \<noteq> Overlay k) (filter (\<lambda>y. \<not> v y) b))" for e
    using that assms(1,5) by (cases "e = d") (auto simp: xs(1))
  ultimately show "last (shown_dialogs p) = d" "shown_dialogs p \<noteq> []" using last_shown assms(4) by blast+
qed

lemma destroyOverlay_traps:
  "traps (destroyOverlay d p) =
     (if modal (dlg p d) \<and> overlay (dlg p d) \<noteq> None \<and> overlayInstances p = 1 then 0 else traps p)"
  by (auto simp: destroyOverlay_def Let_def split: option.split)

lemma opened_counters:
  "overlayInstances (opened d p) = overlayInstances p + (if modal (dlg p d) then 1 else 0)" "traps (opened d p) = traps p"
  by (simp_all add: opened_def createOverlay_def Let_def)

lemma closed_opened:
  assumes "dialogs_inv p" and "created (dlg p d)" and "\<not> isOpen (dlg p d)" and "q = dialog_close cf d True (dialog_open d p)"
  shows "dlg q = (dlg p)(d := (dlg p d)\<lparr>opener := focused p\<rparr>)"
    and "stack q = filter (\<lambda>x. x \<noteq> Overlay (next_overlay p)) (move_to_top (vis p) (Dlg d) (stack (opened d p)))"
    and "elem_visible q = elem_visible p"
    and "focused q = (if \<not> can_take cf (dialog_open d p) (focused p) then Body
      else if traps p = 0 \<or> allowInteraction (focused p) then focused p else Inside d)"
proof -
  note inv = dialogs_invD [OF assms(1)]
  have d: "overlay (dlg p d) = None" "shown_dlg (dlg p d) = False"
    using inv(3) [of d] assms(2,3) by (auto simp: dialog_ok_def)
  let ?x = "(dlg p d)\<lparr>isOpen := True, opener := focused p, shown_dlg := True,
    overlay := (if modal (dlg p d) then Some (next_overlay p) else None)\<rparr>"
  have dlg_o: "dlg (dialog_open d p) = (dlg p)(d := ?x)"
    using d by (simp add: dialog_open_eq [OF assms(3)] opened_def createOverlay_sel fun_eq_iff)
  have fresh: "filter (\<lambda>x. x \<noteq> Overlay (next_overlay p)) (move_to_top (vis p) (Dlg d) (stack p)) =
      move_to_top (vis p) (Dlg d) (stack p)"
    using overlay_fresh [OF inv(1)] by (auto simp: filter_id_conv)
  let ?p1 = "destroyOverlay d (put_dlg d (\<lambda>x. x\<lparr>isOpen := False\<rparr>) (trigger_dlg d ''beforeClose'' (dialog_open d p)))"
  have open_o: "isOpen (dlg (dialog_open d p) d)" "opener (dlg (dialog_open d p) d) = focused p" by (simp_all add: dlg_o)
  have q: "q = trigger_dlg d ''close'' (put_dlg d (\<lambda>x. x\<lparr>shown_dlg := False\<rparr>) (refocus cf (focused p) ?p1))"
    using dialog_close_eq [OF open_o(1)] open_o(2) assms(4) by simp
  show "dlg q = (dlg p)(d := (dlg p d)\<lparr>opener := focused p\<rparr>)"
    using d assms(3) by (simp add: q dlg_o destroyOverlay_sel fun_eq_iff)
  have stack: "stack ?p1 = filter (\<lambda>x. x \<noteq> Overlay (next_overlay p)) (move_to_top (vis p) (Dlg d) (stack (opened d p)))"
    by (simp add: dlg_o destroyOverlay_sel dialog_open_stack [OF assms(3)] stack_opened fresh)
  then show "stack q = filter (\<lambda>x. x \<noteq> Overlay (next_overlay p)) (move_to_top (vis p) (Dlg d) (stack (opened d p)))"
    by (simp add: q)
  show "elem_visible q = elem_visible p"
    by (simp add: q destroyOverlay_sel dialog_open_eq [OF assms(3)] opened_def createOverlay_sel)
  have shown: "shown_dlg (dlg ?p1 e) = shown_dlg (dlg (dialog_open d p) e)" for e
    by (simp add: destroyOverlay_dlg)
  have last: "last (shown_dialogs ?p1) = d" "shown_dialogs ?p1 \<noteq> []"
    using raised_is_last [OF opened_distinct [OF assms(1)] opened_member [OF assms(1,2)] stack] unfolding shown
    by (simp_all add: dlg_o)
  have "overlayInstances (dialog_open d p) = overlayInstances p + (if modal (dlg p d) then 1 else 0)"
    "traps (dialog_open d p) = traps p"
    by (simp_all add: dialog_open_eq [OF assms(3)] opened_counters)
  then have traps: "traps ?p1 = traps p"
    using inv(2) by (auto simp: destroyOverlay_traps dlg_o counters_ok_def split: if_splits)
  have "can_take cf ?p1 (focused p) = can_take cf (dialog_open d p) (focused p)"
    by (cases "focused p") (simp_all add: shown)
  then have "focused (refocus cf (focused p) ?p1) = (if \<not> can_take cf (dialog_open d p) (focused p) then Body
      else if traps p = 0 \<or> allowInteraction (focused p) then focused p else Inside d)"
    using last by (cases "focused p") (simp_all add: refocus_def focus_in_def Let_def traps)
  then show "focused q = (if \<not> can_take cf (dialog_open d p) (focused p) then Body
      else if traps p = 0 \<or> allowInteraction (focused p) then focused p else Inside d)"
    by (simp add: q)
qed

text \<open>
  C16: Opening a dialog and closing it again leaves the page as it was: the same things are visible
  in the same order, the dialog is closed without an overlay, and the focus, which was in the dialog
  in between, is back where it was, if that can still take it. The exception is an element outside of
  all dialogs while the handler of another modal dialog is bound: the handler sends the focus
  to the last dialog shown, which is still the one that is being closed.
\<close>

theorem close_undoes_open:
  assumes "reachable cf p" and "created (dlg p d)" and "\<not> isOpen (dlg p d)"
    and "q = dialog_close cf d True (dialog_open d p)"
  shows "filter (vis q) (stack q) = filter (vis p) (stack p) \<and> isOpen (dlg q d) = False \<and> overlay (dlg q d) = None \<and>
    focused (dialog_open d p) = Inside d \<and>
    (\<forall>e. focused p = On e \<longrightarrow> focused q = (if \<not> cf e then Body else if traps p = 0 then On e else Inside d)) \<and>
    (\<forall>e. focused p = Inside e \<and> shown_dlg (dlg p e) \<longrightarrow> focused q = Inside e)"
proof -
  note inv = reachable_inv [OF assms(1)]
  note q = closed_opened [OF inv assms(2,3,4)]
  have d: "overlay (dlg p d) = None" "\<not> vis p (Dlg d)"
    using dialogs_invD(3) [OF inv, of d] assms(2,3) by (auto simp: dialog_ok_def)
  have vis_q: "vis q = vis p"
  proof
    fix x
    show "vis q x = vis p x" by (cases x) (simp_all add: q(1,3))
  qed
  have "filter (\<lambda>y. vis p y \<or> y = Dlg d) (move_to_top (vis p) (Dlg d) (stack (opened d p))) =
      filter (\<lambda>y. vis p y \<and> y \<noteq> Dlg d) (stack (opened d p)) @ [Dlg d]"
    using opened_distinct [OF inv] opened_member [OF inv assms(2)] by (rule move_to_top_order)
  then have "filter (vis p) (move_to_top (vis p) (Dlg d) (stack (opened d p))) = filter (vis p) (stack (opened d p))"
    using d(2) by (rule filter_restrict)
  then have "filter (\<lambda>x. x \<noteq> Overlay (next_overlay p)) (filter (vis p) (move_to_top (vis p) (Dlg d) (stack (opened d p)))) =
      filter (\<lambda>x. x \<noteq> Overlay (next_overlay p)) (filter (vis p) (stack (opened d p)))"
    by (rule arg_cong)
  moreover have "filter (\<lambda>x. x \<noteq> Overlay (next_overlay p)) (filter (vis p) (stack (opened d p))) = filter (vis p) (stack p)"
  proof -
    have "filter (\<lambda>x. x \<noteq> Overlay (next_overlay p)) (filter (vis p) (stack p)) = filter (vis p) (stack p)"
      using overlay_fresh [OF dialogs_invD(1) [OF inv]] by (simp only: filter_id_conv set_filter) auto
    then show ?thesis by (simp only: stack_opened split: if_split) simp
  qed
  ultimately have "filter (vis q) (stack q) = filter (vis p) (stack p)"
    by (simp only: vis_q q(2) filter_filter conj_commute)
  moreover have "focused q = Inside e" if "focused p = Inside e" "shown_dlg (dlg p e)" for e
    using that dialog_open_vis [OF assms(3)] by (simp add: q(4) allowInteraction_def fun_eq_iff split: if_splits)
      (metis vis.simps(1))
  moreover have "focused q = (if \<not> cf e then Body else if traps p = 0 then On e else Inside d)" if "focused p = On e" for e
    using that by (simp add: q(4) allowInteraction_def)
  ultimately show ?thesis
    using d(1) assms(3) by (simp add: q(1) dialog_open_eq [OF assms(3)])
qed

text \<open>
  If the option \<open>modal\<close> is set to false while a modal dialog is open, closing the dialog leaves its
  overlay on the page and the counter as it was; when no other dialog is shown then, every attempt
  to focus something on the page makes the handler throw.
\<close>

theorem leaked_overlay:
  assumes "reachable cf p" and "created (dlg p d)" and "isOpen (dlg p d)" and "modal (dlg p d)"
    and "q = dialog_close cf d True (put_dlg d (\<lambda>x. x\<lparr>modal := False\<rparr>) p)"
  shows "\<exists>k. overlay (dlg p d) = Some k \<and> \<not> isOpen (dlg q d) \<and> Overlay k \<in> set (stack q) \<and>
    overlayInstances q = overlayInstances p \<and>
    (traps p > 0 \<and> shown_dialogs q = [] \<longrightarrow> threw (focus_in (On e) q) = Suc (threw p))"
proof -
  note inv = dialogs_invD [OF reachable_inv [OF assms(1)]]
  obtain k where k: "overlay (dlg p d) = Some k"
    using inv(3) [of d] assms(2-4) by (auto simp: dialog_ok_def)
  let ?p1 = "put_dlg d (\<lambda>x. x\<lparr>isOpen := False\<rparr>) (trigger_dlg d ''beforeClose'' (put_dlg d (\<lambda>x. x\<lparr>modal := False\<rparr>) p))"
  have q: "q = trigger_dlg d ''close'' (put_dlg d (\<lambda>x. x\<lparr>shown_dlg := False\<rparr>) (refocus cf (opener (dlg p d)) ?p1))"
    using assms(3) by (simp add: assms(5) dialog_close_def destroyOverlay_def Let_def)
  have "Dlg d \<in> set (stack ?p1)" "shown_dlg (dlg ?p1 d)"
    using page_okD(2) [OF inv(1), of d] inv(3) [of d] assms(2,3) by (simp_all add: dialog_ok_def)
  then have threw: "threw q = threw p" by (simp add: q refocus_threw)
  have "Overlay k \<in> set (stack q)" using page_okD(6) [OF inv(1), of k] k by (auto simp: q)
  moreover have "threw (focus_in (On e) q) = Suc (threw p)" if "traps p > 0 \<and> shown_dialogs q = []"
  proof -
    have "traps q = traps p" by (simp add: q)
    then show ?thesis using that threw by (simp add: focus_in_def Let_def allowInteraction_def)
  qed
  moreover have "\<not> isOpen (dlg q d)" "overlayInstances q = overlayInstances p" by (simp_all add: q)
  ultimately show ?thesis using k by blast
qed

section \<open>The keyboard\<close>

text \<open>
  Elements inside a dialog are numbered, \<open>self\<close> is the dialog itself. \<open>Give f\<close> focuses \<open>f\<close>, one
  millisecond later; \<open>Keep\<close> does nothing and prevents the browser from doing anything.
\<close>

record key_event =
  keyCode :: nat
  shift :: bool
  key_target :: nat
  prevented :: bool

datatype key_action = Ignore | Keep | Close_it | Give nat

definition dialog_keydown :: "bool \<Rightarrow> nat \<Rightarrow> nat list \<Rightarrow> key_event \<Rightarrow> key_action" where
  "dialog_keydown closeOnEscape self tabbables ev =
     (if closeOnEscape \<and> \<not> prevented ev \<and> keyCode ev = 27 then Close_it
      else if keyCode ev \<noteq> 9 then Ignore
      else if (tabbables \<noteq> [] \<and> key_target ev = last tabbables \<or> key_target ev = self) \<and> \<not> shift ev
           then (if tabbables = [] then Keep else Give (hd tabbables))
      else if (tabbables \<noteq> [] \<and> key_target ev = hd tabbables \<or> key_target ev = self) \<and> shift ev
           then (if tabbables = [] then Keep else Give (last tabbables))
      else Ignore)"

text \<open>Where the focus is after a key, if the browser left to itself would move it to \<open>browser shift target\<close>.\<close>

definition next_focus :: "(bool \<Rightarrow> nat \<Rightarrow> nat) \<Rightarrow> nat \<Rightarrow> nat list \<Rightarrow> key_event \<Rightarrow> nat" where
  "next_focus browser self tabbables ev =
     (case dialog_keydown False self tabbables ev of
        Give f \<Rightarrow> f | Ignore \<Rightarrow> browser (shift ev) (key_target ev) | _ \<Rightarrow> key_target ev)"

text \<open>
  The tabulator stays inside a dialog and goes round: if the browser moves the focus to the next
  or the previous element, the keys visit the tabbable elements of the dialog in cyclic order.
\<close>

theorem tab_goes_round:
  assumes "i < length ts" and "distinct ts" and "self \<notin> set ts" and "keyCode ev = 9" and "key_target ev = ts ! i"
    and "\<And>j. Suc j < length ts \<Longrightarrow> browser False (ts ! j) = ts ! Suc j \<and> browser True (ts ! Suc j) = ts ! j"
  shows "next_focus browser self ts ev =
    ts ! (if shift ev then (i + length ts - 1) mod length ts else (i + 1) mod length ts)"
proof -
  have ne: "ts \<noteq> []" using assms(1) by auto
  have last: "(ts ! i = last ts) = (Suc i = length ts)"
    using nth_eq_iff_index_eq [OF assms(2), of i "length ts - 1"] assms(1) by (auto simp: last_conv_nth [OF ne])
  have hd: "(ts ! i = hd ts) = (i = 0)"
    using nth_eq_iff_index_eq [OF assms(2), of i 0] assms(1) ne by (simp add: hd_conv_nth [OF ne])
  have self: "ts ! i \<noteq> self" using assms(1,3) by (metis nth_mem)
  show ?thesis
  proof (cases "shift ev")
    case False
    show ?thesis
    proof (cases "Suc i = length ts")
      case True
      then show ?thesis using False ne last assms(4,5) by (simp add: next_focus_def dialog_keydown_def hd_conv_nth)
    next
      case mid: False
      then have "Suc i < length ts" using assms(1) by simp
      then show ?thesis
        using False mid ne last self assms(4,5,6) by (simp add: next_focus_def dialog_keydown_def)
    qed
  next
    case True
    show ?thesis
    proof (cases i)
      case 0
      then show ?thesis using True ne hd assms(1,4,5) by (simp add: next_focus_def dialog_keydown_def last_conv_nth)
    next
      case (Suc j)
      then have "(i + length ts - 1) mod length ts = j" using assms(1) by (simp add: mod_if)
      then show ?thesis
        using Suc True ne hd self assms(1,4,5,6) by (simp add: next_focus_def dialog_keydown_def)
    qed
  qed
qed

text \<open>The candidates of \<open>_focusTabbable\<close>: marked elements, the content, the buttons, the close button, the dialog.\<close>

definition focusTabbable :: "nat list \<Rightarrow> nat list \<Rightarrow> nat list \<Rightarrow> nat list \<Rightarrow> nat \<Rightarrow> nat" where
  "focusTabbable autofocus content buttons close self =
     (if autofocus \<noteq> [] then hd autofocus else if content \<noteq> [] then hd content
      else if buttons \<noteq> [] then hd buttons else if close \<noteq> [] then hd close else self)"

lemma focusTabbable_hd: "focusTabbable a b c d self = hd (a @ b @ c @ d @ [self])"
  by (simp add: focusTabbable_def hd_append)

text \<open>\<open>_keepFocus\<close>, when the overlay is pressed: at once and once more after a delay.\<close>

definition keepFocus :: "nat \<Rightarrow> dialog_page \<Rightarrow> dialog_page" where
  "keepFocus d p = (if focused p = Inside d then p else focus_dialog d p)"

lemma keepFocus_twice: "keepFocus d (keepFocus d p) = keepFocus d p"
  by (simp add: keepFocus_def)

section \<open>Examples\<close>

definition with_dialog :: dialog_page where
  "with_dialog = dialog_create 2 True (fresh_dialogs (\<lambda>e. True) [7])"

definition with_open_dialog :: dialog_page where
  "with_open_dialog = delay_over (dialog_open 2 with_dialog)"

lemma reachable_with_dialog: "reachable cf with_dialog"
  using reachable.step [OF reachable.start [of "[7]" cf "\<lambda>e. True"], of "Create 2 True"]
  by (simp add: with_dialog_def fresh_dialogs_def)

lemma with_dialog_sel: "created (dlg with_dialog 2)" "\<not> isOpen (dlg with_dialog 2)" "modal (dlg with_dialog 2)"
  by (simp_all add: with_dialog_def dialog_create_def)

lemma reachable_with_open: "reachable cf with_open_dialog"
proof -
  have "reachable cf (dialog_step cf with_dialog (Open 2))"
    by (rule reachable.step [OF reachable_with_dialog]) (simp_all add: with_dialog_sel)
  from reachable.step [OF this, of Delay_over] show ?thesis by (simp add: with_open_dialog_def)
qed

lemmas dialog_eval = with_open_dialog_def with_dialog_def dialog_create_def fresh_dialogs_def dialog_open_def
  createOverlay_def moveToTop_def move_to_top_def moved_up_def Let_def put_dlg_def trigger_dlg_def focus_dialog_def
  delay_over_def

lemma with_open_sel: "created (dlg with_open_dialog 2)" "isOpen (dlg with_open_dialog 2)" "modal (dlg with_open_dialog 2)"
  "traps with_open_dialog = 1"
  by (simp_all add: dialog_eval)

theorem overlays_match_modal_dialogs_witness: "overlay (dlg with_open_dialog 2) \<noteq> None"
  using overlays_match_modal_dialogs [OF reachable_reached [OF reachable_with_open]] reachable_with_open with_open_sel
  by blast

theorem modal_dialog_on_top_witness:
  "filter (vis (dialog_open 2 with_dialog)) (stack (dialog_open 2 with_dialog)) = [Elem 7, Overlay 0, Dlg 2]"
  using modal_dialog_on_top [OF reachable_with_dialog with_dialog_sel]
  by (simp add: with_dialog_def dialog_create_def fresh_dialogs_def)

theorem close_undoes_open_witness:
  "isOpen (dlg (dialog_close (\<lambda>e. True) 2 True (dialog_open 2 with_dialog)) 2) = False"
  using close_undoes_open [OF reachable_with_dialog with_dialog_sel(1,2) refl] by blast

theorem leaked_overlay_witness:
  "\<exists>k. Overlay k \<in> set (stack (dialog_close (\<lambda>e. True) 2 True (put_dlg 2 (\<lambda>x. x\<lparr>modal := False\<rparr>) with_open_dialog)))"
  using leaked_overlay [OF reachable_with_open with_open_sel(1-3) refl] by blast

theorem tab_goes_round_witness:
  "next_focus (\<lambda>s x. if s then x - 1 else x + 1) 9 [3, 4, 5] \<lparr>keyCode = 9, shift = False, key_target = 5, prevented = False\<rparr> = 3"
proof -
  have "j < 2 \<Longrightarrow> [3, 4, 5 :: nat] ! Suc j = Suc ([3, 4, 5] ! j)" for j
    by (auto simp: less_Suc_eq numeral_2_eq_2)
  then show ?thesis
    using tab_goes_round [of 2 "[3, 4, 5]" 9 "\<lparr>keyCode = 9, shift = False, key_target = 5, prevented = False\<rparr>"
        "\<lambda>s x. if s then x - 1 else x + 1"]
    by simp
qed

end
