(* ===== verification/UiDialogOptions.thy ===== *)
theory UiDialogOptions
  imports UiPosition UiResizePlugins
begin

text \<open>
  \<open>jquery.ui.dialog.js\<close>, the options of a dialog: where its element stood before and where it goes
  back to, its size, the position in array notation that is written when a drag ends and read when
  the dialog is placed again, the buttons, and the draggable and resizable widgets that follow the
  options.
\<close>

section \<open>The element's old place\<close>

text \<open>
  The children of the element's parent are numbers. \<open>Some w\<close> is the wrapper when it is appended to
  the same parent; the index of the element is remembered.
\<close>

definition index_of :: "nat \<Rightarrow> nat list \<Rightarrow> nat" where
  "index_of e xs = length (takeWhile (\<lambda>x. x \<noteq> e) xs)"

definition take_element :: "nat \<Rightarrow> nat option \<Rightarrow> nat list \<Rightarrow> nat list \<times> nat" where
  "take_element e wrapper xs =
     (filter (\<lambda>x. x \<noteq> e) (xs @ (case wrapper of None \<Rightarrow> [] | Some w \<Rightarrow> [w])), index_of e xs)"

definition put_back :: "nat \<Rightarrow> nat option \<Rightarrow> nat \<Rightarrow> nat list \<Rightarrow> nat list" where
  "put_back e wrapper i xs =
     (let ys = filter (\<lambda>x. Some x \<noteq> wrapper) xs
      in if i < length ys \<and> ys ! i \<noteq> e then take i ys @ e # drop i ys else ys @ [e])"

text \<open>
  Destroying a dialog puts its element back to where it was among its siblings, also when other
  elements were appended to the parent in the meantime and when the wrapper stood among them.
\<close>

theorem element_put_back:
  assumes "distinct xs" and "e \<in> set xs" and "\<forall>w. wrapper = Some w \<longrightarrow> w \<notin> set xs \<and> w \<notin> set zs" and "e \<notin> set zs"
  shows "put_back e wrapper (snd (take_element e wrapper xs)) (fst (take_element e wrapper xs) @ zs) = xs @ zs"
proof -
  obtain a b where xs: "xs = a @ e # b" "e \<notin> set a" using assms(2) split_list_first by fast
  have b: "e \<notin> set b" using assms(1) xs by simp
  have "takeWhile (\<lambda>x. x \<noteq> e) a = a" using xs(2) by (auto simp: takeWhile_eq_all_conv)
  then have i: "index_of e xs = length a" by (simp add: xs(1) index_of_def takeWhile_tail)
  have keep: "filter (\<lambda>x. x \<noteq> e) a = a" "filter (\<lambda>x. x \<noteq> e) b = b"
    using xs(2) b by (auto simp: filter_id_conv)
  have w: "filter (\<lambda>x. Some x \<noteq> wrapper) c = c" if "set c \<subseteq> set xs \<union> set zs" for c
    using assms(3) that by (cases wrapper) (auto simp: filter_id_conv)
  have w3: "filter (\<lambda>x. Some x \<noteq> wrapper) a = a" "filter (\<lambda>x. Some x \<noteq> wrapper) b = b"
    "filter (\<lambda>x. Some x \<noteq> wrapper) zs = zs"
    by (rule w, auto simp: xs(1))+
  have "filter (\<lambda>x. Some x \<noteq> wrapper) (filter (\<lambda>x. x \<noteq> e) (case wrapper of None \<Rightarrow> [] | Some w \<Rightarrow> [w])) = []"
    by (cases wrapper) simp_all
  then have F: "filter (\<lambda>x. Some x \<noteq> wrapper) (fst (take_element e wrapper xs) @ zs) = a @ b @ zs"
    using w3 by (simp add: take_element_def xs(1) keep del: filter_filter)
  have "length a < length (a @ b @ zs) \<Longrightarrow> (a @ b @ zs) ! length a \<noteq> e"
    using b assms(4) by (cases b; cases zs) (auto simp: nth_append)
  moreover have "snd (take_element e wrapper xs) = length a" by (simp add: take_element_def i)
  ultimately show ?thesis
    unfolding put_back_def Let_def F by (cases "b = [] \<and> zs = []") (auto simp: xs(1))
qed

theorem element_put_back_witness:
  "put_back 5 (Some 9) (snd (take_element 5 (Some 9) [4, 5, 6])) (fst (take_element 5 (Some 9) [4, 5, 6]) @ [7]) = [4, 5, 6, 7]"
  using element_put_back [of "[4, 5, 6]" 5 "Some 9" "[7]"] by simp

text \<open>The title of the element is an option of the dialog; \<open>&nbsp;\<close> holds the title bar open without one.\<close>

definition dialog_title :: "string option \<Rightarrow> string option \<Rightarrow> string option" where
  "dialog_title opt attr = (case opt of Some t \<Rightarrow> if t \<noteq> [] then Some t else attr | None \<Rightarrow> attr)"

definition title_text :: "string option \<Rightarrow> string" where
  "title_text title = (case title of None \<Rightarrow> ''&#160;'' | Some t \<Rightarrow> t)"

section \<open>Size\<close>

text \<open>\<open>None\<close> as the height stands for \<open>auto\<close>, as the maximum for a value that is no number.\<close>

record dialog_options =
  d_width :: rat
  d_height :: "rat option"
  d_minWidth :: rat
  d_minHeight :: rat
  d_maxWidth :: "rat option"
  d_maxHeight :: "rat option"

record content_css =
  css_min :: rat
  css_max :: "rat option"
  css_height :: "rat option"

definition dialog_minHeight :: "dialog_options \<Rightarrow> rat" where
  "dialog_minHeight opt =
     (case d_height opt of None \<Rightarrow> d_minHeight opt | Some h \<Rightarrow> min (d_minHeight opt) h)"

definition dialog_size :: "rat \<Rightarrow> dialog_options \<Rightarrow> dialog_options \<times> content_css" where
  "dialog_size nonContentHeight opt =
     (let opt' = (if d_minWidth opt > d_width opt then opt\<lparr>d_width := d_minWidth opt\<rparr> else opt);
          minContent = max 0 (d_minHeight opt - nonContentHeight);
          maxContent = map_option (\<lambda>m. max 0 (m - nonContentHeight)) (d_maxHeight opt)
      in (opt', case d_height opt of
            None \<Rightarrow> \<lparr>css_min = minContent, css_max = maxContent, css_height = None\<rparr>
          | Some h \<Rightarrow> \<lparr>css_min = 0, css_max = None, css_height = Some (max 0 (h - nonContentHeight))\<rparr>))"

text \<open>
  What the browser makes of such a style: the height that is given, or else one that is not below
  the minimum and above the maximum only if the minimum is.
\<close>

definition rendered_as :: "content_css \<Rightarrow> rat \<Rightarrow> bool" where
  "rendered_as css r \<longleftrightarrow>
     (case css_height css of
        Some h \<Rightarrow> r = h
      | None \<Rightarrow> css_min css \<le> r \<and> (case css_max css of None \<Rightarrow> True | Some m \<Rightarrow> r \<le> max m (css_min css)))"

text \<open>
  A dialog is as high as its height says, or as what surrounds its content if that is more; with
  the height \<open>auto\<close> it is not lower than the minimum and not higher than the maximum, unless the
  minimum or what surrounds the content is. Its width is at least the minimal one.
\<close>

theorem dialog_size_bounds:
  assumes "dialog_size nonContent opt = (opt', css)" and "rendered_as css r"
  shows "d_minWidth opt \<le> d_width opt' \<and> d_width opt \<le> d_width opt' \<and>
    (case d_height opt of
       Some h \<Rightarrow> nonContent + r = max nonContent h
     | None \<Rightarrow> d_minHeight opt \<le> nonContent + r \<and>
         (\<forall>m. d_maxHeight opt = Some m \<longrightarrow> nonContent + r \<le> max nonContent (max m (d_minHeight opt))))"
proof -
  have "d_minWidth opt \<le> d_width opt' \<and> d_width opt \<le> d_width opt'"
    using assms(1) by (auto simp: dialog_size_def Let_def)
  moreover have "case d_height opt of
       Some h \<Rightarrow> nonContent + r = max nonContent h
     | None \<Rightarrow> d_minHeight opt \<le> nonContent + r \<and>
         (\<forall>m. d_maxHeight opt = Some m \<longrightarrow> nonContent + r \<le> max nonContent (max m (d_minHeight opt)))"
  proof (cases "d_height opt")
    case None
    then have css: "css = \<lparr>css_min = max 0 (d_minHeight opt - nonContent),
        css_max = map_option (\<lambda>m. max 0 (m - nonContent)) (d_maxHeight opt), css_height = None\<rparr>"
      using assms(1) by (simp add: dialog_size_def Let_def)
    then show ?thesis
      using assms(2) None by (auto simp: rendered_as_def max_def split: if_split_asm)
  next
    case (Some h)
    then have "r = max 0 (h - nonContent)"
      using assms by (auto simp: dialog_size_def Let_def rendered_as_def)
    then show ?thesis using Some by (simp add: max_def)
  qed
  ultimately show ?thesis by blast
qed

definition default_options :: dialog_options where
  "default_options = \<lparr>d_width = 300, d_height = None, d_minWidth = 150, d_minHeight = 150, d_maxWidth = None, d_maxHeight = None\<rparr>"

theorem dialog_size_bounds_witness: "d_minHeight default_options \<le> 40 + (120 :: rat)"
  using dialog_size_bounds [of 40 default_options default_options "\<lparr>css_min = 110, css_max = None, css_height = None\<rparr>" 120]
  by (simp add: dialog_size_def default_options_def rendered_as_def Let_def)

section \<open>Limits of the resizable widget\<close>

text \<open>What \<open>_makeResizable\<close> passes on, and the handles.\<close>

definition resizable_limits :: "dialog_options \<Rightarrow> limit_options" where
  "resizable_limits opt =
     \<lparr>o_minWidth = Some (d_minWidth opt), o_maxWidth = d_maxWidth opt,
      o_minHeight = Some (dialog_minHeight opt), o_maxHeight = d_maxHeight opt\<rparr>"

datatype set_opt =
    Width rat
  | Height "rat option"
  | MinWidth rat
  | MinHeight rat
  | MaxWidth "rat option"
  | MaxHeight "rat option"
  | Buttons
  | Other

fun store_opt :: "set_opt \<Rightarrow> dialog_options \<Rightarrow> dialog_options" where
  "store_opt (Width x) opt = opt\<lparr>d_width := x\<rparr>"
| "store_opt (Height x) opt = opt\<lparr>d_height := x\<rparr>"
| "store_opt (MinWidth x) opt = opt\<lparr>d_minWidth := x\<rparr>"
| "store_opt (MinHeight x) opt = opt\<lparr>d_minHeight := x\<rparr>"
| "store_opt (MaxWidth x) opt = opt\<lparr>d_maxWidth := x\<rparr>"
| "store_opt (MaxHeight x) opt = opt\<lparr>d_maxHeight := x\<rparr>"
| "store_opt Buttons opt = opt"
| "store_opt Other opt = opt"

fun pass_on :: "set_opt \<Rightarrow> limit_options \<Rightarrow> limit_options" where
  "pass_on (MinWidth x) l = l\<lparr>o_minWidth := Some x\<rparr>"
| "pass_on (MinHeight x) l = l\<lparr>o_minHeight := Some x\<rparr>"
| "pass_on (MaxWidth x) l = l\<lparr>o_maxWidth := x\<rparr>"
| "pass_on (MaxHeight x) l = l\<lparr>o_maxHeight := x\<rparr>"
| "pass_on _ l = l"

text \<open>\<open>Other\<close> is an option that is not about the size. \<open>None\<close> as limits: the dialog is not resizable.\<close>

definition setOptions ::
    "rat \<Rightarrow> set_opt list \<Rightarrow> dialog_options \<times> limit_options option \<Rightarrow> dialog_options \<times> limit_options option" where
  "setOptions nonContentHeight opts = (\<lambda>(opt, limits).
     (let opt1 = fold store_opt opts opt; sizes = (\<exists>x \<in> set opts. x \<noteq> Other);
          opt2 = (if sizes then fst (dialog_size nonContentHeight opt1) else opt1);
          limits1 = (if sizes then map_option (\<lambda>l. l\<lparr>o_minHeight := Some (dialog_minHeight opt2)\<rparr>) limits else limits)
      in (opt2, map_option (fold pass_on opts) limits1)))"

lemma minHeight_size: "dialog_minHeight (fst (dialog_size n opt)) = dialog_minHeight opt"
  by (simp add: dialog_size_def dialog_minHeight_def Let_def split: option.split)

lemma pass_on_minHeight:
  "\<forall>x \<in> set opts. \<forall>v. x \<noteq> MinHeight v \<Longrightarrow> o_minHeight (fold pass_on opts l) = o_minHeight l"
proof (induction opts arbitrary: l)
  case (Cons x opts)
  then show ?case by (cases x) simp_all
qed simp

text \<open>
  After a change of the options of a resizable dialog the minimal height for resizing is the one
  of the dialog, \<open>_minHeight()\<close>, when the change is about the size but not about \<open>minHeight\<close>. When
  \<open>minHeight\<close> alone is raised above a fixed height it is not: the raw value is passed on after the
  dialog's own, so the first resize makes the dialog jump to a height that it does not have.
\<close>

theorem minimum_passed_on:
  assumes "setOptions n opts (opt, Some l) = (opt', Some l')"
  shows "((\<exists>x \<in> set opts. x \<noteq> Other) \<and> (\<forall>v. MinHeight v \<notin> set opts) \<longrightarrow>
      o_minHeight l' = Some (dialog_minHeight opt')) \<and>
    (\<forall>v. opts = [MinHeight v] \<longrightarrow> o_minHeight l' = Some v \<and>
      dialog_minHeight opt' = (case d_height opt of None \<Rightarrow> v | Some h \<Rightarrow> min v h))"
proof (intro conjI impI allI)
  assume a: "(\<exists>x \<in> set opts. x \<noteq> Other) \<and> (\<forall>v. MinHeight v \<notin> set opts)"
  then have "\<forall>x \<in> set opts. \<forall>v. x \<noteq> MinHeight v" by blast
  then show "o_minHeight l' = Some (dialog_minHeight opt')"
    using assms a pass_on_minHeight [of opts] by (auto simp: setOptions_def Let_def)
next
  fix v
  assume v: "opts = [MinHeight v]"
  then show "o_minHeight l' = Some v" using assms by (auto simp: setOptions_def Let_def)
  have "opt' = fst (dialog_size n (opt\<lparr>d_minHeight := v\<rparr>))"
    using assms v by (simp add: setOptions_def Let_def)
  then show "dialog_minHeight opt' = (case d_height opt of None \<Rightarrow> v | Some h \<Rightarrow> min v h)"
    by (simp add: minHeight_size) (simp add: dialog_minHeight_def split: option.split)
qed

theorem minimum_passed_on_witness:
  "o_minHeight (the (snd (setOptions 40 [MinHeight 300]
     (default_options\<lparr>d_height := Some 200\<rparr>, Some (resizable_limits default_options))))) \<noteq> Some 200"
proof -
  let ?o = "default_options\<lparr>d_height := Some 200\<rparr>"
  let ?r = "setOptions 40 [MinHeight 300] (?o, Some (resizable_limits default_options))"
  obtain l where l: "?r = (fst ?r, Some l)" by (simp add: setOptions_def Let_def)
  then have "snd ?r = Some l" by (metis snd_conv)
  then show ?thesis using minimum_passed_on [OF l] by simp
qed

text \<open>The size that a finished resize writes to the options; the position stays what it was.\<close>

definition resize_stopped :: "rat \<Rightarrow> rat \<Rightarrow> dialog_options \<Rightarrow> dialog_options" where
  "resize_stopped w h opt = opt\<lparr>d_width := w, d_height := Some h\<rparr>"

section \<open>The position in array notation\<close>

datatype position_part = Num int | Txt string

text \<open>\<open>Place_options\<close> are those of \<open>my\<close> and \<open>at\<close> that an object has.\<close>

datatype position_value =
    No_position
  | Place_text string
  | Place_array position_part position_part
  | Place_options "string option" "string option"

definition part_offset :: "position_part \<Rightarrow> int" where
  "part_offset p = (case p of Num n \<Rightarrow> n | Txt _ \<Rightarrow> 0)"

definition part_word :: "string \<Rightarrow> position_part \<Rightarrow> string" where
  "part_word side p = (case p of Num _ \<Rightarrow> side | Txt s \<Rightarrow> s)"

definition signed :: "int \<Rightarrow> string" where
  "signed n = (if n < 0 then string_of_int n else ''+'' @ string_of_int n)"

text \<open>The options \<open>my\<close> and \<open>at\<close> with which the dialog is placed; the others keep their defaults.\<close>

definition my_at :: "position_part list \<Rightarrow> string \<times> string" where
  "my_at parts =
     (let ps = (if length parts = 1 then [parts ! 0, parts ! 0] else parts);
          w0 = part_word ''left'' (ps ! 0); w1 = part_word ''top'' (ps ! 1)
      in (w0 @ signed (part_offset (ps ! 0)) @ '' '' @ w1 @ signed (part_offset (ps ! 1)),
          join '' '' (w0 # w1 # map (part_word []) (drop 2 ps))))"

definition dialog_position :: "position_value \<Rightarrow> string \<times> string" where
  "dialog_position v =
     (case v of
        No_position \<Rightarrow> (''center'', ''center'')
      | Place_text s \<Rightarrow> if s = [] then (''center'', ''center'') else my_at (map Txt (split_on (CHR '' '') [] s))
      | Place_array a b \<Rightarrow> my_at [a, b]
      | Place_options m t \<Rightarrow> (case m of Some x \<Rightarrow> x | None \<Rightarrow> ''center'', case t of Some x \<Rightarrow> x | None \<Rightarrow> ''center''))"

text \<open>The end of a drag at \<open>x\<close>, \<open>y\<close> on a page scrolled by \<open>sx\<close>, \<open>sy\<close>.\<close>

definition drag_stopped :: "int \<Rightarrow> int \<Rightarrow> int \<Rightarrow> int \<Rightarrow> position_value" where
  "drag_stopped x y sx sy = Place_array (Num (x - sx)) (Num (y - sy))"

text \<open>\<open>_position\<close> in a window of the given size.\<close>

definition place_dialog :: "rat \<Rightarrow> rat \<Rightarrow> rat \<Rightarrow> pos \<Rightarrow> position_value \<Rightarrow> element_info \<Rightarrow> pos js" where
  "place_dialog bar w h scroll v e =
     (let pl = dialog_position v
      in position_fn True bar ((centered w h scroll)\<lparr>my_option := Some (fst pl), at_option := Some (snd pl)\<rparr>) e)"

definition int_offset :: "int \<Rightarrow> offset_text option" where
  "int_offset n = Some \<lparr>negative = n < 0, whole = string_of_nat (nat \<bar>n\<bar>), fraction = [], percent = False\<rparr>"

lemma signed_show: "signed n = show_offset (int_offset n)"
  by (simp add: signed_def show_offset_def int_offset_def string_of_int_def)

lemma digit_value_char: "d < 10 \<Longrightarrow> digit_value (digit_char d) = of_nat d"
  by (auto simp: digit_value_def digit_char_def less_Suc_eq numeral_eq_Suc)

lemma decimal_value: "foldl (\<lambda>v c. 10 * v + digit_value c) 0 (string_of_nat n) = of_nat n"
proof (induction n rule: string_of_nat.induct)
  case (1 n)
  show ?case
  proof (cases "n < 10")
    case True
    then show ?thesis by (simp add: string_of_nat.simps [of n] digit_value_char)
  next
    case False
    have "n = 10 * (n div 10) + n mod 10" by simp
    then have "(of_nat n :: rat) = of_nat (10 * (n div 10) + n mod 10)" by (rule arg_cong)
    also have "\<dots> = 10 * of_nat (n div 10) + of_nat (n mod 10)" by (simp only: of_nat_add of_nat_mult of_nat_numeral)
    finally show ?thesis
      using False 1 by (simp add: string_of_nat.simps [of n] digit_value_char)
  qed
qed

lemma int_offset_amount: "offset_amount (int_offset n) x = of_int n"
  by (simp add: offset_amount_def int_offset_def offset_number_def decimal_value Let_def)

definition corner_place :: "offset_text option \<Rightarrow> offset_text option \<Rightarrow> placement" where
  "corner_place a b = \<lparr>horizontal = ''left'', vertical = ''top'', h_offset = a, v_offset = b\<rparr>"

lemma parse_corner: "parse_placement (Some (''left'' @ signed x @ '' '' @ ''top'' @ signed y)) =
    Inr (corner_place (int_offset x) (int_offset y))"
proof -
  have "wf_placement (corner_place (int_offset x) (int_offset y))"
    by (simp add: wf_placement_def corner_place_def wf_offset_def int_offset_def string_of_nat_digits)
  from parse_shown [OF this] show ?thesis
    by (simp add: show_placement_def corner_place_def signed_show)
qed

lemma parse_left_top: "parse_placement (Some ''left top'') = Inr (corner_place None None)"
proof -
  have "wf_placement (corner_place None None)" by (simp add: wf_placement_def corner_place_def wf_offset_def)
  from parse_shown [OF this] show ?thesis by (simp add: show_placement_def corner_place_def show_offset_def)
qed

lemma array_position:
  "dialog_position (Place_array (Num x) (Num y)) = (''left'' @ signed x @ '' '' @ ''top'' @ signed y, ''left top'')"
  by (simp add: dialog_position_def my_at_def part_word_def part_offset_def join_def Let_def)

text \<open>
  A dialog that is opened again comes back to the place in the window where a drag left it: the
  end of the drag stores the two numbers, and placing the dialog reads them through the text of the
  options \<open>my\<close> and \<open>at\<close>. The window may have been scrolled since; the dialog must be inside the
  window there, otherwise the collision handler moves it.
\<close>

theorem reopened_where_dragged:
  assumes "0 \<le> left scroll" and "0 \<le> top scroll"
    and "0 \<le> x - sx" and "of_int (x - sx) + ew \<le> w" and "0 \<le> y - sy" and "of_int (y - sy) + eh \<le> h"
  shows "place_dialog bar w h scroll (drag_stopped x y sx sy) (UiPosition.box ew eh) =
    Inr (scroll + Pos (of_int (x - sx)) (of_int (y - sy)))"
proof -
  let ?X = "of_int (x - sx) :: rat" and ?Y = "of_int (y - sy) :: rat"
  let ?m = "corner_place (int_offset (x - sx)) (int_offset (y - sy))"
  have "inside_axis (left scroll) w 0 ew (left scroll + ?X)" "inside_axis (top scroll) h 0 eh (top scroll + ?Y)"
    using assms(3-6) by (simp_all add: inside_axis_def del: of_int_diff)
  then have fit: "fit_axis (left scroll) w 0 ew (left scroll + ?X) = left scroll + ?X"
    "fit_axis (top scroll) h 0 eh (top scroll + ?Y) = top scroll + ?Y"
    using assms(1,2) by (simp_all only: fit_axis_fixed)
  have "base_position (corner_place None None) (Window w h (top scroll) (left scroll)) +
      own_position ?m (UiPosition.box ew eh) = Pos (left scroll + ?X) (top scroll + ?Y)"
    by (simp add: base_position_def own_position_def pos_eq_iff geom_simps alignment_def getOffsets_def
        int_offset_amount corner_place_def) (simp add: offset_amount_def)
  then show ?thesis
    using fit by (simp add: place_dialog_def drag_stopped_def array_position parse_corner parse_left_top
        centered_def position_fn_def collision_names_def Let_def collide_left_def collide_top_def fit_left_axis
        fit_top_axis area_start_def browser_window_def outerExtent_def getScrollInfo_def pos_eq_iff geom_simps
        del: of_int_diff append_Cons) (simp add: UiPosition.box_def)
qed

theorem reopened_where_dragged_witness:
  "place_dialog 0 1000 800 (Pos 0 50) (drag_stopped 120 260 0 200) (UiPosition.box 300 200) = Inr (Pos 120 110)"
  using reopened_where_dragged [of "Pos 0 50" 120 0 300 1000 260 200 200 800 0] by (simp add: pos_eq_iff geom_simps)

text \<open>
  The callback \<open>using\<close> of the default position: \<open>offset_of\<close> is where on the page the dialog comes to
  stand for a value of its style. A title bar above the page is pulled down.
\<close>

definition using_default :: "(pos \<Rightarrow> pos) \<Rightarrow> pos \<Rightarrow> pos" where
  "using_default offset_of p =
     (let topOffset = top (offset_of p) in if topOffset < 0 then Pos (left p) (top p - topOffset) else p)"

lemma using_default_visible:
  assumes "\<And>p. offset_of p = p + origin"
  shows "0 \<le> top (offset_of (using_default offset_of p))"
  by (simp add: using_default_def Let_def assms geom_simps)

section \<open>Buttons\<close>

text \<open>
  A button is a function, whose name is its text, or an object with properties for the new element.
  The handlers are numbers.
\<close>

record button_props =
  b_type :: "string option"
  b_text :: "string option"
  b_click :: "nat option"
  b_icons :: "string option"
  b_showText :: "bool option"

datatype button_value = Function nat | Object button_props

record button_made =
  made_type :: string
  made_text :: "string option"
  made_click :: "nat option"
  made_icons :: "string option"
  made_showText :: "bool option"

definition create_button :: "string \<Rightarrow> button_value \<Rightarrow> button_made" where
  "create_button name v =
     (let props = (case v of
            Function f \<Rightarrow> \<lparr>b_type = None, b_text = Some name, b_click = Some f, b_icons = None, b_showText = None\<rparr>
          | Object p \<Rightarrow> p)
      in \<lparr>made_type = (case b_type props of Some t \<Rightarrow> t | None \<Rightarrow> ''button''), made_text = b_text props,
          made_click = b_click props, made_icons = b_icons props, made_showText = b_showText props\<rparr>)"

text \<open>The buttons that are made, and whether the pane and the class \<open>ui-dialog-buttons\<close> are there.\<close>

definition createButtons :: "(string \<times> button_value) list \<Rightarrow> button_made list \<times> bool" where
  "createButtons buttons =
     (if buttons = [] then ([], False) else (map (\<lambda>(name, v). create_button name v) buttons, True))"

text \<open>A press calls the handler on the element of the dialog; without one that throws.\<close>

definition press_button :: "button_made \<Rightarrow> nat js" where
  "press_button b = (case made_click b of Some f \<Rightarrow> Inr f | None \<Rightarrow> Inl TypeError)"

lemma press_created:
  "press_button (create_button name (Function f)) = Inr f"
  "b_click p = None \<Longrightarrow> press_button (create_button name (Object p)) = Inl TypeError"
  by (simp_all add: press_button_def create_button_def)

section \<open>Draggable and resizable as options\<close>

datatype option_value = V_null | V_false | V_true | V_string string

definition truthy_option :: "option_value \<Rightarrow> bool" where
  "truthy_option v = (case v of V_true \<Rightarrow> True | V_string s \<Rightarrow> s \<noteq> [] | _ \<Rightarrow> False)"

text \<open>
  A resizable widget has its option \<open>handles\<close> and the entries of the handles that were made when it
  was created. Calling a method of a widget that is not there throws.
\<close>

record dialog_widgets =
  is_draggable :: bool
  resizable_widget :: "(string \<times> (string \<times> string) list) option"

datatype no_instance = Not_initialized string

definition makeResizable :: "option_value \<Rightarrow> dialog_widgets \<Rightarrow> dialog_widgets" where
  "makeResizable v s =
     (let h = (case v of V_string x \<Rightarrow> x | _ \<Rightarrow> ''n,e,s,w,se,sw,ne,nw'')
      in s\<lparr>resizable_widget := Some (h, fst (create_handles (Handle_list h) False))\<rparr>)"

definition set_draggable :: "option_value \<Rightarrow> dialog_widgets \<Rightarrow> dialog_widgets" where
  "set_draggable v s =
     (if is_draggable s \<and> \<not> truthy_option v then s\<lparr>is_draggable := False\<rparr>
      else if \<not> is_draggable s \<and> truthy_option v then s\<lparr>is_draggable := True\<rparr> else s)"

definition set_resizable :: "option_value \<Rightarrow> dialog_widgets \<Rightarrow> no_instance + dialog_widgets" where
  "set_resizable v s =
     (let isResizable = (resizable_widget s \<noteq> None);
          s1 = (if isResizable \<and> \<not> truthy_option v then s\<lparr>resizable_widget := None\<rparr> else s);
          r = (case v of
                 V_string h \<Rightarrow>
                   if isResizable then
                     (case resizable_widget s1 of
                        None \<Rightarrow> Inl (Not_initialized ''resizable'')
                      | Some (_, made) \<Rightarrow> Inr (s1\<lparr>resizable_widget := Some (h, made)\<rparr>))
                   else Inr s1
               | _ \<Rightarrow> Inr s1)
      in case r of
           Inl e \<Rightarrow> Inl e
         | Inr s2 \<Rightarrow> Inr (if \<not> isResizable \<and> v \<noteq> V_false then makeResizable v s2 else s2))"

text \<open>
  Setting \<open>resizable\<close> to false and to true again gives handles in all eight directions, whatever
  they were. A text of handle names changes the option of a widget that is there but not its handles
  on the page, and the empty text throws, because the widget is destroyed before its option is set.
\<close>

theorem resizable_option:
  assumes "resizable_widget s = Some (h, made)"
  shows "(\<exists>s1 s2. set_resizable V_false s = Inr s1 \<and> resizable_widget s1 = None \<and> set_resizable V_true s1 = Inr s2 \<and>
      map_option (map fst \<circ> snd) (resizable_widget s2) = Some all_axes) \<and>
    (g \<noteq> [] \<longrightarrow> set_resizable (V_string g) s = Inr (s\<lparr>resizable_widget := Some (g, made)\<rparr>)) \<and>
    set_resizable (V_string []) s = Inl (Not_initialized ''resizable'')"
proof -
  have handles: "map fst (fst (create_handles (Handle_list ''n,e,s,w,se,sw,ne,nw'') False)) = all_axes"
    by code_simp
  have "set_resizable V_false s = Inr (s\<lparr>resizable_widget := None\<rparr>)"
    using assms by (simp add: set_resizable_def truthy_option_def)
  moreover have "set_resizable V_true (s\<lparr>resizable_widget := None\<rparr>) = Inr (makeResizable V_true (s\<lparr>resizable_widget := None\<rparr>))"
    by (simp add: set_resizable_def)
  moreover have "map_option (map fst \<circ> snd) (resizable_widget (makeResizable V_true (s\<lparr>resizable_widget := None\<rparr>))) = Some all_axes"
    using handles by (simp add: makeResizable_def Let_def)
  moreover have "g \<noteq> [] \<longrightarrow> set_resizable (V_string g) s = Inr (s\<lparr>resizable_widget := Some (g, made)\<rparr>)"
    "set_resizable (V_string []) s = Inl (Not_initialized ''resizable'')"
    using assms by (simp_all add: set_resizable_def truthy_option_def)
  ultimately show ?thesis by auto
qed

theorem resizable_option_witness:
  "set_resizable (V_string []) \<lparr>is_draggable = True, resizable_widget = Some (''se'', [(''se'', ''.ui-resizable-se'')])\<rparr> =
     Inl (Not_initialized ''resizable'')"
  using resizable_option [of "\<lparr>is_draggable = True, resizable_widget = Some (''se'', [(''se'', ''.ui-resizable-se'')])\<rparr>"
      "''se''" "[(''se'', ''.ui-resizable-se'')]"] by simp

section \<open>Frames during a drag or a resize\<close>

text \<open>Every inline frame of the page is covered by a block of its place and size until the end.\<close>

definition blockFrames :: "(pos \<times> dims) list \<Rightarrow> (pos \<times> dims) list option \<Rightarrow> (pos \<times> dims) list option" where
  "blockFrames iframes blocks = Some iframes"

definition unblockFrames :: "(pos \<times> dims) list option \<Rightarrow> (pos \<times> dims) list option" where
  "unblockFrames blocks = None"

section \<open>Resizing a dialog\<close>

text \<open>
  The dialog's resizable widget under the mouse: the options that the dialog passes, contained in the
  document, and the content resized with it.
\<close>

definition dialog_resize_env :: "dialog_options \<Rightarrow> resize_container \<Rightarrow> resize_env \<Rightarrow> resize_env" where
  "dialog_resize_env opt c page =
     page\<lparr>r_limits := resizable_limits opt, keepRatio := False, ratio_option := None, with_helper := False,
          resize_plugins := (\<lambda>ev. run_step_plugins True False c False False (shiftKey page ev) (0, 0) (resizable_limits opt))\<rparr>"

lemma dialog_resize_plugins:
  "resize_plugins (dialog_resize_env opt c page) ev s = containment_resize False False (shiftKey page ev) c s"
  by (simp add: dialog_resize_env_def run_step_plugins_eq)

text \<open>The box with its border, from its corner, is on the page of the container.\<close>

definition on_the_page :: "resize_container \<Rightarrow> resize \<Rightarrow> bool" where
  "on_the_page c s \<longleftrightarrow> 0 \<le> left (rz_position s) \<and> 0 \<le> top (rz_position s) \<and>
     left (rz_position s) + wide (rz_size s) + wide (sizeDiff s) \<le> wide (snd (parentData c)) \<and>
     top (rz_position s) + high (rz_size s) + high (sizeDiff s) \<le> high (snd (parentData c))"

definition document_container :: "resize_container \<Rightarrow> bool" where
  "document_container c \<longleftrightarrow> containerOffset c = 0 \<and> fst (parentData c) = 0 \<and> \<not> static c \<and> \<not> is_parent c"

text \<open>Without the shift key, and on the page where the resize begins.\<close>

definition begins_on_page :: "resize_container \<Rightarrow> resize_env \<Rightarrow> bool" where
  "begins_on_page c page \<longleftrightarrow> (\<forall>ev. \<not> shiftKey page ev) \<and>
     wide (inner_dims page) \<le> wide (outer_dims page) \<and> high (inner_dims page) \<le> high (outer_dims page) \<and>
     0 \<le> left (css_position page + container_scroll page) \<and> 0 \<le> top (css_position page + container_scroll page) \<and>
     left (css_position page + container_scroll page) + wide (outer_dims page) \<le> wide (snd (parentData c)) \<and>
     top (css_position page + container_scroll page) + high (outer_dims page) \<le> high (snd (parentData c))"

lemma contained_on_page:
  assumes "document_container c" and "0 \<le> wide (sizeDiff s)" and "0 \<le> high (sizeDiff s)"
  shows "on_the_page c (containment_resize False False False c s)"
proof -
  let ?t = "containment_resize False False False c s"
  have ratio: "has_ratio False s" by (simp add: has_ratio_def)
  have fit: "woset c ?t + wide (rz_size ?t) \<le> wide (snd (parentData c)) \<and>
      hoset False c ?t + high (rz_size ?t) \<le> high (snd (parentData c)) \<and>
      0 \<le> left (rz_position ?t) \<and> 0 \<le> top (rz_position ?t)"
    using contained_fits [OF ratio refl [of ?t]] contain_corner by simp
  moreover have "woset c ?t = left (rz_position ?t) + wide (sizeDiff s)"
    "hoset False c ?t = top (rz_position ?t) + high (sizeDiff s)"
    using fit assms by (simp_all add: woset_def hoset_def cop_def document_container_def containment_place geom_simps)
  ultimately show ?thesis by (simp add: on_the_page_def containment_place)
qed

definition dialog_resize_inv :: "resize_container \<Rightarrow> resize \<Rightarrow> bool" where
  "dialog_resize_inv c s \<longleftrightarrow> on_the_page c s \<and> 0 \<le> wide (sizeDiff s) \<and> 0 \<le> high (sizeDiff s)"

lemma dialog_resize_start:
  "begins_on_page c page \<Longrightarrow> dialog_resize_inv c (fst (resize_start (dialog_resize_env opt c page) ev s))"
  by (simp add: begins_on_page_def dialog_resize_inv_def on_the_page_def resize_start_def Let_def dialog_resize_env_def)

lemma updateCache_diff: "sizeDiff (updateCache off d s) = sizeDiff s"
  by (simp add: updateCache_def)

lemma dialog_resize_drag:
  assumes "document_container c" and "begins_on_page c page" and "dialog_resize_inv c s"
  shows "dialog_resize_inv c (fst (resize_drag (dialog_resize_env opt c page) ev s))"
proof (cases "resize_change (dialog_resize_env opt c page) ev s")
  case None
  then show ?thesis using assms(3) by (simp add: resize_drag_def)
next
  case (Some r)
  obtain b d where r: "r = (b, d)" by (cases r)
  let ?t = "updateCache (helper_offset (dialog_resize_env opt c page)) d (s\<lparr>vBoundaries := b\<rparr>)"
  have "fst (resize_drag (dialog_resize_env opt c page) ev s) = containment_resize False False False c ?t"
    using assms(2) by (simp add: resize_drag_def Some r dialog_resize_plugins begins_on_page_def)
  moreover have "0 \<le> wide (sizeDiff ?t)" "0 \<le> high (sizeDiff ?t)"
    using assms(3) by (simp_all add: dialog_resize_inv_def updateCache_diff)
  ultimately show ?thesis
    using contained_on_page [OF assms(1)] by (simp add: dialog_resize_inv_def containment_place)
qed

interpretation dialog_resizing: interaction "resize_setup (\<lambda>w. dialog_resize_env (dopts w) c (pages w)) opts ws ie"
    "\<lambda>w b s. b \<and> document_container c \<and> begins_on_page c (pages w) \<longrightarrow> dialog_resize_inv c s"
  by unfold_locales (simp_all add: resize_defs dialog_resize_start dialog_resize_drag)

text \<open>
  C10: While a dialog that is inside the document is resized, by any handle and however the mouse moves,
  it stays inside the document with its border, as long as the shift key is not used: the limits of
  the resize, the containment and the mouse protocol work together.
\<close>

theorem dialog_resize_stays_on_page:
  assumes "p = run_page (resize_setup (\<lambda>w. dialog_resize_env (dopts w) c (pages w)) opts ws ie) (fresh_mouse s) es"
    and "mouseStarted (widget p w)" and "document_container c" and "begins_on_page c (pages w)"
  shows "on_the_page c (inner (widget p w))"
  using dialog_resizing.reached_inv [where dopts = dopts and c = c and pages = pages and s = s and w = w and opts = opts
      and ws = ws and ie = ie and es = es] assms by (simp add: dialog_resize_inv_def)

definition dialog_page_env :: resize_env where
  "dialog_page_env = box_env\<lparr>css_position := Pos 5 6, container_scroll := 0\<rparr>"

abbreviation dialog_run :: "resize mouse_page" where
  "dialog_run \<equiv> run_page (resize_setup (\<lambda>w. dialog_resize_env default_options page_container dialog_page_env)
     (\<lambda>w. prompt_options) [0] False) (fresh_mouse (\<lambda>w. UiResizable.box ''se'')) [Down (at_point 0) [0], Move (at_point 350)]"

lemma dialog_run_started: "mouseStarted (widget dialog_run 0)"
  by (simp add: run_page_def resize_defs mouseDown_def at_point_def prompt_options_def press_def
      ready_to_start_def mouseDistanceMet_def fresh_mouse_def mouseInit_def Let_def box_env_def dialog_page_env_def
      dialog_resize_env_def resize_start_def listening_def mouseMove_def run_drag_def resize_drag_def split: option.split)

theorem dialog_resize_stays_on_page_witness: "on_the_page page_container (inner (widget dialog_run 0))"
  by (rule dialog_resize_stays_on_page [OF refl dialog_run_started])
    (simp_all add: document_container_def page_container_def begins_on_page_def dialog_page_env_def box_env_def geom_simps)

end
