(* ===== verification/UiButton.thy ===== *)
theory UiButton
  imports Prelude
begin

text \<open>
  \<open>jquery.ui.button.js\<close>, of which the buttons of a dialog are instances: what a button looks like for
  its options, and how the buttons of a page react to mouse and keyboard. Check boxes and radio
  buttons are shown by their labels, which are to be active exactly when the element is checked.
  The variables \<open>lastActive\<close>, \<open>startXPos\<close>, \<open>startYPos\<close> and \<open>clickDragged\<close> are shared by all buttons.
  Radio buttons with the same name and form are a group; all of them are buttons of this kind.
\<close>

section \<open>Appearance\<close>

record button_options =
  show_text :: bool
  label_text :: string
  primary_icon :: "string option"
  secondary_icon :: "string option"
  has_title :: bool

definition button_classes :: "button_options \<Rightarrow> string list" where
  "button_classes opt =
     (let p = (primary_icon opt \<noteq> None); s = (secondary_icon opt \<noteq> None); both = (p \<and> s)
      in if p \<or> s then
           (if show_text opt
            then [''ui-button-text-icon'' @ (if both then ''s'' else if p then ''-primary'' else ''-secondary'')] else []) @
           (if \<not> show_text opt then [if both then ''ui-button-icons-only'' else ''ui-button-icon-only''] else [])
         else [''ui-button-text-only''])"

text \<open>The contents: icons and text in their order. Without a visible text the label becomes the title.\<close>

definition button_parts :: "button_options \<Rightarrow> string list" where
  "button_parts opt =
     (case primary_icon opt of None \<Rightarrow> [] | Some i \<Rightarrow> [''ui-button-icon-primary ui-icon '' @ i]) @ [''ui-button-text''] @
     (case secondary_icon opt of None \<Rightarrow> [] | Some i \<Rightarrow> [''ui-button-icon-secondary ui-icon '' @ i])"

definition button_title :: "button_options \<Rightarrow> string option" where
  "button_title opt =
     (if (primary_icon opt \<noteq> None \<or> secondary_icon opt \<noteq> None) \<and> \<not> show_text opt \<and> \<not> has_title opt
      then Some (trim (label_text opt)) else None)"

lemma one_class: "length (button_classes opt) = 1"
  by (simp add: button_classes_def Let_def)

text \<open>The corners of a set of buttons: the first and the last one are rounded at their outer side.\<close>

definition set_corners :: "bool \<Rightarrow> nat list \<Rightarrow> (nat \<times> string list) list" where
  "set_corners rtl bs =
     map (\<lambda>(i, b). (b, (if i = 0 then [if rtl then ''ui-corner-right'' else ''ui-corner-left''] else []) @
                        (if Suc i = length bs then [if rtl then ''ui-corner-left'' else ''ui-corner-right''] else [])))
       (enumerate 0 bs)"

text \<open>A single button is rounded at both sides; the direction of the text swaps the sides.\<close>

lemma single_corners: "set_corners rtl [b] = [(b, if rtl then [''ui-corner-right'', ''ui-corner-left''] else [''ui-corner-left'', ''ui-corner-right''])]"
  by (simp add: set_corners_def)

lemma corners_of_all: "map fst (set_corners rtl bs) = bs"
  by (simp add: set_corners_def comp_def case_prod_beta map_snd_enumerate flip: snd_def)

section \<open>Buttons of a page\<close>

datatype button_type = Checkbox | Radio | Input | Push

record button =
  kind :: button_type
  off :: bool
  active :: bool
  checked :: bool
  has_focus :: bool

text \<open>\<open>button_group\<close> is the name and form of a radio button, \<open>None\<close> without a name.\<close>

record button_page =
  btn :: "nat \<Rightarrow> button"
  button_group :: "nat \<Rightarrow> nat option"
  lastActive :: "nat option"
  startPos :: "(rat \<times> rat) option"
  clickDragged :: bool

definition toggles :: "button \<Rightarrow> bool" where
  "toggles b \<longleftrightarrow> kind b = Checkbox \<or> kind b = Radio"

definition determineButtonType :: "string \<Rightarrow> string \<Rightarrow> button_type" where
  "determineButtonType tag type =
     (if type = ''checkbox'' then Checkbox else if type = ''radio'' then Radio
      else if tag = ''input'' then Input else Push)"

definition create_button_state :: "string \<Rightarrow> string \<Rightarrow> bool \<Rightarrow> bool \<Rightarrow> button" where
  "create_button_state tag type is_disabled is_checked =
     (let k = determineButtonType tag type
      in \<lparr>kind = k, off = is_disabled, active = ((k = Checkbox \<or> k = Radio) \<and> is_checked), checked = is_checked,
          has_focus = False\<rparr>)"

definition put_btn :: "nat \<Rightarrow> (button \<Rightarrow> button) \<Rightarrow> button_page \<Rightarrow> button_page" where
  "put_btn i f p = p\<lparr>btn := (btn p)(i := f (btn p i))\<rparr>"

definition in_group :: "button_page \<Rightarrow> nat \<Rightarrow> nat \<Rightarrow> bool" where
  "in_group p i j \<longleftrightarrow> kind (btn p j) = Radio \<and> button_group p i \<noteq> None \<and> button_group p j = button_group p i"

text \<open>The label follows the element, for a radio button those of its whole group.\<close>

definition refresh :: "nat \<Rightarrow> button_page \<Rightarrow> button_page" where
  "refresh i p =
     (case kind (btn p i) of
        Radio \<Rightarrow> p\<lparr>btn := (\<lambda>j. if in_group p i j then (btn p j)\<lparr>active := checked (btn p j)\<rparr> else btn p j)\<rparr>
      | Checkbox \<Rightarrow> put_btn i (\<lambda>b. b\<lparr>active := checked b\<rparr>) p
      | _ \<Rightarrow> p)"

definition on_change :: "nat \<Rightarrow> button_page \<Rightarrow> button_page" where
  "on_change i p = (if clickDragged p then p else refresh i p)"

text \<open>
  What the browser does when the element is activated: a check box changes its state, a radio
  button is checked in place of the others of its group, and the element gets a change event.
\<close>

definition activate :: "nat \<Rightarrow> button_page \<Rightarrow> button_page" where
  "activate i p =
     (case kind (btn p i) of
        Checkbox \<Rightarrow> on_change i (put_btn i (\<lambda>b. b\<lparr>checked := \<not> checked b\<rparr>) p)
      | Radio \<Rightarrow>
          if checked (btn p i) then p
          else on_change i (p\<lparr>btn := (\<lambda>j. if j = i then (btn p j)\<lparr>checked := True\<rparr>
                 else if in_group p i j then (btn p j)\<lparr>checked := False\<rparr> else btn p j)\<rparr>)
      | _ \<Rightarrow> p)"

text \<open>A click on the label: a handler that returns false keeps the browser from activating the element.\<close>

definition on_click :: "nat \<Rightarrow> button_page \<Rightarrow> button_page" where
  "on_click i p =
     (if off (btn p i) then p
      else case kind (btn p i) of
        Checkbox \<Rightarrow> if clickDragged p then p else activate i p
      | Radio \<Rightarrow>
          if clickDragged p then p
          else activate i (p\<lparr>btn := (\<lambda>j. if j = i then (btn p j)\<lparr>active := True\<rparr>
                 else if in_group p i j then (btn p j)\<lparr>active := False\<rparr> else btn p j)\<rparr>)
      | _ \<Rightarrow> p)"

text \<open>Check boxes and radio buttons remember the place of the mouse; other buttons are active while pressed.\<close>

definition toggle_mousedown :: "nat \<Rightarrow> rat \<Rightarrow> rat \<Rightarrow> button_page \<Rightarrow> button_page" where
  "toggle_mousedown i x y p =
     (if off (btn p i) then p else p\<lparr>clickDragged := False, startPos := Some (x, y)\<rparr>)"

definition push_mousedown :: "nat \<Rightarrow> button_page \<Rightarrow> button_page" where
  "push_mousedown i p =
     (if off (btn p i) then p else (put_btn i (\<lambda>b. b\<lparr>active := True\<rparr>) p)\<lparr>lastActive := Some i\<rparr>)"

definition on_mousedown :: "nat \<Rightarrow> rat \<Rightarrow> rat \<Rightarrow> button_page \<Rightarrow> button_page" where
  "on_mousedown i x y p = (if toggles (btn p i) then toggle_mousedown i x y p else push_mousedown i p)"

definition toggle_mouseup :: "nat \<Rightarrow> rat \<Rightarrow> rat \<Rightarrow> button_page \<Rightarrow> button_page" where
  "toggle_mouseup i x y p =
     (if off (btn p i) then p else if startPos p \<noteq> Some (x, y) then p\<lparr>clickDragged := True\<rparr> else p)"

definition push_mouseup :: "nat \<Rightarrow> button_page \<Rightarrow> button_page" where
  "push_mouseup i p = (if off (btn p i) then p else put_btn i (\<lambda>b. b\<lparr>active := False\<rparr>) p)"

definition on_mouseup :: "nat \<Rightarrow> rat \<Rightarrow> rat \<Rightarrow> button_page \<Rightarrow> button_page" where
  "on_mouseup i x y p = (if toggles (btn p i) then toggle_mouseup i x y p else push_mouseup i p)"

lemmas mouse_defs = on_mousedown_def toggle_mousedown_def push_mousedown_def on_mouseup_def toggle_mouseup_def push_mouseup_def

definition on_mouseenter :: "nat \<Rightarrow> button_page \<Rightarrow> button_page" where
  "on_mouseenter i p =
     (if off (btn p i) then p else if lastActive p = Some i then put_btn i (\<lambda>b. b\<lparr>active := True\<rparr>) p else p)"

definition on_mouseleave :: "nat \<Rightarrow> button_page \<Rightarrow> button_page" where
  "on_mouseleave i p =
     (if off (btn p i) \<or> toggles (btn p i) then p else put_btn i (\<lambda>b. b\<lparr>active := False\<rparr>) p)"

definition on_keydown :: "nat \<Rightarrow> nat \<Rightarrow> button_page \<Rightarrow> button_page" where
  "on_keydown i code p =
     (if off (btn p i) \<or> toggles (btn p i) \<or> code \<notin> {32, 13} then p else put_btn i (\<lambda>b. b\<lparr>active := True\<rparr>) p)"

definition on_keyup :: "nat \<Rightarrow> button_page \<Rightarrow> button_page" where
  "on_keyup i p = (if toggles (btn p i) then p else put_btn i (\<lambda>b. b\<lparr>active := False\<rparr>) p)"

definition set_disabled :: "nat \<Rightarrow> bool \<Rightarrow> button_page \<Rightarrow> button_page" where
  "set_disabled i v = put_btn i (\<lambda>b. b\<lparr>off := v\<rparr>)"

datatype button_event =
    Enter nat
  | Leave nat
  | Press nat rat rat
  | Lift nat rat rat
  | Lifted
  | Click_label nat
  | Key_activate nat
  | Key_down nat nat
  | Key_up nat
  | Gains_focus nat
  | Loses_focus nat
  | Disable nat bool

text \<open>The keyboard activates the element itself; \<open>Lifted\<close> is the release anywhere on the page.\<close>

fun button_step :: "button_page \<Rightarrow> button_event \<Rightarrow> button_page" where
  "button_step p (Enter i) = on_mouseenter i p"
| "button_step p (Leave i) = on_mouseleave i p"
| "button_step p (Press i x y) = on_mousedown i x y p"
| "button_step p (Lift i x y) = on_mouseup i x y p"
| "button_step p Lifted = p\<lparr>lastActive := None\<rparr>"
| "button_step p (Click_label i) = on_click i p"
| "button_step p (Key_activate i) = (if off (btn p i) then p else activate i p)"
| "button_step p (Key_down i c) = on_keydown i c p"
| "button_step p (Key_up i) = on_keyup i p"
| "button_step p (Gains_focus i) = put_btn i (\<lambda>b. b\<lparr>has_focus := True\<rparr>) p"
| "button_step p (Loses_focus i) = on_keyup i (put_btn i (\<lambda>b. b\<lparr>has_focus := False\<rparr>) p)"
| "button_step p (Disable i v) = set_disabled i v p"

text \<open>The mouse is released where it was pressed.\<close>

fun no_drag :: "button_page \<Rightarrow> button_event \<Rightarrow> bool" where
  "no_drag p (Lift i x y) = (startPos p = Some (x, y))"
| "no_drag p e = True"

inductive button_reachable :: "button_page \<Rightarrow> button_page \<Rightarrow> bool" for start :: button_page where
  nothing_yet: "button_reachable start start"
| one_event: "button_reachable start p \<Longrightarrow> no_drag p e \<Longrightarrow> button_reachable start (button_step p e)"

section \<open>Labels show the state of their elements\<close>

text \<open>The browser keeps at most one radio button of a group checked.\<close>

definition labels_ok :: "button_page \<Rightarrow> bool" where
  "labels_ok p \<longleftrightarrow> (\<forall>i. toggles (btn p i) \<longrightarrow> active (btn p i) = checked (btn p i)) \<and> \<not> clickDragged p \<and>
     (\<forall>i. lastActive p = Some i \<longrightarrow> \<not> toggles (btn p i)) \<and>
     (\<forall>i. kind (btn p i) = Radio \<longrightarrow> button_group p i \<noteq> None) \<and>
     (\<forall>i j. kind (btn p i) = Radio \<longrightarrow> checked (btn p i) \<longrightarrow> in_group p i j \<longrightarrow> checked (btn p j) \<longrightarrow> j = i)"

lemma put_btn_sel [simp]:
  "btn (put_btn i f p) = (btn p)(i := f (btn p i))" "button_group (put_btn i f p) = button_group p"
  "lastActive (put_btn i f p) = lastActive p" "clickDragged (put_btn i f p) = clickDragged p"
  "startPos (put_btn i f p) = startPos p"
  by (simp_all add: put_btn_def)

text \<open>Handlers that leave the kind and the checked state of all elements alone.\<close>

lemma labels_ok_cong:
  assumes "labels_ok p" and "\<And>j. kind (btn q j) = kind (btn p j) \<and> checked (btn q j) = checked (btn p j)"
    and "\<And>j. toggles (btn p j) \<Longrightarrow> active (btn q j) = active (btn p j)" and "button_group q = button_group p"
    and "\<not> clickDragged q" and "\<And>i. lastActive q = Some i \<Longrightarrow> \<not> toggles (btn p i)"
  shows "labels_ok q"
  using assms unfolding labels_ok_def in_group_def toggles_def by simp

lemma labels_okD:
  assumes "labels_ok p"
  shows "toggles (btn p i) \<Longrightarrow> active (btn p i) = checked (btn p i)" and "\<not> clickDragged p"
    and "lastActive p = Some i \<Longrightarrow> \<not> toggles (btn p i)" and "kind (btn p i) = Radio \<Longrightarrow> button_group p i \<noteq> None"
    and "kind (btn p i) = Radio \<Longrightarrow> checked (btn p i) \<Longrightarrow> in_group p i j \<Longrightarrow> checked (btn p j) \<Longrightarrow> j = i"
  using assms unfolding labels_ok_def by blast+

lemma labels_put:
  assumes "labels_ok p" and "kind (f (btn p i)) = kind (btn p i)" and "checked (f (btn p i)) = checked (btn p i)"
    and "toggles (btn p i) \<Longrightarrow> active (f (btn p i)) = active (btn p i)"
  shows "labels_ok (put_btn i f p)"
  by (rule labels_ok_cong [OF assms(1)]) (use assms labels_okD [OF assms(1)] in auto)

lemma labels_put_active:
  assumes ok: "labels_ok p" and "\<not> toggles (btn p i)"
  shows "labels_ok (put_btn i (\<lambda>b. b\<lparr>active := v\<rparr>) p)"
  using assms(2) by (intro labels_put [OF ok]) simp_all

text \<open>Checking one radio button of a group and refreshing the group.\<close>

definition select_radio :: "nat \<Rightarrow> button_page \<Rightarrow> button_page" where
  "select_radio i p = p\<lparr>btn := (\<lambda>j. if in_group p i j
     then (btn p j)\<lparr>checked := (j = i), active := (j = i)\<rparr> else btn p j)\<rparr>"

lemma labels_select:
  assumes "labels_ok p" and "kind (btn p i) = Radio"
  shows "labels_ok (select_radio i p)"
proof -
  let ?q = "select_radio i p"
  have same: "kind (btn ?q j) = kind (btn p j)" "in_group ?q k j = in_group p k j" for j k
    by (simp_all add: select_radio_def in_group_def)
  have i: "in_group p i i" using labels_okD(4) [OF assms] assms(2) by (simp add: in_group_def)
  have here: "checked (btn ?q j) = (if in_group p i j then j = i else checked (btn p j))"
    "active (btn ?q j) = (if in_group p i j then j = i else active (btn p j))" for j
    by (simp_all add: select_radio_def)
  have one: "b = a" if "kind (btn p a) = Radio" "checked (btn ?q a)" "in_group p a b" "checked (btn ?q b)" for a b
  proof (cases "in_group p i a")
    case True
    then have "in_group p i b" using that(3) by (auto simp: in_group_def)
    then show ?thesis using True that(2,4) by (simp add: here)
  next
    case False
    then have "\<not> in_group p i b" using that(1,3) by (auto simp: in_group_def)
    then show ?thesis using False that labels_okD(5) [OF assms(1)] by (simp add: here)
  qed
  have "toggles (btn ?q j) = toggles (btn p j)" for j by (simp add: toggles_def same)
  moreover have "clickDragged ?q = clickDragged p" "lastActive ?q = lastActive p" "button_group ?q = button_group p"
    by (simp_all add: select_radio_def)
  moreover have "active (btn ?q j) = checked (btn ?q j)" if "toggles (btn p j)" for j
    using labels_okD(1) [OF assms(1) that] by (simp add: here)
  ultimately show ?thesis
    using labels_okD(2,3,4) [OF assms(1)] one by (simp only: labels_ok_def same simp_thms) (intro conjI allI impI, simp_all)
qed

lemma activate_radio:
  assumes "kind (btn p i) = Radio" and "button_group p i \<noteq> None" and "\<not> clickDragged p" and "\<not> checked (btn p i)"
  shows "activate i p = select_radio i p"
proof (rule button_page.equality)
  let ?q = "p\<lparr>btn := (\<lambda>j. if j = i then (btn p j)\<lparr>checked := True\<rparr>
      else if in_group p i j then (btn p j)\<lparr>checked := False\<rparr> else btn p j)\<rparr>"
  have ii: "in_group p i i" using assms(1,2) by (simp add: in_group_def)
  have same: "in_group ?q i j = in_group p i j" for j by (simp add: in_group_def)
  have kind: "kind (btn ?q i) = Radio" using assms(1) by simp
  have act: "activate i p = refresh i ?q" using assms(1,3,4) by (simp add: activate_def on_change_def)
  have ref: "refresh i ?q = ?q\<lparr>btn := (\<lambda>j. if in_group p i j then (btn ?q j)\<lparr>active := checked (btn ?q j)\<rparr> else btn ?q j)\<rparr>"
    unfolding refresh_def kind by (simp only: button_type.case same)
  show "btn (activate i p) = btn (select_radio i p)"
    unfolding act ref select_radio_def by (rule ext) (use ii in simp)
qed (use assms in \<open>simp_all add: activate_def on_change_def refresh_def select_radio_def\<close>)

text \<open>Clicking the label of a radio button ends in the same state, whether it was checked before or not.\<close>

lemma click_radio:
  assumes "labels_ok p" and "kind (btn p i) = Radio" and "\<not> off (btn p i)"
  shows "on_click i p = select_radio i p"
proof -
  let ?q = "p\<lparr>btn := (\<lambda>j. if j = i then (btn p j)\<lparr>active := True\<rparr>
      else if in_group p i j then (btn p j)\<lparr>active := False\<rparr> else btn p j)\<rparr>"
  have nd: "\<not> clickDragged p" and grp: "button_group p i \<noteq> None" using labels_okD(2,4) [OF assms(1)] assms(2) by blast+
  have q: "kind (btn ?q i) = Radio" "button_group ?q i \<noteq> None" "\<not> clickDragged ?q" "checked (btn ?q i) = checked (btn p i)"
    using assms(2) grp nd by simp_all
  have same: "in_group ?q i j = in_group p i j" for j by (simp add: in_group_def)
  have ii: "in_group p i i" using assms(2) grp by (simp add: in_group_def)
  have click: "on_click i p = activate i ?q" using assms(2,3) nd by (simp add: on_click_def)
  show ?thesis
  proof (cases "checked (btn p i)")
    case True
    have others: "\<not> checked (btn p j)" if "in_group p i j" "j \<noteq> i" for j
      using labels_okD(5) [OF assms(1,2) True that(1)] that(2) by blast
    have "activate i ?q = ?q" using True assms(2) by (simp add: activate_def)
    also have "\<dots> = select_radio i p"
      using True others ii by (auto simp: select_radio_def fun_eq_iff)
    finally show ?thesis using click by simp
  next
    case False
    then have "activate i ?q = select_radio i ?q" using activate_radio [OF q(1,2,3)] q(4) by simp
    also have "\<dots> = select_radio i p" using ii by (auto simp: select_radio_def same fun_eq_iff)
    finally show ?thesis using click by simp
  qed
qed

text \<open>Selecting the radio button that is checked changes nothing.\<close>

lemma select_checked:
  assumes ok: "labels_ok p" and radio: "kind (btn p i) = Radio" and on: "checked (btn p i)"
  shows "select_radio i p = p"
proof -
  have "checked (btn p j) = (j = i) \<and> active (btn p j) = (j = i)" if "in_group p i j" for j
  proof -
    have "toggles (btn p j)" using that by (simp add: in_group_def toggles_def)
    then show ?thesis using labels_okD(1) [OF ok, of j] labels_okD(5) [OF ok radio on that] on by blast
  qed
  then have "(if in_group p i j then (btn p j)\<lparr>checked := (j = i), active := (j = i)\<rparr> else btn p j) = btn p j" for j
    by (auto intro!: button.equality)
  then show ?thesis unfolding select_radio_def by simp
qed

lemma labels_checkbox:
  assumes "labels_ok p" and "kind (btn p i) = Checkbox"
  shows "labels_ok (activate i p)"
proof -
  have "activate i p = put_btn i (\<lambda>b. b\<lparr>checked := \<not> checked b, active := \<not> checked b\<rparr>) p"
    using labels_okD(2) [OF assms(1)] assms(2) by (simp add: activate_def on_change_def refresh_def put_btn_def)
  moreover have "labels_ok \<dots>"
    unfolding labels_ok_def
  proof (intro conjI allI impI)
    fix k j
    let ?q = "put_btn i (\<lambda>b. b\<lparr>checked := \<not> checked b, active := \<not> checked b\<rparr>) p"
    have kinds: "kind (btn ?q k) = kind (btn p k)" for k by simp
    show "toggles (btn ?q k) \<Longrightarrow> active (btn ?q k) = checked (btn ?q k)"
      using labels_okD(1) [OF assms(1), of k] by (cases "k = i") (simp_all add: toggles_def)
    show "\<not> clickDragged ?q" using labels_okD(2) [OF assms(1)] by simp
    show "lastActive ?q = Some k \<Longrightarrow> \<not> toggles (btn ?q k)"
      using labels_okD(3) [OF assms(1), of k] by (cases "k = i") (simp_all add: toggles_def)
    show "kind (btn ?q k) = Radio \<Longrightarrow> button_group ?q k \<noteq> None"
      using labels_okD(4) [OF assms(1), of k] kinds [of k] by (simp del: put_btn_sel(1))
    show "kind (btn ?q k) = Radio \<Longrightarrow> checked (btn ?q k) \<Longrightarrow> in_group ?q k j \<Longrightarrow> checked (btn ?q j) \<Longrightarrow> j = k"
      using labels_okD(5) [OF assms(1), of k j] assms(2) by (auto simp: in_group_def split: if_splits)
  qed
  ultimately show ?thesis by simp
qed

lemma labels_activate: "labels_ok p \<Longrightarrow> labels_ok (activate i p)"
proof (cases "kind (btn p i)")
  case Radio
  assume ok: "labels_ok p"
  show ?thesis
  proof (cases "checked (btn p i)")
    case True
    then show ?thesis using Radio ok by (simp add: activate_def)
  next
    case False
    then show ?thesis using activate_radio labels_select labels_okD(2,4) [OF ok] ok Radio by metis
  qed
qed (auto simp: labels_checkbox, simp_all add: activate_def)

lemma labels_click:
  assumes "labels_ok p"
  shows "labels_ok (on_click i p)"
proof (cases "off (btn p i)")
  case False
  show ?thesis
  proof (cases "kind (btn p i)")
    case Radio
    then show ?thesis using click_radio labels_select assms False by metis
  next
    case Checkbox
    then show ?thesis using assms False labels_checkbox labels_okD(2) [OF assms] by (simp add: on_click_def)
  qed (use assms in \<open>simp_all add: on_click_def\<close>)
qed (use assms in \<open>simp add: on_click_def\<close>)

lemma labels_press:
  assumes ok: "labels_ok p"
  shows "labels_ok (on_mousedown i x y p)"
proof (cases "off (btn p i)")
  case True
  then show ?thesis using ok by (simp add: mouse_defs)
next
  case False
  show ?thesis
  proof (cases "toggles (btn p i)")
    case True
    have "labels_ok (p\<lparr>clickDragged := False, startPos := Some (x, y)\<rparr>)"
      by (rule labels_ok_cong [OF ok]) (use labels_okD(3) [OF ok] in simp_all)
    then show ?thesis using True False by (simp add: mouse_defs)
  next
    case not: False
    have "labels_ok ((put_btn i (\<lambda>b. b\<lparr>active := True\<rparr>) p)\<lparr>lastActive := Some i\<rparr>)"
      by (rule labels_ok_cong [OF ok]) (use not labels_okD(2) [OF ok] in auto)
    then show ?thesis using not False by (simp add: mouse_defs)
  qed
qed

lemma labels_up: "labels_ok p \<Longrightarrow> labels_ok (on_keyup i p)"
  unfolding on_keyup_def by (simp add: labels_put_active)

lemma labels_step:
  assumes ok: "labels_ok p" and "no_drag p e"
  shows "labels_ok (button_step p e)"
proof (cases e)
  case (Enter i)
  show ?thesis unfolding Enter button_step.simps on_mouseenter_def
    using ok labels_okD(3) [OF ok, of i] by (simp add: labels_put_active)
next
  case (Leave i)
  show ?thesis unfolding Leave button_step.simps on_mouseleave_def using ok by (simp add: labels_put_active)
next
  case (Lift i x y)
  then have "startPos p = Some (x, y)" using assms(2) by simp
  then show ?thesis unfolding Lift button_step.simps mouse_defs using ok by (simp add: labels_put_active)
next
  case Lifted
  show ?thesis unfolding Lifted button_step.simps
    by (rule labels_ok_cong [OF ok]) (use labels_okD(2) [OF ok] in simp_all)
next
  case (Key_down i c)
  show ?thesis unfolding Key_down button_step.simps on_keydown_def using ok by (simp add: labels_put_active)
next
  case (Loses_focus i)
  show ?thesis unfolding Loses_focus button_step.simps by (intro labels_up labels_put) (simp_all add: ok)
next
  case (Gains_focus i)
  show ?thesis unfolding Gains_focus button_step.simps by (rule labels_put) (simp_all add: ok)
next
  case (Disable i v)
  show ?thesis unfolding Disable button_step.simps set_disabled_def by (rule labels_put) (simp_all add: ok)
qed (simp_all add: ok labels_press labels_click labels_activate labels_up)

text \<open>
  C22: Whatever the mouse and the keyboard do with the buttons of a page, as long as the mouse is
  released where it was pressed, the label of every check box and of every radio button that has a
  name is active exactly when its element is checked, and one radio button of a group at most is.
\<close>

theorem labels_follow_elements:
  assumes "labels_ok start" and "button_reachable start p"
  shows "(toggles (btn p i) \<longrightarrow> active (btn p i) = checked (btn p i)) \<and>
    (kind (btn p i) = Radio \<longrightarrow> active (btn p i) \<longrightarrow> in_group p i j \<longrightarrow> active (btn p j) \<longrightarrow> j = i)"
proof -
  have ok: "labels_ok p" using assms(2,1) by (induction rule: button_reachable.induct) (auto intro: labels_step)
  then have "j = i" if "kind (btn p i) = Radio" "active (btn p i)" "in_group p i j" "active (btn p j)"
    using that labels_okD(1) [OF ok] labels_okD(5) [OF ok that(1)] by (auto simp: in_group_def toggles_def)
  then show ?thesis using labels_okD(1) [OF ok] by blast
qed

text \<open>
  After the mouse was dragged over a check box, that is released somewhere else than it was
  pressed, a change of any check box by the keyboard is not shown: the flag \<open>clickDragged\<close> is only
  cleared by the next press of the mouse, and until then the handler of the change does nothing.
\<close>

theorem drag_hides_next_change:
  assumes "labels_ok p" and "kind (btn p i) = Checkbox" and "\<not> off (btn p i)" and "kind (btn p k) = Checkbox" and "\<not> off (btn p k)"
    and "(x, y) \<noteq> (x', y')"
    and "q = button_step (button_step (button_step p (Press i x y)) (Lift i x' y')) (Key_activate k)"
  shows "checked (btn q k) = (\<not> checked (btn p k)) \<and> active (btn q k) = (\<not> checked (btn q k))"
  using assms labels_okD(1) [OF assms(1), of k]
  by (auto simp: mouse_defs toggles_def activate_def on_change_def)

definition three_buttons :: button_page where
  "three_buttons = \<lparr>btn = (\<lambda>i. create_button_state ''input'' (if i < 2 then ''radio'' else ''checkbox'') False (i = 0)),
     button_group = (\<lambda>i. if i < 2 then Some 1 else None), lastActive = None, startPos = None, clickDragged = False\<rparr>"

lemma three_buttons_ok: "labels_ok three_buttons"
  by (auto simp: labels_ok_def three_buttons_def create_button_state_def determineButtonType_def toggles_def in_group_def
      Let_def split: if_splits)

theorem labels_follow_elements_witness:
  "active (btn (button_step three_buttons (Click_label 1)) 1) = checked (btn (button_step three_buttons (Click_label 1)) 1)"
proof -
  have r: "button_reachable three_buttons (button_step three_buttons (Click_label 1))"
    by (rule button_reachable.one_event [OF button_reachable.nothing_yet]) simp
  have "toggles (btn (button_step three_buttons (Click_label 1)) 1)"
    by (simp add: on_click_def activate_def on_change_def refresh_def three_buttons_def create_button_state_def
        determineButtonType_def toggles_def in_group_def Let_def)
  then show ?thesis using labels_follow_elements [OF three_buttons_ok r, of 1] by blast
qed

theorem drag_hides_next_change_witness:
  "\<not> active (btn (button_step (button_step (button_step three_buttons (Press 2 5 5)) (Lift 2 6 5)) (Key_activate 3)) 3)"
  using drag_hides_next_change [OF three_buttons_ok, of 2 3 5 5 6 5, OF _ _ _ _ _ refl]
  by (simp add: three_buttons_def create_button_state_def determineButtonType_def Let_def)

text \<open>
  Clicking the label of a check box or radio button has the same effect as activating the element
  with the keyboard: although the handler of a click changes the labels of a group itself, before the
  browser changes the elements, the page is the same afterwards as after the refresh alone.
\<close>

theorem click_like_keyboard:
  assumes ok: "labels_ok p" and tog: "toggles (btn p i)"
  shows "button_step p (Click_label i) = button_step p (Key_activate i)"
proof (cases "off (btn p i) \<or> kind (btn p i) = Checkbox")
  case True
  then show ?thesis using labels_okD(2) [OF ok] by (auto simp: on_click_def)
next
  case False
  then have radio: "kind (btn p i) = Radio" and on: "\<not> off (btn p i)" using tog by (auto simp: toggles_def)
  note click = click_radio [OF ok radio on]
  show ?thesis
  proof (cases "checked (btn p i)")
    case True
    then show ?thesis using click select_checked [OF ok radio] on radio by (simp add: activate_def)
  next
    case False
    then show ?thesis using click activate_radio [OF radio labels_okD(4,2) [OF ok] False] on radio by simp
  qed
qed

theorem click_like_keyboard_witness:
  "button_step three_buttons (Click_label 1) = button_step three_buttons (Key_activate 1)"
  by (rule click_like_keyboard [OF three_buttons_ok])
    (simp add: three_buttons_def create_button_state_def determineButtonType_def toggles_def Let_def)

end
