(* ===== verification/JqCallbacks.thy ===== *)
theory JqCallbacks
  imports Prelude
begin

text \<open>
  \<open>jQuery.Callbacks\<close> of \<open>jquery-1.9.1.js\<close>, the list of functions behind deferred objects, queues and
  the promises of effects. The functions of a list are free to work on the list while it is firing:
  they add and remove functions, fire again, lock, disable or empty the list, and they may throw. The
  code copes with that by adjusting indices into the list; the abstract description is a list of
  what is behind and a queue of what is still to be called.
\<close>

section \<open>The state of a callback list\<close>

record callback_options =
  once :: bool
  memory :: bool
  unique :: bool
  stopOnFalse :: bool

definition has_flag :: "string \<Rightarrow> string \<Rightarrow> bool" where
  "has_flag flag s \<longleftrightarrow> flag \<in> set (split_on CHR '' '' [] (map (\<lambda>c. if is_space c then CHR '' '' else c) s))"

definition createOptions :: "string \<Rightarrow> callback_options" where
  "createOptions s = \<lparr>once = has_flag ''once'' s, memory = has_flag ''memory'' s, unique = has_flag ''unique'' s,
     stopOnFalse = has_flag ''stopOnFalse'' s\<rparr>"

text \<open>
  The variables of the closure. \<open>fns\<close> is \<open>list\<close>, \<open>None\<close> once it is disabled; \<open>waiting\<close> is \<open>stack\<close>, \<open>None\<close>
  for \<open>false\<close> and \<open>undefined\<close>; \<open>remembered\<close> is \<open>memory\<close>, the context and arguments of the last fire.
\<close>

record ('f, 'd) callbacks =
  opts :: callback_options
  fns :: "'f list option"
  waiting :: "'d list option"
  remembered :: "'d option"
  fired :: bool
  firing :: bool
  firingStart :: nat
  firingIndex :: int
  firingLength :: int

definition Callbacks :: "callback_options \<Rightarrow> ('f, 'd) callbacks" where
  "Callbacks opt = \<lparr>opts = opt, fns = Some [], waiting = (if once opt then None else Some []), remembered = None,
     fired = False, firing = False, firingStart = 0, firingIndex = 0, firingLength = 0\<rparr>"

section \<open>Firing\<close>

text \<open>
  The loop of \<open>fire\<close> is cut at the calls: \<open>resume\<close> is the rest of the loop up to the next call, the
  end, or the exception that calling an \<open>undefined\<close> element raises; the argument is the variable \<open>data\<close>.
\<close>

datatype ('f, 'd) outcome = Calls 'f 'd | Ends | Throws

definition begin_fire :: "'d \<Rightarrow> ('f, 'd) callbacks \<Rightarrow> ('f, 'd) callbacks" where
  "begin_fire d c = c\<lparr>remembered := (if memory (opts c) then Some d else None), fired := True,
     firingIndex := int (firingStart c), firingStart := 0,
     firingLength := (case fns c of None \<Rightarrow> 0 | Some l \<Rightarrow> int (length l)), firing := True\<rparr>"

definition disable :: "('f, 'd) callbacks \<Rightarrow> ('f, 'd) callbacks" where
  "disable c = c\<lparr>fns := None, waiting := None, remembered := None\<rparr>"

definition loop_done :: "('f, 'd) callbacks \<Rightarrow> bool" where
  "loop_done c \<longleftrightarrow> fns c = None \<or> firingLength c \<le> firingIndex c"

text \<open>After the loop the next of the waiting fires starts, if any.\<close>

definition next_fire :: "('f, 'd) callbacks \<Rightarrow> 'd option" where
  "next_fire c = (case (fns c, waiting c) of (Some _, Some (d # _)) \<Rightarrow> Some d | _ \<Rightarrow> None)"

definition end_fire :: "('f, 'd) callbacks \<Rightarrow> ('f, 'd) callbacks" where
  "end_fire c =
     (case (fns c, waiting c) of
        (None, _) \<Rightarrow> c\<lparr>firing := False\<rparr>
      | (Some l, Some w) \<Rightarrow> c\<lparr>firing := False, waiting := Some (tl w)\<rparr>
      | (Some l, None) \<Rightarrow> if remembered c \<noteq> None then c\<lparr>firing := False, fns := Some []\<rparr> else disable (c\<lparr>firing := False\<rparr>))"

function (sequential) resume :: "bool \<Rightarrow> 'd \<Rightarrow> ('f, 'd) callbacks \<Rightarrow> ('f, 'd) outcome \<times> ('f, 'd) callbacks" where
  "resume stop d c =
     (if \<not> stop \<and> \<not> loop_done c
      then (if 0 \<le> firingIndex c \<and> nat (firingIndex c) < length (the (fns c))
            then (Calls (the (fns c) ! nat (firingIndex c)) d, c) else (Throws, c))
      else (case next_fire c of
              None \<Rightarrow> (Ends, end_fire c)
            | Some e \<Rightarrow> resume False e (begin_fire e (end_fire c))))"
  by pat_completeness auto
termination
  by (relation "measure (\<lambda>(stop, d, c). case waiting c of None \<Rightarrow> 0 | Some w \<Rightarrow> length w)")
    (auto simp: next_fire_def end_fire_def begin_fire_def split: option.splits list.splits)

declare resume.simps [simp del]

definition fire :: "'d \<Rightarrow> ('f, 'd) callbacks \<Rightarrow> ('f, 'd) outcome \<times> ('f, 'd) callbacks" where
  "fire d c = resume False d (begin_fire d c)"

text \<open>A function returns; \<open>returned_false\<close> says whether it returned \<open>false\<close>.\<close>

definition returns :: "bool \<Rightarrow> 'd \<Rightarrow> ('f, 'd) callbacks \<Rightarrow> ('f, 'd) outcome \<times> ('f, 'd) callbacks" where
  "returns returned_false d c =
     (if returned_false \<and> stopOnFalse (opts c) then resume True d (c\<lparr>remembered := None\<rparr>)
      else resume False d (c\<lparr>firingIndex := firingIndex c + 1\<rparr>))"

section \<open>The operations of a list\<close>

text \<open>Arguments of \<open>add\<close>: functions, arrays of arguments, and whatever else is ignored.\<close>

datatype 'f cb_arg = Function 'f | Collection "'f cb_arg list" | Ignored

definition has :: "'f \<Rightarrow> ('f, 'd) callbacks \<Rightarrow> bool" where
  "has f c \<longleftrightarrow> (case fns c of None \<Rightarrow> False | Some l \<Rightarrow> f \<in> set l)"

definition has_any :: "('f, 'd) callbacks \<Rightarrow> bool" where
  "has_any c \<longleftrightarrow> (case fns c of None \<Rightarrow> False | Some l \<Rightarrow> l \<noteq> [])"

definition push_fn :: "bool \<Rightarrow> 'f \<Rightarrow> 'f list \<Rightarrow> 'f list" where
  "push_fn uniq f l = (if \<not> uniq \<or> f \<notin> set l then l @ [f] else l)"

fun add_args :: "bool \<Rightarrow> 'f cb_arg list \<Rightarrow> 'f list \<Rightarrow> 'f list" where
  "add_args uniq [] l = l"
| "add_args uniq (Function f # as) l = add_args uniq as (push_fn uniq f l)"
| "add_args uniq (Collection bs # as) l = add_args uniq as (add_args uniq bs l)"
| "add_args uniq (Ignored # as) l = add_args uniq as l"

definition add :: "'f cb_arg list \<Rightarrow> ('f, 'd) callbacks \<Rightarrow> ('f, 'd) outcome \<times> ('f, 'd) callbacks" where
  "add as c =
     (case fns c of
        None \<Rightarrow> (Ends, c)
      | Some l \<Rightarrow>
          let c' = c\<lparr>fns := Some (add_args (unique (opts c)) as l)\<rparr>
          in if firing c then (Ends, c'\<lparr>firingLength := int (length (the (fns c')))\<rparr>)
             else case remembered c of
                    None \<Rightarrow> (Ends, c')
                  | Some d \<Rightarrow> fire d (c'\<lparr>firingStart := length l\<rparr>))"

function inArray :: "'f \<Rightarrow> 'f list \<Rightarrow> nat \<Rightarrow> nat option" where
  "inArray f l i = (if i < length l then if l ! i = f then Some i else inArray f l (Suc i) else None)"
  by pat_completeness auto
termination
  by (relation "measure (\<lambda>(f, l, i). length l - i)") auto

declare inArray.simps [simp del]

definition splice_out :: "nat \<Rightarrow> 'f list \<Rightarrow> 'f list" where
  "splice_out i l = take i l @ drop (Suc i) l"

lemma inArray_less: "inArray f l i = Some j \<Longrightarrow> i \<le> j \<and> j < length l \<and> l ! j = f"
proof (induction f l i rule: inArray.induct)
  case (1 f l i)
  then show ?case by (auto simp: inArray.simps [of f l i] split: if_splits dest: Suc_leD)
qed

definition remove_at :: "nat \<Rightarrow> ('f, 'd) callbacks \<Rightarrow> ('f, 'd) callbacks" where
  "remove_at i c =
     (let c1 = c\<lparr>fns := map_option (splice_out i) (fns c)\<rparr>
      in if firing c
         then c1\<lparr>firingLength := (if int i \<le> firingLength c then firingLength c - 1 else firingLength c),
                firingIndex := (if int i \<le> firingIndex c then firingIndex c - 1 else firingIndex c)\<rparr>
         else c1)"

function (sequential) remove_from :: "'f \<Rightarrow> nat \<Rightarrow> ('f, 'd) callbacks \<Rightarrow> ('f, 'd) callbacks" where
  "remove_from f i c =
     (case fns c of
        None \<Rightarrow> c
      | Some l \<Rightarrow> (case inArray f l i of None \<Rightarrow> c | Some j \<Rightarrow> remove_from f j (remove_at j c)))"
  by pat_completeness auto
termination
  by (relation "measure (\<lambda>(f, i, c). case fns c of None \<Rightarrow> 0 | Some l \<Rightarrow> length l)")
    (auto simp: remove_at_def splice_out_def Let_def dest!: inArray_less)

declare remove_from.simps [simp del]

definition remove :: "'f list \<Rightarrow> ('f, 'd) callbacks \<Rightarrow> ('f, 'd) callbacks" where
  "remove fs c = (if fns c = None then c else fold (\<lambda>f. remove_from f 0) fs c)"

definition empty :: "('f, 'd) callbacks \<Rightarrow> ('f, 'd) callbacks" where
  "empty c = c\<lparr>fns := Some []\<rparr>"

definition lock :: "('f, 'd) callbacks \<Rightarrow> ('f, 'd) callbacks" where
  "lock c = (let c' = c\<lparr>waiting := None\<rparr> in if remembered c = None then disable c' else c')"

definition locked :: "('f, 'd) callbacks \<Rightarrow> bool" where
  "locked c \<longleftrightarrow> waiting c = None"

definition disabled :: "('f, 'd) callbacks \<Rightarrow> bool" where
  "disabled c \<longleftrightarrow> fns c = None"

definition fireWith :: "'d \<Rightarrow> ('f, 'd) callbacks \<Rightarrow> ('f, 'd) outcome \<times> ('f, 'd) callbacks" where
  "fireWith d c =
     (if fns c \<noteq> None \<and> (\<not> fired c \<or> waiting c \<noteq> None)
      then (if firing c then (case waiting c of None \<Rightarrow> (Throws, c) | Some w \<Rightarrow> (Ends, c\<lparr>waiting := Some (w @ [d])\<rparr>))
            else fire d c)
      else (Ends, c))"

section \<open>A list in use\<close>

text \<open>
  What happens to a list, in its order: operations, and the end of the call that is running. A
  function that is running may work on its own list, so every event is possible at any time; the
  end of a call only while there is one. \<open>running\<close> is the function that is being called, with the
  data of its fire, and \<open>calls\<close> all calls so far.
\<close>

record ('f, 'd) cb_machine =
  cbs :: "('f, 'd) callbacks"
  running :: "('f \<times> 'd) option"
  calls :: "('f \<times> 'd) list"

datatype ('f, 'd) cb_event =
    Add "'f cb_arg list"
  | Remove "'f list"
  | Empty
  | Disable
  | Lock
  | Fire 'd
  | Return bool
  | Throw

definition new_list :: "callback_options \<Rightarrow> ('f, 'd) cb_machine" where
  "new_list opt = \<lparr>cbs = Callbacks opt, running = None, calls = []\<rparr>"

text \<open>An exception leaves the loop; nothing catches it here, so the caller gets it.\<close>

definition op_result :: "('f, 'd) outcome \<times> ('f, 'd) callbacks \<Rightarrow> ('f, 'd) cb_machine \<Rightarrow> ('f, 'd) cb_machine" where
  "op_result r m =
     (case r of
        (Calls f d, c) \<Rightarrow> m\<lparr>cbs := c, running := Some (f, d), calls := calls m @ [(f, d)]\<rparr>
      | (_, c) \<Rightarrow> m\<lparr>cbs := c\<rparr>)"

definition call_result :: "('f, 'd) outcome \<times> ('f, 'd) callbacks \<Rightarrow> ('f, 'd) cb_machine \<Rightarrow> ('f, 'd) cb_machine" where
  "call_result r m = op_result r (m\<lparr>running := None\<rparr>)"

fun cb_step :: "('f, 'd) cb_machine \<Rightarrow> ('f, 'd) cb_event \<Rightarrow> ('f, 'd) cb_machine" where
  "cb_step m (Add as) = op_result (add as (cbs m)) m"
| "cb_step m (Remove fs) = m\<lparr>cbs := remove fs (cbs m)\<rparr>"
| "cb_step m Empty = m\<lparr>cbs := empty (cbs m)\<rparr>"
| "cb_step m Disable = m\<lparr>cbs := disable (cbs m)\<rparr>"
| "cb_step m Lock = m\<lparr>cbs := lock (cbs m)\<rparr>"
| "cb_step m (Fire d) = op_result (fireWith d (cbs m)) m"
| "cb_step m (Return b) =
     (case running m of None \<Rightarrow> m | Some (f, d) \<Rightarrow> call_result (returns b d (cbs m)) m)"
| "cb_step m Throw = m\<lparr>running := None\<rparr>"

definition cb_run :: "('f, 'd) cb_machine \<Rightarrow> ('f, 'd) cb_event list \<Rightarrow> ('f, 'd) cb_machine" where
  "cb_run m es = fold (\<lambda>e m. cb_step m e) es m"

lemma cb_run_simps [simp]: "cb_run m [] = m" "cb_run m (e # es) = cb_run (cb_step m e) es"
  by (simp_all add: cb_run_def)

lemma cb_run_append: "cb_run m (es @ fs) = cb_run (cb_run m es) fs"
  by (simp add: cb_run_def)

section \<open>What a list is to do\<close>

text \<open>
  The abstract description has no indices: \<open>behind\<close> are the functions of the list that this firing
  has reached, \<open>todo\<close> those it has not. Functions that are added while the list is firing come
  into \<open>todo\<close>, removed ones leave both parts.
\<close>

record ('f, 'd) fire_queue =
  behind :: "'f list"
  todo :: "'f list"
  active :: bool
  pending :: "'d list option"
  latest :: "'d option"
  ever :: bool
  busy :: bool

definition q_members :: "('f, 'd) fire_queue \<Rightarrow> 'f list" where
  "q_members q = behind q @ todo q"

definition q_begin :: "callback_options \<Rightarrow> 'd \<Rightarrow> 'f list \<Rightarrow> 'f list \<Rightarrow> ('f, 'd) fire_queue \<Rightarrow> ('f, 'd) fire_queue" where
  "q_begin opt d b t q = q\<lparr>behind := b, todo := t, latest := (if memory opt then Some d else None), ever := True, busy := True\<rparr>"

definition q_disable :: "('f, 'd) fire_queue \<Rightarrow> ('f, 'd) fire_queue" where
  "q_disable q = q\<lparr>behind := [], todo := [], active := False, pending := None, latest := None\<rparr>"

definition q_rest :: "('f, 'd) fire_queue \<Rightarrow> ('f, 'd) fire_queue" where
  "q_rest q = q\<lparr>behind := q_members q, todo := [], busy := False\<rparr>"

text \<open>A list that can fire once is empty afterwards, and without memory it is of no use any more.\<close>

definition q_over :: "('f, 'd) fire_queue \<Rightarrow> ('f, 'd) fire_queue" where
  "q_over q = (if latest q = None then q_disable (q_rest q) else (q_rest q)\<lparr>behind := []\<rparr>)"

function (sequential) q_next :: "callback_options \<Rightarrow> bool \<Rightarrow> 'd \<Rightarrow> ('f, 'd) fire_queue \<Rightarrow> ('f, 'd) outcome \<times> ('f, 'd) fire_queue" where
  "q_next opt stop d q =
     (case (stop, todo q) of
        (False, f # r) \<Rightarrow> (Calls f d, q\<lparr>behind := behind q @ [f], todo := r\<rparr>)
      | _ \<Rightarrow> if \<not> active q then (Ends, q_rest q)
             else (case pending q of
                     None \<Rightarrow> (Ends, q_over q)
                   | Some [] \<Rightarrow> (Ends, q_rest q)
                   | Some (e # es) \<Rightarrow> q_next opt False e (q_begin opt e [] (q_members q) (q\<lparr>pending := Some es\<rparr>))))"
  by pat_completeness auto
termination
  by (relation "measure (\<lambda>(opt, stop, d, q). case pending q of None \<Rightarrow> 0 | Some w \<Rightarrow> length w)") (auto simp: q_begin_def)

declare q_next.simps [simp del]

definition q_add :: "callback_options \<Rightarrow> 'f cb_arg list \<Rightarrow> ('f, 'd) fire_queue \<Rightarrow> ('f, 'd) outcome \<times> ('f, 'd) fire_queue" where
  "q_add opt as q =
     (let new = drop (length (q_members q)) (add_args (unique opt) as (q_members q))
      in if \<not> active q then (Ends, q)
         else if busy q then (Ends, q\<lparr>todo := todo q @ new\<rparr>)
         else (case latest q of
                 None \<Rightarrow> (Ends, q\<lparr>behind := behind q @ new\<rparr>)
               | Some d \<Rightarrow> q_next opt False d (q_begin opt d (behind q) new q)))"

definition q_remove :: "'f list \<Rightarrow> ('f, 'd) fire_queue \<Rightarrow> ('f, 'd) fire_queue" where
  "q_remove fs q = q\<lparr>behind := filter (\<lambda>f. f \<notin> set fs) (behind q), todo := filter (\<lambda>f. f \<notin> set fs) (todo q)\<rparr>"

definition q_fire :: "callback_options \<Rightarrow> 'd \<Rightarrow> ('f, 'd) fire_queue \<Rightarrow> ('f, 'd) outcome \<times> ('f, 'd) fire_queue" where
  "q_fire opt d q =
     (if \<not> active q \<or> ever q \<and> pending q = None then (Ends, q)
      else if busy q then (Ends, q\<lparr>pending := map_option (\<lambda>w. w @ [d]) (pending q)\<rparr>)
      else q_next opt False d (q_begin opt d [] (q_members q) q))"

definition q_return :: "callback_options \<Rightarrow> bool \<Rightarrow> 'd \<Rightarrow> ('f, 'd) fire_queue \<Rightarrow> ('f, 'd) outcome \<times> ('f, 'd) fire_queue" where
  "q_return opt returned_false d q =
     (if returned_false \<and> stopOnFalse opt then q_next opt True d (q\<lparr>latest := None\<rparr>) else q_next opt False d q)"

definition q_lock :: "('f, 'd) fire_queue \<Rightarrow> ('f, 'd) fire_queue" where
  "q_lock q = (if latest q = None then q_disable q else q\<lparr>pending := None\<rparr>)"

section \<open>The indices implement the queue\<close>

text \<open>Where the list is split: behind the function that is being called, or behind the last one.\<close>

definition queue_at :: "nat \<Rightarrow> ('f, 'd) callbacks \<Rightarrow> ('f, 'd) fire_queue" where
  "queue_at k c =
     \<lparr>behind = (case fns c of None \<Rightarrow> [] | Some l \<Rightarrow> take k l), todo = (case fns c of None \<Rightarrow> [] | Some l \<Rightarrow> drop k l),
      active = (fns c \<noteq> None), pending = waiting c, latest = remembered c, ever = fired c, busy = firing c\<rparr>"

definition split_point :: "('f, 'd) callbacks \<Rightarrow> nat" where
  "split_point c = (if firing c then nat (firingIndex c + 1) else case fns c of None \<Rightarrow> 0 | Some l \<Rightarrow> length l)"

definition queue_of :: "('f, 'd) callbacks \<Rightarrow> ('f, 'd) fire_queue" where
  "queue_of c = queue_at (split_point c) c"

definition list_ok :: "('f, 'd) callbacks \<Rightarrow> bool" where
  "list_ok c \<longleftrightarrow> firingStart c = 0 \<and> (firing c \<longrightarrow> fired c) \<and>
     (\<forall>l. firing c \<longrightarrow> fns c = Some l \<longrightarrow> firingLength c = int (length l) \<and> - 1 \<le> firingIndex c \<and> firingIndex c < int (length l)) \<and>
     (fns c = None \<longrightarrow> waiting c = None \<and> remembered c = None)"

definition loop_ok :: "('f, 'd) callbacks \<Rightarrow> bool" where
  "loop_ok c \<longleftrightarrow> firingStart c = 0 \<and> firing c \<and> fired c \<and>
     (\<forall>l. fns c = Some l \<longrightarrow> firingLength c = int (length l) \<and> - 1 \<le> firingIndex c \<and> firingIndex c \<le> int (length l)) \<and>
     (fns c = None \<longrightarrow> waiting c = None \<and> remembered c = None)"

lemma list_okI_idle: "firingStart c = 0 \<Longrightarrow> \<not> firing c \<Longrightarrow> (fns c = None \<Longrightarrow> waiting c = None \<and> remembered c = None) \<Longrightarrow> list_ok c"
  by (simp add: list_ok_def)

lemma queue_idle:
  "\<not> firing c \<Longrightarrow> fns c = Some l \<Longrightarrow> queue_of c =
     \<lparr>behind = l, todo = [], active = True, pending = waiting c, latest = remembered c, ever = fired c, busy = False\<rparr>"
  by (simp add: queue_of_def queue_at_def split_point_def)

lemma queue_disabled:
  "fns c = None \<Longrightarrow> queue_at k c =
     \<lparr>behind = [], todo = [], active = False, pending = waiting c, latest = remembered c, ever = fired c, busy = firing c\<rparr>"
  by (simp add: queue_at_def)

text \<open>Starting a fire splits the list where it starts.\<close>

lemma begin_splits:
  assumes "fns c = Some l" and "firingStart c \<le> length l"
  shows "loop_ok (begin_fire d c)" and "nat (firingIndex (begin_fire d c)) = firingStart c"
    and "queue_at (firingStart c) (begin_fire d c) =
      q_begin (opts c) d (take (firingStart c) l) (drop (firingStart c) l) (queue_at k c)"
    and "opts (begin_fire d c) = opts c"
  using assms by (simp_all add: begin_fire_def loop_ok_def queue_at_def q_begin_def)

definition after_loop :: "('f, 'd) outcome \<Rightarrow> ('f, 'd) callbacks \<Rightarrow> bool" where
  "after_loop r c \<longleftrightarrow> list_ok c \<and> r \<noteq> Throws \<and> (firing c \<longleftrightarrow> (\<exists>f d. r = Calls f d))"

lemma resume_next:
  assumes "loop_ok c" and "stop \<or> fns c = None \<or> k = nat (firingIndex c) \<and> 0 \<le> firingIndex c"
  shows "q_next (opts c) stop d (queue_at k c) =
      (fst (resume stop d c), queue_of (snd (resume stop d c))) \<and>
    after_loop (fst (resume stop d c)) (snd (resume stop d c)) \<and> opts (snd (resume stop d c)) = opts c"
  using assms
proof (induction stop d c arbitrary: k rule: resume.induct)
  case (1 stop d c)
  let ?i = "nat (firingIndex c)"
  show ?case
  proof (cases "fns c")
    case None
    then have "resume stop d c = (Ends, c\<lparr>firing := False\<rparr>)"
      by (simp add: resume.simps loop_done_def next_fire_def end_fire_def)
    moreover have "q_next (opts c) stop d (queue_at k c) = (Ends, q_rest (queue_at k c))"
      using None by (simp add: q_next.simps queue_disabled split: bool.split)
    ultimately show ?thesis
      using None "1.prems"(1) by (simp add: after_loop_def list_ok_def loop_ok_def queue_of_def queue_disabled q_rest_def q_members_def)
  next
    case (Some l)
    have idx: "- 1 \<le> firingIndex c" "firingIndex c \<le> int (length l)" "firingLength c = int (length l)"
      and c: "firingStart c = 0" "firing c" "fired c"
      using "1.prems"(1) Some by (simp_all add: loop_ok_def)
    have q: "queue_at k c = \<lparr>behind = take k l, todo = drop k l, active = True, pending = waiting c, latest = remembered c,
        ever = fired c, busy = firing c\<rparr>"
      using Some by (simp add: queue_at_def)
    show ?thesis
    proof (cases "\<not> stop \<and> firingIndex c < int (length l)")
      case True
      then have i: "0 \<le> firingIndex c" and k: "k = ?i" using "1.prems"(2) Some by simp_all
      then have lt: "?i < length l" using True by linarith
      then have "resume stop d c = (Calls (l ! ?i) d, c)"
        using True Some idx i by (simp add: resume.simps loop_done_def)
      moreover have "drop ?i l = l ! ?i # drop (Suc ?i) l" by (simp add: Cons_nth_drop_Suc lt)
      moreover have "split_point c = Suc ?i" using c i by (simp add: split_point_def nat_add_distrib)
      ultimately show ?thesis
        using True lt Some q idx c k
        by (simp add: q_next.simps queue_of_def queue_at_def after_loop_def list_ok_def take_Suc_conv_app_nth)
    next
      case False
      then have ends: "\<not> (\<not> stop \<and> \<not> loop_done c)" using Some idx by (auto simp: loop_done_def)
      have drop: "stop \<or> drop k l = []" using False Some idx "1.prems"(2) by auto
      have whole: "take k l @ f # r = l" if "drop k l = f # r" for f r using that by (metis append_take_drop_id)
      from drop have "q_next (opts c) stop d (queue_at k c) =
          (case waiting c of
             None \<Rightarrow> (Ends, q_over (queue_at k c))
           | Some [] \<Rightarrow> (Ends, q_rest (queue_at k c))
           | Some (e # es) \<Rightarrow> q_next (opts c) False e (q_begin (opts c) e [] l (queue_at k c\<lparr>pending := Some es\<rparr>)))"
        unfolding q by (subst q_next.simps) (auto simp: q_members_def whole split: bool.split list.split option.split)
      note spec = this
      show ?thesis
      proof (cases "next_fire c")
        case None
        then have "resume stop d c = (Ends, end_fire c)" using ends by (subst resume.simps) simp
        moreover have "waiting c = None \<or> waiting c = Some []"
          using None Some by (auto simp: next_fire_def split: option.splits list.splits)
        ultimately show ?thesis
          using Some spec c q
          by (auto simp: end_fire_def after_loop_def list_ok_def queue_of_def queue_at_def split_point_def q_rest_def q_over_def
              q_disable_def q_members_def disable_def)
      next
        case (Some e)
        then obtain es where w: "waiting c = Some (e # es)"
          by (auto simp: next_fire_def split: option.splits list.splits)
        let ?c = "end_fire c"
        have f: "fns ?c = Some l" "firingStart ?c = 0" "waiting ?c = Some es" "opts ?c = opts c"
          using w \<open>fns c = Some l\<close> c by (simp_all add: end_fire_def)
        note b = begin_splits [OF f(1), of e, unfolded f(2,4), simplified]
        have res: "resume stop d c = resume False e (begin_fire e ?c)"
          using ends Some by (subst resume.simps) (simp only: if_False option.case)
        have "q_begin (opts c) e [] l (queue_at k c\<lparr>pending := Some es\<rparr>) = queue_at 0 (begin_fire e ?c)"
          using f q by (simp add: q_begin_def queue_at_def begin_fire_def)
        then show ?thesis
          using "1.IH" [OF ends Some b(1), of 0] spec w b(2,4) f(2) by (simp add: res begin_fire_def)
      qed
    qed
  qed
qed

lemma fire_next:
  assumes "list_ok c" and "fns c = Some l" and "s \<le> length l"
  shows "q_next (opts c) False d (q_begin (opts c) d (take s l) (drop s l) (queue_at k c)) =
      (fst (fire d (c\<lparr>firingStart := s\<rparr>)), queue_of (snd (fire d (c\<lparr>firingStart := s\<rparr>)))) \<and>
    after_loop (fst (fire d (c\<lparr>firingStart := s\<rparr>))) (snd (fire d (c\<lparr>firingStart := s\<rparr>))) \<and>
    opts (snd (fire d (c\<lparr>firingStart := s\<rparr>))) = opts c"
proof -
  let ?c = "c\<lparr>firingStart := s\<rparr>"
  have f: "fns ?c = Some l" "firingStart ?c \<le> length l" "opts ?c = opts c" using assms by simp_all
  note b = begin_splits [OF f(1,2), of d, unfolded f(3)]
  have "queue_at k ?c = queue_at k c" by (simp add: queue_at_def)
  then show ?thesis using resume_next [OF b(1), of False s d] b(1,2,4) b(3) [of k] unfolding fire_def by (simp add: begin_fire_def)
qed

lemma add_args_prefix: "\<exists>new. add_args u as l = l @ new"
proof (induction u as l rule: add_args.induct)
  case (2 u f as l)
  then show ?case by (auto simp: push_fn_def split: if_splits)
next
  case (3 u bs as l)
  then obtain x y where "add_args u bs l = l @ x" "add_args u as (add_args u bs l) = add_args u bs l @ y" by blast
  then show ?case by simp
qed simp_all

lemma members_queue: "q_members (queue_of c) = (case fns c of None \<Rightarrow> [] | Some l \<Rightarrow> l)"
  by (simp add: q_members_def queue_of_def queue_at_def split: option.split)

lemma opts_begin [simp]: "opts (begin_fire d c) = opts c" and opts_end [simp]: "opts (end_fire c) = opts c"
  by (auto simp: begin_fire_def end_fire_def disable_def split: option.split)

lemma add_queue:
  assumes ok: "list_ok c"
  shows "q_add (opts c) as (queue_of c) = (fst (add as c), queue_of (snd (add as c))) \<and> list_ok (snd (add as c)) \<and>
    fst (add as c) \<noteq> Throws \<and> (firing (snd (add as c)) \<longleftrightarrow> firing c \<or> (\<exists>f d. fst (add as c) = Calls f d)) \<and>
    opts (snd (add as c)) = opts c \<and> (firing c \<longrightarrow> fst (add as c) = Ends)"
proof (cases "fns c")
  case None
  then show ?thesis using ok by (simp add: add_def q_add_def queue_of_def queue_disabled)
next
  case (Some l)
  obtain new where new: "add_args (unique (opts c)) as l = l @ new" using add_args_prefix by blast
  let ?c = "c\<lparr>fns := Some (l @ new)\<rparr>"
  have drop: "drop (length (q_members (queue_of c))) (add_args (unique (opts c)) as (q_members (queue_of c))) = new"
    using Some new by (simp add: members_queue)
  have act: "active (queue_of c)" "busy (queue_of c) = firing c" "latest (queue_of c) = remembered c"
    using Some by (simp_all add: queue_of_def queue_at_def)
  show ?thesis
  proof (cases "firing c")
    case True
    have k: "split_point c \<le> length l" using ok True Some by (auto simp: list_ok_def split_point_def)
    have "split_point (?c\<lparr>firingLength := int (length (l @ new))\<rparr>) = split_point c" using True by (simp add: split_point_def)
    then show ?thesis
      using True Some new drop act k ok by (auto simp: add_def q_add_def Let_def queue_of_def queue_at_def list_ok_def)
  next
    case False
    have ok': "list_ok ?c" using ok Some False by (simp add: list_ok_def)
    show ?thesis
    proof (cases "remembered c")
      case None
      then show ?thesis
        using False Some new drop act ok ok'
        by (simp add: add_def q_add_def queue_idle)
    next
      case rem: (Some d)
      have upd: "c\<lparr>fns := Some (l @ new), firingStart := length l\<rparr> = ?c\<lparr>firingStart := length l\<rparr>" by simp
      have "q_begin (opts c) d (behind (queue_of c)) new (queue_of c) = q_begin (opts c) d l new (queue_at 0 ?c)"
        using Some False by (simp add: queue_idle q_begin_def queue_at_def)
      then show ?thesis
        using fire_next [OF ok', of "l @ new" "length l" d 0] False Some new drop act rem
        by (auto simp: add_def q_add_def after_loop_def)
    qed
  qed
qed

lemma fire_queue:
  assumes ok: "list_ok c"
  shows "q_fire (opts c) d (queue_of c) = (fst (fireWith d c), queue_of (snd (fireWith d c))) \<and> list_ok (snd (fireWith d c)) \<and>
    fst (fireWith d c) \<noteq> Throws \<and> (firing (snd (fireWith d c)) \<longleftrightarrow> firing c \<or> (\<exists>f d'. fst (fireWith d c) = Calls f d')) \<and>
    opts (snd (fireWith d c)) = opts c \<and> (firing c \<longrightarrow> fst (fireWith d c) = Ends)"
proof (cases "fns c \<noteq> None \<and> (\<not> fired c \<or> waiting c \<noteq> None)")
  case False
  then have "fireWith d c = (Ends, c)" by (simp only: fireWith_def if_False)
  moreover have "q_fire (opts c) d (queue_of c) = (Ends, queue_of c)"
    using False by (auto simp: q_fire_def queue_of_def queue_at_def)
  ultimately show ?thesis using ok by simp
next
  case True
  then obtain l where l: "fns c = Some l" by blast
  have act: "active (queue_of c)" "busy (queue_of c) = firing c" "ever (queue_of c) = fired c" "pending (queue_of c) = waiting c"
    using l by (simp_all add: queue_of_def queue_at_def)
  show ?thesis
  proof (cases "firing c")
    case firing: True
    then obtain w where w: "waiting c = Some w" using True ok by (auto simp: list_ok_def)
    have "split_point (c\<lparr>waiting := Some (w @ [d])\<rparr>) = split_point c" using firing by (simp add: split_point_def)
    then show ?thesis
      using True firing w l act ok by (auto simp: fireWith_def q_fire_def queue_of_def queue_at_def list_ok_def)
  next
    case False
    have start: "c\<lparr>firingStart := 0\<rparr> = c" using ok by (simp add: list_ok_def)
    have "q_members (queue_of c) = l" using l by (simp add: members_queue)
    moreover have "q_begin (opts c) d [] l (queue_of c) = q_begin (opts c) d [] l (queue_at 0 c)"
      by (simp add: q_begin_def queue_of_def queue_at_def)
    ultimately show ?thesis
      using fire_next [OF ok l, of 0 d 0] True False act unfolding start
      by (auto simp: fireWith_def q_fire_def after_loop_def)
  qed
qed

lemma return_queue:
  assumes ok: "list_ok c" and firing: "firing c"
  shows "q_return (opts c) b d (queue_of c) = (fst (returns b d c), queue_of (snd (returns b d c))) \<and>
    after_loop (fst (returns b d c)) (snd (returns b d c)) \<and> opts (snd (returns b d c)) = opts c"
proof (cases "b \<and> stopOnFalse (opts c)")
  case False
  have "loop_ok (c\<lparr>firingIndex := firingIndex c + 1\<rparr>)" "fns c = None \<or> 0 \<le> firingIndex c + 1"
    using ok firing by (auto simp: list_ok_def loop_ok_def)
  moreover have "queue_at (nat (firingIndex c + 1)) (c\<lparr>firingIndex := firingIndex c + 1\<rparr>) = queue_of c"
    using firing by (simp add: queue_of_def queue_at_def split_point_def)
  ultimately show ?thesis using resume_next [of "c\<lparr>firingIndex := firingIndex c + 1\<rparr>" False "nat (firingIndex c + 1)" d] False
    by (auto simp: returns_def q_return_def)
next
  case True
  have "loop_ok (c\<lparr>remembered := None\<rparr>)" using ok firing by (auto simp: list_ok_def loop_ok_def)
  moreover have "queue_at k (c\<lparr>remembered := None\<rparr>) = (queue_at k c)\<lparr>latest := None\<rparr>" for k by (simp add: queue_at_def)
  ultimately show ?thesis
    using resume_next [of "c\<lparr>remembered := None\<rparr>" True "split_point c" d] True
    by (auto simp: returns_def q_return_def queue_of_def)
qed

text \<open>Removing one occurrence takes it from the part in which it is.\<close>

lemma list_parts:
  "fns c = Some l \<Longrightarrow> behind (queue_of c) = take (split_point c) l \<and> todo (queue_of c) = drop (split_point c) l"
  by (simp add: queue_of_def queue_at_def)

lemma remove_at_parts:
  assumes ok: "list_ok c" and l: "fns c = Some l" and j: "j < length l"
  defines "k \<equiv> split_point c"
  shows "list_ok (remove_at j c)" and "fns (remove_at j c) = Some (splice_out j l)"
    and "split_point (remove_at j c) = (if j < k then k - 1 else k)"
    and "k \<le> length l"
proof -
  have len: "length (splice_out j l) = length l - 1" using j by (simp add: splice_out_def)
  show "fns (remove_at j c) = Some (splice_out j l)" using l by (simp add: remove_at_def Let_def)
  have b: "firing c \<Longrightarrow> firingLength c = int (length l) \<and> - 1 \<le> firingIndex c \<and> firingIndex c < int (length l)"
    using ok l by (simp add: list_ok_def)
  show "list_ok (remove_at j c)"
    using ok l j b len by (auto simp: remove_at_def Let_def list_ok_def)
  show "k \<le> length l" using b l by (auto simp: k_def split_point_def)
  show "split_point (remove_at j c) = (if j < k then k - 1 else k)"
    using b l j len by (auto simp: k_def split_point_def remove_at_def Let_def)
qed

lemma filter_splice:
  assumes "j < length l" and "l ! j = f"
  shows "filter (\<lambda>x. x \<noteq> f) (take (if j < k then k - 1 else k) (splice_out j l)) = filter (\<lambda>x. x \<noteq> f) (take k l)"
    and "filter (\<lambda>x. x \<noteq> f) (drop (if j < k then k - 1 else k) (splice_out j l)) = filter (\<lambda>x. x \<noteq> f) (drop k l)"
proof -
  define a b where "a = take j l" and "b = drop (Suc j) l"
  have l: "l = a @ f # b" using assms id_take_nth_drop [of j l] by (simp add: a_def b_def)
  have s: "splice_out (length a) (a @ f # b) = a @ b" by (simp add: splice_out_def)
  have j: "j = length a" using assms by (simp add: a_def)
  show "filter (\<lambda>x. x \<noteq> f) (take (if j < k then k - 1 else k) (splice_out j l)) = filter (\<lambda>x. x \<noteq> f) (take k l)"
    and "filter (\<lambda>x. x \<noteq> f) (drop (if j < k then k - 1 else k) (splice_out j l)) = filter (\<lambda>x. x \<noteq> f) (drop k l)"
    unfolding l j by (auto simp: s take_Cons' drop_Cons')
qed

lemma inArray_None: "inArray f l i = None \<Longrightarrow> f \<notin> set (drop i l)"
proof (induction f l i rule: inArray.induct)
  case (1 f l i)
  then show ?case
    by (cases "i < length l") (auto simp: inArray.simps [of f l i] Cons_nth_drop_Suc [symmetric] split: if_splits)
qed

lemma inArray_before: "inArray f l i = Some j \<Longrightarrow> f \<notin> set (take i l) \<Longrightarrow> f \<notin> set (take j l)"
proof (induction f l i rule: inArray.induct)
  case (1 f l i)
  then show ?case
    by (cases "i < length l") (auto simp: inArray.simps [of f l i] take_Suc_conv_app_nth split: if_splits)
qed

lemma queue_eqI:
  assumes "fns c' = Some l'" and "fns c = Some l" and "waiting c' = waiting c" "remembered c' = remembered c" "fired c' = fired c" "firing c' = firing c"
    and "take (split_point c') l' = b" and "drop (split_point c') l' = t"
  shows "queue_of c' = (queue_of c)\<lparr>behind := b, todo := t\<rparr>"
  using assms by (simp add: queue_of_def queue_at_def)

lemma remove_at_same [simp]:
  "waiting (remove_at i c) = waiting c" "remembered (remove_at i c) = remembered c" "fired (remove_at i c) = fired c"
  "firing (remove_at i c) = firing c" "opts (remove_at i c) = opts c"
  by (simp_all add: remove_at_def Let_def)

lemma remove_from_queue:
  assumes "list_ok c" and "fns c = Some l" and "f \<notin> set (take i l)"
  shows "queue_of (remove_from f i c) = q_remove [f] (queue_of c) \<and> list_ok (remove_from f i c) \<and>
    fns (remove_from f i c) \<noteq> None \<and> opts (remove_from f i c) = opts c \<and> firing (remove_from f i c) = firing c"
  using assms
proof (induction f i c arbitrary: l rule: remove_from.induct)
  case (1 f i c)
  show ?case
  proof (cases "inArray f l i")
    case None
    then have "f \<notin> set l" using inArray_None "1.prems"(3) by (metis Un_iff append_take_drop_id set_append)
    moreover have "set (take k l) \<subseteq> set l" "set (drop k l) \<subseteq> set l" for k by (simp_all add: set_take_subset set_drop_subset)
    ultimately have "filter (\<lambda>x. x \<noteq> f) (take k l) = take k l" "filter (\<lambda>x. x \<noteq> f) (drop k l) = drop k l" for k
      by (intro filter_True ballI; blast)+
    then have "q_remove [f] (queue_of c) = queue_of c" using "1.prems"(2) by (simp add: q_remove_def queue_of_def queue_at_def)
    then show ?thesis using None "1.prems" by (simp add: remove_from.simps [of f i c])
  next
    case (Some j)
    have j: "j < length l" "l ! j = f" "f \<notin> set (take j l)"
      using inArray_less [OF Some] inArray_before [OF Some] "1.prems"(3) by simp_all
    note parts = remove_at_parts [OF "1.prems"(1,2) j(1)]
    have "f \<notin> set (take j (splice_out j l))" using j by (simp add: splice_out_def min_def)
    note IH = "1.IH" [OF "1.prems"(2) Some parts(1,2) this]
    have "q_remove [f] (queue_of (remove_at j c)) = q_remove [f] (queue_of c)"
      using filter_splice [OF j(1,2), of "split_point c"] parts(3) "1.prems"(2) parts(2)
      by (simp add: q_remove_def queue_of_def queue_at_def)
    moreover have "remove_from f i c = remove_from f j (remove_at j c)"
      using Some "1.prems"(2) by (simp add: remove_from.simps [of f i c])
    ultimately show ?thesis using IH by simp
  qed
qed

lemma remove_queue:
  assumes "list_ok c"
  shows "queue_of (remove fs c) = q_remove fs (queue_of c) \<and> list_ok (remove fs c) \<and> opts (remove fs c) = opts c \<and>
    firing (remove fs c) = firing c"
proof (cases "fns c = None")
  case True
  then show ?thesis using assms by (simp add: remove_def q_remove_def queue_of_def queue_disabled)
next
  case False
  have "queue_of (fold (\<lambda>f. remove_from f 0) fs c) = q_remove fs (queue_of c) \<and> list_ok (fold (\<lambda>f. remove_from f 0) fs c) \<and>
    opts (fold (\<lambda>f. remove_from f 0) fs c) = opts c \<and> firing (fold (\<lambda>f. remove_from f 0) fs c) = firing c"
    using assms False
  proof (induction fs arbitrary: c)
    case Nil
    then show ?case by (simp add: q_remove_def)
  next
    case (Cons f fs)
    obtain l where l: "fns c = Some l" using Cons.prems(2) by blast
    have "f \<notin> set (take 0 l)" by simp
    note step = remove_from_queue [OF Cons.prems(1) l this]
    have "q_remove fs (q_remove [f] (queue_of c)) = q_remove (f # fs) (queue_of c)"
      by (simp add: q_remove_def conj_commute)
    then show ?case using Cons.IH [of "remove_from f 0 c"] step by simp
  qed
  then show ?thesis using False unfolding remove_def by (simp only: if_False simp_thms)
qed

section \<open>Lists in use refine queues in use\<close>

record ('f, 'd) queue_machine =
  queue :: "('f, 'd) fire_queue"
  q_running :: "('f \<times> 'd) option"
  q_calls :: "('f \<times> 'd) list"

definition q_result :: "('f, 'd) outcome \<times> ('f, 'd) fire_queue \<Rightarrow> ('f, 'd) queue_machine \<Rightarrow> ('f, 'd) queue_machine" where
  "q_result r m =
     (case r of
        (Calls f d, q) \<Rightarrow> m\<lparr>queue := q, q_running := Some (f, d), q_calls := q_calls m @ [(f, d)]\<rparr>
      | (_, q) \<Rightarrow> m\<lparr>queue := q\<rparr>)"

fun queue_step :: "callback_options \<Rightarrow> ('f, 'd) queue_machine \<Rightarrow> ('f, 'd) cb_event \<Rightarrow> ('f, 'd) queue_machine" where
  "queue_step opt m (Add as) = q_result (q_add opt as (queue m)) m"
| "queue_step opt m (Remove fs) = m\<lparr>queue := q_remove fs (queue m)\<rparr>"
| "queue_step opt m Empty = m\<lparr>queue := (queue m)\<lparr>behind := [], todo := [], active := True\<rparr>\<rparr>"
| "queue_step opt m Disable = m\<lparr>queue := q_disable (queue m)\<rparr>"
| "queue_step opt m Lock = m\<lparr>queue := q_lock (queue m)\<rparr>"
| "queue_step opt m (Fire d) = q_result (q_fire opt d (queue m)) m"
| "queue_step opt m (Return b) =
     (case q_running m of None \<Rightarrow> m | Some (f, d) \<Rightarrow> q_result (q_return opt b d (queue m)) (m\<lparr>q_running := None\<rparr>))"
| "queue_step opt m Throw = m\<lparr>q_running := None\<rparr>"

definition machine_ok :: "('f, 'd) cb_machine \<Rightarrow> bool" where
  "machine_ok m \<longleftrightarrow> list_ok (cbs m) \<and> (running m \<noteq> None \<longrightarrow> firing (cbs m))"

definition abs_machine :: "('f, 'd) cb_machine \<Rightarrow> ('f, 'd) queue_machine" where
  "abs_machine m = \<lparr>queue = queue_of (cbs m), q_running = running m, q_calls = calls m\<rparr>"

text \<open>The one operation that the code does not prepare the running loop for is \<open>empty\<close>.\<close>

fun empties_quietly :: "('f, 'd) cb_machine \<Rightarrow> ('f, 'd) cb_event \<Rightarrow> bool" where
  "empties_quietly m Empty = (\<not> firing (cbs m))"
| "empties_quietly m e = True"

lemma result_refines:
  assumes "(fst r, queue_of (snd r)) = q" and "list_ok (snd r)" and "fst r \<noteq> Throws"
    and "firing (snd r) \<longleftrightarrow> busy_before \<or> (\<exists>f d. fst r = Calls f d)" and "running m \<noteq> None \<longrightarrow> busy_before"
  shows "abs_machine (op_result r m) = q_result q (abs_machine m) \<and> machine_ok (op_result r m)"
  using assms by (cases r; cases "fst r") (auto simp: op_result_def q_result_def abs_machine_def machine_ok_def)

lemma cb_step_refines:
  assumes ok: "machine_ok m" and "empties_quietly m e"
  shows "abs_machine (cb_step m e) = queue_step (opts (cbs m)) (abs_machine m) e \<and> machine_ok (cb_step m e) \<and>
    opts (cbs (cb_step m e)) = opts (cbs m)"
proof -
  have list: "list_ok (cbs m)" and run: "running m \<noteq> None \<longrightarrow> firing (cbs m)" using ok by (simp_all add: machine_ok_def)
  have opts_result: "opts (cbs (op_result r m')) = opts (snd r)" for r and m' :: "('a, 'b) cb_machine"
    by (auto simp: op_result_def split: prod.split outcome.split)
  show ?thesis
  proof (cases e)
    case (Add as)
    note q = add_queue [OF list, of as]
    show ?thesis
      using result_refines [where r = "add as (cbs m)" and m = m, OF _ _ _ _ run] q
      by (simp add: Add opts_result abs_machine_def)
  next
    case (Fire d)
    note q = fire_queue [OF list, of d]
    show ?thesis
      using result_refines [where r = "fireWith d (cbs m)" and m = m, OF _ _ _ _ run] q
      by (simp add: Fire opts_result abs_machine_def)
  next
    case (Return b)
    show ?thesis
    proof (cases "running m")
      case None
      then show ?thesis using ok by (simp add: Return abs_machine_def)
    next
      case (Some fd)
      obtain f d where fd: "fd = (f, d)" by force
      have "firing (cbs m)" using run Some by simp
      note q = return_queue [OF list this, of b d]
      show ?thesis
        using result_refines [where r = "returns b d (cbs m)" and m = "m\<lparr>running := None\<rparr>" and busy_before = False] q Some
        by (simp add: Return fd opts_result abs_machine_def call_result_def after_loop_def)
    qed
  next
    case (Remove fs)
    then show ?thesis using remove_queue [OF list, of fs] run by (simp add: abs_machine_def machine_ok_def)
  next
    case Empty
    then have "\<not> firing (cbs m)" using assms(2) by simp
    then show ?thesis
      using Empty list run by (auto simp: abs_machine_def machine_ok_def empty_def list_ok_def queue_of_def queue_at_def split_point_def)
  next
    case Disable
    then show ?thesis
      using list run by (auto simp: abs_machine_def machine_ok_def disable_def list_ok_def queue_of_def queue_at_def q_disable_def)
  next
    case Lock
    then show ?thesis
      using list run
      by (auto simp: abs_machine_def machine_ok_def lock_def disable_def list_ok_def queue_of_def queue_at_def q_lock_def q_disable_def
          split_point_def Let_def)
  next
    case Throw
    then show ?thesis using ok by (auto simp: abs_machine_def machine_ok_def)
  qed
qed

text \<open>A run in which no list is emptied while it fires.\<close>

fun quiet_run :: "('f, 'd) cb_machine \<Rightarrow> ('f, 'd) cb_event list \<Rightarrow> bool" where
  "quiet_run m [] = True"
| "quiet_run m (e # es) = (empties_quietly m e \<and> quiet_run (cb_step m e) es)"

lemma new_list_ok: "machine_ok (new_list opt)" "opts (cbs (new_list opt)) = opt"
  by (simp_all add: new_list_def machine_ok_def Callbacks_def list_ok_def)

lemma run_refines:
  assumes "machine_ok m" and "quiet_run m es"
  shows "abs_machine (cb_run m es) = fold (\<lambda>e q. queue_step (opts (cbs m)) q e) es (abs_machine m) \<and>
    machine_ok (cb_run m es) \<and> opts (cbs (cb_run m es)) = opts (cbs m)"
  using assms
proof (induction es arbitrary: m)
  case (Cons e es)
  then show ?case using cb_step_refines [of m e] by simp
qed simp

definition new_queue :: "callback_options \<Rightarrow> ('f, 'd) queue_machine" where
  "new_queue opt = \<lparr>queue = \<lparr>behind = [], todo = [], active = True, pending = (if once opt then None else Some []), latest = None,
     ever = False, busy = False\<rparr>, q_running = None, q_calls = []\<rparr>"

lemma abs_new_list: "abs_machine (new_list opt) = new_queue opt"
  by (simp add: new_list_def new_queue_def abs_machine_def Callbacks_def queue_of_def queue_at_def split_point_def)

text \<open>
  C23: Whatever functions do with a list while it fires (adding, removing, firing again, locking,
  disabling, throwing), the loop over indices calls the same functions with the same data in the
  same order as the queue in which added functions come last, removed ones are taken out and later
  fires wait for their turn. Runs in which a list is emptied while it fires are left out (\<open>quiet_run\<close>):
  there the code throws.
\<close>

theorem callbacks_refine_queue:
  assumes "quiet_run (new_list opt) es"
  shows "abs_machine (cb_run (new_list opt) es) = fold (\<lambda>e q. queue_step opt q e) es (new_queue opt)"
  using run_refines [OF new_list_ok(1) assms] by (simp add: abs_new_list new_list_ok)

definition plain_opts :: callback_options where
  "plain_opts = \<lparr>once = False, memory = False, unique = False, stopOnFalse = False\<rparr>"

text \<open>The running function removes itself and adds another one.\<close>

theorem callbacks_refine_queue_witness:
  "q_calls (fold (\<lambda>e q. queue_step plain_opts q e)
      [Add [Function 1, Function 2], Fire (7::nat), Remove [1], Add [Function (3::nat)], Return False, Return False, Return False]
      (new_queue plain_opts)) =
    calls (cb_run (new_list plain_opts)
      [Add [Function 1, Function 2], Fire 7, Remove [1], Add [Function 3], Return False, Return False, Return False])"
proof -
  have "quiet_run (new_list plain_opts) [Add [Function 1, Function 2], Fire (7::nat), Remove [1], Add [Function (3::nat)],
      Return False, Return False, Return False]" by simp
  from callbacks_refine_queue [OF this] show ?thesis by (metis abs_machine_def queue_machine.select_convs(3))
qed

section \<open>Exceptions\<close>

text \<open>After an exception \<open>firing\<close> stays set with nothing running.\<close>

definition stuck :: "('f, 'd) cb_machine \<Rightarrow> bool" where
  "stuck m \<longleftrightarrow> firing (cbs m) \<and> running m = None"

lemma remove_from_firing [simp]: "firing (remove_from f i c) = firing c"
proof (induction f i c rule: remove_from.induct)
  case (1 f i c)
  then show ?case by (subst remove_from.simps) (auto split: option.split)
qed

lemma remove_firing [simp]: "firing (remove fs c) = firing c"
proof -
  have "firing (fold (\<lambda>f. remove_from f 0) fs c) = firing c" by (induction fs arbitrary: c) simp_all
  then show ?thesis by (simp add: remove_def)
qed

lemma stuck_step: "stuck m \<Longrightarrow> stuck (cb_step m e) \<and> calls (cb_step m e) = calls m"
  by (cases e)
    (auto simp: stuck_def op_result_def add_def fireWith_def disable_def lock_def empty_def Let_def split: option.split)

lemma stuck_forever: "stuck m \<Longrightarrow> calls (cb_run m es) = calls m"
  by (induction es arbitrary: m) (simp_all add: stuck_step)

text \<open>A function that throws ends the use of its list: there is no \<open>finally\<close> around the loop.\<close>

lemma throw_blocks_list:
  assumes "machine_ok m" and "running m \<noteq> None"
  shows "calls (cb_run (cb_step m Throw) es) = calls m"
  using assms stuck_forever [of "m\<lparr>running := None\<rparr>" es] by (simp add: stuck_def machine_ok_def)

text \<open>\<open>empty\<close> brings a disabled list that was never fired back to life.\<close>

lemma empty_enables:
  "\<not> disabled (cbs (cb_run (new_list opt) [Disable, Empty])) \<and>
   calls (cb_run (new_list opt) [Disable, Empty, Add [Function f], Fire d]) = [(f, d)]"
  by (simp add: new_list_def Callbacks_def disable_def empty_def disabled_def add_def op_result_def fireWith_def fire_def
      begin_fire_def resume.simps loop_done_def push_fn_def)

text \<open>
  C40: When a function that is running empties its list and another one is still to be called, the loop goes on
  with the length it had and calls \<open>undefined\<close>: \<open>fire\<close> ends with a TypeError, and since the list is
  left in the firing state, none of its functions is ever called again.
\<close>

theorem empty_while_firing_throws:
  assumes "machine_ok m" and "running m = Some (f, d)" and "fns (cbs m) = Some l" and "split_point (cbs m) < length l"
  shows "fst (returns False d (empty (cbs m))) = Throws \<and> calls (cb_run m ([Empty, Return False] @ es)) = calls m"
proof -
  have b: "firing (cbs m)" "firingLength (cbs m) = int (length l)" "- 1 \<le> firingIndex (cbs m)"
    using assms by (auto simp: machine_ok_def list_ok_def)
  then have lt: "firingIndex (cbs m) + 1 < int (length l)" using assms(4) by (simp add: split_point_def)
  have thrown: "returns False d (empty (cbs m)) = (Throws, (empty (cbs m))\<lparr>firingIndex := firingIndex (cbs m) + 1\<rparr>)"
    using b lt by (simp add: returns_def empty_def resume.simps loop_done_def)
  have "stuck (cb_run m [Empty, Return False])"
    using assms(2) thrown b by (simp add: call_result_def op_result_def stuck_def empty_def)
  moreover have "calls (cb_run m [Empty, Return False]) = calls m"
    using assms(2) thrown by (simp add: call_result_def op_result_def)
  ultimately show ?thesis using stuck_forever [of "cb_run m [Empty, Return False]" es] thrown
    by (simp only: cb_run_append fst_conv)
qed

definition two_called :: "(nat, nat) cb_machine" where
  "two_called = cb_run (new_list plain_opts) [Add [Function 1, Function 2], Fire 7]"

lemma two_called_state:
  "machine_ok two_called" "running two_called = Some (1, 7)" "fns (cbs two_called) = Some [1, 2]" "split_point (cbs two_called) = 1"
  by (simp_all add: two_called_def plain_opts_def new_list_def Callbacks_def add_def op_result_def fireWith_def fire_def
      begin_fire_def resume.simps loop_done_def push_fn_def machine_ok_def list_ok_def split_point_def)

theorem empty_while_firing_throws_witness:
  "calls (cb_run two_called ([Empty, Return False] @ [Add [Function 3], Fire 8])) = calls two_called"
  using empty_while_firing_throws [OF two_called_state(1-3), of "[Add [Function 3], Fire 8]"] two_called_state(4) by simp

section \<open>Once with memory\<close>

text \<open>
  The lists of a deferred object: fired at most once, and a function that is added later is called
  at once with the same data. \<open>added\<close> are the functions of the events, \<open>first_fire\<close> the first data.
\<close>

definition once_memory :: callback_options where
  "once_memory = \<lparr>once = True, memory = True, unique = False, stopOnFalse = False\<rparr>"

fun functions_of :: "'f cb_arg list \<Rightarrow> 'f list" where
  "functions_of [] = []"
| "functions_of (Function f # as) = f # functions_of as"
| "functions_of (Collection bs # as) = functions_of bs @ functions_of as"
| "functions_of (Ignored # as) = functions_of as"

lemma add_args_all: "add_args False as l = l @ functions_of as"
  by (induction as arbitrary: l rule: functions_of.induct) (simp_all add: push_fn_def)

fun added :: "('f, 'd) cb_event list \<Rightarrow> 'f list" where
  "added [] = []"
| "added (Add as # es) = functions_of as @ added es"
| "added (e # es) = added es"

fun first_fire :: "('f, 'd) cb_event list \<Rightarrow> 'd option" where
  "first_fire [] = None"
| "first_fire (Fire d # es) = Some d"
| "first_fire (e # es) = first_fire es"

lemma added_append [simp]: "added (es @ fs) = added es @ added fs"
  by (induction es rule: added.induct) simp_all

lemma first_fire_append [simp]: "first_fire (es @ fs) = (case first_fire es of None \<Rightarrow> first_fire fs | Some d \<Rightarrow> Some d)"
  by (induction es rule: first_fire.induct) simp_all

fun only_uses :: "('f, 'd) cb_event \<Rightarrow> bool" where
  "only_uses (Add as) = True"
| "only_uses (Fire d) = True"
| "only_uses (Return b) = True"
| "only_uses e = False"

text \<open>What the queue holds after the functions \<open>fs\<close> were added, before and after the first fire.\<close>

definition before_fire :: "'f list \<Rightarrow> ('f, 'd) queue_machine" where
  "before_fire fs = \<lparr>queue = \<lparr>behind = fs, todo = [], active = True, pending = None, latest = None, ever = False, busy = False\<rparr>,
     q_running = None, q_calls = []\<rparr>"

definition after_fire :: "'f list \<Rightarrow> 'd \<Rightarrow> ('f, 'd) queue_machine" where
  "after_fire fs d = \<lparr>queue = \<lparr>behind = [], todo = [], active = True, pending = None, latest = Some d, ever = True, busy = False\<rparr>,
     q_running = None, q_calls = map (\<lambda>f. (f, d)) fs\<rparr>"

definition during_fire :: "'f list \<Rightarrow> 'f list \<Rightarrow> 'f \<Rightarrow> 'f list \<Rightarrow> 'd \<Rightarrow> ('f, 'd) queue_machine" where
  "during_fire pre b f t d = \<lparr>queue = \<lparr>behind = b @ [f], todo = t, active = True, pending = None, latest = Some d, ever = True,
     busy = True\<rparr>, q_running = Some (f, d), q_calls = map (\<lambda>f. (f, d)) (pre @ b @ [f])\<rparr>"

definition deferred_queue :: "'f list \<Rightarrow> 'd option \<Rightarrow> ('f, 'd) queue_machine \<Rightarrow> bool" where
  "deferred_queue fs v q \<longleftrightarrow>
     (case v of
        None \<Rightarrow> q = before_fire fs
      | Some d \<Rightarrow> q = after_fire fs d \<or> (\<exists>pre b f t. q = during_fire pre b f t d \<and> fs = pre @ b @ [f] @ t))"

lemmas fire_states = before_fire_def after_fire_def during_fire_def

lemma start_queue:
  "q_result (q_next once_memory False d (q_begin once_memory d b t \<lparr>behind = x, todo = y, active = True, pending = None,
       latest = z, ever = e, busy = u\<rparr>))
     \<lparr>queue = q, q_running = None, q_calls = map (\<lambda>f. (f, d)) pre\<rparr> =
   (case t of [] \<Rightarrow> after_fire pre d
    | f # r \<Rightarrow> \<lparr>queue = \<lparr>behind = b @ [f], todo = r, active = True, pending = None, latest = Some d, ever = True, busy = True\<rparr>,
        q_running = Some (f, d), q_calls = map (\<lambda>f. (f, d)) (pre @ [f])\<rparr>)"
  by (cases t) (simp_all add: q_next.simps q_begin_def once_memory_def q_result_def q_over_def q_rest_def after_fire_def)

lemma deferred_add:
  assumes "deferred_queue fs v q"
  shows "deferred_queue (fs @ functions_of as) v (queue_step once_memory q (Add as))"
proof (cases v)
  case None
  then show ?thesis
    using assms by (simp add: deferred_queue_def fire_states q_add_def q_result_def q_members_def add_args_all once_memory_def Let_def)
next
  case (Some d)
  let ?new = "functions_of as"
  from assms Some consider "q = after_fire fs d" | pre b f t where "q = during_fire pre b f t d" "fs = pre @ b @ [f] @ t"
    by (auto simp: deferred_queue_def)
  then show ?thesis
  proof cases
    case 1
    then have "queue_step once_memory q (Add as) =
        q_result (q_next once_memory False d (q_begin once_memory d [] ?new (queue q))) q"
      by (simp add: after_fire_def q_add_def q_members_def add_args_all once_memory_def Let_def)
    also have "\<dots> = (case ?new of [] \<Rightarrow> after_fire fs d | f # r \<Rightarrow> during_fire fs [] f r d)"
      unfolding 1 after_fire_def queue_machine.select_convs start_queue
      by (simp add: after_fire_def during_fire_def split: list.split)
    finally have step: "queue_step once_memory q (Add as) = (case ?new of [] \<Rightarrow> after_fire fs d | f # r \<Rightarrow> during_fire fs [] f r d)" .
    show ?thesis
    proof (cases ?new)
      case Nil
      then show ?thesis using step Some by (simp add: deferred_queue_def)
    next
      case (Cons f r)
      then have "\<exists>pre b g t. during_fire fs [] f r d = during_fire pre b g t d \<and> fs @ f # r = pre @ b @ [g] @ t"
        by (intro exI [of _ fs] exI [of _ "[]"] exI [of _ f] exI [of _ r]) simp
      then show ?thesis using step Some Cons by (simp add: deferred_queue_def)
    qed
  next
    case 2
    then have "queue_step once_memory q (Add as) = during_fire pre b f (t @ ?new) d"
      by (simp add: during_fire_def q_add_def q_result_def q_members_def add_args_all once_memory_def Let_def)
    then show ?thesis using Some 2(2) by (auto simp: deferred_queue_def)
  qed
qed

lemma deferred_fire:
  assumes "deferred_queue fs v q"
  shows "deferred_queue fs (case v of None \<Rightarrow> Some d | Some d' \<Rightarrow> Some d') (queue_step once_memory q (Fire d))"
proof (cases v)
  case None
  then have q: "q = before_fire fs" using assms by (simp add: deferred_queue_def)
  then have "queue_step once_memory q (Fire d) = q_result (q_next once_memory False d (q_begin once_memory d [] fs (queue q))) q"
    by (simp add: before_fire_def q_fire_def q_members_def)
  also have "\<dots> = (case fs of [] \<Rightarrow> after_fire [] d | f # r \<Rightarrow> during_fire [] [] f r d)"
    unfolding q before_fire_def
    by (cases fs) (simp_all add: q_next.simps q_begin_def once_memory_def q_result_def q_over_def q_rest_def after_fire_def during_fire_def)
  finally show ?thesis using None by (auto simp: deferred_queue_def split: list.split intro!: exI [of _ "[]"])
next
  case (Some d')
  then have "queue_step once_memory q (Fire d) = q"
    using assms by (auto simp: deferred_queue_def after_fire_def during_fire_def q_fire_def q_result_def)
  then show ?thesis using assms Some by simp
qed

lemma deferred_return:
  assumes "deferred_queue fs v q"
  shows "deferred_queue fs v (queue_step once_memory q (Return b))"
proof (cases v)
  case None
  then show ?thesis using assms by (simp add: deferred_queue_def before_fire_def)
next
  case (Some d)
  from assms Some consider "q = after_fire fs d" | pre b f t where "q = during_fire pre b f t d" "fs = pre @ b @ [f] @ t"
    by (auto simp: deferred_queue_def)
  then show ?thesis
  proof cases
    case 1
    then have "queue_step once_memory q (Return b) = q" by (simp add: after_fire_def)
    then show ?thesis using assms by simp
  next
    case (2 pre c f t)
    then have "queue_step once_memory q (Return b) = (case t of [] \<Rightarrow> after_fire fs d | g # r \<Rightarrow> during_fire pre (c @ [f]) g r d)"
      by (auto simp: during_fire_def after_fire_def q_return_def q_next.simps q_result_def q_over_def q_rest_def once_memory_def split: list.split)
    then have step: "queue_step once_memory q (Return b) =
        (case t of [] \<Rightarrow> after_fire fs d | g # r \<Rightarrow> during_fire pre (c @ [f]) g r d)" .
    show ?thesis
    proof (cases t)
      case Nil
      then show ?thesis using step Some by (simp add: deferred_queue_def)
    next
      case (Cons g r)
      then have "\<exists>pre' b g' t'. during_fire pre (c @ [f]) g r d = during_fire pre' b g' t' d \<and> fs = pre' @ b @ [g'] @ t'"
        using 2(2) by (intro exI [of _ pre] exI [of _ "c @ [f]"] exI [of _ g] exI [of _ r]) simp
      then show ?thesis using step Some Cons by (simp add: deferred_queue_def)
    qed
  qed
qed

lemma only_uses_quiet: "only_uses e \<Longrightarrow> empties_quietly m e"
  by (cases e) simp_all

lemma deferred_run:
  assumes "list_all only_uses es"
  shows "deferred_queue (added es) (first_fire es) (fold (\<lambda>e q. queue_step once_memory q e) es (new_queue once_memory))"
  using assms
proof (induction es rule: rev_induct)
  case Nil
  then show ?case by (simp add: deferred_queue_def before_fire_def new_queue_def once_memory_def)
next
  case (snoc e es)
  then have IH: "deferred_queue (added es) (first_fire es) (fold (\<lambda>e q. queue_step once_memory q e) es (new_queue once_memory))"
    and e: "only_uses e" by simp_all
  show ?case using e deferred_add [OF IH] deferred_fire [OF IH] deferred_return [OF IH]
    by (cases e; cases "first_fire es") (simp_all del: queue_step.simps)
qed

lemma quiet_uses: "list_all only_uses es \<Longrightarrow> quiet_run m es"
  by (induction es arbitrary: m) (simp_all add: only_uses_quiet)

text \<open>
  A list with the options once and memory calls every function that is ever added to it exactly
  once, in the order in which they were added, all with the data of the first fire, whether they
  were added before the fire, by a function that was running, or afterwards; at any time the calls
  so far are a beginning of that list, and nothing is missing when no function is running.
\<close>

theorem once_memory_calls:
  assumes "list_all only_uses es" and "first_fire es = Some d"
  shows "(\<exists>rest. map (\<lambda>f. (f, d)) (added es) = calls (cb_run (new_list once_memory) es) @ rest \<and>
    (running (cb_run (new_list once_memory) es) = None \<longrightarrow> rest = []))"
proof -
  note ok = run_refines [OF new_list_ok(1) quiet_uses [OF assms(1)]]
  let ?m = "cb_run (new_list once_memory) es"
  have "deferred_queue (added es) (Some d) (abs_machine ?m)"
    using deferred_run [OF assms(1)] ok assms(2) by (simp add: abs_new_list new_list_ok)
  then show ?thesis by (auto simp: deferred_queue_def after_fire_def during_fire_def abs_machine_def)
qed

theorem once_memory_calls_witness:
  "calls (cb_run (new_list once_memory) [Add [Function 1], Fire (5::nat), Add [Function (2::nat)], Return False, Return False, Add [Function 3]])
     \<noteq> [(2, 5)]"
proof -
  have "list_all only_uses [Add [Function 1], Fire (5::nat), Add [Function (2::nat)], Return False, Return False, Add [Function 3]]"
    by simp
  from once_memory_calls [OF this, of 5] show ?thesis by auto
qed

section \<open>Every fire comes to an end\<close>

text \<open>
  When functions only return, every fire ends: with each return either one function less is to be
  called, or one waiting fire less is left.
\<close>

definition waits :: "('f, 'd) fire_queue \<Rightarrow> nat" where
  "waits q = (case pending q of None \<Rightarrow> 0 | Some w \<Rightarrow> length w)"

lemma q_next_less:
  assumes "q_next opt stop d q = (Calls f d', q')"
  shows "waits q' < waits q \<or> waits q' = waits q \<and> length (todo q') < length (todo q)"
  using assms
proof (induction "waits q" arbitrary: stop d q rule: less_induct)
  case (less q stop d)
  show ?case
  proof (cases "\<not> stop \<and> todo q \<noteq> []")
    case True
    then obtain g r where "todo q = g # r" "\<not> stop" by (auto simp: neq_Nil_conv)
    then have "q' = q\<lparr>behind := behind q @ [g], todo := r\<rparr>"
      using less.prems by (auto simp: q_next.simps [of opt False d q])
    then show ?thesis using \<open>todo q = g # r\<close> by (simp add: waits_def)
  next
    case False
    then have eq: "q_next opt stop d q = (if \<not> active q then (Ends, q_rest q)
        else (case pending q of None \<Rightarrow> (Ends, q_over q) | Some [] \<Rightarrow> (Ends, q_rest q)
          | Some (e # es) \<Rightarrow> q_next opt False e (q_begin opt e [] (q_members q) (q\<lparr>pending := Some es\<rparr>))))"
      by (subst q_next.simps) (auto split: bool.split list.split option.split)
    obtain e es where w: "pending q = Some (e # es)" and act: "active q"
      using less.prems unfolding eq by (auto split: if_splits option.splits list.splits)
    have r: "q_next opt False e (q_begin opt e [] (q_members q) (q\<lparr>pending := Some es\<rparr>)) = (Calls f d', q')"
      using less.prems unfolding eq by (simp add: w act)
    have "waits (q_begin opt e [] (q_members q) (q\<lparr>pending := Some es\<rparr>)) = length es" by (simp add: waits_def q_begin_def)
    then have "waits q' \<le> length es" using less.hyps [OF _ r] w by (auto simp: waits_def)
    then show ?thesis using w by (simp add: waits_def)
  qed
qed

lemma return_less:
  assumes "machine_ok m" and "running (cb_step m (Return False)) \<noteq> None" and "running m \<noteq> None"
  shows "(cb_step m (Return False), m) \<in>
    measures [\<lambda>m. waits (queue_of (cbs m)), \<lambda>m. length (todo (queue_of (cbs m)))]"
proof -
  obtain f d where run: "running m = Some (f, d)" using assms(3) by auto
  let ?q = "queue_of (cbs m)" and ?n = "cb_step m (Return False)"
  have "abs_machine ?n = queue_step (opts (cbs m)) (abs_machine m) (Return False)"
    using cb_step_refines [OF assms(1), of "Return False"] by simp
  then have eq: "abs_machine ?n = q_result (q_next (opts (cbs m)) False d ?q) ((abs_machine m)\<lparr>q_running := None\<rparr>)"
    using run by (simp add: abs_machine_def q_return_def)
  obtain o' q' where nxt: "q_next (opts (cbs m)) False d ?q = (o', q')" by force
  have "queue (abs_machine ?n) = q'" using eq by (auto simp: nxt q_result_def split: outcome.splits)
  then have q': "queue_of (cbs ?n) = q'" by (simp add: abs_machine_def)
  have "q_running (abs_machine ?n) \<noteq> None" using assms(2) by (simp add: abs_machine_def)
  then obtain g e where "o' = Calls g e" unfolding eq by (cases o') (simp_all add: nxt q_result_def)
  then have "waits q' < waits ?q \<or> waits q' = waits ?q \<and> length (todo q') < length (todo ?q)"
    using q_next_less nxt by simp
  then show ?thesis by (auto simp: q' simp del: cb_step.simps)
qed

text \<open>
  If the functions of a list do nothing but return, then after finitely many returns no function
  is running and the list is no longer firing, however many fires were waiting.
\<close>

theorem fires_end:
  assumes "machine_ok m" and "running m \<noteq> None"
  shows "\<exists>n. running (cb_run m (replicate n (Return False))) = None \<and> \<not> firing (cbs (cb_run m (replicate n (Return False))))"
  using assms
proof (induction m rule: wf_induct [of "measures [\<lambda>m. waits (queue_of (cbs m)), \<lambda>m. length (todo (queue_of (cbs m)))]"])
  case (2 m)
  let ?n = "cb_step m (Return False)"
  note ok = cb_step_refines [OF "2.prems"(1), of "Return False"]
  show ?case
  proof (cases "running ?n")
    case None
    obtain f d where run: "running m = Some (f, d)" using "2.prems"(2) by auto
    have list: "list_ok (cbs m)" "firing (cbs m)" using "2.prems" by (auto simp: machine_ok_def)
    note r = return_queue [OF list, of False d]
    have "\<not> firing (cbs ?n)"
      using None r run by (auto simp: call_result_def op_result_def after_loop_def split: prod.splits outcome.splits)
    then show ?thesis using None by (intro exI [of _ 1]) simp
  next
    case (Some fd)
    then have some: "running ?n \<noteq> None" by simp
    have "machine_ok ?n" using ok by (simp del: cb_step.simps)
    then obtain n where "running (cb_run ?n (replicate n (Return False))) = None \<and>
        \<not> firing (cbs (cb_run ?n (replicate n (Return False))))"
      using "2.IH" return_less [OF "2.prems"(1) some "2.prems"(2)] some by blast
    then show ?thesis by (intro exI [of _ "Suc n"]) simp
  qed
qed simp

theorem fires_end_witness:
  "\<exists>n. running (cb_run two_called (replicate n (Return False))) = None"
  using fires_end [OF two_called_state(1)] two_called_state(2) by auto

end
