(* ===== verification/JqDeferred.thy ===== *)
theory JqDeferred
  imports JqCallbacks
begin

text \<open>
  \<open>jQuery.Deferred\<close> and \<open>jQuery.when\<close>. A deferred object has three callback lists, of which those for
  \<open>resolve\<close> and \<open>reject\<close> begin with functions that set the state, disable the other one and lock the
  list for \<open>notify\<close>. Functions of one list work on other lists while they run (\<open>then\<close> and \<open>when\<close>
  forward from one deferred object to another), so the calls are nested: the world has a stack of frames.
\<close>

section \<open>Deferred objects\<close>

datatype action = Resolve | Reject | Notify

datatype dstate = Pending | Resolved | Rejected

text \<open>
  Values: \<open>Promise d\<close> is an object whose method \<open>promise\<close> gives the promise of \<open>d\<close>; \<open>Several\<close> is an
  array. \<open>this\<close> of a call is the promise of a deferred object, an array of contexts, or something else.
\<close>

datatype dvalue = Undefined | Plain nat | Promise nat | Several "dvalue list"

datatype dcontext = Promise_of nat | Contexts "dcontext option list" | Object nat | No_context

type_synonym ddata = "dcontext \<times> dvalue list"

text \<open>
  The functions that come into the lists: those of the user, the three at the beginning of a list,
  the methods \<open>resolve\<close>, \<open>reject\<close> and \<open>notify\<close> of a deferred object, the function that \<open>then\<close> makes
  (of the object \<open>src\<close> for the new one, around a function of the user), and those of \<open>when\<close>.
\<close>

datatype dfn =
    User nat
  | Set_state nat dstate
  | Disable_list nat action
  | Lock_list nat action
  | Method nat action
  | Forward nat action nat "nat option"
  | Update nat nat bool

record deferred =
  lists :: "action \<Rightarrow> (dfn, ddata) callbacks"
  state :: dstate

definition list_options :: "action \<Rightarrow> callback_options" where
  "list_options a = createOptions (case a of Resolve \<Rightarrow> ''once memory'' | Reject \<Rightarrow> ''once memory'' | Notify \<Rightarrow> ''memory'')"

definition first_functions :: "nat \<Rightarrow> action \<Rightarrow> dfn list" where
  "first_functions d a =
     (case a of
        Resolve \<Rightarrow> [Set_state d Resolved, Disable_list d Reject, Lock_list d Notify]
      | Reject \<Rightarrow> [Set_state d Rejected, Disable_list d Resolve, Lock_list d Notify]
      | Notify \<Rightarrow> [])"

definition new_deferred :: "nat \<Rightarrow> deferred" where
  "new_deferred d =
     \<lparr>lists = (\<lambda>a. snd (add (map Function (first_functions d a)) (Callbacks (list_options a)))), state = Pending\<rparr>"

section \<open>The world\<close>

text \<open>
  A frame is what is on the call stack: the loop of a list that has called a function with its data,
  a function of a list that is about to run, what such a function still has to do, \<open>then\<close> waiting for
  its user function, and a function of the user.
\<close>

datatype prim =
    Do_add nat action dfn
  | Do_fire nat action ddata
  | Do_count nat
  | Do_finish nat

datatype frame =
    Loop nat action ddata
  | Call dfn ddata
  | Ops "prim list"
  | Await action nat dcontext
  | Body nat

text \<open>What \<open>when\<close> keeps for its arguments: \<open>remaining\<close>, and values and contexts for both kinds of update.\<close>

record joint =
  remaining :: nat
  resolveValues :: "dvalue list"
  resolveContexts :: "dcontext option list"
  progressValues :: "dvalue list"
  progressContexts :: "dcontext option list"

record world =
  dfr :: "nat \<Rightarrow> deferred"
  next_id :: nat
  frames :: "frame list"
  joints :: "nat \<Rightarrow> joint"
  user_log :: "(nat \<times> ddata) list"

definition get_list :: "world \<Rightarrow> nat \<Rightarrow> action \<Rightarrow> (dfn, ddata) callbacks" where
  "get_list w d a = lists (dfr w d) a"

definition put_list :: "nat \<Rightarrow> action \<Rightarrow> (dfn, ddata) callbacks \<Rightarrow> world \<Rightarrow> world" where
  "put_list d a c w = w\<lparr>dfr := (dfr w)(d := (dfr w d)\<lparr>lists := (lists (dfr w d))(a := c)\<rparr>)\<rparr>"

definition put_state :: "nat \<Rightarrow> dstate \<Rightarrow> world \<Rightarrow> world" where
  "put_state d s w = w\<lparr>dfr := (dfr w)(d := (dfr w d)\<lparr>state := s\<rparr>)\<rparr>"

definition push :: "frame list \<Rightarrow> world \<Rightarrow> world" where
  "push fs w = w\<lparr>frames := fs @ frames w\<rparr>"

text \<open>An exception leaves all frames up to the function of the user that called into them.\<close>

definition is_body :: "frame \<Rightarrow> bool" where
  "is_body f \<longleftrightarrow> (case f of Body n \<Rightarrow> True | _ \<Rightarrow> False)"

definition unwind :: "world \<Rightarrow> world" where
  "unwind w = w\<lparr>frames := dropWhile (\<lambda>f. \<not> is_body f) (frames w)\<rparr>"

definition list_result :: "nat \<Rightarrow> action \<Rightarrow> (dfn, ddata) outcome \<times> (dfn, ddata) callbacks \<Rightarrow> world \<Rightarrow> world" where
  "list_result d a r w =
     (case r of
        (Calls f dat, c) \<Rightarrow> push [Call f dat, Loop d a dat] (put_list d a c w)
      | (Ends, c) \<Rightarrow> put_list d a c w
      | (Throws, c) \<Rightarrow> unwind (put_list d a c w))"

definition do_add :: "nat \<Rightarrow> action \<Rightarrow> dfn \<Rightarrow> world \<Rightarrow> world" where
  "do_add d a f w = list_result d a (add [Function f] (get_list w d a)) w"

definition do_fire :: "nat \<Rightarrow> action \<Rightarrow> ddata \<Rightarrow> world \<Rightarrow> world" where
  "do_fire d a dat w = list_result d a (fireWith dat (get_list w d a)) w"

text \<open>
  A function has returned to the frame below it: the loop that called it goes on, or \<open>then\<close> looks at
  what the function of the user returned.
\<close>

definition follow :: "nat \<Rightarrow> nat \<Rightarrow> prim list" where
  "follow p new = [Do_add p Resolve (Method new Resolve), Do_add p Reject (Method new Reject), Do_add p Notify (Method new Notify)]"

definition returned :: "dvalue \<Rightarrow> world \<Rightarrow> world" where
  "returned v w =
     (case frames w of
        Loop d a dat # fs \<Rightarrow> list_result d a (returns False dat (get_list w d a)) (w\<lparr>frames := fs\<rparr>)
      | Await a new ctx # fs \<Rightarrow>
          w\<lparr>frames := Ops (case v of Promise p \<Rightarrow> follow p new | _ \<Rightarrow> [Do_fire new a (ctx, [v])]) # fs\<rparr>
      | _ \<Rightarrow> w)"

text \<open>\<open>this\<close> of the forwarded call: the promise of the old object becomes that of the new one.\<close>

definition forward_context :: "nat \<Rightarrow> nat \<Rightarrow> dcontext \<Rightarrow> dcontext" where
  "forward_context src new ctx = (if ctx = Promise_of src then Promise_of new else ctx)"

section \<open>when\<close>

definition value_of_args :: "dvalue list \<Rightarrow> dvalue" where
  "value_of_args args = (if 1 < length args then Several args else case args of [] \<Rightarrow> Undefined | v # _ \<Rightarrow> v)"

text \<open>The function that \<open>updateFunc\<close> makes for argument \<open>i\<close>, and what it fires.\<close>

definition update_joint :: "nat \<Rightarrow> bool \<Rightarrow> ddata \<Rightarrow> joint \<Rightarrow> joint" where
  "update_joint i progress dat j =
     (if progress
      then j\<lparr>progressContexts := (progressContexts j)[i := Some (fst dat)], progressValues := (progressValues j)[i := value_of_args (snd dat)]\<rparr>
      else j\<lparr>resolveContexts := (resolveContexts j)[i := Some (fst dat)], resolveValues := (resolveValues j)[i := value_of_args (snd dat)],
             remaining := remaining j - 1\<rparr>)"

definition update_fires :: "nat \<Rightarrow> bool \<Rightarrow> joint \<Rightarrow> prim list" where
  "update_fires m progress j =
     (if progress then [Do_fire m Notify (Contexts (progressContexts j), progressValues j)]
      else if remaining j = 0 then [Do_fire m Resolve (Contexts (resolveContexts j), resolveValues j)] else [])"

text \<open>Arguments that are not deferred objects count as resolved; at the end everything may be.\<close>

definition count_joint :: "joint \<Rightarrow> joint" where
  "count_joint j = j\<lparr>remaining := remaining j - 1\<rparr>"

definition resolve_context :: "joint \<Rightarrow> dcontext" where
  "resolve_context j = (if 1 < length (resolveValues j) then Contexts (resolveContexts j) else No_context)"

definition finish_joint :: "nat \<Rightarrow> joint \<Rightarrow> prim list" where
  "finish_joint m j = (if remaining j = 0 then [Do_fire m Resolve (resolve_context j, resolveValues j)] else [])"

definition is_promise :: "dvalue \<Rightarrow> bool" where
  "is_promise v \<longleftrightarrow> (case v of Promise p \<Rightarrow> True | _ \<Rightarrow> False)"

definition new_joint :: "dvalue list \<Rightarrow> joint" where
  "new_joint vs =
     \<lparr>remaining = (if length vs \<noteq> 1 then length vs else 0), resolveValues = vs,
      resolveContexts = replicate (length vs) None, progressValues = replicate (length vs) Undefined,
      progressContexts = replicate (length vs) None\<rparr>"

fun listen :: "nat \<Rightarrow> nat \<Rightarrow> dvalue \<Rightarrow> prim list" where
  "listen m i (Promise p) = [Do_add p Resolve (Update m i False), Do_add p Reject (Method m Reject), Do_add p Notify (Update m i True)]"
| "listen m i v = [Do_count m]"

definition when_listeners :: "nat \<Rightarrow> dvalue list \<Rightarrow> prim list" where
  "when_listeners m vs =
     (if 1 < length vs then concat (map (\<lambda>(i, v). listen m i v) (enumerate 0 vs)) else []) @ [Do_finish m]"

section \<open>Steps\<close>

text \<open>The code runs on: the frame on top does its next operation.\<close>

fun run_call :: "dfn \<Rightarrow> ddata \<Rightarrow> world \<Rightarrow> world" where
  "run_call (User u) dat w = push [Body u] (w\<lparr>user_log := user_log w @ [(u, dat)]\<rparr>)"
| "run_call (Set_state d s) dat w = returned Undefined (put_state d s w)"
| "run_call (Disable_list d a) dat w = returned Undefined (put_list d a (disable (get_list w d a)) w)"
| "run_call (Lock_list d a) dat w = returned Undefined (put_list d a (lock (get_list w d a)) w)"
| "run_call (Method d a) dat w = push [Ops [Do_fire d a dat]] w"
| "run_call (Forward src a new None) dat w = push [Ops [Do_fire new a (forward_context src new (fst dat), snd dat)]] w"
| "run_call (Forward src a new (Some u)) dat w =
     push [Body u, Await a new (forward_context src new (fst dat))] (w\<lparr>user_log := user_log w @ [(u, dat)]\<rparr>)"
| "run_call (Update m i progress) dat w =
     (let j = update_joint i progress dat (joints w m)
      in push [Ops (update_fires m progress j)] (w\<lparr>joints := (joints w)(m := j)\<rparr>))"

fun run_prim :: "prim \<Rightarrow> world \<Rightarrow> world" where
  "run_prim (Do_add d a f) w = do_add d a f w"
| "run_prim (Do_fire d a dat) w = do_fire d a dat w"
| "run_prim (Do_count m) w = w\<lparr>joints := (joints w)(m := count_joint (joints w m))\<rparr>"
| "run_prim (Do_finish m) w = w\<lparr>frames := Ops (finish_joint m (joints w m)) # frames w\<rparr>"

definition go :: "world \<Rightarrow> world" where
  "go w =
     (case frames w of
        Call f dat # fs \<Rightarrow> run_call f dat (w\<lparr>frames := fs\<rparr>)
      | Ops (p # ps) # fs \<Rightarrow> run_prim p (w\<lparr>frames := Ops ps # fs\<rparr>)
      | Ops [] # fs \<Rightarrow> returned Undefined (w\<lparr>frames := fs\<rparr>)
      | _ \<Rightarrow> w)"

text \<open>What the code of the user does, when it is its turn: at rest, or while one of its functions runs.\<close>

datatype user_event =
    New
  | Act nat action ddata
  | On nat action nat
  | Always nat nat
  | Then nat "action \<Rightarrow> nat option"
  | When "dvalue list"
  | Return_value dvalue
  | Throw_error

definition users_turn :: "world \<Rightarrow> bool" where
  "users_turn w \<longleftrightarrow> (case frames w of [] \<Rightarrow> True | f # _ \<Rightarrow> is_body f)"

text \<open>A new object takes the next id; \<open>dfr\<close> holds a new deferred object for every id that is not in use.\<close>

definition then_ops :: "nat \<Rightarrow> nat \<Rightarrow> (action \<Rightarrow> nat option) \<Rightarrow> prim list" where
  "then_ops d new handlers = map (\<lambda>a. Do_add d a (Forward d a new (handlers a))) [Resolve, Reject, Notify]"

definition when_ops :: "dvalue list \<Rightarrow> world \<Rightarrow> world" where
  "when_ops vs w =
     (if length vs = 1 \<and> list_all is_promise vs then w
      else push [Ops (when_listeners (next_id w) vs)]
        (w\<lparr>next_id := Suc (next_id w), joints := (joints w)(next_id w := new_joint vs)\<rparr>))"

fun user_step :: "user_event \<Rightarrow> world \<Rightarrow> world" where
  "user_step New w = w\<lparr>next_id := Suc (next_id w)\<rparr>"
| "user_step (Act d a dat) w = push [Ops [Do_fire d a dat]] w"
| "user_step (On d a u) w = push [Ops [Do_add d a (User u)]] w"
| "user_step (Always d u) w = push [Ops [Do_add d Resolve (User u), Do_add d Reject (User u)]] w"
| "user_step (Then d handlers) w = push [Ops (then_ops d (next_id w) handlers)] (w\<lparr>next_id := Suc (next_id w)\<rparr>)"
| "user_step (When vs) w = when_ops vs w"
| "user_step (Return_value v) w = (case frames w of [] \<Rightarrow> w | _ # fs \<Rightarrow> returned v (w\<lparr>frames := fs\<rparr>))"
| "user_step Throw_error w = (case frames w of [] \<Rightarrow> w | _ # fs \<Rightarrow> unwind (w\<lparr>frames := fs\<rparr>))"

definition new_world :: world where
  "new_world = \<lparr>dfr = new_deferred, next_id = 0, frames = [],
     joints = (\<lambda>m. new_joint []), user_log = []\<rparr>"

text \<open>The code can only use objects that it has been given.\<close>

fun known_value :: "nat \<Rightarrow> dvalue \<Rightarrow> bool" where
  "known_value n (Promise p) = (p < n)"
| "known_value n (Several vs) = list_all (known_value n) vs"
| "known_value n v = True"

fun known_event :: "nat \<Rightarrow> user_event \<Rightarrow> bool" where
  "known_event n (Act d a dat) = (d < n \<and> list_all (known_value n) (snd dat))"
| "known_event n (On d a u) = (d < n)"
| "known_event n (Always d u) = (d < n)"
| "known_event n (Then d handlers) = (d < n)"
| "known_event n (When vs) = list_all (known_value n) vs"
| "known_event n (Return_value v) = known_value n v"
| "known_event n e = True"

inductive world_steps :: "world \<Rightarrow> world \<Rightarrow> bool" for start :: world where
  no_step: "world_steps start start"
| goes: "world_steps start w \<Longrightarrow> \<not> users_turn w \<Longrightarrow> world_steps start (go w)"
| acts: "world_steps start w \<Longrightarrow> users_turn w \<Longrightarrow> known_event (next_id w) e \<Longrightarrow> world_steps start (user_step e w)"

text \<open>The code runs on by itself, until it is the turn of the user.\<close>

inductive runs :: "world \<Rightarrow> world \<Rightarrow> bool" for start :: world where
  run_here: "runs start start"
| run_on: "runs start w \<Longrightarrow> \<not> users_turn w \<Longrightarrow> runs start (go w)"

definition world_reachable :: "world \<Rightarrow> bool" where
  "world_reachable w \<longleftrightarrow> world_steps new_world w"

section \<open>What a list calls\<close>

lemma q_rest_members [simp]: "q_members (q_rest q) = q_members q" and q_over_members: "set (q_members (q_over q)) \<subseteq> set (q_members q)"
  by (simp_all add: q_rest_def q_members_def q_over_def q_disable_def)

lemma q_next_members:
  "set (q_members (snd (q_next opt stop d q))) \<subseteq> set (q_members q) \<and>
   (\<forall>f d'. fst (q_next opt stop d q) = Calls f d' \<longrightarrow> f \<in> set (q_members q))"
proof (induction "waits q" arbitrary: stop d q rule: less_induct)
  case (less q)
  show ?case
  proof (cases "\<not> stop \<and> todo q \<noteq> []")
    case True
    then show ?thesis by (auto simp: q_next.simps [of opt False d q] q_members_def neq_Nil_conv)
  next
    case False
    then have eq: "q_next opt stop d q = (if \<not> active q then (Ends, q_rest q)
        else (case pending q of None \<Rightarrow> (Ends, q_over q) | Some [] \<Rightarrow> (Ends, q_rest q)
          | Some (e # es) \<Rightarrow> q_next opt False e (q_begin opt e [] (q_members q) (q\<lparr>pending := Some es\<rparr>))))"
      by (subst q_next.simps) (auto split: bool.split list.split option.split)
    show ?thesis
    proof (cases "active q \<and> (\<exists>e es. pending q = Some (e # es))")
      case True
      then obtain e es where w: "active q" "pending q = Some (e # es)" by blast
      have "waits (q_begin opt e [] (q_members q) (q\<lparr>pending := Some es\<rparr>)) < waits q"
        using w by (simp add: waits_def q_begin_def)
      from less [OF this, of False e] show ?thesis
        unfolding eq using w by (simp add: q_begin_def q_members_def)
    next
      case False
      then show ?thesis unfolding eq using q_over_members [of q] by (auto split: option.split list.split)
    qed
  qed
qed

definition members :: "('f, 'd) callbacks \<Rightarrow> 'f set" where
  "members c = (case fns c of None \<Rightarrow> {} | Some l \<Rightarrow> set l)"

lemma members_of_queue: "members c = set (q_members (queue_of c))"
  by (simp add: members_def members_queue split: option.split)

text \<open>What the operations of a list keep, for whoever uses it.\<close>

definition result_ok :: "(dfn, ddata) callbacks \<Rightarrow> dfn set \<Rightarrow> (dfn, ddata) outcome \<times> (dfn, ddata) callbacks \<Rightarrow> bool" where
  "result_ok c fs r \<longleftrightarrow> list_ok (snd r) \<and> fst r \<noteq> Throws \<and> opts (snd r) = opts c \<and> members (snd r) \<subseteq> fs \<and>
     (\<forall>f d. fst r = Calls f d \<longrightarrow> f \<in> fs \<and> firing (snd r))"

lemma add_one_members: "set (q_members (snd (q_add opt [Function f] q))) \<subseteq> insert f (set (q_members q)) \<and>
    (\<forall>g d. fst (q_add opt [Function f] q) = Calls g d \<longrightarrow> g \<in> insert f (set (q_members q)))"
proof -
  have new: "set (drop (length (q_members q)) (push_fn u f (q_members q))) \<subseteq> {f}" for u by (simp add: push_fn_def)
  show ?thesis
  proof (cases "active q \<and> \<not> busy q")
    case False
    then show ?thesis using new by (auto simp: q_add_def q_members_def Let_def)
  next
    case True
    show ?thesis
    proof (cases "latest q")
      case None
      then show ?thesis using True new by (auto simp: q_add_def q_members_def Let_def)
    next
      case (Some d)
      let ?q = "q_begin opt d (behind q) (drop (length (q_members q)) (push_fn (unique opt) f (q_members q))) q"
      have "set (q_members ?q) \<subseteq> insert f (set (q_members q))" using new by (auto simp: q_members_def q_begin_def)
      then show ?thesis using True Some q_next_members [of opt False d ?q] by (auto simp: q_add_def Let_def)
    qed
  qed
qed

lemma add_ok: "list_ok c \<Longrightarrow> result_ok c (insert f (members c)) (add [Function f] c)"
  using add_queue [of c "[Function f]"] add_one_members [of "opts c" f "queue_of c"]
  by (auto simp: result_ok_def members_of_queue)

lemma q_fire_members: "set (q_members (snd (q_fire opt d q))) \<subseteq> set (q_members q) \<and>
    (\<forall>g e. fst (q_fire opt d q) = Calls g e \<longrightarrow> g \<in> set (q_members q))"
  using q_next_members [of opt False d "q_begin opt d [] (q_members q) q"]
  by (auto simp: q_fire_def q_members_def q_begin_def)

lemma fireWith_ok: "list_ok c \<Longrightarrow> result_ok c (members c) (fireWith d c)"
  using fire_queue [of c d] q_fire_members [of "opts c" d "queue_of c"]
  by (auto simp: result_ok_def members_of_queue)

lemma returns_ok: "list_ok c \<Longrightarrow> firing c \<Longrightarrow> result_ok c (members c) (returns False d c)"
  using return_queue [of c False d] q_next_members [of "opts c" False d "queue_of c"]
  by (auto simp: result_ok_def members_of_queue after_loop_def q_return_def)

section \<open>Once settled\<close>

definition opposite :: "action \<Rightarrow> action" where
  "opposite a = (if a = Resolve then Reject else Resolve)"

definition final :: "action \<Rightarrow> dstate" where
  "final a = (if a = Resolve then Resolved else Rejected)"

definition plain :: "dfn \<Rightarrow> bool" where
  "plain f \<longleftrightarrow> (case f of Set_state d s \<Rightarrow> False | Disable_list d a \<Rightarrow> False | Lock_list d a \<Rightarrow> a = Notify | _ \<Rightarrow> True)"

abbreviation view :: "world \<Rightarrow> nat \<Rightarrow> action \<Rightarrow> (dfn, ddata) fire_queue" where
  "view w d a \<equiv> queue_of (get_list w d a)"

text \<open>A list before its first fire, after it, and one that is disabled before any fire.\<close>

definition waiting_for :: "dfn list \<Rightarrow> (dfn, ddata) fire_queue \<Rightarrow> bool" where
  "waiting_for first q \<longleftrightarrow> (\<exists>xs. list_all plain xs \<and>
     q = \<lparr>behind = first @ xs, todo = [], active = True, pending = None, latest = None, ever = False, busy = False\<rparr>)"

definition live :: "(dfn, ddata) fire_queue \<Rightarrow> bool" where
  "live q \<longleftrightarrow> active q \<and> ever q \<and> pending q = None \<and> latest q \<noteq> None \<and> list_all plain (todo q)"

definition dead :: "(dfn, ddata) fire_queue \<Rightarrow> bool" where
  "dead q \<longleftrightarrow> q = \<lparr>behind = [], todo = [], active = False, pending = None, latest = None, ever = False, busy = False\<rparr>"

lemma list_options_once [simp]: "list_options Resolve = once_memory" "list_options Reject = once_memory"
  by (simp_all add: list_options_def createOptions_def has_flag_def once_memory_def is_space_def)

lemma live_add:
  assumes "live q" and "plain f"
  shows "live (snd (q_add once_memory [Function f] q)) \<and> (\<forall>g d. fst (q_add once_memory [Function f] q) = Calls g d \<longrightarrow> plain g)"
  using assms
  by (auto simp: live_def q_add_def q_members_def push_fn_def once_memory_def q_begin_def q_next.simps Let_def)

lemma live_fire: "live q \<Longrightarrow> q_fire once_memory d q = (Ends, q)"
  by (auto simp: live_def q_fire_def)

lemma live_return:
  assumes "live q"
  shows "live (snd (q_return once_memory False d q)) \<and> (\<forall>g e. fst (q_return once_memory False d q) = Calls g e \<longrightarrow> plain g)"
  using assms
  by (cases "todo q") (auto simp: live_def q_return_def q_next.simps q_over_def q_rest_def q_members_def)

lemma dead_add: "dead q \<Longrightarrow> q_add once_memory as q = (Ends, q)" and dead_fire: "dead q \<Longrightarrow> q_fire once_memory d q = (Ends, q)"
  by (auto simp: dead_def q_add_def q_fire_def Let_def)

lemma waiting_add:
  "waiting_for first q \<Longrightarrow> plain f \<Longrightarrow> waiting_for first (snd (q_add once_memory [Function f] q)) \<and>
     fst (q_add once_memory [Function f] q) = Ends"
  by (auto simp: waiting_for_def q_add_def q_members_def push_fn_def once_memory_def Let_def)

lemma waiting_disable: "waiting_for first q \<Longrightarrow> dead (q_disable q)"
  by (auto simp: waiting_for_def q_disable_def dead_def)

section \<open>The invariant of the world\<close>

type_synonym objects = "nat \<Rightarrow> deferred"

abbreviation lview :: "objects \<Rightarrow> nat \<Rightarrow> action \<Rightarrow> (dfn, ddata) fire_queue" where
  "lview D d a \<equiv> queue_of (lists (D d) a)"

definition unsettled :: "objects \<Rightarrow> nat \<Rightarrow> bool" where
  "unsettled D d \<longleftrightarrow> state (D d) = Pending \<and> waiting_for (first_functions d Resolve) (lview D d Resolve) \<and>
     waiting_for (first_functions d Reject) (lview D d Reject)"

definition settled :: "objects \<Rightarrow> nat \<Rightarrow> action \<Rightarrow> bool" where
  "settled D d a \<longleftrightarrow> a \<noteq> Notify \<and> state (D d) = final a \<and> live (lview D d a) \<and> dead (lview D d (opposite a))"

text \<open>While an object is being settled its first function and then the second one is on top of the stack.\<close>

definition setting_state :: "objects \<Rightarrow> frame list \<Rightarrow> nat \<Rightarrow> action \<Rightarrow> bool" where
  "setting_state D fr d a \<longleftrightarrow> a \<noteq> Notify \<and> state (D d) = Pending \<and>
     waiting_for (first_functions d (opposite a)) (lview D d (opposite a)) \<and>
     (\<exists>dat fs t. fr = Call (Set_state d (final a)) dat # Loop d a dat # fs \<and> list_all plain t \<and>
        lview D d a = \<lparr>behind = [Set_state d (final a)], todo = Disable_list d (opposite a) # t, active = True, pending = None,
          latest = Some dat, ever = True, busy = True\<rparr>)"

definition disabling_other :: "objects \<Rightarrow> frame list \<Rightarrow> nat \<Rightarrow> action \<Rightarrow> bool" where
  "disabling_other D fr d a \<longleftrightarrow> a \<noteq> Notify \<and> state (D d) = final a \<and>
     waiting_for (first_functions d (opposite a)) (lview D d (opposite a)) \<and> live (lview D d a) \<and> busy (lview D d a) \<and>
     (\<exists>dat fs. fr = Call (Disable_list d (opposite a)) dat # Loop d a dat # fs)"

definition at_rest :: "objects \<Rightarrow> nat \<Rightarrow> bool" where
  "at_rest D d \<longleftrightarrow> unsettled D d \<or> (\<exists>a. settled D d a)"

definition lists_fine :: "objects \<Rightarrow> bool" where
  "lists_fine D \<longleftrightarrow> (\<forall>d a. list_ok (lists (D d) a) \<and> opts (lists (D d) a) = list_options a) \<and>
     (\<forall>d f. f \<in> members (lists (D d) Notify) \<longrightarrow> plain f)"

fun loops :: "frame list \<Rightarrow> (nat \<times> action) list" where
  "loops [] = []"
| "loops (Loop d a dat # fs) = (d, a) # loops fs"
| "loops (f # fs) = loops fs"

fun plain_prim :: "prim \<Rightarrow> bool" where
  "plain_prim (Do_add d a f) = plain f"
| "plain_prim p = True"

fun quiet_frame :: "frame \<Rightarrow> bool" where
  "quiet_frame (Call f dat) = False"
| "quiet_frame (Ops ps) = list_all plain_prim ps"
| "quiet_frame f = True"

definition frames_fine :: "objects \<Rightarrow> frame list \<Rightarrow> bool" where
  "frames_fine D fr \<longleftrightarrow> distinct (loops fr) \<and> (\<forall>(d, a) \<in> set (loops fr). firing (lists (D d) a)) \<and> list_all quiet_frame fr"

definition calm :: "world \<Rightarrow> bool" where
  "calm w \<longleftrightarrow> lists_fine (dfr w) \<and> frames_fine (dfr w) (frames w) \<and> (\<forall>d. at_rest (dfr w) d)"

definition calling :: "world \<Rightarrow> bool" where
  "calling w \<longleftrightarrow> lists_fine (dfr w) \<and>
     (\<exists>f d a dat fs. frames w = Call f dat # Loop d a dat # fs \<and> frames_fine (dfr w) (Loop d a dat # fs) \<and>
        (\<forall>e. e \<noteq> d \<longrightarrow> at_rest (dfr w) e) \<and>
        (plain f \<and> at_rest (dfr w) d \<or> setting_state (dfr w) (frames w) d a \<or> disabling_other (dfr w) (frames w) d a))"

definition world_ok :: "world \<Rightarrow> bool" where
  "world_ok w \<longleftrightarrow> calm w \<or> calling w"

lemma calm_other [simp]:
  "calm (w\<lparr>joints := j\<rparr>) = calm w" "calm (w\<lparr>user_log := l\<rparr>) = calm w" "calm (w\<lparr>next_id := n\<rparr>) = calm w"
  by (simp_all add: calm_def)

lemma calm_push:
  assumes "calm w" and "list_all quiet_frame fs" and "loops (fs @ frames w) = loops (frames w)"
  shows "calm (push fs w)"
  using assms by (simp add: calm_def push_def frames_fine_def)

lemma calm_top: "calm w \<Longrightarrow> frames w = f # fs \<Longrightarrow> calm (w\<lparr>frames := fs\<rparr>)"
  by (cases f) (auto simp: calm_def frames_fine_def)

lemma calm_replace: "calm w \<Longrightarrow> frames w = f # fs \<Longrightarrow> list_all plain_prim ps \<Longrightarrow> calm (w\<lparr>frames := Ops ps # fs\<rparr>)"
  by (cases f) (auto simp: calm_def frames_fine_def)

lemma loops_dropWhile: "set (loops (dropWhile P fs)) \<subseteq> set (loops fs) \<and> (distinct (loops fs) \<longrightarrow> distinct (loops (dropWhile P fs)))"
  by (induction fs rule: loops.induct) auto

lemma list_all_dropWhile: "list_all P fs \<Longrightarrow> list_all P (dropWhile Q fs)"
  by (induction fs) auto

lemma calm_unwind: "calm w \<Longrightarrow> calm (unwind w)"
  using loops_dropWhile [of "\<lambda>f. \<not> is_body f" "frames w"]
  by (auto simp: calm_def unwind_def frames_fine_def list_all_dropWhile)

text \<open>One operation on one list, whose result leaves its object at rest and calls a plain function, if any.\<close>

definition with_list :: "nat \<Rightarrow> action \<Rightarrow> (dfn, ddata) callbacks \<Rightarrow> objects \<Rightarrow> objects" where
  "with_list d a c D = D(d := (D d)\<lparr>lists := (lists (D d))(a := c)\<rparr>)"

lemma put_list_with: "put_list d a c w = w\<lparr>dfr := with_list d a c (dfr w)\<rparr>"
  by (simp add: put_list_def with_list_def)

lemma with_list_sel [simp]:
  "lists (with_list d a c D e) b = (if e = d \<and> b = a then c else lists (D e) b)" "state (with_list d a c D e) = state (D e)"
  by (simp_all add: with_list_def)

lemma at_rest_other: "e \<noteq> d \<Longrightarrow> at_rest (with_list d a c D) e = at_rest D e"
  by (simp add: at_rest_def unsettled_def settled_def)

lemma at_rest_notify: "at_rest (with_list d Notify c D) e = at_rest D e"
  by (auto simp: at_rest_def unsettled_def settled_def opposite_def)

lemma lists_fine_with:
  assumes "lists_fine D" and "result_ok (lists (D d) a) fs r" and "a = Notify \<Longrightarrow> \<forall>f\<in>fs. plain f"
  shows "lists_fine (with_list d a (snd r) D)"
  using assms by (auto simp: lists_fine_def result_ok_def)

lemma frames_fine_with:
  assumes "frames_fine D fr" and "(d, a) \<in> set (loops fr) \<Longrightarrow> firing c"
  shows "frames_fine (with_list d a c D) fr"
  using assms by (auto simp: frames_fine_def)

lemma list_result_ok:
  assumes calm: "calm w" and ok: "result_ok (lists (dfr w d) a) fs r" and pl: "a = Notify \<Longrightarrow> \<forall>f\<in>fs. plain f"
    and inner: "(d, a) \<in> set (loops (frames w)) \<Longrightarrow> firing (snd r) \<and> (\<forall>f dat. fst r \<noteq> Calls f dat)"
    and rest: "at_rest (with_list d a (snd r) (dfr w)) d" and calls: "\<And>f dat. fst r = Calls f dat \<Longrightarrow> plain f"
  shows "world_ok (list_result d a r w)"
proof -
  let ?D = "with_list d a (snd r) (dfr w)"
  have fine: "lists_fine ?D" using lists_fine_with calm ok pl by (auto simp: calm_def)
  have frames: "frames_fine ?D (frames w)" using frames_fine_with calm inner by (simp add: calm_def)
  have all: "at_rest ?D e" for e using calm rest at_rest_other by (cases "e = d") (auto simp: calm_def)
  obtain o' c where r: "r = (o', c)" by force
  show ?thesis
  proof (cases o')
    case (Calls f dat)
    have "frames_fine ?D (Loop d a dat # frames w)"
      using frames inner ok by (auto simp: frames_fine_def r Calls result_ok_def)
    then have "calling (list_result d a r w)"
      using fine all calls [of f dat] by (simp add: calling_def list_result_def r Calls push_def put_list_with)
    then show ?thesis by (simp add: world_ok_def)
  next
    case Ends
    then have "calm (list_result d a r w)" using fine frames all by (simp add: calm_def list_result_def r put_list_with)
    then show ?thesis by (simp add: world_ok_def)
  next
    case Throws
    then show ?thesis using ok by (simp add: result_ok_def r)
  qed
qed

text \<open>What an operation on the list of an action may do to the state of that list, for an object at rest.\<close>

lemma rest_cases:
  assumes "at_rest D d" and "a \<noteq> Notify"
  obtains (waiting) "unsettled D d" "waiting_for (first_functions d a) (lview D d a)"
  | (settled) "settled D d a" "live (lview D d a)"
  | (dead) "settled D d (opposite a)" "dead (lview D d a)"
  using assms by (cases a) (auto simp: at_rest_def unsettled_def settled_def opposite_def split: if_splits; metis action.exhaust)+

lemma rest_waiting:
  "unsettled D d \<Longrightarrow> a \<noteq> Notify \<Longrightarrow> waiting_for (first_functions d a) (queue_of c) \<Longrightarrow> at_rest (with_list d a c D) d"
  by (cases a) (auto simp: at_rest_def unsettled_def)

lemma rest_settled: "settled D d a \<Longrightarrow> live (queue_of c) \<Longrightarrow> at_rest (with_list d a c D) d"
  by (auto simp: at_rest_def settled_def opposite_def intro!: exI [of _ a])

lemma rest_dead:
  "settled D d (opposite a) \<Longrightarrow> a \<noteq> Notify \<Longrightarrow> dead (queue_of c) \<Longrightarrow> at_rest (with_list d a c D) d"
  by (cases a) (auto simp: at_rest_def settled_def opposite_def)

lemma list_fineD:
  assumes "lists_fine D"
  shows "list_ok (lists (D d) a)" and "opts (lists (D d) a) = list_options a"
    and "f \<in> members (lists (D d) Notify) \<Longrightarrow> plain f"
  using assms by (simp_all add: lists_fine_def)

lemma options_not_notify: "a \<noteq> Notify \<Longrightarrow> list_options a = once_memory"
  by (cases a) simp_all

lemma add_world:
  assumes calm: "calm w" and f: "plain f"
  shows "world_ok (do_add d a f w)"
proof -
  let ?D = "dfr w" and ?c = "lists (dfr w d) a"
  have fine: "lists_fine ?D" using calm by (simp add: calm_def)
  note list = list_fineD [OF fine]
  note q = add_queue [OF list(1) [of d a], of "[Function f]"] and ok = add_ok [OF list(1) [of d a], of f]
  have rest: "at_rest ?D d" using calm by (simp add: calm_def)
  have after: "at_rest (with_list d a (snd (add [Function f] ?c)) ?D) d \<and>
      (\<forall>g dat. fst (add [Function f] ?c) = Calls g dat \<longrightarrow> plain g)"
  proof (cases "a = Notify")
    case True
    then show ?thesis using rest ok f list(3) [of _ d] by (auto simp: at_rest_notify result_ok_def)
  next
    case False
    note opt = list(2) [of d a, unfolded options_not_notify [OF False]]
    from rest False show ?thesis
    proof (cases rule: rest_cases)
      case waiting
      then show ?thesis using waiting_add [OF waiting(2) f] q rest_waiting [OF waiting(1) False] by (simp add: opt)
    next
      case settled
      then show ?thesis using live_add [OF settled(2) f] q rest_settled [OF settled(1)] by (simp add: opt)
    next
      case dead
      then show ?thesis using dead_add [OF dead(2)] q rest_dead [OF dead(1) False] dead(2) by (simp add: opt)
    qed
  qed
  have "firing ?c \<Longrightarrow> firing (snd (add [Function f] ?c)) \<and> (\<forall>g dat. fst (add [Function f] ?c) \<noteq> Calls g dat)"
    using q by auto
  moreover have "(d, a) \<in> set (loops (frames w)) \<Longrightarrow> firing ?c" using calm by (auto simp: calm_def frames_fine_def)
  ultimately show ?thesis
    unfolding do_add_def get_list_def using list_result_ok [OF calm ok] after f list(3) [of _ d] by auto
qed

lemma waiting_fire:
  assumes "waiting_for (first_functions d a) q" and "a \<noteq> Notify"
  shows "\<exists>t. list_all plain t \<and> q_fire once_memory dat q = (Calls (Set_state d (final a)) dat,
    \<lparr>behind = [Set_state d (final a)], todo = Disable_list d (opposite a) # t, active = True, pending = None,
       latest = Some dat, ever = True, busy = True\<rparr>)"
  using assms
  by (cases a) (auto simp: waiting_for_def first_functions_def q_fire_def q_members_def q_begin_def q_next.simps once_memory_def
      final_def opposite_def plain_def)

lemma fire_world:
  assumes calm: "calm w"
  shows "world_ok (do_fire d a dat w)"
proof -
  let ?D = "dfr w" and ?c = "lists (dfr w d) a"
  let ?r = "fireWith dat ?c"
  have fine: "lists_fine ?D" using calm by (simp add: calm_def)
  note list = list_fineD [OF fine]
  note q = fire_queue [OF list(1) [of d a], of dat] and ok = fireWith_ok [OF list(1) [of d a], of dat]
  have rest: "at_rest ?D d" using calm by (simp add: calm_def)
  have inner: "(d, a) \<in> set (loops (frames w)) \<Longrightarrow> firing (snd ?r) \<and> (\<forall>g dat. fst ?r \<noteq> Calls g dat)"
    using q calm by (auto simp: calm_def frames_fine_def)
  show ?thesis
  proof (cases "a = Notify")
    case True
    then have "\<forall>g dat'. fst ?r = Calls g dat' \<longrightarrow> plain g" "a = Notify \<Longrightarrow> \<forall>f\<in>members ?c. plain f"
      using ok list(3) [of _ d] by (auto simp: result_ok_def)
    moreover have "at_rest (with_list d a (snd ?r) ?D) d" using rest True by (simp add: at_rest_notify)
    ultimately show ?thesis
      unfolding do_fire_def get_list_def using list_result_ok [OF calm ok] inner by blast
  next
    case False
    note opt = list(2) [of d a, unfolded options_not_notify [OF False]]
    from rest False show ?thesis
    proof (cases rule: rest_cases)
      case waiting
      then obtain t where t: "list_all plain t" and eq: "q_fire once_memory dat (queue_of ?c) = (Calls (Set_state d (final a)) dat,
        \<lparr>behind = [Set_state d (final a)], todo = Disable_list d (opposite a) # t, active = True, pending = None,
          latest = Some dat, ever = True, busy = True\<rparr>)"
        using waiting_fire [OF waiting(2) False] by blast
      have r: "fst ?r = Calls (Set_state d (final a)) dat" "queue_of (snd ?r) = \<lparr>behind = [Set_state d (final a)],
          todo = Disable_list d (opposite a) # t, active = True, pending = None, latest = Some dat, ever = True, busy = True\<rparr>"
        using q eq by (simp_all add: opt)
      then have fr: "(d, a) \<notin> set (loops (frames w))" using inner by auto
      let ?D' = "with_list d a (snd ?r) ?D" and ?fr = "Call (Set_state d (final a)) dat # Loop d a dat # frames w"
      have "opposite a \<noteq> a" "opposite a \<noteq> Notify" using False by (simp_all add: opposite_def)
      then have "waiting_for (first_functions d (opposite a)) (lview ?D' d (opposite a))"
        using waiting(1) by (cases "opposite a") (simp_all add: unsettled_def)
      then have "setting_state ?D' ?fr d a"
        using False waiting(1) t r(2) by (simp add: setting_state_def unsettled_def)
      moreover have "lists_fine ?D'" using lists_fine_with [OF fine ok] False by blast
      moreover have "frames_fine ?D' (Loop d a dat # frames w)"
        using frames_fine_with [of ?D "frames w" d a] calm fr q r by (auto simp: calm_def frames_fine_def)
      moreover have "\<forall>e. e \<noteq> d \<longrightarrow> at_rest ?D' e" using calm by (simp add: calm_def at_rest_other)
      ultimately have "calling (do_fire d a dat w)"
        using r(1) by (cases ?r) (simp add: calling_def do_fire_def get_list_def list_result_def push_def put_list_with)
      then show ?thesis by (simp add: world_ok_def)
    next
      case settled
      then have "?r = (Ends, snd ?r)" "queue_of (snd ?r) = queue_of ?c" using live_fire [OF settled(2)] q by (auto simp: opt prod_eq_iff)
      then show ?thesis
        unfolding do_fire_def get_list_def
        using list_result_ok [OF calm ok] inner rest_settled [OF settled(1)] settled(2) False
        by (metis fst_conv outcome.distinct(1))
    next
      case dead
      then have "?r = (Ends, snd ?r)" "queue_of (snd ?r) = queue_of ?c" using dead_fire [OF dead(2)] q by (auto simp: opt prod_eq_iff)
      then show ?thesis
        unfolding do_fire_def get_list_def
        using list_result_ok [OF calm ok] inner rest_dead [OF dead(1) False] dead(2) False
        by (metis fst_conv outcome.distinct(1))
    qed
  qed
qed

lemma busy_view: "busy (lview D d a) = firing (lists (D d) a)"
  by (simp add: queue_of_def queue_at_def)

lemma return_world:
  assumes calm: "calm w" and top: "frames w = Loop d a dat # fs"
  shows "world_ok (returned v w)"
proof -
  let ?D = "dfr w" and ?c = "lists (dfr w d) a" and ?w = "w\<lparr>frames := fs\<rparr>"
  let ?r = "returns False dat ?c"
  have fine: "lists_fine ?D" using calm by (simp add: calm_def)
  note list = list_fineD [OF fine]
  have firing: "firing ?c" and fresh: "(d, a) \<notin> set (loops fs)"
    using calm top by (auto simp: calm_def frames_fine_def)
  have calm': "calm ?w" by (rule calm_top [OF calm top])
  note q = return_queue [OF list(1) firing, of False dat] and ok = returns_ok [OF list(1) firing, of dat]
  have rest: "at_rest ?D d" using calm by (simp add: calm_def)
  have busy: "busy (lview ?D d a)" using firing by (simp add: busy_view)
  have after: "at_rest (with_list d a (snd ?r) ?D) d \<and> (\<forall>g dat'. fst ?r = Calls g dat' \<longrightarrow> plain g)"
  proof (cases "a = Notify")
    case True
    then show ?thesis using rest ok list(3) [of _ d] by (auto simp: at_rest_notify result_ok_def)
  next
    case False
    note opt = list(2) [of d a, unfolded options_not_notify [OF False]]
    from rest False show ?thesis
    proof (cases rule: rest_cases)
      case waiting
      then show ?thesis using busy by (auto simp: waiting_for_def)
    next
      case settled
      then show ?thesis using live_return [OF settled(2), of dat] q rest_settled [OF settled(1)] by (simp add: opt)
    next
      case dead
      then show ?thesis using busy by (simp add: dead_def)
    qed
  qed
  show ?thesis
    using list_result_ok [of ?w d a _ ?r] calm' ok after fresh list(3) [of _ d] by (simp add: returned_def top get_list_def)
qed

lemma returned_world:
  assumes "calm w"
  shows "world_ok (returned v w)"
proof (cases "frames w")
  case Nil
  then show ?thesis using assms by (simp add: returned_def world_ok_def)
next
  case (Cons f fs)
  show ?thesis
  proof (cases f)
    case (Loop d a dat)
    then show ?thesis using return_world assms Cons by blast
  next
    case (Await a new ctx)
    have "calm (w\<lparr>frames := Ops ps # fs\<rparr>)" if "list_all plain_prim ps" for ps
      using calm_replace [OF assms Cons that] .
    moreover have "list_all plain_prim (follow p new)" for p by (simp add: follow_def plain_def)
    ultimately show ?thesis using Await Cons by (auto simp: returned_def world_ok_def split: dvalue.split)
  qed (use Cons assms in \<open>simp_all add: returned_def world_ok_def\<close>)
qed

lemma lock_keeps:
  "list_ok c \<Longrightarrow> list_ok (lock c) \<and> members (lock c) \<subseteq> members c \<and> opts (lock c) = opts c \<and> firing (lock c) = firing c"
  by (auto simp: lock_def disable_def list_ok_def members_def Let_def)

lemma run_plain_call:
  assumes calm: "calm w" and f: "plain f"
  shows "world_ok (run_call f dat w)"
proof -
  have ops: "calm (push [Ops ps] v)" if "calm v" "list_all plain_prim ps" for ps v
    using calm_push [OF that(1)] that(2) by simp
  show ?thesis
  proof (cases f)
    case (Lock_list d a)
    let ?c = "lists (dfr w d) Notify"
    have a: "a = Notify" using f Lock_list by (simp add: plain_def)
    have fine: "lists_fine (dfr w)" using calm by (simp add: calm_def)
    note keeps = lock_keeps [OF list_fineD(1) [OF fine, of d Notify]]
    have "lists_fine (with_list d Notify (lock ?c) (dfr w))"
      using fine keeps by (auto simp: lists_fine_def)
    moreover have "frames_fine (with_list d Notify (lock ?c) (dfr w)) (frames w)"
      using calm keeps frames_fine_with by (auto simp: calm_def frames_fine_def)
    ultimately have "calm (put_list d a (lock (get_list w d a)) w)"
      using calm unfolding a by (simp add: calm_def put_list_with get_list_def at_rest_notify)
    then show ?thesis using returned_world Lock_list by simp
  next
    case (Forward src a new h)
    then show ?thesis using calm ops by (cases h) (auto simp: world_ok_def intro!: calm_push)
  qed (use f calm ops in \<open>auto simp: plain_def world_ok_def Let_def update_fires_def intro!: calm_push\<close>)
qed

lemma disable_keeps:
  "list_ok c \<Longrightarrow> list_ok (disable c) \<and> opts (disable c) = opts c \<and> firing (disable c) = firing c \<and> queue_of (disable c) = q_disable (queue_of c)"
  by (auto simp: disable_def list_ok_def queue_of_def queue_at_def q_disable_def)

lemma opposite_neq [simp]: "opposite a \<noteq> a" "a \<noteq> opposite a" "opposite a \<noteq> Notify" "Notify \<noteq> opposite a" "a \<noteq> Notify \<Longrightarrow> opposite (opposite a) = a"
  by (cases a; simp add: opposite_def)+

lemma run_disable:
  assumes fine: "lists_fine (dfr w)" and frames: "frames_fine (dfr w) (Loop d a dat # fs)"
    and rest: "\<forall>e. e \<noteq> d \<longrightarrow> at_rest (dfr w) e" and now: "disabling_other (dfr w) (Call f dat' # Loop d a dat # fs) d a"
  shows "world_ok (run_call f dat' (w\<lparr>frames := Loop d a dat # fs\<rparr>))"
proof -
  let ?b = "opposite a" and ?D = "dfr w"
  let ?D' = "with_list d ?b (disable (lists (?D d) ?b)) ?D"
  have a: "a \<noteq> Notify" and f: "f = Disable_list d ?b" and st: "state (?D d) = final a" and live: "live (lview ?D d a)"
    and wait: "waiting_for (first_functions d ?b) (lview ?D d ?b)"
    using now by (auto simp: disabling_other_def)
  note keeps = disable_keeps [OF list_fineD(1) [OF fine, of d ?b]]
  have "settled ?D' d a" using a st live waiting_disable [OF wait] keeps by (simp add: settled_def)
  then have "at_rest ?D' e" for e using rest at_rest_other by (cases "e = d") (auto simp: at_rest_def)
  moreover have "lists_fine ?D'" using fine keeps by (auto simp: lists_fine_def)
  moreover have "frames_fine ?D' (Loop d a dat # fs)" using frames keeps by (auto simp: frames_fine_def)
  ultimately have "calm (w\<lparr>frames := Loop d a dat # fs, dfr := ?D'\<rparr>)" by (simp add: calm_def)
  then show ?thesis using returned_world by (simp add: f put_list_with get_list_def)
qed

lemma run_set_state:
  assumes fine: "lists_fine (dfr w)" and frames: "frames_fine (dfr w) (Loop d a dat # fs)"
    and rest: "\<forall>e. e \<noteq> d \<longrightarrow> at_rest (dfr w) e" and now: "setting_state (dfr w) (Call f dat' # Loop d a dat # fs) d a"
  shows "world_ok (run_call f dat' (w\<lparr>frames := Loop d a dat # fs\<rparr>))"
proof -
  let ?b = "opposite a" and ?D = "dfr w"
  let ?c = "lists (?D d) a"
  let ?r = "returns False dat ?c"
  obtain t where a: "a \<noteq> Notify" and f: "f = Set_state d (final a)" and t: "list_all plain t"
    and wait: "waiting_for (first_functions d ?b) (lview ?D d ?b)"
    and q: "queue_of ?c = \<lparr>behind = [Set_state d (final a)], todo = Disable_list d ?b # t, active = True, pending = None,
        latest = Some dat, ever = True, busy = True\<rparr>"
    using now by (auto simp: setting_state_def)
  have firing: "firing ?c" and fresh: "(d, a) \<notin> set (loops fs)" using frames by (auto simp: frames_fine_def)
  have opt: "opts ?c = once_memory" using list_fineD(2) [OF fine] options_not_notify [OF a] by simp
  note list = list_fineD(1) [OF fine, of d a]
  note ok = returns_ok [OF list firing, of dat]
  have r: "fst ?r = Calls (Disable_list d ?b) dat" "queue_of (snd ?r) = \<lparr>behind = [Set_state d (final a), Disable_list d ?b],
      todo = t, active = True, pending = None, latest = Some dat, ever = True, busy = True\<rparr>"
    using return_queue [OF list firing, of False dat] by (simp_all add: opt q q_return_def q_next.simps)
  let ?D1 = "?D(d := (?D d)\<lparr>state := final a\<rparr>)"
  let ?D2 = "with_list d a (snd ?r) ?D1"
  have D2: "lists (?D2 e) x = (if e = d \<and> x = a then snd ?r else lists (?D e) x)"
    "state (?D2 e) = (if e = d then final a else state (?D e))" for e x
    by (simp_all add: with_list_def)
  have fr: "disabling_other ?D2 (Call (Disable_list d ?b) dat # Loop d a dat # fs) d a"
    using a r wait t by (simp add: disabling_other_def D2 live_def)
  have "lists_fine ?D2" using fine ok a by (auto simp: lists_fine_def D2 result_ok_def)
  moreover have "firing (snd ?r)" using ok r(1) unfolding result_ok_def by blast
  then have "frames_fine ?D2 (Loop d a dat # fs)" using frames fresh by (auto simp: frames_fine_def D2)
  moreover have "\<forall>e. e \<noteq> d \<longrightarrow> at_rest ?D2 e" using rest by (simp add: at_rest_def unsettled_def settled_def D2)
  ultimately have "calling (list_result d a ?r (w\<lparr>dfr := ?D1, frames := fs\<rparr>))"
    using fr r(1) by (cases ?r) (simp add: calling_def list_result_def push_def put_list_with)
  then show ?thesis by (simp add: f returned_def put_state_def get_list_def world_ok_def)
qed

lemma go_world:
  assumes "world_ok w" and "\<not> users_turn w"
  shows "world_ok (go w)"
proof (cases "calling w")
  case True
  then obtain f d a dat fs where top: "frames w = Call f dat # Loop d a dat # fs"
    and c: "lists_fine (dfr w)" "frames_fine (dfr w) (Loop d a dat # fs)" "\<forall>e. e \<noteq> d \<longrightarrow> at_rest (dfr w) e"
    and f: "plain f \<and> at_rest (dfr w) d \<or> setting_state (dfr w) (frames w) d a \<or> disabling_other (dfr w) (frames w) d a"
    by (auto simp: calling_def)
  have go: "go w = run_call f dat (w\<lparr>frames := Loop d a dat # fs\<rparr>)" by (simp add: go_def top)
  from f show ?thesis
  proof (elim disjE conjE)
    assume "plain f" and "at_rest (dfr w) d"
    then have "calm (w\<lparr>frames := Loop d a dat # fs\<rparr>)" using c by (auto simp: calm_def)
    then show ?thesis unfolding go using run_plain_call \<open>plain f\<close> by blast
  next
    assume "setting_state (dfr w) (frames w) d a"
    then show ?thesis unfolding go top using run_set_state c by blast
  next
    assume "disabling_other (dfr w) (frames w) d a"
    then show ?thesis unfolding go top using run_disable c by blast
  qed
next
  case False
  then have calm: "calm w" using assms(1) by (simp add: world_ok_def)
  show ?thesis
  proof (cases "frames w")
    case Nil
    then show ?thesis using assms(2) by (simp add: users_turn_def)
  next
    case (Cons fr fs)
    show ?thesis
    proof (cases fr)
      case (Ops ps)
      have top: "calm (w\<lparr>frames := fs\<rparr>)" by (rule calm_top [OF calm Cons])
      have ps: "list_all plain_prim ps" using calm Cons Ops by (simp add: calm_def frames_fine_def)
      show ?thesis
      proof (cases ps)
        case Nil
        then show ?thesis using returned_world [OF top] Cons Ops by (simp add: go_def)
      next
        case prims: (Cons p qs)
        have calm': "calm (w\<lparr>frames := Ops qs # fs\<rparr>)" by (rule calm_replace [OF calm Cons]) (use ps prims in simp)
        have go: "go w = run_prim p (w\<lparr>frames := Ops qs # fs\<rparr>)" using Cons Ops prims by (simp add: go_def)
        show ?thesis
        proof (cases p)
          case (Do_finish m)
          have "calm (push [Ops (finish_joint m (joints w m))] (w\<lparr>frames := Ops qs # fs\<rparr>))"
            by (rule calm_push [OF calm']) (simp_all add: finish_joint_def)
          then show ?thesis unfolding go by (simp add: Do_finish push_def world_ok_def)
        next
          case (Do_add d a g)
          then show ?thesis unfolding go using add_world [OF calm'] ps prims by simp
        next
          case (Do_fire d a dat)
          then show ?thesis unfolding go using fire_world [OF calm'] by simp
        next
          case (Do_count m)
          have "calm (w\<lparr>frames := Ops qs # fs, joints := j\<rparr>)" for j using calm' by (simp add: calm_def)
          then show ?thesis unfolding go by (simp add: Do_count world_ok_def)
        qed
      qed
    next
      case (Call g dat)
      then show ?thesis using calm Cons by (simp add: calm_def frames_fine_def)
    qed (use assms(1) Cons in \<open>simp_all add: go_def\<close>)
  qed
qed

lemma users_turn_calm: "world_ok w \<Longrightarrow> users_turn w \<Longrightarrow> calm w"
  by (auto simp: world_ok_def calling_def users_turn_def is_body_def)

lemma user_world:
  assumes "world_ok w" and "users_turn w"
  shows "world_ok (user_step e w)"
proof -
  have calm: "calm w" by (rule users_turn_calm [OF assms])
  have ops: "calm v \<Longrightarrow> list_all plain_prim ps \<Longrightarrow> world_ok (push [Ops ps] v)" for v ps
    using calm_push [of v "[Ops ps]"] by (simp add: world_ok_def)
  have tl: "calm (w\<lparr>frames := fs\<rparr>)" if "frames w = f # fs" for f fs by (rule calm_top [OF calm that])
  show ?thesis
  proof (cases e)
    case (Then d handlers)
    then show ?thesis using ops calm by (simp add: then_ops_def plain_def)
  next
    case (When vs)
    have "list_all plain_prim (listen m i v)" for m i v by (cases v) (simp_all add: plain_def)
    then have "list_all plain_prim (when_listeners m vs)" for m by (auto simp: when_listeners_def list_all_iff)
    then show ?thesis using When ops calm by (simp add: when_ops_def world_ok_def)
  next
    case (Return_value v)
    then show ?thesis using returned_world tl calm by (cases "frames w") (simp_all add: world_ok_def)
  next
    case Throw_error
    then show ?thesis using calm_unwind tl calm by (cases "frames w") (simp_all add: world_ok_def)
  qed (use ops calm in \<open>simp_all add: plain_def world_ok_def\<close>)
qed

lemma new_world_ok: "world_ok new_world"
proof -
  have list: "lists (new_deferred d) a = (Callbacks (list_options a))\<lparr>fns := Some (first_functions d a)\<rparr>" for d a
  proof -
    have "add_args False (map Function fs) l = l @ fs" for fs l :: "dfn list" by (induction fs arbitrary: l) (simp_all add: push_fn_def)
    moreover have "\<not> unique (list_options a)"
      by (cases a) (simp_all add: once_memory_def, simp add: list_options_def createOptions_def has_flag_def is_space_def)
    ultimately show ?thesis by (simp add: new_deferred_def add_def Callbacks_def Let_def)
  qed
  have state: "state (new_deferred d) = Pending" for d by (simp add: new_deferred_def)
  have "lists_fine new_deferred"
    by (auto simp: lists_fine_def list list_ok_def Callbacks_def members_def first_functions_def)
  moreover have "waiting_for (first_functions d a) (lview new_deferred d a)" if "a \<noteq> Notify" for d a
    unfolding waiting_for_def by (rule exI [of _ "[]"])
      (simp add: list options_not_notify [OF that] queue_of_def queue_at_def split_point_def Callbacks_def once_memory_def)
  then have "at_rest new_deferred d" for d by (simp add: at_rest_def unsettled_def state)
  ultimately show ?thesis by (simp add: world_ok_def calm_def new_world_def frames_fine_def)
qed

lemma steps_ok: "world_steps w v \<Longrightarrow> world_ok w \<Longrightarrow> world_ok v"
  by (induction rule: world_steps.induct) (simp_all add: go_world user_world)

lemma reachable_ok: "world_reachable w \<Longrightarrow> world_ok w"
  using steps_ok new_world_ok by (simp add: world_reachable_def)

text \<open>Only the first function of a list sets the state, and that while the object is pending.\<close>

lemma state_list_result [simp]: "state (dfr (list_result d a r w) e) = state (dfr w e)"
  by (simp add: list_result_def push_def put_list_with unwind_def split: prod.split outcome.split)

lemma state_returned [simp]: "state (dfr (returned v w) e) = state (dfr w e)"
  by (simp add: returned_def split: list.split frame.split)

lemma state_push [simp]: "dfr (push fs w) = dfr w" and state_unwind [simp]: "dfr (unwind w) = dfr w"
  by (simp_all add: push_def unwind_def)

lemma state_prim [simp]: "state (dfr (run_prim p w) e) = state (dfr w e)"
  by (cases p) (simp_all add: do_add_def do_fire_def)

lemma state_call: "(\<And>s. f \<noteq> Set_state e s) \<Longrightarrow> state (dfr (run_call f dat w) e) = state (dfr w e)"
proof (cases f)
  case (Forward src a new h)
  then show ?thesis by (cases h) simp_all
qed (auto simp: put_state_def put_list_with Let_def)

lemma state_user [simp]: "state (dfr (user_step ev w) e) = state (dfr w e)"
  by (cases ev) (auto simp: when_ops_def split: list.split)

lemma state_go:
  assumes "world_ok w" and "state (dfr w e) \<noteq> Pending"
  shows "state (dfr (go w) e) = state (dfr w e)"
proof (cases "\<exists>s dat fs. frames w = Call (Set_state e s) dat # fs")
  case False
  then have "f \<noteq> Set_state e s" if "frames w = Call f dat # fs" for f dat fs s using that by blast
  then have "state (dfr (run_call f dat (w\<lparr>frames := fs\<rparr>)) e) = state (dfr w e)" if "frames w = Call f dat # fs" for f dat fs
    using state_call [of f e dat "w\<lparr>frames := fs\<rparr>"] that by simp
  then show ?thesis by (auto simp: go_def split: list.split frame.split)
next
  case True
  then obtain s dat fs where top: "frames w = Call (Set_state e s) dat # fs" by blast
  then have "\<not> calm w" by (simp add: calm_def frames_fine_def)
  then have "calling w" using assms(1) by (simp add: world_ok_def)
  then have "\<exists>d a. setting_state (dfr w) (frames w) d a" using top by (auto simp: calling_def plain_def disabling_other_def)
  then have "state (dfr w e) = Pending" using top by (auto simp: setting_state_def)
  then show ?thesis using assms(2) by simp
qed

text \<open>A deferred object that is resolved or rejected stays so, whatever happens.\<close>

theorem state_is_final:
  assumes "world_reachable w" and "world_steps w v" and "state (dfr w d) \<noteq> Pending"
  shows "state (dfr v d) = state (dfr w d)"
proof -
  have "world_ok w" by (rule reachable_ok [OF assms(1)])
  then have "world_ok v \<and> state (dfr v d) = state (dfr w d)"
    using assms(2,3)
  proof (induction rule: world_steps.induct [OF assms(2)])
    case (2 u)
    then show ?case using go_world [of u] state_go [of u d] by simp
  next
    case (3 u e)
    then show ?case using user_world [of u e] by simp
  qed simp
  then show ?thesis ..
qed

lemma settled_lists:
  assumes "world_reachable w" and "users_turn w"
  shows "(case state (dfr w d) of
      Pending \<Rightarrow> \<not> fired (get_list w d Resolve) \<and> \<not> fired (get_list w d Reject)
    | Resolved \<Rightarrow> fired (get_list w d Resolve) \<and> \<not> fired (get_list w d Reject) \<and> disabled (get_list w d Reject)
    | Rejected \<Rightarrow> fired (get_list w d Reject) \<and> \<not> fired (get_list w d Resolve) \<and> disabled (get_list w d Resolve))"
proof -
  have views: "fired (get_list w d a) = ever (lview (dfr w) d a)" "disabled (get_list w d a) = (\<not> active (lview (dfr w) d a))" for a
    by (simp_all add: queue_of_def queue_at_def disabled_def get_list_def)
  have rest: "at_rest (dfr w) d" using users_turn_calm [OF reachable_ok [OF assms(1)] assms(2)] by (simp add: calm_def)
  have "settled (dfr w) d Resolve \<or> settled (dfr w) d Reject" if "settled (dfr w) d a" for a
    using that by (cases a) (simp_all add: settled_def)
  then consider "unsettled (dfr w) d" | "settled (dfr w) d Resolve" | "settled (dfr w) d Reject"
    using rest unfolding at_rest_def by blast
  then show ?thesis
  proof cases
    case 1
    then have "state (dfr w d) = Pending" "\<not> ever (lview (dfr w) d Resolve)" "\<not> ever (lview (dfr w) d Reject)"
      unfolding unsettled_def waiting_for_def by auto
    then show ?thesis unfolding views by simp
  next
    case 2
    then have "state (dfr w d) = Resolved" "ever (lview (dfr w) d Resolve)" "dead (lview (dfr w) d Reject)"
      by (simp_all add: settled_def live_def final_def opposite_def)
    then show ?thesis unfolding views dead_def by simp
  next
    case 3
    then have "state (dfr w d) = Rejected" "ever (lview (dfr w) d Reject)" "dead (lview (dfr w) d Resolve)"
      by (simp_all add: settled_def live_def final_def opposite_def)
    then show ?thesis unfolding views dead_def by simp
  qed
qed

subsection \<open>Only the first settling counts\<close>

text \<open>A list that was fired keeps the data of that fire; one that was disabled stays empty.\<close>

definition kept :: "ddata option \<Rightarrow> (dfn, ddata) fire_queue \<Rightarrow> bool" where
  "kept l q \<longleftrightarrow> live q \<and> latest q = l \<or> dead q \<and> l = None"

lemma kept_add: "kept l q \<Longrightarrow> plain f \<Longrightarrow> kept l (snd (q_add once_memory [Function f] q))"
proof (cases "dead q")
  case False
  assume "kept l q" and f: "plain f"
  then have q: "live q" "latest q = l" using False by (simp_all add: kept_def)
  have "latest (snd (q_add once_memory [Function f] q)) = latest q"
    using q(1) by (auto simp: live_def q_add_def q_members_def push_fn_def once_memory_def q_begin_def q_next.simps Let_def)
  then show ?thesis using live_add [OF q(1) f] q(2) by (simp add: kept_def)
qed (use dead_add in \<open>auto simp: kept_def\<close>)

lemma kept_return:
  assumes "kept l q" and "busy q"
  shows "kept l (snd (q_return once_memory False d q))"
proof -
  have q: "live q" "latest q = l" using assms by (auto simp: kept_def dead_def)
  have "latest (snd (q_return once_memory False d q)) = latest q"
    using q(1) by (cases "todo q") (auto simp: live_def q_return_def q_next.simps q_over_def q_rest_def q_members_def)
  then show ?thesis using live_return [OF q(1), of d] q(2) by (simp add: kept_def)
qed

lemma kept_fireWith: "kept l (queue_of c) \<Longrightarrow> fireWith d c = (Ends, c)"
  by (auto simp: kept_def live_def dead_def fireWith_def queue_of_def queue_at_def)

lemma do_fire_kept: "kept l (view w d a) \<Longrightarrow> do_fire d a dat w = w"
  using kept_fireWith [of l "get_list w d a" dat]
  by (simp add: do_fire_def list_result_def put_list_def get_list_def)

lemma view_list_result:
  "view (list_result e b r w) d a = (if e = d \<and> b = a then queue_of (snd r) else view w d a)"
  by (auto simp: list_result_def get_list_def push_def put_list_with unwind_def split: prod.split outcome.split)

lemma kept_do_add:
  assumes "lists_fine (dfr w)" and "plain f" and "a \<noteq> Notify" and "kept l (view w d a)"
  shows "kept l (view (do_add e b f w) d a)"
proof (cases "e = d \<and> b = a")
  case True
  note fine = list_fineD [OF assms(1)]
  have opt: "opts (get_list w d a) = once_memory" using fine(2) options_not_notify [OF assms(3)] by (simp add: get_list_def)
  have "queue_of (snd (add [Function f] (get_list w d a))) = snd (q_add once_memory [Function f] (view w d a))"
    using add_queue [of "get_list w d a" "[Function f]"] fine(1) [of d a] opt by (simp add: get_list_def)
  then show ?thesis using True kept_add [OF assms(4,2)] by (simp add: do_add_def view_list_result)
qed (use assms(4) in \<open>auto simp: do_add_def view_list_result\<close>)

lemma kept_do_fire: "kept l (view w d a) \<Longrightarrow> kept l (view (do_fire e b dat w) d a)"
  by (auto simp: do_fire_def view_list_result kept_fireWith)

lemma view_ops [simp]: "view (w\<lparr>frames := fs\<rparr>) d a = view w d a"
  by (simp add: get_list_def)

lemma kept_returned:
  assumes "list_ok (get_list w d a)" and "opts (get_list w d a) = once_memory" and "kept l (view w d a)"
    and "\<And>dat fs. frames w = Loop d a dat # fs \<Longrightarrow> firing (get_list w d a)"
  shows "kept l (view (returned v w) d a)"
proof (cases "\<exists>dat fs. frames w = Loop d a dat # fs")
  case True
  then obtain dat fs where top: "frames w = Loop d a dat # fs" by blast
  then have firing: "firing (get_list w d a)" by (rule assms(4))
  then have "queue_of (snd (returns False dat (get_list w d a))) = snd (q_return once_memory False dat (view w d a))"
    using return_queue [OF assms(1), of False dat] assms(2) by simp
  moreover have "busy (view w d a)" using firing by (simp add: get_list_def busy_view)
  ultimately show ?thesis
    using kept_return [OF assms(3)] by (simp add: returned_def top view_list_result)
next
  case False
  then have "frames w \<noteq> Loop d a dat # fs" for dat fs by blast
  then show ?thesis using assms(3)
    by (auto simp: returned_def view_list_result split: list.split frame.split)
qed

lemma kept_put:
  "get_list (put_state e s w) d a = get_list w d a" "e \<noteq> d \<or> b \<noteq> a \<Longrightarrow> get_list (put_list e b c w) d a = get_list w d a"
  "frames (put_state e s w) = frames w" "frames (put_list e b c w) = frames w"
  by (auto simp: get_list_def put_state_def put_list_def)

lemma kept_run_call:
  assumes ok: "list_ok (get_list w d a)" "opts (get_list w d a) = once_memory" and kept: "kept l (view w d a)"
    and top: "\<And>dat fs. frames w = Loop d a dat # fs \<Longrightarrow> firing (get_list w d a)"
    and f: "f \<noteq> Disable_list d a" "f \<noteq> Lock_list d a"
  shows "kept l (view (run_call f dat w) d a)"
proof (cases f)
  case (Set_state e s)
  have "kept l (view (returned v (put_state e s w)) d a)" for v
    by (rule kept_returned) (use ok kept top in \<open>simp_all add: kept_put\<close>)
  then show ?thesis using Set_state by simp
next
  case (Disable_list e b)
  then have other: "e \<noteq> d \<or> b \<noteq> a" using f by auto
  have "kept l (view (returned v (put_list e b c w)) d a)" for v c
    by (rule kept_returned) (use ok kept top in \<open>simp_all add: kept_put(2) [OF other] kept_put(4)\<close>)
  then show ?thesis using Disable_list by simp
next
  case (Lock_list e b)
  then have other: "e \<noteq> d \<or> b \<noteq> a" using f by auto
  have "kept l (view (returned v (put_list e b c w)) d a)" for v c
    by (rule kept_returned) (use ok kept top in \<open>simp_all add: kept_put(2) [OF other] kept_put(4)\<close>)
  then show ?thesis using Lock_list by simp
next
  case (Forward src b new h)
  then show ?thesis using kept by (cases h) (simp_all add: push_def get_list_def)
qed (use kept in \<open>simp_all add: push_def get_list_def Let_def\<close>)

lemma waiting_not_kept: "waiting_for first q \<Longrightarrow> \<not> kept l q"
  by (auto simp: waiting_for_def kept_def live_def dead_def)

lemma kept_go:
  assumes ok: "world_ok w" and a: "a \<noteq> Notify" and kept: "kept l (view w d a)"
  shows "kept l (view (go w) d a)"
proof -
  have fine: "lists_fine (dfr w)" using ok by (auto simp: world_ok_def calm_def calling_def)
  have list: "list_ok (get_list w d a)" "opts (get_list w d a) = once_memory"
    using list_fineD(1,2) [OF fine] options_not_notify [OF a] by (simp_all add: get_list_def)
  have firing: "firing (get_list w d a)" if "(d, a) \<in> set (loops (frames w))"
    using ok that by (auto simp: world_ok_def calm_def calling_def frames_fine_def get_list_def)
  show ?thesis
  proof (cases "\<exists>f dat fs. frames w = Call f dat # fs")
    case True
    then obtain f dat fs where fr: "frames w = Call f dat # fs" by blast
    then have "calling w" using ok by (auto simp: world_ok_def calm_def frames_fine_def)
    then have "f \<noteq> Disable_list d a \<and> f \<noteq> Lock_list d a"
      using fr a kept waiting_not_kept
      by (auto simp: calling_def plain_def setting_state_def disabling_other_def get_list_def)
    then have "kept l (view (run_call f dat (w\<lparr>frames := fs\<rparr>)) d a)"
      by (intro kept_run_call) (use list kept firing fr in \<open>auto simp: get_list_def\<close>)
    then show ?thesis by (simp add: go_def fr)
  next
    case False
    then have "calm w" using ok by (auto simp: world_ok_def calling_def)
    then have prims: "list_all plain_prim ps" if "frames w = Ops ps # fs" for ps fs
      using that by (simp add: calm_def frames_fine_def)
    have "kept l (view (run_prim p (w\<lparr>frames := fs\<rparr>)) d a)" if "plain_prim p" for p fs
    proof (cases p)
      case (Do_add e b f)
      then show ?thesis using kept_do_add [of "w\<lparr>frames := fs\<rparr>" f a l d] fine a kept that by simp
    qed (use kept kept_do_fire [of l "w\<lparr>frames := fs\<rparr>" d a] in \<open>simp_all add: get_list_def\<close>)
    moreover have "kept l (view (returned Undefined (w\<lparr>frames := fs\<rparr>)) d a)" if "frames w = Ops [] # fs" for fs
      by (rule kept_returned) (use list kept firing that in \<open>auto simp: get_list_def\<close>)
    ultimately show ?thesis using kept prims False
      by (auto simp: go_def split: list.split frame.split)
  qed
qed

lemma kept_user:
  assumes ok: "world_ok w" and turn: "users_turn w" and a: "a \<noteq> Notify" and kept: "kept l (view w d a)"
  shows "kept l (view (user_step e w) d a)"
proof (cases e)
  case (Return_value v)
  have calm: "calm w" by (rule users_turn_calm [OF ok turn])
  then have fine: "lists_fine (dfr w)" by (simp add: calm_def)
  have "firing (get_list w d a)" if "(d, a) \<in> set (loops (frames w))"
    using calm that by (auto simp: calm_def frames_fine_def get_list_def)
  then have "kept l (view (returned v (w\<lparr>frames := fs\<rparr>)) d a)" if "frames w = f # fs" for f fs
    using that list_fineD(1,2) [OF fine] options_not_notify [OF a] kept
    by (intro kept_returned) (cases f; auto simp: get_list_def)+
  then show ?thesis using kept Return_value by (cases "frames w") simp_all
next
  case (When vs)
  then show ?thesis using kept by (simp add: when_ops_def push_def get_list_def)
next
  case Throw_error
  then show ?thesis using kept by (simp add: unwind_def get_list_def split: list.split)
qed (use kept in \<open>simp_all add: push_def get_list_def\<close>)

lemma kept_steps:
  assumes "world_steps w v" and "world_ok w" and "a \<noteq> Notify" and "kept l (view w d a)"
  shows "kept l (view v d a)"
proof -
  have "world_ok v \<and> kept l (view v d a)"
    using assms(1)
  proof (induction rule: world_steps.induct)
    case no_step
    then show ?case using assms by simp
  next
    case (goes u)
    then show ?case using go_world kept_go assms(3) by blast
  next
    case (acts u e)
    then show ?case using user_world kept_user assms(3) by blast
  qed
  then show ?thesis ..
qed

lemma settled_kept:
  assumes "calm w" and "state (dfr w d) \<noteq> Pending" and "a \<noteq> Notify"
  shows "kept (remembered (get_list w d a)) (view w d a)"
proof -
  have latest: "latest (view w d a) = remembered (get_list w d a)" by (simp add: queue_of_def queue_at_def)
  have "at_rest (dfr w) d" using assms(1) by (simp add: calm_def)
  then show ?thesis
    using assms(3)
  proof (cases rule: rest_cases)
    case waiting
    then show ?thesis using assms(2) by (simp add: unsettled_def)
  next
    case settled
    then show ?thesis using latest by (simp add: kept_def get_list_def)
  next
    case dead
    then show ?thesis using latest by (auto simp: kept_def dead_def get_list_def)
  qed
qed

lemma settling_again:
  assumes "users_turn w" and "kept l (view w d a)"
  shows "runs (user_step (Act d a dat) w) w"
proof -
  let ?u = "user_step (Act d a dat) w"
  have "go ?u = do_fire d a dat (w\<lparr>frames := Ops [] # frames w\<rparr>)" by (simp add: go_def push_def)
  then have first: "go ?u = w\<lparr>frames := Ops [] # frames w\<rparr>"
    using do_fire_kept [of l "w\<lparr>frames := Ops [] # frames w\<rparr>" d a dat] assms(2) by simp
  have "returned Undefined w = w"
    using assms(1) by (auto simp: returned_def users_turn_def is_body_def split: list.split frame.split)
  then have second: "go (go ?u) = w" unfolding first by (simp add: go_def)
  have "runs ?u (go ?u)"
    by (rule runs.run_on [OF runs.run_here]) (simp add: users_turn_def is_body_def push_def)
  then have "runs ?u (go (go ?u))"
    by (rule runs.run_on) (subst first, simp add: users_turn_def is_body_def)
  then show ?thesis by (simp only: second)
qed

lemma settled_for_good:
  assumes w: "world_reachable w" "users_turn w" and settled: "state (dfr w d) \<noteq> Pending" and a: "a \<noteq> Notify"
  shows "runs (user_step (Act d a dat) w) w"
    and "world_steps w v \<Longrightarrow> remembered (get_list v d a) = remembered (get_list w d a)"
proof -
  have ok: "world_ok w" by (rule reachable_ok [OF w(1)])
  note kept = settled_kept [OF users_turn_calm [OF ok w(2)] settled a]
  show "runs (user_step (Act d a dat) w) w" by (rule settling_again [OF w(2) kept])
  assume "world_steps w v"
  then have "kept (remembered (get_list w d a)) (view v d a)" by (rule kept_steps [OF _ ok a kept])
  then have "latest (view v d a) = remembered (get_list w d a)" by (auto simp: kept_def dead_def)
  then show "remembered (get_list v d a) = remembered (get_list w d a)" by (simp add: queue_of_def queue_at_def)
qed

text \<open>
  C24: A deferred object is settled at most once. Whatever the functions of the user have done (also resolve
  and reject while functions run, return promises, or throw), whenever it is the user's turn a pending
  object has fired neither of its lists, and a resolved one has fired the list of its done functions,
  while the list of its fail functions was never fired and is disabled, and conversely. To resolve or
  reject a settled object again then changes nothing and calls no function; and from then
  on, whatever happens, its state and the value and \<open>this\<close> that it was settled with are the same.
\<close>

theorem settled_once:
  assumes "world_reachable w" and "users_turn w"
  shows "(case state (dfr w d) of
      Pending \<Rightarrow> \<not> fired (get_list w d Resolve) \<and> \<not> fired (get_list w d Reject)
    | Resolved \<Rightarrow> fired (get_list w d Resolve) \<and> \<not> fired (get_list w d Reject) \<and> disabled (get_list w d Reject)
    | Rejected \<Rightarrow> fired (get_list w d Reject) \<and> \<not> fired (get_list w d Resolve) \<and> disabled (get_list w d Resolve)) \<and>
    (state (dfr w d) \<noteq> Pending \<longrightarrow>
      (\<forall>a dat. a \<noteq> Notify \<longrightarrow> runs (user_step (Act d a dat) w) w) \<and>
      (\<forall>v a. world_steps w v \<longrightarrow> a \<noteq> Notify \<longrightarrow>
        state (dfr v d) = state (dfr w d) \<and> remembered (get_list v d a) = remembered (get_list w d a)))"
  using settled_lists [OF assms] settled_for_good [OF assms] state_is_final [OF assms(1)] by blast

section \<open>Promises of then\<close>

lemma users_turn_frames: "users_turn w \<Longrightarrow> \<exists>fs. frames w = fs \<and> (fs = [] \<or> (\<exists>n r. fs = Body n # r))"
  by (cases "frames w") (auto simp: users_turn_def is_body_def split: frame.splits)

lemma live_add_calls:
  assumes "list_ok c" and "opts c = once_memory" and "live (queue_of c)" and "\<not> firing c" and "remembered c = Some dat"
  shows "fst (add [Function f] c) = Calls f dat"
proof -
  have "active (queue_of c)" "\<not> busy (queue_of c)" "latest (queue_of c) = Some dat"
    using assms by (simp_all add: live_def queue_of_def queue_at_def)
  then have "fst (q_add once_memory [Function f] (queue_of c)) = Calls f dat"
    by (simp add: q_add_def q_next.simps q_begin_def push_fn_def once_memory_def Let_def)
  then show ?thesis using add_queue [OF assms(1), of "[Function f]"] assms(2) by simp
qed

lemma do_add_dead: "dead (view w d a) \<Longrightarrow> do_add d a f w = w"
proof -
  assume "dead (view w d a)"
  then have "\<not> active (view w d a)" by (simp add: dead_def)
  then have "fns (get_list w d a) = None" by (simp add: queue_of_def queue_at_def)
  then have "do_add d a f w = put_list d a (get_list w d a) w" by (simp add: do_add_def add_def list_result_def)
  then show ?thesis by (simp add: put_list_def get_list_def)
qed

text \<open>The new object is settled as soon as its list is fired.\<close>

lemma fire_settles:
  assumes "lists_fine (dfr w)" and "unsettled (dfr w) n" and "a \<noteq> Notify"
  shows "\<exists>c. do_fire n a dat w = push [Call (Set_state n (final a)) dat, Loop n a dat] (put_list n a c w) \<and> remembered c = Some dat"
proof -
  let ?c = "lists (dfr w n) a"
  note fine = list_fineD(1) [OF assms(1), of n a] list_fineD(2) [OF assms(1), of n a, unfolded options_not_notify [OF assms(3)]]
  have "waiting_for (first_functions n a) (queue_of ?c)" using assms(2,3) by (cases a) (simp_all add: unsettled_def)
  then obtain t where t: "q_fire once_memory dat (queue_of ?c) = (Calls (Set_state n (final a)) dat,
        \<lparr>behind = [Set_state n (final a)], todo = Disable_list n (opposite a) # t, active = True, pending = None,
          latest = Some dat, ever = True, busy = True\<rparr>)"
    using waiting_fire [OF _ assms(3)] by blast
  have eq: "q_fire once_memory dat (queue_of ?c) = (fst (fireWith dat ?c), queue_of (snd (fireWith dat ?c)))"
    using fire_queue [OF fine(1), of dat] by (simp add: fine(2))
  have r: "fst (fireWith dat ?c) = Calls (Set_state n (final a)) dat" and "queue_of (snd (fireWith dat ?c)) =
        \<lparr>behind = [Set_state n (final a)], todo = Disable_list n (opposite a) # t, active = True, pending = None,
          latest = Some dat, ever = True, busy = True\<rparr>"
    using t unfolding eq by (simp_all only: prod.inject)
  then have "latest (queue_of (snd (fireWith dat ?c))) = Some dat" by simp
  note r this
  moreover have "latest (queue_of c) = remembered c" for c :: "(dfn, ddata) callbacks" by (simp add: queue_of_def queue_at_def)
  ultimately show ?thesis
    by (intro exI [of _ "snd (fireWith dat ?c)"]) (cases "fireWith dat ?c"; simp add: do_fire_def get_list_def list_result_def)
qed

lemma set_state_keeps:
  assumes "frames v = Call (Set_state n s) dat # Loop n a dat' # fs" and "remembered (get_list v n a) = Some dat"
    and "list_ok (get_list v n a)" and "firing (get_list v n a)" and "opts (get_list v n a) = once_memory"
    and "todo (view v n a) = g # r"
  shows "state (dfr (go v) n) = s \<and> remembered (get_list (go v) n a) = Some dat"
proof -
  let ?c = "get_list v n a"
  have q: "q_return once_memory False dat' (queue_of ?c) = (Calls g dat', (queue_of ?c)\<lparr>behind := behind (queue_of ?c) @ [g], todo := r\<rparr>)"
    by (simp add: q_return_def q_next.simps assms(6))
  have eq: "q_return once_memory False dat' (queue_of ?c) = (fst (returns False dat' ?c), queue_of (snd (returns False dat' ?c)))"
    using return_queue [OF assms(3,4), of False dat'] by (simp add: assms(5))
  have "queue_of (snd (returns False dat' ?c)) = (queue_of ?c)\<lparr>behind := behind (queue_of ?c) @ [g], todo := r\<rparr>"
    and call: "fst (returns False dat' ?c) = Calls g dat'"
    using q unfolding eq by (simp_all only: prod.inject)
  then have "latest (queue_of (snd (returns False dat' ?c))) = latest (queue_of ?c)" by simp
  then have rem: "remembered (snd (returns False dat' ?c)) = Some dat"
    using assms(2) by (simp add: queue_of_def queue_at_def)
  have "go v = list_result n a (returns False dat' ?c) (v\<lparr>dfr := (dfr v)(n := (dfr v n)\<lparr>state := s\<rparr>), frames := fs\<rparr>)"
    by (simp add: go_def assms(1) returned_def put_state_def get_list_def)
  then show ?thesis using call rem
    by (cases "returns False dat' ?c") (simp add: list_result_def push_def put_list_with get_list_def)
qed

lemma calling_set_state:
  assumes "world_ok v" and "frames v = Call (Set_state n s) dat # fs"
  shows "\<exists>a dat' fs' g r. fs = Loop n a dat' # fs' \<and> s = final a \<and> a \<noteq> Notify \<and> todo (view v n a) = g # r \<and>
    list_ok (get_list v n a) \<and> firing (get_list v n a) \<and> opts (get_list v n a) = once_memory"
proof -
  have "\<not> calm v" using assms(2) by (simp add: calm_def frames_fine_def)
  then have c: "calling v" using assms(1) by (simp add: world_ok_def)
  then obtain d a where set: "setting_state (dfr v) (frames v) d a"
    using assms(2) by (auto simp: calling_def plain_def disabling_other_def)
  have fine: "lists_fine (dfr v)" using c by (simp add: calling_def)
  obtain dat' fs' t where top: "frames v = Call (Set_state d (final a)) dat' # Loop d a dat' # fs'" and a: "a \<noteq> Notify"
    and q: "view v d a = \<lparr>behind = [Set_state d (final a)], todo = Disable_list d (opposite a) # t, active = True, pending = None,
      latest = Some dat', ever = True, busy = True\<rparr>"
    using set by (auto simp: setting_state_def get_list_def)
  have "firing (get_list v d a)" using q by (simp add: get_list_def flip: busy_view)
  moreover have "opts (get_list v d a) = once_memory" "list_ok (get_list v d a)"
    using list_fineD(1,2) [OF fine, of d a] options_not_notify [OF a] by (simp_all add: get_list_def)
  ultimately show ?thesis using top q a assms(2) by auto
qed

lemma log_same: "user_log (list_result d a r w) = user_log w" "user_log (returned v w) = user_log w"
  by (simp_all add: list_result_def returned_def push_def put_list_with unwind_def split: prod.split outcome.split list.split frame.split)

text \<open>One step after the fire the object is settled with the data of the fire.\<close>

lemma settles_with:
  assumes "world_ok v" and "calm v" and "unsettled (dfr v) n" and "a \<noteq> Notify"
  shows "\<not> users_turn (do_fire n a dat v) \<and> state (dfr (go (do_fire n a dat v)) n) = final a \<and>
    remembered (get_list (go (do_fire n a dat v)) n a) = Some dat \<and> user_log (go (do_fire n a dat v)) = user_log v"
proof -
  have fine: "lists_fine (dfr v)" using assms(2) by (simp add: calm_def)
  obtain c where f: "do_fire n a dat v = push [Call (Set_state n (final a)) dat, Loop n a dat] (put_list n a c v)"
    and c: "remembered c = Some dat"
    using fire_settles [OF fine assms(3,4)] by blast
  let ?v = "do_fire n a dat v"
  have top: "frames ?v = Call (Set_state n (final a)) dat # Loop n a dat # frames v"
    by (simp add: f push_def put_list_with)
  have rem: "remembered (get_list ?v n a) = Some dat" using c by (simp add: f push_def put_list_with get_list_def)
  obtain g r where "todo (view ?v n a) = g # r" "list_ok (get_list ?v n a)" "firing (get_list ?v n a)"
    "opts (get_list ?v n a) = once_memory"
    using calling_set_state [OF fire_world [OF assms(2), of n a dat] top] by auto
  moreover have "user_log (go ?v) = user_log v"
    using top by (simp add: go_def) (simp add: f log_same push_def put_list_with put_state_def)
  ultimately show ?thesis using set_state_keeps [OF top rem] top by (simp add: users_turn_def is_body_def)
qed

text \<open>The list of an object that is settled and idle calls the function that \<open>then\<close> adds at once.\<close>

definition settled_idle :: "world \<Rightarrow> nat \<Rightarrow> action \<Rightarrow> ddata \<Rightarrow> bool" where
  "settled_idle w d a dat \<longleftrightarrow> settled (dfr w) d a \<and> \<not> firing (get_list w d a) \<and> remembered (get_list w d a) = Some dat"

lemma idle_calls:
  assumes "calm w" and "settled_idle w d a dat"
  shows "\<exists>c. do_add d a f w = push [Call f dat, Loop d a dat] (put_list d a c w)"
proof -
  have a: "a \<noteq> Notify" and live: "live (view w d a)" using assms(2) by (auto simp: settled_idle_def settled_def get_list_def)
  have fine: "lists_fine (dfr w)" using assms(1) by (simp add: calm_def)
  have "list_ok (get_list w d a)" "opts (get_list w d a) = once_memory"
    using list_fineD(1,2) [OF fine, of d a] options_not_notify [OF a] by (simp_all add: get_list_def)
  then have "fst (add [Function f] (get_list w d a)) = Calls f dat"
    using live_add_calls [of "get_list w d a"] live assms(2) by (simp add: settled_idle_def)
  then show ?thesis
    by (intro exI [of _ "snd (add [Function f] (get_list w d a))"])
      (cases "add [Function f] (get_list w d a)"; simp add: do_add_def list_result_def)
qed

lemma steps_trans: "world_steps w v \<Longrightarrow> world_steps u w \<Longrightarrow> world_steps u v"
  by (induction rule: world_steps.induct) (auto intro: world_steps.intros)

lemma steps_go: "\<not> users_turn w \<Longrightarrow> world_steps w (go w)"
  by (rule world_steps.goes [OF world_steps.no_step])

lemma steps_user: "users_turn w \<Longrightarrow> known_event (next_id w) e \<Longrightarrow> world_steps w (user_step e w)"
  by (rule world_steps.acts [OF world_steps.no_step])

lemma runs_trans: "runs w v \<Longrightarrow> runs u w \<Longrightarrow> runs u v"
  by (induction rule: runs.induct) (auto intro: runs.intros)

lemma runs_go: "\<not> users_turn w \<Longrightarrow> runs w (go w)"
  by (rule runs.run_on [OF runs.run_here])

lemma runs_steps: "runs w v \<Longrightarrow> world_steps u w \<Longrightarrow> world_steps u v"
  by (induction rule: runs.induct) (auto intro: world_steps.intros)

lemma runs_go_chain: "runs w v \<Longrightarrow> v = w \<or> \<not> users_turn w \<and> runs (go w) v"
  by (induction rule: runs.induct) (auto intro: runs.intros)

text \<open>Where it is the user's turn again is determined.\<close>

lemma runs_determined: "runs w v \<Longrightarrow> users_turn v \<Longrightarrow> runs w u \<Longrightarrow> users_turn u \<Longrightarrow> v = u"
proof -
  have "runs w u \<Longrightarrow> runs w v \<Longrightarrow> runs u v \<or> runs v u" for v
  proof (induction rule: runs.induct)
    case (run_on u)
    then show ?case using runs_go_chain [of u v] runs.run_on [of v u] by (auto intro: runs.intros)
  qed simp
  moreover assume "runs w v" "users_turn v" "runs w u" "users_turn u"
  ultimately show "v = u" using runs_go_chain by blast
qed

text \<open>The call of \<open>then\<close> up to the call of the function that it adds to the list of action \<open>a\<close>.\<close>

lemma then_calls:
  assumes ok: "world_ok w" and turn: "users_turn w" and idle: "settled_idle w d a dat" and d: "d < next_id w"
  shows "\<exists>v fs c. runs (user_step (Then d h) w) v \<and> world_ok v \<and> frames v = Call (Forward d a (next_id w) (h a)) dat # Loop d a dat # fs \<and>
    dfr v = with_list d a c (dfr w) \<and> next_id v = Suc (next_id w) \<and> user_log v = user_log w"
proof -
  let ?f = "\<lambda>b. Do_add d b (Forward d b (next_id w) (h b))"
  let ?u = "w\<lparr>next_id := Suc (next_id w)\<rparr>"
  let ?v = "\<lambda>ps. ?u\<lparr>frames := Ops ps # frames w\<rparr>"
  have calm: "calm w" by (rule users_turn_calm [OF ok turn])
  have calm': "calm (?v ps)" if "list_all plain_prim ps" for ps
    using calm_push [of ?u "[Ops ps]"] calm that by (simp add: push_def)
  have start: "user_step (Then d h) w = ?v [?f Resolve, ?f Reject, ?f Notify]" by (simp add: then_ops_def push_def)
  have first: "runs (user_step (Then d h) w) (?v [?f Resolve, ?f Reject, ?f Notify])" unfolding start by (rule runs.run_here)
  have ok_start: "world_ok (user_step (Then d h) w)" by (rule user_world [OF ok turn])
  have idle': "settled_idle (?v ps) d a dat" for ps using idle by (simp add: settled_idle_def get_list_def)
  have added: "\<exists>c. do_add d a (Forward d a (next_id w) (h a)) (?v ps) =
      push [Call (Forward d a (next_id w) (h a)) dat, Loop d a dat] (put_list d a c (?v ps))" if "list_all plain_prim ps" for ps
    using idle_calls [OF calm' [OF that] idle'] by blast
  have reached: ?thesis if steps: "runs (user_step (Then d h) w) (?v (?f a # ps))" and ps: "list_all plain_prim ps" for ps
  proof -
    obtain c where c: "do_add d a (Forward d a (next_id w) (h a)) (?v ps) =
        push [Call (Forward d a (next_id w) (h a)) dat, Loop d a dat] (put_list d a c (?v ps))"
      using added [OF ps] by blast
    let ?x = "go (?v (?f a # ps))"
    have x: "?x = push [Call (Forward d a (next_id w) (h a)) dat, Loop d a dat] (put_list d a c (?v ps))"
      using c by (simp add: go_def)
    have run: "runs (user_step (Then d h) w) ?x"
      using runs.run_on [OF steps] by (simp add: users_turn_def is_body_def del: user_step.simps)
    moreover have "world_ok ?x" by (rule steps_ok [OF runs_steps [OF run world_steps.no_step] ok_start])
    ultimately show ?thesis
      by (intro exI [of _ ?x] exI [of _ "Ops ps # frames w"] exI [of _ c]) (simp add: x push_def put_list_with)
  qed
  have a: "a \<noteq> Notify" and "dead (view w d (opposite a))" using idle by (auto simp: settled_idle_def settled_def get_list_def)
  show ?thesis
  proof (cases a)
    case Resolve
    then show ?thesis using reached [of "[?f Reject, ?f Notify]"] first by (simp add: plain_def del: user_step.simps)
  next
    case Reject
    then have "dead (view (?v [?f Reject, ?f Notify]) d Resolve)"
      using \<open>dead (view w d (opposite a))\<close> by (simp add: opposite_def get_list_def)
    then have "go (?v [?f Resolve, ?f Reject, ?f Notify]) = ?v [?f Reject, ?f Notify]"
      by (simp add: go_def do_add_dead)
    then have "runs (user_step (Then d h) w) (?v [?f Reject, ?f Notify])"
      using runs.run_on [OF first] by (simp add: users_turn_def is_body_def del: user_step.simps)
    then show ?thesis using reached [of "[?f Notify]"] Reject by (simp add: plain_def del: user_step.simps)
  next
    case Notify
    then show ?thesis using a by simp
  qed
qed

text \<open>A function of \<open>then\<close> fires the list of the new object.\<close>

lemma forward_settles:
  assumes ok: "world_ok v" and top: "frames v = Ops [Do_fire n a dat] # fs" and n: "unsettled (dfr v) n" and a: "a \<noteq> Notify"
  shows "\<exists>u. runs v u \<and> state (dfr u n) = final a \<and> remembered (get_list u n a) = Some dat \<and> user_log u = user_log v"
proof -
  let ?w = "v\<lparr>frames := Ops [] # fs\<rparr>"
  have "calm v" using ok top by (auto simp: world_ok_def calling_def)
  then have calm: "calm ?w" using calm_replace [OF _ top] by simp
  have turn: "\<not> users_turn v" using top by (simp add: users_turn_def is_body_def)
  have go: "go v = do_fire n a dat ?w" by (simp add: go_def top)
  have w: "world_ok ?w" "unsettled (dfr ?w) n" using calm n by (simp_all add: world_ok_def)
  note s = settles_with [OF w(1) calm w(2) a, of dat]
  have "runs v (go (go v))"
    using runs.run_on [OF runs_go [OF turn]] s by (simp add: go)
  then show ?thesis using s unfolding go by (intro exI [of _ "go (do_fire n a dat ?w)"]) simp
qed

lemma fresh_unsettled: "unsettled new_deferred n"
proof -
  have "unsettled (dfr new_world) n \<or> (\<exists>a. settled (dfr new_world) n a)"
    using users_turn_calm [OF new_world_ok] by (simp add: users_turn_def new_world_def calm_def at_rest_def)
  moreover have "state (dfr new_world n) = Pending" by (simp add: new_world_def new_deferred_def)
  ultimately show ?thesis by (auto simp: settled_def final_def new_world_def split: if_splits)
qed

text \<open>
  C25: \<open>then\<close> on an object that is settled and whose list is not being fired, when the id that the new
  object takes is not in use. Without a handler for the outcome the new object is settled the same
  way with the same value. With a handler the code runs until the handler, and nothing else of the
  user, has been called with the value and \<open>this\<close> of the object; when the handler returns something
  that is not a promise, the code runs on and settles the new object the same way with what was
  returned: in this version of jQuery also a handler for a rejection that returns a value leaves the
  new object rejected. \<open>this\<close> of the new object is the promise of the new object
  instead of that of the old one.
\<close>

theorem then_passes_on:
  assumes w: "world_reachable w" "users_turn w" and idle: "settled_idle w d a dat" and d: "d < next_id w"
    and fresh: "dfr w (next_id w) = new_deferred (next_id w)"
  shows "case h a of
      None \<Rightarrow> \<exists>v. runs (user_step (Then d h) w) v \<and> state (dfr v (next_id w)) = final a \<and> user_log v = user_log w \<and>
        remembered (get_list v (next_id w) a) = Some (forward_context d (next_id w) (fst dat), snd dat)
    | Some u \<Rightarrow> \<exists>v. runs (user_step (Then d h) w) v \<and> users_turn v \<and> user_log v = user_log w @ [(u, dat)] \<and>
        (\<forall>x. \<not> is_promise x \<longrightarrow> (\<exists>v'. runs (user_step (Return_value x) v) v' \<and>
           state (dfr v' (next_id w)) = final a \<and> user_log v' = user_log v \<and>
           remembered (get_list v' (next_id w) a) = Some (forward_context d (next_id w) (fst dat), [x])))"
proof -
  let ?n = "next_id w" and ?c = "forward_context d (next_id w) (fst dat)"
  have ok: "world_ok w" by (rule reachable_ok [OF w(1)])
  obtain v fs c where v: "runs (user_step (Then d h) w) v" "world_ok v"
    and top: "frames v = Call (Forward d a ?n (h a)) dat # Loop d a dat # fs"
    and dfr: "dfr v = with_list d a c (dfr w)" and log: "user_log v = user_log w"
    using then_calls [OF ok w(2) idle d, of h] by blast
  let ?v = "go v"
  have turn: "\<not> users_turn v" using top by (simp add: users_turn_def is_body_def)
  have steps: "runs (user_step (Then d h) w) ?v" by (rule runs.run_on [OF v(1) turn])
  have ok': "world_ok ?v" by (rule go_world [OF v(2) turn])
  have n: "unsettled (dfr v) ?n" using d fresh fresh_unsettled [of ?n] by (simp add: dfr unsettled_def)
  have a: "a \<noteq> Notify" using idle by (simp add: settled_idle_def settled_def)
  show ?thesis
  proof (cases "h a")
    case None
    then have go: "?v = v\<lparr>frames := Ops [Do_fire ?n a (?c, snd dat)] # Loop d a dat # fs\<rparr>"
      using top by (simp add: go_def push_def)
    have "\<exists>u. runs ?v u \<and> state (dfr u ?n) = final a \<and> remembered (get_list u ?n a) = Some (?c, snd dat) \<and> user_log u = user_log ?v"
      by (rule forward_settles [OF ok' _ _ a]) (use n in \<open>simp_all add: go\<close>)
    then obtain u where u: "runs ?v u" "state (dfr u ?n) = final a" "remembered (get_list u ?n a) = Some (?c, snd dat)"
      "user_log u = user_log v" by (auto simp: go)
    then show ?thesis using runs_trans [OF u(1) steps] None log by auto
  next
    case (Some u)
    then have go: "?v = v\<lparr>frames := Body u # Await a ?n ?c # Loop d a dat # fs, user_log := user_log v @ [(u, dat)]\<rparr>"
      using top by (simp add: go_def push_def)
    have "\<exists>v'. runs (user_step (Return_value x) ?v) v' \<and> state (dfr v' ?n) = final a \<and> user_log v' = user_log ?v \<and>
         remembered (get_list v' ?n a) = Some (?c, [x])" if x: "\<not> is_promise x" for x
    proof -
      let ?u = "user_step (Return_value x) ?v"
      have u: "frames ?u = Ops [Do_fire ?n a (?c, [x])] # Loop d a dat # fs" "dfr ?u = dfr v" "user_log ?u = user_log ?v"
        using x by (cases x; simp add: go returned_def is_promise_def)+
      have "world_ok ?u" using user_world [OF ok', of "Return_value x"] by (simp add: go users_turn_def is_body_def)
      then show ?thesis using forward_settles [OF _ u(1) _ a] n unfolding u(2,3) by blast
    qed
    moreover have "users_turn ?v" "user_log ?v = user_log w @ [(u, dat)]"
      using log by (simp_all add: go users_turn_def is_body_def)
    ultimately show ?thesis using steps Some by auto
  qed
qed

section \<open>Samples\<close>

text \<open>An object is resolved with the value 7, and all of its functions run.\<close>

definition resolving :: world where
  "resolving = user_step (Act 0 Resolve (Promise_of 0, [Plain 7])) (user_step New new_world)"

definition resolved_sample :: world where
  "resolved_sample = (go ^^ 5) resolving"

lemma go_steps: "list_all (\<lambda>k. \<not> users_turn ((go ^^ k) w)) [0..<n] \<Longrightarrow> world_steps w ((go ^^ n) w)"
proof (induction n)
  case 0
  then show ?case by (simp add: world_steps.no_step)
next
  case (Suc n)
  then show ?case using world_steps.goes [of w "(go ^^ n) w"] by simp
qed

lemma sample_turn: "users_turn resolved_sample"
  by code_simp

lemma sample_settled: "state (dfr resolved_sample 0) = Resolved"
  by code_simp

lemma sample_next: "next_id resolved_sample = 1"
  by code_simp

lemma sample_list:
  "remembered (get_list resolved_sample 0 Resolve) = Some (Promise_of 0, [Plain 7])"
  by code_simp

lemma sample_idle: "\<not> firing (get_list resolved_sample 0 Resolve)"
  by code_simp

lemmas sample_state = sample_turn sample_settled sample_next sample_list sample_idle

lemma sample_reachable: "world_reachable resolved_sample"
proof -
  have "list_all (\<lambda>k. \<not> users_turn ((go ^^ k) resolving)) [0..<5]" by code_simp
  then have "world_steps resolving resolved_sample" using go_steps unfolding resolved_sample_def by blast
  moreover have "world_reachable resolving"
  proof -
    have "users_turn new_world" "users_turn (user_step New new_world)" by (simp_all add: users_turn_def new_world_def)
    then show ?thesis unfolding world_reachable_def resolving_def
      by (intro world_steps.acts) (simp_all add: world_steps.no_step)
  qed
  ultimately show ?thesis using steps_trans by (simp add: world_reachable_def)
qed

theorem settled_once_witness:
  "fired (get_list resolved_sample 0 Resolve) \<and> disabled (get_list resolved_sample 0 Reject)"
  using settled_once [OF sample_reachable, of 0] sample_state by simp

theorem state_is_final_witness:
  "state (dfr (user_step (Act 0 Reject (Promise_of 0, [])) resolved_sample) 0) = Resolved"
  using state_is_final [OF sample_reachable steps_user [of _ "Act 0 Reject (Promise_of 0, [])"], of 0] sample_state by simp

theorem then_passes_on_witness:
  "\<exists>v. runs (user_step (Then 0 (\<lambda>a. Some 5)) resolved_sample) v \<and> users_turn v \<and>
     user_log v = user_log resolved_sample @ [(5, Promise_of 0, [Plain 7])]"
proof -
  have rest: "at_rest (dfr resolved_sample) 0"
    using users_turn_calm [OF reachable_ok [OF sample_reachable]] sample_state by (simp add: calm_def)
  then have "settled (dfr resolved_sample) 0 Resolve"
    using sample_state by (auto simp: at_rest_def unsettled_def settled_def final_def split: if_splits)
  then have idle: "settled_idle resolved_sample 0 Resolve (Promise_of 0, [Plain 7])"
    using sample_state by (simp add: settled_idle_def)
  have "lists (dfr resolved_sample 1) Resolve = lists (new_deferred 1) Resolve \<and> lists (dfr resolved_sample 1) Reject = lists (new_deferred 1) Reject \<and>
     lists (dfr resolved_sample 1) Notify = lists (new_deferred 1) Notify \<and> state (dfr resolved_sample 1) = state (new_deferred 1)"
    by code_simp
  then have "dfr resolved_sample 1 = new_deferred 1"
    by (intro deferred.equality ext) (metis (full_types) action.exhaust, simp_all)
  then show ?thesis
    using then_passes_on [OF sample_reachable _ idle, of "\<lambda>a. Some 5"] sample_state by auto
qed

section \<open>when waits for all\<close>

text \<open>After \<open>when\<close> has looked at its arguments: those that are not deferred objects are counted off.\<close>

definition counted :: "dvalue list \<Rightarrow> joint" where
  "counted vs = fold (\<lambda>v j. if is_promise v then j else count_joint j) vs (new_joint vs)"

definition promise_indices :: "dvalue list \<Rightarrow> nat set" where
  "promise_indices vs = {i. i < length vs \<and> is_promise (vs ! i)}"

lemma count_fold:
  "fold (\<lambda>v j. if is_promise v then j else count_joint j) vs j =
     j\<lparr>remaining := remaining j - length (filter (\<lambda>v. \<not> is_promise v) vs)\<rparr>"
  by (induction vs arbitrary: j) (simp_all add: count_joint_def)

lemma counted_joint:
  assumes "length vs \<noteq> 1"
  shows "counted vs = (new_joint vs)\<lparr>remaining := card (promise_indices vs)\<rparr>"
proof -
  have "length vs = length (filter is_promise vs) + length (filter (\<lambda>v. \<not> is_promise v) vs)"
    by (simp add: sum_length_filter_compl)
  moreover have "length (filter is_promise vs) = card (promise_indices vs)"
    by (simp add: promise_indices_def length_filter_conv_card)
  ultimately show ?thesis using assms by (simp add: counted_def count_fold new_joint_def)
qed

definition updated :: "(nat \<times> ddata) list \<Rightarrow> joint \<Rightarrow> joint" where
  "updated us j = fold (\<lambda>(i, dat) j. update_joint i False dat j) us j"

definition values_after :: "(nat \<times> ddata) list \<Rightarrow> dvalue list \<Rightarrow> dvalue list" where
  "values_after us vs = map (\<lambda>i. case map_of us i of Some dat \<Rightarrow> value_of_args (snd dat) | None \<Rightarrow> vs ! i) [0..<length vs]"

lemma updated_joint:
  assumes "distinct (map fst us)" and "set (map fst us) \<subseteq> promise_indices vs" and "length vs \<noteq> 1"
  shows "remaining (updated us (counted vs)) = card (promise_indices vs) - length us \<and>
    resolveValues (updated us (counted vs)) = values_after us vs"
  using assms
proof (induction us rule: rev_induct)
  case Nil
  have "values_after [] vs = vs" unfolding values_after_def by (simp add: map_nth)
  then show ?case using Nil by (simp add: updated_def counted_joint new_joint_def)
next
  case (snoc u us)
  obtain i dat where u: "u = (i, dat)" by (rule prod.exhaust)
  have IH: "remaining (updated us (counted vs)) = card (promise_indices vs) - length us"
    "resolveValues (updated us (counted vs)) = values_after us vs"
    using snoc by simp_all
  have i: "i < length vs" "i \<notin> set (map fst us)" using snoc.prems by (auto simp: u promise_indices_def)
  then have "map_of us i = None" by (simp add: map_of_eq_None_iff)
  have "(values_after us vs)[i := value_of_args (snd dat)] = values_after (us @ [u]) vs"
    by (rule nth_equalityI)
      (auto simp: values_after_def u nth_list_update map_add_def \<open>map_of us i = None\<close> split: option.split)
  then show ?case using IH by (simp add: updated_def u update_joint_def)
qed

text \<open>
  When deferred objects that were given to \<open>when\<close> are resolved, in any order, each once, the
  common object is resolved by the last one, not before, and its values are those of the arguments
  in the order of the arguments: the value (or the array of values) of a deferred object, and the
  argument itself where it is not one.
\<close>

theorem when_resolves_last:
  assumes "distinct (map fst us)" and "set (map fst us) \<subseteq> promise_indices vs" and "1 < length vs"
  shows "update_fires m False (updated us (counted vs)) =
    (if set (map fst us) = promise_indices vs
     then [Do_fire m Resolve (Contexts (resolveContexts (updated us (counted vs))), values_after us vs)] else [])"
proof -
  have fin: "finite (promise_indices vs)" by (simp add: promise_indices_def)
  have len: "length us = card (set (map fst us))" using assms(1) distinct_card by fastforce
  have "card (promise_indices vs) - length us = 0 \<longleftrightarrow> set (map fst us) = promise_indices vs"
    using card_seteq [OF fin assms(2)] card_mono [OF fin assms(2)] len by auto
  then show ?thesis using updated_joint [OF assms(1,2)] assms(3) by (simp add: update_fires_def)
qed

theorem when_resolves_last_witness:
  "update_fires 3 False (updated [(2, Object 0, [Plain 8]), (0, Object 1, [Plain 5, Plain 6])]
       (counted [Promise 0, Plain 1, Promise 2])) \<noteq> []"
  using when_resolves_last [of "[(2, Object 0, [Plain 8]), (0, Object 1, [Plain 5, Plain 6])]" "[Promise 0, Plain 1, Promise 2]" 3]
  by (auto simp: promise_indices_def is_promise_def less_Suc_eq numeral_eq_Suc)

end
