(* ===== verification/JqEvents.thy ===== *)
theory JqEvents
  imports Prelude "HOL-Library.Char_ord" "HOL-Library.List_Lexorder" "HOL-Library.Sublist"
begin

text \<open>
  The event module of \<open>jquery-1.9.1.js\<close>, through which every widget binds and unbinds its handlers: the
  handlers of an element by type, with namespaces and delegated selectors, their removal, the calls
  that one event makes, and the path of a triggered event. A widget binds with its own namespace, and
  destroying it is to remove what it bound and nothing else.
\<close>

section \<open>Handlers\<close>

type_synonym elem = nat

record handleObj =
  etype :: string
  origType :: "string option"
  hguid :: nat
  hselector :: "string option"
  namespaces :: "string list"
  handler :: nat

record handlers =
  objs :: "handleObj list"
  delegateCount :: nat

text \<open>
  \<open>events\<close> are the handlers of an element by type, in the order in which the types came; \<open>native\<close> tells
  where the browser has a listener, \<open>attaches\<close> counts the elements with handlers for \<open>focusin\<close> and
  \<open>focusout\<close>, for which one capturing listener at the document stands in. \<open>guid_of\<close> is the property
  \<open>guid\<close> of a function.
\<close>

record events_state =
  events :: "elem \<Rightarrow> (string \<times> handlers) list option"
  native :: "elem \<Rightarrow> string \<Rightarrow> bool"
  attaches :: "string \<Rightarrow> nat"
  capturing :: "string \<Rightarrow> bool"
  guid_of :: "nat \<Rightarrow> nat option"
  next_guid :: nat

section \<open>Types and namespaces\<close>

text \<open>\<open>rtypenamespace\<close>: what is before the first dot, and what is behind it, which must not be empty.\<close>

definition rtypenamespace :: "string \<Rightarrow> (string \<times> string option) option" where
  "rtypenamespace s =
     (let t = takeWhile (\<lambda>c. c \<noteq> CHR ''.'') s; r = dropWhile (\<lambda>c. c \<noteq> CHR ''.'') s
      in case r of [] \<Rightarrow> Some (t, None) | _ # [] \<Rightarrow> None | _ # n \<Rightarrow> Some (t, Some n))"

definition tokens :: "string \<Rightarrow> string list" where
  "tokens s =
     (case filter (\<lambda>t. t \<noteq> []) (split_on CHR '' '' [] (map (\<lambda>c. if is_space c then CHR '' '' else c) s)) of
        [] \<Rightarrow> [[]] | ts \<Rightarrow> ts)"

definition sorted_namespaces :: "string \<Rightarrow> string list" where
  "sorted_namespaces n = sort (split_on CHR ''.'' [] n)"

text \<open>
  The regular expression of the namespaces: they occur in this order among those of the handler. (The
  code does not escape them; this holds for names without special characters.)
\<close>

definition namespace_re :: "string list \<Rightarrow> handleObj \<Rightarrow> bool" where
  "namespace_re ns h \<longleftrightarrow> subseq ns (namespaces h)"

fun delegateType :: "string \<Rightarrow> string option" where
  "delegateType t =
     (if t = ''focus'' then Some ''focusin'' else if t = ''blur'' then Some ''focusout''
      else if t = ''mouseenter'' then Some ''mouseover'' else if t = ''mouseleave'' then Some ''mouseout'' else None)"

fun bindType :: "string \<Rightarrow> string option" where
  "bindType t =
     (if t = ''mouseenter'' then Some ''mouseover'' else if t = ''mouseleave'' then Some ''mouseout'' else None)"

declare delegateType.simps [simp del] bindType.simps [simp del]

definition mapped_type :: "string option \<Rightarrow> string \<Rightarrow> string" where
  "mapped_type sel t =
     (case (if sel \<noteq> None then delegateType t else bindType t) of None \<Rightarrow> t | Some t' \<Rightarrow> t')"

section \<open>Binding\<close>

text \<open>\<open>focusin\<close> and \<open>focusout\<close> have a setup of their own, as the browser does not send them.\<close>

definition captured :: "string \<Rightarrow> bool" where
  "captured t \<longleftrightarrow> t = ''focusin'' \<or> t = ''focusout''"

definition setup_listener :: "elem \<Rightarrow> string \<Rightarrow> events_state \<Rightarrow> events_state" where
  "setup_listener e t s =
     (if captured t
      then s\<lparr>capturing := (capturing s)(t := (if attaches s t = 0 then True else capturing s t)),
             attaches := (attaches s)(t := attaches s t + 1)\<rparr>
      else s\<lparr>native := (native s)(e := (native s e)(t := True))\<rparr>)"

definition teardown_listener :: "elem \<Rightarrow> string \<Rightarrow> events_state \<Rightarrow> events_state" where
  "teardown_listener e t s =
     (if captured t
      then s\<lparr>attaches := (attaches s)(t := attaches s t - 1),
             capturing := (capturing s)(t := (if attaches s t - 1 = 0 then False else capturing s t))\<rparr>
      else s\<lparr>native := (native s)(e := (native s e)(t := False))\<rparr>)"

definition insert_obj :: "handleObj \<Rightarrow> handlers \<Rightarrow> handlers" where
  "insert_obj h hs =
     (if hselector h \<noteq> None
      then hs\<lparr>objs := take (delegateCount hs) (objs hs) @ h # drop (delegateCount hs) (objs hs), delegateCount := delegateCount hs + 1\<rparr>
      else hs\<lparr>objs := objs hs @ [h]\<rparr>)"

definition no_handlers :: handlers where
  "no_handlers = \<lparr>objs = [], delegateCount = 0\<rparr>"

definition put_events :: "elem \<Rightarrow> (string \<times> handlers) list option \<Rightarrow> events_state \<Rightarrow> events_state" where
  "put_events e evs s = s\<lparr>events := (events s)(e := evs)\<rparr>"

definition events_of :: "events_state \<Rightarrow> elem \<Rightarrow> (string \<times> handlers) list" where
  "events_of s e = (case events s e of None \<Rightarrow> [] | Some evs \<Rightarrow> evs)"

definition add_type :: "elem \<Rightarrow> nat \<Rightarrow> nat \<Rightarrow> string option \<Rightarrow> string \<Rightarrow> events_state \<Rightarrow> events_state" where
  "add_type e fn g sel tok s =
     (let orig = map_option fst (rtypenamespace tok);
          ns = sorted_namespaces (case rtypenamespace tok of Some (_, Some n) \<Rightarrow> n | _ \<Rightarrow> []);
          t = mapped_type sel (case orig of None \<Rightarrow> ''undefined'' | Some t \<Rightarrow> t);
          h = \<lparr>etype = t, origType = orig, hguid = g, hselector = sel, namespaces = ns, handler = fn\<rparr>;
          s' = (if map_of (events_of s e) t = None then setup_listener e t s else s);
          hs = (case map_of (events_of s e) t of None \<Rightarrow> no_handlers | Some hs \<Rightarrow> hs)
      in put_events e (Some (AList.update t (insert_obj h hs) (events_of s e))) s')"

definition give_guid :: "nat \<Rightarrow> events_state \<Rightarrow> events_state" where
  "give_guid fn s =
     (if guid_of s fn = None then s\<lparr>guid_of := (guid_of s)(fn \<mapsto> next_guid s), next_guid := next_guid s + 1\<rparr> else s)"

text \<open>The types are handled from the last to the first; \<open>accepts\<close> is \<open>jQuery.acceptData\<close> of the element.\<close>

definition event_add :: "bool \<Rightarrow> elem \<Rightarrow> string \<Rightarrow> nat \<Rightarrow> string option \<Rightarrow> events_state \<Rightarrow> events_state" where
  "event_add accepts e types fn sel s =
     (if \<not> accepts then s
      else let s' = give_guid fn s;
               s'' = put_events e (Some (events_of s' e)) s'
           in foldr (add_type e fn (the (guid_of s'' fn)) sel) (tokens types) s'')"

section \<open>Unbinding\<close>

definition removes :: "bool \<Rightarrow> string \<Rightarrow> nat option \<Rightarrow> string list option \<Rightarrow> string option \<Rightarrow> handleObj \<Rightarrow> bool" where
  "removes mapped orig g ns sel h \<longleftrightarrow>
     (mapped \<or> origType h = Some orig) \<and> (case g of None \<Rightarrow> True | Some g' \<Rightarrow> hguid h = g') \<and>
     (case ns of None \<Rightarrow> True | Some ns' \<Rightarrow> namespace_re ns' h) \<and>
     (sel = None \<or> sel = hselector h \<or> sel = Some ''**'' \<and> hselector h \<noteq> None)"

text \<open>The loop from the last handler to the first.\<close>

fun remove_down :: "(handleObj \<Rightarrow> bool) \<Rightarrow> nat \<Rightarrow> handlers \<Rightarrow> handlers" where
  "remove_down P 0 hs = hs"
| "remove_down P (Suc j) hs =
     (let h = objs hs ! j
      in remove_down P j (if P h
           then hs\<lparr>objs := take j (objs hs) @ drop (Suc j) (objs hs),
                  delegateCount := (if hselector h \<noteq> None then delegateCount hs - 1 else delegateCount hs)\<rparr>
           else hs))"

definition remove_type :: "elem \<Rightarrow> nat option \<Rightarrow> string option \<Rightarrow> bool \<Rightarrow> string \<Rightarrow> string option \<Rightarrow> events_state \<Rightarrow> events_state" where
  "remove_type e g sel mapped orig ns s =
     (let t = mapped_type sel orig
      in case map_of (events_of s e) t of
           None \<Rightarrow> s
         | Some hs \<Rightarrow>
             let hs' = remove_down (removes mapped orig g (map_option sorted_namespaces ns) sel) (length (objs hs)) hs
             in if objs hs \<noteq> [] \<and> objs hs' = []
                then put_events e (Some (AList.delete t (events_of s e))) (teardown_listener e t s)
                else put_events e (Some (AList.update t hs' (events_of s e))) s)"

text \<open>
  Without a type the function calls itself for every type of the element; a token that the regular
  expression does not match counts as one without a type. The depth of the calls is the fuel.
\<close>

definition drop_if_empty :: "elem \<Rightarrow> events_state \<Rightarrow> events_state" where
  "drop_if_empty e s = (if events_of s e = [] then put_events e None s else s)"

fun fold_opt :: "('a \<Rightarrow> 's \<Rightarrow> 's option) \<Rightarrow> 'a list \<Rightarrow> 's \<Rightarrow> 's option" where
  "fold_opt f [] s = Some s"
| "fold_opt f (x # xs) s = (case f x s of None \<Rightarrow> None | Some s' \<Rightarrow> fold_opt f xs s')"

fun event_remove :: "nat \<Rightarrow> elem \<Rightarrow> string \<Rightarrow> nat option \<Rightarrow> string option \<Rightarrow> bool \<Rightarrow> events_state \<Rightarrow> events_state option" where
  "event_remove 0 e types g sel mapped s = None"
| "event_remove (Suc n) e types g sel mapped s =
     (case events s e of
        None \<Rightarrow> Some s
      | Some evs \<Rightarrow>
          map_option (drop_if_empty e)
            (fold_opt (\<lambda>tok s.
               case rtypenamespace tok of
                 Some (t, ns) \<Rightarrow>
                   if t \<noteq> [] then Some (remove_type e g sel mapped t ns s)
                   else fold_opt (\<lambda>t. event_remove n e (t @ tok) g sel True) (map fst (events_of s e)) s
               | None \<Rightarrow> fold_opt (\<lambda>t. event_remove n e (t @ tok) g sel True) (map fst (events_of s e)) s)
             (rev (tokens types)) s))"

section \<open>What is bound to an element\<close>

definition plain_word :: "string \<Rightarrow> bool" where
  "plain_word w \<longleftrightarrow> w \<noteq> [] \<and> (\<forall>c\<in>set w. \<not> is_space c \<and> c \<noteq> CHR ''.'')"

definition handlers_ok :: "string \<Rightarrow> handlers \<Rightarrow> bool" where
  "handlers_ok t hs \<longleftrightarrow> objs hs \<noteq> [] \<and> list_all (\<lambda>h. etype h = t) (objs hs) \<and>
     delegateCount hs = length (filter (\<lambda>h. hselector h \<noteq> None) (objs hs)) \<and>
     list_all (\<lambda>h. hselector h \<noteq> None) (take (delegateCount hs) (objs hs))"

definition table_ok :: "(string \<times> handlers) list \<Rightarrow> bool" where
  "table_ok evs \<longleftrightarrow> distinct (map fst evs) \<and>
     list_all (\<lambda>(t, hs). plain_word t \<and> bindType t = None \<and> handlers_ok t hs) evs"

definition keys :: "events_state \<Rightarrow> elem \<Rightarrow> string set" where
  "keys s e = fst ` set (events_of s e)"

definition listeners_ok :: "events_state \<Rightarrow> bool" where
  "listeners_ok s \<longleftrightarrow> (\<forall>e t. \<not> captured t \<longrightarrow> native s e t = (t \<in> keys s e)) \<and>
     (\<forall>t. captured t \<longrightarrow> finite {e. t \<in> keys s e} \<and> attaches s t = card {e. t \<in> keys s e} \<and>
        capturing s t = ({e. t \<in> keys s e} \<noteq> {})) \<and>
     (\<forall>t. \<not> captured t \<longrightarrow> attaches s t = 0 \<and> \<not> capturing s t) \<and> (\<forall>e t. captured t \<longrightarrow> \<not> native s e t)"

definition events_ok :: "events_state \<Rightarrow> bool" where
  "events_ok s \<longleftrightarrow> (\<forall>e. table_ok (events_of s e)) \<and> listeners_ok s"

lemma put_events_sel [simp]:
  "events (put_events e evs s) = (events s)(e := evs)" "native (put_events e evs s) = native s"
  "attaches (put_events e evs s) = attaches s" "capturing (put_events e evs s) = capturing s"
  "guid_of (put_events e evs s) = guid_of s"
  by (simp_all add: put_events_def)

lemma events_of_put [simp]: "events_of (put_events e evs s) e' = (if e' = e then (case evs of None \<Rightarrow> [] | Some l \<Rightarrow> l) else events_of s e')"
  by (simp add: events_of_def)

lemma setup_events [simp]: "events (setup_listener e t s) = events s" "events (teardown_listener e t s) = events s"
  by (simp_all add: setup_listener_def teardown_listener_def)

lemma events_of_setup [simp]: "events_of (setup_listener e t s) = events_of s" "events_of (teardown_listener e t s) = events_of s"
  by (simp_all add: events_of_def fun_eq_iff)

lemma keys_put [simp]:
  "keys (put_events e evs s) e' = (if e' = e then fst ` set (case evs of None \<Rightarrow> [] | Some l \<Rightarrow> l) else keys s e')"
  by (simp add: keys_def)

lemma keys_setup [simp]: "keys (setup_listener e t s) = keys s" "keys (teardown_listener e t s) = keys s"
  by (simp_all add: keys_def fun_eq_iff)

lemma listeners_cong:
  assumes "listeners_ok s" and "\<And>e. keys s' e = keys s e" and "native s' = native s" "attaches s' = attaches s" "capturing s' = capturing s"
  shows "listeners_ok s'"
  using assms by (simp add: listeners_ok_def)

lemma listeners_same:
  assumes "listeners_ok s" and "listeners_ok s'" and "\<And>e. keys s' e = keys s e"
  shows "native s' = native s \<and> attaches s' = attaches s \<and> capturing s' = capturing s"
proof (intro conjI ext)
  fix e t
  show "native s' e t = native s e t" "attaches s' t = attaches s t" "capturing s' t = capturing s t"
    using assms by (cases "captured t"; simp add: listeners_ok_def)+
qed

lemma setup_sel:
  "native (setup_listener e t s) x u = (if \<not> captured t \<and> x = e \<and> u = t then True else native s x u)"
  "attaches (setup_listener e t s) u = (if captured t \<and> u = t then attaches s t + 1 else attaches s u)"
  "capturing (setup_listener e t s) u = (if captured t \<and> u = t then attaches s t = 0 \<or> capturing s t else capturing s u)"
  by (simp_all add: setup_listener_def)

lemma teardown_sel:
  "native (teardown_listener e t s) x u = (if \<not> captured t \<and> x = e \<and> u = t then False else native s x u)"
  "attaches (teardown_listener e t s) u = (if captured t \<and> u = t then attaches s t - 1 else attaches s u)"
  "capturing (teardown_listener e t s) u = (if captured t \<and> u = t then attaches s t - 1 \<noteq> 0 \<and> capturing s t else capturing s u)"
  by (simp_all add: teardown_listener_def)

lemma listenersD:
  assumes "listeners_ok s"
  shows "\<not> captured t \<Longrightarrow> native s e t = (t \<in> keys s e)" and "captured t \<Longrightarrow> finite {e. t \<in> keys s e}"
    and "captured t \<Longrightarrow> attaches s t = card {e. t \<in> keys s e}" and "captured t \<Longrightarrow> capturing s t = ({e. t \<in> keys s e} \<noteq> {})"
    and "\<not> captured t \<Longrightarrow> attaches s t = 0 \<and> \<not> capturing s t" and "captured t \<Longrightarrow> \<not> native s e t"
  using assms by (simp_all add: listeners_ok_def)

lemma listenersI:
  assumes "\<And>e t. \<not> captured t \<Longrightarrow> native s e t = (t \<in> keys s e)"
    and "\<And>t. captured t \<Longrightarrow> finite {e. t \<in> keys s e} \<and> attaches s t = card {e. t \<in> keys s e} \<and> capturing s t = ({e. t \<in> keys s e} \<noteq> {})"
    and "\<And>t. \<not> captured t \<Longrightarrow> attaches s t = 0 \<and> \<not> capturing s t" and "\<And>e t. captured t \<Longrightarrow> \<not> native s e t"
  shows "listeners_ok s"
  using assms by (simp add: listeners_ok_def)

lemma listeners_add:
  assumes ok: "listeners_ok s" and t: "t \<notin> keys s e" and l: "fst ` set l = insert t (keys s e)"
  shows "listeners_ok (put_events e (Some l) (setup_listener e t s))" (is "listeners_ok ?s")
proof -
  have k: "keys ?s x = (if x = e then insert t (keys s e) else keys s x)" for x using l by simp
  have sets: "{x. u \<in> keys ?s x} = (if u = t then insert e {x. t \<in> keys s x} else {x. u \<in> keys s x})" for u
    unfolding k by auto
  show ?thesis
  proof (rule listenersI)
    fix u assume u: "captured u"
    show "finite {x. u \<in> keys ?s x} \<and> attaches ?s u = card {x. u \<in> keys ?s x} \<and> capturing ?s u = ({x. u \<in> keys ?s x} \<noteq> {})"
      unfolding sets using listenersD(2-4) [OF ok u] t u by (auto simp: setup_sel)
  next
    fix x u assume "\<not> captured u"
    then show "native ?s x u = (u \<in> keys ?s x)" unfolding k using listenersD(1) [OF ok] by (auto simp: setup_sel)
  next
    fix u assume "\<not> captured u"
    then show "attaches ?s u = 0 \<and> \<not> capturing ?s u" using listenersD(5) [OF ok] by (auto simp: setup_sel)
  next
    fix x u assume "captured u"
    then show "\<not> native ?s x u" using listenersD(6) [OF ok] by (auto simp: setup_sel)
  qed
qed

lemma listeners_delete:
  assumes ok: "listeners_ok s" and t: "t \<in> keys s e" and l: "fst ` set l = keys s e - {t}"
  shows "listeners_ok (put_events e (Some l) (teardown_listener e t s))" (is "listeners_ok ?s")
proof -
  have k: "keys ?s x = (if x = e then keys s e - {t} else keys s x)" for x using l by simp
  have sets: "{x. u \<in> keys ?s x} = (if u = t then {x. t \<in> keys s x} - {e} else {x. u \<in> keys s x})" for u
    unfolding k by auto
  show ?thesis
  proof (rule listenersI)
    fix u assume u: "captured u"
    have "card ({x. t \<in> keys s x} - {e}) = card {x. t \<in> keys s x} - 1" using t by simp
    moreover have "captured t \<Longrightarrow> card {x. t \<in> keys s x} - 1 = 0 \<longleftrightarrow> {x. t \<in> keys s x} - {e} = {}"
      using listenersD(2) [OF ok, of t] calculation by (metis card_eq_0_iff finite_Diff)
    ultimately show "finite {x. u \<in> keys ?s x} \<and> attaches ?s u = card {x. u \<in> keys ?s x} \<and> capturing ?s u = ({x. u \<in> keys ?s x} \<noteq> {})"
      unfolding sets using listenersD(2-4) [OF ok u] t u by (auto simp: teardown_sel)
  next
    fix x u assume "\<not> captured u"
    then show "native ?s x u = (u \<in> keys ?s x)" unfolding k using listenersD(1) [OF ok] by (auto simp: teardown_sel)
  next
    fix u assume "\<not> captured u"
    then show "attaches ?s u = 0 \<and> \<not> capturing ?s u" using listenersD(5) [OF ok] by (auto simp: teardown_sel)
  next
    fix x u assume "captured u"
    then show "\<not> native ?s x u" using listenersD(6) [OF ok] by (auto simp: teardown_sel)
  qed
qed

section \<open>Removing\<close>

abbreviation selected :: "handleObj list \<Rightarrow> nat" where
  "selected hs \<equiv> length (filter (\<lambda>h. hselector h \<noteq> None) hs)"

definition keep :: "(handleObj \<Rightarrow> bool) \<Rightarrow> handlers \<Rightarrow> handlers" where
  "keep P hs = hs\<lparr>objs := filter (\<lambda>h. \<not> P h) (objs hs),
     delegateCount := delegateCount hs - selected (filter P (objs hs))\<rparr>"

text \<open>The loop downwards keeps the other handlers in their order.\<close>

lemma remove_down_prefix:
  "j \<le> length (objs hs) \<Longrightarrow> remove_down P j hs =
     hs\<lparr>objs := filter (\<lambda>h. \<not> P h) (take j (objs hs)) @ drop j (objs hs),
        delegateCount := delegateCount hs - selected (filter P (take j (objs hs)))\<rparr>"
proof (induction j arbitrary: hs)
  case (Suc j)
  then have lt: "j < length (objs hs)" by simp
  let ?h = "objs hs ! j"
  let ?hs = "if P ?h then hs\<lparr>objs := take j (objs hs) @ drop (Suc j) (objs hs),
      delegateCount := (if hselector ?h \<noteq> None then delegateCount hs - 1 else delegateCount hs)\<rparr> else hs"
  have len: "j \<le> length (objs ?hs)" using lt by (simp, linarith)
  have parts: "take j (objs ?hs) = take j (objs hs)"
    "drop j (objs ?hs) = (if P ?h then drop (Suc j) (objs hs) else ?h # drop (Suc j) (objs hs))"
    using lt by (simp_all add: min_def Cons_nth_drop_Suc)
  have step: "remove_down P (Suc j) hs = remove_down P j ?hs" by (simp add: Let_def)
  show ?case
    unfolding step Suc.IH [OF len] parts using lt by (simp add: take_Suc_conv_app_nth)
qed simp

lemma remove_down_all: "remove_down P (length (objs hs)) hs = keep P hs"
  by (simp add: remove_down_prefix keep_def)

lemma take_filter_prefix:
  "list_all Q (take (length (filter Q xs)) xs) \<Longrightarrow> list_all Q (take (length (filter Q (filter R xs))) (filter R xs))"
proof (induction xs)
  case (Cons x xs)
  show ?case
  proof (cases "Q x")
    case True
    then show ?thesis using Cons by simp
  next
    case False
    then have "filter Q xs = []"
      using Cons.prems by (cases "filter Q xs") simp_all
    then have "filter Q (filter R (x # xs)) = []" using False by (auto simp: filter_empty_conv)
    then show ?thesis by simp
  qed
qed simp

lemma keep_ok:
  assumes "handlers_ok t hs" and "objs (keep P hs) \<noteq> []"
  shows "handlers_ok t (keep P hs)"
proof -
  let ?os = "filter (\<lambda>h. \<not> P h) (objs hs)"
  have "selected xs = selected (filter P xs) + selected (filter (\<lambda>h. \<not> P h) xs)" for xs by (induction xs) simp_all
  from this [of "objs hs"] have count: "delegateCount (keep P hs) = selected ?os"
    using assms(1) unfolding handlers_ok_def keep_def by simp
  have "list_all (\<lambda>h. etype h = t) ?os" using assms(1) by (simp add: handlers_ok_def list_all_iff)
  moreover have "list_all (\<lambda>h. hselector h \<noteq> None) (take (selected ?os) ?os)"
    using assms(1) unfolding handlers_ok_def by (intro take_filter_prefix) metis
  moreover have "objs (keep P hs) = ?os" by (simp add: keep_def)
  ultimately show ?thesis using assms(2) count unfolding handlers_ok_def by (simp only: simp_thms)
qed

text \<open>The handlers of a namespace are taken out of the whole table.\<close>

definition strip :: "(handleObj \<Rightarrow> bool) \<Rightarrow> (string \<times> handlers) list \<Rightarrow> (string \<times> handlers) list" where
  "strip P evs = filter (\<lambda>(t, hs). objs hs \<noteq> []) (map (\<lambda>(t, hs). (t, keep P hs)) evs)"

lemma strip_none:
  assumes "list_all (\<lambda>(t, hs). objs hs \<noteq> [] \<and> list_all (\<lambda>h. \<not> P h) (objs hs)) evs"
  shows "strip P evs = evs"
  using assms
proof (induction evs)
  case (Cons x evs)
  then have "filter (\<lambda>h. \<not> P h) (objs (snd x)) = objs (snd x)" "filter P (objs (snd x)) = []"
    by (auto simp: list_all_iff filter_empty_conv intro!: filter_True)
  then have "keep P (snd x) = snd x" by (simp add: keep_def)
  then show ?case using Cons by (auto simp: strip_def split: prod.splits)
qed (simp add: strip_def)

lemma keep_insert:
  assumes "P h" and "handlers_ok t hs \<or> hs = no_handlers"
  shows "objs (keep P (insert_obj h hs)) = objs (keep P hs) \<and> delegateCount (keep P (insert_obj h hs)) = delegateCount (keep P hs)"
proof -
  have d: "delegateCount hs \<le> length (objs hs)"
    using assms(2) by (auto simp: handlers_ok_def no_handlers_def)
  have "filter Q (take (delegateCount hs) (objs hs)) @ filter Q (drop (delegateCount hs) (objs hs)) = filter Q (objs hs)" for Q
    by (metis append_take_drop_id filter_append)
  moreover have "selected (filter P (take (delegateCount hs) (objs hs))) + selected (filter P (drop (delegateCount hs) (objs hs))) =
      selected (filter P (objs hs))"
    by (metis (no_types, lifting) append_take_drop_id filter_append length_append)
  ultimately show ?thesis using assms(1) by (auto simp: keep_def insert_obj_def)
qed

lemma strip_insert:
  assumes "P h" and "table_ok evs"
  shows "strip P (AList.update t (insert_obj h (case map_of evs t of None \<Rightarrow> no_handlers | Some hs \<Rightarrow> hs)) evs) = strip P evs"
  using assms(2)
proof (induction evs)
  case Nil
  then show ?case using assms(1) by (simp add: strip_def keep_def insert_obj_def no_handlers_def)
next
  case (Cons x evs)
  obtain u hs where x: "x = (u, hs)" by force
  have ok: "handlers_ok u hs" and rest: "table_ok evs" using Cons.prems by (simp_all add: x table_ok_def)
  show ?case
  proof (cases "u = t")
    case True
    have "keep P (insert_obj h hs) = keep P hs"
      using keep_insert [of P h u hs] assms(1) ok by (simp add: handlers.equality)
    then show ?thesis using True by (simp add: x strip_def)
  next
    case False
    then show ?thesis using Cons.IH [OF rest] by (simp add: x strip_def)
  qed
qed

section \<open>Binding and unbinding keep the tables\<close>

lemma table_update:
  assumes "table_ok evs" and "plain_word t" and "bindType t = None" and "handlers_ok t hs"
  shows "table_ok (AList.update t hs evs)"
proof -
  have "distinct (map fst (AList.update t hs evs))" using assms(1) by (simp add: table_ok_def distinct_update)
  moreover have "set (AList.update t hs evs) \<subseteq> insert (t, hs) (set evs)" by (induction evs) auto
  ultimately show ?thesis using assms by (auto simp: table_ok_def list_all_iff)
qed

lemma table_get: "table_ok evs \<Longrightarrow> map_of evs t = Some hs \<Longrightarrow> plain_word t \<and> bindType t = None \<and> handlers_ok t hs"
  by (auto simp: table_ok_def list_all_iff dest!: map_of_SomeD)

lemma table_delete: "table_ok evs \<Longrightarrow> table_ok (AList.delete t evs)"
  by (auto simp: table_ok_def list_all_iff AList.delete_eq distinct_map_filter)

lemma insert_obj_ok:
  assumes "handlers_ok t hs \<or> hs = no_handlers" and "etype h = t"
  shows "handlers_ok t (insert_obj h hs)"
proof -
  have split: "selected (take n xs) + selected (drop n xs) = selected xs" for n xs
    by (metis (no_types, lifting) append_take_drop_id filter_append length_append)
  have d: "delegateCount hs \<le> length (objs hs)" "delegateCount hs = selected (objs hs)"
    and types: "list_all (\<lambda>h. etype h = t) (objs hs)" and first: "list_all (\<lambda>h. hselector h \<noteq> None) (take (delegateCount hs) (objs hs))"
    using assms(1) by (auto simp: handlers_ok_def no_handlers_def)
  have "list_all (\<lambda>h. etype h = t) (take n (objs hs)) \<and> list_all (\<lambda>h. etype h = t) (drop n (objs hs))" for n
    using types by (auto simp: list_all_iff dest: in_set_takeD in_set_dropD)
  then have t: "list_all (\<lambda>h. etype h = t) (objs (insert_obj h hs))" using types assms(2) by (simp add: insert_obj_def)
  show ?thesis
  proof (cases "hselector h")
    case None
    then show ?thesis using t d first by (simp add: handlers_ok_def insert_obj_def)
  next
    case (Some sel)
    have "selected (objs (insert_obj h hs)) = Suc (selected (objs hs))"
      using Some split [of "delegateCount hs" "objs hs"] by (simp add: insert_obj_def)
    moreover have "take (Suc (delegateCount hs)) (objs (insert_obj h hs)) = take (delegateCount hs) (objs hs) @ [h]"
      using Some d(1) by (simp add: insert_obj_def min_def)
    ultimately show ?thesis using t d first Some by (simp add: handlers_ok_def insert_obj_def)
  qed
qed

text \<open>A token with a type and with namespaces, one of which is \<open>ns\<close>.\<close>

definition good_token :: "string \<Rightarrow> string \<Rightarrow> bool" where
  "good_token ns tok \<longleftrightarrow> (case rtypenamespace tok of
     Some (t, Some n) \<Rightarrow> plain_word t \<and> ns \<in> set (split_on CHR ''.'' [] n) | _ \<Rightarrow> False)"

abbreviation in_ns :: "string \<Rightarrow> handleObj \<Rightarrow> bool" where
  "in_ns ns h \<equiv> ns \<in> set (namespaces h)"

lemma mapped_plain: "plain_word t \<Longrightarrow> plain_word (mapped_type sel t) \<and> bindType (mapped_type sel t) = None"
  by (auto simp: mapped_type_def delegateType.simps bindType.simps plain_word_def is_space_def split: option.splits if_splits)

lemma add_type_table:
  assumes tok: "good_token ns tok" and ok: "table_ok (events_of s e)"
  shows "\<exists>t h. add_type e fn g sel tok s =
      put_events e (Some (AList.update t (insert_obj h (case map_of (events_of s e) t of None \<Rightarrow> no_handlers | Some hs \<Rightarrow> hs)) (events_of s e)))
        (if map_of (events_of s e) t = None then setup_listener e t s else s) \<and>
    etype h = t \<and> in_ns ns h \<and> plain_word t \<and> bindType t = None"
proof -
  obtain u n where parse: "rtypenamespace tok = Some (u, Some n)" and u: "plain_word u" and n: "ns \<in> set (split_on CHR ''.'' [] n)"
    using tok by (auto simp: good_token_def split: option.splits)
  show ?thesis
    using mapped_plain [OF u, of sel] n
    by (intro exI [of _ "mapped_type sel u"]
        exI [of _ "\<lparr>etype = mapped_type sel u, origType = Some u, hguid = g, hselector = sel, namespaces = sorted_namespaces n, handler = fn\<rparr>"])
      (simp add: add_type_def parse sorted_namespaces_def Let_def)
qed

lemma add_type_ok:
  assumes tok: "good_token ns tok" and ok: "events_ok s"
  shows "events_ok (add_type e fn g sel tok s) \<and>
    strip (in_ns ns) (events_of (add_type e fn g sel tok s) e) = strip (in_ns ns) (events_of s e) \<and>
    (\<forall>x. x \<noteq> e \<longrightarrow> events (add_type e fn g sel tok s) x = events s x) \<and> events (add_type e fn g sel tok s) e \<noteq> Some []"
proof -
  have table: "table_ok (events_of s e)" and listeners: "listeners_ok s" using ok by (simp_all add: events_ok_def)
  obtain t h where add: "add_type e fn g sel tok s =
      put_events e (Some (AList.update t (insert_obj h (case map_of (events_of s e) t of None \<Rightarrow> no_handlers | Some hs \<Rightarrow> hs)) (events_of s e)))
        (if map_of (events_of s e) t = None then setup_listener e t s else s)"
    and h: "etype h = t" "in_ns ns h" and t: "plain_word t" "bindType t = None"
    using add_type_table [OF tok table, of fn g sel] by blast
  let ?hs = "case map_of (events_of s e) t of None \<Rightarrow> no_handlers | Some hs \<Rightarrow> hs"
  let ?l = "AList.update t (insert_obj h ?hs) (events_of s e)"
  have "handlers_ok t ?hs \<or> ?hs = no_handlers" using table_get [OF table, of t] by (auto split: option.split)
  then have "handlers_ok t (insert_obj h ?hs)" using insert_obj_ok h by blast
  then have table': "table_ok ?l" using table_update table t by blast
  have keys': "fst ` set ?l = insert t (keys s e)" by (simp add: keys_def dom_update)
  have "listeners_ok (add_type e fn g sel tok s)"
  proof (cases "map_of (events_of s e) t")
    case None
    then have "t \<notin> keys s e" by (simp add: keys_def map_of_eq_None_iff)
    then show ?thesis using listeners_add [OF listeners _ keys'] None by (simp add: add)
  next
    case (Some hs)
    then have "t \<in> keys s e" by (force simp: keys_def dest: map_of_SomeD)
    then show ?thesis unfolding add using Some keys' by (intro listeners_cong [OF listeners]) auto
  qed
  moreover have "?l \<noteq> []" by (cases "events_of s e") (auto split: prod.splits if_splits)
  moreover have "events_of (add_type e fn g sel tok s) x = (if x = e then ?l else events_of s x)"
    and "events (add_type e fn g sel tok s) x = (if x = e then Some ?l else events s x)" for x
    by (simp_all add: add)
  ultimately show ?thesis
    using ok table' strip_insert [where P = "in_ns ns", OF h(2) table, of t] unfolding events_ok_def by simp
qed

lemma remove_type_ok:
  assumes ok: "events_ok s"
  shows "events_ok (remove_type e g sel mapped orig ns s) \<and>
    (\<forall>x. x \<noteq> e \<longrightarrow> events (remove_type e g sel mapped orig ns s) x = events s x)"
proof -
  let ?t = "mapped_type sel orig" and ?P = "removes mapped orig g (map_option sorted_namespaces ns) sel"
  have table: "table_ok (events_of s e)" and listeners: "listeners_ok s" using ok by (simp_all add: events_ok_def)
  show ?thesis
  proof (cases "map_of (events_of s e) ?t")
    case None
    then show ?thesis using ok by (simp add: remove_type_def)
  next
    case (Some hs)
    note hs = table_get [OF table Some]
    have key: "?t \<in> keys s e" using Some by (force simp: keys_def dest: map_of_SomeD)
    show ?thesis
    proof (cases "objs (keep ?P hs) = []")
      case True
      have "fst ` set (AList.delete ?t (events_of s e)) = keys s e - {?t}" by (auto simp: keys_def AList.delete_eq)
      then have "listeners_ok (put_events e (Some (AList.delete ?t (events_of s e))) (teardown_listener e ?t s))"
        by (rule listeners_delete [OF listeners key])
      then show ?thesis
        using ok True Some hs table_delete [OF table]
        by (simp add: remove_type_def remove_down_all Let_def events_ok_def handlers_ok_def)
    next
      case False
      have keys': "fst ` set (AList.update ?t (keep ?P hs) (events_of s e)) = keys s e"
        using key by (auto simp: keys_def dom_update)
      have "table_ok (AList.update ?t (keep ?P hs) (events_of s e))"
        using table_update [OF table] hs keep_ok [OF _ False] by blast
      moreover have "listeners_ok (put_events e (Some (AList.update ?t (keep ?P hs) (events_of s e))) s)"
        by (rule listeners_cong [OF listeners]) (simp_all add: keys')
      ultimately show ?thesis
        using ok False Some hs by (simp add: remove_type_def remove_down_all Let_def events_ok_def handlers_ok_def)
    qed
  qed
qed

text \<open>What unbinding a namespace makes of one type.\<close>

definition strip_type :: "(handleObj \<Rightarrow> bool) \<Rightarrow> string \<Rightarrow> (string \<times> handlers) list \<Rightarrow> (string \<times> handlers) list" where
  "strip_type P t evs =
     (case map_of evs t of
        None \<Rightarrow> evs
      | Some hs \<Rightarrow> if objs (keep P hs) = [] then AList.delete t evs else AList.update t (keep P hs) evs)"

lemma update_middle: "t \<notin> fst ` set xs \<Longrightarrow> AList.update t v (xs @ (t, u) # ys) = xs @ (t, v) # ys"
  by (induction xs) auto

lemma delete_other: "t \<notin> fst ` set xs \<Longrightarrow> AList.delete t xs = xs"
  by (induction xs) auto

lemma delete_middle:
  "t \<notin> fst ` set xs \<Longrightarrow> t \<notin> fst ` set ys \<Longrightarrow> AList.delete t (xs @ (t, u) # ys) = xs @ ys"
  by (induction xs) (auto simp: delete_other)

lemma map_of_middle: "t \<notin> fst ` set xs \<Longrightarrow> map_of (xs @ (t, u) # ys) t = Some u"
  by (induction xs) auto

lemma fold_strip:
  assumes "distinct (map fst (xs @ ys))"
  shows "fold (strip_type P) (map fst ys) (strip P xs @ ys) = strip P (xs @ ys)"
  using assms
proof (induction ys arbitrary: xs)
  case (Cons y ys)
  obtain t hs where y: "y = (t, hs)" by force
  have sub: "fst ` set (strip P zs) \<subseteq> fst ` set zs" for zs by (force simp: strip_def)
  have t: "t \<notin> fst ` set (strip P xs)" "t \<notin> fst ` set ys" using Cons.prems sub [of xs] by (auto simp: y)
  have "map_of (strip P xs @ y # ys) t = Some hs" unfolding y by (rule map_of_middle [OF t(1)])
  then have "strip_type P t (strip P xs @ y # ys) = strip P (xs @ [y]) @ ys"
    using update_middle [OF t(1), of "keep P hs" hs ys] delete_middle [OF t, of hs]
    by (simp add: strip_type_def y) (simp add: strip_def)
  then show ?case using Cons.IH [of "xs @ [y]"] Cons.prems by (simp add: y)
qed simp

lemma fold_strip_all: "distinct (map fst evs) \<Longrightarrow> fold (strip_type P) (map fst evs) evs = strip P evs"
  using fold_strip [of "[]" evs P] by (simp add: strip_def)

text \<open>The call for one type, as it is made for every type of the element.\<close>

definition ns_token :: "string \<Rightarrow> string \<Rightarrow> string" where
  "ns_token t ns = t @ ''.'' @ ns"

lemma plain_split: "\<forall>c\<in>set w. c \<noteq> d \<Longrightarrow> split_on d acc w = [acc @ w]"
  by (induction w arbitrary: acc) simp_all

lemma ns_token_parse:
  assumes "\<forall>c\<in>set t. \<not> is_space c \<and> c \<noteq> CHR ''.''" and "plain_word ns"
  shows "rtypenamespace (ns_token t ns) = Some (t, Some ns)" and "tokens (ns_token t ns) = [ns_token t ns]"
    and "sorted_namespaces ns = [ns]"
proof -
  have t: "takeWhile (\<lambda>c. c \<noteq> CHR ''.'') (ns_token t ns) = t" "dropWhile (\<lambda>c. c \<noteq> CHR ''.'') (ns_token t ns) = CHR ''.'' # ns"
    using assms(1) by (simp_all add: ns_token_def takeWhile_append dropWhile_append)
  obtain c r where "ns = c # r" using assms(2) by (cases ns) (simp_all add: plain_word_def)
  then show "rtypenamespace (ns_token t ns) = Some (t, Some ns)" unfolding rtypenamespace_def t by simp
  have spaces: "\<not> is_space (CHR ''.'')" "is_space (CHR '' '')" by (simp_all add: is_space_def)
  then have no: "\<not> is_space c" if "c \<in> set (ns_token t ns)" for c
    using that assms unfolding ns_token_def plain_word_def by auto
  have m: "map (\<lambda>c. if is_space c then CHR '' '' else c) (ns_token t ns) = ns_token t ns"
    by (rule map_idI) (simp add: no)
  have m2: "\<forall>c\<in>set (ns_token t ns). c \<noteq> CHR '' ''" using no spaces(2) by blast
  show "tokens (ns_token t ns) = [ns_token t ns]"
    unfolding tokens_def m plain_split [OF m2] by (simp add: ns_token_def)
  show "sorted_namespaces ns = [ns]" using assms(2) by (simp add: sorted_namespaces_def plain_split plain_word_def)
qed

lemma removes_ns: "removes True orig None (Some [ns]) None h = in_ns ns h"
proof -
  have "subseq [ns] xs = (ns \<in> set xs)" for xs :: "string list" by (induction xs) auto
  then show ?thesis by (simp add: removes_def namespace_re_def)
qed

lemma drop_sel [simp]:
  "events_of (drop_if_empty e s) x = events_of s x" "native (drop_if_empty e s) = native s"
  "attaches (drop_if_empty e s) = attaches s" "capturing (drop_if_empty e s) = capturing s"
  "x \<noteq> e \<Longrightarrow> events (drop_if_empty e s) x = events s x"
  by (cases "events_of s e = []"; simp add: drop_if_empty_def)+

lemma drop_not_empty: "events (drop_if_empty e s) e \<noteq> Some []"
  by (cases "events_of s e = []"; cases "events s e") (simp_all add: drop_if_empty_def events_of_def)

lemma drop_ok:
  assumes "events_ok s"
  shows "events_ok (drop_if_empty e s)"
proof -
  have "listeners_ok (drop_if_empty e s)"
    by (rule listeners_cong [of s]) (use assms in \<open>simp_all add: events_ok_def keys_def\<close>)
  then show ?thesis using assms by (simp add: events_ok_def)
qed

lemma remove_one_type:
  assumes ok: "events_ok s" and t: "plain_word t" "bindType t = None" and ns: "plain_word ns"
  shows "\<exists>s'. event_remove (Suc n) e (ns_token t ns) None None True s = Some s' \<and> events_ok s' \<and>
    events_of s' e = strip_type (in_ns ns) t (events_of s e) \<and> (\<forall>x. x \<noteq> e \<longrightarrow> events s' x = events s x) \<and>
    (events s e \<noteq> Some [] \<longrightarrow> events s' e \<noteq> Some [])"
proof (cases "events s e")
  case None
  then show ?thesis using ok by (simp add: strip_type_def events_of_def)
next
  case (Some evs)
  let ?r = "remove_type e None None True t (Some ns) s"
  have tok: "\<forall>c\<in>set t. \<not> is_space c \<and> c \<noteq> CHR ''.''" "t \<noteq> []" using t by (simp_all add: plain_word_def)
  note parse = ns_token_parse [OF tok(1) ns]
  have eq: "event_remove (Suc n) e (ns_token t ns) None None True s = Some (drop_if_empty e ?r)"
    using Some tok(2) by (simp add: parse)
  have m: "mapped_type None t = t" using t(2) by (simp add: mapped_type_def)
  have P: "removes True t None (Some [ns]) None = in_ns ns" by (rule ext) (rule removes_ns)
  have evs: "events_of ?r e = strip_type (in_ns ns) t (events_of s e)"
  proof (cases "map_of (events_of s e) t")
    case None
    then show ?thesis by (simp add: remove_type_def m strip_type_def)
  next
    case (Some hs)
    then have "handlers_ok t hs" using ok table_get by (auto simp: events_ok_def)
    then show ?thesis using Some
      by (simp add: remove_type_def m strip_type_def remove_down_all P parse Let_def handlers_ok_def)
  qed
  have r: "events_ok ?r" "\<forall>x. x \<noteq> e \<longrightarrow> events ?r x = events s x" using remove_type_ok [OF ok] by blast+
  show ?thesis
  proof (intro exI conjI)
    show "event_remove (Suc n) e (ns_token t ns) None None True s = Some (drop_if_empty e ?r)" by (rule eq)
    show "events_ok (drop_if_empty e ?r)" by (rule drop_ok [OF r(1)])
    show "events_of (drop_if_empty e ?r) e = strip_type (in_ns ns) t (events_of s e)" by (simp add: evs)
    show "\<forall>x. x \<noteq> e \<longrightarrow> events (drop_if_empty e ?r) x = events s x" using r(2) by simp
    show "events s e \<noteq> Some [] \<longrightarrow> events (drop_if_empty e ?r) e \<noteq> Some []" using drop_not_empty by blast
  qed
qed

section \<open>What a widget binds under its namespace is gone when it unbinds the namespace\<close>

lemma give_guid_sel [simp]:
  "events (give_guid f s) = events s" "native (give_guid f s) = native s"
  "attaches (give_guid f s) = attaches s" "capturing (give_guid f s) = capturing s"
  by (simp_all add: give_guid_def)

lemma give_guid_ok [simp]: "events_ok (give_guid f s) = events_ok s"
proof -
  have "events_of (give_guid f s) = events_of s" by (simp add: fun_eq_iff events_of_def)
  then show ?thesis by (simp add: events_ok_def listeners_ok_def keys_def)
qed

lemma tokens_not_empty: "tokens s \<noteq> []"
  by (simp add: tokens_def split: list.split)

lemma add_types_ok:
  assumes "list_all (good_token ns) toks" and "events_ok s"
  shows "events_ok (foldr (add_type e fn g sel) toks s) \<and>
    strip (in_ns ns) (events_of (foldr (add_type e fn g sel) toks s) e) = strip (in_ns ns) (events_of s e) \<and>
    (\<forall>x. x \<noteq> e \<longrightarrow> events (foldr (add_type e fn g sel) toks s) x = events s x) \<and>
    (toks \<noteq> [] \<longrightarrow> events (foldr (add_type e fn g sel) toks s) e \<noteq> Some [])"
  using assms
proof (induction toks)
  case (Cons tok toks)
  have ok: "events_ok (foldr (add_type e fn g sel) toks s)" using Cons by simp
  have tok: "good_token ns tok" using Cons.prems by simp
  show ?case using add_type_ok [OF tok ok] Cons by simp
qed simp

lemma put_same_ok: "events_ok s \<Longrightarrow> events_ok (put_events e (Some (events_of s e)) s)"
  unfolding events_ok_def
  by (rule conjI, simp, rule listeners_cong [of s]) (simp_all add: keys_def)

lemma event_add_ok:
  assumes "list_all (good_token ns) (tokens types)" and "events_ok s"
  shows "events_ok (event_add acc e types fn sel s) \<and>
    strip (in_ns ns) (events_of (event_add acc e types fn sel s) e) = strip (in_ns ns) (events_of s e) \<and>
    (\<forall>x. x \<noteq> e \<longrightarrow> events (event_add acc e types fn sel s) x = events s x) \<and>
    (events s e \<noteq> Some [] \<longrightarrow> events (event_add acc e types fn sel s) e \<noteq> Some [])"
proof (cases acc)
  case True
  let ?s = "put_events e (Some (events_of (give_guid fn s) e)) (give_guid fn s)"
  have ok: "events_ok ?s" using assms(2) by (intro put_same_ok) simp
  have same: "events_of ?s e = events_of s e" "x \<noteq> e \<Longrightarrow> events ?s x = events s x" for x
    by (simp_all add: events_of_def)
  show ?thesis
    using add_types_ok [OF assms(1) ok, of e fn "the (guid_of ?s fn)" sel] tokens_not_empty True same
    by (simp add: event_add_def Let_def)
qed (use assms in \<open>simp add: event_add_def\<close>)

text \<open>Bindings with their types, function and selector, made one after the other.\<close>

definition add_all :: "bool \<Rightarrow> elem \<Rightarrow> (string \<times> nat \<times> string option) list \<Rightarrow> events_state \<Rightarrow> events_state" where
  "add_all acc e = fold (\<lambda>(types, fn, sel). event_add acc e types fn sel)"

lemma add_all_ok:
  assumes "list_all (\<lambda>(types, fn, sel). list_all (good_token ns) (tokens types)) binds" and "events_ok s"
  shows "events_ok (add_all acc e binds s) \<and>
    strip (in_ns ns) (events_of (add_all acc e binds s) e) = strip (in_ns ns) (events_of s e) \<and>
    (\<forall>x. x \<noteq> e \<longrightarrow> events (add_all acc e binds s) x = events s x) \<and>
    (events s e \<noteq> Some [] \<longrightarrow> events (add_all acc e binds s) e \<noteq> Some [])"
  using assms
proof (induction binds arbitrary: s)
  case (Cons b binds)
  obtain types fn sel where b: "b = (types, fn, sel)" by (cases b)
  have good: "list_all (good_token ns) (tokens types)" using Cons.prems by (simp add: b)
  note one = event_add_ok [OF good Cons.prems(2), of acc e fn sel]
  have "add_all acc e (b # binds) s = add_all acc e binds (event_add acc e types fn sel s)"
    by (simp add: add_all_def b)
  then show ?case using Cons.IH [of "event_add acc e types fn sel s"] Cons.prems(1) one by simp
qed (simp add: add_all_def)

lemma remove_each_type:
  assumes "list_all (\<lambda>t. plain_word t \<and> bindType t = None) ts" and "events_ok s" and "plain_word ns"
  shows "\<exists>s'. fold_opt (\<lambda>t. event_remove (Suc n) e (t @ ''.'' @ ns) None None True) ts s = Some s' \<and> events_ok s' \<and>
    events_of s' e = fold (strip_type (in_ns ns)) ts (events_of s e) \<and> (\<forall>x. x \<noteq> e \<longrightarrow> events s' x = events s x) \<and>
    (events s e \<noteq> Some [] \<longrightarrow> events s' e \<noteq> Some [])"
  using assms
proof (induction ts arbitrary: s)
  case (Cons t ts)
  have t: "plain_word t" "bindType t = None" using Cons.prems(1) by simp_all
  obtain s1 where one: "event_remove (Suc n) e (t @ ''.'' @ ns) None None True s = Some s1" "events_ok s1"
      "events_of s1 e = strip_type (in_ns ns) t (events_of s e)" "\<forall>x. x \<noteq> e \<longrightarrow> events s1 x = events s x"
      "events s e \<noteq> Some [] \<longrightarrow> events s1 e \<noteq> Some []"
    using remove_one_type [OF Cons.prems(2) t Cons.prems(3), of n e] unfolding ns_token_def by blast
  have "list_all (\<lambda>t. plain_word t \<and> bindType t = None) ts" using Cons.prems(1) by simp
  from Cons.IH [OF this one(2) Cons.prems(3)] one show ?case by (simp del: event_remove.simps) metis
qed simp

text \<open>The call with the namespace alone takes the handlers of the namespace out of the table.\<close>

lemma remove_namespace:
  assumes ok: "events_ok s" and ns: "plain_word ns" and some: "events s e \<noteq> Some []"
  shows "\<exists>s'. event_remove (Suc (Suc n)) e (''.'' @ ns) None None False s = Some s' \<and> events_ok s' \<and>
    events_of s' e = strip (in_ns ns) (events_of s e) \<and> (\<forall>x. x \<noteq> e \<longrightarrow> events s' x = events s x) \<and> events s' e \<noteq> Some []"
proof (cases "events s e")
  case None
  then show ?thesis using ok by (simp add: events_of_def strip_def)
next
  case (Some evs)
  have table: "table_ok (events_of s e)" using ok by (simp add: events_ok_def)
  have parse: "rtypenamespace (''.'' @ ns) = Some ([], Some ns)" "tokens (''.'' @ ns) = [''.'' @ ns]"
    using ns_token_parse(1,2) [of "[]" ns] ns by (simp_all add: ns_token_def)
  have "list_all (\<lambda>t. plain_word t \<and> bindType t = None) (map fst (events_of s e))"
    using table by (auto simp: table_ok_def list_all_iff)
  from remove_each_type [OF this ok ns, of n e] obtain s1
    where fold: "fold_opt (\<lambda>t. event_remove (Suc n) e (t @ ''.'' @ ns) None None True) (map fst (events_of s e)) s = Some s1"
      and s1: "events_ok s1" "events_of s1 e = fold (strip_type (in_ns ns)) (map fst (events_of s e)) (events_of s e)"
        "\<forall>x. x \<noteq> e \<longrightarrow> events s1 x = events s x"
    by blast
  have "event_remove (Suc (Suc n)) e (''.'' @ ns) None None False s = Some (drop_if_empty e s1)"
    unfolding event_remove.simps(2) [of "Suc n"] parse using Some fold by (simp del: event_remove.simps add: parse(1) [simplified])
  moreover have "events_of (drop_if_empty e s1) e = strip (in_ns ns) (events_of s e)"
    using s1(2) table by (simp add: fold_strip_all table_ok_def)
  ultimately show ?thesis using s1 drop_ok drop_not_empty by (intro exI [of _ "drop_if_empty e s1"]) simp
qed

definition no_events :: events_state where
  "no_events = \<lparr>events = (\<lambda>_. None), native = (\<lambda>_ _. False), attaches = (\<lambda>_. 0), capturing = (\<lambda>_. False),
     guid_of = (\<lambda>_. None), next_guid = 1\<rparr>"

lemma no_events_ok: "events_ok no_events"
  by (simp add: events_ok_def no_events_def events_of_def table_ok_def listeners_ok_def keys_def)

text \<open>
  C26: what a widget binds to an element under its namespace, directly or for a selector, one type or
  several, is gone once it unbinds the namespace, and the handlers of the others, their order, and the
  listeners of the browser are what they were before it bound anything.
\<close>

theorem unbinding_a_namespace:
  assumes "events_ok s" and "events s e \<noteq> Some []" and "plain_word ns"
    and "list_all (\<lambda>(t, hs). list_all (\<lambda>h. ns \<notin> set (namespaces h)) (objs hs)) (events_of s e)"
    and "list_all (\<lambda>(types, fn, sel). list_all (good_token ns) (tokens types)) binds"
  shows "\<exists>s'. event_remove (Suc (Suc n)) e (''.'' @ ns) None None False (add_all acc e binds s) = Some s' \<and>
    events s' = events s \<and> native s' = native s \<and> attaches s' = attaches s \<and> capturing s' = capturing s"
proof -
  note added = add_all_ok [OF assms(5,1), of acc e]
  have some: "events (add_all acc e binds s) e \<noteq> Some []" using added assms(2) by blast
  obtain s' where s': "event_remove (Suc (Suc n)) e (''.'' @ ns) None None False (add_all acc e binds s) = Some s'"
      "events_ok s'" "events_of s' e = strip (in_ns ns) (events_of (add_all acc e binds s) e)"
      "\<forall>x. x \<noteq> e \<longrightarrow> events s' x = events (add_all acc e binds s) x" "events s' e \<noteq> Some []"
    using remove_namespace [OF _ assms(3) some, of n] added by blast
  have "table_ok (events_of s e)" using assms(1) by (simp add: events_ok_def)
  then have "strip (in_ns ns) (events_of s e) = events_of s e"
    using assms(4) by (intro strip_none) (auto simp: table_ok_def handlers_ok_def list_all_iff)
  then have here: "events_of s' e = events_of s e" using s'(3) added by simp
  have "events s' x = events s x" for x
  proof (cases "x = e")
    case True
    then show ?thesis using here s'(5) assms(2)
      by (cases "events s e"; cases "events s' e") (simp_all add: events_of_def)
  next
    case False
    then show ?thesis using s'(4) added by simp
  qed
  then have same: "events s' = events s" by (rule ext)
  then have "keys s' x = keys s x" for x by (simp add: keys_def events_of_def)
  then have "native s' = native s \<and> attaches s' = attaches s \<and> capturing s' = capturing s"
    using listeners_same [of s s'] assms(1) s'(2) by (simp add: events_ok_def)
  then show ?thesis using s'(1) same by blast
qed

definition sample_binds :: "(string \<times> nat \<times> string option) list" where
  "sample_binds = [(''mousedown.menu focusin.menu'', 7, Some ''.ui-menu-item > a''), (''mouseenter.menu'', 8, Some ''li''),
     (''keydown.menu.first'', 9, None)]"

definition sample_events :: events_state where
  "sample_events = event_add True 3 ''keydown.dialog mousedown.dialog'' 5 None no_events"

lemma sample_events_ok: "events_ok sample_events"
proof -
  have "list_all (good_token ''dialog'') (tokens ''keydown.dialog mousedown.dialog'')" by code_simp
  from event_add_ok [OF this no_events_ok, of True 3 5 None] show ?thesis by (simp add: sample_events_def)
qed

text \<open>Handlers of two namespaces on an element.\<close>

lemma unbinding_a_namespace_witness:
  "\<exists>s'. event_remove (Suc (Suc 0)) 3 ''.menu'' None None False (add_all True 3 sample_binds sample_events) = Some s' \<and>
    events s' = events sample_events \<and> native s' = native sample_events \<and> attaches s' = attaches sample_events \<and>
    capturing s' = capturing sample_events"
proof -
  have "plain_word ''menu''" by code_simp
  moreover have "events sample_events 3 \<noteq> Some []" by code_simp
  moreover have "list_all (\<lambda>(t, hs). list_all (\<lambda>h. ''menu'' \<notin> set (namespaces h)) (objs hs)) (events_of sample_events 3)" by code_simp
  moreover have "list_all (\<lambda>(types, fn, sel). list_all (good_token ''menu'') (tokens types)) sample_binds" by code_simp
  ultimately show ?thesis using unbinding_a_namespace [OF sample_events_ok, of 3 "''menu''" sample_binds 0 True] by simp
qed

section \<open>Tokens for which the removal returns\<close>

lemma rtypenamespace_cases:
  "rtypenamespace s = None \<longleftrightarrow> (\<exists>t. s = t @ ''.'' \<and> (\<forall>c\<in>set t. c \<noteq> CHR ''.''))"
proof
  assume "rtypenamespace s = None"
  then have d: "\<exists>c. dropWhile (\<lambda>c. c \<noteq> CHR ''.'') s = [c]"
    by (auto simp: rtypenamespace_def Let_def split: list.splits)
  then obtain c where c: "dropWhile (\<lambda>c. c \<noteq> CHR ''.'') s = [c]" by blast
  have "c = CHR ''.''" using hd_dropWhile [of "\<lambda>c. c \<noteq> CHR ''.''" s] by (simp add: c)
  then have "s = takeWhile (\<lambda>c. c \<noteq> CHR ''.'') s @ ''.''" using c by (metis takeWhile_dropWhile_id)
  then show "\<exists>t. s = t @ ''.'' \<and> (\<forall>c\<in>set t. c \<noteq> CHR ''.'')" by (blast dest: set_takeWhileD)
next
  assume "\<exists>t. s = t @ ''.'' \<and> (\<forall>c\<in>set t. c \<noteq> CHR ''.'')"
  then obtain t where s: "s = t @ ''.''" and t: "\<forall>c\<in>set t. c \<noteq> CHR ''.''" by blast
  have "dropWhile (\<lambda>c. c \<noteq> CHR ''.'') (t @ ''.'') = ''.''" using t by (simp add: dropWhile_append)
  then show "rtypenamespace s = None" by (simp add: rtypenamespace_def s)
qed

lemma one_token:
  assumes "\<forall>c\<in>set w. \<not> is_space c"
  shows "tokens w = [w]"
proof -
  have m: "map (\<lambda>c. if is_space c then CHR '' '' else c) w = w" by (rule map_idI) (use assms in simp)
  have "\<forall>c\<in>set w. c \<noteq> CHR '' ''" using assms by (auto simp: is_space_def)
  from plain_split [OF this] show ?thesis unfolding tokens_def m by simp
qed

lemma remove_never_returns:
  assumes "table_ok (events_of s e)" and "events_of s e \<noteq> []" and "rtypenamespace tok = None" and "\<forall>c\<in>set tok. \<not> is_space c"
  shows "event_remove n e tok g sel mapped s = None"
  using assms
proof (induction n arbitrary: tok mapped)
  case (Suc n)
  obtain t hs l where l: "events_of s e = (t, hs) # l" using Suc.prems(2) by (cases "events_of s e") auto
  then have t: "plain_word t" using Suc.prems(1) by (simp add: table_ok_def)
  obtain u where u: "tok = u @ ''.''" "\<forall>c\<in>set u. c \<noteq> CHR ''.''" using Suc.prems(3) rtypenamespace_cases by blast
  have "\<forall>c\<in>set (t @ u). c \<noteq> CHR ''.''" using t u(2) by (auto simp: plain_word_def)
  moreover have "t @ tok = (t @ u) @ ''.''" by (simp add: u)
  ultimately have "rtypenamespace (t @ tok) = None" using rtypenamespace_cases by blast
  moreover have "\<forall>c\<in>set (t @ tok). \<not> is_space c" using t Suc.prems(4) by (auto simp: plain_word_def)
  ultimately have inner: "event_remove n e (t @ tok) g sel True s = None" by (intro Suc.IH [OF Suc.prems(1,2)])
  have "events s e \<noteq> None" using l by (auto simp: events_of_def split: option.splits)
  then show ?case using inner Suc.prems(3) by (auto simp: one_token [OF Suc.prems(4)] l)
qed simp

lemma fold_opt_total:
  assumes "\<And>x s. x \<in> set xs \<Longrightarrow> I s \<Longrightarrow> \<exists>s'. f x s = Some s' \<and> I s'" and "I s"
  shows "\<exists>s'. fold_opt f xs s = Some s' \<and> I s'"
  using assms
proof (induction xs arbitrary: s)
  case (Cons x xs)
  obtain s1 where s1: "f x s = Some s1" "I s1" using Cons.prems(1) [of x s] Cons.prems(2) by auto
  from Cons.IH [OF Cons.prems(1) s1(2)] s1(1) show ?case by simp
qed simp

lemma remove_with_type:
  assumes ok: "events_ok s" and tok: "\<forall>c\<in>set tok. \<not> is_space c" "rtypenamespace tok = Some (t, ns)" "t \<noteq> []"
  shows "\<exists>s'. event_remove (Suc n) e tok g sel mapped s = Some s' \<and> events_ok s'"
proof (cases "events s e")
  case (Some evs)
  then show ?thesis using tok(2,3) drop_ok remove_type_ok [OF ok] by (simp add: one_token [OF tok(1)])
qed (use ok in simp)

lemma rtypenamespace_prefix:
  assumes "rtypenamespace tok = Some ([], ns)" and "plain_word t"
  shows "rtypenamespace (t @ tok) = Some (t, ns)"
proof -
  have "\<forall>c\<in>set t. c \<noteq> CHR ''.''" using assms(2) by (simp add: plain_word_def)
  then have d: "takeWhile (\<lambda>c. c \<noteq> CHR ''.'') (t @ w) = t @ takeWhile (\<lambda>c. c \<noteq> CHR ''.'') w"
    "dropWhile (\<lambda>c. c \<noteq> CHR ''.'') (t @ w) = dropWhile (\<lambda>c. c \<noteq> CHR ''.'') w" for w
    by (simp_all add: takeWhile_append dropWhile_append)
  have gen: "(case r of [] \<Rightarrow> Some (t @ w, None) | _ # [] \<Rightarrow> None | _ # n \<Rightarrow> Some (t @ w, Some n)) = Some (t, ns)"
    if "(case r of [] \<Rightarrow> Some (w, None) | _ # [] \<Rightarrow> None | _ # n \<Rightarrow> Some (w, Some n)) = Some ([], ns)" for r w :: string
    using that by (auto split: list.splits)
  show ?thesis using assms(1) unfolding rtypenamespace_def d Let_def by (rule gen)
qed

lemma remove_returns:
  assumes ok: "events_ok s" and tok: "\<forall>c\<in>set tok. \<not> is_space c" and parse: "rtypenamespace tok = Some (t, ns)"
  shows "\<exists>s'. event_remove (Suc (Suc n)) e tok g sel mapped s = Some s' \<and> events_ok s'"
proof (cases "t = [] \<and> events s e \<noteq> None")
  case True
  have "\<exists>s'. event_remove (Suc n) e (u @ tok) g sel True s1 = Some s' \<and> events_ok s'"
    if "u \<in> set (map fst (events_of s e))" "events_ok s1" for u s1
  proof -
    have "table_ok (events_of s e)" using ok by (simp add: events_ok_def)
    then have u: "plain_word u" using that(1) by (auto simp: table_ok_def list_all_iff)
    then have "\<forall>c\<in>set (u @ tok). \<not> is_space c" "u \<noteq> []" using tok by (auto simp: plain_word_def)
    then show ?thesis
      using remove_with_type [OF that(2) _ rtypenamespace_prefix [of tok ns u]] parse True u by blast
  qed
  from fold_opt_total [of "map fst (events_of s e)" events_ok "\<lambda>t. event_remove (Suc n) e (t @ tok) g sel True", OF this ok] obtain s1
    where "fold_opt (\<lambda>t. event_remove (Suc n) e (t @ tok) g sel True) (map fst (events_of s e)) s = Some s1" "events_ok s1"
    by blast
  then show ?thesis
    using True parse drop_ok unfolding event_remove.simps(2) [of "Suc n"]
    by (auto simp: one_token [OF tok] simp del: event_remove.simps)
next
  case False
  then show ?thesis using remove_with_type [OF ok tok parse, of "Suc n" e g sel mapped] ok
    by (cases "events s e") (auto simp del: event_remove.simps simp: event_remove.simps(2) [of "Suc n"])
qed

text \<open>
  C27: for a token of an element that has handlers, the removal returns exactly if the token does not end
  in its only dot; then two levels of calls are enough. For a token like \<open>click.\<close> the expression does
  not match, so the function takes it for one without a type and calls itself, with a longer one of the
  same kind, without end.
\<close>

theorem unbinding_returns:
  assumes "events_ok s" and "events_of s e \<noteq> []" and "list_all (\<lambda>c. \<not> is_space c) tok"
  shows "if rtypenamespace tok = None then \<forall>n. event_remove n e tok g sel mapped s = None
    else \<forall>n. \<exists>s'. event_remove (n + 2) e tok g sel mapped s = Some s' \<and> events_ok s'"
proof -
  have tok: "\<forall>c\<in>set tok. \<not> is_space c" and table: "table_ok (events_of s e)"
    using assms by (simp_all add: list_all_iff events_ok_def)
  show ?thesis
  proof (cases "rtypenamespace tok")
    case None
    then show ?thesis using remove_never_returns [OF table assms(2) None tok] by simp
  next
    case (Some p)
    then show ?thesis using remove_returns [OF assms(1) tok] by (cases p) (simp del: event_remove.simps)
  qed
qed

lemma unbinding_returns_witness:
  "(\<forall>n. event_remove n 3 ''click.'' None None False sample_events = None) \<and>
   (\<exists>s'. event_remove (0 + 2) 3 ''click.dialog'' None None False sample_events = Some s' \<and> events_ok s')"
proof
  have some: "events_of sample_events 3 \<noteq> []" by code_simp
  have "rtypenamespace ''click.'' = None" "list_all (\<lambda>c. \<not> is_space c) ''click.''" by code_simp+
  then show "\<forall>n. event_remove n 3 ''click.'' None None False sample_events = None"
    using unbinding_returns [OF sample_events_ok some, of "''click.''" None None False] by simp
  have "rtypenamespace ''click.dialog'' \<noteq> None" "list_all (\<lambda>c. \<not> is_space c) ''click.dialog''" by code_simp+
  then show "\<exists>s'. event_remove (0 + 2) 3 ''click.dialog'' None None False sample_events = Some s' \<and> events_ok s'"
    using unbinding_returns [OF sample_events_ok some, of "''click.dialog''" None None False] by metis
qed

end
