(* ===== verification/JqDispatch.thy ===== *)
theory JqDispatch
  imports JqEvents
begin

text \<open>
  What one event does in \<open>jquery-1.9.1.js\<close>: the jQuery event object and its methods, which handlers of
  an element are to be called for an event and in what order, the calls themselves with all the ways to
  stop them, and handlers that are called once.
\<close>

section \<open>The event object\<close>

text \<open>\<open>No\<close> is the value \<open>false\<close>; another value is known by a number.\<close>

datatype ret = No | Value nat

text \<open>
  \<open>original\<close> tells whether there is an event of the browser, and \<open>native_prevented\<close> and \<open>native_stopped\<close>
  what has been done to it. \<open>ev_namespaces\<close> is the expression of the namespaces, \<open>None\<close> without one.
\<close>

record event =
  ev_type :: string
  target :: elem
  related :: "elem option"
  button :: nat
  ev_namespaces :: "string list option"
  prevented :: bool
  stopped :: bool
  stopped_now :: bool
  ev_result :: "ret option"
  original :: bool
  native_prevented :: bool
  native_stopped :: bool

definition preventDefault :: "event \<Rightarrow> event" where
  "preventDefault ev =
     (let ev' = ev\<lparr>prevented := True\<rparr> in if original ev' then ev'\<lparr>native_prevented := True\<rparr> else ev')"

definition stopPropagation :: "event \<Rightarrow> event" where
  "stopPropagation ev =
     (let ev' = ev\<lparr>stopped := True\<rparr> in if original ev' then ev'\<lparr>native_stopped := True\<rparr> else ev')"

definition stopImmediatePropagation :: "event \<Rightarrow> event" where
  "stopImmediatePropagation ev = stopPropagation (ev\<lparr>stopped_now := True\<rparr>)"

text \<open>What the function of a handler does to the event, through its methods.\<close>

datatype ev_method = Prevent | Stop | Stop_now

fun apply_method :: "ev_method \<Rightarrow> event \<Rightarrow> event" where
  "apply_method Prevent ev = preventDefault ev"
| "apply_method Stop ev = stopPropagation ev"
| "apply_method Stop_now ev = stopImmediatePropagation ev"

section \<open>The handlers for an event\<close>

record dom =
  parent :: "elem \<Rightarrow> elem option"
  is_element :: "elem \<Rightarrow> bool"
  disabled :: "elem \<Rightarrow> bool"

text \<open>
  \<open>M sel c\<close> tells whether the element \<open>c\<close> matches the selector below the element of the handlers. The
  loop goes from the target up to this element; an element without a parent counts as below it.
\<close>

definition matched_at :: "(string \<Rightarrow> elem \<Rightarrow> bool) \<Rightarrow> handlers \<Rightarrow> elem \<Rightarrow> handleObj list" where
  "matched_at M hs cur = filter (\<lambda>h. M (the (hselector h)) cur) (take (delegateCount hs) (objs hs))"

definition can_match :: "dom \<Rightarrow> event \<Rightarrow> elem \<Rightarrow> bool" where
  "can_match D ev cur \<longleftrightarrow> is_element D cur \<and> (\<not> disabled D cur \<or> ev_type ev \<noteq> ''click'')"

fun delegate_queue :: "nat \<Rightarrow> dom \<Rightarrow> (string \<Rightarrow> elem \<Rightarrow> bool) \<Rightarrow> event \<Rightarrow> elem \<Rightarrow> handlers \<Rightarrow> elem \<Rightarrow> (elem \<times> handleObj list) list option" where
  "delegate_queue 0 D M ev this hs cur = None"
| "delegate_queue (Suc n) D M ev this hs cur =
     (if cur = this then Some []
      else let ms = (if can_match D ev cur then matched_at M hs cur else [])
           in map_option ((@) (if ms \<noteq> [] then [(cur, ms)] else []))
                (delegate_queue n D M ev this hs (case parent D cur of None \<Rightarrow> this | Some p \<Rightarrow> p)))"

definition handler_queue :: "nat \<Rightarrow> dom \<Rightarrow> (string \<Rightarrow> elem \<Rightarrow> bool) \<Rightarrow> event \<Rightarrow> elem \<Rightarrow> handlers \<Rightarrow> (elem \<times> handleObj list) list option" where
  "handler_queue n D M ev this hs =
     map_option (\<lambda>q. q @ (if delegateCount hs < length (objs hs) then [(this, drop (delegateCount hs) (objs hs))] else []))
       (if delegateCount hs \<noteq> 0 \<and> (button ev = 0 \<or> ev_type ev \<noteq> ''click'')
        then delegate_queue n D M ev this hs (target ev) else Some [])"

section \<open>The calls\<close>

text \<open>
  \<open>run h el ev w\<close> is what the function of the handler does when it is called for the element: its effect
  on the world, the methods of the event that it calls, and what it returns. The handlers of
  \<open>mouseenter\<close> and \<open>mouseleave\<close> are not called when the mouse comes from below the element.
\<close>

definition entering :: "string option \<Rightarrow> bool" where
  "entering orig \<longleftrightarrow> orig = Some ''mouseenter'' \<or> orig = Some ''mouseleave''"

definition really_entered :: "(elem \<Rightarrow> elem \<Rightarrow> bool) \<Rightarrow> elem \<Rightarrow> event \<Rightarrow> bool" where
  "really_entered contains el ev \<longleftrightarrow> (case related ev of None \<Rightarrow> True | Some r \<Rightarrow> r \<noteq> el \<and> \<not> contains el r)"

type_synonym 'w runs = "handleObj \<Rightarrow> elem \<Rightarrow> event \<Rightarrow> 'w \<Rightarrow> 'w \<times> ev_method list \<times> ret option"

definition special_handle ::
  "(elem \<Rightarrow> elem \<Rightarrow> bool) \<Rightarrow> 'w runs \<Rightarrow> handleObj \<Rightarrow> elem \<Rightarrow> event \<Rightarrow> 'w \<Rightarrow> 'w \<times> event \<times> ret option \<times> bool" where
  "special_handle contains run h el ev w =
     (if really_entered contains el ev
      then let ev1 = ev\<lparr>ev_type := the (origType h)\<rparr>; (w', ms, r) = run h el ev1 w
           in (w', (fold apply_method ms ev1)\<lparr>ev_type := the (bindType (the (origType h)))\<rparr>, r, True)
      else (w, ev, None, False))"

definition call_handler ::
  "(elem \<Rightarrow> elem \<Rightarrow> bool) \<Rightarrow> 'w runs \<Rightarrow> handleObj \<Rightarrow> elem \<Rightarrow> event \<Rightarrow> 'w \<Rightarrow> 'w \<times> event \<times> ret option \<times> bool" where
  "call_handler contains run h el ev w =
     (if entering (origType h) then special_handle contains run h el ev w
      else let (w', ms, r) = run h el ev w in (w', fold apply_method ms ev, r, True))"

definition take_result :: "ret option \<Rightarrow> event \<Rightarrow> event" where
  "take_result r ev =
     (if r = None then ev
      else let ev' = ev\<lparr>ev_result := r\<rparr> in if r = Some No then stopPropagation (preventDefault ev') else ev')"

definition wanted :: "event \<Rightarrow> handleObj \<Rightarrow> bool" where
  "wanted ev h \<longleftrightarrow> (case ev_namespaces ev of None \<Rightarrow> True | Some ns \<Rightarrow> namespace_re ns h)"

text \<open>A call is noted with the element, the handler and the event as it is afterwards.\<close>

type_synonym call = "elem \<times> handleObj \<times> event"

fun run_handlers ::
  "(elem \<Rightarrow> elem \<Rightarrow> bool) \<Rightarrow> 'w runs \<Rightarrow> elem \<Rightarrow> handleObj list \<Rightarrow> event \<Rightarrow> 'w \<Rightarrow> 'w \<times> event \<times> call list" where
  "run_handlers contains run el [] ev w = (w, ev, [])"
| "run_handlers contains run el (h # hs) ev w =
     (if stopped_now ev then (w, ev, [])
      else if wanted ev h
      then let (w1, ev1, r, called) = call_handler contains run h el ev w;
               ev2 = take_result r ev1;
               (w3, ev3, cs) = run_handlers contains run el hs ev2 w1
           in (w3, ev3, if called then (el, h, ev2) # cs else cs)
      else run_handlers contains run el hs ev w)"

fun run_queue ::
  "(elem \<Rightarrow> elem \<Rightarrow> bool) \<Rightarrow> 'w runs \<Rightarrow> (elem \<times> handleObj list) list \<Rightarrow> event \<Rightarrow> 'w \<Rightarrow> 'w \<times> event \<times> call list" where
  "run_queue contains run [] ev w = (w, ev, [])"
| "run_queue contains run ((el, hs) # q) ev w =
     (if stopped ev then (w, ev, [])
      else let (w1, ev1, cs1) = run_handlers contains run el hs ev w;
               (w2, ev2, cs2) = run_queue contains run q ev1 w1
           in (w2, ev2, cs1 @ cs2))"

text \<open>
  \<open>table w\<close> is the state of the event module in the world. The handlers are looked up once: what the
  functions bind and unbind meanwhile has no effect on the calls of this event.
\<close>

definition dispatch ::
  "nat \<Rightarrow> dom \<Rightarrow> (string \<Rightarrow> elem \<Rightarrow> bool) \<Rightarrow> (elem \<Rightarrow> elem \<Rightarrow> bool) \<Rightarrow> ('w \<Rightarrow> events_state) \<Rightarrow> 'w runs \<Rightarrow>
   elem \<Rightarrow> event \<Rightarrow> 'w \<Rightarrow> ('w \<times> event \<times> call list) option" where
  "dispatch n D M contains table run this ev w =
     (let hs = (case map_of (events_of (table w) this) (ev_type ev) of None \<Rightarrow> no_handlers | Some hs \<Rightarrow> hs)
      in map_option (\<lambda>q. run_queue contains run q ev w) (handler_queue n D M ev this hs))"

section \<open>What the calls are, as a plan that is followed\<close>

text \<open>
  The plan for an event: for every element from the target up to the element of the handlers the delegated
  ones that match it, inner elements first, then the direct ones, both in the order in which they were bound.
\<close>

fun up :: "nat \<Rightarrow> dom \<Rightarrow> elem \<Rightarrow> elem list" where
  "up 0 D x = []"
| "up (Suc n) D x = x # (case parent D x of None \<Rightarrow> [] | Some p \<Rightarrow> up n D p)"

definition planned :: "nat \<Rightarrow> dom \<Rightarrow> (string \<Rightarrow> elem \<Rightarrow> bool) \<Rightarrow> event \<Rightarrow> elem \<Rightarrow> handleObj list \<Rightarrow> (elem \<times> handleObj) list" where
  "planned n D M ev this os =
     (if button ev = 0 \<or> ev_type ev \<noteq> ''click''
      then concat (map (\<lambda>c. map (Pair c) (filter (\<lambda>h. case hselector h of None \<Rightarrow> False | Some sel \<Rightarrow> M sel c) os))
             (filter (can_match D ev) (takeWhile (\<lambda>c. c \<noteq> this) (up n D (target ev)))))
      else []) @
     map (Pair this) (filter (\<lambda>h. hselector h = None) os)"

definition callable :: "(elem \<Rightarrow> elem \<Rightarrow> bool) \<Rightarrow> event \<Rightarrow> elem \<times> handleObj \<Rightarrow> bool" where
  "callable contains ev = (\<lambda>(el, h). wanted ev h \<and> (entering (origType h) \<longrightarrow> really_entered contains el ev))"

text \<open>
  After a call the event goes on to the next one unless it has been stopped at once, or stopped and the
  next call is for another element. \<open>follows\<close> says that the calls are those of the plan as far as it goes on.
\<close>

definition goes_on :: "event \<Rightarrow> elem option \<Rightarrow> elem \<Rightarrow> bool" where
  "goes_on ev prev el \<longleftrightarrow> \<not> stopped_now ev \<and> (stopped ev \<longrightarrow> prev = Some el)"

fun follows :: "elem option \<Rightarrow> event \<Rightarrow> (elem \<times> handleObj) list \<Rightarrow> call list \<Rightarrow> bool" where
  "follows prev ev [] cs = (cs = [])"
| "follows prev ev ((el, h) # ps) cs =
     (if goes_on ev prev el
      then (case cs of [] \<Rightarrow> False | (el', h', ev') # cs' \<Rightarrow> el' = el \<and> h' = h \<and> follows (Some el) ev' ps cs')
      else cs = [])"

lemma follows_stopped: "stopped_now ev \<Longrightarrow> follows prev ev ps cs = (cs = [])"
  by (cases ps) (auto simp: goes_on_def)

lemma follows_not_stopped: "\<not> stopped ev \<Longrightarrow> follows p ev ps cs = follows q ev ps cs"
  by (cases ps) (auto simp: goes_on_def)

lemma method_same [simp]:
  "related (apply_method m ev) = related ev" "ev_namespaces (apply_method m ev) = ev_namespaces ev"
  by (cases m; simp add: preventDefault_def stopPropagation_def stopImmediatePropagation_def Let_def)+

lemma methods_same [simp]:
  "related (fold apply_method ms ev) = related ev" "ev_namespaces (fold apply_method ms ev) = ev_namespaces ev"
  by (induction ms arbitrary: ev) simp_all

text \<open>An event that is stopped at once is stopped; \<open>false\<close> as the result stops it and prevents its default.\<close>

definition flags_ok :: "event \<Rightarrow> bool" where
  "flags_ok ev \<longleftrightarrow> (stopped_now ev \<longrightarrow> stopped ev) \<and> (ev_result ev = Some No \<longrightarrow> stopped ev \<and> prevented ev)"

lemma method_flags: "flags_ok ev \<Longrightarrow> flags_ok (apply_method m ev)"
  by (cases m) (auto simp: flags_ok_def preventDefault_def stopPropagation_def stopImmediatePropagation_def Let_def)

lemma methods_flags: "flags_ok ev \<Longrightarrow> flags_ok (fold apply_method ms ev)"
  by (induction ms arbitrary: ev) (simp_all add: method_flags)

lemma type_flags [simp]: "flags_ok (ev\<lparr>ev_type := t\<rparr>) = flags_ok ev"
  by (simp add: flags_ok_def)

lemma call_handler_same:
  assumes "call_handler contains run h el ev w = (w1, ev1, r, called)"
  shows "related ev1 = related ev \<and> ev_namespaces ev1 = ev_namespaces ev \<and> (flags_ok ev \<longrightarrow> flags_ok ev1) \<and>
    called = (entering (origType h) \<longrightarrow> really_entered contains el ev) \<and> (\<not> called \<longrightarrow> ev1 = ev \<and> r = None)"
proof -
  obtain w2 ms2 r2 where run: "run h el ev w = (w2, ms2, r2)" by (cases "run h el ev w")
  obtain w3 ms3 r3 where run': "run h el (ev\<lparr>ev_type := the (origType h)\<rparr>) w = (w3, ms3, r3)"
    by (cases "run h el (ev\<lparr>ev_type := the (origType h)\<rparr>) w")
  show ?thesis
    using assms by (auto simp: call_handler_def special_handle_def run run' methods_flags split: if_splits)
qed

lemma take_result_same [simp]:
  "related (take_result r ev) = related ev" "ev_namespaces (take_result r ev) = ev_namespaces ev"
  "flags_ok ev \<Longrightarrow> flags_ok (take_result r ev)" "take_result None ev = ev"
  by (auto simp: take_result_def flags_ok_def preventDefault_def stopPropagation_def Let_def)

lemma callable_cong: "related ev' = related ev \<Longrightarrow> ev_namespaces ev' = ev_namespaces ev \<Longrightarrow> callable contains ev' = callable contains ev"
  by (simp add: callable_def wanted_def really_entered_def fun_eq_iff)

lemma run_handlers_follows:
  assumes "run_handlers contains run el hs ev w = (w', ev', cs)" and "flags_ok ev" and "stopped ev \<Longrightarrow> prev = Some el"
    and "follows (if cs = [] then prev else Some el) ev' ps cs'"
  shows "follows prev ev (filter (callable contains ev) (map (Pair el) hs) @ ps) (cs @ cs') \<and> flags_ok ev' \<and>
    related ev' = related ev \<and> ev_namespaces ev' = ev_namespaces ev"
  using assms
proof (induction hs arbitrary: ev w cs prev)
  case (Cons h hs)
  note eq = Cons.prems(1)
  show ?case
  proof (cases "stopped_now ev \<or> \<not> wanted ev h")
    case True
    show ?thesis
    proof (cases "stopped_now ev")
      case True
      then show ?thesis using Cons.prems by (auto simp: follows_stopped)
    next
      case False
      with True have "\<not> wanted ev h" by simp
      then show ?thesis using Cons.IH [of ev w cs prev] Cons.prems False by (simp add: callable_def)
    qed
  next
    case False
    obtain w1 ev1 r called where call: "call_handler contains run h el ev w = (w1, ev1, r, called)"
      by (cases "call_handler contains run h el ev w")
    define ev2 where "ev2 = take_result r ev1"
    obtain cs2 where rest: "run_handlers contains run el hs ev2 w1 = (w', ev', cs2)"
      and cs: "cs = (if called then (el, h, ev2) # cs2 else cs2)"
      using eq False call by (auto simp: ev2_def Let_def split: prod.splits)
    note same = call_handler_same [OF call]
    have ev2: "flags_ok ev2" "related ev2 = related ev" "ev_namespaces ev2 = ev_namespaces ev"
      using same Cons.prems(2) by (simp_all add: ev2_def)
    note plan = callable_cong [OF ev2(2,3), of contains]
    have go: "goes_on ev prev el" using False Cons.prems(3) by (auto simp: goes_on_def)
    show ?thesis
    proof (cases called)
      case True
      then have "callable contains ev (el, h)" using same False by (simp add: callable_def)
      moreover have "follows (if cs2 = [] then Some el else Some el) ev' ps cs'" using Cons.prems(4) by (simp add: cs True)
      ultimately show ?thesis
        using Cons.IH [OF rest ev2(1), of "Some el"] go ev2 by (simp add: cs True plan)
    next
      case False
      then have "\<not> callable contains ev (el, h)" "ev2 = ev" using same by (auto simp: callable_def ev2_def)
      then show ?thesis using Cons.IH [OF rest ev2(1), of prev] Cons.prems(3,4) by (simp add: cs False)
    qed
  qed
qed auto

lemma run_handlers_quiet: "run_handlers contains run el hs ev w = (w', ev', []) \<Longrightarrow> ev' = ev"
proof (induction hs arbitrary: ev w)
  case (Cons h hs)
  show ?case
  proof (cases "stopped_now ev \<or> \<not> wanted ev h")
    case True
    then show ?thesis using Cons by (auto split: if_splits)
  next
    case False
    obtain w1 ev1 r called where call: "call_handler contains run h el ev w = (w1, ev1, r, called)"
      by (cases "call_handler contains run h el ev w")
    have rest: "run_handlers contains run el hs (take_result r ev1) w1 = (w', ev', [])" and "\<not> called"
      using Cons.prems False call by (auto simp: Let_def split: prod.splits if_splits)
    then show ?thesis using Cons.IH [OF rest] call_handler_same [OF call] by simp
  qed
qed simp

lemma run_queue_follows:
  assumes "run_queue contains run q ev w = (w', ev', cs)" and "flags_ok ev" and "distinct (map fst q)"
    and "stopped ev \<Longrightarrow> prev \<notin> Some ` fst ` set q"
  shows "follows prev ev (filter (callable contains ev) (concat (map (\<lambda>(el, hs). map (Pair el) hs) q))) cs"
  using assms
proof (induction q arbitrary: ev w cs prev)
  case (Cons x q)
  obtain el hs where x: "x = (el, hs)" by force
  show ?case
  proof (cases "stopped ev")
    case True
    have none: "follows prev ev ps []" if "\<forall>p\<in>set ps. prev \<noteq> Some (fst p)" for ps
      using that True by (cases ps) (auto simp: goes_on_def)
    have "follows prev ev (filter (callable contains ev) (concat (map (\<lambda>(el, hs). map (Pair el) hs) (x # q)))) []"
      by (rule none) (use Cons.prems(4) [OF True] in \<open>force simp: x\<close>)
    then show ?thesis using True Cons.prems(1) by (simp add: x)
  next
    case False
    obtain w1 ev1 cs1 cs2 where one: "run_handlers contains run el hs ev w = (w1, ev1, cs1)"
      and two: "run_queue contains run q ev1 w1 = (w', ev', cs2)" and cs: "cs = cs1 @ cs2"
      using Cons.prems(1) False by (auto simp: x Let_def split: prod.splits)
    have first: "flags_ok ev1 \<and> related ev1 = related ev \<and> ev_namespaces ev1 = ev_namespaces ev"
      using run_handlers_follows [OF one Cons.prems(2), of prev "[]" "[]"] False by (simp split: if_splits)
    have same: "cs1 = [] \<Longrightarrow> \<not> stopped ev1"
      using run_handlers_quiet [of contains run el hs ev w w1 ev1] one False by simp
    let ?prev = "if cs1 = [] then prev else Some el"
    have "stopped ev1 \<Longrightarrow> ?prev \<notin> Some ` fst ` set q" using same Cons.prems(3) by (auto simp: x)
    then have "follows ?prev ev1 (filter (callable contains ev) (concat (map (\<lambda>(el, hs). map (Pair el) hs) q))) cs2"
      using Cons.IH [OF two, of ?prev] first Cons.prems(3) callable_cong [of ev1 ev contains] by (simp add: x)
    from run_handlers_follows [OF one Cons.prems(2) _ this] False show ?thesis by (simp add: x cs)
  qed
qed simp

lemma run_handlers_flags:
  "run_handlers contains run el hs ev w = (w', ev', cs) \<Longrightarrow> flags_ok ev \<Longrightarrow> flags_ok ev' \<and> list_all (\<lambda>(el, h, e). flags_ok e) cs"
proof (induction hs arbitrary: ev w cs)
  case (Cons h hs)
  show ?case
  proof (cases "stopped_now ev \<or> \<not> wanted ev h")
    case True
    then show ?thesis using Cons by (auto split: if_splits)
  next
    case False
    obtain w1 ev1 r called where call: "call_handler contains run h el ev w = (w1, ev1, r, called)"
      by (cases "call_handler contains run h el ev w")
    obtain cs2 where rest: "run_handlers contains run el hs (take_result r ev1) w1 = (w', ev', cs2)"
      and cs: "cs = (if called then (el, h, take_result r ev1) # cs2 else cs2)"
      using Cons.prems(1) False call by (auto simp: Let_def split: prod.splits)
    have "flags_ok (take_result r ev1)" using call_handler_same [OF call] Cons.prems(2) by simp
    then show ?thesis using Cons.IH [OF rest] by (simp add: cs)
  qed
qed simp

lemma run_queue_flags:
  "run_queue contains run q ev w = (w', ev', cs) \<Longrightarrow> flags_ok ev \<Longrightarrow> flags_ok ev' \<and> list_all (\<lambda>(el, h, e). flags_ok e) cs"
proof (induction q arbitrary: ev w cs)
  case (Cons x q)
  obtain el hs where x: "x = (el, hs)" by force
  show ?case
  proof (cases "stopped ev")
    case False
    obtain w1 ev1 cs1 cs2 where one: "run_handlers contains run el hs ev w = (w1, ev1, cs1)"
      and two: "run_queue contains run q ev1 w1 = (w', ev', cs2)" and cs: "cs = cs1 @ cs2"
      using Cons.prems(1) False by (auto simp: x Let_def split: prod.splits)
    show ?thesis using run_handlers_flags [OF one Cons.prems(2)] Cons.IH [OF two] by (simp add: cs)
  qed (use Cons.prems in \<open>simp add: x\<close>)
qed simp

text \<open>The queue is the plan, if the elements are a tree with \<open>d\<close> as their depth.\<close>

lemma up_below: "(\<And>x p. parent D x = Some p \<Longrightarrow> d p < d x) \<Longrightarrow> y \<in> set (up n D x) \<Longrightarrow> d y \<le> (d x :: nat)"
proof (induction n arbitrary: x)
  case (Suc n)
  show ?case
  proof (cases "parent D x")
    case (Some p)
    then show ?thesis using Suc.prems(2) Suc.IH [OF Suc.prems(1), of p] Suc.prems(1) [OF Some] by fastforce
  qed (use Suc.prems in simp)
qed simp

lemma up_distinct:
  assumes "\<And>x p. parent D x = Some p \<Longrightarrow> d p < (d x :: nat)"
  shows "distinct (up n D x)"
proof (induction n arbitrary: x)
  case (Suc n)
  show ?case
  proof (cases "parent D x")
    case (Some p)
    have "x \<notin> set (up n D p)" using up_below [of D d x n p] assms assms [OF Some] by force
    then show ?thesis using Suc.IH Some by simp
  qed simp
qed simp

definition groups :: "dom \<Rightarrow> (string \<Rightarrow> elem \<Rightarrow> bool) \<Rightarrow> event \<Rightarrow> handlers \<Rightarrow> elem list \<Rightarrow> (elem \<times> handleObj list) list" where
  "groups D M ev hs cs = filter (\<lambda>(c, ms). ms \<noteq> []) (map (\<lambda>c. (c, matched_at M hs c)) (filter (can_match D ev) cs))"

lemma delegate_queue_eq:
  assumes "\<And>x p. parent D x = Some p \<Longrightarrow> d p < (d x :: nat)" and "d cur < n"
  shows "delegate_queue (Suc n) D M ev this hs cur = Some (groups D M ev hs (takeWhile (\<lambda>c. c \<noteq> this) (up n D cur)))"
  using assms(2)
proof (induction n arbitrary: cur)
  case (Suc n)
  show ?case
  proof (cases "cur = this")
    case False
    have "delegate_queue (Suc n) D M ev this hs (case parent D cur of None \<Rightarrow> this | Some p \<Rightarrow> p) =
        Some (groups D M ev hs (takeWhile (\<lambda>c. c \<noteq> this) (case parent D cur of None \<Rightarrow> [] | Some p \<Rightarrow> up n D p)))"
    proof (cases "parent D cur")
      case (Some p)
      then show ?thesis using Suc.IH [of p] assms(1) [OF Some] Suc.prems by simp
    qed (simp add: groups_def)
    then show ?thesis
      using False by (subst delegate_queue.simps(2)) (simp add: groups_def Let_def del: delegate_queue.simps)
  qed (simp add: groups_def)
qed simp

lemma groups_plan:
  "concat (map (\<lambda>(el, hs). map (Pair el) hs) (groups D M ev hs cs)) =
   concat (map (\<lambda>c. map (Pair c) (matched_at M hs c)) (filter (can_match D ev) cs))"
proof -
  have "concat (map f (filter (\<lambda>(c, ms). ms \<noteq> []) xs)) = concat (map f xs)"
    if "\<And>c. f (c, []) = []" for f :: "elem \<times> handleObj list \<Rightarrow> (elem \<times> handleObj) list" and xs
    using that by (induction xs) auto
  from this [of "\<lambda>(el, hs). map (Pair el) hs"] show ?thesis by (simp add: groups_def comp_def)
qed

lemma groups_elems: "map fst (groups D M ev hs cs) = filter (\<lambda>c. can_match D ev c \<and> matched_at M hs c \<noteq> []) cs"
  by (induction cs) (auto simp: groups_def)

lemma first_part:
  "list_all Q (take k xs) \<Longrightarrow> k = length (filter Q xs) \<Longrightarrow> take k xs = filter Q xs \<and> drop k xs = filter (\<lambda>x. \<not> Q x) xs"
proof (induction xs arbitrary: k)
  case (Cons x xs)
  show ?case
  proof (cases "Q x")
    case True
    then show ?thesis using Cons.IH [of "length (filter Q xs)"] Cons.prems by simp
  next
    case False
    then have "filter Q xs = []" using Cons.prems by (cases "filter Q xs") simp_all
    then have "filter (\<lambda>x. \<not> Q x) xs = xs" by (metis filter_True filter_empty_conv)
    then show ?thesis using Cons.prems False \<open>filter Q xs = []\<close> by simp
  qed
qed simp

lemma handlers_parts:
  assumes "handlers_ok t hs \<or> hs = no_handlers"
  shows "take (delegateCount hs) (objs hs) = filter (\<lambda>h. hselector h \<noteq> None) (objs hs) \<and>
    drop (delegateCount hs) (objs hs) = filter (\<lambda>h. hselector h = None) (objs hs)"
  using assms first_part [of "\<lambda>h. hselector h \<noteq> None" "delegateCount hs" "objs hs"]
  by (auto simp: handlers_ok_def no_handlers_def)

lemma handler_queue_planned:
  assumes tree: "\<And>x p. parent D x = Some p \<Longrightarrow> d p < (d x :: nat)" and n: "d (target ev) < n"
    and hs: "handlers_ok t hs \<or> hs = no_handlers"
  shows "\<exists>q. handler_queue (Suc n) D M ev this hs = Some q \<and> distinct (map fst q) \<and>
    concat (map (\<lambda>(el, hs). map (Pair el) hs) q) = planned n D M ev this (objs hs)"
proof -
  let ?path = "takeWhile (\<lambda>c. c \<noteq> this) (up n D (target ev))"
  let ?direct = "if delegateCount hs < length (objs hs) then [(this, drop (delegateCount hs) (objs hs))] else []"
  note parts = handlers_parts [OF hs]
  have m: "matched_at M hs c = filter (\<lambda>h. case hselector h of None \<Rightarrow> False | Some sel \<Rightarrow> M sel c) (objs hs)" for c
    using parts by (auto simp: matched_at_def intro!: filter_cong split: option.splits)
  have none: "matched_at M hs c = []" if "delegateCount hs = 0" for c using that by (simp add: matched_at_def)
  have direct: "concat (map (\<lambda>(el, hs). map (Pair el) hs) ?direct) = map (Pair this) (filter (\<lambda>h. hselector h = None) (objs hs))"
    using parts by auto
  have "distinct ?path" using up_distinct [OF tree] by (simp add: distinct_takeWhile)
  moreover have "this \<notin> set ?path" by (auto dest: set_takeWhileD)
  ultimately have dist: "distinct (map fst (groups D M ev hs ?path @ ?direct))" by (auto simp: groups_elems)
  show ?thesis
  proof (cases "delegateCount hs \<noteq> 0 \<and> (button ev = 0 \<or> ev_type ev \<noteq> ''click'')")
    case True
    have "delegate_queue (Suc n) D M ev this hs (target ev) = Some (groups D M ev hs ?path)"
      by (rule delegate_queue_eq [where d = d, OF tree n])
    then have "handler_queue (Suc n) D M ev this hs = Some (groups D M ev hs ?path @ ?direct)"
      unfolding handler_queue_def if_P [OF True] by (simp del: delegate_queue.simps)
    moreover have "concat (map (\<lambda>(el, hs). map (Pair el) hs) (groups D M ev hs ?path @ ?direct)) = planned n D M ev this (objs hs)"
      unfolding map_append concat_append groups_plan direct planned_def m using True by simp
    ultimately show ?thesis using dist by blast
  next
    case False
    then have "planned n D M ev this (objs hs) = map (Pair this) (filter (\<lambda>h. hselector h = None) (objs hs))"
      using none unfolding planned_def m [symmetric] by auto
    then show ?thesis using False direct by (auto simp: handler_queue_def)
  qed
qed

text \<open>
  C28: for an event at an element whose handlers are well-formed the calls are those of the plan, in its
  order, as far as the event goes on: inner elements before outer ones, delegated handlers before
  direct ones, only handlers of the wanted namespaces; after a handler that stops the propagation, or
  returns \<open>false\<close>, only those of the same element, after one that stops it at once none.
\<close>

theorem dispatch_follows_plan:
  assumes "\<And>x p. parent D x = Some p \<Longrightarrow> d p < (d x :: nat)" and "d (target ev) < n"
    and "events_ok (table w)" and "\<not> stopped ev" and "\<not> stopped_now ev" and "ev_result ev = None"
    and "os = (case map_of (events_of (table w) this) (ev_type ev) of None \<Rightarrow> [] | Some hs \<Rightarrow> objs hs)"
  shows "\<exists>w' ev' cs. dispatch (Suc n) D M contains table run this ev w = Some (w', ev', cs) \<and>
    follows None ev (filter (callable contains ev) (planned n D M ev this os)) cs \<and>
    list_all (\<lambda>(el, h, e). ev_result e = Some No \<longrightarrow> stopped e \<and> prevented e) cs"
proof -
  let ?hs = "case map_of (events_of (table w) this) (ev_type ev) of None \<Rightarrow> no_handlers | Some hs \<Rightarrow> hs"
  have "table_ok (events_of (table w) this)" using assms(3) by (simp add: events_ok_def)
  then have "handlers_ok (ev_type ev) ?hs \<or> ?hs = no_handlers" using table_get by (auto split: option.split)
  from handler_queue_planned [where d = d and ev = ev, OF assms(1,2) this] obtain q where
    q: "handler_queue (Suc n) D M ev this ?hs = Some q" "distinct (map fst q)"
      "concat (map (\<lambda>(el, hs). map (Pair el) hs) q) = planned n D M ev this (objs ?hs)"
    by blast
  have os: "os = objs ?hs" using assms(7) by (simp add: no_handlers_def split: option.split)
  obtain w' ev' cs where run: "run_queue contains run q ev w = (w', ev', cs)" by (cases "run_queue contains run q ev w")
  have "follows None ev (filter (callable contains ev) (concat (map (\<lambda>(el, hs). map (Pair el) hs) q))) cs"
    using run_queue_follows [OF run _ q(2)] assms(4-6) by (simp add: flags_ok_def)
  moreover have "list_all (\<lambda>(el, h, e). ev_result e = Some No \<longrightarrow> stopped e \<and> prevented e) cs"
    using run_queue_flags [OF run] assms(5,6) by (auto simp: flags_ok_def list_all_iff)
  ultimately show ?thesis using q run os by (simp add: dispatch_def Let_def)
qed

definition sample_dom :: dom where
  "sample_dom = \<lparr>parent = (\<lambda>x. if x = 0 then None else Some (x - 1)), is_element = (\<lambda>x. 0 < x), disabled = (\<lambda>_. False)\<rparr>"

definition sample_event :: event where
  "sample_event = \<lparr>ev_type = ''mousedown'', target = 5, related = None, button = 0, ev_namespaces = None, prevented = False,
     stopped = False, stopped_now = False, ev_result = None, original = True, native_prevented = False, native_stopped = False\<rparr>"

definition sample_run :: "events_state runs" where
  "sample_run h el ev w = (w, if handler h = 7 then [Prevent] else [], if handler h = 5 then Some No else None)"

lemma dispatch_follows_plan_witness:
  "\<exists>w' ev' cs. dispatch (Suc 6) sample_dom (\<lambda>sel c. even c) (\<lambda>_ _. False) id sample_run 3 sample_event (add_all True 3 sample_binds sample_events) =
      Some (w', ev', cs) \<and>
    follows None sample_event (filter (callable (\<lambda>_ _. False) sample_event)
      (planned 6 sample_dom (\<lambda>sel c. even c) sample_event 3
        (case map_of (events_of (add_all True 3 sample_binds sample_events) 3) ''mousedown'' of None \<Rightarrow> [] | Some hs \<Rightarrow> objs hs))) cs \<and>
    list_all (\<lambda>(el, h, e). ev_result e = Some No \<longrightarrow> stopped e \<and> prevented e) cs"
proof -
  have good: "list_all (\<lambda>(types, fn, sel). list_all (good_token ''menu'') (tokens types)) sample_binds" by code_simp
  have ok: "events_ok (id (add_all True 3 sample_binds sample_events))" using add_all_ok [OF good sample_events_ok] by simp
  have tree: "parent sample_dom x = Some p \<Longrightarrow> id p < (id x :: nat)" for x p by (simp add: sample_dom_def split: if_splits)
  show ?thesis
    by (rule dispatch_follows_plan [where d = id and table = id, OF tree _ ok]) (simp_all add: sample_event_def)
qed

section \<open>Handlers that are called once\<close>

text \<open>
  \<open>one\<close> binds a function of its own, which unbinds by the event before it calls the one it is given; it
  has the same number, so that the given one can be used to unbind it.
\<close>

definition guid_for_one :: "nat \<Rightarrow> nat \<Rightarrow> events_state \<Rightarrow> events_state" where
  "guid_for_one wrapper fn s = (let s' = give_guid fn s in s'\<lparr>guid_of := (guid_of s')(wrapper := guid_of s' fn)\<rparr>)"

definition one :: "bool \<Rightarrow> elem \<Rightarrow> string \<Rightarrow> nat \<Rightarrow> nat \<Rightarrow> string option \<Rightarrow> events_state \<Rightarrow> events_state" where
  "one acc e types wrapper fn sel s = event_add acc e types wrapper sel (guid_for_one wrapper fn s)"

definition off_types :: "handleObj \<Rightarrow> string" where
  "off_types h =
     (let ns = join ''.'' (namespaces h)
      in if ns \<noteq> [] then (case origType h of None \<Rightarrow> ''undefined'' | Some t \<Rightarrow> t) @ ''.'' @ ns
         else (case origType h of None \<Rightarrow> [] | Some t \<Rightarrow> t))"

text \<open>\<open>off(event)\<close>: at the element where the event is dispatched, with type, selector and function of the handler.\<close>

definition off_event :: "nat \<Rightarrow> elem \<Rightarrow> handleObj \<Rightarrow> events_state \<Rightarrow> events_state option" where
  "off_event n e h s = event_remove n e (off_types h) (guid_of s (handler h)) (hselector h) False s"

definition bound :: "events_state \<Rightarrow> elem \<Rightarrow> string \<Rightarrow> handleObj list" where
  "bound s e t = (case map_of (events_of s e) t of None \<Rightarrow> [] | Some hs \<Rightarrow> objs hs)"

text \<open>A handler as \<open>add\<close> makes it, for a type that is a plain word.\<close>

definition obj_ok :: "events_state \<Rightarrow> handleObj \<Rightarrow> bool" where
  "obj_ok s h \<longleftrightarrow> (case origType h of None \<Rightarrow> False | Some t \<Rightarrow> plain_word t \<and> etype h = mapped_type (hselector h) t) \<and>
     guid_of s (handler h) = Some (hguid h) \<and> sorted (namespaces h) \<and> namespaces h \<noteq> [] \<and>
     list_all (list_all (\<lambda>c. \<not> is_space c \<and> c \<noteq> CHR ''.'')) (namespaces h)"

lemma split_join:
  assumes "list_all (list_all (\<lambda>c. c \<noteq> d)) xs" and "xs \<noteq> []"
  shows "split_on d acc (join [d] xs) = (acc @ hd xs) # tl xs"
proof -
  have one: "list_all (\<lambda>c. c \<noteq> d) w \<Longrightarrow> split_on d acc (w @ d # r) = (acc @ w) # split_on d [] r" for w acc r
    by (induction w arbitrary: acc) simp_all
  from assms show ?thesis
  proof (induction xs arbitrary: acc)
    case (Cons x xs)
    show ?case
    proof (cases xs)
      case Nil
      then show ?thesis using Cons.prems plain_split [of x d acc] by (simp add: list_all_iff)
    next
      case (Cons y ys)
      then have "join [d] (x # xs) = x @ d # join [d] xs" by (simp add: join_def)
      then show ?thesis using Cons one [of x acc] Cons.IH [of "[]"] Cons.prems by simp
    qed
  qed simp
qed

lemma join_chars: "c \<in> set (join [d] xs) \<Longrightarrow> c = d \<or> (\<exists>x\<in>set xs. c \<in> set x)"
  by (cases xs) (auto simp: join_def split: if_splits)

lemma join_empty: "xs \<noteq> [] \<Longrightarrow> join [d] xs = [] \<longleftrightarrow> xs = [[]]"
  by (cases xs) (auto simp: join_def)

definition off_namespaces :: "handleObj \<Rightarrow> string list option" where
  "off_namespaces h = (if namespaces h = [[]] then None else Some (namespaces h))"

lemma off_types_parse:
  assumes "obj_ok s h"
  shows "\<exists>t ns. origType h = Some t \<and> t \<noteq> [] \<and> tokens (off_types h) = [off_types h] \<and>
    rtypenamespace (off_types h) = Some (t, ns) \<and> map_option sorted_namespaces ns = off_namespaces h"
proof -
  obtain t where t: "origType h = Some t" "plain_word t" using assms by (auto simp: obj_ok_def split: option.splits)
  have ns: "sorted (namespaces h)" "namespaces h \<noteq> []" and chars: "\<forall>w\<in>set (namespaces h). \<forall>c\<in>set w. \<not> is_space c \<and> c \<noteq> CHR ''.''"
    using assms by (simp_all add: obj_ok_def list_all_iff)
  have "\<not> is_space (CHR ''.'')" by (simp add: is_space_def)
  moreover have "c \<in> set t \<or> c = CHR ''.'' \<or> (\<exists>w\<in>set (namespaces h). c \<in> set w)" if "c \<in> set (off_types h)" for c
  proof -
    have "c \<in> set t \<or> c = CHR ''.'' \<or> c \<in> set (join ''.'' (namespaces h))"
      using that by (cases "join ''.'' (namespaces h) = []") (auto simp: off_types_def t(1) Let_def)
    then show ?thesis by (blast dest: join_chars)
  qed
  ultimately have spaces: "\<forall>c\<in>set (off_types h). \<not> is_space c" using t(2) chars unfolding plain_word_def by metis
  have tw: "takeWhile (\<lambda>c. c \<noteq> CHR ''.'') (t @ w) = t @ takeWhile (\<lambda>c. c \<noteq> CHR ''.'') w"
    "dropWhile (\<lambda>c. c \<noteq> CHR ''.'') (t @ w) = dropWhile (\<lambda>c. c \<noteq> CHR ''.'') w" for w
    using t(2) by (simp_all add: plain_word_def takeWhile_append dropWhile_append)
  show ?thesis
  proof (cases "namespaces h = [[]]")
    case True
    then have "off_types h = t" using t by (simp add: off_types_def)
    then have "rtypenamespace (off_types h) = Some (t, None)" using tw(1) [of "[]"] tw(2) [of "[]"] by (simp only: append_Nil2 rtypenamespace_def Let_def takeWhile.simps dropWhile.simps list.case)
    then show ?thesis using t True one_token [OF spaces] by (simp add: off_namespaces_def plain_word_def)
  next
    case False
    then have ne: "join ''.'' (namespaces h) \<noteq> []" using join_empty [OF ns(2)] by simp
    then obtain c r where cr: "join ''.'' (namespaces h) = c # r" by (cases "join ''.'' (namespaces h)") auto
    have "off_types h = t @ ''.'' @ join ''.'' (namespaces h)" using ne t by (simp add: off_types_def Let_def)
    then have "rtypenamespace (off_types h) = Some (t, Some (join ''.'' (namespaces h)))"
      using tw [of "''.'' @ join ''.'' (namespaces h)"] cr by (simp add: rtypenamespace_def)
    moreover have "split_on CHR ''.'' [] (join ''.'' (namespaces h)) = namespaces h"
      using split_join [of "CHR ''.''" "namespaces h" "[]"] chars ns(2) by (simp add: list_all_iff)
    then have "sorted_namespaces (join ''.'' (namespaces h)) = namespaces h"
      using ns(1) by (simp add: sorted_namespaces_def sorted_sort_id)
    ultimately show ?thesis using t False one_token [OF spaces] by (simp add: off_namespaces_def plain_word_def)
  qed
qed

lemma bound_drop [simp]: "bound (drop_if_empty e s) x t = bound s x t"
  by (simp add: bound_def)

lemma bound_remove_type:
  assumes "events_ok s" and m: "mapped_type sel orig = t"
  shows "bound (remove_type e g sel mapped orig ns s) e u =
    (if u = t then filter (\<lambda>h. \<not> removes mapped orig g (map_option sorted_namespaces ns) sel h) (bound s e u) else bound s e u)"
proof (cases "map_of (events_of s e) t")
  case None
  then show ?thesis by (simp add: remove_type_def m bound_def)
next
  case (Some hs)
  then show ?thesis
    by (auto simp: remove_type_def m bound_def remove_down_all keep_def Let_def AList.update_conv' AList.delete_conv')
qed


definition twice_bound :: events_state where
  "twice_bound = one True 3 ''click.menu'' 12 11 None (event_add True 3 ''click.menu'' 11 None sample_events)"

lemma twice_bound_ok: "events_ok twice_bound"
proof -
  have good: "list_all (good_token ''menu'') (tokens ''click.menu'')" by code_simp
  have "events_ok (s\<lparr>guid_of := g\<rparr>) = events_ok s" for s g
    by (simp add: events_ok_def listeners_ok_def keys_def events_of_def)
  then have "events_ok (guid_for_one 12 11 s) = events_ok s" for s by (simp add: guid_for_one_def Let_def)
  then show ?thesis using event_add_ok [OF good] sample_events_ok by (simp add: twice_bound_def one_def)
qed


end
