(* ===== verification/UiDate.thy ===== *)
theory UiDate
  imports Prelude
begin

text \<open>
  The dates of JavaScript as far as \<open>datepicker.js\<close> uses them, and its functions on dates. A date stands
  for a day: the number of days since 1 January 1970 in the local calendar. The code makes dates with
  \<open>new Date(y, m, d)\<close> at midnight, and \<open>_daylightSavingAdjust\<close> repairs the hours, not the day, where a
  day has no midnight; so differences of times are, after rounding, differences of days.
\<close>

type_synonym date = int

section \<open>Dates of the language\<close>

definition leap :: "int \<Rightarrow> bool" where
  "leap y \<longleftrightarrow> y mod 4 = 0 \<and> (y mod 100 \<noteq> 0 \<or> y mod 400 = 0)"

definition day_from_year :: "int \<Rightarrow> int" where
  "day_from_year y = 365 * (y - 1970) + (y - 1969) div 4 - (y - 1901) div 100 + (y - 1601) div 400"

definition month_length :: "int \<Rightarrow> nat \<Rightarrow> int" where
  "month_length y m = (if m = 1 then (if leap y then 29 else 28) else if m \<in> {3, 5, 8, 10} then 30 else 31)"

definition before_month :: "int \<Rightarrow> nat \<Rightarrow> int" where
  "before_month y m = sum_list (map (month_length y) [0..<m])"

text \<open>Months and days out of range carry over.\<close>

definition make_day :: "int \<Rightarrow> int \<Rightarrow> int \<Rightarrow> date" where
  "make_day y m d = (let y' = y + m div 12 in day_from_year y' + before_month y' (nat (m mod 12)) + d - 1)"

text \<open>\<open>new Date(y, m, d)\<close> takes years below 100 for years of the twentieth century.\<close>

definition new_date :: "int \<Rightarrow> int \<Rightarrow> int \<Rightarrow> date" where
  "new_date y m d = make_day (if 0 \<le> y \<and> y \<le> 99 then 1900 + y else y) m d"

text \<open>The year of a day is the one that begins last before it; the search starts near by.\<close>

lemma div_step: "0 < n \<Longrightarrow> (x + 1) div n = x div n + (if (x + 1) mod n = 0 then 1 else (0 :: int))"
proof (cases "x mod n + 1 = n")
  case True
  assume n: "0 < n"
  have "x + 1 = n * (x div n + 1) + 0" using True mult_div_mod_eq [of n x] unfolding distrib_left by linarith
  then show ?thesis using int_div_pos_eq [of "x + 1" n "x div n + 1" 0] int_mod_pos_eq [of "x + 1" n "x div n + 1" 0] n by simp
next
  case False
  assume n: "0 < n"
  have "x + 1 = n * (x div n) + (x mod n + 1)" using mult_div_mod_eq [of n x] by linarith
  note e = this
  have r: "0 \<le> x mod n + 1" "x mod n + 1 < n" "x mod n + 1 \<noteq> 0"
    using n False pos_mod_bound [of n x] pos_mod_sign [of n x] by linarith+
  show ?thesis using int_div_pos_eq [OF e r(1,2)] int_mod_pos_eq [OF e r(1,2)] r(3) by (simp only: if_False)
qed

lemma year_length: "day_from_year (y + 1) = day_from_year y + (if leap y then 366 else 365)"
proof -
  have shift: "(y - a) div n = (y - (a + 1)) div n + (if y mod n = 0 then 1 else 0)" if "0 < n" "a = n * k" for a n k :: int
  proof -
    have "y - (a + 1) + 1 = y + n * (- k)" using that(2) by simp
    moreover have "y - a = y - (a + 1) + 1" by simp
    moreover have "(y + n * (- k)) mod n = y mod n" by (rule mod_mult_self2)
    ultimately show ?thesis using div_step [OF that(1), of "y - (a + 1)"] by (simp only:)
  qed
  have d: "(y - 1968) div 4 = (y - 1969) div 4 + (if y mod 4 = 0 then 1 else 0)"
    "(y - 1900) div 100 = (y - 1901) div 100 + (if y mod 100 = 0 then 1 else 0)"
    "(y - 1600) div 400 = (y - 1601) div 400 + (if y mod 400 = 0 then 1 else 0)"
    using shift [of 4 1968 492] shift [of 100 1900 19] shift [of 400 1600 4] by (simp_all only: arith_simps)
  have m: "y mod 400 mod 100 = y mod 100" "y mod 100 mod 4 = y mod 4" by (rule mod_mod_cancel, simp)+
  have imp: "y mod 400 = 0 \<Longrightarrow> y mod 100 = 0" "y mod 100 = 0 \<Longrightarrow> y mod 4 = 0"
    unfolding m [symmetric] by (simp_all only: mod_0)
  have e: "y + 1 - 1970 = y - 1970 + 1" "y + 1 - 1969 = y - 1968" "y + 1 - 1901 = y - 1900" "y + 1 - 1601 = y - 1600" by linarith+
  define i j k :: int where "i = (if y mod 4 = 0 then 1 else 0)" and "j = (if y mod 100 = 0 then 1 else 0)"
    and "k = (if y mod 400 = 0 then 1 else 0)"
  have "(r \<Longrightarrow> q) \<Longrightarrow> (q \<Longrightarrow> p) \<Longrightarrow> (if p \<and> (\<not> q \<or> r) then 366 else 365) =
      365 + (if p then 1 else 0) - (if q then 1 else 0) + (if r then 1 else (0 :: int))" for p q r
    by (cases p; cases q; cases r) simp_all
  from this [OF imp] have "(if leap y then 366 else 365) = 365 + i - j + k" unfolding leap_def i_def j_def k_def .
  moreover have "365 * (x + 1) + (a + i) - (b + j) + (c + k) = 365 * x + a - b + c + (365 + i - j + k)" for x a b c :: int
    by simp
  ultimately show ?thesis unfolding day_from_year_def e d i_def [symmetric] j_def [symmetric] k_def [symmetric] by (simp only:)
qed

lemma year_grows: "365 \<le> day_from_year (y + 1) - day_from_year y \<and> day_from_year (y + 1) - day_from_year y \<le> 366"
  by (simp add: year_length)

function year_search :: "int \<Rightarrow> date \<Rightarrow> int" where
  "year_search y t =
     (if day_from_year (y + 1) \<le> t then year_search (y + 1) t
      else if t < day_from_year y then year_search (y - 1) t else y)"
  by auto
termination
proof (relation "measure (\<lambda>(y, t). nat (if day_from_year y \<le> t then t - day_from_year y else day_from_year y - t + 400))", goal_cases)
  case (2 y t)
  then show ?case using year_grows [of y] by auto
next
  case (3 y t)
  then show ?case using year_grows [of "y - 1"] by auto
qed simp

declare year_search.simps [simp del]

definition getFullYear :: "date \<Rightarrow> int" where
  "getFullYear t = year_search (1970 + t div 366) t"

definition year_day :: "date \<Rightarrow> int" where
  "year_day t = t - day_from_year (getFullYear t)"

definition getMonth :: "date \<Rightarrow> nat" where
  "getMonth t = length (filter (\<lambda>m. before_month (getFullYear t) m \<le> year_day t) [1..<12])"

definition getDate :: "date \<Rightarrow> int" where
  "getDate t = year_day t - before_month (getFullYear t) (getMonth t) + 1"

definition getDay :: "date \<Rightarrow> nat" where
  "getDay t = nat ((t + 4) mod 7)"

text \<open>\<open>setDate\<close> and \<open>setMonth\<close> make the date anew from its other parts.\<close>

definition setDate :: "int \<Rightarrow> date \<Rightarrow> date" where
  "setDate d t = make_day (getFullYear t) (int (getMonth t)) d"

definition setMonth :: "int \<Rightarrow> date \<Rightarrow> date" where
  "setMonth m t = make_day (getFullYear t) m (getDate t)"

section \<open>Calendar lemmas\<close>

lemma year_search_bounds: "day_from_year (year_search y t) \<le> t \<and> t < day_from_year (year_search y t + 1)"
proof (induction y t rule: year_search.induct)
  case (1 y t)
  then show ?case by (subst (1 2) year_search.simps) auto
qed

lemma year_mono: "x \<le> y \<Longrightarrow> day_from_year x \<le> day_from_year y"
proof (induction "nat (y - x)" arbitrary: y)
  case (Suc n)
  then have "day_from_year x \<le> day_from_year (y - 1)" by (intro Suc.hyps(1)) auto
  then show ?case using year_grows [of "y - 1"] by simp
qed simp

lemma year_unique:
  assumes "day_from_year y \<le> t" and "t < day_from_year (y + 1)"
  shows "getFullYear t = y"
proof -
  let ?z = "getFullYear t"
  have z: "day_from_year ?z \<le> t" "t < day_from_year (?z + 1)"
    using year_search_bounds by (simp_all add: getFullYear_def)
  have "\<not> ?z + 1 \<le> y" using z(2) assms(1) year_mono [of "?z + 1" y] by linarith
  moreover have "\<not> y + 1 \<le> ?z" using z(1) assms(2) year_mono [of "y + 1" ?z] by linarith
  ultimately show ?thesis by linarith
qed

lemma year_day_bounds: "0 \<le> year_day t \<and> year_day t < (if leap (getFullYear t) then 366 else 365)"
  using year_search_bounds [of "1970 + t div 366" t] by (simp add: year_day_def getFullYear_def year_length)

lemma month_length_bounds: "28 \<le> month_length y m \<and> month_length y m \<le> 31"
  by (simp add: month_length_def)

lemma before_month_Suc: "before_month y (Suc m) = before_month y m + month_length y m"
  by (simp add: before_month_def)

lemma before_month_0 [simp]: "before_month y 0 = 0"
  by (simp add: before_month_def)

lemma before_month_12: "before_month y 12 = (if leap y then 366 else 365)"
  by (simp add: before_month_def month_length_def upt_rec numeral_eq_Suc)

lemma before_month_mono: "m \<le> n \<Longrightarrow> before_month y m \<le> before_month y n"
proof (induction n)
  case (Suc n)
  then show ?case using month_length_bounds [of y n] by (cases "m = Suc n") (auto simp: before_month_Suc)
qed simp

lemma count_months:
  assumes "m < 12" and "before_month y m \<le> k" and "k < before_month y (Suc m)"
  shows "length (filter (\<lambda>j. before_month y j \<le> k) [1..<12]) = m"
proof -
  have "[1..<12] = [1..<Suc m] @ [Suc m..<12]" using assms(1) upt_add_eq_append [of 1 "Suc m" "12 - Suc m"] by simp
  moreover have "before_month y j \<le> k" if "j \<le> m" for j using before_month_mono [OF that, of y] assms(2) by simp
  then have "filter (\<lambda>j. before_month y j \<le> k) [1..<Suc m] = [1..<Suc m]" by (intro filter_True) auto
  moreover have "k < before_month y j" if "Suc m \<le> j" for j using before_month_mono [OF that, of y] assms(3) by simp
  then have "filter (\<lambda>j. before_month y j \<le> k) [Suc m..<12] = []" by (intro filter_False) (auto simp: not_le)
  ultimately show ?thesis by simp
qed

text \<open>The parts of a proper date are those it is made of.\<close>

definition proper :: "int \<Rightarrow> nat \<Rightarrow> int \<Rightarrow> bool" where
  "proper y m d \<longleftrightarrow> m < 12 \<and> 1 \<le> d \<and> d \<le> month_length y m"

lemma make_day_parts:
  assumes "proper y m d"
  shows "getFullYear (make_day y (int m) d) = y \<and> getMonth (make_day y (int m) d) = m \<and> getDate (make_day y (int m) d) = d"
proof -
  have m: "m < 12" "1 \<le> d" "d \<le> month_length y m" using assms by (simp_all add: proper_def)
  have t: "make_day y (int m) d = day_from_year y + before_month y m + d - 1"
    using m(1) by (simp add: make_day_def Let_def)
  have "before_month y m + d - 1 < before_month y 12"
    using before_month_mono [of "Suc m" 12 y] m by (simp add: before_month_Suc)
  moreover have "0 \<le> before_month y m" using before_month_mono [of 0 m y] by simp
  ultimately have y: "getFullYear (make_day y (int m) d) = y"
    using m by (intro year_unique) (simp_all add: t year_length before_month_12)
  have "length (filter (\<lambda>j. before_month y j \<le> before_month y m + d - 1) [1..<12]) = m"
    using m by (intro count_months) (simp_all add: before_month_Suc)
  moreover have "year_day (make_day y (int m) d) = before_month y m + d - 1" unfolding year_day_def y by (simp add: t)
  ultimately have "getMonth (make_day y (int m) d) = m \<and> getDate (make_day y (int m) d) = d"
    unfolding getDate_def getMonth_def y by simp
  then show ?thesis using y by simp
qed

lemma date_parts_proper: "proper (getFullYear t) (getMonth t) (getDate t)"
proof -
  let ?y = "getFullYear t" and ?k = "year_day t"
  have k: "0 \<le> ?k" "?k < before_month ?y 12" using year_day_bounds [of t] by (simp_all add: before_month_12)
  define m where "m = (GREATEST m. m < 12 \<and> before_month ?y m \<le> ?k)"
  have "(0::nat) < 12 \<and> before_month ?y 0 \<le> ?k" using k(1) by simp
  then have m: "m < 12 \<and> before_month ?y m \<le> ?k" unfolding m_def by (rule GreatestI_nat [where b = 12]) simp
  have "\<not> (Suc m < 12 \<and> before_month ?y (Suc m) \<le> ?k)"
    using Greatest_le_nat [of "\<lambda>m. m < 12 \<and> before_month ?y m \<le> ?k" "Suc m" 12] unfolding m_def by fastforce
  then have "Suc m < 12 \<Longrightarrow> ?k < before_month ?y (Suc m)" by simp
  moreover have "\<not> Suc m < 12 \<Longrightarrow> Suc m = 12" using m by simp
  ultimately have next': "?k < before_month ?y (Suc m)" using k(2) by (cases "Suc m < 12") simp_all
  have "getMonth t = m" unfolding getMonth_def using m next' by (intro count_months) simp_all
  then show ?thesis using m next' by (simp add: proper_def getDate_def before_month_Suc)
qed

lemma make_day_of_parts: "make_day (getFullYear t) (int (getMonth t)) (getDate t) = t"
  using date_parts_proper [of t] by (simp add: make_day_def proper_def getDate_def year_day_def Let_def)

lemma make_day_add: "make_day y m (d + k) = make_day y m d + k"
  by (simp add: make_day_def Let_def)

lemma make_day_carry: "make_day y (m + 12 * k) d = make_day (y + k) m d"
  by (simp add: make_day_def Let_def div_add1_eq algebra_simps)

lemma parts_inj: "getFullYear s = getFullYear t \<Longrightarrow> getMonth s = getMonth t \<Longrightarrow> getDate s = getDate t \<Longrightarrow> s = t"
  by (metis make_day_of_parts)

section \<open>The functions of the datepicker\<close>

definition noWeekends :: "date \<Rightarrow> bool" where
  "noWeekends t \<longleftrightarrow> 0 < getDay t \<and> getDay t < 6"

definition iso8601Week :: "date \<Rightarrow> int" where
  "iso8601Week t =
     (let thursday = setDate (getDate t + 4 - int (if getDay t = 0 then 7 else getDay t)) t;
          jan1 = setDate 1 (setMonth 0 thursday)
      in (thursday - jan1) div 7 + 1)"

definition getDaysInMonth :: "int \<Rightarrow> int \<Rightarrow> int" where
  "getDaysInMonth y m = 32 - getDate (new_date y m 32)"

definition getFirstDayOfMonth :: "int \<Rightarrow> int \<Rightarrow> nat" where
  "getFirstDayOfMonth y m = getDay (new_date y m 1)"

lemma setDate_eq: "setDate d t = t + d - getDate t"
  using make_day_add [of "getFullYear t" "int (getMonth t)" "getDate t" "d - getDate t"] make_day_of_parts [of t]
  by (simp add: setDate_def)

lemma jan1: "setDate 1 (setMonth 0 t) = day_from_year (getFullYear t)"
proof -
  have "1 \<le> getDate t \<and> getDate t \<le> 31"
    using date_parts_proper [of t] month_length_bounds [of "getFullYear t" "getMonth t"] by (simp add: proper_def)
  then have "proper (getFullYear t) 0 (getDate t)" by (simp add: proper_def month_length_def)
  note parts = make_day_parts [OF this]
  show ?thesis using parts by (simp add: setDate_def setMonth_def) (simp add: make_day_def)
qed

lemma mod_room: "0 \<le> r \<Longrightarrow> r < 12 \<Longrightarrow> r \<noteq> 11 \<Longrightarrow> 0 \<le> r + 1" "0 \<le> r \<Longrightarrow> r < 12 \<Longrightarrow> r \<noteq> 11 \<Longrightarrow> r + 1 < 12" for r :: int
  by simp_all

lemma month_step:
  "(m + 1) mod 12 = (if m mod 12 = 11 then 0 else m mod 12 + 1) \<and>
   (m + 1) div 12 = m div 12 + (if m mod 12 = 11 then 1 else (0 :: int))"
proof (cases "m mod 12 = 11")
  case True
  have e: "m + 1 = 12 * (m div 12 + 1) + 0" using mult_div_mod_eq [of 12 m] unfolding True distrib_left by simp
  have z: "(0 :: int) \<le> 0" "(0 :: int) < 12" by simp_all
  show ?thesis unfolding int_div_pos_eq [OF e z] int_mod_pos_eq [OF e z] if_P [OF True] by blast
next
  case False
  have e: "m + 1 = 12 * (m div 12) + (m mod 12 + 1)" using mult_div_mod_eq [of 12 m] by (simp only: add.assoc [symmetric])
  have "0 \<le> m mod 12" "m mod 12 < 12" by (rule pos_mod_sign, simp, rule pos_mod_bound, simp)
  then have z: "0 \<le> m mod 12 + 1" "m mod 12 + 1 < 12" using False by (rule mod_room)+
  show ?thesis unfolding int_div_pos_eq [OF e z] int_mod_pos_eq [OF e z] if_not_P [OF False] by simp
qed

lemma next_month: "make_day y m (month_length (y + m div 12) (nat (m mod 12)) + d) = make_day y (m + 1) d"
proof -
  define q r where "q = m div 12" and "r = m mod 12"
  have r: "0 \<le> r" "r < 12" unfolding r_def by simp_all
  have step: "(m + 1) mod 12 = (if r = 11 then 0 else r + 1)" "(m + 1) div 12 = q + (if r = 11 then 1 else 0)"
    using month_step unfolding q_def r_def by blast+
  show ?thesis
  proof (cases "r = 11")
    case True
    have "before_month x 11 + month_length x 11 = (if leap x then 366 else 365)" for x
      using before_month_Suc [of x 11] by (simp add: before_month_12)
    then show ?thesis using year_length [of "y + q"] True
      unfolding make_day_def Let_def step q_def [symmetric] r_def [symmetric] by (simp add: add.assoc)
  next
    case False
    then have "nat (r + 1) = Suc (nat r)" using r by simp
    then show ?thesis using False
      unfolding make_day_def Let_def step q_def [symmetric] r_def [symmetric] by (simp add: before_month_Suc)
  qed
qed

lemma make_day_norm: "make_day y m d = make_day (y + m div 12) (int (nat (m mod 12))) d"
  by (simp add: make_day_def Let_def)

text \<open>The day of the month that a short overflow leads to gives the length of the month.\<close>

lemma getDaysInMonth_eq:
  "getDaysInMonth y m = month_length ((if 0 \<le> y \<and> y \<le> 99 then 1900 + y else y) + m div 12) (nat (m mod 12))"
proof -
  define x q r where "x = (if 0 \<le> y \<and> y \<le> 99 then 1900 + y else y)" and "q = (m + 1) div 12" and "r = nat ((m + 1) mod 12)"
  define l where "l = month_length (x + m div 12) (nat (m mod 12))"
  have l: "28 \<le> l" "l \<le> 31" unfolding l_def using month_length_bounds by blast+
  have "new_date y m 32 = make_day x (m + 1) (32 - l)"
    using next_month [of x m "32 - l"] unfolding l_def [symmetric] new_date_def x_def [symmetric] by simp
  also have "\<dots> = make_day (x + q) (int r) (32 - l)" unfolding q_def r_def by (rule make_day_norm)
  finally have eq: "new_date y m 32 = make_day (x + q) (int r) (32 - l)" .
  have "(m + 1) mod 12 < 12" by simp
  then have "r < 12" unfolding r_def by (simp only: nat_less_iff pos_mod_sign zero_less_numeral of_nat_numeral)
  then have "proper (x + q) r (32 - l)" using l month_length_bounds [of "x + q" r] by (simp add: proper_def)
  then have "getDate (new_date y m 32) = 32 - l" unfolding eq using make_day_parts by blast
  then show ?thesis unfolding getDaysInMonth_def l_def x_def by simp
qed

section \<open>The number of a week\<close>

text \<open>By ISO 8601 a week begins on Monday, and the first week of a year is the one with 4 January.\<close>

definition monday :: "date \<Rightarrow> date" where
  "monday t = t - (t + 3) mod 7"

definition first_week :: "int \<Rightarrow> date" where
  "first_week y = monday (make_day y 0 4)"

lemma thursday: "setDate (getDate t + 4 - int (if getDay t = 0 then 7 else getDay t)) t = monday t + 3"
proof -
  have "int (if getDay t = 0 then 7 else getDay t) = (t + 3) mod 7 + 1" unfolding getDay_def by (auto; presburger)
  then show ?thesis by (simp add: setDate_eq monday_def)
qed

lemma whole_weeks: "0 \<le> (r :: int) \<Longrightarrow> r \<le> 6 \<Longrightarrow> (k - 6 + r) mod 7 = 0 \<Longrightarrow> k - 6 + r = 7 * (k div 7)"
  by presburger

lemma week_bounds:
  fixes f g m t w :: int
  assumes "m + 7 \<le> g" and "f + 7 * (w - 1) = m" and "m \<le> t" and "t < m + 7" and "0 \<le> w - 1"
  shows "f \<le> t \<and> t < g \<and> f + 7 * (w - 1) \<le> t \<and> t < f + 7 * w"
  using assms by (simp add: right_diff_distrib)

text \<open>C29: \<open>iso8601Week\<close> is the number of the week, counted from the first week of the year that the week belongs to.\<close>

theorem iso_week:
  "\<exists>y. first_week y \<le> t \<and> t < first_week (y + 1) \<and>
     first_week y + 7 * (iso8601Week t - 1) \<le> t \<and> t < first_week y + 7 * iso8601Week t"
proof (intro exI)
  let ?thu = "monday t + 3"
  let ?y = "getFullYear ?thu"
  define k where "k = ?thu - day_from_year ?y"
  have thu: "day_from_year ?y \<le> ?thu" "?thu < day_from_year (?y + 1)"
    using year_search_bounds by (simp_all add: getFullYear_def)
  have week: "iso8601Week t = k div 7 + 1" by (simp add: iso8601Week_def thursday jan1 Let_def k_def)
  have first: "first_week y = day_from_year y + 3 - (day_from_year y + 6) mod 7" for y
    by (simp add: first_week_def monday_def make_day_def add.commute)
  define r where "r = (day_from_year ?y + 6) mod 7"
  have r: "0 \<le> r" "r \<le> 6" unfolding r_def by simp_all
  have "(k - 6 + r) mod 7 = 0" unfolding k_def r_def monday_def by presburger
  from whole_weeks [OF r this] have d: "k - 6 + r = 7 * (k div 7)" .
  have here: "monday t \<le> t" "t < monday t + 7" unfolding monday_def by presburger+
  have start: "first_week ?y + 7 * (iso8601Week t - 1) = monday t"
    using d by (simp add: first r_def [symmetric] week k_def)
  have "0 \<le> k div 7" using thu(1) by (simp add: k_def pos_imp_zdiv_nonneg_iff)
  then have pos: "0 \<le> iso8601Week t - 1" by (simp add: week)
  define z where "z = day_from_year (?y + 1)"
  have "monday t + 3 < z" using thu(2) by (simp add: z_def)
  moreover have "(monday t + 3) mod 7 = 0" unfolding monday_def by presburger
  ultimately have "monday t + 7 \<le> z + 3 - (z + 6) mod 7" by presburger
  then have "monday t + 7 \<le> first_week (?y + 1)" by (simp add: first z_def)
  then show "first_week ?y \<le> t \<and> t < first_week (?y + 1) \<and>
      first_week ?y + 7 * (iso8601Week t - 1) \<le> t \<and> t < first_week ?y + 7 * iso8601Week t"
    using start here pos by (rule week_bounds)
qed

end
