(* ===== verification/UiDateFormat.thy ===== *)
theory UiDateFormat
  imports UiDate "HOL-Library.Sublist"
begin

text \<open>
  \<open>formatDate\<close>, \<open>parseDate\<close> and \<open>_possibleChars\<close> of \<open>datepicker.js\<close>: each is a loop over the characters
  of a format. The loops are written as in the code; that they treat a format as the same sequence of
  parts, and that parsing a formatted date gives the date back, is shown below them.
\<close>

section \<open>Settings\<close>

text \<open>
  \<open>shortYearCutoff\<close> is a number, or a text that is added to the current year. A setting that is
  missing, or \<open>0\<close>, gives way to the default.
\<close>

datatype cutoff = Absolute int | Relative int

record date_settings =
  shortYearCutoff :: "cutoff option"
  dayNamesShort :: "string list option"
  dayNames :: "string list option"
  monthNamesShort :: "string list option"
  monthNames :: "string list option"

definition no_settings :: date_settings where
  "no_settings = \<lparr>shortYearCutoff = None, dayNamesShort = None, dayNames = None, monthNamesShort = None, monthNames = None\<rparr>"

definition default_dayNamesShort :: "string list" where
  "default_dayNamesShort = [''Sun'', ''Mon'', ''Tue'', ''Wed'', ''Thu'', ''Fri'', ''Sat'']"

definition default_dayNames :: "string list" where
  "default_dayNames = [''Sunday'', ''Monday'', ''Tuesday'', ''Wednesday'', ''Thursday'', ''Friday'', ''Saturday'']"

definition default_monthNamesShort :: "string list" where
  "default_monthNamesShort = [''Jan'', ''Feb'', ''Mar'', ''Apr'', ''May'', ''Jun'', ''Jul'', ''Aug'', ''Sep'', ''Oct'', ''Nov'', ''Dec'']"

definition default_monthNames :: "string list" where
  "default_monthNames = [''January'', ''February'', ''March'', ''April'', ''May'', ''June'', ''July'', ''August'',
     ''September'', ''October'', ''November'', ''December'']"

definition setting :: "'a option \<Rightarrow> 'a \<Rightarrow> 'a" where
  "setting x d = (case x of None \<Rightarrow> d | Some v \<Rightarrow> v)"

definition day_names :: "date_settings \<Rightarrow> bool \<Rightarrow> string list" where
  "day_names st long = (if long then setting (dayNames st) default_dayNames else setting (dayNamesShort st) default_dayNamesShort)"

definition month_names :: "date_settings \<Rightarrow> bool \<Rightarrow> string list" where
  "month_names st long = (if long then setting (monthNames st) default_monthNames else setting (monthNamesShort st) default_monthNamesShort)"

definition cutoff_value :: "int \<Rightarrow> date_settings \<Rightarrow> int" where
  "cutoff_value now st =
     (case (case shortYearCutoff st of None \<Rightarrow> Relative 10 | Some c \<Rightarrow> if c = Absolute 0 then Relative 10 else c) of
        Absolute n \<Rightarrow> n | Relative n \<Rightarrow> now mod 100 + n)"

text \<open>
  The time zone: the time in milliseconds at the beginning of a day, and the day of a time, which
  there is none of for times that are out of range.
\<close>

record zone =
  time_of :: "date \<Rightarrow> int"
  day_of :: "int \<Rightarrow> date option"

definition ticksTo1970 :: int where
  "ticksTo1970 = ((1970 - 1) * 365 + 1970 div 4 - 1970 div 100 + 1970 div 400) * 24 * 60 * 60 * 10000000"

section \<open>formatDate\<close>

text \<open>\<open>lookAhead\<close>: whether the next character is \<open>c\<close>, too, and the format behind it.\<close>

definition doubled :: "char \<Rightarrow> string \<Rightarrow> bool" where
  "doubled c f \<longleftrightarrow> (case f of [] \<Rightarrow> False | c' # _ \<Rightarrow> c' = c)"

definition behind :: "char \<Rightarrow> string \<Rightarrow> string" where
  "behind c f = (if doubled c f then tl f else f)"

lemma behind_length [termination_simp]: "length (behind c f) < Suc (length f)"
  by (auto simp: behind_def less_Suc_eq_le)

definition formatNumber :: "bool \<Rightarrow> int \<Rightarrow> nat \<Rightarrow> string" where
  "formatNumber dbl v len =
     (let num = string_of_int v in if dbl then replicate (len - length num) CHR ''0'' @ num else num)"

definition formatName :: "string list \<Rightarrow> nat \<Rightarrow> string" where
  "formatName names i = (if i < length names then names ! i else ''undefined'')"

definition day_of_year :: "date \<Rightarrow> int" where
  "day_of_year t = new_date (getFullYear t) (int (getMonth t)) (getDate t) - new_date (getFullYear t) 0 0"

text \<open>The remainder of the language has the sign of the dividend.\<close>

definition js_rem :: "int \<Rightarrow> int \<Rightarrow> int" where
  "js_rem a b = (if 0 \<le> a then a mod b else - ((- a) mod b))"

definition short_year :: "date \<Rightarrow> string" where
  "short_year t = (let y = js_rem (getFullYear t - 1900) 100 in (if y < 10 then ''0'' else []) @ string_of_int y)"

fun format_loop :: "date_settings \<Rightarrow> zone \<Rightarrow> date \<Rightarrow> bool \<Rightarrow> string \<Rightarrow> string" where
  "format_loop st z t literal [] = []"
| "format_loop st z t literal (c # f) =
     (if literal
      then if c = CHR 0x27
           then if doubled c f then c # format_loop st z t True (behind c f) else format_loop st z t False f
           else c # format_loop st z t True f
      else if c = CHR ''d'' then formatNumber (doubled c f) (getDate t) 2 @ format_loop st z t False (behind c f)
      else if c = CHR ''D'' then formatName (day_names st (doubled c f)) (getDay t) @ format_loop st z t False (behind c f)
      else if c = CHR ''o'' then formatNumber (doubled c f) (day_of_year t) 3 @ format_loop st z t False (behind c f)
      else if c = CHR ''m'' then formatNumber (doubled c f) (int (getMonth t) + 1) 2 @ format_loop st z t False (behind c f)
      else if c = CHR ''M'' then formatName (month_names st (doubled c f)) (getMonth t) @ format_loop st z t False (behind c f)
      else if c = CHR ''y''
      then (if doubled c f then string_of_int (getFullYear t) else short_year t) @ format_loop st z t False (behind c f)
      else if c = CHR ''@'' then string_of_int (time_of z t) @ format_loop st z t False f
      else if c = CHR ''!'' then string_of_int (time_of z t * 10000 + ticksTo1970) @ format_loop st z t False f
      else if c = CHR 0x27
      then if doubled c f then c # format_loop st z t False (behind c f) else format_loop st z t True f
      else c # format_loop st z t False f)"

definition formatDate :: "string \<Rightarrow> date option \<Rightarrow> date_settings \<Rightarrow> zone \<Rightarrow> string" where
  "formatDate format t st z = (case t of None \<Rightarrow> [] | Some t' \<Rightarrow> format_loop st z t' False format)"

section \<open>parseDate\<close>

datatype parse_error =
    Invalid_arguments
  | Missing_number nat
  | Unknown_name nat
  | Unexpected_literal nat
  | Extra_characters string
  | Invalid_date

text \<open>
  What has been read, at which position, and what is left of the value. A part of an invalid date is
  \<open>NaN\<close>, which is \<open>None\<close>; \<open>-1\<close> stands for a part that does not occur.
\<close>

record parsed =
  year :: "int option"
  month :: "int option"
  day :: "int option"
  doy :: int
  iValue :: nat
  rest :: string

definition nat_of_digits :: "string \<Rightarrow> nat" where
  "nat_of_digits = foldl (\<lambda>n c. 10 * n + (of_char c - 48)) 0"

definition number_size :: "char \<Rightarrow> bool \<Rightarrow> nat" where
  "number_size c dbl =
     (if c = CHR ''@'' then 14 else if c = CHR ''!'' then 20 else if c = CHR ''y'' \<and> dbl then 4 else if c = CHR ''o'' then 3 else 2)"

definition getNumber :: "char \<Rightarrow> bool \<Rightarrow> parsed \<Rightarrow> parse_error + int \<times> parsed" where
  "getNumber c dbl p =
     (let num = take (number_size c dbl) (takeWhile is_digit (rest p))
      in if num = [] then Inl (Missing_number (iValue p))
         else Inr (int (nat_of_digits num), p\<lparr>iValue := iValue p + length num, rest := drop (length num) (rest p)\<rparr>))"

text \<open>The longest name that the value begins with, in either case.\<close>

definition getName :: "string list \<Rightarrow> parsed \<Rightarrow> parse_error + int \<times> parsed" where
  "getName names p =
     (case find (\<lambda>(k, n). map lower_char (take (length n) (rest p)) = map lower_char n)
        (sort_key (\<lambda>(k, n). - int (length n)) (enumerate 0 names)) of
        None \<Rightarrow> Inl (Unknown_name (iValue p))
      | Some (k, n) \<Rightarrow> Inr (int k + 1, p\<lparr>iValue := iValue p + length n, rest := drop (length n) (rest p)\<rparr>))"

definition checkLiteral :: "char \<Rightarrow> parsed \<Rightarrow> parse_error + parsed" where
  "checkLiteral c p =
     (case rest p of
        [] \<Rightarrow> Inl (Unexpected_literal (iValue p))
      | c' # r \<Rightarrow> if c' \<noteq> c then Inl (Unexpected_literal (iValue p)) else Inr (p\<lparr>iValue := iValue p + 1, rest := r\<rparr>))"

definition set_date :: "date option \<Rightarrow> parsed \<Rightarrow> parsed" where
  "set_date t p =
     p\<lparr>year := map_option getFullYear t, month := map_option (\<lambda>t. int (getMonth t) + 1) t, day := map_option getDate t\<rparr>"

text \<open>The time of a date is cut to whole milliseconds, towards zero.\<close>

definition ms_of_ticks :: "int \<Rightarrow> int" where
  "ms_of_ticks n = (let x = n - ticksTo1970 in if 0 \<le> x then x div 10000 else - ((- x) div 10000))"

fun parse_loop :: "date_settings \<Rightarrow> zone \<Rightarrow> bool \<Rightarrow> string \<Rightarrow> parsed \<Rightarrow> parse_error + parsed" where
  "parse_loop st z literal [] p = Inr p"
| "parse_loop st z literal (c # f) p =
     (if literal
      then if c = CHR 0x27 \<and> \<not> doubled c f then parse_loop st z False f p
           else case checkLiteral c p of Inl e \<Rightarrow> Inl e | Inr p' \<Rightarrow> parse_loop st z True (if c = CHR 0x27 then behind c f else f) p'
      else if c \<in> {CHR ''d'', CHR ''o'', CHR ''m'', CHR ''y'', CHR ''@'', CHR ''!''}
      then case getNumber c (doubled c f) p of
             Inl e \<Rightarrow> Inl e
           | Inr (n, p') \<Rightarrow> parse_loop st z False (behind c f)
               (if c = CHR ''d'' then p'\<lparr>day := Some n\<rparr> else if c = CHR ''o'' then p'\<lparr>doy := n\<rparr>
                else if c = CHR ''m'' then p'\<lparr>month := Some n\<rparr> else if c = CHR ''y'' then p'\<lparr>year := Some n\<rparr>
                else if c = CHR ''@'' then set_date (day_of z n) p' else set_date (day_of z (ms_of_ticks n)) p')
      else if c = CHR ''D''
      then case getName (day_names st (doubled c f)) p of Inl e \<Rightarrow> Inl e | Inr (n, p') \<Rightarrow> parse_loop st z False (behind c f) p'
      else if c = CHR ''M''
      then case getName (month_names st (doubled c f)) p of
             Inl e \<Rightarrow> Inl e | Inr (n, p') \<Rightarrow> parse_loop st z False (behind c f) (p'\<lparr>month := Some n\<rparr>)
      else if c = CHR 0x27 \<and> \<not> doubled c f then parse_loop st z True f p
      else case checkLiteral c p of Inl e \<Rightarrow> Inl e | Inr p' \<Rightarrow> parse_loop st z False (if c = CHR 0x27 then behind c f else f) p')"

definition full_year :: "int \<Rightarrow> date_settings \<Rightarrow> int \<Rightarrow> int" where
  "full_year now st y =
     (if y = -1 then now else if y < 100 then y + now - js_rem now 100 + (if y \<le> cutoff_value now st then 0 else -100) else y)"

text \<open>The day of the year is counted down month by month.\<close>

lemma days_in_month_pos: "28 \<le> getDaysInMonth y m"
  using month_length_bounds by (simp add: getDaysInMonth_eq)

function doy_loop :: "int \<Rightarrow> int \<Rightarrow> int \<Rightarrow> int \<times> int" where
  "doy_loop y m d = (let dim = getDaysInMonth y (m - 1) in if d \<le> dim then (m, d) else doy_loop y (m + 1) (d - dim))"
  by auto
termination
proof (relation "measure (\<lambda>(y, m, d). nat d)", goal_cases)
  case (2 y m d dim)
  then show ?case using days_in_month_pos [of y "m - 1"] by simp
qed simp

declare doy_loop.simps [simp del]

text \<open>
  A day of the year for a year that is not a number makes the loop run for ever.
\<close>

datatype date_result = Parsed date | No_date | Fails parse_error | Hangs

definition finish_parse :: "int \<Rightarrow> date_settings \<Rightarrow> parsed \<Rightarrow> date_result" where
  "finish_parse now st p =
     (if rest p \<noteq> [] \<and> \<not> is_space (hd (rest p)) then Fails (Extra_characters (rest p))
      else case year p of
        None \<Rightarrow> if doy p > -1 then Hangs else Fails Invalid_date
      | Some y0 \<Rightarrow>
          let y = full_year now st y0;
              (m, d) = (if doy p > -1 then (case doy_loop y 1 (doy p) of (m, d) \<Rightarrow> (Some m, Some d)) else (month p, day p))
          in case (m, d) of
               (Some m', Some d') \<Rightarrow>
                 let t = new_date y (m' - 1) d'
                 in if getFullYear t \<noteq> y \<or> int (getMonth t) + 1 \<noteq> m' \<or> getDate t \<noteq> d' then Fails Invalid_date else Parsed t
             | _ \<Rightarrow> Fails Invalid_date)"

definition start_parse :: "string \<Rightarrow> parsed" where
  "start_parse v = \<lparr>year = Some (-1), month = Some (-1), day = Some (-1), doy = -1, iValue = 0, rest = v\<rparr>"

text \<open>\<open>now\<close> is the current year.\<close>

definition parseDate :: "int \<Rightarrow> string option \<Rightarrow> string option \<Rightarrow> date_settings \<Rightarrow> zone \<Rightarrow> date_result" where
  "parseDate now format v st z =
     (case (format, v) of
        (Some f, Some v') \<Rightarrow>
          if v' = [] then No_date
          else (case parse_loop st z False f (start_parse v') of Inl e \<Rightarrow> Fails e | Inr p \<Rightarrow> finish_parse now st p)
      | _ \<Rightarrow> Fails Invalid_arguments)"

section \<open>Possible characters\<close>

fun possible_loop :: "bool \<Rightarrow> string \<Rightarrow> string option" where
  "possible_loop literal [] = Some []"
| "possible_loop literal (c # f) =
     (if literal
      then if c = CHR 0x27
           then if doubled c f then map_option (Cons c) (possible_loop True (behind c f)) else possible_loop False f
           else map_option (Cons c) (possible_loop True f)
      else if c \<in> {CHR ''d'', CHR ''m'', CHR ''y'', CHR ''@''} then map_option ((@) ''0123456789'') (possible_loop False f)
      else if c = CHR ''D'' \<or> c = CHR ''M'' then None
      else if c = CHR 0x27
      then if doubled c f then map_option (Cons c) (possible_loop False (behind c f)) else possible_loop True f
      else map_option (Cons c) (possible_loop False f))"

definition possibleChars :: "string \<Rightarrow> string option" where
  "possibleChars format = possible_loop False format"

section \<open>The parts of a format\<close>

text \<open>Both loops see a format as the same parts; a doubled letter is one part.\<close>

datatype part = Number char bool | Name char bool | Stamp char bool | Literal char

fun parts :: "bool \<Rightarrow> string \<Rightarrow> part list" where
  "parts literal [] = []"
| "parts literal (c # f) =
     (if literal
      then if c = CHR 0x27
           then if doubled c f then Literal c # parts True (behind c f) else parts False f
           else Literal c # parts True f
      else if c \<in> {CHR ''d'', CHR ''o'', CHR ''m'', CHR ''y''} then Number c (doubled c f) # parts False (behind c f)
      else if c \<in> {CHR ''D'', CHR ''M''} then Name c (doubled c f) # parts False (behind c f)
      else if c \<in> {CHR ''@'', CHR ''!''} then Stamp c (doubled c f) # parts False (behind c f)
      else if c = CHR 0x27
      then if doubled c f then Literal c # parts False (behind c f) else parts True f
      else Literal c # parts False f)"

definition show_number :: "char \<Rightarrow> bool \<Rightarrow> date \<Rightarrow> string" where
  "show_number c dbl t =
     (if c = CHR ''d'' then formatNumber dbl (getDate t) 2 else if c = CHR ''o'' then formatNumber dbl (day_of_year t) 3
      else if c = CHR ''m'' then formatNumber dbl (int (getMonth t) + 1) 2
      else if dbl then string_of_int (getFullYear t) else short_year t)"

definition show_name :: "date_settings \<Rightarrow> char \<Rightarrow> bool \<Rightarrow> date \<Rightarrow> string" where
  "show_name st c dbl t = (if c = CHR ''D'' then formatName (day_names st dbl) (getDay t) else formatName (month_names st dbl) (getMonth t))"

fun show_part :: "date_settings \<Rightarrow> date \<Rightarrow> part \<Rightarrow> string" where
  "show_part st t (Number c dbl) = show_number c dbl t"
| "show_part st t (Name c dbl) = show_name st c dbl t"
| "show_part st t (Stamp c dbl) = []"
| "show_part st t (Literal c) = [c]"

definition stamped :: "part \<Rightarrow> bool" where
  "stamped x \<longleftrightarrow> (case x of Stamp c dbl \<Rightarrow> True | _ \<Rightarrow> False)"

lemma stamped_simps [simp]: "stamped (Stamp c dbl)" "\<not> stamped (Number c dbl)" "\<not> stamped (Name c dbl)" "\<not> stamped (Literal c)"
  by (simp_all add: stamped_def)

lemma format_loop_parts:
  "list_all (\<lambda>x. \<not> stamped x) (parts literal f) \<Longrightarrow> format_loop st z t literal f = concat (map (show_part st t) (parts literal f))"
proof (induction literal f rule: parts.induct)
  case (2 literal c f)
  show ?case
  proof (cases literal)
    case True
    then show ?thesis using 2 by (auto split: if_splits)
  next
    case False
    consider "c = CHR ''d''" | "c = CHR ''o''" | "c = CHR ''m''" | "c = CHR ''y''" | "c = CHR ''D''" | "c = CHR ''M''"
      | "c = CHR ''@''" | "c = CHR ''!''" | "c = CHR 0x27"
      | "c \<notin> {CHR ''d'', CHR ''o'', CHR ''m'', CHR ''y'', CHR ''D'', CHR ''M'', CHR ''@'', CHR ''!'', CHR 0x27}"
      by blast
    then show ?thesis
    proof cases
      case 9
      then show ?thesis using 2 False by (cases "doubled c f") simp_all
    qed (use 2 False in \<open>simp_all add: show_number_def show_name_def\<close>)
  qed
qed simp

definition set_number :: "char \<Rightarrow> int \<Rightarrow> parsed \<Rightarrow> parsed" where
  "set_number c n p =
     (if c = CHR ''d'' then p\<lparr>day := Some n\<rparr> else if c = CHR ''o'' then p\<lparr>doy := n\<rparr>
      else if c = CHR ''m'' then p\<lparr>month := Some n\<rparr> else p\<lparr>year := Some n\<rparr>)"

fun read_part :: "date_settings \<Rightarrow> zone \<Rightarrow> part \<Rightarrow> parsed \<Rightarrow> parse_error + parsed" where
  "read_part st z (Number c dbl) p = (case getNumber c dbl p of Inl e \<Rightarrow> Inl e | Inr (n, p') \<Rightarrow> Inr (set_number c n p'))"
| "read_part st z (Name c dbl) p =
     (if c = CHR ''D'' then case getName (day_names st dbl) p of Inl e \<Rightarrow> Inl e | Inr (n, p') \<Rightarrow> Inr p'
      else case getName (month_names st dbl) p of Inl e \<Rightarrow> Inl e | Inr (n, p') \<Rightarrow> Inr (p'\<lparr>month := Some n\<rparr>))"
| "read_part st z (Stamp c dbl) p =
     (case getNumber c dbl p of
        Inl e \<Rightarrow> Inl e
      | Inr (n, p') \<Rightarrow> Inr (set_date (day_of z (if c = CHR ''@'' then n else ms_of_ticks n)) p'))"
| "read_part st z (Literal c) p = checkLiteral c p"

fun read_parts :: "date_settings \<Rightarrow> zone \<Rightarrow> part list \<Rightarrow> parsed \<Rightarrow> parse_error + parsed" where
  "read_parts st z [] p = Inr p"
| "read_parts st z (x # xs) p = (case read_part st z x p of Inl e \<Rightarrow> Inl e | Inr p' \<Rightarrow> read_parts st z xs p')"

lemma parse_loop_parts: "parse_loop st z literal f p = read_parts st z (parts literal f) p"
proof (induction literal f arbitrary: p rule: parts.induct)
  case (2 literal c f)
  show ?case
  proof (cases literal)
    case True
    then show ?thesis using 2 by (auto split: sum.split)
  next
    case False
    consider "c = CHR ''d''" | "c = CHR ''o''" | "c = CHR ''m''" | "c = CHR ''y''" | "c = CHR ''D''" | "c = CHR ''M''"
      | "c = CHR ''@''" | "c = CHR ''!''" | "c = CHR 0x27"
      | "c \<notin> {CHR ''d'', CHR ''o'', CHR ''m'', CHR ''y'', CHR ''D'', CHR ''M'', CHR ''@'', CHR ''!'', CHR 0x27}"
      by blast
    then show ?thesis
    proof cases
      case 9
      then show ?thesis using 2 False by (cases "doubled c f") (simp_all split: sum.split)
    qed (use 2 False in \<open>simp_all add: set_number_def split: sum.split prod.split\<close>)
  qed
qed simp

section \<open>Reading back what is shown\<close>

lemma digit_char_code: "d < 10 \<Longrightarrow> of_char (digit_char d) = (48 + d :: nat)"
  by (auto simp: digit_char_def less_Suc_eq numeral_eq_Suc)

lemma nat_of_digits_snoc: "nat_of_digits (s @ [c]) = 10 * nat_of_digits s + (of_char c - 48)"
  by (simp add: nat_of_digits_def)

lemma nat_of_digits_shown: "nat_of_digits (string_of_nat n) = n"
proof (induction n rule: string_of_nat.induct)
  case (1 n)
  show ?case
  proof (cases "n < 10")
    case True
    then show ?thesis by (simp add: string_of_nat.simps [of n] nat_of_digits_def digit_char_code)
  next
    case False
    then have "nat_of_digits (string_of_nat n) = 10 * (n div 10) + n mod 10"
      using 1 by (simp add: string_of_nat.simps [of n] nat_of_digits_snoc digit_char_code)
    then show ?thesis by simp
  qed
qed

lemma nat_of_digits_zeros: "nat_of_digits (replicate k CHR ''0'' @ s) = nat_of_digits s"
  by (induction k) (simp_all add: nat_of_digits_def)

lemma length_string_of_nat: "n < 10 ^ Suc k \<Longrightarrow> length (string_of_nat n) \<le> Suc k"
proof (induction k arbitrary: n)
  case (Suc k)
  then have "n div 10 < 10 ^ Suc k" by (simp add: less_mult_imp_div_less mult.commute)
  from Suc.IH [OF this] show ?case by (simp add: string_of_nat.simps [of n])
qed (simp add: string_of_nat.simps)

lemma length_string_of_nat_ge: "10 ^ k \<le> n \<Longrightarrow> Suc k \<le> length (string_of_nat n)"
proof (induction k arbitrary: n)
  case 0
  then show ?case by (simp add: Suc_le_eq)
next
  case (Suc k)
  then have "10 ^ k \<le> n div 10" by (simp add: less_eq_div_iff_mult_less_eq mult.commute)
  moreover have "\<not> n < 10" using Suc.prems order_trans [of 10 "10 ^ Suc k" n] by simp
  ultimately show ?case using Suc.IH by (simp add: string_of_nat.simps [of n])
qed

text \<open>A number as it is shown: digits only, of at most so many.\<close>

definition numeral_text :: "nat \<Rightarrow> nat \<Rightarrow> string \<Rightarrow> bool" where
  "numeral_text n k s \<longleftrightarrow> list_all is_digit s \<and> s \<noteq> [] \<and> length s \<le> k \<and> nat_of_digits s = n"

lemma shown_numeral: "n < 10 ^ Suc k \<Longrightarrow> numeral_text n (Suc k) (string_of_nat n)"
  by (simp add: numeral_text_def string_of_nat_digits nat_of_digits_shown length_string_of_nat)

lemma padded_numeral:
  assumes "numeral_text n k s"
  shows "numeral_text n k (replicate (k - length s) CHR ''0'' @ s) \<and> length (replicate (k - length s) CHR ''0'' @ s) = k"
proof -
  have "is_digit (CHR ''0'')" by (simp add: is_digit_def)
  then have "list_all is_digit (replicate n CHR ''0'')" for n by (simp add: list_all_iff)
  then show ?thesis using assms by (simp add: numeral_text_def nat_of_digits_zeros)
qed

lemma formatNumber_numeral:
  assumes "0 \<le> v" and "v < 10 ^ Suc k"
  shows "numeral_text (nat v) (Suc k) (formatNumber dbl v (Suc k)) \<and> (dbl \<longrightarrow> length (formatNumber dbl v (Suc k)) = Suc k)"
proof -
  have "nat v < 10 ^ Suc k" using assms by (simp add: nat_less_iff)
  from shown_numeral [OF this] show ?thesis
    using padded_numeral assms(1) by (cases dbl) (simp_all add: formatNumber_def string_of_int_def Let_def)
qed

lemma getNumber_shown:
  assumes s: "numeral_text n (number_size c dbl) s" and r: "length s = number_size c dbl \<or> r = [] \<or> \<not> is_digit (hd r)"
    and p: "rest p = s @ r"
  shows "getNumber c dbl p = Inr (int n, p\<lparr>iValue := iValue p + length s, rest := r\<rparr>)"
proof -
  have s': "\<forall>x\<in>set s. is_digit x" "s \<noteq> []" "length s \<le> number_size c dbl" "nat_of_digits s = n"
    using s by (simp_all add: numeral_text_def list_all_iff)
  have num: "take (number_size c dbl) (takeWhile is_digit (s @ r)) = s"
  proof (cases "length s = number_size c dbl")
    case True
    then show ?thesis using s'(1) by (simp add: takeWhile_append)
  next
    case False
    then have "takeWhile is_digit r = []" using r by (cases r) auto
    then show ?thesis using s' by (simp add: takeWhile_append)
  qed
  show ?thesis unfolding getNumber_def p num Let_def using s' by simp
qed

text \<open>What the numbers of a date are, and how they are shown.\<close>

definition number_value :: "char \<Rightarrow> bool \<Rightarrow> date \<Rightarrow> int" where
  "number_value c dbl t =
     (if c = CHR ''d'' then getDate t else if c = CHR ''o'' then day_of_year t else if c = CHR ''m'' then int (getMonth t) + 1
      else if dbl then getFullYear t else getFullYear t mod 100)"

lemma day_of_year_eq: "99 < getFullYear t \<Longrightarrow> day_of_year t = year_day t + 1"
  using make_day_of_parts [of t] by (simp add: day_of_year_def new_date_def) (simp add: make_day_def year_day_def)

lemma day_of_year_bounds: "99 < getFullYear t \<Longrightarrow> 1 \<le> day_of_year t \<and> day_of_year t \<le> 366"
  using year_day_bounds [of t] by (auto simp: day_of_year_eq split: if_splits)

lemma date_bounds: "1 \<le> getDate t \<and> getDate t \<le> 31 \<and> getMonth t < 12"
  using date_parts_proper [of t] month_length_bounds [of "getFullYear t" "getMonth t"] by (simp add: proper_def)

lemma two_digits:
  assumes "0 \<le> v" and "v < 100"
  shows "(if v < 10 then ''0'' else []) @ string_of_int v = formatNumber True v 2"
proof -
  have "nat v < 10 \<Longrightarrow> length (string_of_nat (nat v)) = 1" by (simp add: string_of_nat.simps)
  moreover have "\<not> nat v < 10 \<Longrightarrow> 2 \<le> length (string_of_nat (nat v))"
    using length_string_of_nat_ge [of 1 "nat v"] by (simp add: numeral_2_eq_2)
  ultimately show ?thesis using assms(1) by (cases "v < 10") (simp_all add: formatNumber_def string_of_int_def numeral_2_eq_2 nat_less_iff)
qed

lemma number_shown:
  assumes y: "1000 \<le> getFullYear t" "getFullYear t \<le> 9999" and c: "c \<in> {CHR ''d'', CHR ''o'', CHR ''m'', CHR ''y''}"
    and short: "c = CHR ''y'' \<Longrightarrow> \<not> dbl \<Longrightarrow> 1900 \<le> getFullYear t"
  shows "numeral_text (nat (number_value c dbl t)) (number_size c dbl) (show_number c dbl t) \<and> 0 \<le> number_value c dbl t \<and>
    (dbl \<or> c = CHR ''y'' \<longrightarrow> length (show_number c dbl t) = number_size c dbl)"
proof -
  have fn2: "0 \<le> v \<Longrightarrow> v < 100 \<Longrightarrow> numeral_text (nat v) 2 (formatNumber b v 2) \<and> (b \<longrightarrow> length (formatNumber b v 2) = 2)" for v b
    using formatNumber_numeral [of v 1 b] by (simp add: numeral_2_eq_2)
  have fn3: "0 \<le> v \<Longrightarrow> v < 1000 \<Longrightarrow> numeral_text (nat v) 3 (formatNumber dbl v 3) \<and> (dbl \<longrightarrow> length (formatNumber dbl v 3) = 3)" for v
    using formatNumber_numeral [of v 2 dbl] by (simp add: numeral_3_eq_3)
  show ?thesis
  proof (cases "c = CHR ''y''")
    case False
    then consider "c = CHR ''d''" | "c = CHR ''o''" | "c = CHR ''m''" using c by blast
    then show ?thesis
    proof cases
      case 1
      then show ?thesis using fn2 [of "getDate t"] date_bounds [of t] by (simp add: show_number_def number_value_def number_size_def)
    next
      case 2
      then show ?thesis using fn3 [of "day_of_year t"] day_of_year_bounds [of t] y
        by (simp add: show_number_def number_value_def number_size_def)
    next
      case 3
      then show ?thesis using fn2 [of "int (getMonth t) + 1"] date_bounds [of t]
        by (simp add: show_number_def number_value_def number_size_def)
    qed
  next
    case True
    show ?thesis
    proof (cases dbl)
      case True
      have e: "Suc 3 = (4 :: nat)" by simp
      have "nat (getFullYear t) < 10 ^ 4" "10 ^ 3 \<le> nat (getFullYear t)" using y by simp_all
      then have "numeral_text (nat (getFullYear t)) 4 (string_of_nat (nat (getFullYear t)))" "4 \<le> length (string_of_nat (nat (getFullYear t)))"
        using shown_numeral [of "nat (getFullYear t)" 3, unfolded e] length_string_of_nat_ge [of 3 "nat (getFullYear t)", unfolded e]
        by blast+
      then show ?thesis using True \<open>c = CHR ''y''\<close> y
        by (simp add: show_number_def number_value_def number_size_def string_of_int_def numeral_text_def)
    next
      case False
      define v where "v = getFullYear t mod 100"
      have v: "0 \<le> v" "v < 100" unfolding v_def by simp_all
      have "(getFullYear t - 1900) mod 100 = v" using mod_mult_self2 [of "getFullYear t" 100 "-19"] by (simp add: v_def)
      then have "short_year t = (if v < 10 then ''0'' else []) @ string_of_int v"
        using short [OF \<open>c = CHR ''y''\<close> False] by (simp add: short_year_def js_rem_def)
      then have eq: "short_year t = formatNumber True v 2" using two_digits [OF v] by simp
      have "show_number c dbl t = short_year t" "number_size c dbl = 2" "number_value c dbl t = v"
        using False \<open>c = CHR ''y''\<close> by (simp_all add: show_number_def number_value_def number_size_def v_def)
      then show ?thesis using fn2 [OF v, of True] eq v by simp
    qed
  qed
qed

text \<open>Names, none of which is the beginning of another one, in either case.\<close>

definition names_ok :: "string list \<Rightarrow> bool" where
  "names_ok ns \<longleftrightarrow> list_all (\<lambda>n. n \<noteq> [] \<and> \<not> is_digit (hd n)) ns \<and>
     list_all (\<lambda>i. list_all (\<lambda>j. i = j \<or> \<not> prefix (map lower_char (ns ! i)) (map lower_char (ns ! j))) [0..<length ns]) [0..<length ns]"

lemma find_unique:
  assumes "x \<in> set xs" and "P x" and "\<And>y. y \<in> set xs \<Longrightarrow> P y \<Longrightarrow> y = x"
  shows "find P xs = Some x"
proof (cases "find P xs")
  case None
  then show ?thesis using assms(1,2) by (auto simp: find_None_iff)
next
  case (Some y)
  then have "y \<in> set xs" "P y" by (auto simp: find_Some_iff)
  then show ?thesis using assms(3) Some by simp
qed

lemma names_apart:
  assumes "names_ok ns" and "i < length ns" "j < length ns" and "prefix (map lower_char (ns ! i)) (map lower_char (ns ! j))"
  shows "i = j"
  using assms unfolding names_ok_def list_all_iff set_upt by (metis atLeast0LessThan lessThan_iff)

lemma getName_shown:
  assumes ok: "names_ok ns" and i: "i < length ns" and p: "rest p = ns ! i @ r"
  shows "getName ns p = Inr (int i + 1, p\<lparr>iValue := iValue p + length (ns ! i), rest := r\<rparr>)"
proof -
  let ?P = "\<lambda>(k, n). map lower_char (take (length n) (rest p)) = map lower_char n"
  have "find ?P (sort_key (\<lambda>(k, n). - int (length n)) (enumerate 0 ns)) = Some (i, ns ! i)"
  proof (rule find_unique)
    show "(i, ns ! i) \<in> set (sort_key (\<lambda>(k, n). - int (length n)) (enumerate 0 ns))"
      using i by (simp add: in_set_enumerate_eq)
    show "?P (i, ns ! i)" by (simp add: p)
  next
    fix x assume x: "x \<in> set (sort_key (\<lambda>(k, n). - int (length n)) (enumerate 0 ns))" "?P x"
    obtain k n where kn: "x = (k, n)" by force
    have k: "k < length ns" "n = ns ! k" using x(1) by (simp_all add: kn in_set_enumerate_eq)
    have "take (length n) (map lower_char (rest p)) = map lower_char n" using x(2) by (simp add: kn take_map)
    then have "prefix (map lower_char n) (map lower_char (rest p))" by (metis take_is_prefix)
    moreover have "prefix (map lower_char (ns ! i)) (map lower_char (rest p))" by (simp add: p)
    ultimately have "prefix (map lower_char n) (map lower_char (ns ! i)) \<or> prefix (map lower_char (ns ! i)) (map lower_char n)"
      by (rule prefix_same_cases)
    then have "k = i" using names_apart [OF ok] i k by blast
    then show "x = (i, ns ! i)" using k by (simp add: kn)
  qed
  then show ?thesis using p by (simp add: getName_def)
qed

section \<open>Parsing a formatted date\<close>

text \<open>A number of variable length must not be followed by a digit.\<close>

fun clear :: "part list \<Rightarrow> bool" where
  "clear [] = True"
| "clear (Number c dbl # xs) =
     ((dbl \<or> c = CHR ''y'' \<or> (case xs of [] \<Rightarrow> True | Literal c' # _ \<Rightarrow> \<not> is_digit c' | Name _ _ # _ \<Rightarrow> True | _ \<Rightarrow> False)) \<and> clear xs)"
| "clear (x # xs) = clear xs"

definition part_ok :: "part \<Rightarrow> bool" where
  "part_ok x \<longleftrightarrow> (case x of Number c dbl \<Rightarrow> c \<in> {CHR ''d'', CHR ''o'', CHR ''m'', CHR ''y''} | Name c dbl \<Rightarrow> c \<in> {CHR ''D'', CHR ''M''}
     | Stamp c dbl \<Rightarrow> False | Literal c \<Rightarrow> True)"

lemma parts_ok: "list_all (\<lambda>x. \<not> stamped x) (parts literal f) \<Longrightarrow> list_all part_ok (parts literal f)"
  by (induction literal f rule: parts.induct) (auto simp: part_ok_def split: if_splits)

definition reads :: "char \<Rightarrow> part list \<Rightarrow> bool" where
  "reads c xs \<longleftrightarrow> Number c True \<in> set xs \<or> Number c False \<in> set xs"

definition complete :: "part list \<Rightarrow> bool" where
  "complete xs \<longleftrightarrow> reads CHR ''y'' xs \<and>
     (reads CHR ''o'' xs \<or>
      reads CHR ''d'' xs \<and> (reads CHR ''m'' xs \<or> Name CHR ''M'' True \<in> set xs \<or> Name CHR ''M'' False \<in> set xs))"

definition settings_ok :: "date_settings \<Rightarrow> bool" where
  "settings_ok st \<longleftrightarrow> list_all (\<lambda>long. length (day_names st long) = 7 \<and> names_ok (day_names st long) \<and>
     length (month_names st long) = 12 \<and> names_ok (month_names st long)) [True, False]"

text \<open>The hundred years that a year of two digits can stand for end with the cutoff.\<close>

definition in_window :: "int \<Rightarrow> date_settings \<Rightarrow> int \<Rightarrow> bool" where
  "in_window now st y \<longleftrightarrow> 0 \<le> now \<and> 0 \<le> cutoff_value now st \<and> cutoff_value now st < 100 \<and> 1900 \<le> y \<and>
     now - now mod 100 + cutoff_value now st - 100 < y \<and> y \<le> now - now mod 100 + cutoff_value now st"

definition note_part :: "date \<Rightarrow> part \<Rightarrow> parsed \<Rightarrow> parsed" where
  "note_part t x p =
     (case x of
        Number c dbl \<Rightarrow> set_number c (number_value c dbl t) p
      | Name c dbl \<Rightarrow> if c = CHR ''D'' then p else p\<lparr>month := Some (int (getMonth t) + 1)\<rparr>
      | _ \<Rightarrow> p)"

lemma note_part_place: "note_part t x (p\<lparr>iValue := k, rest := r\<rparr>) = (note_part t x p)\<lparr>iValue := k, rest := r\<rparr>"
  by (simp add: note_part_def set_number_def split: part.split)

lemma note_parts_place: "fold (note_part t) xs (p\<lparr>iValue := k, rest := r\<rparr>) = (fold (note_part t) xs p)\<lparr>iValue := k, rest := r\<rparr>"
  by (induction xs arbitrary: p) (simp_all add: note_part_place)

lemma getDay_less: "getDay t < 7"
  by (simp add: getDay_def nat_less_iff)

lemma names_shown:
  assumes "settings_ok st" and "c \<in> {CHR ''D'', CHR ''M''}"
  shows "\<exists>ns i. names_ok ns \<and> i < length ns \<and> show_name st c dbl t = ns ! i \<and>
    ns = (if c = CHR ''D'' then day_names st dbl else month_names st dbl) \<and> i = (if c = CHR ''D'' then getDay t else getMonth t)"
proof -
  have ok: "names_ok (day_names st dbl)" "length (day_names st dbl) = 7" "names_ok (month_names st dbl)" "length (month_names st dbl) = 12"
    using assms(1) by (cases dbl; simp add: settings_ok_def)+
  have "getDay t < 7" "getMonth t < 12" using getDay_less date_bounds by simp_all
  then show ?thesis using ok by (simp add: show_name_def formatName_def)
qed

text \<open>What is shown behind a number of variable length does not begin with a digit.\<close>

lemma clear_next:
  assumes "clear (Number c dbl # xs)" and "\<not> dbl" "c \<noteq> CHR ''y''" and "settings_ok st" and "list_all part_ok xs"
  shows "concat (map (show_part st t) xs) = [] \<or> \<not> is_digit (hd (concat (map (show_part st t) xs)))"
proof (cases xs)
  case (Cons x ys)
  show ?thesis
  proof (cases x)
    case (Literal c')
    then show ?thesis using assms Cons by simp
  next
    case (Name c' dbl')
    then have "c' \<in> {CHR ''D'', CHR ''M''}" using assms(5) Cons by (simp add: part_ok_def)
    then obtain ns i where n: "names_ok ns" "i < length ns" "show_name st c' dbl' t = ns ! i" using names_shown [OF assms(4)] by blast
    then have "ns ! i \<noteq> []" "\<not> is_digit (hd (ns ! i))" by (simp_all add: names_ok_def list_all_iff)
    then show ?thesis using n(3) Cons Name by simp
  qed (use assms Cons in simp_all)
qed simp

lemma read_parts_shown:
  assumes "list_all part_ok xs" and "clear xs" and "settings_ok st" and "1000 \<le> getFullYear t" "getFullYear t \<le> 9999"
    and "Number CHR ''y'' False \<in> set xs \<Longrightarrow> 1900 \<le> getFullYear t" and "rest p = concat (map (show_part st t) xs)"
  shows "\<exists>k. read_parts st z xs p = Inr ((fold (note_part t) xs p)\<lparr>iValue := k, rest := []\<rparr>)"
  using assms(1,2,6,7)
proof (induction xs arbitrary: p)
  case Nil
  then have "p = p\<lparr>iValue := iValue p, rest := []\<rparr>" by simp
  then show ?case by (metis fold_simps(1) read_parts.simps(1))
next
  case (Cons x xs)
  let ?r = "concat (map (show_part st t) xs)"
  have rest: "rest p = show_part st t x @ ?r" using Cons.prems(4) by simp
  have xs: "list_all part_ok xs" "clear xs" "Number CHR ''y'' False \<in> set xs \<Longrightarrow> 1900 \<le> getFullYear t"
    using Cons.prems(1-3) by (cases x; simp)+
  have one: "\<exists>k. read_part st z x p = Inr ((note_part t x p)\<lparr>iValue := k, rest := ?r\<rparr>)"
  proof (cases x)
    case (Number c dbl)
    have c: "c \<in> {CHR ''d'', CHR ''o'', CHR ''m'', CHR ''y''}" using Cons.prems(1) by (simp add: Number part_ok_def)
    have short: "c = CHR ''y'' \<Longrightarrow> \<not> dbl \<Longrightarrow> 1900 \<le> getFullYear t" using Cons.prems(3) by (simp add: Number)
    note num = number_shown [OF assms(4,5) c short]
    have next': "length (show_number c dbl t) = number_size c dbl \<or> ?r = [] \<or> \<not> is_digit (hd ?r)"
    proof (cases "dbl \<or> c = CHR ''y''")
      case True
      then show ?thesis using num by blast
    next
      case False
      then show ?thesis using clear_next [OF _ _ _ assms(3) xs(1), of c dbl t] Cons.prems(2) unfolding Number by blast
    qed
    have r: "rest p = show_number c dbl t @ ?r" using rest by (simp add: Number)
    have "set_number c n (p\<lparr>iValue := k, rest := r\<rparr>) = (set_number c n p)\<lparr>iValue := k, rest := r\<rparr>" for n k r
      by (simp add: set_number_def)
    then show ?thesis using getNumber_shown [OF num [THEN conjunct1] next' r] num by (auto simp: Number note_part_def)
  next
    case (Name c dbl)
    have c: "c \<in> {CHR ''D'', CHR ''M''}" using Cons.prems(1) by (simp add: Name part_ok_def)
    from names_shown [OF assms(3) c] obtain ns i where n: "names_ok ns" "i < length ns" "show_name st c dbl t = ns ! i"
      "ns = (if c = CHR ''D'' then day_names st dbl else month_names st dbl)" "i = (if c = CHR ''D'' then getDay t else getMonth t)"
      by blast
    have "rest p = ns ! i @ ?r" using rest n(3) by (simp add: Name)
    from getName_shown [OF n(1,2) this] show ?thesis
      using n(4,5) by (intro exI [of _ "iValue p + length (ns ! i)"]) (auto simp: Name note_part_def)
  next
    case (Stamp c dbl)
    then show ?thesis using Cons.prems(1) by (simp add: part_ok_def)
  next
    case (Literal c)
    then show ?thesis using rest by (auto simp: checkLiteral_def note_part_def)
  qed
  then obtain k where k: "read_part st z x p = Inr ((note_part t x p)\<lparr>iValue := k, rest := ?r\<rparr>)" by blast
  have "rest ((note_part t x p)\<lparr>iValue := k, rest := ?r\<rparr>) = ?r" by simp
  from Cons.IH [OF xs this] obtain k' where
    "read_parts st z xs ((note_part t x p)\<lparr>iValue := k, rest := ?r\<rparr>) =
     Inr ((fold (note_part t) xs ((note_part t x p)\<lparr>iValue := k, rest := ?r\<rparr>))\<lparr>iValue := k', rest := []\<rparr>)"
    by blast
  then show ?case by (intro exI [of _ k']) (simp add: k note_parts_place)
qed

lemma noted_year:
  "list_all part_ok xs \<Longrightarrow> reads CHR ''y'' xs \<Longrightarrow> year (fold (note_part t) xs p) = Some (getFullYear t) \<or>
     Number CHR ''y'' False \<in> set xs \<and> year (fold (note_part t) xs p) = Some (getFullYear t mod 100)"
proof (induction xs rule: rev_induct)
  case (snoc x xs)
  have ok: "list_all part_ok xs" "part_ok x" using snoc.prems(1) by simp_all
  show ?case
  proof (cases "x = Number CHR ''y'' True \<or> x = Number CHR ''y'' False")
    case True
    then show ?thesis by (auto simp: note_part_def set_number_def number_value_def)
  next
    case False
    then have "reads CHR ''y'' xs" using snoc.prems(2) by (auto simp: reads_def)
    moreover have "year (note_part t x q) = year q" for q
      using ok(2) False by (cases x) (auto simp: note_part_def set_number_def part_ok_def)
    ultimately show ?thesis using snoc.IH [OF ok(1)] by auto
  qed
qed (simp add: reads_def)

lemma noted_month:
  "list_all part_ok xs \<Longrightarrow> month (fold (note_part t) xs p) =
     (if reads CHR ''m'' xs \<or> Name CHR ''M'' True \<in> set xs \<or> Name CHR ''M'' False \<in> set xs then Some (int (getMonth t) + 1) else month p)"
proof (induction xs rule: rev_induct)
  case (snoc x xs)
  show ?case
  proof (cases x)
    case (Number c dbl)
    then show ?thesis using snoc by (cases dbl) (auto simp: note_part_def set_number_def reads_def number_value_def part_ok_def)
  next
    case (Name c dbl)
    then show ?thesis using snoc by (cases dbl) (auto simp: note_part_def reads_def part_ok_def)
  qed (use snoc in \<open>auto simp: note_part_def reads_def\<close>)
qed (simp add: reads_def)

lemma noted_day:
  "list_all part_ok xs \<Longrightarrow> day (fold (note_part t) xs p) = (if reads CHR ''d'' xs then Some (getDate t) else day p) \<and>
     doy (fold (note_part t) xs p) = (if reads CHR ''o'' xs then day_of_year t else doy p)"
proof (induction xs rule: rev_induct)
  case (snoc x xs)
  show ?case
  proof (cases x)
    case (Number c dbl)
    then show ?thesis using snoc by (cases dbl) (auto simp: note_part_def set_number_def reads_def number_value_def part_ok_def)
  qed (use snoc in \<open>auto simp: note_part_def reads_def\<close>)
qed (simp add: reads_def)

lemma doy_loop_eq:
  assumes y: "99 < y" and m: "proper y m d"
  shows "k \<le> m \<Longrightarrow> doy_loop y (int k + 1) (before_month y m - before_month y k + d) = (int m + 1, d)"
proof (induction "m - k" arbitrary: k)
  case 0
  have dim: "getDaysInMonth y (int k) = month_length y k" if "k < 12" for k
    using y that by (simp add: getDaysInMonth_eq)
  show ?case using 0 m dim [of m] by (subst doy_loop.simps) (simp add: proper_def)
next
  case (Suc n)
  then have k: "k < m" "n = m - Suc k" by simp_all
  have dim: "getDaysInMonth y (int k) = month_length y k" using y m k(1) by (simp add: getDaysInMonth_eq proper_def)
  have "before_month y (Suc k) \<le> before_month y m" using k(1) by (intro before_month_mono) simp
  then have "\<not> before_month y m - before_month y k + d \<le> month_length y k" using m by (simp add: before_month_Suc proper_def)
  then have "doy_loop y (int k + 1) (before_month y m - before_month y k + d) =
      doy_loop y (int k + 1 + 1) (before_month y m - before_month y k + d - month_length y k)"
    by (subst doy_loop.simps) (simp add: dim)
  moreover have "before_month y m - before_month y k + d - month_length y k = before_month y m - before_month y (Suc k) + d"
    by (simp add: before_month_Suc)
  moreover have "doy_loop y (int k + 1 + 1) (before_month y m - before_month y (Suc k) + d) = (int m + 1, d)"
    using Suc.hyps(1) [OF k(2)] k(1) by (simp add: algebra_simps)
  ultimately show ?case by (simp only:)
qed

lemma doy_of_date:
  assumes "99 < getFullYear t"
  shows "doy_loop (getFullYear t) 1 (day_of_year t) = (int (getMonth t) + 1, getDate t)"
proof -
  have "day_of_year t = before_month (getFullYear t) (getMonth t) - before_month (getFullYear t) 0 + getDate t"
    using assms by (simp add: day_of_year_eq getDate_def)
  then show ?thesis using doy_loop_eq [OF assms date_parts_proper, of 0] by simp
qed

text \<open>A year of two digits within the window is completed as it was.\<close>

lemma mod_window:
  fixes b c n y :: int
  assumes "b mod 100 = 0" and "n = y mod 100" and "0 \<le> c" "c < 100" and "b + c - 100 < y" "y \<le> b + c"
  shows "y = n + b + (if n \<le> c then 0 else - 100)"
proof -
  obtain k where k: "b = 100 * k" using assms(1) by (metis mod_0_imp_dvd dvdE)
  obtain j where j: "y = 100 * j + n" using mult_div_mod_eq [of 100 y] assms(2) by metis
  have n: "0 \<le> n" "n < 100" using assms(2) by simp_all
  show ?thesis
  proof (cases "n \<le> c")
    case True
    then have "j < k + 1" "k - 1 < j" using n assms(3-6) k j by linarith+
    then show ?thesis using True k j by simp
  next
    case False
    then have "j < k" "k - 2 < j" using n assms(3-6) k j by linarith+
    then have "j = k - 1" by simp
    then show ?thesis using False k j by simp
  qed
qed

lemma full_year_window:
  assumes "in_window now st y"
  shows "full_year now st (y mod 100) = y"
proof -
  define n b where "n = y mod 100" and "b = now - now mod 100"
  have n: "0 \<le> n" "n < 100" unfolding n_def by simp_all
  have "b mod 100 = 0" unfolding b_def minus_mod_eq_mult_div by simp
  from mod_window [OF this n_def, of "cutoff_value now st"] assms
  have "y = n + b + (if n \<le> cutoff_value now st then 0 else - 100)"
    unfolding in_window_def b_def [symmetric] by blast
  moreover have "full_year now st n = n + b + (if n \<le> cutoff_value now st then 0 else - 100)"
    using n assms unfolding full_year_def in_window_def js_rem_def b_def by simp
  ultimately show ?thesis unfolding n_def by (simp only:)
qed

lemma parse_of_formatted:
  assumes "list_all (\<lambda>x. \<not> stamped x) (parts False f)" and "clear (parts False f)" and "complete (parts False f)"
    and "settings_ok st" and "1000 \<le> getFullYear t" and "getFullYear t \<le> 9999"
    and "Number CHR ''y'' False \<in> set (parts False f) \<longrightarrow> in_window now st (getFullYear t)"
  shows "parseDate now (Some f) (Some (formatDate f (Some t) st z)) st z = Parsed t"
proof -
  let ?xs = "parts False f" and ?y = "getFullYear t"
  let ?v = "concat (map (show_part st t) ?xs)"
  let ?p = "fold (note_part t) ?xs (start_parse ?v)"
  have ok: "list_all part_ok ?xs" using parts_ok [OF assms(1)] .
  have short: "Number CHR ''y'' False \<in> set ?xs \<Longrightarrow> 1900 \<le> ?y" using assms(7) by (simp add: in_window_def)
  have shown: "formatDate f (Some t) st z = ?v" by (simp add: formatDate_def format_loop_parts [OF assms(1)])
  have reads: "reads CHR ''y'' ?xs" using assms(3) by (simp add: complete_def)
  have start: "rest (start_parse ?v) = ?v" by (simp add: start_parse_def)
  obtain k where parsed: "read_parts st z ?xs (start_parse ?v) = Inr (?p\<lparr>iValue := k, rest := []\<rparr>)"
    using read_parts_shown [OF ok assms(2,4-6) short start] by blast
  obtain c dbl where year_part: "Number c dbl \<in> set ?xs" "c = CHR ''y''" using reads by (auto simp: reads_def)
  have "show_part st t (Number c dbl) \<noteq> []"
    using number_shown [OF assms(5,6), of c dbl] short year_part by (cases dbl) (auto simp: numeral_text_def)
  then have ne: "?v \<noteq> []" using year_part(1) by (metis concat_eq_Nil_conv image_eqI list.set_map)
  obtain y0 where y0: "year ?p = Some y0" "full_year now st y0 = ?y"
    using noted_year [OF ok reads, of t "start_parse ?v"] assms(5,7) full_year_window [of now st ?y]
    by (auto simp: full_year_def)
  have y: "99 < ?y" using assms(5) by simp
  have date: "new_date ?y (int (getMonth t)) (getDate t) = t" using make_day_of_parts [of t] y by (simp add: new_date_def)
  have doy: "doy ?p = (if reads CHR ''o'' ?xs then day_of_year t else -1)"
    using noted_day [OF ok, of t "start_parse ?v"] by (simp add: start_parse_def)
  have rest: "rest (?p\<lparr>iValue := k, rest := []\<rparr>) = []" "year (?p\<lparr>iValue := k, rest := []\<rparr>) = Some y0"
    "doy (?p\<lparr>iValue := k, rest := []\<rparr>) = doy ?p" "month (?p\<lparr>iValue := k, rest := []\<rparr>) = month ?p" "day (?p\<lparr>iValue := k, rest := []\<rparr>) = day ?p"
    using y0 by simp_all
  have "finish_parse now st (?p\<lparr>iValue := k, rest := []\<rparr>) = Parsed t"
  proof (cases "reads CHR ''o'' ?xs")
    case True
    then show ?thesis unfolding finish_parse_def rest y0 using doy day_of_year_bounds [OF y] doy_of_date [OF y] date y0(2) by simp
  next
    case False
    then have "month ?p = Some (int (getMonth t) + 1)" "day ?p = Some (getDate t)"
      using assms(3) noted_month [OF ok, of t "start_parse ?v"] noted_day [OF ok, of t "start_parse ?v"] by (auto simp: complete_def)
    then show ?thesis unfolding finish_parse_def rest y0 using doy False date y0(2) by simp
  qed
  then show ?thesis using ne by (simp add: parseDate_def shown parse_loop_parts parsed)
qed

text \<open>
  C30: parsing a formatted date gives the date back, for a format without time stamps that shows the
  year and either the day of the year or month and day, in which a number of variable length is not
  followed by a digit; the names may be any of which none is the beginning of another one. A year of
  two digits must be in the window that the cutoff says.
\<close>

theorem parse_formatted:
  assumes "list_all (\<lambda>x. \<not> stamped x) (parts False f)" and "clear (parts False f)" and "complete (parts False f)"
    and "settings_ok st" and "1000 \<le> getFullYear t" and "getFullYear t \<le> 9999"
    and "Number CHR ''y'' False \<in> set (parts False f) \<longrightarrow> in_window now st (getFullYear t)"
  shows "parseDate now (Some f) (Some (formatDate f (Some t) st z)) st z = Parsed t"
  using assms by (rule parse_of_formatted)

definition sample_zone :: zone where
  "sample_zone = \<lparr>time_of = (\<lambda>t. t * 86400000), day_of = (\<lambda>n. if n div 86400000 \<le> 100000000 then Some (n div 86400000) else None)\<rparr>"

lemma default_names_ok: "settings_ok no_settings"
  by code_simp

lemma parse_formatted_witness:
  "parseDate 2013 (Some ''D, d M y'') (Some (formatDate ''D, d M y'' (Some 15772) no_settings sample_zone)) no_settings sample_zone = Parsed 15772 \<and>
   formatDate ''D, d M y'' (Some 15772) no_settings sample_zone = ''Fri, 8 Mar 13'' \<and>
   parseDate 2013 (Some ''mm/dd/yy'') (Some (formatDate ''mm/dd/yy'' (Some 11015) no_settings sample_zone)) no_settings sample_zone = Parsed 11015"
proof (intro conjI)
  have 1: "list_all (\<lambda>x. \<not> stamped x) (parts False ''D, d M y'')" "clear (parts False ''D, d M y'')" "complete (parts False ''D, d M y'')"
    "1000 \<le> getFullYear 15772" "getFullYear 15772 \<le> 9999" "in_window 2013 no_settings (getFullYear 15772)"
    by code_simp+
  show "parseDate 2013 (Some ''D, d M y'') (Some (formatDate ''D, d M y'' (Some 15772) no_settings sample_zone)) no_settings sample_zone = Parsed 15772"
    by (rule parse_formatted) (use 1 default_names_ok in blast)+
  show "formatDate ''D, d M y'' (Some 15772) no_settings sample_zone = ''Fri, 8 Mar 13''" by code_simp
  have 2: "list_all (\<lambda>x. \<not> stamped x) (parts False ''mm/dd/yy'')" "clear (parts False ''mm/dd/yy'')" "complete (parts False ''mm/dd/yy'')"
    "1000 \<le> getFullYear 11015" "getFullYear 11015 \<le> 9999" "Number CHR ''y'' False \<notin> set (parts False ''mm/dd/yy'')"
    by code_simp+
  show "parseDate 2013 (Some ''mm/dd/yy'') (Some (formatDate ''mm/dd/yy'' (Some 11015) no_settings sample_zone)) no_settings sample_zone = Parsed 11015"
    by (rule parse_formatted) (use 2 default_names_ok in blast)+
qed

section \<open>What cannot be read back\<close>

text \<open>
  A time stamp before 1970 begins with a sign, which a number must not have. Years before 1900 have a
  remainder with a sign. A day of the year beside a date that is out of range keeps the loop running.
\<close>

lemma stamp_before_1970:
  "formatDate ''@'' (Some (- 1)) no_settings sample_zone = ''-86400000'' \<and>
   parseDate 2013 (Some ''@'') (Some ''-86400000'') no_settings sample_zone = Fails (Missing_number 0)"
proof
  show "formatDate ''@'' (Some (- 1)) no_settings sample_zone = ''-86400000''"
    by (simp add: formatDate_def sample_zone_def string_of_int_def string_of_nat.simps digit_char_def)
  show "parseDate 2013 (Some ''@'') (Some ''-86400000'') no_settings sample_zone = Fails (Missing_number 0)" by code_simp
qed

lemma short_year_before_1900: "formatDate ''d-m-y'' (Some (new_date 1899 11 31)) no_settings sample_zone = ''31-12-0-1''"
  by code_simp

lemma ticks_out_of_range_hang:
  "parseDate 2013 (Some ''o!'') (Some ''00199999999999999999999'') no_settings sample_zone = Hangs"
  by (simp add: parseDate_def start_parse_def doubled_def behind_def getNumber_def number_size_def nat_of_digits_def is_digit_def
      ms_of_ticks_def ticksTo1970_def sample_zone_def set_date_def finish_parse_def take_Cons' Let_def)

section \<open>Characters that may be typed\<close>

definition may_type :: "string \<Rightarrow> part \<Rightarrow> bool" where
  "may_type cs x \<longleftrightarrow> (case x of Number c dbl \<Rightarrow> c \<noteq> CHR ''o'' \<longrightarrow> set ''0123456789'' \<subseteq> set cs | Name c dbl \<Rightarrow> False
     | Stamp c dbl \<Rightarrow> True | Literal c \<Rightarrow> c \<in> set cs)"

lemma may_type_more: "may_type cs x \<Longrightarrow> set cs \<subseteq> set ds \<Longrightarrow> may_type ds x"
  by (auto simp: may_type_def split: part.splits)

lemma may_type_all: "(\<And>x. x \<in> A \<Longrightarrow> may_type cs x) \<Longrightarrow> set cs \<subseteq> set ds \<Longrightarrow> x \<in> A \<Longrightarrow> may_type ds x"
  using may_type_more by blast

lemma doubled_behind: "doubled c f \<Longrightarrow> f = c # behind c f" "\<not> doubled c f \<Longrightarrow> behind c f = f"
  by (auto simp: doubled_def behind_def split: list.splits)

lemma possible_numbers:
  assumes "c \<in> {CHR ''d'', CHR ''m'', CHR ''y'', CHR ''@''}" and "possible_loop False (c # f) = Some cs"
  shows "set ''0123456789'' \<subseteq> set cs \<and> (\<exists>ds. possible_loop False (behind c f) = Some ds \<and> set ds \<subseteq> set cs)"
proof -
  obtain ds where ds: "possible_loop False f = Some ds" "cs = ''0123456789'' @ ds" using assms by auto
  show ?thesis
  proof (cases "doubled c f")
    case True
    obtain es where "possible_loop False (behind c f) = Some es" "ds = ''0123456789'' @ es"
      using ds(1) assms(1) by (subst (asm) doubled_behind(1) [OF True]) auto
    then show ?thesis using ds(2) by auto
  next
    case False
    then show ?thesis using ds by (auto simp: doubled_behind)
  qed
qed

lemma possible_other:
  assumes "c = CHR ''o'' \<or> c = CHR ''!''" and "possible_loop False (c # f) = Some cs"
  shows "\<exists>ds. possible_loop False (behind c f) = Some ds \<and> set ds \<subseteq> set cs"
proof -
  obtain ds where ds: "possible_loop False f = Some ds" "cs = c # ds" using assms by auto
  show ?thesis
  proof (cases "doubled c f")
    case True
    obtain es where "possible_loop False (behind c f) = Some es" "ds = c # es"
      using ds(1) assms(1) by (subst (asm) doubled_behind(1) [OF True]) auto
    then show ?thesis using ds(2) by auto
  next
    case False
    then show ?thesis using ds by (auto simp: doubled_behind)
  qed
qed

lemma possible_parts: "possible_loop literal f = Some cs \<Longrightarrow> x \<in> set (parts literal f) \<Longrightarrow> may_type cs x"
proof (induction literal f arbitrary: cs rule: parts.induct)
  case (2 literal c f)
  show ?case
  proof (cases literal)
    case True
    show ?thesis
    proof (cases "c = CHR 0x27")
      case quote: True
      show ?thesis
      proof (cases "doubled c f")
        case True
        then obtain ds where ds: "possible_loop literal (behind c f) = Some ds" "cs = c # ds" using "2.prems"(1) \<open>literal\<close> quote by auto
        then show ?thesis using 2(1) [of ds] "2.prems"(2) \<open>literal\<close> quote True may_type_more [of ds x cs] by (auto simp: may_type_def)
      next
        case False
        then have "possible_loop False f = Some cs" "x \<in> set (parts False f)" using "2.prems" \<open>literal\<close> quote by simp_all
        then show ?thesis using "2.IH"(2) [OF \<open>literal\<close> quote False] by blast
      qed
    next
      case False
      then obtain ds where ds: "possible_loop literal f = Some ds" "cs = c # ds" using "2.prems"(1) \<open>literal\<close> by auto
      have "x = Literal c \<or> x \<in> set (parts True f)" using "2.prems"(2) False \<open>literal\<close> by auto
      then show ?thesis using "2.IH"(3) [OF \<open>literal\<close> False, of ds] ds \<open>literal\<close> may_type_more [of ds x cs] by (auto simp: may_type_def)
    qed
  next
    case False
    then have out: "literal = False" and no_lit: "\<not> literal" by simp_all
    consider (num) "c \<in> {CHR ''d'', CHR ''m'', CHR ''y''}" | (o) "c = CHR ''o''" | (name) "c \<in> {CHR ''D'', CHR ''M''}"
      | (at) "c = CHR ''@''" | (ticks) "c = CHR ''!''" | (quote) "c = CHR 0x27"
      | (other) "c \<notin> {CHR ''d'', CHR ''o'', CHR ''m'', CHR ''y'', CHR ''D'', CHR ''M'', CHR ''@'', CHR ''!'', CHR 0x27}"
      by blast
    then show ?thesis
    proof cases
      case num
      then have "possible_loop False (c # f) = Some cs" "c \<in> {CHR ''d'', CHR ''m'', CHR ''y'', CHR ''@''}" using "2.prems"(1) out by auto
      from possible_numbers [OF this(2,1)] obtain ds where ds: "set ''0123456789'' \<subseteq> set cs"
        "possible_loop False (behind c f) = Some ds" "set ds \<subseteq> set cs" by blast
      have "x = Number c (doubled c f) \<or> x \<in> set (parts False (behind c f))" using "2.prems"(2) num out by auto
      then show ?thesis
      proof
        assume "x = Number c (doubled c f)"
        then show ?thesis using ds(1) by (simp add: may_type_def)
      next
        assume "x \<in> set (parts False (behind c f))"
        moreover have "c \<in> {CHR ''d'', CHR ''o'', CHR ''m'', CHR ''y''}" using num by blast
        ultimately show ?thesis using "2.IH"(4) [OF False _ ds(2)] ds(3) may_type_more by blast
      qed
    next
      case name
      then show ?thesis using "2.prems"(1) out by auto
    next
      case o
      then have "possible_loop False (c # f) = Some cs" using "2.prems"(1) out by simp
      from possible_other [OF _ this] o obtain ds where ds: "possible_loop False (behind c f) = Some ds" "set ds \<subseteq> set cs" by blast
      have "x = Number c (doubled c f) \<or> x \<in> set (parts False (behind c f))" using "2.prems"(2) o out by auto
      moreover have "c \<in> {CHR ''d'', CHR ''o'', CHR ''m'', CHR ''y''}" using o by blast
      moreover have "may_type cs (Number c (doubled c f))" using o by (simp add: may_type_def)
      ultimately show ?thesis using "2.IH"(4) [OF False _ ds(1)] ds(2) may_type_more by blast
    next
      case at
      then have "possible_loop False (c # f) = Some cs" "c \<in> {CHR ''d'', CHR ''m'', CHR ''y'', CHR ''@''}" using "2.prems"(1) out by simp_all
      from possible_numbers [OF this(2,1)] obtain ds where ds: "possible_loop False (behind c f) = Some ds" "set ds \<subseteq> set cs" by blast
      have "x = Stamp c (doubled c f) \<or> x \<in> set (parts False (behind c f))" using "2.prems"(2) at out by auto
      moreover have "c \<notin> {CHR ''d'', CHR ''o'', CHR ''m'', CHR ''y''}" "c \<notin> {CHR ''D'', CHR ''M''}" "c \<in> {CHR ''@'', CHR ''!''}"
        using at by simp_all
      moreover have "may_type cs (Stamp c (doubled c f))" by (simp add: may_type_def)
      ultimately show ?thesis using "2.IH"(6) [OF False _ _ _ ds(1)] ds(2) may_type_more by blast
    next
      case ticks
      then have "possible_loop False (c # f) = Some cs" using "2.prems"(1) out by simp
      from possible_other [OF _ this] ticks obtain ds where ds: "possible_loop False (behind c f) = Some ds" "set ds \<subseteq> set cs" by blast
      have "x = Stamp c (doubled c f) \<or> x \<in> set (parts False (behind c f))" using "2.prems"(2) ticks out by auto
      moreover have "c \<notin> {CHR ''d'', CHR ''o'', CHR ''m'', CHR ''y''}" "c \<notin> {CHR ''D'', CHR ''M''}" "c \<in> {CHR ''@'', CHR ''!''}"
        using ticks by simp_all
      moreover have "may_type cs (Stamp c (doubled c f))" by (simp add: may_type_def)
      ultimately show ?thesis using "2.IH"(6) [OF False _ _ _ ds(1)] ds(2) may_type_more by blast
    next
      case quote
      show ?thesis
      proof (cases "doubled c f")
        case True
        then obtain ds where ds: "possible_loop False (behind c f) = Some ds" "cs = c # ds" using "2.prems"(1) out quote by auto
        have "x = Literal c \<or> x \<in> set (parts False (behind c f))" using "2.prems"(2) quote out True by auto
        moreover have "may_type cs (Literal c)" using ds(2) by (simp add: may_type_def)
        moreover have "c \<notin> {CHR ''d'', CHR ''o'', CHR ''m'', CHR ''y''}" "c \<notin> {CHR ''D'', CHR ''M''}" "c \<notin> {CHR ''@'', CHR ''!''}"
          using quote by simp_all
        ultimately show ?thesis using "2.IH"(7) [OF no_lit _ _ _ quote True ds(1)] ds(2) may_type_more [of ds x cs] by auto
      next
        case False
        then have "possible_loop True f = Some cs" "x \<in> set (parts True f)" using "2.prems" out quote by simp_all
        moreover have "c \<notin> {CHR ''d'', CHR ''o'', CHR ''m'', CHR ''y''}" "c \<notin> {CHR ''D'', CHR ''M''}" "c \<notin> {CHR ''@'', CHR ''!''}"
          using quote by simp_all
        ultimately show ?thesis using "2.IH"(8) [OF no_lit _ _ _ quote False] by blast
      qed
    next
      case other
      then obtain ds where ds: "possible_loop False f = Some ds" "cs = c # ds" using "2.prems"(1) out by auto
      have "x = Literal c \<or> x \<in> set (parts False f)" using "2.prems"(2) other out by auto
      moreover have "may_type cs (Literal c)" using ds(2) by (simp add: may_type_def)
      moreover have "c \<notin> {CHR ''d'', CHR ''o'', CHR ''m'', CHR ''y''}" "c \<notin> {CHR ''D'', CHR ''M''}" "c \<notin> {CHR ''@'', CHR ''!''}" "c \<noteq> CHR 0x27"
        using other by simp_all
      ultimately show ?thesis using "2.IH"(9) [OF no_lit _ _ _ _ ds(1)] ds(2) may_type_more [of ds x cs] by auto
    qed
  qed
qed simp

text \<open>
  where the field takes only the characters that the format allows, every date of the years 1000 to
  9999 can be typed as it is formatted, unless the format asks for the day of the year or a time stamp.
\<close>

theorem formatted_can_be_typed:
  assumes "possibleChars f = Some cs" and "list_all (\<lambda>x. \<not> stamped x) (parts False f)" and "\<not> reads CHR ''o'' (parts False f)"
    and "1000 \<le> getFullYear t" and "getFullYear t \<le> 9999"
    and "Number CHR ''y'' False \<in> set (parts False f) \<longrightarrow> 1900 \<le> getFullYear t"
  shows "set (formatDate f (Some t) st z) \<subseteq> set cs"
proof -
  have "set (show_part st t x) \<subseteq> set cs" if x: "x \<in> set (parts False f)" for x
  proof -
    have ok: "part_ok x" "may_type cs x"
      using parts_ok [OF assms(2)] x possible_parts [of False f cs x] assms(1) by (simp_all add: list_all_iff possibleChars_def)
    show ?thesis
    proof (cases x)
      case (Number c dbl)
      have "c \<in> {CHR ''d'', CHR ''o'', CHR ''m'', CHR ''y''}" using ok(1) by (simp add: Number part_ok_def)
      moreover have "c \<noteq> CHR ''o''" using assms(3) x by (cases dbl) (auto simp: Number reads_def)
      ultimately have "list_all is_digit (show_number c dbl t)" "set ''0123456789'' \<subseteq> set cs"
        using number_shown [OF assms(4,5), of c dbl] assms(6) x ok(2)
        by (cases dbl; auto simp: Number numeral_text_def may_type_def)+
      then show ?thesis unfolding Number show_part.simps list_all_iff is_digit_def by blast
    qed (use ok in \<open>simp_all add: part_ok_def may_type_def\<close>)
  qed
  then show ?thesis by (auto simp: formatDate_def format_loop_parts [OF assms(2)])
qed

lemma formatted_can_be_typed_witness:
  "\<exists>cs. possibleChars ''dd.mm.yy'' = Some cs \<and> set (formatDate ''dd.mm.yy'' (Some 15772) no_settings sample_zone) \<subseteq> set cs \<and>
     formatDate ''dd.mm.yy'' (Some 15772) no_settings sample_zone = ''08.03.2013''"
proof -
  let ?cs = "the (possibleChars ''dd.mm.yy'')"
  have 1: "possibleChars ''dd.mm.yy'' = Some ?cs" "list_all (\<lambda>x. \<not> stamped x) (parts False ''dd.mm.yy'')"
    "\<not> reads CHR ''o'' (parts False ''dd.mm.yy'')" "1000 \<le> getFullYear 15772" "getFullYear 15772 \<le> 9999"
    "Number CHR ''y'' False \<notin> set (parts False ''dd.mm.yy'')"
    by code_simp+
  have "formatDate ''dd.mm.yy'' (Some 15772) no_settings sample_zone = ''08.03.2013''" by code_simp
  moreover have "set (formatDate ''dd.mm.yy'' (Some 15772) no_settings sample_zone) \<subseteq> set ?cs"
    by (rule formatted_can_be_typed [OF 1(1-5)]) (use 1(6) in blast)
  ultimately show ?thesis using 1(1) by blast
qed

lemma day_of_year_cannot_be_typed: "possibleChars ''oo/'' = Some ''oo/''"
  by code_simp

end
