(* ===== verification/UiDatepicker.thy ===== *)
theory UiDatepicker
  imports UiDateFormat
begin

text \<open>
  The state of a date picker (\<open>datepicker.js\<close>): the date that is selected, the month that is drawn and
  the date that has been chosen; its operations, the tables of days that are drawn, and dates given
  relative to today.
\<close>

section \<open>Settings and state\<close>

text \<open>
  \<open>minDate\<close>, \<open>maxDate\<close> and \<open>defaultDate\<close> are the dates that \<open>_determineDate\<close> makes of these settings;
  \<open>yearRange\<close> has the parts before and behind its colon, \<open>None\<close> if it is empty; \<open>onSelect\<close> is whether there is such a callback.
\<close>

record dp_settings =
  dateFormat :: string
  formats :: date_settings
  zone :: zone
  today :: date
  minDate :: "date option"
  maxDate :: "date option"
  defaultDate :: date
  showCurrentAtPos :: int
  stepMonths :: int
  stepBigMonths :: int
  numberOfMonths :: "nat \<times> nat"
  firstDay :: int
  gotoCurrent :: bool
  isRTL :: bool
  showOtherMonths :: bool
  selectOtherMonths :: bool
  changeMonth :: bool
  changeYear :: bool
  yearRange :: "(string \<times> string) option"
  constrainInput :: bool
  showButtonPanel :: bool
  onSelect :: bool
  disabled :: bool
  beforeShowDay :: "date \<Rightarrow> bool"

text \<open>A cell of a table of days, and what is drawn: the tables, the links that have a handler and the lists to choose from.\<close>

record cell =
  cell_date :: date
  otherMonth :: bool
  unselectable :: bool
  weekEnd :: bool
  dayOver :: bool
  is_current :: bool
  is_today :: bool
  day_text :: "int option"

record view =
  tables :: "cell list list"
  prevOn :: bool
  nextOn :: bool
  todayOn :: bool
  months :: "int list"
  years :: "int list"

text \<open>
  \<open>field\<close> is the value of the input field; an inline picker has one, too, which nobody sees. \<open>changes\<close> are
  the calls of \<open>onChangeMonthYear\<close>; \<open>showing\<close> is \<open>_datepickerShowing\<close> of the one picker.
\<close>

record inst =
  inline :: bool
  selectedDay :: int
  selectedMonth :: int
  selectedYear :: int
  drawMonth :: int
  drawYear :: int
  currentDay :: int
  currentMonth :: int
  currentYear :: int
  field :: string
  lastVal :: "string option"
  keyEvent :: bool
  showing :: bool
  changes :: "(int \<times> int) list"
  view :: view

definition newInst :: "bool \<Rightarrow> string \<Rightarrow> inst" where
  "newInst inl v = \<lparr>inline = inl, selectedDay = 0, selectedMonth = 0, selectedYear = 0, drawMonth = 0, drawYear = 0,
     currentDay = 0, currentMonth = 0, currentYear = 0, field = v, lastVal = None, keyEvent = False, showing = False,
     changes = [], view = \<lparr>tables = [], prevOn = False, nextOn = False, todayOn = False, months = [], years = []\<rparr>\<rparr>"

definition this_year :: "dp_settings \<Rightarrow> int" where
  "this_year st = getFullYear (today st)"

section \<open>Dates that are given relative to another one\<close>

datatype date_spec = Unset | Text string | Days int | Exact date

lemma drop_shorter: "takeWhile P ds \<noteq> [] \<Longrightarrow> dropWhile Q (dropWhile P ds) = r \<Longrightarrow> length r < length ds"
proof -
  assume "takeWhile P ds \<noteq> []" "dropWhile Q (dropWhile P ds) = r"
  moreover have "length (dropWhile Q (dropWhile P ds)) \<le> length (dropWhile P ds)" by (rule length_dropWhile_le)
  moreover have "length ds = length (takeWhile P ds) + length (dropWhile P ds)" by (metis length_append takeWhile_dropWhile_id)
  ultimately show ?thesis by (metis add_strict_increasing length_greater_0_conv le_less_trans less_add_same_cancel2)
qed

text \<open>The matches of the pattern for offsets: a number with an optional sign and unit.\<close>

function offsets :: "string \<Rightarrow> (int \<times> char) list" where
  "offsets [] = []"
| "offsets (c # s) =
     (let ds = (if c = CHR ''+'' \<or> c = CHR ''-'' then s else c # s); num = takeWhile is_digit ds;
          n = (if c = CHR ''-'' then - int (nat_of_digits num) else int (nat_of_digits num))
      in if num = [] then offsets s
         else case dropWhile is_space (dropWhile is_digit ds) of
                [] \<Rightarrow> [(n, CHR ''d'')]
              | u # r \<Rightarrow> if u \<in> set ''dDwWmMyY'' then (n, u) # offsets r else (n, CHR ''d'') # offsets (u # r))"
  by pat_completeness auto

termination
proof (relation "measure length", goal_cases)
  case (3 c s ds num n u r)
  then show ?case using drop_shorter [of is_digit ds is_space "u # r"] by (auto split: if_splits)
next
  case (4 c s ds num n u r)
  then show ?case using drop_shorter [of is_digit ds is_space "u # r"] by (auto split: if_splits)
qed simp_all

definition apply_offset :: "int \<times> char \<Rightarrow> int \<times> int \<times> int \<Rightarrow> int \<times> int \<times> int" where
  "apply_offset o' ymd =
     (case (o', ymd) of ((n, u), (y, m, d)) \<Rightarrow>
        if u \<in> {CHR ''d'', CHR ''D''} then (y, m, d + n)
        else if u \<in> {CHR ''w'', CHR ''W''} then (y, m, d + n * 7)
        else if u \<in> {CHR ''m'', CHR ''M''} then (y, m + n, min d (getDaysInMonth y (m + n)))
        else (y + n, m, min d (getDaysInMonth (y + n) m)))"

definition getDate_inst :: "inst \<Rightarrow> date option" where
  "getDate_inst i =
     (if currentYear i = 0 \<or> field i = [] then None else Some (new_date (currentYear i) (currentMonth i) (currentDay i)))"

text \<open>The outer \<open>None\<close> is a parse that does not end.\<close>

definition offsetString :: "dp_settings \<Rightarrow> inst \<Rightarrow> string \<Rightarrow> date option" where
  "offsetString st i s =
     (case parseDate (this_year st) (Some (dateFormat st)) (Some s) (formats st) (zone st) of
        Parsed t \<Rightarrow> Some t
      | Hangs \<Rightarrow> None
      | _ \<Rightarrow>
          let base = (if s \<noteq> [] \<and> lower_char (hd s) = CHR ''c'' then (case getDate_inst i of None \<Rightarrow> today st | Some t \<Rightarrow> t) else today st);
              (y, m, d) = fold apply_offset (offsets s) (getFullYear base, int (getMonth base), getDate base)
          in Some (new_date y m d))"

definition determineDate :: "dp_settings \<Rightarrow> inst \<Rightarrow> date_spec \<Rightarrow> date option \<Rightarrow> date option option" where
  "determineDate st i spec d =
     (case spec of
        Unset \<Rightarrow> Some d
      | Text s \<Rightarrow> if s = [] then Some d else map_option Some (offsetString st i s)
      | Days n \<Rightarrow> Some (Some (setDate (getDate (today st) + n) (today st)))
      | Exact t \<Rightarrow> Some (Some t))"

section \<open>Selecting\<close>

definition restrictMinMax :: "dp_settings \<Rightarrow> date \<Rightarrow> date" where
  "restrictMinMax st t =
     (let t' = (case minDate st of Some a \<Rightarrow> if t < a then a else t | None \<Rightarrow> t)
      in case maxDate st of Some b \<Rightarrow> if b < t' then b else t' | None \<Rightarrow> t')"

definition notifyChange :: "inst \<Rightarrow> inst" where
  "notifyChange i = i\<lparr>changes := changes i @ [(selectedYear i, selectedMonth i + 1)]\<rparr>"

definition select_parts :: "date \<Rightarrow> inst \<Rightarrow> inst" where
  "select_parts t i = i\<lparr>selectedDay := getDate t, selectedMonth := int (getMonth t), drawMonth := int (getMonth t),
     selectedYear := getFullYear t, drawYear := getFullYear t\<rparr>"

datatype period = D | M | Y | No_period

definition adjustInstDate :: "dp_settings \<Rightarrow> int \<Rightarrow> period \<Rightarrow> inst \<Rightarrow> inst" where
  "adjustInstDate st offset p i =
     (let y = drawYear i + (if p = Y then offset else 0);
          m = drawMonth i + (if p = M then offset else 0);
          d = min (selectedDay i) (getDaysInMonth y m) + (if p = D then offset else 0);
          i' = select_parts (restrictMinMax st (new_date y m d)) i
      in if p = M \<or> p = Y then notifyChange i' else i')"

section \<open>Drawing\<close>

text \<open>The first month that is drawn goes back until the last one is within the limit.\<close>

lemma year_before: "y \<le> 1970 \<Longrightarrow> day_from_year y \<le> 365 * (y - 1970)"
proof (induction "nat (1970 - y)" arbitrary: y)
  case 0
  then show ?case by (simp add: day_from_year_def)
next
  case (Suc n)
  then have "day_from_year (y + 1) \<le> 365 * (y + 1 - 1970)" by (intro Suc.hyps(1)) auto
  then show ?case using year_grows [of y] by simp
qed

function draw_back :: "date \<Rightarrow> int \<Rightarrow> int \<Rightarrow> int \<times> int" where
  "draw_back limit y m =
     (if limit < new_date y m 1 then (if m - 1 < 0 then draw_back limit (y - 1) 11 else draw_back limit y (m - 1)) else (y, m))"
  by auto

termination
proof -
  define K where "K = (\<lambda>limit :: int. min (-1) (1968 + limit div 365))"
  have far: "12 * K limit < 12 * y + max m 0" if "limit < new_date y m 1" for limit y m
  proof (rule ccontr)
    assume "\<not> 12 * K limit < 12 * y + max m 0"
    then have le: "12 * y + max m 0 \<le> 12 * K limit" by simp
    define q where "q = y + m div 12"
    have "m div 12 \<le> max m 0 div 12" by (intro zdiv_mono1) simp_all
    moreover have "y + max m 0 div 12 = (12 * y + max m 0) div 12" by simp
    moreover have "(12 * y + max m 0) div 12 \<le> 12 * K limit div 12" using le by (intro zdiv_mono1) simp_all
    ultimately have q: "q \<le> K limit" unfolding q_def by simp
    have "y \<le> K limit" using le by linarith
    then have "y < 0" by (simp add: K_def)
    then have "new_date y m 1 = day_from_year q + before_month q (nat (m mod 12))" by (simp add: new_date_def make_day_def q_def Let_def)
    moreover have "before_month q (nat (m mod 12)) \<le> 366"
    proof -
      have "m mod 12 < 12" by simp
      then have "nat (m mod 12) \<le> 12" by (simp only: nat_le_iff less_imp_le of_nat_numeral)
      then show ?thesis using before_month_mono [of "nat (m mod 12)" 12 q] by (simp add: before_month_12 split: if_splits)
    qed
    moreover have "day_from_year q \<le> 365 * (q - 1970)" using q by (intro year_before) (simp add: K_def)
    moreover have "365 * (q - 1970) \<le> 365 * (limit div 365) - 730" using q by (simp add: K_def)
    moreover have "365 * (limit div 365) \<le> limit" using mult_div_mod_eq [of 365 limit] pos_mod_sign [of 365 limit] by linarith
    ultimately show False using that by linarith
  qed
  show ?thesis
  proof (relation "measure (\<lambda>(limit, y, m). nat (12 * y + max m 0 - 12 * K limit))", goal_cases)
    case (2 limit y m)
    then show ?case using far [of limit y m] by simp
  next
    case (3 limit y m)
    then show ?case using far [of limit y m] by simp
  qed simp
qed

declare draw_back.simps [simp del]

definition prepare_draw :: "dp_settings \<Rightarrow> inst \<Rightarrow> inst" where
  "prepare_draw st i =
     (let m0 = drawMonth i - showCurrentAtPos st;
          (y, m) = (if m0 < 0 then (drawYear i - 1, m0 + 12) else (drawYear i, m0));
          (y', m') = (case maxDate st of
             None \<Rightarrow> (y, m)
           | Some b \<Rightarrow>
               let n = int (fst (numberOfMonths st) * snd (numberOfMonths st));
                   l = new_date (getFullYear b) (int (getMonth b) - n + 1) (getDate b);
                   l' = (case minDate st of Some a \<Rightarrow> if l < a then a else l | None \<Rightarrow> l)
               in draw_back l' y m)
      in i\<lparr>drawMonth := m', drawYear := y'\<rparr>)"

definition next_drawn :: "int \<times> int \<Rightarrow> int \<times> int" where
  "next_drawn ym = (case ym of (y, m) \<Rightarrow> if m + 1 > 11 then (y + 1, 0) else (y, m + 1))"

definition clip_selected :: "int \<times> int \<Rightarrow> inst \<Rightarrow> inst" where
  "clip_selected ym i =
     (if fst ym = selectedYear i \<and> snd ym = selectedMonth i
      then i\<lparr>selectedDay := min (selectedDay i) (getDaysInMonth (fst ym) (snd ym))\<rparr> else i)"

section \<open>The table of a month\<close>

definition thead :: "dp_settings \<Rightarrow> (int \<times> bool) list" where
  "thead st = map (\<lambda>dow. (js_rem (int dow + firstDay st) 7, 5 \<le> js_rem (int dow + firstDay st + 6) 7)) [0..<7]"

definition leadDays :: "dp_settings \<Rightarrow> int \<Rightarrow> int \<Rightarrow> int" where
  "leadDays st y m = js_rem (int (getFirstDayOfMonth y m) - firstDay st + 7) 7"

definition curRows :: "dp_settings \<Rightarrow> int \<Rightarrow> int \<Rightarrow> nat" where
  "curRows st y m = nat ((leadDays st y m + getDaysInMonth y m + 6) div 7)"

text \<open>\<open>sel\<close> is the selected day in the month that is drawn.\<close>

definition cell_of :: "dp_settings \<Rightarrow> inst \<Rightarrow> date \<Rightarrow> int \<Rightarrow> nat \<Rightarrow> date \<Rightarrow> cell" where
  "cell_of st i sel m dow t =
     (let other = (int (getMonth t) \<noteq> m);
          blank = (other \<and> \<not> showOtherMonths st);
          unsel = ((other \<and> \<not> selectOtherMonths st) \<or> \<not> beforeShowDay st t \<or>
            (case minDate st of Some a \<Rightarrow> t < a | None \<Rightarrow> False) \<or> (case maxDate st of Some b \<Rightarrow> b < t | None \<Rightarrow> False));
          default = restrictMinMax st (defaultDate st);
          current = (if currentDay i = 0 then new_date 9999 9 9 else new_date (currentYear i) (currentMonth i) (currentDay i))
      in \<lparr>cell_date = t, otherMonth = other, unselectable = unsel, weekEnd = (5 \<le> js_rem (int dow + firstDay st + 6) 7),
          dayOver = (t = sel \<and> m = selectedMonth i \<and> keyEvent i \<or> t = default \<and> default = sel),
          is_current = (\<not> blank \<and> t = current), is_today = (\<not> blank \<and> t = today st),
          day_text = (if blank \<or> unsel then None else Some (getDate t))\<rparr>)"

definition month_table :: "dp_settings \<Rightarrow> inst \<Rightarrow> date \<Rightarrow> int \<Rightarrow> int \<Rightarrow> nat \<Rightarrow> cell list" where
  "month_table st i sel y m rows =
     (let start = new_date y m (1 - leadDays st y m) in map (\<lambda>k. cell_of st i sel m (k mod 7) (start + int k)) [0..<7 * rows])"

definition week_column :: "dp_settings \<Rightarrow> int \<Rightarrow> int \<Rightarrow> nat \<Rightarrow> int list" where
  "week_column st y m rows =
     (let start = new_date y m (1 - leadDays st y m) in map (\<lambda>r. iso8601Week (start + 7 * int r)) [0..<rows])"

text \<open>A row of tables: of several those behind are at least as high as those before.\<close>

fun draw_group :: "dp_settings \<Rightarrow> nat \<Rightarrow> (int \<times> int) list \<Rightarrow> inst \<Rightarrow> cell list list \<times> inst" where
  "draw_group st maxRows [] i = ([], i)"
| "draw_group st maxRows (ym # yms) i =
     (let (y, m) = ym; sel = new_date y m (selectedDay i); i' = clip_selected ym i; n = curRows st y m;
          rows = (if numberOfMonths st \<noteq> (1, 1) then max maxRows n else n);
          (ts, i'') = draw_group st rows yms i'
      in (month_table st i' sel y m rows # ts, i''))"

fun draw_groups :: "dp_settings \<Rightarrow> (int \<times> int) list list \<Rightarrow> inst \<Rightarrow> cell list list \<times> inst" where
  "draw_groups st [] i = ([], i)"
| "draw_groups st (g # gs) i = (let (ts, i') = draw_group st 4 g i; (ts', i'') = draw_groups st gs i' in (ts @ ts', i''))"

definition drawn_months :: "dp_settings \<Rightarrow> inst \<Rightarrow> (int \<times> int) list list" where
  "drawn_months st i =
     (let (rows, cols) = numberOfMonths st
      in map (\<lambda>r. map (\<lambda>c. (next_drawn ^^ (r * cols + c)) (drawYear i, drawMonth i)) [0..<cols]) [0..<rows])"

section \<open>Ranges of years and the links\<close>

text \<open>\<open>parseInt(s, 10)\<close>, \<open>None\<close> for \<open>NaN\<close>.\<close>

definition parseInt10 :: "string \<Rightarrow> int option" where
  "parseInt10 s =
     (let s' = dropWhile is_space s; neg = (s' \<noteq> [] \<and> hd s' = CHR ''-'');
          ds = takeWhile is_digit (if s' \<noteq> [] \<and> (hd s' = CHR ''-'' \<or> hd s' = CHR ''+'') then tl s' else s')
      in if ds = [] then None else Some (if neg then - int (nat_of_digits ds) else int (nat_of_digits ds)))"

definition has_sign :: "string \<Rightarrow> bool" where
  "has_sign s \<longleftrightarrow> CHR ''+'' \<in> set s \<or> CHR ''-'' \<in> set s"

definition relative_to_drawn :: "string \<Rightarrow> bool" where
  "relative_to_drawn s \<longleftrightarrow> has_substring ''c+'' s \<or> has_substring ''c-'' s"

text \<open>A bound that is not a number or 0 does not count.\<close>

definition year_bound :: "dp_settings \<Rightarrow> string \<Rightarrow> int option" where
  "year_bound st s =
     (case parseInt10 s of None \<Rightarrow> None
      | Some n \<Rightarrow> let y = (if has_sign s then n + this_year st else n) in if y = 0 then None else Some y)"

definition isInRange :: "dp_settings \<Rightarrow> date \<Rightarrow> bool" where
  "isInRange st t \<longleftrightarrow>
     (case minDate st of Some a \<Rightarrow> a \<le> t | None \<Rightarrow> True) \<and> (case maxDate st of Some b \<Rightarrow> t \<le> b | None \<Rightarrow> True) \<and>
     (case yearRange st of
        None \<Rightarrow> True
      | Some (lo, hi) \<Rightarrow> (case year_bound st lo of Some y \<Rightarrow> y \<le> getFullYear t | None \<Rightarrow> True) \<and>
          (case year_bound st hi of Some y \<Rightarrow> getFullYear t \<le> y | None \<Rightarrow> True))"

definition canAdjustMonth :: "dp_settings \<Rightarrow> int \<Rightarrow> int \<Rightarrow> int \<Rightarrow> bool" where
  "canAdjustMonth st offset y m =
     (let t = new_date y (m + (if offset < 0 then offset else int (fst (numberOfMonths st) * snd (numberOfMonths st)))) 1
      in isInRange st (if offset < 0 then setDate (getDaysInMonth (getFullYear t) (int (getMonth t))) t else t))"

definition month_options :: "dp_settings \<Rightarrow> int \<Rightarrow> int list" where
  "month_options st y =
     (if \<not> changeMonth st then []
      else filter (\<lambda>m. (case minDate st of Some a \<Rightarrow> getFullYear a = y \<longrightarrow> int (getMonth a) \<le> m | None \<Rightarrow> True) \<and>
                       (case maxDate st of Some b \<Rightarrow> getFullYear b = y \<longrightarrow> m \<le> int (getMonth b) | None \<Rightarrow> True)) [0..11])"

definition determineYear :: "dp_settings \<Rightarrow> int \<Rightarrow> string \<Rightarrow> int" where
  "determineYear st y s =
     (case (if relative_to_drawn s then map_option ((+) y) (parseInt10 (tl s))
            else if has_sign s then map_option ((+) (this_year st)) (parseInt10 s) else parseInt10 s) of
        None \<Rightarrow> this_year st | Some n \<Rightarrow> n)"

definition year_options :: "dp_settings \<Rightarrow> int \<Rightarrow> int list" where
  "year_options st y =
     (if \<not> changeYear st then []
      else let (lo, hi) = (case yearRange st of None \<Rightarrow> ([], []) | Some r \<Rightarrow> r);
               first = determineYear st y lo; last = max first (determineYear st y hi)
           in [(case minDate st of Some a \<Rightarrow> max first (getFullYear a) | None \<Rightarrow> first)..
               (case maxDate st of Some b \<Rightarrow> min last (getFullYear b) | None \<Rightarrow> last)])"

section \<open>Drawing the picker\<close>

definition generateHTML :: "dp_settings \<Rightarrow> inst \<Rightarrow> view \<times> inst" where
  "generateHTML st i =
     (let i1 = prepare_draw st i; y = drawYear i1; m = drawMonth i1;
          goto = (if gotoCurrent st \<and> currentDay i1 \<noteq> 0 then new_date (currentYear i1) (currentMonth i1) (currentDay i1) else today st);
          (ts, i2) = draw_groups st (drawn_months st i1) i1
      in (\<lparr>tables = ts, prevOn = canAdjustMonth st (- 1) y m, nextOn = canAdjustMonth st 1 y m, todayOn = (showButtonPanel st \<and> isInRange st goto),
           months = month_options st y, years = year_options st y\<rparr>, i2\<lparr>keyEvent := False\<rparr>))"

definition updateDatepicker :: "dp_settings \<Rightarrow> inst \<Rightarrow> inst" where
  "updateDatepicker st i = (case generateHTML st i of (v, i') \<Rightarrow> i'\<lparr>view := v\<rparr>)"

section \<open>Choosing\<close>

definition show_date :: "dp_settings \<Rightarrow> date \<Rightarrow> string" where
  "show_date st t = formatDate (dateFormat st) (Some t) (formats st) (zone st)"

definition hideDatepicker :: "inst \<Rightarrow> inst" where
  "hideDatepicker i = i\<lparr>showing := False\<rparr>"

definition selectDate :: "dp_settings \<Rightarrow> string \<Rightarrow> inst \<Rightarrow> inst" where
  "selectDate st s i = (let i' = i\<lparr>field := s\<rparr> in if inline i then updateDatepicker st i' else hideDatepicker i')"

text \<open>
  The day is the text of the link in the cell. A cell without a link makes the parts of the date
  undefined, which is \<open>None\<close>.
\<close>

definition selectDay :: "dp_settings \<Rightarrow> int \<Rightarrow> int \<Rightarrow> cell \<Rightarrow> inst \<Rightarrow> inst option" where
  "selectDay st m y c i =
     (if unselectable c \<or> disabled st then Some i
      else case day_text c of
             None \<Rightarrow> None
           | Some d \<Rightarrow> Some (selectDate st (show_date st (new_date y m d))
               (i\<lparr>selectedDay := d, currentDay := d, selectedMonth := m, currentMonth := m, selectedYear := y, currentYear := y\<rparr>)))"

definition clearDate :: "dp_settings \<Rightarrow> inst \<Rightarrow> inst" where
  "clearDate st i = selectDate st [] i"

definition adjustDate :: "dp_settings \<Rightarrow> int \<Rightarrow> period \<Rightarrow> inst \<Rightarrow> inst" where
  "adjustDate st offset p i =
     (if disabled st then i
      else updateDatepicker st (adjustInstDate st (offset + (if p = M then showCurrentAtPos st else 0)) p i))"

definition gotoToday :: "dp_settings \<Rightarrow> inst \<Rightarrow> inst" where
  "gotoToday st i =
     adjustDate st 0 No_period (notifyChange
       (if gotoCurrent st \<and> currentDay i \<noteq> 0
        then i\<lparr>selectedDay := currentDay i, drawMonth := currentMonth i, selectedMonth := currentMonth i,
               drawYear := currentYear i, selectedYear := currentYear i\<rparr>
        else select_parts (today st) i))"

definition selectMonthYear :: "dp_settings \<Rightarrow> int \<Rightarrow> period \<Rightarrow> inst \<Rightarrow> inst" where
  "selectMonthYear st v p i =
     adjustDate st 0 No_period (notifyChange
       (if p = M then i\<lparr>selectedMonth := v, drawMonth := v\<rparr> else i\<lparr>selectedYear := v, drawYear := v\<rparr>))"

text \<open>\<open>!date\<close> holds for the number 0, too.\<close>

definition falsy_spec :: "date_spec \<Rightarrow> bool" where
  "falsy_spec spec \<longleftrightarrow> spec = Unset \<or> spec = Text [] \<or> spec = Days 0"

definition set_current :: "inst \<Rightarrow> inst" where
  "set_current i = i\<lparr>currentDay := selectedDay i, currentMonth := selectedMonth i, currentYear := selectedYear i\<rparr>"

definition formatDate_inst :: "dp_settings \<Rightarrow> inst \<Rightarrow> string \<times> inst" where
  "formatDate_inst st i = (let i' = set_current i in (show_date st (new_date (currentYear i') (currentMonth i') (currentDay i')), i'))"

definition setDate_inst :: "dp_settings \<Rightarrow> date_spec \<Rightarrow> bool \<Rightarrow> inst \<Rightarrow> inst option" where
  "setDate_inst st spec noChange i =
     (case determineDate st i spec (Some (today st)) of
        Some (Some t) \<Rightarrow>
          let i1 = set_current (select_parts (restrictMinMax st t) i);
              i2 = (if (selectedMonth i \<noteq> selectedMonth i1 \<or> selectedYear i \<noteq> selectedYear i1) \<and> \<not> noChange then notifyChange i1 else i1);
              i3 = adjustInstDate st 0 No_period i2
          in Some (if falsy_spec spec then i3\<lparr>field := []\<rparr> else let (s, i4) = formatDate_inst st i3 in i4\<lparr>field := s\<rparr>)
      | _ \<Rightarrow> None)"

text \<open>What the field says, or the default date.\<close>

definition setDateFromField :: "dp_settings \<Rightarrow> bool \<Rightarrow> inst \<Rightarrow> inst option" where
  "setDateFromField st noDefault i =
     (if lastVal i = Some (field i) then Some i
      else let r = parseDate (this_year st) (Some (dateFormat st)) (Some (field i)) (formats st) (zone st);
               t = (case r of Parsed t \<Rightarrow> t | _ \<Rightarrow> restrictMinMax st (defaultDate st));
               dates = (case r of Fails e \<Rightarrow> if noDefault then [] else field i | _ \<Rightarrow> field i);
               i1 = select_parts t (i\<lparr>lastVal := Some (field i)\<rparr>);
               i2 = (if dates \<noteq> [] then set_current i1 else i1\<lparr>currentDay := 0, currentMonth := 0, currentYear := 0\<rparr>)
           in if r = Hangs then None else Some (adjustInstDate st 0 No_period i2))"

definition getDateDatepicker :: "dp_settings \<Rightarrow> bool \<Rightarrow> inst \<Rightarrow> (date option \<times> inst) option" where
  "getDateDatepicker st noDefault i =
     map_option (\<lambda>i'. (getDate_inst i', i')) (if inline i then Some i else setDateFromField st noDefault i)"

definition showDatepicker :: "dp_settings \<Rightarrow> inst \<Rightarrow> inst option" where
  "showDatepicker st i =
     (if disabled st \<or> showing i then Some i
      else map_option (\<lambda>i'. let i'' = updateDatepicker st i' in if inline i then i'' else i''\<lparr>showing := True\<rparr>)
             (setDateFromField st False (i\<lparr>lastVal := None\<rparr>)))"

definition inlineDatepicker :: "dp_settings \<Rightarrow> inst \<Rightarrow> inst option" where
  "inlineDatepicker st i =
     map_option (updateDatepicker st) (setDate_inst st (Exact (restrictMinMax st (defaultDate st))) True i)"

section \<open>Options, size, place and disabled pickers\<close>

text \<open>New settings close the picker, which then gets its date again under them.\<close>

definition optionDatepicker :: "dp_settings \<Rightarrow> dp_settings \<Rightarrow> inst \<Rightarrow> inst option" where
  "optionDatepicker st st' i =
     (case getDateDatepicker st True (hideDatepicker i) of
        None \<Rightarrow> None
      | Some (d, i') \<Rightarrow>
          map_option (updateDatepicker st') (setDate_inst st' (case d of None \<Rightarrow> Unset | Some t \<Rightarrow> Exact t) False i'))"

text \<open>The index of the first longest name.\<close>

definition findMax :: "string list \<Rightarrow> nat" where
  "findMax names =
     fst (foldl (\<lambda>(maxI, mx) i. if mx < length (names ! i) then (i, length (names ! i)) else (maxI, mx)) (0, 0) [0..<length names])"

definition autoSize :: "dp_settings \<Rightarrow> nat" where
  "autoSize st =
     (let f = dateFormat st; t0 = new_date 2009 11 20;
          t = (if CHR ''D'' \<in> set f \<or> CHR ''M'' \<in> set f
               then let t1 = setMonth (int (findMax (month_names (formats st) (has_substring ''MM'' f)))) t0
                    in setDate (int (findMax (day_names (formats st) (has_substring ''DD'' f))) + 20 - int (getDay t1)) t1
               else t0)
      in length (show_date st t))"

text \<open>
  The place below the input field, moved where it leaves the view: sizes of the picker and of the input, the
  edges of the view, the offset of the input and how far the page is scrolled, each for left and top.
\<close>

record place =
  dpSize :: "int \<times> int"
  inputSize :: "int \<times> int"
  viewSize :: "int \<times> int"
  inputOffset :: "int \<times> int"
  scrolled :: "int \<times> int"

definition checkOffset :: "bool \<Rightarrow> bool \<Rightarrow> place \<Rightarrow> int \<times> int \<Rightarrow> int \<times> int" where
  "checkOffset rtl isFixed p offset =
     (case (dpSize p, inputSize p, viewSize p, inputOffset p, scrolled p, offset) of
        ((dw, dh), (iw, ih), (vw, vh), (il, it), (sl, sc), (lf, tp)) \<Rightarrow>
          let l1 = lf - (if rtl then dw - iw else 0);
              l2 = l1 - (if isFixed \<and> l1 = il then sl else 0);
              t2 = tp - (if isFixed \<and> tp = it + ih then sc else 0);
              l3 = l2 - min l2 (if vw < l2 + dw \<and> dw < vw then abs (l2 + dw - vw) else 0);
              t3 = t2 - min t2 (if vh < t2 + dh \<and> dh < vh then abs (dh + ih) else 0)
          in (l3, t3))"

text \<open>The targets that are disabled.\<close>

definition enableDatepicker :: "'t \<Rightarrow> 't list \<Rightarrow> 't list" where
  "enableDatepicker t ts = filter (\<lambda>x. x \<noteq> t) ts"

definition disableDatepicker :: "'t \<Rightarrow> 't list \<Rightarrow> 't list" where
  "disableDatepicker t ts = filter (\<lambda>x. x \<noteq> t) ts @ [t]"

definition isDisabledDatepicker :: "'t option \<Rightarrow> 't list \<Rightarrow> bool" where
  "isDisabledDatepicker t ts \<longleftrightarrow> (case t of None \<Rightarrow> False | Some x \<Rightarrow> list_ex (\<lambda>y. y = x) ts)"

section \<open>Keys and clicks\<close>

definition key_adjusts :: "dp_settings \<Rightarrow> nat \<Rightarrow> bool \<Rightarrow> bool \<Rightarrow> bool \<Rightarrow> (int \<times> period) list" where
  "key_adjusts st code ctrl meta alt =
     (let cm = (ctrl \<or> meta); step = (if ctrl then stepBigMonths st else stepMonths st)
      in if code = 33 then [(- step, M)] else if code = 34 then [(step, M)]
         else if code = 37 then (if cm then [(if isRTL st then 1 else - 1, D)] else []) @ (if alt then [(- step, M)] else [])
         else if code = 38 then (if cm then [(- 7, D)] else [])
         else if code = 39 then (if cm then [(if isRTL st then - 1 else 1, D)] else []) @ (if alt then [(step, M)] else [])
         else if code = 40 then (if cm then [(7, D)] else []) else [])"

text \<open>Return takes the cell that is highlighted, with the month and the year that are selected.\<close>

definition enter_key :: "dp_settings \<Rightarrow> inst \<Rightarrow> inst option" where
  "enter_key st i =
     map_option (\<lambda>i'. if onSelect st then snd (formatDate_inst st i') else hideDatepicker i')
       (case filter (\<lambda>c. dayOver c \<and> \<not> is_current c) (concat (tables (view i))) of
          [] \<Rightarrow> Some i
        | c # _ \<Rightarrow> selectDay st (selectedMonth i) (selectedYear i) c i)"

definition doKeyDown :: "dp_settings \<Rightarrow> nat \<Rightarrow> bool \<Rightarrow> bool \<Rightarrow> bool \<Rightarrow> inst \<Rightarrow> inst option" where
  "doKeyDown st code ctrl meta alt i =
     (let i0 = i\<lparr>keyEvent := True\<rparr>
      in if showing i
         then if code = 9 \<or> code = 27 then Some (hideDatepicker i0)
              else if code = 13 then enter_key st i0
              else if code = 35 then Some (if ctrl \<or> meta then clearDate st i0 else i0)
              else if code = 36 then Some (if ctrl \<or> meta then gotoToday st i0 else i0)
              else Some (fold (\<lambda>(n, p). adjustDate st n p) (key_adjusts st code ctrl meta alt) i0)
         else if code = 36 \<and> ctrl then showDatepicker st i0 else Some i0)"

definition doKeyPress :: "dp_settings \<Rightarrow> bool \<Rightarrow> bool \<Rightarrow> char \<Rightarrow> bool" where
  "doKeyPress st ctrl meta chr \<longleftrightarrow>
     (constrainInput st \<longrightarrow>
        ctrl \<or> meta \<or> (of_char chr :: int) < 32 \<or> (case possibleChars (dateFormat st) of None \<Rightarrow> True | Some cs \<Rightarrow> cs = [] \<or> chr \<in> set cs))"

definition doKeyUp :: "dp_settings \<Rightarrow> inst \<Rightarrow> inst option" where
  "doKeyUp st i =
     (if lastVal i = Some (field i) then Some i
      else case parseDate (this_year st) (Some (dateFormat st)) (Some (field i)) (formats st) (zone st) of
             Parsed t \<Rightarrow> map_option (updateDatepicker st) (setDateFromField st False i)
           | Hangs \<Rightarrow> None
           | _ \<Rightarrow> Some i)"

text \<open>
  The picker is opened, closed or clicked, a key is pressed in it, a text is typed into its field, or the
  page sets or asks for the date. Of the lists a number is the index of the option.
\<close>

datatype dp_event =
    Open
  | Close
  | Key nat bool bool bool
  | Typed string
  | Prev
  | Next
  | Click_today
  | Choose_month nat
  | Choose_year nat
  | Click_day nat nat
  | Set_date date_spec
  | Get_date bool

fun dp_step :: "dp_settings \<Rightarrow> dp_event \<Rightarrow> inst \<Rightarrow> inst option" where
  "dp_step st Open i = (if inline i then Some i else showDatepicker st i)"
| "dp_step st Close i = Some (hideDatepicker i)"
| "dp_step st (Key code ctrl meta alt) i = (if inline i then Some i else doKeyDown st code ctrl meta alt i)"
| "dp_step st (Typed s) i = (if inline i then Some i else doKeyUp st (i\<lparr>field := s\<rparr>))"
| "dp_step st Prev i = Some (if prevOn (view i) then adjustDate st (- stepMonths st) M i else i)"
| "dp_step st Next i = Some (if nextOn (view i) then adjustDate st (stepMonths st) M i else i)"
| "dp_step st Click_today i = Some (if todayOn (view i) then gotoToday st i else i)"
| "dp_step st (Choose_month k) i =
     Some (if k < length (months (view i)) then selectMonthYear st (months (view i) ! k) M i else i)"
| "dp_step st (Choose_year k) i =
     Some (if k < length (years (view i)) then selectMonthYear st (years (view i) ! k) Y i else i)"
| "dp_step st (Click_day k j) i =
     (if k < length (tables (view i)) \<and> j < length (tables (view i) ! k) \<and> \<not> unselectable (tables (view i) ! k ! j)
      then let c = tables (view i) ! k ! j in selectDay st (int (getMonth (cell_date c))) (getFullYear (cell_date c)) c i
      else Some i)"
| "dp_step st (Set_date spec) i = map_option (updateDatepicker st) (setDate_inst st spec False i)"
| "dp_step st (Get_date noDefault) i = map_option snd (getDateDatepicker st noDefault i)"

fun dp_run :: "dp_settings \<Rightarrow> dp_event list \<Rightarrow> inst \<Rightarrow> inst option" where
  "dp_run st [] i = Some i"
| "dp_run st (e # es) i = (case dp_step st e i of None \<Rightarrow> None | Some i' \<Rightarrow> dp_run st es i')"

text \<open>The popup is never left of the page nor above it, and within the right edge of a view that is wide enough.\<close>

lemma popup_on_page:
  "0 \<le> fst (checkOffset rtl fx p off) \<and> 0 \<le> snd (checkOffset rtl fx p off) \<and>
   (fst (dpSize p) < fst (viewSize p) \<longrightarrow> fst (checkOffset rtl fx p off) + fst (dpSize p) \<le> fst (viewSize p))"
  by (cases "dpSize p"; cases "inputSize p"; cases "viewSize p"; cases "inputOffset p"; cases "scrolled p"; cases off)
    (simp add: checkOffset_def Let_def min_def)

lemma disabled_exactly:
  "isDisabledDatepicker (Some x) (disableDatepicker t ts) \<longleftrightarrow> x = t \<or> isDisabledDatepicker (Some x) ts"
  "isDisabledDatepicker (Some x) (enableDatepicker t ts) \<longleftrightarrow> x \<noteq> t \<and> isDisabledDatepicker (Some x) ts"
  by (auto simp: isDisabledDatepicker_def disableDatepicker_def enableDatepicker_def list_ex_iff)

end
