(* ===== verification/UiDatepickerRun.thy ===== *)
theory UiDatepickerRun
  imports UiDatepicker
begin

text \<open>
  What holds of a date picker however it is used: the selected date is within the limits, a day that is
  clicked is the day that is returned, and a month is drawn as a calendar.
\<close>

section \<open>Dates and limits\<close>

definition in_limits :: "dp_settings \<Rightarrow> date \<Rightarrow> bool" where
  "in_limits st t \<longleftrightarrow> (case minDate st of Some a \<Rightarrow> a \<le> t | None \<Rightarrow> True) \<and> (case maxDate st of Some b \<Rightarrow> t \<le> b | None \<Rightarrow> True)"

definition limits_ok :: "dp_settings \<Rightarrow> bool" where
  "limits_ok st \<longleftrightarrow>
     (case minDate st of None \<Rightarrow> True | Some a \<Rightarrow> 99 < getFullYear a \<and> (case maxDate st of Some b \<Rightarrow> a \<le> b | None \<Rightarrow> True))"

definition selection :: "inst \<Rightarrow> date" where
  "selection i = make_day (selectedYear i) (selectedMonth i) (selectedDay i)"

definition selected :: "inst \<Rightarrow> date \<Rightarrow> bool" where
  "selected i t \<longleftrightarrow> selectedYear i = getFullYear t \<and> selectedMonth i = int (getMonth t) \<and> selectedDay i = getDate t"

definition selection_ok :: "dp_settings \<Rightarrow> inst \<Rightarrow> bool" where
  "selection_ok st i \<longleftrightarrow> in_limits st (selection i) \<and> selected i (selection i)"

definition cell_ok :: "dp_settings \<Rightarrow> cell \<Rightarrow> bool" where
  "cell_ok st c \<longleftrightarrow> (\<not> unselectable c \<longrightarrow> in_limits st (cell_date c)) \<and>
     ((selectOtherMonths st \<longrightarrow> showOtherMonths st) \<and> \<not> unselectable c \<longrightarrow> day_text c \<noteq> None) \<and>
     (case day_text c of None \<Rightarrow> True | Some d \<Rightarrow> d = getDate (cell_date c))"

definition dp_start :: "dp_settings \<Rightarrow> bool \<Rightarrow> string \<Rightarrow> inst option" where
  "dp_start st inl v = (if inl then inlineDatepicker st (newInst True v) else Some (newInst False v))"

definition enters :: "dp_event \<Rightarrow> bool" where
  "enters e \<longleftrightarrow> (case e of Key code _ _ _ \<Rightarrow> code = 13 | _ \<Rightarrow> False)"

section \<open>What is drawn\<close>

text \<open>Drawing changes the month that is drawn, what is drawn, and may shorten the selected day; nothing else.\<close>

lemma draw_group_frame: "\<exists>d. snd (draw_group st h yms i) = i\<lparr>selectedDay := d\<rparr>"
proof (induction st h yms i rule: draw_group.induct)
  case (1 st h i)
  show ?case by (rule exI [of _ "selectedDay i"]) simp
next
  case (2 st h ym yms i)
  obtain y m where ym: "ym = (y, m)" by (cases ym)
  define rows where "rows = (if numberOfMonths st \<noteq> (1, 1) then max h (curRows st y m) else curRows st y m)"
  from "2.IH" [OF refl ym [symmetric] refl refl refl rows_def] obtain d
    where "snd (draw_group st rows yms (clip_selected ym i)) = (clip_selected ym i)\<lparr>selectedDay := d\<rparr>" by blast
  then have "snd (draw_group st h (ym # yms) i) = (clip_selected ym i)\<lparr>selectedDay := d\<rparr>"
    by (auto simp: ym rows_def Let_def split_def)
  then show ?case by (intro exI [of _ d]) (simp add: clip_selected_def)
qed

lemma draw_groups_frame: "\<exists>d. snd (draw_groups st gs i) = i\<lparr>selectedDay := d\<rparr>"
proof (induction st gs i rule: draw_groups.induct)
  case (1 st i)
  show ?case by (rule exI [of _ "selectedDay i"]) simp
next
  case (2 st g gs i)
  obtain ts j where j: "draw_group st 4 g i = (ts, j)" by fastforce
  obtain d where d: "j = i\<lparr>selectedDay := d\<rparr>" using draw_group_frame [of st 4 g i] j by auto
  from "2.IH" [OF j [symmetric] refl] obtain e where "snd (draw_groups st gs j) = j\<lparr>selectedDay := e\<rparr>" by blast
  then show ?case using j d by (intro exI [of _ e]) (simp add: split_def Let_def)
qed

lemma prepare_draw_eq: "\<exists>y m. prepare_draw st i = i\<lparr>drawMonth := m, drawYear := y\<rparr>"
  unfolding prepare_draw_def Let_def split_def by blast

lemma update_frame:
  "\<exists>d y m v. updateDatepicker st i = i\<lparr>selectedDay := d, drawMonth := m, drawYear := y, keyEvent := False, view := v\<rparr>"
proof -
  obtain y m where p: "prepare_draw st i = i\<lparr>drawMonth := m, drawYear := y\<rparr>" using prepare_draw_eq by blast
  obtain ts j where j: "draw_groups st (drawn_months st (prepare_draw st i)) (prepare_draw st i) = (ts, j)" by fastforce
  obtain d where d: "j = (prepare_draw st i)\<lparr>selectedDay := d\<rparr>"
    using draw_groups_frame [of st "drawn_months st (prepare_draw st i)" "prepare_draw st i"] j by auto
  have "updateDatepicker st i = j\<lparr>keyEvent := False, view := fst (generateHTML st i)\<rparr>"
    by (simp add: updateDatepicker_def generateHTML_def Let_def j)
  then show ?thesis unfolding d p
    by (intro exI [of _ d] exI [of _ y] exI [of _ m] exI [of _ "fst (generateHTML st i)"]) simp
qed

lemma update_keeps [simp]:
  "showing (updateDatepicker st i) = showing i" "inline (updateDatepicker st i) = inline i" "field (updateDatepicker st i) = field i"
  "lastVal (updateDatepicker st i) = lastVal i" "currentDay (updateDatepicker st i) = currentDay i"
  "currentMonth (updateDatepicker st i) = currentMonth i" "currentYear (updateDatepicker st i) = currentYear i"
  using update_frame [of st i] by auto

lemma adjust_keeps [simp]:
  "showing (adjustInstDate st n p i) = showing i" "inline (adjustInstDate st n p i) = inline i" "field (adjustInstDate st n p i) = field i"
  "lastVal (adjustInstDate st n p i) = lastVal i" "currentDay (adjustInstDate st n p i) = currentDay i"
  "currentMonth (adjustInstDate st n p i) = currentMonth i" "currentYear (adjustInstDate st n p i) = currentYear i"
  "view (adjustInstDate st n p i) = view i"
  by (simp_all add: adjustInstDate_def notifyChange_def select_parts_def Let_def)

lemma cell_ok: "cell_ok st (cell_of st i sel m dow t)"
  by (auto simp: cell_ok_def cell_of_def in_limits_def Let_def split: option.splits)

lemma month_table_ok: "list_all (cell_ok st) (month_table st i sel y m rows)"
  by (simp add: month_table_def list_all_iff cell_ok Let_def)

lemma draw_group_cells: "list_all (list_all (cell_ok st)) (fst (draw_group st h yms i))"
proof (induction st h yms i rule: draw_group.induct)
  case (2 st h ym yms i)
  obtain y m where ym: "ym = (y, m)" by (cases ym)
  define rows where "rows = (if numberOfMonths st \<noteq> (1, 1) then max h (curRows st y m) else curRows st y m)"
  from "2.IH" [OF refl ym [symmetric] refl refl refl rows_def] show ?case
    by (auto simp: ym rows_def Let_def split_def month_table_ok)
qed simp

lemma draw_groups_cells: "list_all (list_all (cell_ok st)) (fst (draw_groups st gs i))"
proof (induction st gs i rule: draw_groups.induct)
  case (2 st g gs i)
  obtain ts j where j: "draw_group st 4 g i = (ts, j)" by fastforce
  then have "list_all (list_all (cell_ok st)) ts" using draw_group_cells [of st 4 g i] by simp
  then show ?case using "2.IH" [OF j [symmetric] refl] j by (simp add: split_def Let_def)
qed simp

definition drawn_ok :: "dp_settings \<Rightarrow> inst \<Rightarrow> bool" where
  "drawn_ok st i \<longleftrightarrow> list_all (list_all (cell_ok st)) (tables (view i))"

lemma update_drawn: "drawn_ok st (updateDatepicker st i)"
proof -
  have "tables (view (updateDatepicker st i)) = fst (draw_groups st (drawn_months st (prepare_draw st i)) (prepare_draw st i))"
    by (simp add: updateDatepicker_def generateHTML_def Let_def split_def)
  then show ?thesis using draw_groups_cells by (simp add: drawn_ok_def)
qed

lemma drawn_frame: "view j = view i \<Longrightarrow> drawn_ok st j = drawn_ok st i"
  by (simp add: drawn_ok_def)

lemma hide_view [simp]: "view (hideDatepicker i) = view i" "view (snd (formatDate_inst st i)) = view i"
  by (simp_all add: hideDatepicker_def formatDate_inst_def set_current_def Let_def)

lemma adjustDate_drawn: "drawn_ok st i \<Longrightarrow> drawn_ok st (adjustDate st n p i)"
  by (simp add: adjustDate_def update_drawn)

lemma goto_drawn: "drawn_ok st i \<Longrightarrow> drawn_ok st (gotoToday st i)" "drawn_ok st i \<Longrightarrow> drawn_ok st (selectMonthYear st v p i)"
  unfolding gotoToday_def selectMonthYear_def
  by (rule adjustDate_drawn, simp add: drawn_ok_def notifyChange_def select_parts_def)+

lemma selectDate_drawn: "drawn_ok st i \<Longrightarrow> drawn_ok st (selectDate st s i)"
  using update_drawn by (simp add: selectDate_def Let_def) (simp add: drawn_ok_def hideDatepicker_def)

lemma selectDay_drawn: "drawn_ok st i \<Longrightarrow> selectDay st m y c i = Some i' \<Longrightarrow> drawn_ok st i'"
  by (auto simp: selectDay_def intro!: selectDate_drawn split: if_splits option.splits) (auto simp: drawn_ok_def)

lemma field_view: "setDateFromField st nd i = Some i' \<Longrightarrow> view i' = view i"
  by (auto simp: setDateFromField_def select_parts_def set_current_def Let_def split: if_splits date_result.splits)

lemma show_drawn: "drawn_ok st i \<Longrightarrow> showDatepicker st i = Some i' \<Longrightarrow> drawn_ok st i'"
  using update_drawn drawn_frame [of "(updateDatepicker st z)\<lparr>showing := True\<rparr>" "updateDatepicker st z" st for z]
  by (auto simp: showDatepicker_def Let_def split: if_splits)

lemma enter_drawn: "drawn_ok st i \<Longrightarrow> enter_key st i = Some i' \<Longrightarrow> drawn_ok st i'"
  using selectDay_drawn [of st i] drawn_frame [of "hideDatepicker z" z st for z] drawn_frame [of "snd (formatDate_inst st z)" z st for z]
  by (auto simp: enter_key_def split: list.splits if_splits)

lemma key_drawn:
  assumes "drawn_ok st i" and "doKeyDown st code ctrl meta alt i = Some i'"
  shows "drawn_ok st i'"
proof -
  define i0 where "i0 = i\<lparr>keyEvent := True\<rparr>"
  have 0: "drawn_ok st i0" unfolding i0_def by (subst drawn_frame [of _ i]) (simp_all add: assms(1))
  have "drawn_ok st (fold (\<lambda>(n, p). adjustDate st n p) xs j)" if "drawn_ok st j" for xs j
    using that by (induction xs arbitrary: j) (auto simp: adjustDate_drawn)
  note keys = this [OF 0]
  have "drawn_ok st (hideDatepicker i0)" using 0 by (subst drawn_frame [of _ i0]) simp_all
  then show ?thesis
    using assms(2) 0 keys enter_drawn [OF 0] show_drawn [OF 0] goto_drawn(1) [OF 0] selectDate_drawn [OF 0]
    unfolding doKeyDown_def clearDate_def Let_def i0_def [symmetric] by (auto split: if_splits)
qed

lemma step_drawn:
  assumes "drawn_ok st i" and "dp_step st e i = Some i'"
  shows "drawn_ok st i'"
proof (cases e)
  case (Typed v)
  have "drawn_ok st (i\<lparr>field := v\<rparr>)" using assms(1) by (subst drawn_frame [of _ i]) simp_all
  then show ?thesis using assms update_drawn by (auto simp: Typed doKeyUp_def split: if_splits date_result.splits)
next
  case (Click_day k j)
  then show ?thesis using assms selectDay_drawn [OF assms(1)] by (auto simp: Let_def split: if_splits)
next
  case (Key code ctrl meta alt)
  then show ?thesis using assms key_drawn by (auto split: if_splits)
next
  case Open
  then show ?thesis using assms show_drawn by (auto split: if_splits)
next
  case Close
  then show ?thesis using assms by (auto simp: drawn_ok_def hideDatepicker_def)
next
  case (Set_date spec)
  then show ?thesis using assms(2) update_drawn by auto
next
  case (Get_date nd)
  then show ?thesis using assms by (auto simp: getDateDatepicker_def drawn_ok_def dest: field_view split: if_splits)
qed (use assms adjustDate_drawn goto_drawn in \<open>auto split: if_splits\<close>)

lemma run_drawn: "drawn_ok st i \<Longrightarrow> dp_run st es i = Some i' \<Longrightarrow> drawn_ok st i'"
  by (induction es arbitrary: i) (auto intro: step_drawn split: option.splits)

lemma empty_view [simp]:
  "tables (view (newInst inl v)) = []" "\<not> prevOn (view (newInst inl v))" "\<not> nextOn (view (newInst inl v))"
  "\<not> todayOn (view (newInst inl v))" "months (view (newInst inl v)) = []" "years (view (newInst inl v)) = []"
  by (simp_all add: newInst_def)

lemma start_drawn: "dp_start st inl v = Some i \<Longrightarrow> drawn_ok st i"
  using update_drawn by (auto simp: dp_start_def inlineDatepicker_def split: if_splits) (simp add: drawn_ok_def)

section \<open>The selection stays within the limits\<close>

lemma selectionI: "in_limits st t \<Longrightarrow> selected i t \<Longrightarrow> selection_ok st i"
  by (simp add: selection_ok_def selection_def selected_def make_day_of_parts)

lemma restrict_in_limits: "limits_ok st \<Longrightarrow> in_limits st (restrictMinMax st t)"
  by (auto simp: limits_ok_def in_limits_def restrictMinMax_def Let_def split: option.splits)

lemma full_year_mono: "s \<le> t \<Longrightarrow> getFullYear s \<le> getFullYear t"
proof (rule ccontr)
  assume "s \<le> t" "\<not> getFullYear s \<le> getFullYear t"
  then have "day_from_year (getFullYear t + 1) \<le> day_from_year (getFullYear s)" by (intro year_mono) simp
  then show False
    using year_search_bounds [of "1970 + s div 366" s] year_search_bounds [of "1970 + t div 366" t] \<open>s \<le> t\<close>
    unfolding getFullYear_def by linarith
qed

lemma selected_select_parts: "selected (select_parts t i) t"
  by (simp add: selected_def select_parts_def)

lemma selected_notify [simp]: "selected (notifyChange i) t = selected i t"
  by (simp add: selected_def notifyChange_def)

lemma adjust_parts: "\<exists>t. selected (adjustInstDate st n p i) (restrictMinMax st t)"
proof -
  define t where "t = new_date (drawYear i + (if p = Y then n else 0)) (drawMonth i + (if p = M then n else 0))
    (min (selectedDay i) (getDaysInMonth (drawYear i + (if p = Y then n else 0)) (drawMonth i + (if p = M then n else 0))) + (if p = D then n else 0))"
  have "adjustInstDate st n p i = (if p = M \<or> p = Y then notifyChange (select_parts (restrictMinMax st t) i) else select_parts (restrictMinMax st t) i)"
    unfolding adjustInstDate_def Let_def t_def by (rule refl)
  then have "selected (adjustInstDate st n p i) (restrictMinMax st t)"
    by (cases "p = M \<or> p = Y") (simp_all only: if_True if_False selected_notify selected_select_parts)
  then show ?thesis by blast
qed

lemma adjust_selection: "limits_ok st \<Longrightarrow> selection_ok st (adjustInstDate st n p i)"
  using adjust_parts selectionI restrict_in_limits by blast

lemma adjust_view: "view (adjustInstDate st n p i) = view i"
  by (simp add: adjustInstDate_def notifyChange_def select_parts_def Let_def)

lemma days_in_month_of: "\<not> (0 \<le> y \<and> y \<le> 99) \<Longrightarrow> m < 12 \<Longrightarrow> getDaysInMonth y (int m) = month_length y m"
  unfolding getDaysInMonth_eq by (auto simp: if_not_P)

lemma clip_selection:
  assumes "limits_ok st" and "selection_ok st i"
  shows "selection_ok st (clip_selected ym i)"
proof (cases "fst ym = selectedYear i \<and> snd ym = selectedMonth i")
  case True
  define t where "t = selection i"
  have t: "in_limits st t" "selected i t" using assms(2) by (simp_all add: selection_ok_def t_def)
  have ym: "fst ym = getFullYear t" "snd ym = int (getMonth t)" using True t(2) by (simp_all add: selected_def)
  define d where "d = min (getDate t) (getDaysInMonth (getFullYear t) (int (getMonth t)))"
  have clip: "clip_selected ym i = i\<lparr>selectedDay := d\<rparr>" using True t(2) by (simp add: clip_selected_def d_def selected_def)
  have p: "proper (getFullYear t) (getMonth t) (getDate t)" by (rule date_parts_proper)
  show ?thesis
  proof (cases "0 \<le> getFullYear t \<and> getFullYear t \<le> 99")
    case True
    have "minDate st = None"
    proof (cases "minDate st")
      case (Some a)
      then have "a \<le> t" "99 < getFullYear a" using t(1) assms(1) by (simp_all add: in_limits_def limits_ok_def)
      then show ?thesis using full_year_mono [of a t] True by simp
    qed
    have "proper (getFullYear t) (getMonth t) d"
      using p days_in_month_pos [of "getFullYear t" "int (getMonth t)"] by (auto simp: proper_def d_def)
    note parts = make_day_parts [OF this]
    have "make_day (getFullYear t) (int (getMonth t)) d = t + (d - getDate t)"
      using make_day_add [of "getFullYear t" "int (getMonth t)" "getDate t" "d - getDate t"] make_day_of_parts [of t] by simp
    then have "in_limits st (make_day (getFullYear t) (int (getMonth t)) d)"
      using t(1) \<open>minDate st = None\<close> by (auto simp: in_limits_def d_def split: option.splits)
    then show ?thesis unfolding clip by (rule selectionI) (use t(2) parts in \<open>simp add: selected_def\<close>)
  next
    case False
    then have "d = getDate t" using p days_in_month_of [OF False, of "getMonth t"] by (simp add: d_def proper_def)
    then have "clip_selected ym i = i" unfolding clip using t(2) by (simp add: selected_def)
    then show ?thesis using assms(2) by simp
  qed
next
  case False
  then have "clip_selected ym i = i" unfolding clip_selected_def by (rule if_not_P)
  then show ?thesis using assms(2) by simp
qed

lemma draw_group_selection:
  "limits_ok st \<Longrightarrow> selection_ok st i \<Longrightarrow> selection_ok st (snd (draw_group st h yms i))"
proof (induction st h yms i rule: draw_group.induct)
  case (2 st h ym yms i)
  obtain y m where ym: "ym = (y, m)" by (cases ym)
  define rows where "rows = (if numberOfMonths st \<noteq> (1, 1) then max h (curRows st y m) else curRows st y m)"
  have "selection_ok st (clip_selected ym i)" using 2 by (intro clip_selection)
  from "2.IH" [OF refl ym [symmetric] refl refl refl rows_def "2.prems"(1) this] show ?case
    by (auto simp: ym rows_def Let_def split_def)
qed simp

lemma draw_groups_selection:
  "limits_ok st \<Longrightarrow> selection_ok st i \<Longrightarrow> selection_ok st (snd (draw_groups st gs i))"
proof (induction st gs i rule: draw_groups.induct)
  case (2 st g gs i)
  obtain ts j where j: "draw_group st 4 g i = (ts, j)" by fastforce
  then have "selection_ok st j" using draw_group_selection [OF "2.prems", of 4 g] by simp
  then show ?case using "2.IH" [OF j [symmetric] refl "2.prems"(1)] j by (simp add: split_def Let_def)
qed simp

lemma selection_frame:
  "selectedYear j = selectedYear i \<Longrightarrow> selectedMonth j = selectedMonth i \<Longrightarrow> selectedDay j = selectedDay i \<Longrightarrow>
   selection_ok st j = selection_ok st i"
  by (simp add: selection_ok_def selection_def selected_def)

lemma update_ok:
  assumes "limits_ok st" and "selection_ok st i"
  shows "selection_ok st (updateDatepicker st i)"
proof -
  obtain y m where p: "prepare_draw st i = i\<lparr>drawMonth := m, drawYear := y\<rparr>" using prepare_draw_eq by blast
  define j where "j = snd (draw_groups st (drawn_months st (prepare_draw st i)) (prepare_draw st i))"
  have "selection_ok st (prepare_draw st i)" unfolding p by (subst selection_frame [of _ i]) (simp_all add: assms(2))
  then have "selection_ok st j" unfolding j_def by (rule draw_groups_selection [OF assms(1)])
  moreover have "updateDatepicker st i = j\<lparr>keyEvent := False, view := fst (generateHTML st i)\<rparr>"
    by (simp add: updateDatepicker_def generateHTML_def j_def Let_def split_def)
  ultimately show ?thesis by (subst selection_frame [of _ j]) simp_all
qed

lemma adjustDate_ok: "limits_ok st \<Longrightarrow> \<not> disabled st \<Longrightarrow> selection_ok st (adjustDate st n p i)"
  by (simp add: adjustDate_def update_ok adjust_selection)

lemma gotoToday_ok: "limits_ok st \<Longrightarrow> \<not> disabled st \<Longrightarrow> selection_ok st (gotoToday st i)"
  by (simp add: gotoToday_def adjustDate_ok)

lemma selectMonthYear_ok: "limits_ok st \<Longrightarrow> \<not> disabled st \<Longrightarrow> selection_ok st (selectMonthYear st v p i)"
  by (simp add: selectMonthYear_def adjustDate_ok)

lemma selectDate_ok:
  assumes "limits_ok st" and "selection_ok st i"
  shows "selection_ok st (selectDate st s i)"
proof -
  have "selection_ok st (i\<lparr>field := s\<rparr>)" using assms(2) by (subst selection_frame [of _ i]) simp_all
  moreover have "selection_ok st (hideDatepicker (i\<lparr>field := s\<rparr>))"
    using assms(2) by (subst selection_frame [of _ i]) (simp_all add: hideDatepicker_def)
  ultimately show ?thesis using update_ok [OF assms(1)] by (simp add: selectDate_def Let_def)
qed

lemma adjusts_ok: "limits_ok st \<Longrightarrow> \<not> disabled st \<Longrightarrow> selection_ok st i \<Longrightarrow> selection_ok st (fold (\<lambda>(n, p). adjustDate st n p) xs i)"
  by (induction xs arbitrary: i) (auto simp: adjustDate_ok)

lemma from_field_ok:
  assumes "limits_ok st" and "setDateFromField st nd i = Some i'" and "lastVal i = Some (field i) \<Longrightarrow> selection_ok st i"
  shows "selection_ok st i' \<and> view i' = view i"
proof (cases "lastVal i = Some (field i)")
  case False
  then show ?thesis using assms(1,2) adjust_selection
    by (auto simp: setDateFromField_def adjust_view select_parts_def set_current_def Let_def split: if_splits date_result.splits)
qed (use assms(2,3) in \<open>simp add: setDateFromField_def\<close>)

lemma set_date_ok:
  assumes "limits_ok st" and "setDate_inst st spec nc i = Some i'"
  shows "selection_ok st i'"
proof -
  obtain j where "i' = (if falsy_spec spec then (adjustInstDate st 0 No_period j)\<lparr>field := []\<rparr>
      else let (s, i4) = formatDate_inst st (adjustInstDate st 0 No_period j) in i4\<lparr>field := s\<rparr>)"
    using assms(2) unfolding setDate_inst_def Let_def by (fastforce split: option.splits)
  then show ?thesis
    using adjust_selection [OF assms(1), of 0 No_period j]
    by (auto simp: formatDate_inst_def set_current_def Let_def selection_ok_def selection_def selected_def split: if_splits)
qed

lemma select_day_ok:
  assumes "limits_ok st" and "selection_ok st i" and "cell_ok st c" and "selectDay st (int (getMonth (cell_date c))) (getFullYear (cell_date c)) c i = Some i'"
  shows "selection_ok st i'"
proof (cases "unselectable c \<or> disabled st")
  case False
  define t where "t = cell_date c"
  obtain d where d: "day_text c = Some d" "d = getDate t" "in_limits st t"
    using False assms(3,4) by (auto simp: selectDay_def cell_ok_def t_def split: option.splits)
  let ?j = "i\<lparr>selectedDay := d, currentDay := d, selectedMonth := int (getMonth t), currentMonth := int (getMonth t),
    selectedYear := getFullYear t, currentYear := getFullYear t\<rparr>"
  have "selection_ok st ?j" using d by (intro selectionI [of st t]) (simp_all add: selected_def)
  note ok = selectDate_ok [OF assms(1) this]
  have "i' = selectDate st (show_date st (new_date (getFullYear t) (int (getMonth t)) d)) ?j"
    using False assms(4) d(1) by (simp add: selectDay_def t_def)
  then show ?thesis using ok by (simp only:)
qed (use assms(2,4) in \<open>simp add: selectDay_def\<close>)

text \<open>An input field that has not been opened yet.\<close>

definition fresh :: "inst \<Rightarrow> bool" where
  "fresh i \<longleftrightarrow> \<not> showing i \<and> \<not> inline i \<and> lastVal i = None \<and> view i = view (newInst False [])"

lemma fresh_new [simp]: "fresh (newInst False v)"
  by (simp add: fresh_def newInst_def)

lemma opened_ok:
  assumes "limits_ok st" and "setDateFromField st nd i = Some i'" and "selection_ok st i \<or> fresh i"
  shows "selection_ok st i'"
proof -
  have "lastVal i = Some (field i) \<Longrightarrow> selection_ok st i" using assms(3) by (auto simp: fresh_def)
  note ok = from_field_ok [OF assms(1,2) this]
  then show ?thesis ..
qed

lemma show_ok:
  assumes "limits_ok st" and "showDatepicker st i = Some i'" and "selection_ok st i \<or> fresh i"
  shows "selection_ok st i' \<or> fresh i'"
proof (cases "disabled st \<or> showing i")
  case False
  then obtain j where j: "setDateFromField st False (i\<lparr>lastVal := None\<rparr>) = Some j"
    "i' = (if inline i then updateDatepicker st j else (updateDatepicker st j)\<lparr>showing := True\<rparr>)"
    using assms(2) by (auto simp: showDatepicker_def Let_def)
  have "selection_ok st j" using from_field_ok [OF assms(1) j(1)] by simp
  then have "selection_ok st (updateDatepicker st j)" by (rule update_ok [OF assms(1)])
  moreover have "selection_ok st ((updateDatepicker st j)\<lparr>showing := True\<rparr>) = selection_ok st (updateDatepicker st j)"
    by (rule selection_frame) simp_all
  ultimately show ?thesis using j(2) by simp
qed (use assms(2,3) in \<open>simp add: showDatepicker_def\<close>)

lemma drawn_cell: "drawn_ok st i \<Longrightarrow> k < length (tables (view i)) \<Longrightarrow> j < length (tables (view i) ! k) \<Longrightarrow> cell_ok st (tables (view i) ! k ! j)"
  by (simp add: drawn_ok_def list_all_length)

lemma key_ok:
  assumes "limits_ok st" and "\<not> disabled st" and "code \<noteq> 13" and "selection_ok st i \<or> fresh i"
    and "doKeyDown st code ctrl meta alt i = Some i'"
  shows "selection_ok st i' \<or> fresh i'"
proof -
  define i0 where "i0 = i\<lparr>keyEvent := True\<rparr>"
  have "selection_ok st i0 = selection_ok st i" unfolding i0_def by (rule selection_frame) simp_all
  then have 0: "selection_ok st i0 \<or> fresh i0" using assms(4) by (simp add: i0_def fresh_def)
  show ?thesis
  proof (cases "showing i")
    case True
    then have ok: "selection_ok st i0" using 0 by (auto simp: i0_def fresh_def)
    have "selection_ok st (hideDatepicker i0) = selection_ok st i0" by (rule selection_frame) (simp_all add: hideDatepicker_def)
    then show ?thesis
      using assms(3,5) True ok gotoToday_ok [OF assms(1,2), of i0] selectDate_ok [OF assms(1) ok, of "[]"] adjusts_ok [OF assms(1,2) ok]
      unfolding doKeyDown_def clearDate_def Let_def i0_def [symmetric] by (auto split: if_splits)
  next
    case False
    then show ?thesis using assms(5) show_ok [OF assms(1) _ 0] 0 unfolding doKeyDown_def Let_def i0_def [symmetric]
      by (auto split: if_splits)
  qed
qed

lemma typed_ok:
  assumes "limits_ok st" and "selection_ok st i \<or> fresh i" and "doKeyUp st i = Some i'"
  shows "selection_ok st i' \<or> fresh i'"
  using assms(2,3) update_ok [OF assms(1)] opened_ok [OF assms(1) _ assms(2)]
  by (auto simp: doKeyUp_def split: if_splits date_result.splits)

lemma hide_ok: "selection_ok st i \<or> fresh i \<Longrightarrow> selection_ok st (hideDatepicker i) \<or> fresh (hideDatepicker i)"
  using selection_frame [of "hideDatepicker i" i st] by (auto simp: hideDatepicker_def fresh_def)

lemma step_ok:
  assumes "limits_ok st" and "\<not> disabled st" and "\<not> enters e" and d: "drawn_ok st i" and inv: "selection_ok st i \<or> fresh i" and s: "dp_step st e i = Some i'"
  shows "selection_ok st i' \<or> fresh i'"
proof (cases e)
  case (Typed v)
  have "selection_ok st (i\<lparr>field := v\<rparr>) = selection_ok st i" by (rule selection_frame) simp_all
  then have "selection_ok st (i\<lparr>field := v\<rparr>) \<or> fresh (i\<lparr>field := v\<rparr>)" using inv by (simp add: fresh_def)
  from typed_ok [OF assms(1) this] show ?thesis using s inv by (auto simp: Typed split: if_splits)
next
  case (Click_day k j)
  show ?thesis
  proof (cases "k < length (tables (view i)) \<and> j < length (tables (view i) ! k) \<and> \<not> unselectable (tables (view i) ! k ! j)")
    case True
    then have "selection_ok st i" using inv by (auto simp: fresh_def)
    moreover have "cell_ok st (tables (view i) ! k ! j)" using drawn_cell [OF d] True by blast
    ultimately show ?thesis using s True select_day_ok [OF assms(1), of i "tables (view i) ! k ! j" i'] by (simp add: Click_day Let_def)
  qed (use s inv in \<open>auto simp: Click_day\<close>)
next
  case (Key code ctrl meta alt)
  then show ?thesis using s inv key_ok [OF assms(1,2) _ inv] assms(3) by (auto simp: enters_def split: if_splits)
next
  case Open
  then show ?thesis using s inv show_ok [OF assms(1) _ inv] by (auto split: if_splits)
next
  case Close
  then show ?thesis using s hide_ok [OF inv] by simp
next
  case (Set_date spec)
  then show ?thesis using s set_date_ok [OF assms(1)] update_ok [OF assms(1)] by auto
next
  case (Get_date nd)
  then show ?thesis using s inv opened_ok [OF assms(1) _ inv] by (auto simp: getDateDatepicker_def split: if_splits)
qed (use s inv adjustDate_ok [OF assms(1,2)] gotoToday_ok [OF assms(1,2)] selectMonthYear_ok [OF assms(1,2)] in \<open>auto split: if_splits\<close>)

lemma run_ok:
  assumes "limits_ok st" and "\<not> disabled st"
  shows "drawn_ok st i \<Longrightarrow> selection_ok st i \<or> fresh i \<Longrightarrow> list_all (\<lambda>e. \<not> enters e) es \<Longrightarrow> dp_run st es i = Some i' \<Longrightarrow>
    selection_ok st i' \<or> fresh i'"
proof (induction es arbitrary: i)
  case (Cons e es)
  then obtain j where j: "dp_step st e i = Some j" "dp_run st es j = Some i'" by (auto split: option.splits)
  have "selection_ok st j \<or> fresh j" using Cons.prems by (intro step_ok [OF assms _ _ _ j(1)]) simp_all
  moreover have "drawn_ok st j" using Cons.prems(1) j(1) by (rule step_drawn)
  ultimately show ?case using Cons j by simp
qed simp

lemma start_ok: "limits_ok st \<Longrightarrow> dp_start st inl v = Some i \<Longrightarrow> selection_ok st i \<or> fresh i"
  using set_date_ok [of st] update_ok [of st] by (auto simp: dp_start_def inlineDatepicker_def split: if_splits)

section \<open>The picker never gets stuck\<close>

text \<open>
  \<open>None\<close> as the result of a step stands for two failures of the code: the parser does not return, or a cell
  without a link is clicked and the date becomes \<open>NaN\<close>. Neither can happen if the format has no time stamp or no
  day of the year, and days of other months that can be selected are shown.
\<close>

definition counts_days :: "part \<Rightarrow> bool" where
  "counts_days x \<longleftrightarrow> (case x of Number c dbl \<Rightarrow> c = CHR ''o'' | _ \<Rightarrow> False)"

lemma counts_days_simps [simp]:
  "counts_days (Number c dbl) = (c = CHR ''o'')" "\<not> counts_days (Stamp c dbl)" "\<not> counts_days (Name c dbl)" "\<not> counts_days (Literal c)"
  by (simp_all add: counts_days_def)

definition never_hangs :: "dp_settings \<Rightarrow> bool" where
  "never_hangs st \<longleftrightarrow> list_all (\<lambda>x. \<not> stamped x) (parts False (dateFormat st)) \<or>
     list_all (\<lambda>x. \<not> counts_days x) (parts False (dateFormat st))"

definition runnable :: "dp_settings \<Rightarrow> bool" where
  "runnable st \<longleftrightarrow> never_hangs st \<and> (selectOtherMonths st \<longrightarrow> showOtherMonths st)"

lemma number_keeps: "getNumber c dbl p = Inr (n, p') \<Longrightarrow> year p' = year p \<and> doy p' = doy p"
  by (auto simp: getNumber_def Let_def split: if_splits)

lemma name_keeps: "getName ns p = Inr (n, p') \<Longrightarrow> year p' = year p \<and> doy p' = doy p"
  by (auto simp: getName_def split: option.splits)

lemma literal_keeps: "checkLiteral c p = Inr p' \<Longrightarrow> year p' = year p \<and> doy p' = doy p"
  by (auto simp: checkLiteral_def split: list.splits if_splits)

lemmas read_keeps = number_keeps name_keeps literal_keeps

lemma year_is_number:
  "list_all (\<lambda>x. \<not> stamped x) (parts literal f) \<Longrightarrow> year p \<noteq> None \<Longrightarrow> parse_loop st z literal f p = Inr p' \<Longrightarrow> year p' \<noteq> None"
proof (induction st z literal f p rule: parse_loop.induct)
  case (2 st z literal c f p)
  then show ?case by (auto split: if_splits sum.splits dest!: read_keeps)
qed simp

lemma doy_set_date [simp]: "doy (set_date t p) = doy p"
  by (simp add: set_date_def)

lemma no_day_of_year:
  "list_all (\<lambda>x. \<not> counts_days x) (parts literal f) \<Longrightarrow> doy p = -1 \<Longrightarrow> parse_loop st z literal f p = Inr p' \<Longrightarrow> doy p' = -1"
proof (induction st z literal f p rule: parse_loop.induct)
  case (2 st z literal c f p)
  let ?nums = "{CHR ''d'', CHR ''o'', CHR ''m'', CHR ''y'', CHR ''@'', CHR ''!''}"
  show ?case
  proof (cases "\<not> literal \<and> c \<in> ?nums")
    case True
    then obtain n q where q: "getNumber c (doubled c f) p = Inr (n, q)" using "2.prems"(3) by (auto split: sum.splits)
    have c: "c \<noteq> CHR ''o''" using "2.prems"(1) True by auto
    define r where "r = (if c = CHR ''d'' then q\<lparr>day := Some n\<rparr> else if c = CHR ''o'' then q\<lparr>doy := n\<rparr>
      else if c = CHR ''m'' then q\<lparr>month := Some n\<rparr> else if c = CHR ''y'' then q\<lparr>year := Some n\<rparr>
      else if c = CHR ''@'' then set_date (day_of z n) q else set_date (day_of z (ms_of_ticks n)) q)"
    have r: "doy r = -1" using number_keeps [OF q] "2.prems"(2) c by (simp add: r_def)
    have rest: "parse_loop st z False (behind c f) r = Inr p'" using "2.prems"(3) True q by (simp add: r_def)
    have parts: "list_all (\<lambda>x. \<not> counts_days x) (parts False (behind c f))" using "2.prems"(1) True by auto
    have "\<not> literal" "c \<in> ?nums" using True by blast+
    from "2.IH"(3) [OF this q refl] parts r rest show ?thesis unfolding r_def by blast
  next
    case False
    then show ?thesis using 2 by (auto split: if_splits sum.splits dest!: read_keeps)
  qed
qed simp

lemma parse_returns:
  assumes "never_hangs st"
  shows "parseDate now (Some (dateFormat st)) (Some v) fs z \<noteq> Hangs"
proof -
  have "finish_parse now fs p \<noteq> Hangs" if "year p \<noteq> None \<or> doy p = -1" for p
    using that by (auto simp: finish_parse_def Let_def split: option.splits prod.splits)
  moreover have "year p \<noteq> None \<or> doy p = -1" if "parse_loop fs z False (dateFormat st) (start_parse v) = Inr p" for p
    using assms year_is_number [OF _ _ that] no_day_of_year [OF _ _ that] by (auto simp: never_hangs_def start_parse_def)
  ultimately show ?thesis by (auto simp: parseDate_def split: sum.splits)
qed

lemma from_field_returns: "never_hangs st \<Longrightarrow> setDateFromField st nd i \<noteq> None"
  using parse_returns by (simp add: setDateFromField_def Let_def)

lemma set_date_returns:
  assumes "never_hangs st"
  shows "setDate_inst st spec nc i \<noteq> None"
proof -
  have "offsetString st i v \<noteq> None" for v
    using parse_returns [OF assms] by (auto simp: offsetString_def Let_def split: date_result.splits prod.splits)
  then have "\<exists>t. determineDate st i spec (Some (today st)) = Some (Some t)" by (auto simp: determineDate_def split: date_spec.splits)
  then show ?thesis by (auto simp: setDate_inst_def Let_def split_def)
qed

lemma show_returns: "never_hangs st \<Longrightarrow> showDatepicker st i \<noteq> None"
  using from_field_returns by (simp add: showDatepicker_def)

lemma select_day_returns:
  "runnable st \<Longrightarrow> cell_ok st c \<Longrightarrow> selectDay st m y c i \<noteq> None"
  by (auto simp: runnable_def cell_ok_def selectDay_def split: option.splits)

lemma drawn_member: "drawn_ok st i \<Longrightarrow> c \<in> set (concat (tables (view i))) \<Longrightarrow> cell_ok st c"
  by (auto simp: drawn_ok_def list_all_iff)

lemma enter_returns:
  assumes "runnable st" and "drawn_ok st i"
  shows "enter_key st i \<noteq> None"
proof -
  have "cell_ok st c" if "filter (\<lambda>c. dayOver c \<and> \<not> is_current c) (concat (tables (view i))) = c # cs" for c cs
    by (rule drawn_member [OF assms(2)]) (use arg_cong [OF that, of set] in auto)
  then show ?thesis using select_day_returns [OF assms(1)] by (simp add: enter_key_def split: list.split)
qed

lemma step_returns:
  assumes "runnable st" and "drawn_ok st i"
  shows "dp_step st e i \<noteq> None"
proof -
  have nh: "never_hangs st" using assms(1) by (simp add: runnable_def)
  note returns = from_field_returns [OF nh] set_date_returns [OF nh] show_returns [OF nh]
  show ?thesis
  proof (cases e)
    case (Key code ctrl meta alt)
    have "drawn_ok st (i\<lparr>keyEvent := True\<rparr>)" by (subst drawn_frame [of _ i]) (simp_all add: assms(2))
    then show ?thesis using Key returns enter_returns [OF assms(1)] by (simp add: doKeyDown_def Let_def)
  next
    case (Typed v)
    then show ?thesis using returns parse_returns [OF nh] by (simp add: doKeyUp_def split: date_result.split)
  next
    case (Click_day k j)
    then show ?thesis using select_day_returns [OF assms(1) drawn_cell [OF assms(2)]] by (simp add: Let_def)
  qed (use returns in \<open>simp_all add: getDateDatepicker_def\<close>)
qed

lemma run_returns:
  assumes "runnable st"
  shows "drawn_ok st i \<Longrightarrow> \<exists>i'. dp_run st es i = Some i'"
proof (induction es arbitrary: i)
  case (Cons e es)
  then obtain j where j: "dp_step st e i = Some j" using step_returns [OF assms] by blast
  then have "drawn_ok st j" using Cons.prems step_drawn by blast
  then show ?case using Cons.IH j by simp
qed simp

lemma start_returns: "never_hangs st \<Longrightarrow> \<exists>i0. dp_start st inl v = Some i0"
  using set_date_returns by (simp add: dp_start_def inlineDatepicker_def)

text \<open>
  C31: A date picker that is not disabled, with limits that do not contradict each other and a lower one, if any,
  behind the year 99, with a format without time stamps or without the day of the year, and with
  days of other months selectable only if they are shown, never gets stuck: whatever is done with
  it, it is in a proper state again. As long as the return key is not used, the date that is
  selected in an open or inline picker is a date of the calendar within the limits; and always
  every day that can be clicked is within the limits and shows its number.
\<close>

theorem selection_stays_in_limits:
  assumes "limits_ok st" and "\<not> disabled st" and "runnable st"
  shows "\<exists>i0 i. dp_start st inl v = Some i0 \<and> dp_run st es i0 = Some i \<and>
    (list_all (\<lambda>e. \<not> enters e) es \<longrightarrow> showing i \<or> inline i \<longrightarrow> selection_ok st i) \<and>
    list_all (list_all (cell_ok st)) (tables (view i))"
proof -
  obtain i0 where i0: "dp_start st inl v = Some i0" using start_returns assms(3) unfolding runnable_def by blast
  obtain i where i: "dp_run st es i0 = Some i" using run_returns [OF assms(3) start_drawn [OF i0]] by blast
  have "selection_ok st i \<or> fresh i" if "list_all (\<lambda>e. \<not> enters e) es"
    using run_ok [OF assms(1,2) start_drawn [OF i0] start_ok [OF assms(1) i0] that i] .
  then have "list_all (\<lambda>e. \<not> enters e) es \<longrightarrow> showing i \<or> inline i \<longrightarrow> selection_ok st i" by (auto simp: fresh_def)
  moreover have "list_all (list_all (cell_ok st)) (tables (view i))"
    using run_drawn [OF start_drawn [OF i0] i] by (simp add: drawn_ok_def)
  ultimately show ?thesis using i0 i by blast
qed

section \<open>Choosing a day\<close>

lemma new_date_of_parts: "99 < getFullYear t \<Longrightarrow> new_date (getFullYear t) (int (getMonth t)) (getDate t) = t"
  by (simp add: new_date_def make_day_of_parts)

text \<open>
  C32: After any use of a date picker that is not disabled a day that can be clicked and shows its number is the
  day that is chosen: the field shows it in the format, and the date the picker then returns, reading
  the field again where it has to, is this day. The format has to show a complete date without
  ambiguities and time stamps, with names that can be told apart; the year has four digits, and where
  the format shows two of them it lies in the hundred years around the cutoff.
\<close>

theorem chosen_day_is_returned:
  assumes "dp_start st inl v = Some i0" and "dp_run st es i0 = Some i" and "\<not> disabled st"
    and "k < length (tables (view i))" and "j < length (tables (view i) ! k)"
    and "\<not> unselectable (tables (view i) ! k ! j)" and "day_text (tables (view i) ! k ! j) \<noteq> None"
    and "list_all (\<lambda>x. \<not> stamped x) (parts False (dateFormat st))" and "clear (parts False (dateFormat st))"
    and "complete (parts False (dateFormat st))" and "settings_ok (formats st)"
    and "1000 \<le> getFullYear (cell_date (tables (view i) ! k ! j))" and "getFullYear (cell_date (tables (view i) ! k ! j)) \<le> 9999"
    and "Number CHR ''y'' False \<in> set (parts False (dateFormat st)) \<longrightarrow>
           in_window (this_year st) (formats st) (getFullYear (cell_date (tables (view i) ! k ! j)))"
  shows "\<exists>i'. dp_step st (Click_day k j) i = Some i' \<and> field i' = show_date st (cell_date (tables (view i) ! k ! j)) \<and>
    map_option fst (getDateDatepicker st noDefault i') = Some (Some (cell_date (tables (view i) ! k ! j)))"
proof -
  define c where "c = tables (view i) ! k ! j"
  define t where "t = cell_date c"
  have "drawn_ok st i" using run_drawn [OF start_drawn [OF assms(1)] assms(2)] .
  then have "cell_ok st c" using assms(4,5) by (simp add: drawn_ok_def list_all_length c_def)
  then have d: "day_text c = Some (getDate t)" using assms(7) by (auto simp: cell_ok_def c_def [symmetric] t_def)
  have year: "1000 \<le> getFullYear t" "getFullYear t \<le> 9999" using assms(12,13) by (simp_all add: t_def c_def)
  then have t: "new_date (getFullYear t) (int (getMonth t)) (getDate t) = t" by (intro new_date_of_parts) simp
  define J where "J = i\<lparr>selectedDay := getDate t, currentDay := getDate t, selectedMonth := int (getMonth t),
    currentMonth := int (getMonth t), selectedYear := getFullYear t, currentYear := getFullYear t\<rparr>"
  define i' where "i' = selectDate st (show_date st t) J"
  have step: "dp_step st (Click_day k j) i = Some i'"
    using assms(3-6) d t by (simp add: c_def [symmetric] t_def [symmetric] selectDay_def Let_def i'_def J_def)
  have f: "field i' = show_date st t" by (simp add: i'_def selectDate_def hideDatepicker_def Let_def)
  have parsed: "parseDate (this_year st) (Some (dateFormat st)) (Some (show_date st t)) (formats st) (zone st) = Parsed t"
    unfolding show_date_def using assms(14) year
    by (intro parse_of_formatted [OF assms(8-11)]) (simp_all add: t_def c_def)
  then have s: "show_date st t \<noteq> []" by (auto simp: parseDate_def)
  have cur: "currentDay i' = getDate t \<and> currentMonth i' = int (getMonth t) \<and> currentYear i' = getFullYear t"
    by (simp add: i'_def selectDate_def hideDatepicker_def J_def Let_def)
  have got: "getDate_inst z = Some t" if "currentDay z = getDate t \<and> currentMonth z = int (getMonth t) \<and> currentYear z = getFullYear t"
    "field z = show_date st t" for z
    using that s t year by (simp add: getDate_inst_def)
  have "map_option fst (getDateDatepicker st noDefault i') = Some (Some t)"
  proof (cases "inline i' \<or> lastVal i' = Some (field i')")
    case True
    then show ?thesis using got [OF cur f] by (auto simp: getDateDatepicker_def setDateFromField_def)
  next
    case False
    define z where "z = adjustInstDate st 0 No_period (set_current (select_parts t (i'\<lparr>lastVal := Some (field i')\<rparr>)))"
    have "setDateFromField st noDefault i' = Some z"
      using False parsed f s by (simp add: setDateFromField_def Let_def z_def)
    moreover have "getDate_inst z = Some t"
      by (rule got) (simp_all add: z_def set_current_def select_parts_def f)
    ultimately show ?thesis using False by (simp add: getDateDatepicker_def)
  qed
  then show ?thesis using step f by (auto simp: c_def [symmetric] t_def [symmetric])
qed

section \<open>A picker in use\<close>

lemma length_month_table [simp]: "length (month_table st i sel y m rows) = 7 * rows"
  by (simp add: month_table_def Let_def)

lemma nth_month_table:
  "k < 7 * rows \<Longrightarrow> month_table st i sel y m rows ! k = cell_of st i sel m (k mod 7) (new_date y m (1 - leadDays st y m) + int k)"
  by (simp add: month_table_def Let_def)

lemma dp_run_append: "dp_run st (xs @ ys) i = (case dp_run st xs i of None \<Rightarrow> None | Some j \<Rightarrow> dp_run st ys j)"
  by (induction xs arbitrary: i) (simp_all split: option.split)

lemma single_table:
  assumes "numberOfMonths st = (1, 1)" and "prepare_draw st i = j"
  shows "tables (view (updateDatepicker st i)) =
    [month_table st (clip_selected (drawYear j, drawMonth j) j) (new_date (drawYear j) (drawMonth j) (selectedDay j))
       (drawYear j) (drawMonth j) (curRows st (drawYear j) (drawMonth j))]"
  by (simp add: updateDatepicker_def generateHTML_def drawn_months_def assms Let_def split_def)

definition sample_settings :: dp_settings where
  "sample_settings = \<lparr>dateFormat = ''dd.mm.yy'', formats = no_settings, zone = sample_zone, today = 15772,
     minDate = Some (new_date 2013 2 5), maxDate = Some (new_date 2013 3 20), defaultDate = 15772, showCurrentAtPos = 0, stepMonths = 1,
     stepBigMonths = 12, numberOfMonths = (1, 1), firstDay = 1, gotoCurrent = False, isRTL = False, showOtherMonths = False,
     selectOtherMonths = False, changeMonth = True, changeYear = False, yearRange = Some (''c-10'', ''c+10''), constrainInput = True,
     showButtonPanel = True, onSelect = False, disabled = False, beforeShowDay = noWeekends\<rparr>"

lemma sample_limits: "limits_ok sample_settings" "\<not> disabled sample_settings"
  by code_simp+

definition sample_opened :: inst where
  "sample_opened = (select_parts 15772 (newInst False []))\<lparr>lastVal := Some []\<rparr>"

lemma sample_opens: "setDateFromField sample_settings False ((newInst False [])\<lparr>lastVal := None\<rparr>) = Some sample_opened"
  by code_simp

lemma sample_open: "dp_run sample_settings [Open] (newInst False []) = Some ((updateDatepicker sample_settings sample_opened)\<lparr>showing := True\<rparr>)"
  using sample_opens sample_limits(2) by (simp add: showDatepicker_def Let_def newInst_def)

lemma sample_runnable: "runnable sample_settings"
proof -
  have "list_all (\<lambda>x. \<not> stamped x) (parts False (dateFormat sample_settings))" "\<not> selectOtherMonths sample_settings"
    by code_simp+
  then show ?thesis by (simp add: runnable_def never_hangs_def)
qed

lemma selection_stays_in_limits_witness:
  "\<exists>i. dp_run sample_settings [Open, Next, Click_today] (newInst False []) = Some i \<and> showing i \<and> selection_ok sample_settings i"
proof -
  obtain i where i: "dp_run sample_settings [Next, Click_today] ((updateDatepicker sample_settings sample_opened)\<lparr>showing := True\<rparr>) = Some i" by simp
  have "showing (adjustDate st n p z) = showing z" "showing (notifyChange z) = showing z" "showing (select_parts t z) = showing z" for st n p z t
    by (simp_all add: adjustDate_def notifyChange_def select_parts_def)
  then have open_i: "showing i" using i by (auto simp: gotoToday_def)
  have run: "dp_run sample_settings [Open, Next, Click_today] (newInst False []) = Some i"
    using dp_run_append [of sample_settings "[Open]" "[Next, Click_today]"] sample_open i by simp
  have start: "dp_start sample_settings False [] = Some (newInst False [])" by (simp add: dp_start_def)
  obtain i0 i1 where "dp_start sample_settings False [] = Some i0" "dp_run sample_settings [Open, Next, Click_today] i0 = Some i1"
    "list_all (\<lambda>e. \<not> enters e) [Open, Next, Click_today] \<longrightarrow> showing i1 \<or> inline i1 \<longrightarrow> selection_ok sample_settings i1"
    using selection_stays_in_limits [OF sample_limits sample_runnable, of False "[]" "[Open, Next, Click_today]"] by blast
  then show ?thesis using start run open_i by (simp add: enters_def)
qed

lemma chosen_day_is_returned_witness:
  "\<exists>i i'. dp_run sample_settings [Open] (newInst False []) = Some i \<and> dp_step sample_settings (Click_day 0 14) i = Some i' \<and>
     field i' = ''11.03.2013'' \<and> map_option fst (getDateDatepicker sample_settings False i') = Some (Some 15775)"
proof -
  let ?i = "(updateDatepicker sample_settings sample_opened)\<lparr>showing := True\<rparr>"
  have p: "prepare_draw sample_settings sample_opened = sample_opened" by code_simp
  have n: "numberOfMonths sample_settings = (1, 1)" by (simp add: sample_settings_def)
  have parts: "drawYear sample_opened = 2013" "drawMonth sample_opened = 2" "curRows sample_settings 2013 2 = 5"
    "new_date 2013 2 (1 - leadDays sample_settings 2013 2) + 14 = 15775" by code_simp+
  define c where "c = cell_of sample_settings (clip_selected (2013, 2) sample_opened) (new_date 2013 2 (selectedDay sample_opened)) 2 0 15775"
  have t: "length (tables (view ?i)) = 1" "length (tables (view ?i) ! 0) = 35" "tables (view ?i) ! 0 ! 14 = c"
    using single_table [OF n p] parts by (simp_all add: nth_month_table c_def)
  have c: "\<not> unselectable c" "day_text c \<noteq> None" "cell_date c = 15775" unfolding c_def by code_simp+
  have f: "list_all (\<lambda>x. \<not> stamped x) (parts False (dateFormat sample_settings))" "clear (parts False (dateFormat sample_settings))"
    "complete (parts False (dateFormat sample_settings))" "settings_ok (formats sample_settings)" "1000 \<le> getFullYear 15775"
    "getFullYear 15775 \<le> 9999" "Number CHR ''y'' False \<notin> set (parts False (dateFormat sample_settings))"
    by code_simp+
  have "dp_start sample_settings False [] = Some (newInst False [])" by (simp add: dp_start_def)
  note start = this
  have k: "0 < length (tables (view ?i))" "14 < length (tables (view ?i) ! 0)" using t(1,2) by simp_all
  have w: "Number CHR ''y'' False \<in> set (parts False (dateFormat sample_settings)) \<longrightarrow>
      in_window (this_year sample_settings) (formats sample_settings) (getFullYear (cell_date (tables (view ?i) ! 0 ! 14)))"
    using f(7) by blast
  note chosen_day_is_returned [OF start sample_open sample_limits(2) k, unfolded t(3), OF c(1,2) f(1-4), unfolded c(3), OF f(5,6) w [unfolded t(3) c(3)], of False]
  moreover have "show_date sample_settings 15775 = ''11.03.2013''" by code_simp
  ultimately show ?thesis using sample_open by auto
qed

end
