(* ===== verification/UiDatepickerMonths.thy ===== *)
theory UiDatepickerMonths
  imports UiDatepickerRun
begin

text \<open>
  The months that are drawn: each table is a calendar of its month, steps from month to month add up; and
  what goes wrong in the code of the date picker.
\<close>

section \<open>A month is drawn as a calendar\<close>

text \<open>
  Whole weeks, four to six of them; a column for each day of the week, from the first day on; every day of
  the month once and in order, the first one in the first week.
\<close>

definition calendar :: "dp_settings \<Rightarrow> int \<times> int \<Rightarrow> cell list \<Rightarrow> bool" where
  "calendar st ym T \<longleftrightarrow>
     (case ym of (y, m) \<Rightarrow>
        length T \<in> {28, 35, 42} \<and>
        list_all (\<lambda>k. int (getDay (cell_date (T ! k))) = (firstDay st + int k) mod 7) [0..<length T] \<and>
        map cell_date (filter (\<lambda>c. \<not> otherMonth c) T) = map (make_day y m) [1..month_length y (nat m)] \<and>
        list_ex (\<lambda>c. cell_date c = make_day y m 1) (take 7 T))"

lemma other_month: "0 \<le> m \<Longrightarrow> m < 12 \<Longrightarrow> (m - 1) mod 12 \<noteq> m \<and> (m + 1) mod 12 \<noteq> (m :: int)"
proof -
  assume "0 \<le> m" "m < 12"
  then have m: "m mod 12 = m" by (rule mod_pos_pos_trivial)
  have "(m - 1) mod 12 \<noteq> m mod 12" "(m + 1) mod 12 \<noteq> m mod 12" unfolding mod_eq_dvd_iff by simp_all
  then show ?thesis unfolding m by blast
qed

lemma month_of_offset:
  assumes "0 \<le> m" and "m < 12" and "- 6 \<le> j" and "j \<le> 41"
  shows "int (getMonth (make_day y m 1 + j)) = m \<longleftrightarrow> 0 \<le> j \<and> j < month_length y (nat m)"
proof -
  define N where "N = month_length y (nat m)"
  have N: "28 \<le> N" unfolding N_def using month_length_bounds by blast
  have m: "m div 12 = 0" "m mod 12 = m" using assms(1,2) by simp_all
  have month: "int (getMonth (make_day y (m + e) d)) = (m + e) mod 12" if "1 \<le> d" "d \<le> month_length (y + (m + e) div 12) (nat ((m + e) mod 12))" for e d
  proof -
    define r where "r = (m + e) mod 12"
    have r: "0 \<le> r" "r < 12" unfolding r_def by simp_all
    then have "nat r < 12" by simp
    then have "proper (y + (m + e) div 12) (nat r) d" using that by (simp add: proper_def r_def)
    from make_day_parts [OF this] show ?thesis using r by (simp add: make_day_norm [of y "m + e" d] r_def)
  qed
  consider "j < 0" | "0 \<le> j" "j < N" | "N \<le> j" by linarith
  then show ?thesis
  proof cases
    case 1
    define P where "P = month_length (y + (m + - 1) div 12) (nat ((m + - 1) mod 12))"
    have "28 \<le> P" unfolding P_def using month_length_bounds by blast
    then have "int (getMonth (make_day y (m + - 1) (P + (1 + j)))) = (m + - 1) mod 12" using 1 assms(3) by (intro month) (simp_all add: P_def)
    moreover have "make_day y (m + - 1) (P + (1 + j)) = make_day y m 1 + j"
      using next_month [of y "m + - 1" "1 + j"] make_day_add [of y m 1 j] by (simp add: P_def)
    ultimately show ?thesis using other_month [OF assms(1,2)] 1 by simp
  next
    case 2
    then have "int (getMonth (make_day y (m + 0) (1 + j))) = (m + 0) mod 12" by (intro month) (simp_all add: m N_def)
    then show ?thesis using 2 make_day_add [of y m 1 j] by (simp add: m N_def)
  next
    case 3
    have "28 \<le> month_length (y + (m + 1) div 12) (nat ((m + 1) mod 12))" using month_length_bounds by blast
    then have "int (getMonth (make_day y (m + 1) (1 + j - N))) = (m + 1) mod 12" using 3 N assms(4) by (intro month) simp_all
    moreover have "make_day y (m + 1) (1 + j - N) = make_day y m 1 + j"
      using next_month [of y m "1 + j - N"] make_day_add [of y m 1 j] by (simp add: N_def m)
    ultimately show ?thesis using other_month [OF assms(1,2)] 3 by (simp add: N_def)
  qed
qed

lemma column_day: "(a - ((a + 4) mod 7 - f + 7) mod 7 + k + 4) mod 7 = (f + k) mod (7 :: int)"
proof -
  define w where "w = (a + 4) mod 7"
  define x where "x = (w - f + 7) mod 7"
  define d e where "d = (a + 4) div 7" and "e = (w - f + 7) div 7"
  have "7 * d + w = a + 4" unfolding d_def w_def by (rule mult_div_mod_eq)
  moreover have "7 * e + x = w - f + 7" unfolding e_def x_def by (rule mult_div_mod_eq)
  ultimately have "a - x + k + 4 - (f + k) = 7 * (d + e - 1)" by simp
  then have "(a - x + k + 4) mod 7 = (f + k) mod 7" unfolding mod_eq_dvd_iff by (simp only: dvd_triv_left)
  then show ?thesis unfolding x_def w_def .
qed

lemma filter_interval: "a + n \<le> b \<Longrightarrow> filter (\<lambda>k. a \<le> k \<and> k < a + n) [0..<b] = [a..<a + n]" for a n b :: nat
proof -
  assume b: "a + n \<le> b"
  have "[0..<b] = [0..<a] @ [a..<a + n] @ [a + n..<b]"
    using b by (metis le_add1 le_trans upt_add_eq_append zero_le le_add_diff_inverse)
  moreover have "filter (\<lambda>k. a \<le> k \<and> k < a + n) [0..<a] = []" "filter (\<lambda>k. a \<le> k \<and> k < a + n) [a + n..<b] = []"
    "filter (\<lambda>k. a \<le> k \<and> k < a + n) [a..<a + n] = [a..<a + n]"
    by (auto simp: filter_empty_conv filter_id_conv)
  ultimately show ?thesis by simp
qed

lemma lead_bounds: "0 \<le> firstDay st \<Longrightarrow> firstDay st \<le> 6 \<Longrightarrow>
   leadDays st y m = ((new_date y m 1 + 4) mod 7 - firstDay st + 7) mod 7 \<and> 0 \<le> leadDays st y m \<and> leadDays st y m \<le> 6"
proof -
  assume f: "0 \<le> firstDay st" "firstDay st \<le> 6"
  define w where "w = (new_date y m 1 + 4) mod 7"
  have w: "0 \<le> w" "w < 7" unfolding w_def by simp_all
  define r where "r = (w - firstDay st + 7) mod 7"
  have r: "0 \<le> r" "r < 7" unfolding r_def by simp_all
  have "leadDays st y m = r"
    using f w by (simp add: leadDays_def js_rem_def getFirstDayOfMonth_def getDay_def w_def [symmetric] r_def)
  then show ?thesis using r by (simp add: r_def w_def)
qed

lemma rows_bounds:
  assumes "0 \<le> firstDay st" and "firstDay st \<le> 6" and "\<not> (0 \<le> y \<and> y \<le> 99)" and "0 \<le> m" and "m < 12"
  shows "4 \<le> curRows st y m \<and> curRows st y m \<le> 6 \<and> leadDays st y m + month_length y (nat m) \<le> 7 * int (curRows st y m)"
proof -
  define L N where "L = leadDays st y m" and "N = month_length y (nat m)"
  have L: "0 \<le> L" "L \<le> 6" using lead_bounds [OF assms(1,2)] by (simp_all add: L_def)
  have N: "28 \<le> N" "N \<le> 31" unfolding N_def using month_length_bounds by blast+
  have "nat m < 12" using assms(4,5) by simp
  then have "getDaysInMonth y m = N" using days_in_month_of [OF assms(3), of "nat m"] assms(4) by (simp add: N_def)
  then have c: "curRows st y m = nat ((L + N + 6) div 7)" by (simp add: curRows_def L_def)
  define q where "q = (L + N + 6) div 7"
  have "7 * q \<le> L + N + 6" "L + N + 6 < 7 * q + 7" unfolding q_def by simp_all
  then have "4 \<le> q" "q \<le> 6" "L + N \<le> 7 * q" using L N by linarith+
  moreover have "4 \<le> nat q \<and> nat q \<le> 6" using \<open>4 \<le> q\<close> \<open>q \<le> 6\<close> by (simp add: le_nat_iff nat_le_iff)
  ultimately show ?thesis by (simp add: c q_def [symmetric] L_def [symmetric] N_def [symmetric])
qed

lemma month_table_calendar:
  assumes f: "0 \<le> firstDay st" "firstDay st \<le> 6" and y: "\<not> (0 \<le> y \<and> y \<le> 99)" and m: "0 \<le> m" "m < 12"
    and rows: "curRows st y m \<le> rows" "rows \<le> 6"
  shows "calendar st (y, m) (month_table st i sel y m rows)"
proof -
  let ?T = "month_table st i sel y m rows"
  define L N F where "L = leadDays st y m" and "N = month_length y (nat m)" and "F = make_day y m 1"
  have new: "new_date y m d = make_day y m d" for d using y by (auto simp: new_date_def)
  have L: "L = ((F + 4) mod 7 - firstDay st + 7) mod 7" "0 \<le> L" "L \<le> 6"
    using lead_bounds [OF f, of y m] by (simp_all add: L_def F_def new)
  have R: "4 \<le> rows" "L + N \<le> 7 * int rows" using rows_bounds [OF f y m] rows by (simp_all add: L_def N_def)
  have N: "28 \<le> N" unfolding N_def using month_length_bounds by blast
  have "new_date y m (1 - L) = F - L" using make_day_add [of y m 1 "- L"] by (simp add: new F_def)
  then have T: "?T = map (\<lambda>k. cell_of st i sel m (k mod 7) (F - L + int k)) [0..<7 * rows]"
    by (simp add: month_table_def Let_def L_def)
  have date: "cell_date (cell_of st i sel m w t) = t" "otherMonth (cell_of st i sel m w t) = (int (getMonth t) \<noteq> m)" for w t
    by (simp_all add: cell_of_def Let_def)
  have size: "length ?T \<in> {28, 35, 42}" using R(1) rows(2) by simp presburger
  have "int (getDay (F - L + int k)) = (firstDay st + int k) mod 7" for k
    using column_day [of F "firstDay st" "int k"] by (simp add: getDay_def L(1))
  then have days: "list_all (\<lambda>k. int (getDay (cell_date (?T ! k))) = (firstDay st + int k) mod 7) [0..<length ?T]"
    by (simp add: T list_all_iff date)
  have inside: "(\<not> int (getMonth (F - L + int k)) \<noteq> m) = (nat L \<le> k \<and> k < nat L + nat N)" if "k < 7 * rows" for k
    using month_of_offset [OF m, of "int k - L" y] that L rows(2) N unfolding F_def [symmetric] N_def [symmetric]
    by (simp add: diff_add_eq add_diff_eq) linarith
  have "filter (\<lambda>k. \<not> int (getMonth (F - L + int k)) \<noteq> m) [0..<7 * rows] = filter (\<lambda>k. nat L \<le> k \<and> k < nat L + nat N) [0..<7 * rows]"
    using inside by (intro filter_cong) simp_all
  also have "\<dots> = [nat L..<nat L + nat N]" using R(2) L(2) N by (intro filter_interval) linarith
  finally have "filter (\<lambda>k. \<not> int (getMonth (F - L + int k)) \<noteq> m) [0..<7 * rows] = [nat L..<nat L + nat N]" .
  then have "map cell_date (filter (\<lambda>c. \<not> otherMonth c) ?T) = map (\<lambda>k. F - L + int k) [nat L..<nat L + nat N]"
    by (simp add: T filter_map comp_def date)
  also have "\<dots> = map (make_day y m) [1..N]"
  proof (rule nth_equalityI)
    fix k assume "k < length (map (\<lambda>k. F - L + int k) [nat L..<nat L + nat N])"
    then have "k < nat N" by simp
    then show "map (\<lambda>k. F - L + int k) [nat L..<nat L + nat N] ! k = map (make_day y m) [1..N] ! k"
      using L(2) make_day_add [of y m 1 "int k"] by (simp add: F_def)
  qed (use N in simp)
  finally have all: "map cell_date (filter (\<lambda>c. \<not> otherMonth c) ?T) = map (make_day y m) [1..N]" .
  have "nat L < length (take 7 ?T)" using L R(1) by simp
  moreover have "cell_date (take 7 ?T ! nat L) = make_day y m 1" using L R(1) by (simp add: T date F_def)
  ultimately have "list_ex (\<lambda>c. cell_date c = make_day y m 1) (take 7 ?T)" unfolding list_ex_iff by (metis nth_mem)
  then show ?thesis using size days all by (simp only: calendar_def prod.case N_def)
qed

lemma draw_group_calendars:
  assumes f: "0 \<le> firstDay st" "firstDay st \<le> 6"
  shows "h \<le> 6 \<Longrightarrow> list_all (\<lambda>(y, m). 99 < y \<and> 0 \<le> m \<and> m < 12) yms \<Longrightarrow> list_all2 (calendar st) yms (fst (draw_group st h yms i))"
proof (induction yms arbitrary: h i)
  case (Cons ym yms)
  obtain y m where ym: "ym = (y, m)" by (cases ym)
  have y: "\<not> (0 \<le> y \<and> y \<le> 99)" "0 \<le> m" "m < 12" using Cons.prems(2) by (simp_all add: ym)
  define rows where "rows = (if numberOfMonths st \<noteq> (1, 1) then max h (curRows st y m) else curRows st y m)"
  have r: "curRows st y m \<le> rows" "rows \<le> 6" using rows_bounds [OF f y] Cons.prems(1) by (simp_all add: rows_def)
  have "fst (draw_group st h (ym # yms) i) =
    month_table st (clip_selected ym i) (new_date y m (selectedDay i)) y m rows # fst (draw_group st rows yms (clip_selected ym i))"
    by (simp add: ym rows_def Let_def split_def)
  then show ?case using month_table_calendar [OF f y r] Cons.IH [OF r(2), of "clip_selected ym i"] Cons.prems(2) by (simp add: ym)
qed simp

lemma draw_groups_calendars:
  assumes f: "0 \<le> firstDay st" "firstDay st \<le> 6"
  shows "list_all (list_all (\<lambda>(y, m). 99 < y \<and> 0 \<le> m \<and> m < 12)) gs \<Longrightarrow> list_all2 (calendar st) (concat gs) (fst (draw_groups st gs i))"
proof (induction gs arbitrary: i)
  case (Cons g gs)
  show ?case using draw_group_calendars [OF f, of 4 g i] Cons by (simp add: split_def Let_def list_all2_appendI)
qed simp

lemma next_drawn_proper: "99 < fst ym \<and> 0 \<le> snd ym \<and> snd ym < 12 \<Longrightarrow>
   99 < fst ((next_drawn ^^ k) ym) \<and> 0 \<le> snd ((next_drawn ^^ k) ym) \<and> snd ((next_drawn ^^ k) ym) < 12"
  by (induction k) (auto simp: next_drawn_def split_def)

text \<open>
  C33: after every update the tables that are drawn are calendars of the months that are to be drawn, one
  after the other, if the week begins with one of its days and the year has more than two digits.
\<close>

theorem months_are_calendars:
  assumes "0 \<le> firstDay st" and "firstDay st \<le> 6" and "99 < drawYear (updateDatepicker st i)"
    and "0 \<le> drawMonth (updateDatepicker st i)" and "drawMonth (updateDatepicker st i) < 12"
  shows "list_all2 (calendar st) (concat (drawn_months st (updateDatepicker st i))) (tables (view (updateDatepicker st i)))"
proof -
  define p where "p = prepare_draw st i"
  define gs where "gs = drawn_months st p"
  obtain d where d: "snd (draw_groups st gs p) = p\<lparr>selectedDay := d\<rparr>" using draw_groups_frame by blast
  have u: "updateDatepicker st i = (snd (draw_groups st gs p))\<lparr>keyEvent := False, view := fst (generateHTML st i)\<rparr>"
    "tables (view (updateDatepicker st i)) = fst (draw_groups st gs p)"
    by (simp_all add: updateDatepicker_def generateHTML_def p_def gs_def Let_def split_def)
  then have ym: "drawYear (updateDatepicker st i) = drawYear p" "drawMonth (updateDatepicker st i) = drawMonth p" by (simp_all add: d)
  then have gs: "drawn_months st (updateDatepicker st i) = gs" by (simp add: drawn_months_def gs_def)
  have "list_all (list_all (\<lambda>(y, m). 99 < y \<and> 0 \<le> m \<and> m < 12)) gs"
    using next_drawn_proper [of "(drawYear p, drawMonth p)"] assms(3-5)
    by (simp add: gs_def drawn_months_def list_all_iff ym split_def Let_def)
  from draw_groups_calendars [OF assms(1,2) this, of p] show ?thesis unfolding gs u(2) .
qed

lemma update_month:
  "drawYear (updateDatepicker st i) = drawYear (prepare_draw st i)" "drawMonth (updateDatepicker st i) = drawMonth (prepare_draw st i)"
proof -
  obtain d where "snd (draw_groups st (drawn_months st (prepare_draw st i)) (prepare_draw st i)) = (prepare_draw st i)\<lparr>selectedDay := d\<rparr>"
    using draw_groups_frame by blast
  then show "drawYear (updateDatepicker st i) = drawYear (prepare_draw st i)" "drawMonth (updateDatepicker st i) = drawMonth (prepare_draw st i)"
    by (simp_all add: updateDatepicker_def generateHTML_def Let_def split_def)
qed

lemma months_are_calendars_witness:
  "list_all2 (calendar sample_settings) [(2013, 2)] (tables (view (updateDatepicker sample_settings sample_opened)))"
proof -
  let ?j = "updateDatepicker sample_settings sample_opened"
  have p: "prepare_draw sample_settings sample_opened = sample_opened" by code_simp
  have ym: "drawYear sample_opened = 2013" "drawMonth sample_opened = 2" "firstDay sample_settings = 1" "numberOfMonths sample_settings = (1, 1)"
    by code_simp+
  have "drawn_months sample_settings ?j = [[(2013, 2)]]" by (simp add: drawn_months_def update_month p ym)
  then have "concat (drawn_months sample_settings ?j) = [(2013, 2)]" by simp
  moreover have "list_all2 (calendar sample_settings) (concat (drawn_months sample_settings ?j)) (tables (view ?j))"
    by (rule months_are_calendars) (simp_all add: update_month p ym)
  ultimately show ?thesis by simp
qed

section \<open>Going from month to month\<close>

definition drawn_month :: "inst \<Rightarrow> int" where
  "drawn_month i = 12 * drawYear i + drawMonth i"

lemma group_keeps_day: "1 \<le> selectedDay i \<Longrightarrow> 1 \<le> selectedDay (snd (draw_group st h yms i))"
proof (induction st h yms i rule: draw_group.induct)
  case (2 st h ym yms i)
  obtain y m where ym: "ym = (y, m)" by (cases ym)
  define rows where "rows = (if numberOfMonths st \<noteq> (1, 1) then max h (curRows st y m) else curRows st y m)"
  have "1 \<le> selectedDay (clip_selected ym i)" using 2 days_in_month_pos [of y m] by (auto simp: clip_selected_def ym)
  from "2.IH" [OF refl ym [symmetric] refl refl refl rows_def this] show ?case by (auto simp: ym rows_def Let_def split_def)
qed simp

lemma groups_keep_day: "1 \<le> selectedDay i \<Longrightarrow> 1 \<le> selectedDay (snd (draw_groups st gs i))"
proof (induction st gs i rule: draw_groups.induct)
  case (2 st g gs i)
  obtain ts j where j: "draw_group st 4 g i = (ts, j)" by fastforce
  then have "1 \<le> selectedDay j" using group_keeps_day [OF "2.prems", of st 4 g] by simp
  then show ?case using "2.IH" [OF j [symmetric] refl] j by (simp add: split_def Let_def)
qed simp

lemma update_keeps_day: "1 \<le> selectedDay i \<Longrightarrow> 1 \<le> selectedDay (updateDatepicker st i)"
proof -
  assume d: "1 \<le> selectedDay i"
  obtain y m where "prepare_draw st i = i\<lparr>drawMonth := m, drawYear := y\<rparr>" using prepare_draw_eq by blast
  then have "1 \<le> selectedDay (prepare_draw st i)" using d by simp
  then show ?thesis using groups_keep_day [of "prepare_draw st i" st "drawn_months st (prepare_draw st i)"]
    by (simp add: updateDatepicker_def generateHTML_def Let_def split_def)
qed

lemma month_parts: "0 \<le> m \<and> m < 12 \<Longrightarrow> y = (12 * y + m) div 12 \<and> m = (12 * y + m) mod (12 :: int)"
  by simp

lemma adjust_month:
  assumes "minDate st = None" and "maxDate st = None" and "\<not> disabled st" and "0 \<le> showCurrentAtPos st" and "showCurrentAtPos st \<le> 12"
    and "1 \<le> selectedDay i" and "\<not> (0 \<le> drawYear i \<and> drawYear i \<le> 99)"
  shows "drawn_month (adjustDate st n M i) = drawn_month i + n \<and> 0 \<le> drawMonth (adjustDate st n M i) \<and>
    drawMonth (adjustDate st n M i) < 12 \<and> 1 \<le> selectedDay (adjustDate st n M i)"
proof -
  define y m p where "y = drawYear i" and "m = drawMonth i + (n + showCurrentAtPos st)" and "p = showCurrentAtPos st"
  define q r where "q = m div 12" and "r = m mod 12"
  have r: "0 \<le> r" "r < 12" and m: "m = 12 * q + r" unfolding q_def r_def by simp_all
  define d where "d = min (selectedDay i) (getDaysInMonth y m)"
  have days: "getDaysInMonth y m = month_length (y + q) (nat r)"
    using assms(7) unfolding getDaysInMonth_eq q_def r_def y_def by (simp only: if_False)
  have "proper (y + q) (nat r) d"
    using r assms(6) month_length_bounds [of "y + q" "nat r"] by (auto simp: proper_def d_def days)
  note parts = make_day_parts [OF this]
  have "new_date y m d = make_day (y + q) (int (nat r)) d"
    using assms(7) make_day_norm [of y m d] by (simp only: new_date_def y_def q_def r_def if_False)
  then have t: "getFullYear (new_date y m d) = y + q" "int (getMonth (new_date y m d)) = r" "getDate (new_date y m d) = d"
    using parts r by simp_all
  define j where "j = adjustInstDate st (n + p) M i"
  have "restrictMinMax st t = t" for t using assms(1,2) by (simp add: restrictMinMax_def)
  then have j: "drawYear j = y + q" "drawMonth j = r" "selectedDay j = d"
    using t by (simp_all add: j_def adjustInstDate_def notifyChange_def select_parts_def Let_def y_def m_def p_def d_def add.assoc)
  have a: "adjustDate st n M i = updateDatepicker st j" using assms(3) by (simp add: adjustDate_def j_def p_def)
  have "prepare_draw st j = j\<lparr>drawMonth := if r - p < 0 then r - p + 12 else r - p, drawYear := if r - p < 0 then y + q - 1 else y + q\<rparr>"
    using assms(2) by (simp add: prepare_draw_def j p_def)
  then have "drawn_month (updateDatepicker st j) = 12 * (y + q) + r - p \<and> 0 \<le> drawMonth (updateDatepicker st j) \<and> drawMonth (updateDatepicker st j) < 12"
    using r assms(4,5) by (simp add: drawn_month_def update_month p_def)
  moreover have "12 * (y + q) + r - p = drawn_month i + n" using m by (simp add: drawn_month_def m_def p_def y_def)
  moreover have "1 \<le> selectedDay (updateDatepicker st j)"
    using assms(6) days_in_month_pos [of y m] by (intro update_keeps_day) (auto simp: j d_def)
  ultimately show ?thesis by (simp add: a)
qed

text \<open>
  C34: without limits any sequence of steps forth and back by whole months and years ends at the month that
  is the sum of the steps away, also with several months drawn and the current one among them; so the steps
  back undo those forth. No step may begin in one of the first hundred years.
\<close>

theorem steps_add_up:
  assumes "minDate st = None" and "maxDate st = None" and "\<not> disabled st" and "0 \<le> showCurrentAtPos st" and "showCurrentAtPos st \<le> 12"
    and "1 \<le> selectedDay i" and "0 \<le> drawMonth i" and "drawMonth i < 12"
    and "list_all (\<lambda>k. \<not> (0 \<le> (drawn_month i + sum_list (take k ns)) div 12 \<and> (drawn_month i + sum_list (take k ns)) div 12 \<le> 99)) [0..<length ns]"
  shows "drawYear (fold (\<lambda>n. adjustDate st n M) ns i) = (drawn_month i + sum_list ns) div 12 \<and>
    drawMonth (fold (\<lambda>n. adjustDate st n M) ns i) = (drawn_month i + sum_list ns) mod 12"
  using assms(6-9)
proof (induction ns arbitrary: i)
  case Nil
  then show ?case using month_parts [of "drawMonth i" "drawYear i"] by (simp add: drawn_month_def)
next
  case (Cons n ns)
  define j where "j = adjustDate st n M i"
  have all: "\<forall>k\<in>set [0..<Suc (length ns)].
      \<not> (0 \<le> (drawn_month i + sum_list (take k (n # ns))) div 12 \<and> (drawn_month i + sum_list (take k (n # ns))) div 12 \<le> 99)"
    using Cons.prems(4) by (simp only: list_all_iff length_Cons)
  have "0 \<in> set [0..<Suc (length ns)]" by simp
  from bspec [OF all this] have "\<not> (0 \<le> drawn_month i div 12 \<and> drawn_month i div 12 \<le> 99)" by simp
  then have "\<not> (0 \<le> drawYear i \<and> drawYear i \<le> 99)"
    using month_parts [of "drawMonth i" "drawYear i"] Cons.prems(2,3) unfolding drawn_month_def by metis
  note j = adjust_month [OF assms(1-5) Cons.prems(1) this, of n, folded j_def]
  have later: "\<not> (0 \<le> (drawn_month j + sum_list (take k ns)) div 12 \<and> (drawn_month j + sum_list (take k ns)) div 12 \<le> 99)"
    if "k < length ns" for k
    
  proof -
    have "Suc k \<in> set [0..<Suc (length ns)]" using that by (simp only: set_upt) simp
    from bspec [OF all this] j show ?thesis by (simp add: add.assoc)
  qed
  have "list_all (\<lambda>k. \<not> (0 \<le> (drawn_month j + sum_list (take k ns)) div 12 \<and> (drawn_month j + sum_list (take k ns)) div 12 \<le> 99)) [0..<length ns]"
    unfolding list_all_iff by (rule ballI, rule later, simp only: set_upt atLeastLessThan_iff)
  then have "drawYear (fold (\<lambda>n. adjustDate st n M) ns j) = (drawn_month j + sum_list ns) div 12 \<and>
    drawMonth (fold (\<lambda>n. adjustDate st n M) ns j) = (drawn_month j + sum_list ns) mod 12"
    using j by (intro Cons.IH) simp_all
  then show ?case using j unfolding j_def [symmetric] by (simp only: fold_Cons comp_def sum_list.Cons add.assoc j_def)
qed

definition unlimited_settings :: dp_settings where
  "unlimited_settings = sample_settings\<lparr>minDate := None, maxDate := None, numberOfMonths := (1, 2), showCurrentAtPos := 1\<rparr>"

lemma steps_add_up_witness:
  "drawYear (fold (\<lambda>n. adjustDate unlimited_settings n M) [1, 12, - 13] sample_opened) = 2013 \<and>
   drawMonth (fold (\<lambda>n. adjustDate unlimited_settings n M) [1, 12, - 13] sample_opened) = 2"
proof -
  have "minDate unlimited_settings = None" "maxDate unlimited_settings = None" "\<not> disabled unlimited_settings"
    "0 \<le> showCurrentAtPos unlimited_settings" "showCurrentAtPos unlimited_settings \<le> 12"
    by (simp_all add: unlimited_settings_def sample_settings_def)
  moreover have "1 \<le> selectedDay sample_opened" "0 \<le> drawMonth sample_opened" "drawMonth sample_opened < 12"
    "list_all (\<lambda>k. \<not> (0 \<le> (drawn_month sample_opened + sum_list (take k [1, 12, - 13])) div 12 \<and>
       (drawn_month sample_opened + sum_list (take k [1, 12, - 13])) div 12 \<le> 99)) [0..<length [1, 12, - 13 :: int]]"
    by code_simp+
  ultimately have "drawYear (fold (\<lambda>n. adjustDate unlimited_settings n M) [1, 12, - 13] sample_opened) = (drawn_month sample_opened + sum_list [1, 12, - 13]) div 12 \<and>
    drawMonth (fold (\<lambda>n. adjustDate unlimited_settings n M) [1, 12, - 13] sample_opened) = (drawn_month sample_opened + sum_list [1, 12, - 13]) mod 12"
    by (rule steps_add_up)
  moreover have "drawn_month sample_opened + sum_list [1, 12, - 13] = 24158" by code_simp
  ultimately show ?thesis by simp
qed

section \<open>What goes wrong\<close>

text \<open>
  \<open>setDate(0)\<close> means today but empties the field. A blank cell can be chosen where days of other months can
  be selected but are not shown. One step back from December 99 leads to 1999. The return key takes
  the month of the selection for a day highlighted in another month. The link to today moves the selection
  of a picker that is disabled.
\<close>

lemma set_date_zero_empties:
  "case setDate_inst sample_settings (Days 0) False sample_opened of None \<Rightarrow> False | Some i \<Rightarrow> field i = [] \<and> currentDay i = 8 \<and> getDate_inst i = None"
  by code_simp

lemma blank_cell_can_be_chosen:
  "let st = sample_settings\<lparr>selectOtherMonths := True\<rparr>; c = cell_of st sample_opened 15772 2 0 (new_date 2013 3 1)
   in \<not> unselectable c \<and> selectDay st 3 2013 c sample_opened = None"
  by code_simp

lemma back_from_year_99:
  "drawYear (adjustInstDate unlimited_settings (- 1) M (sample_opened\<lparr>drawYear := 99, drawMonth := 11\<rparr>)) = 1999"
  by code_simp

lemma enter_takes_other_month:
  "let st = unlimited_settings\<lparr>defaultDate := new_date 2013 3 8\<rparr>; c = cell_of st sample_opened (new_date 2013 3 8) 3 0 (new_date 2013 3 8)
   in case enter_key st (sample_opened\<lparr>view := (view sample_opened)\<lparr>tables := [[c]]\<rparr>\<rparr>) of
        None \<Rightarrow> False | Some i \<Rightarrow> show_date st (cell_date c) = ''08.04.2013'' \<and> field i = ''08.03.2013''"
  by code_simp

lemma today_moves_disabled:
  "disabled st \<Longrightarrow> \<not> gotoCurrent st \<Longrightarrow> selection (gotoToday st i) = today st"
  by (simp add: gotoToday_def adjustDate_def notifyChange_def select_parts_def selection_def make_day_of_parts)

end
