(* ===== verification/UiSlider.thy ===== *)
theory UiSlider
  imports UiMouse UiGeometry
begin

text \<open>
  Sliders (\<open>slider.js\<close>): the values of the handles, moved with the mouse through the protocol of
  \<open>UiMouse\<close>, with the keys or by the page. Numbers are exact; \<open>NaN\<close>, which reading a value that is not
  there gives, is \<open>None\<close>. Callbacks may refuse to start or to slide but do not change the slider.
\<close>

section \<open>State\<close>

datatype slider_range = No_range | Range | Range_min | Range_max

datatype slider_call = Start "nat option" | Slide nat "rat option" | Stop nat | Change nat

text \<open>
  \<open>placed\<close> are the places of the handles in percent, \<open>range_place\<close> the begin and the extent of the range;
  \<open>sent\<close> are the callbacks that were called.
\<close>

record slider =
  o_min :: rat
  o_max :: rat
  o_step :: rat
  o_value :: "rat option"
  o_values :: "rat option list option"
  o_range :: slider_range
  o_vertical :: bool
  o_disabled :: bool
  keySliding :: bool
  mouseSliding :: bool
  handleIndex :: "nat option"
  lastChanged :: "nat option"
  clickOffset :: "pos option"
  elementSize :: "rat \<times> rat"
  elementOffset :: pos
  n_handles :: nat
  has_range :: bool
  placed :: "rat option list"
  range_place :: "rat option \<times> rat option"
  sent :: "slider_call list"

text \<open>What the page has: sizes and offsets, what a press hits and what the callbacks answer.\<close>

record slider_env =
  outer_size :: "rat \<times> rat"
  outer_offset :: pos
  handle_offset :: "slider \<Rightarrow> nat \<Rightarrow> pos"
  handle_size :: "nat \<Rightarrow> rat \<times> rat"
  handle_edges :: "nat \<Rightarrow> rat"
  on_handle :: "mouse_event \<Rightarrow> bool"
  hovered :: "slider \<Rightarrow> bool"
  start_ok :: "nat option \<Rightarrow> slider \<Rightarrow> bool"
  slide_ok :: "nat \<Rightarrow> rat option \<Rightarrow> slider \<Rightarrow> bool"

section \<open>Values\<close>

text \<open>The remainder is that of a positive number by a positive step.\<close>

definition trimAlignValue :: "slider \<Rightarrow> rat option \<Rightarrow> rat option" where
  "trimAlignValue s val =
     (case val of None \<Rightarrow> None
      | Some v \<Rightarrow>
          if v \<le> o_min s then Some (o_min s) else if o_max s \<le> v then Some (o_max s)
          else let step = (if 0 < o_step s then o_step s else 1);
                   valModStep = v - o_min s - step * of_int \<lfloor>(v - o_min s) / step\<rfloor>;
                   alignValue = v - valModStep;
                   aligned = (if step \<le> \<bar>valModStep\<bar> * 2 then alignValue + (if 0 < valModStep then step else - step) else alignValue)
               in Some (to_fixed 5 aligned))"

definition has_values :: "slider \<Rightarrow> bool" where
  "has_values s \<longleftrightarrow> (case o_values s of None \<Rightarrow> False | Some vs \<Rightarrow> vs \<noteq> [])"

definition nth_value :: "rat option list \<Rightarrow> nat \<Rightarrow> rat option" where
  "nth_value vs i = (if i < length vs then vs ! i else None)"

definition set_nth_value :: "rat option list \<Rightarrow> nat \<Rightarrow> rat option \<Rightarrow> rat option list" where
  "set_nth_value vs i x = (if i < length vs then vs[i := x] else vs @ replicate (i - length vs) None @ [x])"

definition value_get :: "slider \<Rightarrow> rat option" where
  "value_get s = trimAlignValue s (o_value s)"

definition values_list :: "slider \<Rightarrow> rat option list" where
  "values_list s = (case o_values s of None \<Rightarrow> [] | Some vs \<Rightarrow> map (trimAlignValue s) vs)"

text \<open>\<open>values(index)\<close>; a slider without values has its only value at every index.\<close>

definition values_get :: "slider \<Rightarrow> nat \<Rightarrow> rat option" where
  "values_get s i = (if has_values s then trimAlignValue s (nth_value (the (o_values s)) i) else value_get s)"

section \<open>Drawing\<close>

definition percent :: "slider \<Rightarrow> rat option \<Rightarrow> rat option" where
  "percent s v = (case v of None \<Rightarrow> None
     | Some x \<Rightarrow> if o_max s = o_min s then None else Some ((x - o_min s) / (o_max s - o_min s) * 100))"

definition num_diff :: "rat option \<Rightarrow> rat option \<Rightarrow> rat option" where
  "num_diff a b = (case (a, b) of (Some x, Some y) \<Rightarrow> Some (x - y) | _ \<Rightarrow> None)"

definition refreshValue :: "slider \<Rightarrow> slider" where
  "refreshValue s =
     (if has_values s
      then let ps = map (\<lambda>i. percent s (values_get s i)) [0..<n_handles s]
           in s\<lparr>placed := ps,
                range_place := (if o_range s = Range
                  then (if 0 < n_handles s then ps ! 0 else fst (range_place s),
                        if 1 < n_handles s then num_diff (ps ! 1) (ps ! 0) else snd (range_place s))
                  else range_place s)\<rparr>
      else let p = (if o_max s \<noteq> o_min s then percent s (value_get s) else Some 0)
           in s\<lparr>placed := (case placed s of [] \<Rightarrow> [p] | _ # ps \<Rightarrow> p # ps),
                range_place := (if o_range s = Range_min then (fst (range_place s), p)
                  else if o_range s = Range_max then (fst (range_place s), num_diff (Some 100) p) else range_place s)\<rparr>)"

definition createRange :: "slider \<Rightarrow> slider" where
  "createRange s =
     (if o_range s = No_range then s\<lparr>has_range := False\<rparr>
      else let s1 = (if o_range s = Range
                     then (case o_values s of
                             None \<Rightarrow> s\<lparr>o_values := Some [Some (o_min s), Some (o_min s)]\<rparr>
                           | Some vs \<Rightarrow> if vs \<noteq> [] \<and> length vs \<noteq> 2 then s\<lparr>o_values := Some [hd vs, hd vs]\<rparr> else s)
                     else s)
           in if \<not> has_range s1 then s1\<lparr>has_range := True, range_place := (None, None)\<rparr>
              else s1\<lparr>range_place := (None, snd (range_place s1))\<rparr>)"

definition createHandles :: "slider \<Rightarrow> slider" where
  "createHandles s =
     (let n = (case o_values s of None \<Rightarrow> 1 | Some vs \<Rightarrow> if vs = [] then 1 else length vs)
      in s\<lparr>n_handles := n, placed := take n (placed s) @ replicate (n - length (placed s)) None\<rparr>)"

definition refresh_slider :: "slider \<Rightarrow> slider" where
  "refresh_slider s = refreshValue (createHandles (createRange s))"

definition create_slider :: "slider \<Rightarrow> slider" where
  "create_slider s =
     refresh_slider (s\<lparr>keySliding := False, mouseSliding := False, handleIndex := None, lastChanged := None, clickOffset := None,
       n_handles := 0, has_range := False, placed := [], range_place := (None, None), sent := []\<rparr>)"

section \<open>Sliding\<close>

definition send :: "slider_call \<Rightarrow> slider \<Rightarrow> slider" where
  "send c s = s\<lparr>sent := sent s @ [c]\<rparr>"

definition slider_change :: "nat \<Rightarrow> slider \<Rightarrow> slider" where
  "slider_change i s = (if keySliding s \<or> mouseSliding s then s else send (Change i) (s\<lparr>lastChanged := Some i\<rparr>))"

definition value_set :: "rat option \<Rightarrow> slider \<Rightarrow> slider" where
  "value_set v s = slider_change 0 (refreshValue (s\<lparr>o_value := trimAlignValue s v\<rparr>))"

definition values_set :: "nat \<Rightarrow> rat option \<Rightarrow> slider \<Rightarrow> slider" where
  "values_set i v s =
     slider_change i (refreshValue (s\<lparr>o_values := map_option (\<lambda>vs. set_nth_value vs i (trimAlignValue s v)) (o_values s)\<rparr>))"

text \<open>\<open>values(array)\<close>\<close>

definition values_replace :: "rat option list \<Rightarrow> slider \<Rightarrow> slider" where
  "values_replace news s =
     (case o_values s of
        None \<Rightarrow> refreshValue s
      | Some vs \<Rightarrow>
          refreshValue (fold (\<lambda>i t. slider_change i (t\<lparr>o_values := map_option (\<lambda>vs. vs[i := trimAlignValue t (nth_value news i)]) (o_values t)\<rparr>))
            [0..<length vs] s))"

definition num_gt :: "rat option \<Rightarrow> rat option \<Rightarrow> bool" where
  "num_gt a b \<longleftrightarrow> (case (a, b) of (Some x, Some y) \<Rightarrow> y < x | _ \<Rightarrow> False)"

definition slide :: "slider_env \<Rightarrow> nat \<Rightarrow> rat option \<Rightarrow> slider \<Rightarrow> slider" where
  "slide env i newVal s =
     (if has_values s
      then let other = values_get s (if i \<noteq> 0 then 0 else 1);
               new = (if length (the (o_values s)) = 2 \<and> o_range s = Range \<and>
                         (i = 0 \<and> num_gt newVal other \<or> i = 1 \<and> num_gt other newVal) then other else newVal)
           in if new \<noteq> None \<and> new = values_get s i then s
              else let s1 = send (Slide i new) s in if slide_ok env i new s then values_set i new s1 else s1
      else if newVal \<noteq> None \<and> newVal = value_get s then s
           else let s1 = send (Slide i newVal) s in if slide_ok env i newVal s then value_set newVal s1 else s1)"

section \<open>The mouse\<close>

text \<open>The element has an extent.\<close>

definition normValueFromMouse :: "slider \<Rightarrow> mouse_event \<Rightarrow> rat option" where
  "normValueFromMouse s e =
     (let click = (case clickOffset s of None \<Rightarrow> Pos 0 0 | Some p \<Rightarrow> p);
          total = (if o_vertical s then snd (elementSize s) else fst (elementSize s));
          pixel = (if o_vertical s then pageY e - top (elementOffset s) - top click else pageX e - left (elementOffset s) - left click);
          p1 = pixel / total;
          p2 = (if 1 < p1 then 1 else p1);
          p3 = (if p2 < 0 then 0 else p2);
          p4 = (if o_vertical s then 1 - p3 else p3)
      in trimAlignValue s (Some (o_min s + p4 * (o_max s - o_min s))))"

definition closer :: "slider \<Rightarrow> rat option \<Rightarrow> rat \<times> nat option \<Rightarrow> nat \<Rightarrow> rat \<times> nat option" where
  "closer s nv best i =
     (case num_diff nv (values_get s i) of
        None \<Rightarrow> best
      | Some d \<Rightarrow>
          if \<bar>d\<bar> < fst best \<or> fst best = \<bar>d\<bar> \<and> (lastChanged s = Some i \<or> values_get s i = Some (o_min s)) then (\<bar>d\<bar>, Some i) else best)"

definition closest_handle :: "slider \<Rightarrow> rat option \<Rightarrow> nat option" where
  "closest_handle s nv = snd (foldl (closer s nv) (o_max s - o_min s + 1, None) [0..<n_handles s])"

text \<open>If no handle is near enough, the code fails at the missing handle, after it has called \<open>start\<close>.\<close>

definition mouseCapture :: "slider_env \<Rightarrow> mouse_event \<Rightarrow> slider \<Rightarrow> slider \<times> bool" where
  "mouseCapture env e s =
     (if o_disabled s then (s, False)
      else let s1 = s\<lparr>elementSize := outer_size env, elementOffset := outer_offset env\<rparr>;
               nv = normValueFromMouse s1 e; index = closest_handle s1 nv; s2 = send (Start index) s1
           in if \<not> start_ok env index s1 then (s2, False)
              else let s3 = s2\<lparr>mouseSliding := True, handleIndex := index\<rparr>
                   in case index of
                        None \<Rightarrow> (s3, False)
                      | Some i \<Rightarrow>
                          let off = handle_offset env s3 i; (w, h) = handle_size env i;
                              click = (if on_handle env e then Pos (pageX e - left off - w / 2) (pageY e - top off - h / 2 - handle_edges env i)
                                       else Pos 0 0);
                              s4 = s3\<lparr>clickOffset := Some click\<rparr>
                          in (if hovered env s4 then s4 else slide env i nv s4, True))"

definition mouseDrag :: "slider_env \<Rightarrow> mouse_event \<Rightarrow> slider \<Rightarrow> slider" where
  "mouseDrag env e s = (case handleIndex s of None \<Rightarrow> s | Some i \<Rightarrow> slide env i (normValueFromMouse s e) s)"

definition mouseStop :: "slider \<Rightarrow> slider" where
  "mouseStop s =
     (let s1 = s\<lparr>mouseSliding := False\<rparr>;
          s2 = (case handleIndex s1 of None \<Rightarrow> s1 | Some i \<Rightarrow> slider_change i (send (Stop i) s1))
      in s2\<lparr>handleIndex := None, clickOffset := None\<rparr>)"

definition slider_methods :: "slider_env \<Rightarrow> slider mouse_methods" where
  "slider_methods env = base_methods\<lparr>m_capture := mouseCapture env, m_drag := (\<lambda>e s. (mouseDrag env e s, False)), m_stop := (\<lambda>e. mouseStop)\<rparr>"

section \<open>The keys\<close>

definition numPages :: rat where
  "numPages = 5"

datatype slider_key = Home | End | Page_up | Page_down | Up_right | Down_left | Other_key

text \<open>The new value, or \<open>None\<close> where the handler returns at an end.\<close>

definition key_value :: "slider \<Rightarrow> slider_key \<Rightarrow> rat option \<Rightarrow> rat option option" where
  "key_value s k cur =
     (let page = (o_max s - o_min s) / numPages
      in case k of
           Home \<Rightarrow> Some (Some (o_min s))
         | End \<Rightarrow> Some (Some (o_max s))
         | Page_up \<Rightarrow> Some (trimAlignValue s (map_option (\<lambda>v. v + page) cur))
         | Page_down \<Rightarrow> Some (trimAlignValue s (map_option (\<lambda>v. v - page) cur))
         | Up_right \<Rightarrow> if cur = Some (o_max s) then None else Some (trimAlignValue s (map_option (\<lambda>v. v + o_step s) cur))
         | Down_left \<Rightarrow> if cur = Some (o_min s) then None else Some (trimAlignValue s (map_option (\<lambda>v. v - o_step s) cur))
         | Other_key \<Rightarrow> Some cur)"

definition handle_keydown :: "slider_env \<Rightarrow> slider_key \<Rightarrow> nat \<Rightarrow> slider \<Rightarrow> slider" where
  "handle_keydown env k i s =
     (if o_disabled s then s
      else let starts = (k \<noteq> Other_key \<and> \<not> keySliding s);
               s1 = (if starts then send (Start (Some i)) (s\<lparr>keySliding := True\<rparr>) else s)
           in if starts \<and> \<not> start_ok env (Some i) s then s1
              else case key_value s1 k (values_get s1 i) of None \<Rightarrow> s1 | Some v \<Rightarrow> slide env i v s1)"

definition handle_keyup :: "nat \<Rightarrow> slider \<Rightarrow> slider" where
  "handle_keyup i s =
     (if o_disabled s \<or> \<not> keySliding s then s else slider_change i (send (Stop i) (s\<lparr>keySliding := False\<rparr>)))"

section \<open>Options\<close>

datatype slider_option =
    Set_orientation bool
  | Set_value "rat option"
  | Set_values "rat option list option"
  | Set_min rat
  | Set_max rat
  | Set_range slider_range
  | Set_step rat
  | Set_disabled bool

text \<open>Of a range with two handles one that is turned into a plain one keeps the value of one handle.\<close>

fun slider_setOption :: "slider_option \<Rightarrow> slider \<Rightarrow> slider" where
  "slider_setOption (Set_orientation b) s = refreshValue (s\<lparr>o_vertical := b\<rparr>)"
| "slider_setOption (Set_value v) s = slider_change 0 (refreshValue (s\<lparr>o_value := v\<rparr>))"
| "slider_setOption (Set_values vs) s =
     fold slider_change [0..<(case o_values s of None \<Rightarrow> 0 | Some old \<Rightarrow> length old)] (refreshValue (s\<lparr>o_values := vs\<rparr>))"
| "slider_setOption (Set_min m) s = refreshValue (s\<lparr>o_min := m\<rparr>)"
| "slider_setOption (Set_max m) s = refreshValue (s\<lparr>o_max := m\<rparr>)"
| "slider_setOption (Set_range r) s =
     (let s1 = (case o_values s of
          Some vs \<Rightarrow>
            if o_range s = Range \<and> r = Range_min then s\<lparr>o_value := trimAlignValue s (nth_value vs 0), o_values := None\<rparr>
            else if o_range s = Range \<and> r = Range_max then s\<lparr>o_value := trimAlignValue s (nth_value vs (length vs - 1)), o_values := None\<rparr>
            else s
        | None \<Rightarrow> s)
      in refresh_slider (s1\<lparr>o_range := r\<rparr>))"
| "slider_setOption (Set_step d) s = s\<lparr>o_step := d\<rparr>"
| "slider_setOption (Set_disabled b) s = s\<lparr>o_disabled := b\<rparr>"

section \<open>The nearest step\<close>

text \<open>
  A whole number of steps leads from the minimum to the maximum, and both minimum and step have at most five
  decimals.
\<close>

definition steps :: "slider \<Rightarrow> int" where
  "steps s = \<lfloor>(o_max s - o_min s) / o_step s\<rfloor>"

definition grid_value :: "slider \<Rightarrow> int \<Rightarrow> rat" where
  "grid_value s k = o_min s + o_step s * of_int k"

definition proper_slider :: "slider \<Rightarrow> bool" where
  "proper_slider s \<longleftrightarrow> 0 < o_step s \<and> o_min s \<le> o_max s \<and> grid_value s (steps s) = o_max s \<and> decimals 5 (o_min s) \<and> decimals 5 (o_step s)"

definition nearest_step :: "slider \<Rightarrow> rat \<Rightarrow> int" where
  "nearest_step s v = max 0 (min (steps s) \<lfloor>(v - o_min s) / o_step s + 1 / 2\<rfloor>)"

lemma proper_steps: "proper_slider s \<Longrightarrow> 0 \<le> steps s \<and> (o_max s - o_min s) / o_step s = of_int (steps s)"
  by (auto simp: proper_slider_def grid_value_def steps_def field_simps)

lemma round_remainder:
  fixes x d :: rat
  assumes "0 < d"
  defines "r \<equiv> x - d * of_int \<lfloor>x / d\<rfloor>"
  shows "(if d \<le> \<bar>r\<bar> * 2 then x - r + (if 0 < r then d else - d) else x - r) = d * of_int \<lfloor>x / d + 1 / 2\<rfloor>"
proof -
  define q where "q = \<lfloor>x / d\<rfloor>"
  have "of_int q \<le> x / d" "x / d < of_int q + 1" unfolding q_def by linarith+
  then have r: "0 \<le> r" "r < d" using assms(1) by (simp_all add: r_def q_def [symmetric] field_simps)
  have x: "x / d = of_int q + r / d" using assms(1) by (simp add: r_def q_def field_simps)
  show ?thesis
  proof (cases "d \<le> r * 2")
    case True
    then have "\<lfloor>x / d + 1 / 2\<rfloor> = q + 1" using r assms(1) by (intro floor_unique) (simp_all add: x field_simps)
    then show ?thesis using True r assms(1) by (simp add: r_def q_def [symmetric] algebra_simps)
  next
    case False
    then have "\<lfloor>x / d + 1 / 2\<rfloor> = q" using r assms(1) by (intro floor_unique) (simp_all add: x field_simps)
    then show ?thesis using False r by (simp add: r_def q_def [symmetric])
  qed
qed

lemma trim_nearest:
  assumes "proper_slider s"
  shows "trimAlignValue s (Some v) = Some (grid_value s (nearest_step s v))"
proof -
  define t where "t = (v - o_min s) / o_step s"
  have p: "0 < o_step s" "grid_value s (steps s) = o_max s" "decimals 5 (o_min s)" "decimals 5 (o_step s)"
    using assms by (simp_all add: proper_slider_def)
  note N = proper_steps [OF assms]
  have t: "v \<le> o_min s \<longleftrightarrow> t \<le> 0" "o_max s \<le> v \<longleftrightarrow> of_int (steps s) \<le> t"
    using p(1) N by (auto simp: t_def field_simps)
  consider "t \<le> 0" | "0 < t" "of_int (steps s) \<le> t" | "0 < t" "t < of_int (steps s)" by linarith
  then show ?thesis
  proof cases
    case 1
    then have "\<lfloor>t + 1 / 2\<rfloor> \<le> 0" by linarith
    then have "max 0 (min (steps s) \<lfloor>t + 1 / 2\<rfloor>) = 0" by (intro max_absorb1 min.coboundedI2)
    then show ?thesis using 1 t N by (simp add: trimAlignValue_def nearest_step_def t_def [symmetric] grid_value_def)
  next
    case 2
    then have "steps s \<le> \<lfloor>t + 1 / 2\<rfloor>" by linarith
    then have "max 0 (min (steps s) \<lfloor>t + 1 / 2\<rfloor>) = steps s" using N by simp
    then show ?thesis using 2 t N p(2) by (simp add: trimAlignValue_def nearest_step_def t_def [symmetric])
  next
    case 3
    then have k: "0 \<le> \<lfloor>t + 1 / 2\<rfloor>" "\<lfloor>t + 1 / 2\<rfloor> \<le> steps s" by linarith+
    have e: "v - o_min s - o_step s * of_int \<lfloor>(v - o_min s) / o_step s\<rfloor> = r \<Longrightarrow>
      (if o_step s \<le> \<bar>r\<bar> * 2 then v - r + (if 0 < r then o_step s else - o_step s) else v - r) = grid_value s \<lfloor>t + 1 / 2\<rfloor>" for r
      using round_remainder [OF p(1), of "v - o_min s"] unfolding t_def grid_value_def by (auto split: if_splits)
    have "to_fixed 5 (grid_value s k) = grid_value s k" for k
      unfolding grid_value_def by (intro to_fixed_id decimals_grid p)
    then show ?thesis using 3 t p(1) k e [OF refl]
      by (simp add: trimAlignValue_def Let_def nearest_step_def t_def [symmetric] min_absorb2 max_absorb2)
  qed
qed

lemma slider_value_bounds:
  assumes "proper_slider s"
  shows "o_min s \<le> grid_value s (nearest_step s v) \<and> grid_value s (nearest_step s v) \<le> o_max s"
proof -
  have p: "0 < o_step s" "grid_value s (steps s) = o_max s" using assms by (simp_all add: proper_slider_def)
  have k: "0 \<le> nearest_step s v" "nearest_step s v \<le> steps s" using proper_steps [OF assms] by (simp_all add: nearest_step_def)
  then have "grid_value s (nearest_step s v) \<le> grid_value s (steps s)" using p(1) by (simp add: grid_value_def)
  then show ?thesis using k p by (simp add: p(2)) (simp add: grid_value_def)
qed

text \<open>
  C36: if a whole number of steps leads from the minimum to the maximum, and minimum and step have at most five
  decimals, to which the code rounds, the value that is taken for any number
  is a step between both, and no step is nearer to the number.
\<close>

theorem slider_value_is_nearest:
  assumes "proper_slider s"
  shows "\<exists>k. 0 \<le> k \<and> k \<le> steps s \<and> trimAlignValue s (Some v) = Some (grid_value s k) \<and>
    o_min s \<le> grid_value s k \<and> grid_value s k \<le> o_max s \<and>
    (\<forall>j\<in>{0..steps s}. \<bar>grid_value s k - v\<bar> \<le> \<bar>grid_value s j - v\<bar>)"
proof (intro exI [of _ "nearest_step s v"] conjI ballI)
  note N = proper_steps [OF assms]
  have p: "0 < o_step s" "grid_value s (steps s) = o_max s" using assms by (simp_all add: proper_slider_def)
  show k: "0 \<le> nearest_step s v" "nearest_step s v \<le> steps s" using N by (simp_all add: nearest_step_def)
  show "trimAlignValue s (Some v) = Some (grid_value s (nearest_step s v))" by (rule trim_nearest [OF assms])
  show "o_min s \<le> grid_value s (nearest_step s v)" "grid_value s (nearest_step s v) \<le> o_max s"
    using slider_value_bounds [OF assms] by blast+
  fix j assume j: "j \<in> {0..steps s}"
  define t where "t = (v - o_min s) / o_step s"
  have dist: "\<bar>grid_value s i - v\<bar> = o_step s * \<bar>of_int i - t\<bar>" for i
  proof -
    have "grid_value s i - v = o_step s * (of_int i - t)" using p(1) by (simp add: grid_value_def t_def field_simps)
    then show ?thesis using p(1) by (simp add: abs_mult)
  qed
  have "\<bar>of_int (nearest_step s v) - t\<bar> \<le> \<bar>of_int j - t\<bar>"
  proof -
    define k where "k = \<lfloor>t + 1 / 2\<rfloor>"
    have kt: "of_int k \<le> t + 1 / 2" "t + 1 / 2 < of_int k + 1" unfolding k_def by linarith+
    consider "k < 0" | "steps s < k" "0 \<le> k" | "0 \<le> k" "k \<le> steps s" by linarith
    then show ?thesis
    proof cases
      case 1
      then have n: "nearest_step s v = 0" using N by (simp add: nearest_step_def t_def [symmetric] k_def [symmetric])
      have "of_int k \<le> (- 1 :: rat)" "0 \<le> (of_int j :: rat)" using 1 j by simp_all
      then show ?thesis using kt n by simp
    next
      case 2
      then have n: "nearest_step s v = steps s" using N by (simp add: nearest_step_def t_def [symmetric] k_def [symmetric])
      have "of_int (steps s) + 1 \<le> (of_int k :: rat)" using 2(1) by (metis of_int_1 of_int_add of_int_le_iff zless_imp_add1_zle)
      moreover have "of_int j \<le> (of_int (steps s) :: rat)" using j by simp
      ultimately show ?thesis using kt n by simp
    next
      case 3
      then have n: "nearest_step s v = k" by (simp add: nearest_step_def t_def [symmetric] k_def [symmetric])
      consider "j = k" | "j + 1 \<le> k" | "k + 1 \<le> j" by linarith
      then show ?thesis
      proof cases
        case 2
        then have "of_int j + 1 \<le> (of_int k :: rat)" by (metis of_int_1 of_int_add of_int_le_iff)
        then show ?thesis unfolding n using kt by linarith
      next
        case 3
        then have "of_int k + 1 \<le> (of_int j :: rat)" by (metis of_int_1 of_int_add of_int_le_iff)
        then show ?thesis unfolding n using kt by linarith
      qed (simp add: n)
    qed
  qed
  then show "\<bar>grid_value s (nearest_step s v) - v\<bar> \<le> \<bar>grid_value s j - v\<bar>" unfolding dist using p(1) by simp
qed


section \<open>The handles of a range\<close>

definition aligned :: "slider \<Rightarrow> rat \<Rightarrow> rat" where
  "aligned s v = grid_value s (nearest_step s v)"

lemma trim_aligned: "proper_slider s \<Longrightarrow> trimAlignValue s (Some v) = Some (aligned s v)"
  by (simp add: aligned_def trim_nearest)

lemma aligned_mono:
  assumes "proper_slider s" and "u \<le> v"
  shows "aligned s u \<le> aligned s v"
proof -
  have p: "0 < o_step s" using assms(1) by (simp add: proper_slider_def)
  have "(u - o_min s) / o_step s + 1 / 2 \<le> (v - o_min s) / o_step s + 1 / 2" using p assms(2) by (simp add: divide_right_mono)
  then have "\<lfloor>(u - o_min s) / o_step s + 1 / 2\<rfloor> \<le> \<lfloor>(v - o_min s) / o_step s + 1 / 2\<rfloor>" by (rule floor_mono)
  then have "nearest_step s u \<le> nearest_step s v" by (simp add: nearest_step_def)
  then show ?thesis using p by (simp add: aligned_def grid_value_def)
qed

lemma aligned_idem:
  assumes "proper_slider s"
  shows "aligned s (aligned s v) = aligned s v"
proof -
  have p: "0 < o_step s" using assms by (simp add: proper_slider_def)
  define k where "k = nearest_step s v"
  have k: "0 \<le> k" "k \<le> steps s" using proper_steps [OF assms] by (simp_all add: k_def nearest_step_def)
  have "(grid_value s k - o_min s) / o_step s = of_int k" using p by (simp add: grid_value_def)
  moreover have "\<lfloor>of_int k + 1 / 2 :: rat\<rfloor> = k" by (simp add: floor_unique)
  ultimately have "nearest_step s (grid_value s k) = k" using k by (simp add: nearest_step_def)
  then show ?thesis by (simp add: aligned_def k_def)
qed

lemma aligned_bounds: "proper_slider s \<Longrightarrow> o_min s \<le> aligned s v \<and> aligned s v \<le> o_max s"
  using slider_value_bounds [of s v] by (simp add: aligned_def)

text \<open>A slider with a range between two handles that are in order.\<close>

fun in_order :: "(rat \<Rightarrow> rat) \<Rightarrow> rat option list option \<Rightarrow> bool" where
  "in_order f (Some [Some a, Some b]) \<longleftrightarrow> f a \<le> f b"
| "in_order f _ \<longleftrightarrow> False"

lemma in_order_iff: "in_order f vs \<longleftrightarrow> (\<exists>a b. vs = Some [Some a, Some b] \<and> f a \<le> f b)"
  by (cases "(f, vs)" rule: in_order.cases) auto

definition ranged :: "slider \<Rightarrow> bool" where
  "ranged s \<longleftrightarrow> proper_slider s \<and> o_range s = Range \<and> n_handles s = 2 \<and>
     (case handleIndex s of None \<Rightarrow> True | Some i \<Rightarrow> i < 2) \<and>
     in_order (aligned s) (o_values s)"

lemma rangedE:
  assumes "ranged s"
  obtains a b where "o_values s = Some [Some a, Some b]" "aligned s a \<le> aligned s b" "proper_slider s" "o_range s = Range" "n_handles s = 2"
  using assms by (auto simp: ranged_def in_order_iff)

definition same_scale :: "slider \<Rightarrow> slider \<Rightarrow> bool" where
  "same_scale t s \<longleftrightarrow> o_min t = o_min s \<and> o_max t = o_max s \<and> o_step t = o_step s"

lemma scale_frame:
  assumes "same_scale t s"
  shows "proper_slider t = proper_slider s" "aligned t = aligned s" "trimAlignValue t = trimAlignValue s"
  using assms by (auto simp: same_scale_def proper_slider_def aligned_def nearest_step_def grid_value_def steps_def trimAlignValue_def fun_eq_iff Let_def split: option.split)

lemma ranged_frame:
  "same_scale t s \<Longrightarrow> o_range t = o_range s \<Longrightarrow> n_handles t = n_handles s \<Longrightarrow> handleIndex t = handleIndex s \<Longrightarrow> o_values t = o_values s \<Longrightarrow>
   ranged t = ranged s"
  using scale_frame [of t s] by (simp add: ranged_def)

lemma refresh_frame:
  "same_scale (refreshValue s) s" "o_range (refreshValue s) = o_range s" "n_handles (refreshValue s) = n_handles s"
  "handleIndex (refreshValue s) = handleIndex s" "o_values (refreshValue s) = o_values s"
  by (simp_all add: refreshValue_def same_scale_def Let_def)

lemma slider_change_frame:
  "same_scale (slider_change i s) s" "o_range (slider_change i s) = o_range s" "n_handles (slider_change i s) = n_handles s"
  "handleIndex (slider_change i s) = handleIndex s" "o_values (slider_change i s) = o_values s"
  by (simp_all add: slider_change_def send_def same_scale_def)

lemma send_frame:
  "same_scale (send c s) s" "o_range (send c s) = o_range s" "n_handles (send c s) = n_handles s"
  "handleIndex (send c s) = handleIndex s" "o_values (send c s) = o_values s"
  by (simp_all add: send_def same_scale_def)

lemmas ranged_kept = ranged_frame [OF refresh_frame] ranged_frame [OF slider_change_frame] ranged_frame [OF send_frame]

lemma has_two: "o_values s = Some [x, y] \<Longrightarrow> has_values s"
  by (simp add: has_values_def)

lemma values_read: "proper_slider s \<Longrightarrow> o_values s = Some [Some a, Some b] \<Longrightarrow> values_get s 0 = Some (aligned s a) \<and> values_get s 1 = Some (aligned s b)"
  by (simp add: values_get_def has_two nth_value_def trim_aligned)

lemma values_set_ranged:
  assumes "ranged s" and "o_values s = Some [Some a, Some b]" and "i = 0 \<and> v \<le> aligned s b \<or> i = 1 \<and> aligned s a \<le> v"
  shows "ranged (values_set i (Some v) s)"
proof -
  have p: "proper_slider s" "o_range s = Range" "n_handles s = 2" and h: "case handleIndex s of None \<Rightarrow> True | Some i \<Rightarrow> i < 2"
    using assms(1) by (simp_all add: ranged_def)
  define t where "t = s\<lparr>o_values := map_option (\<lambda>vs. set_nth_value vs i (trimAlignValue s (Some v))) (o_values s)\<rparr>"
  have scale: "same_scale t s" by (simp add: t_def same_scale_def)
  have "o_values t = Some (if i = 0 then [Some (aligned s v), Some b] else [Some a, Some (aligned s v)])"
    using assms(2,3) by (auto simp: t_def set_nth_value_def trim_aligned [OF p(1)])
  moreover have "i = 0 \<Longrightarrow> aligned s (aligned s v) \<le> aligned s b" "i \<noteq> 0 \<Longrightarrow> aligned s a \<le> aligned s (aligned s v)"
    using assms(3) aligned_mono [OF p(1), of v "aligned s b"] aligned_mono [OF p(1), of "aligned s a" v] aligned_idem [OF p(1)] by auto
  ultimately have "ranged t" using p h scale_frame [OF scale] by (auto simp: ranged_def t_def)
  then have "ranged (slider_change i (refreshValue t))" by (simp only: ranged_kept)
  then show ?thesis by (simp only: values_set_def t_def)
qed

lemma slide_ranged:
  assumes "ranged s" and "i < 2"
  shows "ranged (slide env i (Some v) s)"
proof -
  obtain a b where r: "o_values s = Some [Some a, Some b]" "aligned s a \<le> aligned s b" "proper_slider s" "o_range s = Range"
    using rangedE [OF assms(1)] by blast
  note read = values_read [OF r(3,1)]
  define w where "w = (if i = 0 then min v (aligned s b) else max v (aligned s a))"
  have i: "i = 0 \<or> i = 1" using assms(2) by linarith
  have new: "slide env i (Some v) s = (if Some w = values_get s i then s else
      let s1 = send (Slide i (Some w)) s in if slide_ok env i (Some w) s then values_set i (Some w) s1 else s1)"
    using i r(1,4) read by (auto simp: slide_def has_two num_gt_def w_def min_def max_def Let_def)
  have s1: "ranged (send c s)" "o_values (send c s) = Some [Some a, Some b]" "aligned (send c s) = aligned s" for c
    using assms(1) r(1) scale_frame(2) [OF send_frame(1), of c s] by (simp_all only: ranged_kept send_frame)
  have "ranged (values_set i (Some w) (send c s))" for c
    using i by (intro values_set_ranged [OF s1(1,2)]) (auto simp: s1(3) w_def)
  then show ?thesis using s1(1) assms(1) by (simp add: new Let_def)
qed

lemma closest_less: "closest_handle s nv = Some i \<Longrightarrow> i < n_handles s"
proof -
  have "case snd (foldl (closer s nv) (d, best) xs) of None \<Rightarrow> True | Some i \<Rightarrow> best = Some i \<or> i \<in> set xs" for d best xs
  proof (induction xs arbitrary: d best)
    case (Cons x xs)
    obtain d' best' where c: "closer s nv (d, best) x = (d', best')" by fastforce
    then have "best' = best \<or> best' = Some x" by (auto simp: closer_def split: option.splits if_splits)
    then show ?case using Cons.IH [of best' d'] c by (auto split: option.splits)
  qed (simp split: option.split)
  from this [of None "[0..<n_handles s]" "o_max s - o_min s + 1"] show "closest_handle s nv = Some i \<Longrightarrow> i < n_handles s"
    by (simp add: closest_handle_def)
qed

lemma norm_some: "\<exists>v. normValueFromMouse s e = Some v"
  by (simp add: normValueFromMouse_def trimAlignValue_def Let_def)

lemma capture_ranged:
  assumes "ranged s"
  shows "ranged (fst (mouseCapture env e s))"
proof (cases "o_disabled s")
  case False
  define s1 where "s1 = s\<lparr>elementSize := outer_size env, elementOffset := outer_offset env\<rparr>"
  obtain v where v: "normValueFromMouse s1 e = Some v" using norm_some by blast
  define ix where "ix = closest_handle s1 (Some v)"
  define s3 where "s3 = (send (Start ix) s1)\<lparr>mouseSliding := True, handleIndex := ix\<rparr>"
  have r1: "ranged s1" using assms by (subst ranged_frame [of _ s]) (simp_all add: s1_def same_scale_def)
  then have r2: "ranged (send (Start ix) s1)" by (simp only: ranged_kept)
  have "n_handles s1 = 2" using r1 by (simp add: ranged_def)
  then have ix: "ix = Some i \<Longrightarrow> i < 2" for i using closest_less [of s1 "Some v" i] by (simp add: ix_def)
  have "proper_slider s3 = proper_slider (send (Start ix) s1)" "aligned s3 = aligned (send (Start ix) s1)"
    by (rule scale_frame, simp add: s3_def same_scale_def)+
  then have r3: "ranged s3" using r2 ix by (auto simp: ranged_def s3_def split: option.splits)
  have r4: "ranged (s3\<lparr>clickOffset := c\<rparr>)" for c using r3 by (subst ranged_frame [of _ s3]) (simp_all add: same_scale_def)
  have "ranged (slide env i (Some v) (s3\<lparr>clickOffset := c\<rparr>))" if "ix = Some i" for i c
    using slide_ranged [OF r4 ix [OF that]] .
  then show ?thesis using False r2 r3 r4
    by (simp add: mouseCapture_def s1_def [symmetric] v ix_def [symmetric] s3_def [symmetric] Let_def split_def split: option.split)
qed (simp add: mouseCapture_def assms)

lemma drag_ranged:
  assumes "ranged s"
  shows "ranged (mouseDrag env e s)"
proof (cases "handleIndex s")
  case (Some i)
  then have "i < 2" using assms by (simp add: ranged_def)
  moreover obtain v where "normValueFromMouse s e = Some v" using norm_some by blast
  ultimately show ?thesis using Some assms slide_ranged by (simp add: mouseDrag_def)
qed (simp add: mouseDrag_def assms)

lemma stop_ranged:
  assumes "ranged s"
  shows "ranged (mouseStop s)"
proof -
  define s1 where "s1 = s\<lparr>mouseSliding := False\<rparr>"
  have "ranged s1" using assms by (subst ranged_frame [of _ s]) (simp_all add: s1_def same_scale_def)
  then have 2: "ranged (case handleIndex s1 of None \<Rightarrow> s1 | Some i \<Rightarrow> slider_change i (send (Stop i) s1))"
    by (cases "handleIndex s1") (simp_all only: option.case ranged_kept)
  define s2 where "s2 = (case handleIndex s1 of None \<Rightarrow> s1 | Some i \<Rightarrow> slider_change i (send (Stop i) s1))"
  have "proper_slider (s2\<lparr>handleIndex := None, clickOffset := None\<rparr>) = proper_slider s2"
    "aligned (s2\<lparr>handleIndex := None, clickOffset := None\<rparr>) = aligned s2"
    by (rule scale_frame, simp add: same_scale_def)+
  then have "ranged (s2\<lparr>handleIndex := None, clickOffset := None\<rparr>)" using 2 by (simp add: s2_def [symmetric]) (simp add: ranged_def)
  then show ?thesis by (simp add: mouseStop_def s1_def [symmetric] s2_def [symmetric] Let_def)
qed

definition slider_setup :: "(nat \<Rightarrow> slider_env) \<Rightarrow> (nat \<Rightarrow> mouse_options) \<Rightarrow> nat list \<Rightarrow> bool \<Rightarrow> slider mouse_setup" where
  "slider_setup envs opts ws ie = \<lparr>meths = (\<lambda>w. slider_methods (envs w)), optns = opts, ids = ws, old_ie = ie\<rparr>"

lemmas slider_defs = slider_methods_def slider_setup_def base_methods_def

interpretation sliding: interaction "slider_setup envs opts ws ie" "\<lambda>w b s. P w \<longrightarrow> ranged s"
  by unfold_locales (simp_all add: slider_defs capture_ranged drag_ranged stop_ranged)

text \<open>A page of sliders under mouse and keys; a key reaches a handle that exists.\<close>

datatype slider_input = Mouse page_input | Key_down nat slider_key nat | Key_up nat nat

fun slider_step :: "slider mouse_setup \<Rightarrow> (nat \<Rightarrow> slider_env) \<Rightarrow> slider mouse_page \<Rightarrow> slider_input \<Rightarrow> slider mouse_page" where
  "slider_step c envs p (Mouse e) = page_step c p e"
| "slider_step c envs p (Key_down w k i) =
     (let m = widget p w
      in if i < n_handles (inner m) then put_widget w (m\<lparr>inner := handle_keydown (envs w) k i (inner m)\<rparr>) p else p)"
| "slider_step c envs p (Key_up w i) =
     (let m = widget p w in if i < n_handles (inner m) then put_widget w (m\<lparr>inner := handle_keyup i (inner m)\<rparr>) p else p)"

lemma keydown_ranged:
  assumes "ranged s" and "i < 2"
  shows "ranged (handle_keydown env k i s)"
proof -
  define s1 where "s1 = (if k \<noteq> Other_key \<and> \<not> keySliding s then send (Start (Some i)) (s\<lparr>keySliding := True\<rparr>) else s)"
  have "ranged (s\<lparr>keySliding := True\<rparr>)" using assms(1) by (subst ranged_frame [of _ s]) (simp_all add: same_scale_def)
  then have r1: "ranged s1" using assms(1) unfolding s1_def by (simp only: ranged_kept split: if_split) simp
  then obtain a b where "o_values s1 = Some [Some a, Some b]" "proper_slider s1" using rangedE by metis
  then have cur: "\<exists>c. values_get s1 i = Some c" using values_read [of s1 a b] assms(2) by (auto simp: less_2_cases_iff)
  then have "key_value s1 k (values_get s1 i) = None \<or> (\<exists>v. key_value s1 k (values_get s1 i) = Some (Some v))"
    using trim_aligned [OF \<open>proper_slider s1\<close>] by (cases k) (auto simp: key_value_def Let_def)
  then show ?thesis
    using r1 assms slide_ranged [OF r1 assms(2)] unfolding handle_keydown_def Let_def s1_def [symmetric] by auto
qed

lemma keyup_ranged: "ranged s \<Longrightarrow> ranged (handle_keyup i s)"
  using ranged_frame [of "s\<lparr>keySliding := False\<rparr>" s] by (simp add: handle_keyup_def ranged_kept same_scale_def)

lemma slider_step_inv:
  assumes "sliding.page_inv P p"
  shows "sliding.page_inv P (slider_step (slider_setup envs opts ws ie) envs p e)"
proof (cases e)
  case (Mouse x)
  then show ?thesis using sliding.page_step_inv [OF assms] by simp
next
  case (Key_down w k i)
  have "P w \<Longrightarrow> ranged (inner (widget p w))" using sliding.page_invD [OF assms, of w] by simp
  then have "P w \<Longrightarrow> i < n_handles (inner (widget p w)) \<Longrightarrow> ranged (handle_keydown (envs w) k i (inner (widget p w)))"
    using keydown_ranged by (auto simp: ranged_def)
  then show ?thesis using assms by (auto simp: Key_down Let_def intro!: sliding.page_inv_put)
next
  case (Key_up w i)
  have "P w \<Longrightarrow> ranged (inner (widget p w))" using sliding.page_invD [OF assms, of w] by simp
  then show ?thesis using assms by (auto simp: Key_up Let_def keyup_ranged intro!: sliding.page_inv_put)
qed

lemma created_ranged:
  assumes "proper_slider s" and "o_range s = Range" and "o_values s = None \<or> (\<exists>a b. o_values s = Some [Some a, Some b] \<and> a \<le> b)"
  shows "ranged (create_slider s)"
proof -
  define s1 where "s1 = s\<lparr>keySliding := False, mouseSliding := False, handleIndex := None, lastChanged := None, clickOffset := None,
       n_handles := 0, has_range := False, placed := [], range_place := (None, None), sent := []\<rparr>"
  define t where "t = createHandles (createRange s1)"
  have scale: "same_scale t s" by (simp add: t_def s1_def same_scale_def createHandles_def createRange_def Let_def split: option.split)
  obtain a b where ab: "o_values t = Some [Some a, Some b]" "a \<le> b"
    using assms(2,3) by (auto simp: t_def s1_def createHandles_def createRange_def Let_def)
  have "handleIndex t = None" "o_range t = Range" "n_handles t = 2"
    using assms(2,3) by (auto simp: t_def s1_def createHandles_def createRange_def Let_def)
  then have "ranged t" using ab assms(1) scale_frame [OF scale] aligned_mono [OF assms(1) ab(2)] by (simp add: ranged_def)
  then have "ranged (refreshValue t)" by (simp only: ranged_kept)
  then show ?thesis by (simp only: create_slider_def refresh_slider_def t_def s1_def)
qed

text \<open>
  C35: the two handles of a range never cross and never leave the scale, whatever is done to the sliders of a
  page with mouse and keys and whatever the callbacks refuse, if the slider is created without values or with two
  values in order, a whole number of steps leads from its minimum to its maximum, and minimum and
  step have at most five decimals.
\<close>

theorem range_handles_in_order:
  assumes "proper_slider (s w)" and "o_range (s w) = Range"
    and "o_values (s w) = None \<or> (\<exists>a b. o_values (s w) = Some [Some a, Some b] \<and> a \<le> b)"
    and "p = foldl (slider_step (slider_setup envs opts ws ie) envs) (fresh_mouse (\<lambda>w. create_slider (s w))) es"
  shows "\<exists>a b. values_list (inner (widget p w)) = [Some a, Some b] \<and>
    o_min (inner (widget p w)) \<le> a \<and> a \<le> b \<and> b \<le> o_max (inner (widget p w))"
proof -
  have "ranged (create_slider (s w))" using assms(1-3) by (rule created_ranged)
  then have "sliding.page_inv (\<lambda>v. v = w) (fresh_mouse (\<lambda>w. create_slider (s w)))"
    by (simp add: sliding.page_inv_def fresh_mouse_def mouseInit_def)
  then have "sliding.page_inv (\<lambda>v. v = w) p"
    unfolding assms(4) by (induction es rule: rev_induct) (simp_all add: slider_step_inv)
  from sliding.page_invD [OF this, of w] have "ranged (inner (widget p w))" by simp
  then obtain a b where ab: "o_values (inner (widget p w)) = Some [Some a, Some b]"
    "aligned (inner (widget p w)) a \<le> aligned (inner (widget p w)) b" "proper_slider (inner (widget p w))"
    using rangedE by metis
  then show ?thesis using aligned_bounds [OF ab(3)] by (simp add: values_list_def trim_aligned)
qed


section \<open>Sliders in use\<close>

definition blank_slider :: slider where
  "blank_slider = \<lparr>o_min = 0, o_max = 100, o_step = 10, o_value = Some 0, o_values = None, o_range = No_range, o_vertical = False,
     o_disabled = False, keySliding = False, mouseSliding = False, handleIndex = None, lastChanged = None, clickOffset = None,
     elementSize = (0, 0), elementOffset = Pos 0 0, n_handles = 0, has_range = False, placed = [], range_place = (None, None), sent = []\<rparr>"

definition range_slider :: slider where
  "range_slider = blank_slider\<lparr>o_range := Range, o_values := Some [Some 20, Some 70]\<rparr>"

definition slider_page :: slider_env where
  "slider_page = \<lparr>outer_size = (200, 10), outer_offset = Pos 50 50, handle_offset = (\<lambda>s i. Pos 50 50), handle_size = (\<lambda>i. (20, 20)),
     handle_edges = (\<lambda>i. 0), on_handle = (\<lambda>e. False), hovered = (\<lambda>s. False), start_ok = (\<lambda>i s. True), slide_ok = (\<lambda>i v s. True)\<rparr>"

lemma sample_proper: "proper_slider blank_slider" "proper_slider range_slider" "steps blank_slider = 10"
  by code_simp+

lemma slider_value_is_nearest_witness:
  "\<exists>k. 0 \<le> k \<and> k \<le> 10 \<and> trimAlignValue blank_slider (Some 34) = Some (grid_value blank_slider k) \<and>
     (\<forall>j\<in>{0..10}. \<bar>grid_value blank_slider k - 34\<bar> \<le> \<bar>grid_value blank_slider j - 34\<bar>)"
  using slider_value_is_nearest [OF sample_proper(1), of 34] unfolding sample_proper(3) by blast

definition slider_inputs :: "slider_input list" where
  "slider_inputs = [Mouse (Down (at_point 90) [0]), Mouse (Move (at_point 240)), Mouse (Up (at_point 240)), Key_down 0 End 0, Key_up 0 0]"

lemma range_handles_in_order_witness:
  "\<exists>a b. values_list (inner (widget (foldl (slider_step (slider_setup (\<lambda>w. slider_page) (\<lambda>w. prompt_options) [0] False) (\<lambda>w. slider_page))
      (fresh_mouse (\<lambda>w. create_slider range_slider)) slider_inputs) 0)) = [Some a, Some b] \<and> a \<le> b"
  using range_handles_in_order [of "\<lambda>w. range_slider" 0, OF sample_proper(2) _ _ refl,
      of "\<lambda>w. slider_page" "\<lambda>w. prompt_options" "[0]" False slider_inputs]
  by (auto simp: range_slider_def)

section \<open>What goes wrong\<close>

text \<open>
  A value can be aligned to a step beyond the maximum. A slider that asks for a distance is moved by a press
  already; if the mouse is released where it was pressed, nothing tells the change, and nothing does so
  later when the page sets the value. With values and an empty scale the places are not numbers.
\<close>

lemma aligned_beyond_maximum:
  "trimAlignValue (blank_slider\<lparr>o_max := 11, o_step := 4\<rparr>) (Some (21 / 2)) = Some 12"
  by code_simp

definition far_options :: mouse_options where
  "far_options = prompt_options\<lparr>distance := 5\<rparr>"

lemma click_without_change:
  "let s = inner (widget (run_page (slider_setup (\<lambda>w. slider_page) (\<lambda>w. far_options) [0] False) (fresh_mouse (\<lambda>w. create_slider blank_slider))
       [Down (at_point 90) [0], Up (at_point 90)]) 0)
   in o_value s = Some 20 \<and> mouseSliding s \<and> sent s = [Start (Some 0), Slide 0 (Some 20)] \<and> sent (value_set (Some 50) s) = sent s"
  by code_simp

lemma empty_scale_places:
  "placed (create_slider (range_slider\<lparr>o_max := 0\<rparr>)) = [None, None] \<and> placed (create_slider (blank_slider\<lparr>o_max := 0\<rparr>)) = [Some 0]"
  by code_simp

end
