(* ===== verification/UiSpinner.thy ===== *)
theory UiSpinner
  imports UiGeometry
begin

text \<open>
  Spinners (\<open>spinner.js\<close>): the number in the field of a spinner, changed with keys, buttons, the wheel and
  by the page; and progress bars (\<open>progressbar.js\<close>). Numbers are exact. The field holds nothing, a number that
  the spinner wrote, another text that reads as a number, or a text that does not; there is no \<open>Globalize\<close>.
\<close>

section \<open>State\<close>

datatype spin_field = Empty | Shown rat | Typed rat string | Junk string

datatype incremental = Plain | Accelerated | Custom "nat \<Rightarrow> rat"

datatype spin_call = Spin_start | Spin "rat option" | Spin_stop | Spin_change

text \<open>
  \<open>counter\<close> is 0 where it counts as missing, \<open>timer\<close> the steps that the pending repetition makes, \<open>wheelTimer\<close>
  the pending end of a turn of the wheel; \<open>cancelBlur\<close> is set while a button takes the focus.
\<close>

record spinner =
  sp_field :: spin_field
  sp_min :: "rat option"
  sp_max :: "rat option"
  sp_step :: rat
  sp_page :: rat
  sp_incremental :: incremental
  sp_disabled :: bool
  spinning :: bool
  counter :: nat
  timer :: "rat option"
  wheelTimer :: bool
  cancelBlur :: bool
  focused :: bool
  previous :: spin_field
  sp_sent :: "spin_call list"

text \<open>What the callbacks answer: whether a start, and whether a new value is accepted.\<close>

record spin_env =
  spin_start_ok :: "spinner \<Rightarrow> bool"
  spin_ok :: "rat option \<Rightarrow> spinner \<Rightarrow> bool"

section \<open>Values\<close>

definition parse_field :: "spin_field \<Rightarrow> rat option" where
  "parse_field f = (case f of Empty \<Rightarrow> None | Shown x \<Rightarrow> Some x | Typed x t \<Rightarrow> Some x | Junk t \<Rightarrow> None)"

text \<open>
  What is behind the point in the text of a number. A number below \<open>1e-6\<close> or from \<open>1e21\<close> on is written with an
  exponent, which counts as decimals as soon as there is a point: \<open>1e-7\<close> has the precision 0, \<open>1.5e-7\<close> has 4.
\<close>

definition written_decimals :: "rat \<Rightarrow> nat" where
  "written_decimals x = (case find (\<lambda>p. decimals p x) [0..<18] of None \<Rightarrow> 17 | Some p \<Rightarrow> p)"

definition with_exponent :: "rat \<Rightarrow> nat \<Rightarrow> nat" where
  "with_exponent mantissa e =
     (let q = written_decimals mantissa in if q = 0 then 0 else q + 2 + length (string_of_nat e))"

definition precisionOf :: "rat \<Rightarrow> nat" where
  "precisionOf x =
     (if x \<noteq> 0 \<and> \<bar>x\<bar> < 1 / 10 ^ 6
      then (case find (\<lambda>e. 1 \<le> \<bar>x\<bar> * 10 ^ e) [7..<325] of None \<Rightarrow> 0 | Some e \<Rightarrow> with_exponent (x * 10 ^ e) e)
      else if 10 ^ 21 \<le> \<bar>x\<bar>
      then (case find (\<lambda>e. \<bar>x\<bar> < 10 ^ (e + 1)) [21..<309] of None \<Rightarrow> 0 | Some e \<Rightarrow> with_exponent (x / 10 ^ e) e)
      else written_decimals x)"

definition precision :: "spinner \<Rightarrow> nat" where
  "precision s = (case sp_min s of None \<Rightarrow> precisionOf (sp_step s) | Some m \<Rightarrow> max (precisionOf (sp_step s)) (precisionOf m))"

text \<open>
  Without a step the division gives no number. With exact numbers \<open>to_fixed\<close> only cuts what has more decimals
  than step and minimum are written with; the errors of floating point, which the code repairs with it, do not occur.
\<close>

definition adjustValue :: "spinner \<Rightarrow> rat \<Rightarrow> rat option" where
  "adjustValue s v =
     (if sp_step s = 0 then None
      else let base = (case sp_min s of None \<Rightarrow> 0 | Some m \<Rightarrow> m);
               aboveMin = round_js ((v - base) / sp_step s) * sp_step s;
               x = to_fixed (precision s) (base + aboveMin)
           in Some (case sp_max s of
                Some b \<Rightarrow> if b < x then b else (case sp_min s of Some a \<Rightarrow> if x < a then a else x | None \<Rightarrow> x)
              | None \<Rightarrow> (case sp_min s of Some a \<Rightarrow> if x < a then a else x | None \<Rightarrow> x)))"

definition number_field :: "rat option \<Rightarrow> spin_field" where
  "number_field x = (case x of None \<Rightarrow> Junk ''NaN'' | Some y \<Rightarrow> Shown y)"

text \<open>\<open>_value(value, allowAny)\<close>\<close>

definition put_value :: "spin_field \<Rightarrow> bool \<Rightarrow> spinner \<Rightarrow> spinner" where
  "put_value v allowAny s =
     s\<lparr>sp_field := (case parse_field v of None \<Rightarrow> v
        | Some x \<Rightarrow> if allowAny then Shown x else number_field (adjustValue s x))\<rparr>"

definition increment :: "spinner \<Rightarrow> nat \<Rightarrow> rat" where
  "increment s i =
     (case sp_incremental s of
        Plain \<Rightarrow> 1
      | Custom f \<Rightarrow> f i
      | Accelerated \<Rightarrow> of_int \<lfloor>(of_nat (i * i * i) / 50000 - of_nat (i * i) / 500 + 17 * of_nat i / 200 + 1 :: rat)\<rfloor>)"

section \<open>Spinning\<close>

definition tell :: "spin_call \<Rightarrow> spinner \<Rightarrow> spinner" where
  "tell c s = s\<lparr>sp_sent := sp_sent s @ [c]\<rparr>"

definition spin_start :: "spin_env \<Rightarrow> spinner \<Rightarrow> spinner \<times> bool" where
  "spin_start env s =
     (let s1 = (if spinning s then s else tell Spin_start s)
      in if \<not> spinning s \<and> \<not> spin_start_ok env s then (s1, False)
         else (s1\<lparr>counter := (if counter s = 0 then 1 else counter s), spinning := True\<rparr>, True))"

definition spin :: "spin_env \<Rightarrow> rat \<Rightarrow> spinner \<Rightarrow> spinner" where
  "spin env step s =
     (let cur = (case parse_field (sp_field s) of None \<Rightarrow> 0 | Some x \<Rightarrow> x);
          s1 = s\<lparr>counter := (if counter s = 0 then 1 else counter s)\<rparr>;
          v = adjustValue s1 (cur + step * increment s1 (counter s1));
          s2 = (if spinning s1 then tell (Spin v) s1 else s1)
      in if spinning s1 \<and> \<not> spin_ok env v s1 then s2
         else let s3 = put_value (number_field v) False s2 in s3\<lparr>counter := counter s3 + 1\<rparr>)"

definition repeat :: "spin_env \<Rightarrow> rat \<Rightarrow> spinner \<Rightarrow> spinner" where
  "repeat env n s = spin env (n * sp_step s) (s\<lparr>timer := Some n\<rparr>)"

definition spin_stop :: "spinner \<Rightarrow> spinner" where
  "spin_stop s =
     (if spinning s then tell Spin_stop (s\<lparr>timer := None, wheelTimer := False, counter := 0, spinning := False\<rparr>) else s)"

text \<open>\<open>modifier\<close>: a change of the field is told.\<close>

definition modifier :: "(spinner \<Rightarrow> spinner) \<Rightarrow> spinner \<Rightarrow> spinner" where
  "modifier fn s = (let s' = fn s in if sp_field s' \<noteq> sp_field s then tell Spin_change s' else s')"

definition step_by :: "spin_env \<Rightarrow> rat \<Rightarrow> spinner \<Rightarrow> spinner" where
  "step_by env n s = (let (s1, ok) = spin_start env s in if ok then spin_stop (spin env n s1) else s1)"

text \<open>Steps of 0 count as missing: one step.\<close>

definition or_one :: "rat \<Rightarrow> rat" where
  "or_one n = (if n = 0 then 1 else n)"

definition stepUp :: "spin_env \<Rightarrow> rat \<Rightarrow> spinner \<Rightarrow> spinner" where
  "stepUp env n = modifier (\<lambda>s. step_by env (or_one n * sp_step s) s)"

definition stepDown :: "spin_env \<Rightarrow> rat \<Rightarrow> spinner \<Rightarrow> spinner" where
  "stepDown env n = modifier (\<lambda>s. step_by env (or_one n * - sp_step s) s)"

definition pageUp :: "spin_env \<Rightarrow> rat \<Rightarrow> spinner \<Rightarrow> spinner" where
  "pageUp env n = modifier (\<lambda>s. step_by env (or_one (or_one n * sp_page s) * sp_step s) s)"

definition pageDown :: "spin_env \<Rightarrow> rat \<Rightarrow> spinner \<Rightarrow> spinner" where
  "pageDown env n = modifier (\<lambda>s. step_by env (or_one (or_one n * sp_page s) * - sp_step s) s)"

definition set_value :: "spin_field \<Rightarrow> spinner \<Rightarrow> spinner" where
  "set_value v = modifier (put_value v False)"

text \<open>Texts as options are read first; what is no number gives no limit.\<close>

datatype spin_option = Opt_min spin_field | Opt_max spin_field | Opt_step rat | Opt_page rat | Opt_incremental incremental | Opt_disabled bool

fun spinner_setOption :: "spin_option \<Rightarrow> spinner \<Rightarrow> spinner" where
  "spinner_setOption (Opt_min v) s = s\<lparr>sp_min := parse_field v\<rparr>"
| "spinner_setOption (Opt_max v) s = s\<lparr>sp_max := parse_field v\<rparr>"
| "spinner_setOption (Opt_step d) s = s\<lparr>sp_step := d\<rparr>"
| "spinner_setOption (Opt_page d) s = s\<lparr>sp_page := d\<rparr>"
| "spinner_setOption (Opt_incremental i) s = s\<lparr>sp_incremental := i\<rparr>"
| "spinner_setOption (Opt_disabled b) s = s\<lparr>sp_disabled := b\<rparr>"

definition spinner_setOptions :: "spin_option list \<Rightarrow> spinner \<Rightarrow> spinner" where
  "spinner_setOptions os = modifier (\<lambda>s. let s' = fold spinner_setOption os s in put_value (sp_field s') False s')"

text \<open>A new spinner formats its value but does not constrain it.\<close>

definition create_spinner :: "spinner \<Rightarrow> spinner" where
  "create_spinner s =
     put_value (sp_field s) True (s\<lparr>spinning := False, counter := 0, timer := None, wheelTimer := False, cancelBlur := False, sp_sent := []\<rparr>)"

section \<open>Events\<close>

datatype spin_key = K_up | K_down | K_page_up | K_page_down | K_other

definition spinner_keydown :: "spin_env \<Rightarrow> spin_key \<Rightarrow> spinner \<Rightarrow> spinner" where
  "spinner_keydown env k s =
     (let (s1, ok) = spin_start env s
      in if \<not> ok then s1
         else case k of K_up \<Rightarrow> repeat env 1 s1 | K_down \<Rightarrow> repeat env (- 1) s1 | K_page_up \<Rightarrow> repeat env (sp_page s1) s1
                | K_page_down \<Rightarrow> repeat env (- sp_page s1) s1 | K_other \<Rightarrow> s1)"

definition spinner_blur :: "spinner \<Rightarrow> spinner" where
  "spinner_blur s =
     (if cancelBlur s then s\<lparr>cancelBlur := False\<rparr>
      else let s1 = spin_stop s in if previous s1 \<noteq> sp_field s1 then tell Spin_change s1 else s1)"

definition spinner_wheel :: "spin_env \<Rightarrow> rat \<Rightarrow> spinner \<Rightarrow> spinner" where
  "spinner_wheel env delta s =
     (if delta = 0 then s
      else let (s1, ok) = (if spinning s then (s, True) else spin_start env s)
           in if \<not> ok then s1 else (spin env ((if 0 < delta then 1 else - 1) * sp_step s1) s1)\<lparr>wheelTimer := True\<rparr>)"

text \<open>A button takes the focus to the field and the mouse holds it.\<close>

definition spinner_press :: "spin_env \<Rightarrow> bool \<Rightarrow> spinner \<Rightarrow> spinner" where
  "spinner_press env up s =
     (let s0 = (if focused s then s else s\<lparr>focused := True, previous := sp_field s\<rparr>);
          (s1, ok) = spin_start env (s0\<lparr>cancelBlur := True\<rparr>)
      in if ok then repeat env (if up then 1 else - 1) s1 else s1)"

datatype spin_event =
    Key_pressed spin_key
  | Key_released
  | Focus
  | Blur
  | Wheel rat
  | Press bool
  | Release
  | Leave
  | Enter bool bool
  | Repeats
  | Wheel_over
  | Focus_settled
  | Typing spin_field
  | Step_up rat
  | Step_down rat
  | Page_up rat
  | Page_down rat
  | Value spin_field

text \<open>Handlers of a disabled spinner are not called; its methods and timers are.\<close>

fun spin_event_step :: "spin_env \<Rightarrow> spin_event \<Rightarrow> spinner \<Rightarrow> spinner" where
  "spin_event_step env (Key_pressed k) s = (if sp_disabled s then s else spinner_keydown env k s)"
| "spin_event_step env Key_released s = (if sp_disabled s then s else spin_stop s)"
| "spin_event_step env Focus s = (if sp_disabled s then s\<lparr>focused := True\<rparr> else s\<lparr>focused := True, previous := sp_field s\<rparr>)"
| "spin_event_step env Blur s = (if sp_disabled s then s\<lparr>focused := False\<rparr> else spinner_blur (s\<lparr>focused := False\<rparr>))"
| "spin_event_step env (Wheel delta) s = (if sp_disabled s then s else spinner_wheel env delta s)"
| "spin_event_step env (Press up) s = (if sp_disabled s then s else spinner_press env up s)"
| "spin_event_step env Release s = (if sp_disabled s then s else spin_stop s)"
| "spin_event_step env Leave s = (if sp_disabled s then s else spin_stop s)"
| "spin_event_step env (Enter active up) s =
     (if sp_disabled s \<or> \<not> active then s
      else let (s1, ok) = spin_start env s in if ok then repeat env (if up then 1 else - 1) s1 else s1)"
| "spin_event_step env Repeats s = (case timer s of None \<Rightarrow> s | Some n \<Rightarrow> repeat env n s)"
| "spin_event_step env Wheel_over s = (if wheelTimer s then spin_stop (s\<lparr>wheelTimer := False\<rparr>) else s)"
| "spin_event_step env Focus_settled s = s\<lparr>cancelBlur := False\<rparr>"
| "spin_event_step env (Typing f) s = s\<lparr>sp_field := f\<rparr>"
| "spin_event_step env (Step_up n) s = stepUp env n s"
| "spin_event_step env (Step_down n) s = stepDown env n s"
| "spin_event_step env (Page_up n) s = pageUp env n s"
| "spin_event_step env (Page_down n) s = pageDown env n s"
| "spin_event_step env (Value v) s = set_value v s"

definition spin_events :: "spin_env \<Rightarrow> spin_event list \<Rightarrow> spinner \<Rightarrow> spinner" where
  "spin_events env es s = fold (spin_event_step env) es s"

section \<open>Progress bars\<close>

text \<open>A value is a number, \<open>false\<close> for a bar of unknown progress, or something else.\<close>

datatype bar_value = Number rat | Unknown | Other

datatype bar_call = Bar_change | Bar_complete

record progressbar =
  bar_max :: rat
  bar_value :: "rat option"
  indeterminate :: bool
  oldValue :: "rat option"
  bar_shown :: bool
  bar_right :: bool
  bar_width :: rat
  bar_overlay :: bool
  bar_sent :: "bar_call list"

text \<open>The constrained value, \<open>None\<close> if it is unknown.\<close>

definition constrainedValue :: "rat \<Rightarrow> bar_value \<Rightarrow> rat option" where
  "constrainedValue mx v = (case v of Unknown \<Rightarrow> None | Number x \<Rightarrow> Some (min mx (max 0 x)) | Other \<Rightarrow> Some (min mx (max 0 0)))"

text \<open>A scale without extent gives no percentage, which is no style.\<close>

definition percentage :: "progressbar \<Rightarrow> rat option" where
  "percentage b = (case bar_value b of None \<Rightarrow> Some 100 | Some v \<Rightarrow> if bar_max b = 0 then None else Some (100 * v / bar_max b))"

definition refresh_bar :: "progressbar \<Rightarrow> progressbar" where
  "refresh_bar b =
     (let v = bar_value b; ind = (v = None);
          b1 = b\<lparr>indeterminate := ind, bar_shown := (ind \<or> (case v of None \<Rightarrow> False | Some x \<Rightarrow> 0 < x)),
                 bar_right := (v = Some (bar_max b)), bar_width := (case percentage b of None \<Rightarrow> bar_width b | Some p \<Rightarrow> to_fixed 0 p),
                 bar_overlay := ind\<rparr>;
          b2 = (if oldValue b1 \<noteq> v then b1\<lparr>oldValue := v, bar_sent := bar_sent b1 @ [Bar_change]\<rparr> else b1)
      in if v = Some (bar_max b) then b2\<lparr>bar_sent := bar_sent b2 @ [Bar_complete]\<rparr> else b2)"

definition bar_put :: "bar_value \<Rightarrow> progressbar \<Rightarrow> progressbar" where
  "bar_put v b = refresh_bar (b\<lparr>bar_value := constrainedValue (bar_max b) v\<rparr>)"

text \<open>Options: the maximum is set before the value, which is constrained again.\<close>

definition bar_setOptions :: "rat option \<Rightarrow> bar_value option \<Rightarrow> progressbar \<Rightarrow> progressbar" where
  "bar_setOptions mx v b =
     (let b1 = (case mx of None \<Rightarrow> b | Some x \<Rightarrow> b\<lparr>bar_max := max 0 x\<rparr>)
      in bar_put (case v of Some w \<Rightarrow> w | None \<Rightarrow> (case bar_value b1 of None \<Rightarrow> Unknown | Some x \<Rightarrow> Number x)) b1)"

definition create_bar :: "rat \<Rightarrow> bar_value \<Rightarrow> progressbar" where
  "create_bar mx v =
     (let c = constrainedValue mx v
      in refresh_bar \<lparr>bar_max = mx, bar_value = c, indeterminate = (c = None), oldValue = c, bar_shown = False, bar_right = False,
           bar_width = 0, bar_overlay = False, bar_sent = []\<rparr>)"


section \<open>The number stays within the limits\<close>

definition spin_limits :: "spinner \<Rightarrow> rat \<Rightarrow> bool" where
  "spin_limits s x \<longleftrightarrow> (case sp_min s of None \<Rightarrow> True | Some a \<Rightarrow> a \<le> x) \<and> (case sp_max s of None \<Rightarrow> True | Some b \<Rightarrow> x \<le> b)"

definition limits_agree :: "spinner \<Rightarrow> bool" where
  "limits_agree s \<longleftrightarrow> (case (sp_min s, sp_max s) of (Some a, Some b) \<Rightarrow> a \<le> b | _ \<Rightarrow> True)"

definition shown_ok :: "spinner \<Rightarrow> bool" where
  "shown_ok s \<longleftrightarrow> (case sp_field s of Shown x \<Rightarrow> spin_limits s x | _ \<Rightarrow> True)"

definition by_hand :: "spin_event \<Rightarrow> bool" where
  "by_hand e \<longleftrightarrow> (case e of Typing f \<Rightarrow> (case f of Shown x \<Rightarrow> False | _ \<Rightarrow> True) | _ \<Rightarrow> True)"

lemma adjust_limits: "limits_agree s \<Longrightarrow> adjustValue s v = Some x \<Longrightarrow> spin_limits s x"
  by (auto simp: adjustValue_def limits_agree_def spin_limits_def Let_def split: if_splits option.splits)

text \<open>What every operation keeps: the limits, and a number that it shows is within them.\<close>

definition keeps :: "spinner \<Rightarrow> spinner \<Rightarrow> bool" where
  "keeps s s' \<longleftrightarrow> sp_min s' = sp_min s \<and> sp_max s' = sp_max s \<and> (limits_agree s \<longrightarrow> shown_ok s \<longrightarrow> shown_ok s')"

lemma keeps_refl [simp]: "keeps s s"
  by (simp add: keeps_def)

lemma keeps_trans: "keeps s t \<Longrightarrow> keeps t u \<Longrightarrow> keeps s u"
  by (auto simp: keeps_def limits_agree_def)

lemma keeps_frame: "sp_min s' = sp_min s \<Longrightarrow> sp_max s' = sp_max s \<Longrightarrow> sp_field s' = sp_field s \<Longrightarrow> keeps s s'"
  by (auto simp: keeps_def shown_ok_def spin_limits_def split: spin_field.split)

lemma keeps_put: "keeps s (put_value v False s)"
proof -
  have "shown_ok (put_value v False s)" if "limits_agree s"
  proof (cases "parse_field v")
    case None
    then show ?thesis by (cases v) (simp_all add: put_value_def shown_ok_def parse_field_def)
  next
    case (Some x)
    then show ?thesis using adjust_limits [OF that, of x]
      by (cases "adjustValue s x") (simp_all add: put_value_def shown_ok_def number_field_def spin_limits_def)
  qed
  then show ?thesis by (simp add: keeps_def put_value_def)
qed

lemma keeps_tell: "keeps s (tell c s)"
  by (rule keeps_frame) (simp_all add: tell_def)

lemma keeps_start: "keeps s (fst (spin_start env s))"
  by (rule keeps_frame) (simp_all add: spin_start_def tell_def Let_def)

lemma keeps_stop: "keeps s (spin_stop s)"
  by (rule keeps_frame) (simp_all add: spin_stop_def tell_def)

lemma keeps_spin: "keeps s (spin env n s)"
proof -
  define s1 where "s1 = s\<lparr>counter := (if counter s = 0 then 1 else counter s)\<rparr>"
  define v where "v = adjustValue s1 ((case parse_field (sp_field s) of None \<Rightarrow> 0 | Some x \<Rightarrow> x) + n * increment s1 (counter s1))"
  define s2 where "s2 = (if spinning s1 then tell (Spin v) s1 else s1)"
  define s3 where "s3 = put_value (number_field v) False s2"
  have "keeps s s1" by (rule keeps_frame) (simp_all add: s1_def)
  moreover have "keeps s1 s2" using keeps_tell by (simp add: s2_def)
  ultimately have 2: "keeps s s2" by (rule keeps_trans)
  have "keeps s2 s3" unfolding s3_def by (rule keeps_put)
  with 2 have "keeps s s3" by (rule keeps_trans)
  moreover have "keeps s3 (s3\<lparr>counter := counter s3 + 1\<rparr>)" by (rule keeps_frame) simp_all
  ultimately have 3: "keeps s (s3\<lparr>counter := counter s3 + 1\<rparr>)" by (rule keeps_trans)
  have "spin env n s = (if spinning s1 \<and> \<not> spin_ok env v s1 then s2 else s3\<lparr>counter := counter s3 + 1\<rparr>)"
    unfolding spin_def Let_def s1_def [symmetric] v_def [symmetric] s2_def [symmetric] s3_def [symmetric] by (rule refl)
  then show ?thesis using 2 3 by simp
qed

lemma keeps_repeat: "keeps s (repeat env n s)"
  unfolding repeat_def by (rule keeps_trans [OF _ keeps_spin]) (rule keeps_frame, simp_all)

lemma keeps_modifier: "keeps s (fn s) \<Longrightarrow> keeps s (modifier fn s)"
  using keeps_trans [OF _ keeps_tell] by (simp add: modifier_def Let_def)

lemma keeps_step_by: "keeps s (step_by env n s)"
proof -
  obtain s1 ok where s1: "spin_start env s = (s1, ok)" by fastforce
  then have "keeps s s1" using keeps_start [of s env] by simp
  then show ?thesis using keeps_trans [OF keeps_trans [OF _ keeps_spin] keeps_stop] by (simp add: step_by_def s1)
qed

lemma keeps_after_start: "(\<And>t. keeps t (f t)) \<Longrightarrow> keeps s (case spin_start env s of (s1, ok) \<Rightarrow> if ok then f s1 else s1)"
proof -
  assume f: "\<And>t. keeps t (f t)"
  obtain s1 ok where s1: "spin_start env s = (s1, ok)" by fastforce
  then show ?thesis using keeps_start [of s env] keeps_trans [OF _ f] by simp
qed

lemma keeps_press: "keeps s (spinner_press env up s)"
proof -
  define s0 where "s0 = (if focused s then s else s\<lparr>focused := True, previous := sp_field s\<rparr>)\<lparr>cancelBlur := True\<rparr>"
  have "keeps s s0" by (rule keeps_frame) (simp_all add: s0_def)
  moreover have "keeps s0 (spinner_press env up s)"
    using keeps_after_start [of "repeat env (if up then 1 else - 1)" s0 env] keeps_repeat
    by (simp add: spinner_press_def s0_def Let_def)
  ultimately show ?thesis by (rule keeps_trans)
qed

lemma keeps_keydown: "keeps s (spinner_keydown env k s)"
proof -
  obtain s1 ok where s1: "spin_start env s = (s1, ok)" by fastforce
  then have "keeps s s1" using keeps_start [of s env] by simp
  then show ?thesis using keeps_trans [OF _ keeps_repeat] by (cases k) (simp_all add: spinner_keydown_def s1)
qed

lemma keeps_wheel: "keeps s (spinner_wheel env d s)"
proof -
  obtain s1 ok where s1: "(if spinning s then (s, True) else spin_start env s) = (s1, ok)" by fastforce
  then have "keeps s s1" using keeps_start [of s env] by (auto split: if_splits)
  then have "keeps s (spin env n s1)" for n by (rule keeps_trans [OF _ keeps_spin])
  moreover have "keeps t (t\<lparr>wheelTimer := True\<rparr>)" for t by (rule keeps_frame) simp_all
  ultimately have "keeps s ((spin env n s1)\<lparr>wheelTimer := True\<rparr>)" for n using keeps_trans by blast
  then show ?thesis using \<open>keeps s s1\<close> by (simp add: spinner_wheel_def s1)
qed

lemma keeps_blur: "keeps s (spinner_blur s)"
proof -
  have "keeps s (s\<lparr>cancelBlur := False\<rparr>)" by (rule keeps_frame) simp_all
  moreover have "keeps s (tell c (spin_stop s))" for c by (rule keeps_trans [OF keeps_stop keeps_tell])
  ultimately show ?thesis using keeps_stop by (simp add: spinner_blur_def Let_def)
qed

lemma keeps_event: "by_hand e \<Longrightarrow> keeps s (spin_event_step env e s)"
proof (cases e)
  case Blur
  have "keeps s (s\<lparr>focused := False\<rparr>)" by (rule keeps_frame) simp_all
  then show ?thesis using keeps_trans [OF _ keeps_blur] by (simp add: Blur)
next
  case Wheel_over
  have "keeps s (s\<lparr>wheelTimer := False\<rparr>)" by (rule keeps_frame) simp_all
  then show ?thesis using keeps_trans [OF _ keeps_stop] by (simp add: Wheel_over)
next
  case (Enter active up)
  then show ?thesis using keeps_after_start [of "repeat env (if up then 1 else - 1)" s env] keeps_repeat by simp
next
  case (Typing f)
  assume "by_hand e"
  then show ?thesis by (cases f) (simp_all add: Typing by_hand_def keeps_def shown_ok_def)
qed (auto simp: keeps_keydown keeps_stop keeps_wheel keeps_press keeps_repeat keeps_put keeps_step_by stepUp_def stepDown_def
    pageUp_def pageDown_def set_value_def intro!: keeps_modifier intro: keeps_frame split: option.split)

text \<open>
  C37: whatever keys, buttons, wheel, timers and methods do to a spinner whose limits do not contradict each
  other, and whatever the callbacks refuse, a number that the spinner writes into its field is within its limits.
\<close>

theorem spinner_stays_in_limits:
  assumes "limits_agree s" and "shown_ok s" and "list_all by_hand es"
  shows "shown_ok (spin_events env es s)"
proof -
  have "keeps s (spin_events env es s)"
    using assms(3) unfolding spin_events_def
    by (induction es arbitrary: s) (auto intro: keeps_trans keeps_event)
  then show ?thesis using assms(1,2) by (simp add: keeps_def)
qed

section \<open>Steps\<close>

text \<open>On the grid of its steps, within the limits and with all decimals a number stays as it is.\<close>

definition spin_base :: "spinner \<Rightarrow> rat" where
  "spin_base s = (case sp_min s of None \<Rightarrow> 0 | Some m \<Rightarrow> m)"

definition proper_spinner :: "spinner \<Rightarrow> bool" where
  "proper_spinner s \<longleftrightarrow> sp_step s \<noteq> 0 \<and> decimals (precisionOf (sp_step s)) (sp_step s) \<and>
     (case sp_min s of None \<Rightarrow> True | Some m \<Rightarrow> decimals (precisionOf m) m) \<and>
     (case sp_incremental s of Custom f \<Rightarrow> f 1 = 1 | _ \<Rightarrow> True)"

lemma adjust_on_grid:
  assumes "proper_spinner s" and "spin_limits s x" and "x = spin_base s + sp_step s * of_int k"
  shows "adjustValue s x = Some x"
proof -
  have d: "decimals (precision s) (spin_base s)" "decimals (precision s) (sp_step s)"
  proof -
    have "precisionOf (sp_step s) \<le> precision s" by (simp add: precision_def split: option.split)
    then show "decimals (precision s) (sp_step s)" using assms(1) decimals_mono by (auto simp: proper_spinner_def)
    show "decimals (precision s) (spin_base s)"
    proof (cases "sp_min s")
      case None
      then show ?thesis by (simp add: spin_base_def decimals_def)
    next
      case (Some m)
      then have "decimals (precisionOf m) m" using assms(1) by (simp add: proper_spinner_def)
      then show ?thesis using Some by (simp add: spin_base_def precision_def decimals_mono)
    qed
  qed
  have step: "sp_step s \<noteq> 0" using assms(1) by (simp add: proper_spinner_def)
  then have "(x - spin_base s) / sp_step s = of_int k" using assms(3) by simp
  then have "spin_base s + round_js ((x - spin_base s) / sp_step s) * sp_step s = x" using assms(3) by simp
  moreover have "to_fixed (precision s) x = x" unfolding assms(3) by (intro to_fixed_id decimals_grid d)
  ultimately show ?thesis using step assms(2)
    by (auto simp: adjustValue_def spin_base_def [symmetric] spin_limits_def Let_def split: option.splits)
qed

lemma one_step:
  assumes "proper_spinner s" and "\<not> spinning s" and "counter s = 0" and "spin_start_ok env s"
    and "\<And>v t. spin_ok env v t" and "sp_field s = Shown x" and "spin_limits s (x + n)" and "x + n = spin_base s + sp_step s * of_int k"
  shows "sp_field (step_by env n s) = Shown (x + n) \<and> proper_spinner (step_by env n s) \<and> \<not> spinning (step_by env n s) \<and>
    counter (step_by env n s) = 0 \<and> sp_min (step_by env n s) = sp_min s \<and> sp_max (step_by env n s) = sp_max s \<and>
    sp_step (step_by env n s) = sp_step s"
proof -
  define t where "t = (tell Spin_start s)\<lparr>counter := 1, spinning := True\<rparr>"
  have start: "spin_start env s = (t, True)" using assms(2-4) by (simp add: spin_start_def t_def tell_def Let_def)
  have t: "sp_field t = Shown x" "spinning t" "counter t = 1" using assms(6) by (simp_all add: t_def tell_def)
  have inc: "increment t 1 = 1" using assms(1)
    by (cases "sp_incremental s") (simp_all add: increment_def t_def tell_def proper_spinner_def floor_unique)
  have same: "adjustValue u v = adjustValue s v" if "sp_min u = sp_min s" "sp_max u = sp_max s" "sp_step u = sp_step s" for u v
    unfolding adjustValue_def precision_def that by (rule refl)
  have adj: "adjustValue t (x + n) = Some (x + n)" "adjustValue (tell c t) (x + n) = Some (x + n)" for c
    by (subst same, simp_all add: t_def tell_def adjust_on_grid [OF assms(1,7,8)])+
  have s1: "t\<lparr>counter := (if counter t = 0 then 1 else counter t)\<rparr> = t" by (simp add: t_def)
  have "spin env n t = (let s3 = put_value (number_field (Some (x + n))) False (tell (Spin (Some (x + n))) t) in s3\<lparr>counter := counter s3 + 1\<rparr>)"
    unfolding spin_def Let_def s1
    by (simp only: t(1,2,3) inc adj(1) assms(5) parse_field_def spin_field.case option.case mult_1_right if_True simp_thms if_False)
  also have "\<dots> = (tell (Spin (Some (x + n))) t)\<lparr>sp_field := Shown (x + n), counter := 2\<rparr>"
    unfolding put_value_def parse_field_def number_field_def adj(2) Let_def spin_field.case option.case if_False
    by (simp add: tell_def t_def)
  finally have "spin env n t = (tell (Spin (Some (x + n))) t)\<lparr>sp_field := Shown (x + n), counter := 2\<rparr>" .
  then have "step_by env n s = spin_stop ((tell (Spin (Some (x + n))) t)\<lparr>sp_field := Shown (x + n), counter := 2\<rparr>)"
    by (simp add: step_by_def start)
  then show ?thesis using assms(1) by (simp add: spin_stop_def tell_def t_def proper_spinner_def)
qed

lemma modifier_parts:
  "sp_field (modifier fn s) = sp_field (fn s)" "spinning (modifier fn s) = spinning (fn s)" "counter (modifier fn s) = counter (fn s)"
  "sp_min (modifier fn s) = sp_min (fn s)" "sp_max (modifier fn s) = sp_max (fn s)" "sp_step (modifier fn s) = sp_step (fn s)"
  "proper_spinner (modifier fn s) = proper_spinner (fn s)"
  by (simp_all add: modifier_def tell_def proper_spinner_def Let_def)

text \<open>Where no limit is in the way, steps down undo as many steps up.\<close>

lemma steps_down_undo_up:
  assumes "proper_spinner s" and "\<not> spinning s" and "counter s = 0" and "\<And>t. spin_start_ok env t" and "\<And>v t. spin_ok env v t"
    and "sp_field s = Shown x" and "x = spin_base s + sp_step s * of_int k"
    and "spin_limits s x" and "spin_limits s (x + of_int n * sp_step s)" and "n \<noteq> 0"
  shows "sp_field (stepUp env (of_int n) s) = Shown (x + of_int n * sp_step s) \<and>
    sp_field (stepDown env (of_int n) (stepUp env (of_int n) s)) = Shown x"
proof -
  define d where "d = of_int n * sp_step s"
  have one: "or_one (of_int n) = of_int n" using assms(10) by (simp add: or_one_def)
  have up: "x + d = spin_base s + sp_step s * of_int (k + n)" using assms(7) by (simp add: d_def algebra_simps)
  note s1 = one_step [OF assms(1-3) assms(4) assms(5,6) assms(9) [folded d_def] up]
  define t where "t = stepUp env (of_int n) s"
  have t: "sp_field t = Shown (x + d)" "proper_spinner t" "\<not> spinning t" "counter t = 0" "sp_min t = sp_min s" "sp_max t = sp_max s" "sp_step t = sp_step s"
    using s1 by (simp_all add: t_def stepUp_def modifier_parts one d_def)
  have undo: "spin_limits t (x + d + - d)" "x + d + - d = spin_base t + sp_step t * of_int k"
    using assms(7,8) t by (simp_all add: spin_limits_def spin_base_def)
  have "sp_field (stepDown env (of_int n) t) = Shown (x + d + - d)"
    using one_step [OF t(2,3,4) assms(4) assms(5) t(1) undo] t(7) by (simp add: stepDown_def modifier_parts one d_def)
  then show ?thesis using t(1) by (simp add: t_def d_def)
qed

lemma increment_speeds_up:
  assumes "sp_incremental s = Accelerated"
  shows "1 \<le> increment s i \<and> increment s i \<le> increment s (i + 1)"
proof -
  define f :: "nat \<Rightarrow> rat" where "f i = of_nat (i * i * i) / 50000 - of_nat (i * i) / 500 + 17 * of_nat i / 200 + 1" for i
  have step: "f i \<le> f (i + 1)" for i
  proof -
    define x :: rat where "x = of_nat i"
    have "0 \<le> (6 * x - 197) * (6 * x - 197)" by simp
    then have "0 \<le> 3 * (x * x) - 197 * x + 4151" by (simp add: algebra_simps)
    then show ?thesis by (simp add: f_def x_def [symmetric] field_simps)
  qed
  have "1 \<le> f i" by (induction i) (use step in \<open>auto simp: f_def [of 0] intro: order_trans\<close>)
  moreover have "increment s i = of_int \<lfloor>f i\<rfloor>" for i using assms by (simp add: increment_def f_def)
  ultimately show ?thesis using step [of i] by (simp add: floor_mono)
qed

section \<open>Spinners in use\<close>

definition sample_spinner :: spinner where
  "sample_spinner = \<lparr>sp_field = Shown (3 / 10), sp_min = Some 0, sp_max = Some 1, sp_step = 1 / 10, sp_page = 5, sp_incremental = Accelerated,
     sp_disabled = False, spinning = False, counter = 0, timer = None, wheelTimer = False, cancelBlur = False, focused = False,
     previous = Empty, sp_sent = []\<rparr>"

definition willing :: spin_env where
  "willing = \<lparr>spin_start_ok = (\<lambda>s. True), spin_ok = (\<lambda>v s. True)\<rparr>"

lemma spinner_stays_in_limits_witness:
  "shown_ok (spin_events willing [Press True, Repeats, Repeats, Release, Typing (Typed 7 ''7.0''), Step_up 0] sample_spinner) \<and>
   sp_field (spin_events willing [Press True, Repeats, Repeats, Release, Typing (Typed 7 ''7.0''), Step_up 0] sample_spinner) = Shown 1"
proof
  have "limits_agree sample_spinner" "shown_ok sample_spinner"
    "list_all by_hand [Press True, Repeats, Repeats, Release, Typing (Typed 7 ''7.0''), Step_up 0]" by code_simp+
  then show "shown_ok (spin_events willing [Press True, Repeats, Repeats, Release, Typing (Typed 7 ''7.0''), Step_up 0] sample_spinner)"
    by (rule spinner_stays_in_limits)
  show "sp_field (spin_events willing [Press True, Repeats, Repeats, Release, Typing (Typed 7 ''7.0''), Step_up 0] sample_spinner) = Shown 1"
    by code_simp
qed

lemma steps_down_undo_up_witness:
  "sp_field (stepUp willing (of_int 4) sample_spinner) = Shown (3 / 10 + of_int 4 * sp_step sample_spinner) \<and>
   sp_field (stepDown willing (of_int 4) (stepUp willing (of_int 4) sample_spinner)) = Shown (3 / 10)"
proof (rule steps_down_undo_up [of sample_spinner willing "3 / 10" 3])
  show "proper_spinner sample_spinner" "\<not> spinning sample_spinner" "counter sample_spinner = 0" "sp_field sample_spinner = Shown (3 / 10)"
    "3 / 10 = spin_base sample_spinner + sp_step sample_spinner * of_int 3" "spin_limits sample_spinner (3 / 10)"
    "spin_limits sample_spinner (3 / 10 + of_int 4 * sp_step sample_spinner)"
    by code_simp+
qed (simp_all add: willing_def)

lemma refresh_keeps_value: "bar_value (refresh_bar b) = bar_value b"
  by (simp add: refresh_bar_def Let_def)

lemma bar_in_range: "0 \<le> bar_max b \<Longrightarrow> (case bar_value (bar_put v b) of None \<Rightarrow> True | Some x \<Rightarrow> 0 \<le> x \<and> x \<le> bar_max b)"
  by (cases v) (auto simp: bar_put_def refresh_keeps_value constrainedValue_def)

text \<open>
  Any key starts the spinner and its release stops it, so that typing a digit tells a start and a stop. What is
  typed is not brought into the limits when the field loses the focus.
\<close>

lemma any_key_starts:
  "sp_sent (spin_events willing [Key_pressed K_other, Key_released] sample_spinner) = [Spin_start, Spin_stop]"
  by code_simp

lemma typed_value_stays:
  "sp_field (spin_events willing [Focus, Typing (Typed 7 ''7''), Blur] sample_spinner) = Typed 7 ''7''"
  by code_simp

text \<open>
  A step that is written with an exponent and one digit counts as a whole number: the value is rounded to an
  integer, and a spinner that steps by \<open>1e-7\<close> never leaves its place.
\<close>

lemma written_precision:
  "precisionOf (1 / 10 ^ 6) = 6" "precisionOf (1 / 10 ^ 7) = 0" "precisionOf (15 / 10 ^ 8) = 4" "precisionOf (5 / 2) = 1"
  by code_simp+

lemma small_step_lost:
  "sp_field (stepUp willing 1 (sample_spinner\<lparr>sp_step := 1 / 10 ^ 7, sp_min := None, sp_field := Shown 0\<rparr>)) = Shown 0"
  by code_simp

end
