(* ===== verification/Spec2Isabelle.thy ===== *)
theory Spec2Isabelle
  imports Underscore Json Periscope Polling VirtualNets Details Switches Devices Flows Ports Popups
    Distances Layout Topology Drawing UiPosition UiFactory UiMouse UiDraggable UiResizePlugins UiDialog UiDialogOptions
    UiButton JqDeferred JqDispatch UiDatepickerMonths UiSlider UiSpinner
begin

text \<open>
  The browser side of the IRIS controller: the pages under \<open>src/Torpedo/web\<close>, with which an operator
  watches switches, hosts, flows, ports, virtual networks and the topology, and the parts of jQuery UI
  and jQuery on which its dialogs rest. The program is JavaScript: Angular controllers poll the REST interface of
  the controller with timers, keep what they show in their scopes, and open dialogs; the topology is
  computed and drawn with d3.

  \<^bold>\<open>The parts and how they interact.\<close> \<open>js/periscope.js\<close> has the menu and the service \<open>$iris\<close>, whose
  configuration every controller shares. Each controller of \<open>js/controllers\<close> requests its data again
  some seconds after an answer, and stops when its page is left or its popup is closed. The tables keep
  the ids they have seen in the service and update their rows by the difference of the ids
  (\<open>Underscore\<close>, \<open>Sync\<close>). The topology controller asks for switches, links and hosts in turn, computes
  the distances of all switches, places the nodes around the centre and draws them. A row opens a
  dialog: \<open>widget.js\<close> makes the instance, \<open>dialog.js\<close> opens it and asks \<open>position.js\<close> for its place,
  \<open>draggable.js\<close> and \<open>resizable.js\<close> move and size it through the protocol of \<open>mouse.js\<close>.

  \<^bold>\<open>The theories.\<close> All of them import \<open>Prelude\<close>, which has JSON values, exceptions as values (a sum with
  \<open>js_error\<close>), the conversion of numbers to text, searching and splitting of text.

  \<^item> \<open>Underscore\<close> (\<open>lib/underscore-min.js\<close>): the functions that the controllers call.
    \<open>Json\<close>: reading properties as the controllers do, iteration over objects
    and arrays, \<open>parseInt(s, 16)\<close>.
  \<^item> \<open>Periscope\<close> (\<open>periscope.js\<close>, \<open>index.html\<close>): menu and service, whose slots satisfy the locale
    \<open>iris_slot\<close>. \<open>Polling\<close>: runs of timers, answers and closings of a popup, with the locale \<open>poller\<close> of
    the handlers. \<open>Sync\<close>: the table protocol \<open>synced_table\<close>, interpreted in \<open>VirtualNets\<close> (\<open>vnetworks.js\<close>, \<open>vsubnets.js\<close>, \<open>vports.js\<close>).
  \<^item> \<open>Details\<close> (\<open>status.js\<close>, \<open>switch_desc.js\<close> and the detail views), \<open>Switches\<close> (\<open>switches.js\<close>),
    \<open>Devices\<close> (\<open>devices.js\<close>), \<open>Flows\<close> (\<open>flows.js\<close>), \<open>Ports\<close> (\<open>ports.js\<close>), \<open>Popups\<close> (the dialogs
    that flows and ports are shown in): scope and service as records, one definition per handler of an
    answer, the error callbacks included. Rows that a late answer still refers to live in a heap.
  \<^item> \<open>Distances\<close>, \<open>Layout\<close>, \<open>Topology\<close>, \<open>Drawing\<close> (\<open>topology.js\<close>): the in-place all-pairs distances and
    the estimate of the centre, the placement by eccentricity, the construction of the graph, and the
    brush, the keys and the force ticks on the drawn shapes.
  \<^item> \<open>UiGeometry\<close>: positions as a group, \<open>Math.round\<close>, grid steps. \<open>UiPosition\<close> (\<open>position.js\<close>): parsing
    of \<open>my\<close> and \<open>at\<close>, the collision handlers. \<open>UiWidget\<close> and \<open>UiFactory\<close> (\<open>widget.js\<close>): the deep merge
    and the options; definition and redefinition of widgets, instances, events, the bridge to
    \<open>$.fn\<close>. \<open>UiCore\<close> (\<open>core.js\<close>): plugins, ids, focusable elements.
  \<^item> \<open>UiMouse\<close> (\<open>mouse.js\<close>): all widgets of a page under one stream of mouse events. \<open>UiDraggable\<close>
    (\<open>draggable.js\<close>), \<open>UiResizable\<close> and \<open>UiResizePlugins\<close> (\<open>resizable.js\<close>): the interactions as records
    of methods that the protocol calls, and their plugins.
  \<^item> \<open>UiDialog\<close> and \<open>UiDialogOptions\<close> (\<open>dialog.js\<close>): the dialogs of a page with overlays and focus; size,
    position, buttons, and a dialog that is resized with the mouse.
  \<^item> \<open>UiButton\<close> (\<open>button.js\<close>): the buttons of a dialog, their appearance, and how all buttons of a page
    react to mouse and keyboard; the labels of check boxes and radio buttons show what is checked.
  \<^item> \<open>JqCallbacks\<close>, \<open>JqDeferred\<close>, \<open>JqEvents\<close>, \<open>JqDispatch\<close> (\<open>jquery-1.9.1.js\<close>): callback lists with functions
    that work on their own list; deferred objects with \<open>then\<close> and \<open>when\<close>, as a machine with a stack of
    calls; handlers of elements with types, namespaces and selectors; the calls for one event.
  \<^item> \<open>UiDate\<close>, \<open>UiDateFormat\<close>, \<open>UiDatepicker\<close>, \<open>UiDatepickerRun\<close>, \<open>UiDatepickerMonths\<close> (\<open>datepicker.js\<close>): dates
    and the numbers of weeks; formatting and parsing; one picker with its field, limits, keys and clicks;
    what holds however it is used; the months that it draws.
  \<^item> \<open>UiSlider\<close> (\<open>slider.js\<close>): sliders under mouse and keys, on the protocol of \<open>UiMouse\<close>. \<open>UiSpinner\<close>
    (\<open>spinner.js\<close>, \<open>progressbar.js\<close>): the number of a spinner with its timers, and progress bars.

  \<^bold>\<open>What is shown.\<close> For every table and popup an invariant of all states that timers, answers in any
  order and user actions can reach, and what one answer makes of the table; where an answer makes the
  code throw, that it does and what is lost. A popup that is closed sends no more requests than are due. The distance
  routine computes hop counts and the drawing
  follows its data. The mouse handlers refine an abstract gesture, at most one widget is dragged, and
  each interaction sees its methods called in order; with that, dragging without a grid stays in its containment,
  resizing keeps the opposite edges, the ratio, the limits and, in a positioned parent or the document, the
  containment. Overlays are counted; as long as the option \<open>modal\<close> of an open dialog is not changed, exactly the open modal dialogs
  have one. The newest modal dialog is on top, closing one gives the page back and the focus, unless the handler
  of another modal dialog takes it, and a dialog comes back to where it was dragged. Reading and writing options round trips,
  and definitions of widgets end. A callback list is a queue of functions
  still to be called, whatever the functions do with it, short of emptying it while it fires; a deferred object is
  settled once, in its lists as in its state, for good, and \<open>then\<close> and \<open>when\<close> pass on what they should. Unbinding a namespace undoes what was
  bound under it, and the handlers of an event are called in a fixed order until one stops it. A formatted date is read
  back as the same date when its format is unambiguous. A date picker never gets stuck under the settings
  that \<open>runnable\<close> describes, keeps its selection within the limits as long as the return key is not used, draws calendars and returns
  the day that was clicked. Where the steps of a slider fit its scale its values are the nearest steps and the handles of a range never cross;
  the numbers that a spinner writes are within its limits. Where the code does not do what it means
  to, the statement says what it does instead; the findings of the manifest name these. What a statement
  assumes of settings, pages and runs is said in the text before it.

  \<^bold>\<open>Interfaces.\<close> The laws that one part relies on are locales with interpretations on the model: the slots
  of the service, the handlers of a polling page (\<open>poller\<close>, of which \<open>synced_table\<close> is a refinement), the
  \<open>plugin\<close> of the bridge with its instances, and
  \<open>interaction\<close>, an invariant of what the mouse protocol calls, which is interpreted for a log of the
  calls, for dragging with and without containment, for resizing, for a dialog that is resized and for sliders.

  \<^bold>\<open>Bounds.\<close> The fuel of \<open>define_widget\<close> is the depth of its calls: \<open>redefinition_ends\<close> shows that the
  rank of the name is enough. That of \<open>event_remove\<close> is the depth, too: \<open>unbinding_returns\<close> shows that
  two levels are enough, or none is. That of \<open>delegate_queue\<close> is the number of elements on the way up,
  for which \<open>dispatch_follows_plan\<close> takes the depth of the target. All other recursions are structural or have a termination proof.

  \<^bold>\<open>Abstractions.\<close> Numbers are exact (\<open>nat\<close>, \<open>int\<close>, \<open>rat\<close>, and \<open>real\<close> for sines and cosines); the code adds,
  halves and scales pixels and counters, for which doubles are exact or the rounding is a pixel's
  fraction. What the code repairs of floating point (\<open>toFixed\<close> in sliders and spinners) therefore only cuts
  decimals here. Objects are compared by their contents. \<open>undefined\<close> is \<open>None\<close>. What the code reads of the page (sizes, offsets, styles) and what
  callbacks return are arguments. An answer is any JSON value. A date is a day of the local calendar:
  \<open>datepicker.js\<close> sets the hours to zero and repairs what daylight saving makes of them.

  \<^bold>\<open>Not modelled.\<close> The libraries Angular, d3, Backbone and Bootstrap, of which the source holds
  minified or upstream code that the pages only call; of jQuery, selectors, the functions on the
  document, styles, animation, requests, and triggered events with their default actions; the widgets of jQuery UI that no page uses
  (accordion, autocomplete, effects, menu, tabs, tooltip and others); of the date picker the
  animations, the dialog form and the alternate field; the
  animated \<open>show\<close> and \<open>hide\<close>; sorting and droppables as targets
  of a drag; the markup that widgets create; and the controller itself, which is Java.
\<close>

end
